(* ===== verification/Marks_Prelude.thy ===== *)
theory Marks_Prelude
  imports Main "HOL-Library.Word"
begin

text \<open>
  Shared vocabulary of the development.

  The client is TypeScript. A JavaScript string is modelled as the list of its UTF-16 code
  units (or, where its contents never matter, as a list over a type variable), a
  \<open>Uint8Array\<close> as a list of bytes, and a \<open>number\<close> that the code only ever uses as an
  integer as \<open>int\<close> or \<open>nat\<close>, with the \<open>Number.isSafeInteger\<close> tests of the source kept
  as explicit guards. Exceptions are values of a sum type, \<open>Inl\<close> for the thrown error.

  The theory collects the string and array primitives the components share
  (\<open>js_slice\<close>, \<open>indexOf\<close>, loops that scan a common prefix), and two interfaces as locales:
  codecs (an encoder and a decoder that invert one another) and state machines with an
  invariant. Every component that has a codec or a machine interprets them.
\<close>

named_theorems marks_codec "round-trip equations of the encoders"
named_theorems marks_inv "invariant preservation, one fact per handler"

section \<open>Types\<close>

type_synonym byte = "8 word"
type_synonym bytes = "8 word list"
type_synonym js_text = "16 word list"

abbreviation max_safe_integer :: int where
  "max_safe_integer \<equiv> 9007199254740991"

abbreviation max_safe_nat :: nat where
  "max_safe_nat \<equiv> 9007199254740991"

definition is_safe_integer :: "int \<Rightarrow> bool" where
  "is_safe_integer n \<longleftrightarrow> - max_safe_integer \<le> n \<and> n \<le> max_safe_integer"

lemma is_safe_integer_nat [simp]:
  "is_safe_integer (int n) \<longleftrightarrow> n \<le> 9007199254740991"
  by (simp add: is_safe_integer_def)

lemma unat_byte_lt: "unat (b :: byte) < 256"
  using unsigned_less [of b] by simp

lemma unat_byte_of_nat: "n < 256 \<Longrightarrow> unat (of_nat n :: byte) = n"
  by (simp add: unat_of_nat take_bit_nat_eq_self)

section \<open>Slices\<close>

text \<open>
  \<open>s.slice(a, b)\<close> for non-negative \<open>a\<close> and \<open>b\<close>: both ends are clamped to the length,
  and the result is empty when \<open>b\<close> is not above \<open>a\<close>.
\<close>

definition js_slice :: "nat \<Rightarrow> nat \<Rightarrow> 'a list \<Rightarrow> 'a list" where
  "js_slice a b xs = take (b - a) (drop a xs)"

lemma length_js_slice: "length (js_slice a b xs) = min b (length xs) - a"
  by (auto simp: js_slice_def min_def)

lemma js_slice_all [simp]: "js_slice 0 (length xs) xs = xs"
  by (simp add: js_slice_def)

lemma js_slice_empty [simp]: "b \<le> a \<Longrightarrow> js_slice a b xs = []"
  by (simp add: js_slice_def)

lemma js_slice_0 [simp]: "js_slice 0 b xs = take b xs"
  by (simp add: js_slice_def)

lemma js_slice_append_middle [simp]:
  "js_slice (length xs) (length xs + length ys) (xs @ ys @ zs) = ys"
  by (simp add: js_slice_def)

lemma take_js_slice_drop:
  "a \<le> b \<Longrightarrow> take a xs @ js_slice a b xs @ drop b xs = xs"
proof -
  assume "a \<le> b"
  then have "js_slice a b xs @ drop b xs = drop a xs"
    by (metis append_take_drop_id drop_drop le_add_diff_inverse2 js_slice_def)
  then show ?thesis by simp
qed

lemma js_slice_nth:
  "i < b - a \<Longrightarrow> b \<le> length xs \<Longrightarrow> js_slice a b xs ! i = xs ! (a + i)"
  by (simp add: js_slice_def)

section \<open>Searching: \<open>indexOf\<close>\<close>

text \<open>
  \<open>s.indexOf(needle, start)\<close>: the least offset at or after \<open>start\<close> where the needle
  occurs. \<open>None\<close> stands for the result \<open>-1\<close>.
\<close>

definition occurs_at :: "'a list \<Rightarrow> 'a list \<Rightarrow> nat \<Rightarrow> bool" where
  "occurs_at needle s i \<longleftrightarrow> i + length needle \<le> length s \<and> js_slice i (i + length needle) s = needle"

function index_of :: "'a list \<Rightarrow> 'a list \<Rightarrow> nat \<Rightarrow> nat option" where
  "index_of needle s i =
     (if i + length needle > length s then None
      else if occurs_at needle s i then Some i
      else index_of needle s (Suc i))"
  by pat_completeness auto
termination
  by (relation "measure (\<lambda>(needle, s, i). Suc (length s) - i)") auto

declare index_of.simps [simp del]

lemma index_of_Some:
  "index_of needle s i = Some j \<Longrightarrow>
     i \<le> j \<and> occurs_at needle s j \<and> (\<forall>k. i \<le> k \<longrightarrow> k < j \<longrightarrow> \<not> occurs_at needle s k)"
proof (induction needle s i rule: index_of.induct)
  case (1 needle s i)
  show ?case
  proof (cases "i + length needle > length s \<or> occurs_at needle s i")
    case True
    with "1.prems" show ?thesis
      by (auto simp: index_of.simps [of needle s i] split: if_splits)
  next
    case False
    with "1.prems" have *: "index_of needle s (Suc i) = Some j"
      by (simp add: index_of.simps [of needle s i])
    with "1.IH" False have IH: "Suc i \<le> j \<and> occurs_at needle s j \<and>
        (\<forall>k. Suc i \<le> k \<longrightarrow> k < j \<longrightarrow> \<not> occurs_at needle s k)"
      by simp
    have "\<not> occurs_at needle s k" if "i \<le> k" "k < j" for k
      using that IH False by (cases "k = i") auto
    with IH show ?thesis by auto
  qed
qed

lemma index_of_None:
  "index_of needle s i = None \<Longrightarrow> i \<le> k \<Longrightarrow> \<not> occurs_at needle s k"
proof (induction needle s i rule: index_of.induct)
  case (1 needle s i)
  show ?case
  proof (cases "i + length needle > length s")
    case True
    with "1.prems"(2) show ?thesis by (auto simp: occurs_at_def)
  next
    case False
    with "1.prems"(1) have "\<not> occurs_at needle s i" and "index_of needle s (Suc i) = None"
      by (auto simp: index_of.simps [of needle s i] split: if_splits)
    with "1.IH" False "1.prems"(2) show ?thesis
      by (cases "k = i") auto
  qed
qed

lemma index_of_lt_length:
  "index_of needle s i = Some j \<Longrightarrow> j + length needle \<le> length s"
  by (auto dest: index_of_Some simp: occurs_at_def)

section \<open>Common prefixes\<close>

text \<open>
  The scan \<open>while (from < limit && a[from] === b[from]) from += 1\<close>, and the same scan
  from the right end of two strings.
\<close>

fun common_prefix :: "'a list \<Rightarrow> 'a list \<Rightarrow> nat" where
  "common_prefix (x # xs) (y # ys) = (if x = y then Suc (common_prefix xs ys) else 0)"
| "common_prefix _ _ = 0"

lemma common_prefix_le: "common_prefix xs ys \<le> length xs" "common_prefix xs ys \<le> length ys"
  by (induction xs ys rule: common_prefix.induct) auto

lemma take_common_prefix:
  "take (common_prefix xs ys) xs = take (common_prefix xs ys) ys"
  by (induction xs ys rule: common_prefix.induct) auto

lemma common_prefix_greatest:
  "n \<le> length xs \<Longrightarrow> n \<le> length ys \<Longrightarrow> take n xs = take n ys \<Longrightarrow> n \<le> common_prefix xs ys"
proof (induction xs ys arbitrary: n rule: common_prefix.induct)
  case (1 x xs y ys)
  then show ?case by (cases n) auto
qed auto

section \<open>Lists\<close>

lemma find_SomeD: "List.find P xs = Some x \<Longrightarrow> x \<in> set xs \<and> P x"
  by (induction xs) (auto split: if_splits)

lemma find_append': "List.find P (xs @ ys) = (case List.find P xs of None \<Rightarrow> List.find P ys | Some x \<Rightarrow> Some x)"
  by (induction xs) auto

section \<open>Codecs\<close>

text \<open>
  An encoder and a partial decoder. \<open>codec\<close>: decoding what was encoded returns the value.
  \<open>canonical_codec\<close>: in addition every accepted encoding is the encoding of the value it
  decodes to, so no value has two encodings. \<open>prefix_codec\<close>: the decoder reads one value
  from the front of a buffer and returns the rest, the shape of the \<open>Reader\<close> classes.
\<close>

locale codec =
  fixes enc :: "'a \<Rightarrow> 'b" and dec :: "'b \<Rightarrow> 'a option" and valid :: "'a \<Rightarrow> bool"
  assumes dec_enc: "valid x \<Longrightarrow> dec (enc x) = Some x"
begin

lemma enc_inject: "valid x \<Longrightarrow> valid y \<Longrightarrow> enc x = enc y \<longleftrightarrow> x = y"
  by (metis dec_enc option.inject)

end

locale canonical_codec = codec +
  assumes dec_valid: "dec y = Some x \<Longrightarrow> valid x"
    and enc_dec: "dec y = Some x \<Longrightarrow> enc x = y"
begin

lemma dec_inject: "dec y = Some x \<Longrightarrow> dec z = Some x \<Longrightarrow> y = z"
  using enc_dec by blast

lemma dec_eq_Some_iff: "dec y = Some x \<longleftrightarrow> valid x \<and> enc x = y"
  using dec_enc dec_valid enc_dec by blast

end

locale prefix_codec =
  fixes put :: "'a \<Rightarrow> 'b list" and get :: "'b list \<Rightarrow> ('e + 'a \<times> 'b list)"
    and valid :: "'a \<Rightarrow> bool"
  assumes get_put: "valid x \<Longrightarrow> get (put x @ rest) = Inr (x, rest)"
begin

lemma get_put_nil: "valid x \<Longrightarrow> get (put x) = Inr (x, [])"
  using get_put [of x "[]"] by simp

lemma put_prefix_free:
  "valid x \<Longrightarrow> valid y \<Longrightarrow> put x @ r = put y @ s \<Longrightarrow> x = y \<and> r = s"
  by (metis get_put sum.inject(2) prod.inject)

sublocale whole: codec put "\<lambda>bs. case get bs of Inr (x, []) \<Rightarrow> Some x | _ \<Rightarrow> None" valid
  by unfold_locales (simp add: get_put_nil)

end

section \<open>State machines\<close>

text \<open>
  A deterministic machine: handlers are folded over the list of events delivered to it, and
  an invariant that every handler preserves holds after every run.
\<close>

locale event_machine =
  fixes start :: "'s \<Rightarrow> bool" and step :: "'s \<Rightarrow> 'e \<Rightarrow> 's" and inv :: "'s \<Rightarrow> bool"
  assumes start_inv: "start s \<Longrightarrow> inv s"
    and step_inv: "inv s \<Longrightarrow> inv (step s e)"
begin

lemma run_inv: "inv s \<Longrightarrow> inv (foldl step s es)"
  by (induction es arbitrary: s) (auto simp: step_inv)

lemma reachable_inv: "start s \<Longrightarrow> inv (foldl step s es)"
  by (rule run_inv [OF start_inv])

end

text \<open>A machine that also keeps a state component ordered: it never moves backwards.\<close>

locale monotone_machine = event_machine +
  fixes le :: "'s \<Rightarrow> 's \<Rightarrow> bool"
  assumes le_refl: "le s s"
    and le_trans: "le s t \<Longrightarrow> le t u \<Longrightarrow> le s u"
    and step_le: "inv s \<Longrightarrow> le s (step s e)"
begin

lemma run_le: "inv s \<Longrightarrow> le s (foldl step s es)"
proof (induction es arbitrary: s)
  case Nil
  show ?case by (simp add: le_refl)
next
  case (Cons e es)
  have "le s (step s e)" by (rule step_le [OF Cons.prems])
  moreover have "le (step s e) (foldl step (step s e) es)"
    by (rule Cons.IH [OF step_inv [OF Cons.prems]])
  ultimately show ?case by (auto intro: le_trans)
qed

end

end
