(* ===== verification/Text_Edits.thy ===== *)
theory Text_Edits
  imports Marks_Prelude
begin

text \<open>
  Replacements of UTF-16 ranges, and the three places of the client that produce or consume
  them: \<open>client/src/text/change.ts\<close> (\<open>applyTextEdits\<close>), the markdown worker's delta
  handshake (\<open>client/src/markdown/worker-state.ts\<close>), and the editor bridge of
  \<open>client/src/collab/esbt-engine.ts\<close>: \<open>reconcile\<close> (one minimal replacement that turns the
  editor's text into the replica's), the CodeMirror change iteration that drives the replica,
  and the chunked replacement used for large changes.

  The replica itself is a WebAssembly component. The bridge reaches it only through
  \<open>insert\<close> and \<open>delete\<close> of \<open>EsbtDocument\<close>, each of which is one \<open>replace(from, to, text)\<close>
  call, so a run of the bridge is modelled as the list of those calls, and the text they
  describe is the one \<open>applyTextEdits\<close> computes from them.
\<close>

section \<open>\<open>text/change.ts\<close>\<close>

record 'u text_edit =
  edit_from :: int
  edit_to :: int
  edit_insert :: "'u list"

datatype edit_error = Invalid_Text_Edit int int nat

definition edit_in_range :: "'u text_edit \<Rightarrow> 'u list \<Rightarrow> bool" where
  "edit_in_range e next \<longleftrightarrow>
     is_safe_integer (edit_from e) \<and> is_safe_integer (edit_to e) \<and>
     0 \<le> edit_from e \<and> edit_from e \<le> edit_to e \<and> edit_to e \<le> int (length next)"

definition replace_units :: "nat \<Rightarrow> nat \<Rightarrow> 'u list \<Rightarrow> 'u list \<Rightarrow> 'u list" where
  "replace_units f t ins next = js_slice 0 f next @ ins @ drop t next"

fun applyTextEdits :: "'u list \<Rightarrow> 'u text_edit list \<Rightarrow> edit_error + 'u list" where
  "applyTextEdits next [] = Inr next"
| "applyTextEdits next (e # es) =
     (if \<not> edit_in_range e next
      then Inl (Invalid_Text_Edit (edit_from e) (edit_to e) (length next))
      else applyTextEdits (replace_units (nat (edit_from e)) (nat (edit_to e)) (edit_insert e) next) es)"

definition edit_growth :: "'u text_edit \<Rightarrow> int" where
  "edit_growth e = int (length (edit_insert e)) - (edit_to e - edit_from e)"

lemma length_replace_units [simp]:
  "f \<le> t \<Longrightarrow> t \<le> length s \<Longrightarrow> length (replace_units f t ins s) = length s - (t - f) + length ins"
  by (simp add: replace_units_def)

lemma length_replace_units_in_range:
  "edit_in_range e s \<Longrightarrow>
     int (length (replace_units (nat (edit_from e)) (nat (edit_to e)) (edit_insert e) s)) =
       int (length s) + edit_growth e"
  by (simp add: edit_in_range_def edit_growth_def nat_le_iff of_nat_diff)

lemma applyTextEdits_append:
  "applyTextEdits s (es @ fs) =
     (case applyTextEdits s es of Inl err \<Rightarrow> Inl err | Inr s' \<Rightarrow> applyTextEdits s' fs)"
  by (induction es arbitrary: s) auto

lemma applyTextEdits_length_sum:
  "applyTextEdits s es = Inr s' \<Longrightarrow> int (length s') = int (length s) + sum_list (map edit_growth es)"
proof (induction es arbitrary: s)
  case (Cons e es)
  then have ok: "edit_in_range e s"
    and rest: "applyTextEdits (replace_units (nat (edit_from e)) (nat (edit_to e)) (edit_insert e) s) es = Inr s'"
    by (auto split: if_splits)
  from Cons.IH [OF rest] length_replace_units_in_range [OF ok] show ?case by simp
qed simp

section \<open>\<open>markdown/worker-state.ts\<close>\<close>

datatype resync_reason = Generation | Base_Length | Invalid_Edit | Result_Length

text \<open>A generation is an opaque tag that is only compared, the type variable \<open>'g\<close>.\<close>

record ('g, 'u) patch_request =
  patch_seq :: nat
  patch_edits :: "'u text_edit list"
  patch_generation :: 'g
  patch_baseChars :: nat
  patch_chars :: nat

record 'g resync_response =
  resync_seq :: nat
  resync_generation :: 'g
  resync_actualChars :: nat
  resync_cause :: resync_reason

datatype ('g, 'u) patch_transition = Applied "'u list" | Resync "'g resync_response"

definition transitionPatch :: "'u list \<Rightarrow> 'g \<Rightarrow> ('g, 'u) patch_request \<Rightarrow> ('g, 'u) patch_transition" where
  "transitionPatch current generation request =
     (let resync = (\<lambda>reason. Resync \<lparr>resync_seq = patch_seq request, resync_generation = generation,
                       resync_actualChars = length current, resync_cause = reason\<rparr>)
      in if patch_generation request \<noteq> generation then resync Generation
         else if patch_baseChars request \<noteq> length current then resync Base_Length
         else case applyTextEdits current (patch_edits request) of
                Inl _ \<Rightarrow> resync Invalid_Edit
              | Inr next \<Rightarrow> if length next \<noteq> patch_chars request then resync Result_Length
                            else Applied next)"

lemma transitionPatch_Applied_iff:
  "transitionPatch current g p = Applied next \<longleftrightarrow>
     patch_generation p = g \<and> patch_baseChars p = length current
     \<and> applyTextEdits current (patch_edits p) = Inr next \<and> length next = patch_chars p"
  by (auto simp: transitionPatch_def Let_def split: sum.splits if_splits)

lemma transitionPatch_Resync:
  "transitionPatch current g p = Resync r \<Longrightarrow> resync_seq r = patch_seq p \<and> resync_generation r = g"
  by (auto simp: transitionPatch_def Let_def split: sum.splits if_splits)

section \<open>\<open>EsbtEngine.reconcile\<close>\<close>

function scan_prefix :: "'u list \<Rightarrow> 'u list \<Rightarrow> nat \<Rightarrow> nat \<Rightarrow> nat" where
  "scan_prefix current target shortest from =
     (if from < shortest \<and> current ! from = target ! from
      then scan_prefix current target shortest (from + 1) else from)"
  by pat_completeness auto
termination
  by (relation "measure (\<lambda>(c, t, n, i). n - i)") auto

function scan_suffix :: "'u list \<Rightarrow> 'u list \<Rightarrow> nat \<Rightarrow> nat \<Rightarrow> nat \<Rightarrow> nat \<times> nat" where
  "scan_suffix current target from currentEnd targetEnd =
     (if currentEnd > from \<and> targetEnd > from \<and> current ! (currentEnd - 1) = target ! (targetEnd - 1)
      then scan_suffix current target from (currentEnd - 1) (targetEnd - 1)
      else (currentEnd, targetEnd))"
  by pat_completeness auto
termination
  by (relation "measure (\<lambda>(c, t, f, ce, te). ce)") auto

declare scan_prefix.simps [simp del] scan_suffix.simps [simp del]

definition reconcile :: "'u list \<Rightarrow> 'u list \<Rightarrow> 'u text_edit option" where
  "reconcile current target =
     (if current = target then None
      else let shortest = min (length current) (length target);
               from = scan_prefix current target shortest 0;
               (currentEnd, targetEnd) =
                 scan_suffix current target from (length current) (length target)
           in Some \<lparr>edit_from = int from, edit_to = int currentEnd,
                    edit_insert = js_slice from targetEnd target\<rparr>)"

text \<open>The scans compute common prefixes of what is left, read from either end.\<close>

lemma scan_prefix_eq:
  "i \<le> min (length c) (length t) \<Longrightarrow>
     scan_prefix c t (min (length c) (length t)) i = i + common_prefix (drop i c) (drop i t)"
proof (induction c t "min (length c) (length t)" i rule: scan_prefix.induct)
  case (1 c t i)
  show ?case
  proof (cases "i < min (length c) (length t)")
    case True
    then have d: "drop i c = c ! i # drop (Suc i) c" "drop i t = t ! i # drop (Suc i) t"
      by (simp_all add: Cons_nth_drop_Suc)
    show ?thesis
    proof (cases "c ! i = t ! i")
      case eq: True
      with True have "scan_prefix c t (min (length c) (length t)) i =
          scan_prefix c t (min (length c) (length t)) (i + 1)"
        by (subst scan_prefix.simps) simp
      with 1 True eq d show ?thesis by simp
    next
      case False
      with d show ?thesis by (subst scan_prefix.simps) simp
    qed
  next
    case False
    with "1.prems" have "i = length c \<or> i = length t" by auto
    with False show ?thesis
      by (subst scan_prefix.simps) (cases "drop i c"; cases "drop i t"; auto)
  qed
qed

lemma js_slice_snoc:
  "a < b \<Longrightarrow> b \<le> length xs \<Longrightarrow> js_slice a b xs = js_slice a (b - 1) xs @ [xs ! (b - 1)]"
proof -
  assume "a < b" "b \<le> length xs"
  then have "take (Suc (b - 1 - a)) (drop a xs) = take (b - 1 - a) (drop a xs) @ [drop a xs ! (b - 1 - a)]"
    by (intro take_Suc_conv_app_nth) simp
  with \<open>a < b\<close> \<open>b \<le> length xs\<close> show ?thesis
    by (simp add: js_slice_def Suc_diff_Suc)
qed

lemma scan_suffix_eq:
  "f \<le> ce \<Longrightarrow> f \<le> te \<Longrightarrow> ce \<le> length c \<Longrightarrow> te \<le> length t \<Longrightarrow>
     scan_suffix c t f ce te =
       (let k = common_prefix (rev (js_slice f ce c)) (rev (js_slice f te t)) in (ce - k, te - k))"
proof (induction c t f ce te rule: scan_suffix.induct)
  case (1 c t f ce te)
  show ?case
  proof (cases "f < ce \<and> f < te")
    case True
    with "1.prems" have s: "rev (js_slice f ce c) = c ! (ce - 1) # rev (js_slice f (ce - 1) c)"
        "rev (js_slice f te t) = t ! (te - 1) # rev (js_slice f (te - 1) t)"
      by (simp_all add: js_slice_snoc)
    show ?thesis
    proof (cases "c ! (ce - 1) = t ! (te - 1)")
      case eq: True
      have "f \<le> ce - 1" "f \<le> te - 1" "ce - 1 \<le> length c" "te - 1 \<le> length t"
        using True "1.prems" by auto
      with 1 True eq have "scan_suffix c t f (ce - 1) (te - 1) =
          (let k = common_prefix (rev (js_slice f (ce - 1) c)) (rev (js_slice f (te - 1) t))
           in (ce - 1 - k, te - 1 - k))"
        by blast
      moreover have "scan_suffix c t f ce te = scan_suffix c t f (ce - 1) (te - 1)"
        using True eq by (subst scan_suffix.simps) simp
      ultimately show ?thesis using s eq by (simp add: Let_def)
    next
      case False
      then have "scan_suffix c t f ce te = (ce, te)" by (subst scan_suffix.simps) simp
      with s False show ?thesis by simp
    qed
  next
    case False
    with "1.prems" have "js_slice f ce c = [] \<or> js_slice f te t = []" by auto
    then have "common_prefix (rev (js_slice f ce c)) (rev (js_slice f te t)) = 0"
      by (cases "rev (js_slice f ce c)"; cases "rev (js_slice f te t)") auto
    with False show ?thesis by (subst scan_suffix.simps) auto
  qed
qed

text \<open>
  What the two scans leave: the common prefix of length \<open>diff_prefix\<close> and, of the remainders,
  the common suffix of length \<open>diff_suffix\<close>.
\<close>

definition diff_prefix :: "'u list \<Rightarrow> 'u list \<Rightarrow> nat" where
  "diff_prefix c t = common_prefix c t"

definition diff_suffix :: "'u list \<Rightarrow> 'u list \<Rightarrow> nat" where
  "diff_suffix c t = common_prefix (rev (drop (diff_prefix c t) c)) (rev (drop (diff_prefix c t) t))"

lemma diff_bounds:
  "diff_prefix c t + diff_suffix c t \<le> length c" "diff_prefix c t + diff_suffix c t \<le> length t"
proof -
  have "diff_suffix c t \<le> length c - diff_prefix c t" "diff_suffix c t \<le> length t - diff_prefix c t"
    using common_prefix_le [of "rev (drop (diff_prefix c t) c)" "rev (drop (diff_prefix c t) t)"]
    by (simp_all add: diff_suffix_def)
  with common_prefix_le [of c t] show
    "diff_prefix c t + diff_suffix c t \<le> length c" "diff_prefix c t + diff_suffix c t \<le> length t"
    unfolding diff_prefix_def by linarith+
qed

lemma diff_prefix_same: "take (diff_prefix c t) c = take (diff_prefix c t) t"
  unfolding diff_prefix_def by (rule take_common_prefix)

lemma drop_eq_if_rev_take_eq:
  assumes "take k (rev a) = take k (rev b)" shows "drop (length a - k) a = drop (length b - k) b"
proof -
  have "rev (drop (length a - k) a) = rev (drop (length b - k) b)"
    using assms by (simp only: take_rev)
  then show ?thesis by (simp only: rev_is_rev_conv)
qed

lemma diff_suffix_same: "drop (length c - diff_suffix c t) c = drop (length t - diff_suffix c t) t"
proof -
  let ?p = "diff_prefix c t" and ?k = "diff_suffix c t"
  have "drop (length (drop ?p c) - ?k) (drop ?p c) = drop (length (drop ?p t) - ?k) (drop ?p t)"
    by (rule drop_eq_if_rev_take_eq) (simp only: diff_suffix_def take_common_prefix [symmetric])
  with diff_bounds [of c t] show ?thesis by (simp add: add.commute)
qed

text \<open>Whichever replacement turns one text into the other, the scans reach at least as far.\<close>

lemma diff_greatest:
  assumes "f \<le> g" "g \<le> length c" and t: "t = replace_units f g ins c"
  shows "length c - (diff_prefix c t + diff_suffix c t) \<le> g - f"
    and "length t - (diff_prefix c t + diff_suffix c t) \<le> length ins"
proof -
  let ?p = "diff_prefix c t" and ?k = "diff_suffix c t"
  have lt: "length t = length c - (g - f) + length ins" using assms by simp
  have "take f c = take f t" using assms by (simp add: replace_units_def)
  then have pf: "f \<le> ?p"
    unfolding diff_prefix_def using assms lt by (intro common_prefix_greatest) auto
  have suff: "length c - g \<le> ?k \<or> ?k = length c - ?p \<or> ?k = length t - ?p"
  proof (cases "length c - g \<le> length c - ?p \<and> length c - g \<le> length t - ?p")
    case True
    have gt: "length t - (length c - g) = f + length ins" using assms lt by simp
    have "drop (length c - (length c - g)) c = drop (length t - (length c - g)) t"
      using assms gt by (simp add: replace_units_def)
    then have "take (length c - g) (rev c) = take (length c - g) (rev t)"
      by (simp add: take_rev)
    then have "take (length c - g) (rev (drop ?p c)) = take (length c - g) (rev (drop ?p t))"
      using True by (simp add: rev_drop take_take min_absorb1)
    then have "length c - g \<le> ?k"
      unfolding diff_suffix_def using True by (intro common_prefix_greatest) auto
    then show ?thesis ..
  next
    case False
    let ?m = "min (length c - ?p) (length t - ?p)"
    from False have m: "?m \<le> length c - g" by auto
    have "drop (length c - (length c - g)) c = drop (length t - (length c - g)) t"
      using assms lt by (simp add: replace_units_def)
    then have "take (length c - g) (rev c) = take (length c - g) (rev t)"
      by (simp add: take_rev)
    then have "take ?m (rev c) = take ?m (rev t)"
      using m by (metis min.absorb1 take_take)
    then have "take ?m (rev (drop ?p c)) = take ?m (rev (drop ?p t))"
      by (simp add: rev_drop take_take min.commute)
    then have "?m \<le> ?k"
      unfolding diff_suffix_def by (intro common_prefix_greatest) auto
    with diff_bounds [of c t] show ?thesis by linarith
  qed
  show "length c - (?p + ?k) \<le> g - f" "length t - (?p + ?k) \<le> length ins"
    using pf suff lt assms(1,2) diff_bounds [of c t] by linarith+
qed

lemma js_slice_to_end [simp]: "js_slice a (length xs) xs = drop a xs"
  by (simp add: js_slice_def)

lemma reconcile_shape:
  "c \<noteq> t \<Longrightarrow> reconcile c t =
     Some \<lparr>edit_from = int (diff_prefix c t), edit_to = int (length c - diff_suffix c t),
           edit_insert = js_slice (diff_prefix c t) (length t - diff_suffix c t) t\<rparr>"
  using common_prefix_le [of c t]
  by (simp add: reconcile_def scan_prefix_eq scan_suffix_eq diff_prefix_def diff_suffix_def Let_def)

lemma reconcile_None_iff: "reconcile c t = None \<longleftrightarrow> c = t"
  by (cases "c = t") (simp_all add: reconcile_shape, simp add: reconcile_def)

lemma replace_units_diff:
  "replace_units (diff_prefix c t) (length c - diff_suffix c t)
     (js_slice (diff_prefix c t) (length t - diff_suffix c t) t) c = t"
proof -
  have "diff_prefix c t \<le> length t - diff_suffix c t" using diff_bounds [of c t] by linarith
  from take_js_slice_drop [OF this, of t] show ?thesis
    by (simp add: replace_units_def diff_prefix_same [of c t] diff_suffix_same [of c t])
qed

text \<open>
  The single replacement \<open>reconcile\<close> dispatches turns the editor's text into the replica's.
  Lengths below 2^53 make the offsets safe integers.
\<close>

theorem reconcile_sound:
  assumes "reconcile current target = Some e" and "int (length current) \<le> max_safe_integer"
  shows "applyTextEdits current [e] = Inr target"
proof -
  have ne: "current \<noteq> target" using assms(1) by (auto simp: reconcile_def)
  note b = diff_bounds [of current target]
  have e: "e = \<lparr>edit_from = int (diff_prefix current target),
      edit_to = int (length current - diff_suffix current target),
      edit_insert = js_slice (diff_prefix current target) (length target - diff_suffix current target) target\<rparr>"
    using assms(1) reconcile_shape [OF ne] by simp
  have "edit_in_range e current" using b assms(2) by (simp add: e edit_in_range_def is_safe_integer_def)
  then show ?thesis by (simp add: e replace_units_diff)
qed

theorem reconcile_sound_witness:
  "\<exists>e. reconcile ''abcd'' ''abXd'' = Some e \<and> applyTextEdits ''abcd'' [e] = Inr ''abXd''"
  using reconcile_sound [of "''abcd''" "''abXd''"] reconcile_shape [of "''abcd''" "''abXd''"] by force

text \<open>
  It is the smallest one: any other range replacement with the same effect deletes at least
  as many units and inserts at least as many.
\<close>

theorem reconcile_minimal:
  assumes "reconcile current (replace_units f g ins current) = Some e"
    and "f \<le> g" and "g \<le> length current"
  shows "edit_to e - edit_from e \<le> int (g - f) \<and> length (edit_insert e) \<le> length ins"
proof -
  let ?t = "replace_units f g ins current"
  have ne: "current \<noteq> ?t" using assms(1) by (auto simp: reconcile_def)
  note b = diff_bounds [of current ?t]
  have "edit_to e - edit_from e = int (length current - (diff_prefix current ?t + diff_suffix current ?t))"
    and "length (edit_insert e) = length ?t - (diff_prefix current ?t + diff_suffix current ?t)"
    using reconcile_shape [OF ne] assms(1) b by (auto simp: length_js_slice of_nat_diff)
  with diff_greatest [OF assms(2,3) refl] show ?thesis by simp
qed

theorem reconcile_minimal_witness:
  "\<exists>e. reconcile ''aab'' (replace_units 0 1 ''ac'' ''aab'') = Some e
      \<and> edit_to e - edit_from e \<le> int (1 - 0) \<and> length (edit_insert e) \<le> length ''ac''"
proof -
  have ne: "''aab'' \<noteq> replace_units 0 1 ''ac'' ''aab''" by (simp add: replace_units_def)
  show ?thesis
    using reconcile_minimal [of "''aab''" 0 1 "''ac''"] reconcile_shape [OF ne] by force
qed

end
