(* ===== verification/Editor_Bridge.thy ===== *)
theory Editor_Bridge
  imports Text_Edits
begin

text \<open>
  The editor bridge of \<open>client/src/collab/esbt-engine.ts\<close>: how a CodeMirror update becomes
  replica operations (\<open>syncExtension\<close>), the fallback for changes that are too large for one
  update (\<open>applyChangesInHalves\<close>, \<open>replaceRangeChunked\<close>) and the handler around both, how replica edits are patched back
  into a view (\<open>scheduleEditorPatch\<close>), and the stable ranges used by comments and uploads
  (\<open>captureTextRange\<close>, \<open>resolveTextRange\<close>, \<open>resolveReviewRange\<close>); with the argument checks of
  \<open>EsbtDocument.insert\<close> and \<open>delete\<close> (\<open>client/src/collab/wasm/esbt-document.ts\<close>).
\<close>

section \<open>Replica operations\<close>

datatype 'u doc_op = Doc_Insert int "'u list" | Doc_Delete int int

datatype doc_range_error = Index_Not_U32 int | Endpoint_Exceeds_U32 int

definition checkedIndex :: "int \<Rightarrow> doc_range_error + int" where
  "checkedIndex value = (if value < 0 \<or> value > 4294967295 then Inl (Index_Not_U32 value) else Inr value)"

text \<open>\<open>replaceRange(from, to, text)\<close>: both indices are checked before the component is called.\<close>

definition doc_replaceRange :: "int \<Rightarrow> int \<Rightarrow> 'u list \<Rightarrow> doc_range_error + 'u text_edit" where
  "doc_replaceRange f t ins =
     (case checkedIndex f of Inl e \<Rightarrow> Inl e | Inr f' \<Rightarrow>
      case checkedIndex t of Inl e \<Rightarrow> Inl e | Inr t' \<Rightarrow>
        Inr \<lparr>edit_from = f', edit_to = t', edit_insert = ins\<rparr>)"

fun doc_replace_call :: "'u doc_op \<Rightarrow> doc_range_error + 'u text_edit" where
  "doc_replace_call (Doc_Insert index ins) = doc_replaceRange index index ins"
| "doc_replace_call (Doc_Delete index len) =
     (case checkedIndex index of Inl e \<Rightarrow> Inl e | Inr start \<Rightarrow>
      case checkedIndex len of Inl e \<Rightarrow> Inl e | Inr cnt \<Rightarrow>
        if start + cnt > 4294967295 then Inl (Endpoint_Exceeds_U32 (start + cnt))
        else doc_replaceRange start (start + cnt) [])"

text \<open>The text a sequence of replica operations produces, an error stopping it.\<close>

fun run_doc_ops :: "'u list \<Rightarrow> 'u doc_op list \<Rightarrow> (doc_range_error + edit_error) + 'u list" where
  "run_doc_ops s [] = Inr s"
| "run_doc_ops s (oper # opers) =
     (case doc_replace_call oper of
        Inl e \<Rightarrow> Inl (Inl e)
      | Inr edit \<Rightarrow> (case applyTextEdits s [edit] of
            Inl e \<Rightarrow> Inl (Inr e)
          | Inr s' \<Rightarrow> run_doc_ops s' opers))"

lemma run_doc_ops_append:
  "run_doc_ops s (as @ bs) =
     (case run_doc_ops s as of Inl e \<Rightarrow> Inl e | Inr s' \<Rightarrow> run_doc_ops s' bs)"
  by (induction as arbitrary: s) (auto split: sum.splits)

definition u32_text :: "'u list \<Rightarrow> bool" where
  "u32_text s \<longleftrightarrow> length s \<le> 4294967295"

lemma run_insert:
  "u32_text s \<Longrightarrow> i \<le> length s \<Longrightarrow>
     run_doc_ops s [Doc_Insert (int i) ins] = Inr (replace_units i i ins s)"
  by (simp add: u32_text_def doc_replaceRange_def checkedIndex_def edit_in_range_def is_safe_integer_def)

lemma run_delete:
  "u32_text s \<Longrightarrow> i + n \<le> length s \<Longrightarrow>
     run_doc_ops s [Doc_Delete (int i) (int n)] = Inr (replace_units i (i + n) [] s)"
  by (simp add: u32_text_def doc_replaceRange_def checkedIndex_def edit_in_range_def
      is_safe_integer_def nat_add_distrib)

lemmas run_doc_ops_Cons = run_doc_ops_append [of _ "[oper]" for oper, simplified append_Cons append_Nil]

section \<open>\<open>syncExtension\<close>: CodeMirror changes to replica operations\<close>

text \<open>One change of \<open>update.changes.iterChanges\<close>, in the coordinates of the old text.\<close>

record 'u change =
  fromA :: nat
  toA :: nat
  inserted :: "'u list"

fun iter_changes :: "int \<Rightarrow> 'u change list \<Rightarrow> 'u doc_op list" where
  "iter_changes adjust [] = []"
| "iter_changes adjust (ch # chs) =
     (if toA ch > fromA ch then [Doc_Delete (int (fromA ch) + adjust) (int (toA ch) - int (fromA ch))] else []) @
     (if length (inserted ch) > 0 then [Doc_Insert (int (fromA ch) + adjust) (inserted ch)] else []) @
     iter_changes (adjust + (int (length (inserted ch)) - (int (toA ch) - int (fromA ch)))) chs"

definition sync_ops :: "'u change list \<Rightarrow> 'u doc_op list" where
  "sync_ops chs = iter_changes 0 chs"

text \<open>
  What CodeMirror documents of \<open>iterChanges\<close>: the changes are in document order and do not
  overlap; the new document keeps the text between them.
\<close>

fun changes_ordered :: "nat \<Rightarrow> nat \<Rightarrow> 'u change list \<Rightarrow> bool" where
  "changes_ordered pos len [] \<longleftrightarrow> pos \<le> len"
| "changes_ordered pos len (ch # chs) \<longleftrightarrow>
     pos \<le> fromA ch \<and> fromA ch \<le> toA ch \<and> toA ch \<le> len \<and> changes_ordered (toA ch) len chs"

fun changed_text :: "nat \<Rightarrow> 'u list \<Rightarrow> 'u change list \<Rightarrow> 'u list" where
  "changed_text pos old [] = drop pos old"
| "changed_text pos old (ch # chs) =
     js_slice pos (fromA ch) old @ inserted ch @ changed_text (toA ch) old chs"

lemma changed_text_length:
  "changes_ordered pos (length old) chs \<Longrightarrow>
     int (length (changed_text pos old chs)) =
       int (length old) - int pos + (\<Sum>ch\<leftarrow>chs. int (length (inserted ch)) - (int (toA ch) - int (fromA ch)))"
proof (induction chs arbitrary: pos)
  case (Cons ch chs)
  then have "int (length (changed_text (toA ch) old chs)) =
      int (length old) - int (toA ch) + (\<Sum>ch\<leftarrow>chs. int (length (inserted ch)) - (int (toA ch) - int (fromA ch)))"
    by simp
  moreover have "length (js_slice pos (fromA ch) old) = fromA ch - pos"
    using Cons.prems by (simp add: length_js_slice)
  ultimately show ?case using Cons.prems by simp
qed simp

lemma run_one_change:
  assumes "u32_text (pre @ mid @ post)" "u32_text (pre @ ins @ post)"
  shows "run_doc_ops (pre @ mid @ post)
     ((if 0 < length mid then [Doc_Delete (int (length pre)) (int (length mid))] else []) @
      (if length ins > 0 then [Doc_Insert (int (length pre)) ins] else [])) = Inr (pre @ ins @ post)"
proof -
  have "u32_text (pre @ post)" using assms by (simp add: u32_text_def)
  have del: "run_doc_ops (pre @ mid @ post)
      (if 0 < length mid then [Doc_Delete (int (length pre)) (int (length mid))] else []) = Inr (pre @ post)"
    using run_delete [OF assms(1), of "length pre" "length mid"] by (auto simp: replace_units_def)
  have "run_doc_ops (pre @ post) (if length ins > 0 then [Doc_Insert (int (length pre)) ins] else []) =
      Inr (pre @ ins @ post)"
    using run_insert [OF \<open>u32_text (pre @ post)\<close>, of "length pre" ins] by (auto simp: replace_units_def)
  with del show ?thesis by (simp only: run_doc_ops_append sum.case)
qed

lemma drop_split:
  "a \<le> b \<Longrightarrow> drop a xs = js_slice a b xs @ drop b xs"
  by (metis append_take_drop_id drop_drop js_slice_def le_add_diff_inverse2)

lemma run_iter_changes:
  assumes "changes_ordered pos (length old) chs"
    and "length done + (length old - pos) + (\<Sum>ch\<leftarrow>chs. length (inserted ch)) \<le> 4294967295"
    and "adjust = int (length done) - int pos"
  shows "run_doc_ops (done @ drop pos old) (iter_changes adjust chs) = Inr (done @ changed_text pos old chs)"
  using assms
proof (induction chs arbitrary: pos adjust "done")
  case (Cons ch chs)
  define pre where "pre = done @ js_slice pos (fromA ch) old"
  define mid where "mid = js_slice (fromA ch) (toA ch) old"
  define post where "post = drop (toA ch) old"
  have ord: "pos \<le> fromA ch" "fromA ch \<le> toA ch" "toA ch \<le> length old"
      "changes_ordered (toA ch) (length old) chs"
    using Cons.prems(1) by auto
  have before: "done @ drop pos old = pre @ mid @ post"
    using ord by (simp add: pre_def mid_def post_def drop_split [of pos "fromA ch"] drop_split [of "fromA ch" "toA ch"])
  have lens: "length pre = length done + (fromA ch - pos)" "length mid = toA ch - fromA ch"
      "length post = length old - toA ch"
    using ord by (simp_all add: pre_def mid_def post_def length_js_slice)
  have u: "u32_text (pre @ mid @ post)" "u32_text (pre @ inserted ch @ post)"
    using ord lens Cons.prems(2) by (auto simp: u32_text_def)
  have at: "int (fromA ch) + adjust = int (length pre)" "int (toA ch) - int (fromA ch) = int (length mid)"
    using ord lens Cons.prems(3) by auto
  define here where "here = (if toA ch > fromA ch
      then [Doc_Delete (int (fromA ch) + adjust) (int (toA ch) - int (fromA ch))] else []) @
    (if length (inserted ch) > 0 then [Doc_Insert (int (fromA ch) + adjust) (inserted ch)] else [])"
  define later where "later = iter_changes (adjust + (int (length (inserted ch)) - (int (toA ch) - int (fromA ch)))) chs"
  have iter: "iter_changes adjust (ch # chs) = here @ later" by (simp add: here_def later_def)
  have rest: "run_doc_ops ((pre @ inserted ch) @ drop (toA ch) old) later =
      Inr ((pre @ inserted ch) @ changed_text (toA ch) old chs)"
    unfolding later_def using ord lens Cons.prems(2,3) by (intro Cons.IH) auto
  have first: "run_doc_ops (pre @ mid @ post) here = Inr (pre @ inserted ch @ post)"
    using run_one_change [OF u] lens(2) unfolding here_def at by simp
  have "run_doc_ops (pre @ mid @ post) (here @ later) = Inr ((pre @ inserted ch) @ changed_text (toA ch) old chs)"
    using rest [folded post_def] by (simp add: run_doc_ops_append first)
  then show ?case by (simp only: before iter) (simp add: pre_def)
qed simp

section \<open>\<open>replaceRangeChunked\<close> and \<open>applyChangesInHalves\<close>\<close>

text \<open>\<open>EDITOR_CHUNK_UNITS\<close> of \<open>profile.ts\<close>, read from \<open>engine-profile.json\<close>.\<close>

definition EDITOR_CHUNK_UNITS :: nat where
  "EDITOR_CHUNK_UNITS = 4096"

record 'u transaction =
  tx_ops :: "'u doc_op list"
  tx_origin :: string
  tx_undoGroup :: int

function delete_chunks :: "int \<Rightarrow> int \<Rightarrow> 'u doc_op list list" where
  "delete_chunks f remainingDelete =
     (if remainingDelete > 0
      then let cnt = min remainingDelete (int EDITOR_CHUNK_UNITS)
           in [Doc_Delete f cnt] # delete_chunks f (remainingDelete - cnt)
      else [])"
  by pat_completeness auto
termination
  by (relation "measure (\<lambda>(f, n). nat n)") (auto simp: EDITOR_CHUNK_UNITS_def)

function insert_chunks :: "int \<Rightarrow> 'u list \<Rightarrow> nat \<Rightarrow> 'u doc_op list list" where
  "insert_chunks f ins offset =
     (if offset < length ins
      then [Doc_Insert (f + int offset) (js_slice offset (offset + EDITOR_CHUNK_UNITS) ins)] #
             insert_chunks f ins (offset + EDITOR_CHUNK_UNITS)
      else [])"
  by pat_completeness auto
termination
  by (relation "measure (\<lambda>(f, ins, n). length ins - n)") (auto simp: EDITOR_CHUNK_UNITS_def)

declare delete_chunks.simps [simp del] insert_chunks.simps [simp del]

definition replaceRangeChunked :: "int \<Rightarrow> int \<Rightarrow> 'u list \<Rightarrow> string \<Rightarrow> int \<Rightarrow> 'u transaction list" where
  "replaceRangeChunked f t ins origin undoGroup =
     map (\<lambda>ops. \<lparr>tx_ops = ops, tx_origin = origin, tx_undoGroup = undoGroup\<rparr>)
       (if t - f + int (length ins) \<le> int EDITOR_CHUNK_UNITS
        then [(if t > f then [Doc_Delete f (t - f)] else []) @
              (if length ins > 0 then [Doc_Insert f ins] else [])]
        else delete_chunks f (t - f) @ insert_chunks f ins 0)"

text \<open>\<open>nextUndoGroup\<close> reads the clock at each change: \<open>groups i\<close> is the group of the i-th.\<close>

definition applyChangesInHalves :: "'u change list \<Rightarrow> (nat \<Rightarrow> int) \<Rightarrow> 'u transaction list" where
  "applyChangesInHalves chs groups =
     concat (map (\<lambda>(i, ch). replaceRangeChunked (int (fromA ch)) (int (toA ch)) (inserted ch) ''editor'' (groups i))
       (enumerate 0 chs))"

definition run_transactions :: "'u list \<Rightarrow> 'u transaction list \<Rightarrow> (doc_range_error + edit_error) + 'u list" where
  "run_transactions s txs = run_doc_ops s (concat (map tx_ops txs))"

fun op_units :: "'u doc_op \<Rightarrow> int" where
  "op_units (Doc_Insert _ ins) = int (length ins)"
| "op_units (Doc_Delete _ n) = n"

definition tx_units :: "'u transaction \<Rightarrow> int" where
  "tx_units tx = sum_list (map op_units (tx_ops tx))"

lemma run_delete_chunks:
  assumes "u32_text (pre @ mid @ post)"
  shows "run_doc_ops (pre @ mid @ post) (concat (delete_chunks (int (length pre)) (int (length mid)))) =
           Inr (pre @ post)"
  using assms
proof (induction "length mid" arbitrary: mid rule: less_induct)
  case less
  show ?case
  proof (cases "mid = []")
    case True
    then show ?thesis by (simp add: delete_chunks.simps)
  next
    case False
    define n where "n = min (length mid) EDITOR_CHUNK_UNITS"
    have n: "0 < n" "n \<le> length mid" using False by (auto simp: n_def EDITOR_CHUNK_UNITS_def)
    have unf: "delete_chunks (int (length pre)) (int (length mid)) =
        [Doc_Delete (int (length pre)) (int n)] #
        (delete_chunks (int (length pre)) (int (length (drop n mid))) :: 'a doc_op list list)"
      using False n by (subst delete_chunks.simps) (simp add: n_def Let_def of_nat_diff of_nat_min)
    have "run_doc_ops (pre @ mid @ post) [Doc_Delete (int (length pre)) (int n)] =
        Inr (replace_units (length pre) (length pre + n) [] (pre @ mid @ post))"
      using n less.prems by (intro run_delete) auto
    also have "replace_units (length pre) (length pre + n) [] (pre @ mid @ post) = pre @ drop n mid @ post"
      using n by (simp add: replace_units_def)
    finally have one: "run_doc_ops (pre @ mid @ post) [Doc_Delete (int (length pre)) (int n)] =
        Inr (pre @ drop n mid @ post)" .
    have "run_doc_ops (pre @ drop n mid @ post)
        (concat (delete_chunks (int (length pre)) (int (length (drop n mid))))) = Inr (pre @ post)"
      using less.prems n False by (intro less.hyps) (auto simp: u32_text_def)
    then show ?thesis
      by (simp only: unf concat.simps run_doc_ops_append one sum.case)
  qed
qed

lemma run_insert_chunks:
  assumes "length pre + length ins + length post \<le> 4294967295" and "offset \<le> length ins"
  shows "run_doc_ops (pre @ take offset ins @ post) (concat (insert_chunks (int (length pre)) ins offset)) =
           Inr (pre @ ins @ post)"
  using assms
proof (induction "length ins - offset" arbitrary: offset rule: less_induct)
  case less
  show ?case
  proof (cases "offset < length ins")
    case False
    with less.prems show ?thesis by (simp add: insert_chunks.simps)
  next
    case True
    define chunk where "chunk = js_slice offset (offset + EDITOR_CHUNK_UNITS) ins"
    define next_offset where "next_offset = min (length ins) (offset + EDITOR_CHUNK_UNITS)"
    have step: "take offset ins @ chunk = take next_offset ins"
      unfolding chunk_def next_offset_def js_slice_def using less.prems(2)
      by (simp add: take_add [symmetric] min_def)
    have "insert_chunks (int (length pre)) ins (offset + EDITOR_CHUNK_UNITS) =
        insert_chunks (int (length pre)) ins next_offset"
      by (simp add: next_offset_def min_def insert_chunks.simps)
    then have unf: "insert_chunks (int (length pre)) ins offset =
        [Doc_Insert (int (length pre + offset)) chunk] # insert_chunks (int (length pre)) ins next_offset"
      using True by (subst insert_chunks.simps) (simp add: chunk_def)
    have "run_doc_ops (pre @ take offset ins @ post) [Doc_Insert (int (length pre + offset)) chunk] =
        Inr (replace_units (length pre + offset) (length pre + offset) chunk (pre @ take offset ins @ post))"
      using less.prems True by (intro run_insert) (auto simp: u32_text_def)
    also have "replace_units (length pre + offset) (length pre + offset) chunk (pre @ take offset ins @ post) =
        pre @ take next_offset ins @ post"
      using True step by (simp add: replace_units_def)
    finally have one: "run_doc_ops (pre @ take offset ins @ post)
        [Doc_Insert (int (length pre + offset)) chunk] = Inr (pre @ take next_offset ins @ post)" .
    have "run_doc_ops (pre @ take next_offset ins @ post)
        (concat (insert_chunks (int (length pre)) ins next_offset)) = Inr (pre @ ins @ post)"
      using less.prems(1) True by (intro less.hyps) (auto simp: next_offset_def EDITOR_CHUNK_UNITS_def)
    then show ?thesis
      by (simp only: unf concat.simps run_doc_ops_append one sum.case)
  qed
qed

lemma concat_tx_ops:
  "concat (map tx_ops (map (\<lambda>ops. \<lparr>tx_ops = ops, tx_origin = o', tx_undoGroup = g\<rparr>) xss)) = concat xss"
  by (simp add: comp_def)

lemma run_replaceRangeChunked:
  assumes "length pre + length mid + length post + length ins \<le> 4294967295"
  shows "run_transactions (pre @ mid @ post)
           (replaceRangeChunked (int (length pre)) (int (length pre + length mid)) ins origin g) =
         Inr (pre @ ins @ post)"
proof (cases "int (length mid) + int (length ins) \<le> int EDITOR_CHUNK_UNITS")
  case True
  have u: "u32_text (pre @ mid @ post)" "u32_text (pre @ ins @ post)"
    using assms by (auto simp: u32_text_def)
  have len: "int (length pre + length mid) - int (length pre) = int (length mid)"
    "int (length pre) < int (length pre + length mid) \<longleftrightarrow> 0 < length mid"
    by auto
  from run_one_change [OF u] True show ?thesis
    unfolding run_transactions_def replaceRangeChunked_def concat_tx_ops len
    by (simp only: if_True concat.simps append_Nil2)
next
  case False
  have u: "u32_text (pre @ mid @ post)" using assms by (auto simp: u32_text_def)
  have "run_doc_ops (pre @ take 0 ins @ post) (concat (insert_chunks (int (length pre)) ins 0)) =
      Inr (pre @ ins @ post)"
    using assms by (intro run_insert_chunks) auto
  with run_delete_chunks [OF u] False show ?thesis
    unfolding run_transactions_def replaceRangeChunked_def concat_tx_ops by (simp add: run_doc_ops_append)
qed

lemma sync_ops_text:
  assumes "changes_ordered 0 (length old) chs"
    and "length old + (\<Sum>ch\<leftarrow>chs. length (inserted ch)) \<le> 4294967295"
  shows "run_doc_ops old (sync_ops chs) = Inr (changed_text 0 old chs)"
  using run_iter_changes [of 0 old chs "[]" 0] assms by (simp add: sync_ops_def)

definition two_inserts :: "char change list" where
  "two_inserts = [\<lparr>fromA = 0, toA = 0, inserted = ''X''\<rparr>, \<lparr>fromA = 2, toA = 2, inserted = ''Y''\<rparr>]"

lemma run_replace_range:
  assumes "f \<le> t" and "t \<le> length s" and "length s + length ins \<le> 4294967295"
  shows "run_transactions s (replaceRangeChunked (int f) (int t) ins origin g) = Inr (replace_units f t ins s)"
proof -
  have s: "take f s @ js_slice f t s @ drop t s = s" using take_js_slice_drop [OF assms(1), of s] by simp
  have l: "length (take f s) = f" "f + length (js_slice f t s) = t"
    using assms by (simp_all add: length_js_slice)
  have "length (take f s) + length (js_slice f t s) + length (drop t s) + length ins \<le> 4294967295"
    using assms by (simp add: length_js_slice)
  from run_replaceRangeChunked [OF this, of origin g] show ?thesis
    unfolding s l by (simp add: replace_units_def)
qed

lemma delete_chunks_units:
  "ops \<in> set (delete_chunks f n) \<Longrightarrow> sum_list (map op_units ops) \<le> int EDITOR_CHUNK_UNITS"
proof (induction f n rule: delete_chunks.induct)
  case (1 f n)
  show ?case
  proof (cases "n > 0")
    case True
    with "1.prems" consider "ops = [Doc_Delete f (min n (int EDITOR_CHUNK_UNITS))]"
      | "ops \<in> set (delete_chunks f (n - min n (int EDITOR_CHUNK_UNITS)))"
      by (subst (asm) delete_chunks.simps) (auto simp: Let_def)
    then show ?thesis by cases (use "1.IH" True in auto)
  next
    case False
    with "1.prems" show ?thesis by (simp add: delete_chunks.simps)
  qed
qed

lemma insert_chunks_units:
  "ops \<in> set (insert_chunks f ins i) \<Longrightarrow> sum_list (map op_units ops) \<le> int EDITOR_CHUNK_UNITS"
proof (induction f ins i rule: insert_chunks.induct)
  case (1 f ins i)
  show ?case
  proof (cases "i < length ins")
    case True
    with "1.prems" consider "ops = [Doc_Insert (f + int i) (js_slice i (i + EDITOR_CHUNK_UNITS) ins)]"
      | "ops \<in> set (insert_chunks f ins (i + EDITOR_CHUNK_UNITS))"
      by (subst (asm) insert_chunks.simps) auto
    then show ?thesis by cases (use "1.IH" True in \<open>auto simp: js_slice_def\<close>)
  next
    case False
    with "1.prems" show ?thesis by (simp add: insert_chunks.simps)
  qed
qed

lemma replaceRangeChunked_tx:
  assumes "f \<le> t" and "tx \<in> set (replaceRangeChunked f t ins origin g)"
  shows "tx_units tx \<le> int EDITOR_CHUNK_UNITS" "tx_undoGroup tx = g" "tx_origin tx = origin"
  using assms
  by (auto simp: replaceRangeChunked_def tx_units_def delete_chunks_units insert_chunks_units split: if_splits)

text \<open>
  C12. \<open>replaceRangeChunked\<close> has the effect of the one replacement it stands for, whatever its
  size: deleting in chunks at a fixed offset and inserting at advancing offsets gives the same
  text as a single \<open>replace\<close>. Every transaction it issues touches at most
  \<open>EDITOR_CHUNK_UNITS\<close> units, and all of them carry the one undo group taken at the start, so a
  large replacement undoes as a single step.
\<close>

theorem replaceRangeChunked_refines_replace:
  assumes "f \<le> t" and "t \<le> length s" and "length s + length ins \<le> 4294967295"
  shows "run_transactions s (replaceRangeChunked (int f) (int t) ins origin g) = Inr (replace_units f t ins s) \<and>
    (\<forall>tx \<in> set (replaceRangeChunked (int f) (int t) ins origin g).
       tx_units tx \<le> int EDITOR_CHUNK_UNITS \<and> tx_undoGroup tx = g \<and> tx_origin tx = origin)"
  using run_replace_range [OF assms] replaceRangeChunked_tx [of "int f" "int t" _ ins origin g] assms(1)
  by auto

theorem replaceRangeChunked_refines_replace_witness:
  "run_transactions ''abcd'' (replaceRangeChunked (int 1) (int 3) ''xyz'' ''session'' 7) = Inr ''axyzd''"
  using replaceRangeChunked_refines_replace [of 1 3 "''abcd''" "''xyz''" "''session''" 7]
  by (simp add: replace_units_def)

text \<open>
  The fallback for oversized updates is right for a single change: \<open>applyChangesInHalves\<close>
  gives the replica the editor's new text.
\<close>

lemma applyChangesInHalves_text:
  assumes "changes_ordered 0 (length old) [ch]" and "length old + length (inserted ch) \<le> 4294967295"
  shows "run_transactions old (applyChangesInHalves [ch] g) = Inr (changed_text 0 old [ch])"
  using run_replace_range [of "fromA ch" "toA ch" old "inserted ch" "''editor''" "g 0"] assms
  by (simp add: applyChangesInHalves_def replace_units_def)

lemma applyChangesInHalves_example:
  "run_transactions ''abc'' (applyChangesInHalves [\<lparr>fromA = 1, toA = 2, inserted = ''Z''\<rparr>] (\<lambda>_. 1)) = Inr ''aZc''"
  using applyChangesInHalves_text [of "''abc''" "\<lparr>fromA = 1, toA = 2, inserted = ''Z''\<rparr>" "\<lambda>_. 1"]
  by (simp add: js_slice_def)

text \<open>
  It is wrong for an update with several changes: the fallback passes each change's old
  coordinates on without the \<open>adjust\<close> that the ordinary path keeps, so already the second of two
  insertions lands too far to the left, and the replica's text differs from the editor's.
\<close>

theorem applyChangesInHalves_diverges:
  "changes_ordered 0 (length ''abc'') two_inserts
   \<and> run_doc_ops ''abc'' (sync_ops two_inserts) = Inr (changed_text 0 ''abc'' two_inserts)
   \<and> run_transactions ''abc'' (applyChangesInHalves two_inserts (\<lambda>_. 1)) \<noteq> Inr (changed_text 0 ''abc'' two_inserts)"
proof -
  have "run_transactions ''abc'' (applyChangesInHalves two_inserts (\<lambda>_. 1)) = Inr ''XaYbc''"
    by (simp add: run_transactions_def applyChangesInHalves_def replaceRangeChunked_def two_inserts_def
        EDITOR_CHUNK_UNITS_def doc_replaceRange_def checkedIndex_def edit_in_range_def
        is_safe_integer_def replace_units_def)
  then show ?thesis
    using run_iter_changes [of 0 "''abc''" two_inserts "[]" 0]
    by (simp add: sync_ops_def two_inserts_def js_slice_def)
qed

section \<open>The update handler\<close>

text \<open>
  \<open>doc.transact\<close> either commits all its operations or, when one throws, none. What the component
  refuses is the argument \<open>refuses\<close>: an \<open>EsbtError\<close> with its code, or any other exception. An index
  that does not fit into 32 bits is a \<open>RangeError\<close> of the wrapper; an index outside the text is an
  error of the component, here with code 0.
\<close>

datatype edit_failure = Esbt_Failure nat | Other_Failure

definition transact_ops :: "('u list \<Rightarrow> 'u doc_op list \<Rightarrow> edit_failure option) \<Rightarrow> 'u list \<Rightarrow> 'u doc_op list
    \<Rightarrow> edit_failure + 'u list" where
  "transact_ops refuses s ops =
     (case refuses s ops of
        Some failure \<Rightarrow> Inl failure
      | None \<Rightarrow> (case run_doc_ops s ops of
            Inr t \<Rightarrow> Inr t
          | Inl (Inl _) \<Rightarrow> Inl Other_Failure
          | Inl (Inr _) \<Rightarrow> Inl (Esbt_Failure 0)))"

definition oversized :: "edit_failure \<Rightarrow> bool" where
  "oversized e \<longleftrightarrow> e = Esbt_Failure 7 \<or> e = Esbt_Failure 8"

definition isRefusedEdit :: "edit_failure \<Rightarrow> bool" where
  "isRefusedEdit e \<longleftrightarrow> e = Esbt_Failure 3 \<or> e = Esbt_Failure 9 \<or> e = Esbt_Failure 15"

text \<open>
  What the handler leaves: the replica's text, and whether the edit went in, a reconcile of the view
  with that text was scheduled and the error reported, or the exception went on to CodeMirror.
\<close>

datatype 'u sync_outcome =
    Sync_Applied "'u list"
  | Sync_Reconcile "'u list" edit_failure
  | Sync_Throws "'u list" edit_failure

fun run_halves :: "('u list \<Rightarrow> 'u doc_op list \<Rightarrow> edit_failure option) \<Rightarrow> 'u list \<Rightarrow> 'u transaction list
    \<Rightarrow> 'u sync_outcome" where
  "run_halves refuses s [] = Sync_Applied s"
| "run_halves refuses s (tx # txs) =
     (case transact_ops refuses s (tx_ops tx) of
        Inr t \<Rightarrow> run_halves refuses t txs
      | Inl (Esbt_Failure c) \<Rightarrow> Sync_Reconcile s (Esbt_Failure c)
      | Inl Other_Failure \<Rightarrow> Sync_Throws s Other_Failure)"

definition sync_update :: "('u list \<Rightarrow> 'u doc_op list \<Rightarrow> edit_failure option) \<Rightarrow> (nat \<Rightarrow> int) \<Rightarrow> 'u list
    \<Rightarrow> 'u change list \<Rightarrow> 'u sync_outcome" where
  "sync_update refuses groups s chs =
     (case transact_ops refuses s (sync_ops chs) of
        Inr t \<Rightarrow> Sync_Applied t
      | Inl e \<Rightarrow> if oversized e then run_halves refuses s (applyChangesInHalves chs groups)
                else if isRefusedEdit e then Sync_Reconcile s e
                else Sync_Throws s e)"

lemma run_halves_applied:
  "run_halves refuses s txs = Sync_Applied t \<Longrightarrow> run_transactions s txs = Inr t"
proof (induction txs arbitrary: s)
  case (Cons tx txs)
  then obtain u where u: "transact_ops refuses s (tx_ops tx) = Inr u" "run_halves refuses u txs = Sync_Applied t"
    by (auto split: sum.splits edit_failure.splits)
  from u(1) have "run_doc_ops s (tx_ops tx) = Inr u" by (auto simp: transact_ops_def split: option.splits sum.splits)
  with Cons.IH [OF u(2)] show ?case by (simp add: run_transactions_def run_doc_ops_append)
qed (simp add: run_transactions_def)

lemma run_halves_throws:
  assumes "run_halves refuses s txs = Sync_Throws t e" "run_transactions s txs = Inr u"
  shows "e = Other_Failure \<and> (\<exists>r ops. refuses r ops = Some Other_Failure)"
  using assms
proof (induction txs arbitrary: s)
  case (Cons tx txs)
  from Cons.prems(2) obtain v where v: "run_doc_ops s (tx_ops tx) = Inr v" "run_transactions v txs = Inr u"
    by (auto simp: run_transactions_def run_doc_ops_append split: sum.splits)
  show ?case
  proof (cases "refuses s (tx_ops tx)")
    case None
    with v(1) Cons.prems(1) have "run_halves refuses v txs = Sync_Throws t e" by (simp add: transact_ops_def)
    from Cons.IH [OF this v(2)] show ?thesis .
  next
    case (Some f)
    with Cons.prems(1) have "f = Other_Failure" "e = Other_Failure" by (cases f; simp add: transact_ops_def)+
    with Some show ?thesis by blast
  qed
qed simp

lemma changed_text_bound:
  assumes "changes_ordered 0 (length old) chs"
  shows "length (changed_text 0 old chs) \<le> length old + (\<Sum>ch\<leftarrow>chs. length (inserted ch))"
proof -
  have "changes_ordered p n cs \<Longrightarrow>
      (\<Sum>ch\<leftarrow>cs. int (length (inserted ch)) - (int (toA ch) - int (fromA ch))) \<le> int (\<Sum>ch\<leftarrow>cs. length (inserted ch))"
    for p n and cs :: "'a change list"
    by (induction cs arbitrary: p) fastforce+
  with changed_text_length [OF assms] assms show ?thesis by fastforce
qed

lemma reconcile_reaches:
  "int (length view) \<le> max_safe_integer \<Longrightarrow>
     (case reconcile view target of None \<Rightarrow> view = target | Some e \<Rightarrow> applyTextEdits view [e] = Inr target)"
  by (auto simp: reconcile_None_iff reconcile_sound simp del: applyTextEdits.simps split: option.split)

text \<open>
  C11. Editor and replica agree again after every update. A CodeMirror update with ordered, disjoint
  changes to a text the replica held, whatever the component refuses: when the edit went in, the
  replica holds exactly the editor's new text (the running \<open>adjust\<close> offset turns old coordinates into
  those each operation sees); when a reconcile was scheduled, the one replacement it dispatches
  turns the editor's text into what the replica holds; and the exception goes on to CodeMirror only
  for a failure that the handler does not know. The one case left out is an oversized update with
  two or more changes, where \<open>applyChangesInHalves\<close> is wrong (\<open>applyChangesInHalves_diverges\<close>).
\<close>

theorem sync_update_agrees:
  assumes "changes_ordered 0 (length old) chs"
    and "length old + (\<Sum>ch\<leftarrow>chs. length (inserted ch)) \<le> 4294967295"
    and "length chs \<ge> 2 \<Longrightarrow> \<forall>e. refuses old (sync_ops chs) = Some e \<longrightarrow> \<not> oversized e"
  shows "case sync_update refuses groups old chs of
      Sync_Applied replica \<Rightarrow> replica = changed_text 0 old chs
    | Sync_Reconcile replica e \<Rightarrow>
        (case reconcile (changed_text 0 old chs) replica of
           None \<Rightarrow> changed_text 0 old chs = replica
         | Some edit \<Rightarrow> applyTextEdits (changed_text 0 old chs) [edit] = Inr replica)
    | Sync_Throws replica e \<Rightarrow> \<not> oversized e \<and> \<not> isRefusedEdit e \<and> (\<exists>s ops. refuses s ops = Some e)"
proof -
  note run_ops = sync_ops_text [OF assms(1,2)]
  have agree: "case reconcile (changed_text 0 old chs) r of None \<Rightarrow> changed_text 0 old chs = r
      | Some edit \<Rightarrow> applyTextEdits (changed_text 0 old chs) [edit] = Inr r" for r
    using changed_text_bound [OF assms(1)] assms(2) by (intro reconcile_reaches) simp
  show ?thesis
  proof (cases "refuses old (sync_ops chs)")
    case None
    then show ?thesis by (simp add: sync_update_def transact_ops_def run_ops)
  next
    case (Some e)
    then have tx: "transact_ops refuses old (sync_ops chs) = Inl e" by (simp add: transact_ops_def)
    show ?thesis
    proof (cases "oversized e")
      case False
      with tx agree Some show ?thesis by (auto simp: sync_update_def simp del: applyTextEdits.simps)
    next
      case True
      let ?txs = "applyChangesInHalves chs groups"
      have up: "sync_update refuses groups old chs = run_halves refuses old ?txs" by (simp add: sync_update_def tx True)
      have "length chs < 2" using assms(3) Some True by force
      then consider "chs = []" | ch where "chs = [ch]" by (cases chs; cases "tl chs") auto
      then have run: "run_transactions old ?txs = Inr (changed_text 0 old chs)"
      proof cases
        case 1
        then show ?thesis by (simp add: applyChangesInHalves_def run_transactions_def)
      next
        case 2
        with assms(1,2) applyChangesInHalves_text [of old ch groups] show ?thesis by simp
      qed
      show ?thesis
      proof (cases "run_halves refuses old ?txs")
        case (Sync_Applied t)
        with run_halves_applied [OF this] run show ?thesis by (simp add: up)
      next
        case (Sync_Reconcile t f)
        with agree show ?thesis by (simp add: up del: applyTextEdits.simps)
      next
        case (Sync_Throws t f)
        from run_halves_throws [OF this run] show ?thesis by (simp add: up Sync_Throws oversized_def isRefusedEdit_def)
      qed
    qed
  qed
qed

text \<open>A full document refuses the update; one with room takes it.\<close>

theorem sync_update_agrees_witness:
  "sync_update (\<lambda>s ops. if length ops = 2 then Some (Esbt_Failure 15) else None) (\<lambda>_. 1) ''abc'' two_inserts =
     Sync_Reconcile ''abc'' (Esbt_Failure 15)
   \<and> sync_update (\<lambda>s ops. None) (\<lambda>_. 1) ''abc'' two_inserts = Sync_Applied ''XabYc''
   \<and> (case reconcile ''XabYc'' ''abc'' of None \<Rightarrow> ''XabYc'' = ''abc'' | Some edit \<Rightarrow> applyTextEdits ''XabYc'' [edit] = Inr ''abc'')"
proof -
  have ord: "changes_ordered 0 (length ''abc'') two_inserts" "changed_text 0 ''abc'' two_inserts = ''XabYc''"
    "length ''abc'' + (\<Sum>ch\<leftarrow>two_inserts. length (inserted ch)) \<le> 4294967295" "length (sync_ops two_inserts) = 2"
    by (simp_all add: two_inserts_def js_slice_def sync_ops_def)
  have 1: "sync_update (\<lambda>s ops. if length ops = 2 then Some (Esbt_Failure 15) else None) (\<lambda>_. 1) ''abc'' two_inserts =
     Sync_Reconcile ''abc'' (Esbt_Failure 15)"
    by (simp add: sync_update_def transact_ops_def ord(4) oversized_def isRefusedEdit_def)
  have 2: "sync_update (\<lambda>s ops. None) (\<lambda>_. 1) ''abc'' two_inserts = Sync_Applied ''XabYc''"
    using sync_ops_text [OF ord(1,3)] by (simp add: sync_update_def transact_ops_def ord(2))
  have "\<forall>e. (if length (sync_ops two_inserts) = 2 then Some (Esbt_Failure 15) else None) = Some e \<longrightarrow> \<not> oversized e"
    by (simp add: oversized_def)
  with sync_update_agrees [OF ord(1,3), of "\<lambda>s ops. if length ops = 2 then Some (Esbt_Failure 15) else None" "\<lambda>_. 1"]
  have "case reconcile ''XabYc'' ''abc'' of None \<Rightarrow> ''XabYc'' = ''abc'' | Some edit \<Rightarrow> applyTextEdits ''XabYc'' [edit] = Inr ''abc''"
    unfolding 1 ord(2) sync_outcome.case by blast
  with 1 2 show ?thesis by blast
qed

end
