(* ===== verification/Stable_Ranges.thy ===== *)
theory Stable_Ranges
  imports Editor_Bridge
begin

text \<open>
  The other direction of the editor bridge of \<open>client/src/collab/esbt-engine.ts\<close>: replica
  edits patched back into a mounted view (\<open>scheduleEditorPatch\<close>, \<open>scheduleReconcile\<close>), and the
  stable ranges that comments and uploads hold across concurrent edits (\<open>captureTextRange\<close>,
  \<open>resolveTextRange\<close>, \<open>captureReviewRange\<close>, \<open>resolveReviewRange\<close>).

  The anchors belong to the WebAssembly replica. Its two operations \<open>indexToAnchor\<close> and
  \<open>anchorToIndex\<close> are arguments of the definitions; \<open>anchors_stable\<close> states the one documented
  fact that is used, that an anchor resolves to its own index while the text does not change.
\<close>

section \<open>Patching a view\<close>

text \<open>
  The loop of the \<open>scheduleEditorPatch\<close> microtask over \<open>target.edits\<close>: the view's text is edited
  in place; the first edit that does not fit stops the loop and asks for a reconcile.
\<close>

datatype patch_outcome = Patched | Reconcile_Scheduled

fun patch_view :: "'u list \<Rightarrow> 'u text_edit list \<Rightarrow> 'u list \<times> patch_outcome" where
  "patch_view doc [] = (doc, Patched)"
| "patch_view doc (edit # edits) =
     (if edit_from edit > edit_to edit \<or> edit_to edit > int (length doc) then (doc, Reconcile_Scheduled)
      else patch_view (replace_units (nat (edit_from edit)) (nat (edit_to edit)) (edit_insert edit) doc) edits)"

text \<open>
  The engine's two microtask slots. Several views may be mounted (\<open>editorViews\<close>), but each slot
  holds one target: a view's number with its edits, or with the text it is to show. \<open>destroyed\<close>
  is the engine's flag, \<open>view_texts\<close> what the mounted views show.
\<close>

record 'u view_queue =
  view_texts :: "nat \<Rightarrow> 'u list"
  editorPatchTarget :: "(nat \<times> 'u text_edit list) option"
  editorPatchQueued :: bool
  reconcileTarget :: "(nat \<times> 'u list) option"
  reconcileQueued :: bool
  vq_destroyed :: bool

definition scheduleReconcile :: "nat \<Rightarrow> 'u list \<Rightarrow> 'u view_queue \<Rightarrow> 'u view_queue" where
  "scheduleReconcile view target q =
     (let q = q\<lparr>reconcileTarget := Some (view, target)\<rparr>
      in if reconcileQueued q then q else q\<lparr>reconcileQueued := True\<rparr>)"

definition reconcile_view :: "'u list \<Rightarrow> 'u list \<Rightarrow> 'u list" where
  "reconcile_view current target =
     (case reconcile current target of
        None \<Rightarrow> current
      | Some e \<Rightarrow> replace_units (nat (edit_from e)) (nat (edit_to e)) (edit_insert e) current)"

definition reconcile_microtask :: "'u view_queue \<Rightarrow> 'u view_queue" where
  "reconcile_microtask q =
     (let target = reconcileTarget q;
          q = q\<lparr>reconcileQueued := False, reconcileTarget := None\<rparr>
      in case target of
           None \<Rightarrow> q
         | Some (view, res) \<Rightarrow>
             if vq_destroyed q then q
             else q\<lparr>view_texts := (view_texts q)(view := reconcile_view (view_texts q view) res)\<rparr>)"

definition scheduleEditorPatch :: "nat \<Rightarrow> 'u text_edit list \<Rightarrow> 'u view_queue \<Rightarrow> 'u view_queue" where
  "scheduleEditorPatch view edits q =
     (if edits = [] then q
      else let collected = (case editorPatchTarget q of
                              None \<Rightarrow> []
                            | Some (v, es) \<Rightarrow> if v \<noteq> view then [] else es);
               q = q\<lparr>editorPatchTarget := Some (view, collected @ edits)\<rparr>
           in if editorPatchQueued q then q else q\<lparr>editorPatchQueued := True\<rparr>)"

text \<open>The replica's text at the time the microtask runs is an argument (\<open>this.doc.getText()\<close>).\<close>

definition patch_microtask :: "'u list \<Rightarrow> 'u view_queue \<Rightarrow> 'u view_queue" where
  "patch_microtask replica q =
     (let target = editorPatchTarget q;
          q = q\<lparr>editorPatchQueued := False, editorPatchTarget := None\<rparr>
      in case target of
           None \<Rightarrow> q
         | Some (view, edits) \<Rightarrow>
             if vq_destroyed q then q
             else let (res, outcome) = patch_view (view_texts q view) edits;
                      q = q\<lparr>view_texts := (view_texts q)(view := res)\<rparr>
                  in case outcome of
                       Patched \<Rightarrow> q
                     | Reconcile_Scheduled \<Rightarrow> scheduleReconcile view replica q)"

text \<open>Draining the microtask queue: the patch first, then a reconcile if one was asked for.\<close>

definition drain_microtasks :: "'u list \<Rightarrow> 'u view_queue \<Rightarrow> 'u view_queue" where
  "drain_microtasks replica q =
     (let q = (if editorPatchQueued q then patch_microtask replica q else q)
      in if reconcileQueued q then reconcile_microtask q else q)"

text \<open>A replica change: the listener of each mounted view schedules the same edits for its view.\<close>

definition on_replica_change :: "nat list \<Rightarrow> 'u text_edit list \<Rightarrow> 'u view_queue \<Rightarrow> 'u view_queue" where
  "on_replica_change views edits q = foldl (\<lambda>q view. scheduleEditorPatch view edits q) q views"

text \<open>The component reports edits as unsigned 32-bit offsets.\<close>

definition edits_u32 :: "'u text_edit list \<Rightarrow> bool" where
  "edits_u32 es \<longleftrightarrow> list_all (\<lambda>e. 0 \<le> edit_from e \<and> edit_to e \<le> 4294967295) es"

lemma patch_view_fits:
  "edits_u32 es \<Longrightarrow>
     patch_view doc es = (res, Patched) \<longleftrightarrow> applyTextEdits doc es = Inr res"
proof (induction es arbitrary: doc)
  case (Cons e es)
  then have "edit_in_range e doc \<longleftrightarrow> \<not> (edit_from e > edit_to e \<or> edit_to e > int (length doc))"
    by (auto simp: edit_in_range_def is_safe_integer_def edits_u32_def)
  with Cons show ?case by (auto simp: edits_u32_def)
qed simp

lemma reconcile_view_target [simp]: "reconcile_view current target = target"
proof (cases "current = target")
  case True
  then show ?thesis by (simp add: reconcile_view_def reconcile_def)
next
  case False
  then show ?thesis by (simp add: reconcile_view_def reconcile_shape replace_units_diff)
qed

text \<open>A quiet queue: both slots empty, no microtask pending.\<close>

definition vq_quiet :: "'u view_queue \<Rightarrow> bool" where
  "vq_quiet q \<longleftrightarrow> editorPatchTarget q = None \<and> \<not> editorPatchQueued q
     \<and> reconcileTarget q = None \<and> \<not> reconcileQueued q \<and> \<not> vq_destroyed q"

lemma schedule_batches:
  assumes "editorPatchTarget q = (if es = [] then None else Some (v, es))" "editorPatchQueued q = (es \<noteq> [])"
  shows "foldl (\<lambda>q es. scheduleEditorPatch v es q) q batches =
     q\<lparr>editorPatchTarget := (if es @ concat batches = [] then None else Some (v, es @ concat batches)),
       editorPatchQueued := (es @ concat batches \<noteq> [])\<rparr>"
  using assms
proof (induction batches arbitrary: q es)
  case (Cons b batches)
  have "scheduleEditorPatch v b q =
      q\<lparr>editorPatchTarget := (if es @ b = [] then None else Some (v, es @ b)), editorPatchQueued := (es @ b \<noteq> [])\<rparr>"
    using Cons.prems by (cases b) (auto simp: scheduleEditorPatch_def Let_def)
  with Cons.IH [of "scheduleEditorPatch v b q" "es @ b"] show ?case by simp
qed simp

lemma drain_patched:
  assumes "vq_quiet q" "edits \<noteq> []"
    and "patch_view (view_texts q v) edits = (res, outcome)"
    and "outcome = Patched \<Longrightarrow> res = replica"
  shows "drain_microtasks replica (q\<lparr>editorPatchTarget := Some (v, edits), editorPatchQueued := True\<rparr>) =
     q\<lparr>view_texts := (view_texts q)(v := replica)\<rparr>"
  using assms
  by (cases outcome)
    (auto simp: drain_microtasks_def patch_microtask_def reconcile_microtask_def scheduleReconcile_def
      vq_quiet_def Let_def)

text \<open>
  C13. A view that schedules alone follows the replica. From a quiet queue, whatever batches of edits
  one mounted view schedules before the microtask runs, if together they turn the view's text into
  the replica's, which is what the component reports, or if one of them does not fit the view, then
  once the microtasks have run the view shows exactly the replica's text, no other view has changed,
  and both queues are quiet again. When a second view schedules too, the slot keeps only the last
  one (\<open>second_view_starves_first\<close>).
\<close>

theorem editor_patch_converges:
  assumes "vq_quiet q" and "edits_u32 (concat batches)"
    and "applyTextEdits (view_texts q v) (concat batches) = Inr replica
       \<or> (\<exists>err. applyTextEdits (view_texts q v) (concat batches) = Inl err)"
  shows "drain_microtasks replica (foldl (\<lambda>q es. scheduleEditorPatch v es q) q batches) =
     q\<lparr>view_texts := (view_texts q)(v := replica)\<rparr>"
proof -
  obtain res outcome where pv: "patch_view (view_texts q v) (concat batches) = (res, outcome)" by fastforce
  have same: "outcome = Patched \<Longrightarrow> res = replica"
    using patch_view_fits [OF assms(2), of "view_texts q v" res] pv assms(3) by auto
  have q: "foldl (\<lambda>q es. scheduleEditorPatch v es q) q batches =
     q\<lparr>editorPatchTarget := (if concat batches = [] then None else Some (v, concat batches)),
       editorPatchQueued := (concat batches \<noteq> [])\<rparr>"
    using schedule_batches [of q "[]" v batches] assms(1) by (simp add: vq_quiet_def)
  show ?thesis
  proof (cases "concat batches = []")
    case True
    have "view_texts q v = replica" using assms(3) by (simp only: True) simp
    then have "q\<lparr>view_texts := (view_texts q)(v := replica)\<rparr> = q" by (simp add: fun_upd_idem)
    with assms(1) show ?thesis
      by (simp only: q True) (simp add: drain_microtasks_def vq_quiet_def)
  next
    case False
    with drain_patched [OF assms(1) False pv same] show ?thesis by (simp only: q) simp
  qed
qed

definition quiet_views :: "(nat \<Rightarrow> 'u list) \<Rightarrow> 'u view_queue" where
  "quiet_views texts = \<lparr>view_texts = texts, editorPatchTarget = None, editorPatchQueued = False,
     reconcileTarget = None, reconcileQueued = False, vq_destroyed = False\<rparr>"

lemma quiet_views_quiet [simp]: "vq_quiet (quiet_views texts)"
  by (simp add: quiet_views_def vq_quiet_def)

definition insert_at_end :: "char text_edit" where
  "insert_at_end = \<lparr>edit_from = 3, edit_to = 3, edit_insert = ''d''\<rparr>"

theorem editor_patch_converges_witness:
  "view_texts (drain_microtasks ''abcd''
     (scheduleEditorPatch 0 [insert_at_end] (quiet_views (\<lambda>_. ''abc'')))) 0 = ''abcd''"
proof -
  have fits: "applyTextEdits ''abc'' [insert_at_end] = Inr ''abcd''"
    by (simp add: insert_at_end_def edit_in_range_def replace_units_def is_safe_integer_def)
  have "edits_u32 (concat [[insert_at_end]])" by (simp add: edits_u32_def insert_at_end_def)
  from editor_patch_converges [OF quiet_views_quiet this, of "\<lambda>_. ''abc''" 0 "''abcd''"] fits
  show ?thesis by (simp add: quiet_views_def del: applyTextEdits.simps)
qed

text \<open>
  With two mounted views the patch slot holds only the last view's edits: a change that both
  listeners schedule reaches the second view and is dropped for the first, which keeps showing
  the old text with nothing queued to repair it.
\<close>

theorem second_view_starves_first:
  "(let q = drain_microtasks ''abcd'' (on_replica_change [0, 1] [insert_at_end] (quiet_views (\<lambda>_. ''abc'')))
    in view_texts q 1 = ''abcd'' \<and> view_texts q 0 = ''abc'' \<and> vq_quiet q)"
  by (simp add: on_replica_change_def scheduleEditorPatch_def quiet_views_def drain_microtasks_def
      patch_microtask_def insert_at_end_def replace_units_def vq_quiet_def Let_def)

section \<open>Stable ranges\<close>

datatype anchor_bias = Bias_Before | Bias_After

record 'a stable_range =
  range_start :: 'a
  range_end :: 'a
  startOffset :: nat
  endOffset :: nat

record ('a, 'u) review_range = "'a stable_range" +
  quote :: "'u list"

definition clamp_offset :: "int \<Rightarrow> nat \<Rightarrow> nat \<Rightarrow> nat" where
  "clamp_offset value low len = nat (max (int low) (min value (int len)))"

definition captureTextRange :: "(nat \<Rightarrow> anchor_bias \<Rightarrow> 'a) \<Rightarrow> nat \<Rightarrow> int \<Rightarrow> int \<Rightarrow> 'a stable_range" where
  "captureTextRange indexToAnchor len f t =
     (let start = clamp_offset f 0 len; fin = clamp_offset t start len
      in \<lparr>range_start = indexToAnchor start Bias_After, range_end = indexToAnchor fin Bias_Before,
          startOffset = start, endOffset = fin\<rparr>)"

definition resolveTextRange :: "('a \<Rightarrow> nat) \<Rightarrow> nat \<Rightarrow> ('a, 'z) stable_range_scheme \<Rightarrow> nat \<times> nat" where
  "resolveTextRange anchorToIndex len rng =
     (let f = min (anchorToIndex (range_start rng)) len
      in (f, max f (min (anchorToIndex (range_end rng)) len)))"

text \<open>The review selection, \<open>None\<close> when no view is mounted; a quote is at most 4096 units long.\<close>

definition captureReviewRange ::
    "(nat \<Rightarrow> anchor_bias \<Rightarrow> 'a) \<Rightarrow> 'u list \<Rightarrow> (nat \<times> nat) option \<Rightarrow> ('a, 'u) review_range" where
  "captureReviewRange indexToAnchor txt selection =
     (let start = (case selection of None \<Rightarrow> 0 | Some (f, t) \<Rightarrow> f);
          fin = min (case selection of None \<Rightarrow> start | Some (f, t) \<Rightarrow> t) (start + 4096);
          r = captureTextRange indexToAnchor (length txt) (int start) (int fin)
      in \<lparr>range_start = range_start r, range_end = range_end r, startOffset = startOffset r,
          endOffset = endOffset r, quote = js_slice start fin txt\<rparr>)"

text \<open>
  The search loop of \<open>resolveReviewRange\<close>: every occurrence of the quote is visited, overlapping
  ones included, and the first of those closest to the offset at creation is kept.
  \<open>best\<close> pairs \<open>match\<close> with \<open>distance\<close>; \<open>None\<close> is \<open>-1\<close> with an infinite distance.
\<close>

function closest_quote :: "'u list \<Rightarrow> 'u list \<Rightarrow> nat \<Rightarrow> nat option \<Rightarrow> (nat \<times> nat) option \<Rightarrow> (nat \<times> nat) option" where
  "closest_quote needle s origin cursor best =
     (case cursor of
        None \<Rightarrow> best
      | Some c \<Rightarrow>
          if c > length s then best
          else let d = nat \<bar>int c - int origin\<bar>;
                   best = (case best of
                             None \<Rightarrow> Some (c, d)
                           | Some (m, dist) \<Rightarrow> if d < dist then Some (c, d) else Some (m, dist))
               in closest_quote needle s origin (index_of needle s (c + 1)) best)"
  by pat_completeness auto
termination
proof (relation "measure (\<lambda>(needle, s, origin, cursor, best). case cursor of None \<Rightarrow> 0 | Some c \<Rightarrow> Suc (Suc (length s) - c))",
    goal_cases)
  case (2 needle s origin cursor best c x xa)
  then show ?case
    by (auto split: option.splits dest!: index_of_Some)
qed simp

declare closest_quote.simps [simp del]

text \<open>Result: \<open>from\<close>, \<open>to\<close> and \<open>exact\<close>. \<open>resolveReviewRange\<close> starts with \<open>resolveTextRange\<close>.\<close>

definition resolveReviewRange ::
    "('a \<Rightarrow> nat) \<Rightarrow> 'u list \<Rightarrow> ('a, 'u) review_range \<Rightarrow> nat \<times> nat \<times> bool" where
  "resolveReviewRange anchorToIndex s rng =
     (let (f, t) = resolveTextRange anchorToIndex (length s) rng
      in if quote rng = [] \<or> js_slice f t s = quote rng then (f, t, True)
         else case closest_quote (quote rng) s (startOffset rng) (index_of (quote rng) s 0) None of
                Some (match, dist) \<Rightarrow> (match, match + length (quote rng), True)
              | None \<Rightarrow> (f, t, False))"

text \<open>What is relied on of the component's anchors while the text stays the same.\<close>

definition anchors_stable :: "(nat \<Rightarrow> anchor_bias \<Rightarrow> 'a) \<Rightarrow> ('a \<Rightarrow> nat) \<Rightarrow> nat \<Rightarrow> bool" where
  "anchors_stable indexToAnchor anchorToIndex len \<longleftrightarrow>
     (\<forall>i \<le> len. \<forall>b. anchorToIndex (indexToAnchor i b) = i)"

text \<open>\<open>best\<close> is the closest of the occurrences below \<open>c\<close>.\<close>

definition closest_below :: "'u list \<Rightarrow> 'u list \<Rightarrow> nat \<Rightarrow> nat \<Rightarrow> (nat \<times> nat) option \<Rightarrow> bool" where
  "closest_below needle s origin c best \<longleftrightarrow>
     (case best of
        None \<Rightarrow> \<forall>k < c. \<not> occurs_at needle s k
      | Some (m, d) \<Rightarrow> m < c \<and> occurs_at needle s m \<and> d = nat \<bar>int m - int origin\<bar>
          \<and> (\<forall>k < c. occurs_at needle s k \<longrightarrow> d \<le> nat \<bar>int k - int origin\<bar>))"

lemma closest_below_step:
  assumes "closest_below needle s origin c best" "occurs_at needle s j" "c \<le> j"
    and gap: "\<forall>k. c \<le> k \<longrightarrow> k < j \<longrightarrow> \<not> occurs_at needle s k"
    and d: "d = nat \<bar>int j - int origin\<bar>"
  shows "closest_below needle s origin (Suc j)
     (case best of None \<Rightarrow> Some (j, d) | Some (m, dist) \<Rightarrow> if d < dist then Some (j, d) else Some (m, dist))"
proof -
  have before: "k < c \<or> k = j" if "k < Suc j" "occurs_at needle s k" for k
    using that gap by (meson leI less_SucE)
  show ?thesis
  proof (cases best)
    case None
    with assms(1) have "\<forall>k < c. \<not> occurs_at needle s k" by (simp add: closest_below_def)
    with before None assms(2) d show ?thesis by (auto simp: closest_below_def)
  next
    case (Some md)
    obtain m dist where md: "md = (m, dist)" by fastforce
    from assms(1) Some md have m: "m < c" "occurs_at needle s m" "dist = nat \<bar>int m - int origin\<bar>"
      and least: "\<forall>k < c. occurs_at needle s k \<longrightarrow> dist \<le> nat \<bar>int k - int origin\<bar>"
      by (auto simp: closest_below_def)
    have "min d dist \<le> nat \<bar>int k - int origin\<bar>" if "k < Suc j" "occurs_at needle s k" for k
      using before [OF that] least that(2) d by (auto simp: min_le_iff_disj)
    then have all: "\<forall>k < Suc j. occurs_at needle s k \<longrightarrow> min d dist \<le> nat \<bar>int k - int origin\<bar>"
      by blast
    show ?thesis
    proof (cases "d < dist")
      case True
      with all have "\<forall>k < Suc j. occurs_at needle s k \<longrightarrow> d \<le> nat \<bar>int k - int origin\<bar>" by simp
      with True Some md assms(2) d show ?thesis by (simp add: closest_below_def)
    next
      case False
      with all have "\<forall>k < Suc j. occurs_at needle s k \<longrightarrow> dist \<le> nat \<bar>int k - int origin\<bar>"
        by (simp add: min_absorb2 not_less)
      with False Some md m assms(3) show ?thesis by (simp add: closest_below_def)
    qed
  qed
qed

lemma closest_below_all:
  "closest_below needle s origin c best \<Longrightarrow> \<forall>k. c \<le> k \<longrightarrow> \<not> occurs_at needle s k \<Longrightarrow>
     closest_below needle s origin (Suc (length s)) best"
  by (auto simp: closest_below_def occurs_at_def not_less split: option.splits)
    (metis linorder_not_less)+

lemma closest_quote_correct:
  "closest_below needle s origin c best \<Longrightarrow> needle \<noteq> [] \<Longrightarrow>
     closest_below needle s origin (Suc (length s)) (closest_quote needle s origin (index_of needle s c) best)"
proof (induction "Suc (length s) - c" arbitrary: c best rule: less_induct)
  case less
  show ?case
  proof (cases "index_of needle s c")
    case None
    with less.prems show ?thesis
      by (simp add: closest_quote.simps closest_below_all index_of_None)
  next
    case (Some j)
    from index_of_Some [OF this] have j: "c \<le> j" "occurs_at needle s j"
        "\<forall>k. c \<le> k \<longrightarrow> k < j \<longrightarrow> \<not> occurs_at needle s k" "j \<le> length s"
      by (auto simp: occurs_at_def)
    note closest_below_step [OF less.prems(1) j(2,1,3) refl]
    from less.hyps [OF _ this less.prems(2)] j Some show ?thesis
      by (subst closest_quote.simps) (simp add: Let_def)
  qed
qed

lemma resolveTextRange_bounds:
  "resolveTextRange anchorToIndex len rng = (f, t) \<Longrightarrow> f \<le> t \<and> t \<le> len"
  by (auto simp: resolveTextRange_def Let_def)

text \<open>
  Resolving a review range never leaves the document, and \<open>exact\<close> means what it says: the
  range then shows the quoted text. A quote that the anchors no longer show is found again
  whenever it occurs anywhere, at an occurrence no other one of which is closer to the offset
  where the comment was made; \<open>exact\<close> is false only if the quote occurs nowhere.
\<close>

theorem resolveReviewRange_correct:
  assumes "resolveReviewRange anchorToIndex s rng = (f, t, exact)" and "quote rng \<noteq> []"
  shows "f \<le> t \<and> t \<le> length s \<and> (exact \<longleftrightarrow> js_slice f t s = quote rng)
    \<and> (\<not> exact \<longrightarrow> (\<forall>k. \<not> occurs_at (quote rng) s k))
    \<and> (exact \<longrightarrow> (f, t) = resolveTextRange anchorToIndex (length s) rng
         \<or> (\<forall>k. occurs_at (quote rng) s k \<longrightarrow>
               \<bar>int f - int (startOffset rng)\<bar> \<le> \<bar>int k - int (startOffset rng)\<bar>))"
proof -
  obtain a b where ab: "resolveTextRange anchorToIndex (length s) rng = (a, b)" by fastforce
  note bounds = resolveTextRange_bounds [OF ab]
  let ?r = "closest_quote (quote rng) s (startOffset rng) (index_of (quote rng) s 0) None"
  have start: "closest_below (quote rng) s (startOffset rng) 0 None" by (simp add: closest_below_def)
  note best = closest_quote_correct [OF start assms(2)]
  show ?thesis
  proof (cases "js_slice a b s = quote rng")
    case True
    with assms ab bounds show ?thesis by (simp add: resolveReviewRange_def)
  next
    case inexact: False
    show ?thesis
    proof (cases ?r)
      case None
      with best have "\<forall>k. \<not> occurs_at (quote rng) s k"
        by (auto simp: closest_below_def occurs_at_def)
      with None assms ab bounds inexact show ?thesis by (simp add: resolveReviewRange_def)
    next
      case (Some md)
      obtain m d where md: "md = (m, d)" by fastforce
      with assms ab inexact Some have r: "f = m" "t = m + length (quote rng)" "exact"
        by (auto simp: resolveReviewRange_def)
      from best Some md have m: "occurs_at (quote rng) s m"
        and d: "\<forall>k < Suc (length s). occurs_at (quote rng) s k \<longrightarrow>
           nat \<bar>int m - int (startOffset rng)\<bar> \<le> nat \<bar>int k - int (startOffset rng)\<bar>"
        by (auto simp: closest_below_def)
      have "\<bar>int m - int (startOffset rng)\<bar> \<le> \<bar>int k - int (startOffset rng)\<bar>"
        if occ: "occurs_at (quote rng) s k" for k
      proof -
        from occ have "k < Suc (length s)" by (simp add: occurs_at_def)
        with d occ have "nat \<bar>int m - int (startOffset rng)\<bar> \<le> nat \<bar>int k - int (startOffset rng)\<bar>" by blast
        then show ?thesis by simp
      qed
      with r m show ?thesis by (auto simp: occurs_at_def)
    qed
  qed
qed

theorem resolveReviewRange_correct_witness:
  "resolveReviewRange id ''xxabyy'' \<lparr>range_start = 0, range_end = 1, startOffset = 0, endOffset = 2,
     quote = ''ab''\<rparr> = (2, 4, True) \<and> js_slice 2 4 ''xxabyy'' = ''ab''"
proof -
  let ?r = "\<lparr>range_start = 0, range_end = 1, startOffset = 0, endOffset = 2, quote = ''ab''\<rparr>"
  have "index_of ''ab'' ''xxabyy'' 0 = Some 2" "index_of ''ab'' ''xxabyy'' 3 = None"
    by (simp_all add: index_of.simps occurs_at_def js_slice_def)
  then have r: "resolveReviewRange id ''xxabyy'' ?r = (2, 4, True)"
    by (simp add: resolveReviewRange_def resolveTextRange_def js_slice_def closest_quote.simps)
  with resolveReviewRange_correct [OF r] show ?thesis by simp
qed

text \<open>
  A range resolved before anything changed is the captured one: both ends clamped to the
  document, the end never before the start; and a review range captured from a selection of at
  most 4096 units resolves to exactly that selection.
\<close>

theorem capture_resolve_roundtrip:
  assumes "anchors_stable indexToAnchor anchorToIndex (length s)"
  shows "resolveTextRange anchorToIndex (length s) (captureTextRange indexToAnchor (length s) f t) =
      (clamp_offset f 0 (length s), clamp_offset t (clamp_offset f 0 (length s)) (length s))
    \<and> (a \<le> b \<and> b \<le> length s \<and> b - a \<le> 4096 \<longrightarrow>
      resolveReviewRange anchorToIndex s (captureReviewRange indexToAnchor s (Some (a, b))) = (a, b, True))"
  using assms
  by (auto simp: anchors_stable_def resolveTextRange_def captureTextRange_def clamp_offset_def
      resolveReviewRange_def captureReviewRange_def Let_def)

theorem capture_resolve_roundtrip_witness:
  "resolveReviewRange fst ''abcdef'' (captureReviewRange Pair ''abcdef'' (Some (2, 4))) = (2, 4, True)"
  using capture_resolve_roundtrip [of Pair fst "''abcdef''" 0 0 2 4] by (simp add: anchors_stable_def)

end
