(* ===== verification/Js_Text.thy ===== *)
theory Js_Text
  imports Marks_Prelude
begin

text \<open>
  The JavaScript string operations the components use on real contents: literals as UTF-16
  units, \<open>split\<close> and \<open>join\<close>, \<open>trim\<close>, and \<open>toString(radix)\<close>.
\<close>

section \<open>Literals\<close>

definition u16 :: "char \<Rightarrow> 16 word" where
  "u16 c = of_nat (of_char c)"

definition js :: "string \<Rightarrow> js_text" where
  "js s = map u16 s"

abbreviation js_newline :: "16 word" where
  "js_newline \<equiv> 10"

lemma u16_inject [simp]: "u16 a = u16 b \<longleftrightarrow> a = b"
proof -
  have "unat (u16 c) = of_char c" for c
  proof -
    have "of_char c < (2 :: nat) ^ 16" by (rule less_trans [OF nat_of_char_less_256]) simp
    then show ?thesis by (simp add: u16_def unat_of_nat)
  qed
  then show ?thesis by (metis of_char_eq_iff)
qed

lemma js_simps [simp]: "js [] = []" "js (c # s) = u16 c # js s" "length (js s) = length s"
  by (simp_all add: js_def)

section \<open>\<open>split\<close> and \<open>join\<close>\<close>

text \<open>\<open>s.split(sep)\<close> for a one-unit separator: never empty, one more piece than separators.\<close>

fun js_split :: "'a \<Rightarrow> 'a list \<Rightarrow> 'a list list" where
  "js_split sep [] = [[]]"
| "js_split sep (x # xs) =
     (if x = sep then [] # js_split sep xs
      else case js_split sep xs of
             [] \<Rightarrow> [[x]]
           | l # ls \<Rightarrow> (x # l) # ls)"

fun js_join :: "'a \<Rightarrow> 'a list list \<Rightarrow> 'a list" where
  "js_join sep [] = []"
| "js_join sep [l] = l"
| "js_join sep (l # m # ls) = l @ sep # js_join sep (m # ls)"

lemma js_split_not_Nil [simp]: "js_split sep xs \<noteq> []"
  by (cases xs) (auto split: list.splits)

lemma js_join_split [simp]: "js_join sep (js_split sep xs) = xs"
proof (induction xs)
  case (Cons x xs)
  obtain l ls where ls: "js_split sep xs = l # ls" by (cases "js_split sep xs") auto
  with Cons show ?case by (cases ls) auto
qed simp

lemma js_split_no_sep: "l \<in> set (js_split sep xs) \<Longrightarrow> sep \<notin> set l"
  by (induction xs arbitrary: l) (auto split: list.splits if_splits)

lemma js_join_Cons: "ls \<noteq> [] \<Longrightarrow> js_join sep (l # ls) = l @ sep # js_join sep ls"
  by (cases ls) auto

lemma js_join_append:
  "ls \<noteq> [] \<Longrightarrow> ms \<noteq> [] \<Longrightarrow> js_join sep (ls @ ms) = js_join sep ls @ sep # js_join sep ms"
proof (induction ls)
  case (Cons l ls)
  then show ?case by (cases "ls = []") (auto simp: js_join_Cons)
qed simp

text \<open>Where a line starts: the running sum of the loop that builds \<open>lineOffsets\<close>.\<close>

fun lineOffsets :: "nat \<Rightarrow> 'a list list \<Rightarrow> nat list" where
  "lineOffsets off [] = []"
| "lineOffsets off (l # ls) = off # lineOffsets (off + length l + 1) ls"

definition line_start :: "'a list list \<Rightarrow> nat \<Rightarrow> nat" where
  "line_start ls i = sum_list (map (\<lambda>l. length l + 1) (take i ls))"

lemma length_lineOffsets [simp]: "length (lineOffsets off ls) = length ls"
  by (induction ls arbitrary: off) auto

lemma lineOffsets_nth: "i < length ls \<Longrightarrow> lineOffsets off ls ! i = off + line_start ls i"
proof (induction ls arbitrary: off i)
  case (Cons l ls)
  then show ?case by (cases i) (auto simp: line_start_def)
qed simp

lemma line_start_Suc: "i < length ls \<Longrightarrow> line_start ls (Suc i) = line_start ls i + length (ls ! i) + 1"
  by (simp add: line_start_def take_Suc_conv_app_nth)

lemma line_start_mono: "i \<le> j \<Longrightarrow> line_start ls i \<le> line_start ls j"
proof -
  assume "i \<le> j"
  then have "take j ls = take i ls @ take (j - i) (drop i ls)"
    by (metis le_add_diff_inverse take_add)
  then show ?thesis by (simp add: line_start_def)
qed

lemma length_js_join: "ls \<noteq> [] \<Longrightarrow> length (js_join sep ls) + 1 = line_start ls (length ls)"
proof (induction ls)
  case (Cons l ls)
  then show ?case by (cases "ls = []") (auto simp: js_join_Cons line_start_def)
qed simp

lemma line_start_strict: "i < j \<Longrightarrow> j \<le> length ls \<Longrightarrow> line_start ls i < line_start ls j"
  using line_start_mono [of "Suc i" j ls] line_start_Suc [of i ls] by simp

text \<open>A run of whole lines is a slice of the text, from its first line's start to just before the next.\<close>

lemma js_slice_lines:
  assumes "a < b" "b \<le> length ls"
  shows "js_slice (line_start ls a) (line_start ls b - 1) (js_join sep ls) = js_join sep (js_slice a b ls)"
proof -
  let ?m = "js_slice a b ls"
  have m: "?m \<noteq> []" "take a ls @ ?m @ drop b ls = ls"
    using assms by (auto simp: js_slice_def take_js_slice_drop [unfolded js_slice_def])
  have pre: "\<exists>p. js_join sep ls = p @ js_join sep (?m @ drop b ls) \<and> length p = line_start ls a"
  proof (cases "a = 0")
    case True
    with m show ?thesis by (intro exI [of _ "[]"]) (simp add: line_start_def)
  next
    case False
    then have t: "take a ls \<noteq> []" using assms by auto
    have "js_join sep (take a ls @ ?m @ drop b ls) = js_join sep (take a ls) @ sep # js_join sep (?m @ drop b ls)"
      using m t by (intro js_join_append) auto
    moreover have "length (js_join sep (take a ls)) + 1 = line_start ls a"
      using length_js_join [OF t] assms by (simp add: line_start_def min_absorb2)
    ultimately show ?thesis using m by (intro exI [of _ "js_join sep (take a ls) @ [sep]"]) simp
  qed
  have post: "\<exists>q. js_join sep (?m @ drop b ls) = js_join sep ?m @ q"
    using m by (cases "drop b ls = []") (auto simp: js_join_append)
  have len: "length (js_join sep ?m) = line_start ls b - 1 - line_start ls a"
  proof -
    have "line_start ls b = line_start ls a + line_start ?m (length ?m)"
      using assms arg_cong [OF m(2), of "\<lambda>x. take b x"]
      by (simp add: line_start_def js_slice_def)
        (metis le_add_diff_inverse less_imp_le map_append sum_list_append take_add)
    with length_js_join [OF m(1), of sep] show ?thesis by simp
  qed
  from pre post obtain p q where "js_join sep ls = p @ js_join sep ?m @ q" "length p = line_start ls a" by auto
  then show ?thesis using len by (simp add: js_slice_def)
qed

section \<open>White space\<close>

definition js_whitespace :: "16 word \<Rightarrow> bool" where
  "js_whitespace c \<longleftrightarrow> c \<in> {9, 10, 11, 12, 13, 32, 0xA0, 0x1680, 0x2028, 0x2029, 0x202F, 0x205F, 0x3000, 0xFEFF}
     \<or> 0x2000 \<le> c \<and> c \<le> 0x200A"

definition js_line_terminator :: "16 word \<Rightarrow> bool" where
  "js_line_terminator c \<longleftrightarrow> c \<in> {10, 13, 0x2028, 0x2029}"

definition js_trim :: "js_text \<Rightarrow> js_text" where
  "js_trim s = rev (dropWhile js_whitespace (rev (dropWhile js_whitespace s)))"

lemma js_trim_Nil_iff: "js_trim s = [] \<longleftrightarrow> (\<forall>c \<in> set s. js_whitespace c)"
proof -
  have "js_trim s = [] \<longleftrightarrow> (\<forall>c \<in> set (dropWhile js_whitespace s). js_whitespace c)"
    by (simp add: js_trim_def)
  also have "\<dots> \<longleftrightarrow> (\<forall>c \<in> set s. js_whitespace c)"
    by (metis dropWhile_eq_Nil_conv hd_dropWhile list.set_sel(1) list.set_cases dropWhile_eq_self_iff)
  finally show ?thesis .
qed

lemma js_trim_idem [simp]: "js_trim (js_trim s) = js_trim s"
proof -
  let ?l = "dropWhile js_whitespace s"
  have "dropWhile js_whitespace (rev (dropWhile js_whitespace (rev ?l))) = rev (dropWhile js_whitespace (rev ?l))"
  proof (cases "rev (dropWhile js_whitespace (rev ?l))")
    case (Cons c t)
    have "?l = (c # t) @ rev (takeWhile js_whitespace (rev ?l))" unfolding Cons [symmetric] by (metis rev_append rev_rev_ident takeWhile_dropWhile_id)
    then obtain z where z: "?l = c # z" by (metis append_Cons)
    then have "?l \<noteq> []" by (metis list.distinct(1))
    from hd_dropWhile [OF this] have "\<not> js_whitespace c" unfolding z by simp
    then show ?thesis by (simp add: Cons)
  qed (simp only: dropWhile.simps)
  then show ?thesis by (simp add: js_trim_def)
qed

lemma js_trim_ends: "js_trim s = t \<Longrightarrow> t \<noteq> [] \<Longrightarrow> \<not> js_whitespace (hd t) \<and> \<not> js_whitespace (last t)"
proof -
  assume t: "js_trim s = t" "t \<noteq> []"
  have "\<not> js_whitespace (last t)" using t by (metis js_trim_def last_rev hd_dropWhile rev.simps(1) rev_rev_ident)
  moreover have "\<not> js_whitespace (hd t)"
  proof -
    have "dropWhile js_whitespace t \<noteq> [] \<and> js_trim t = t" using t js_trim_idem by (metis dropWhile.simps(1) js_trim_def rev.simps(1))
    moreover have "length (js_trim t) \<le> length (dropWhile js_whitespace t)" unfolding js_trim_def by (metis length_dropWhile_le length_rev)
    ultimately have "length t \<le> length (dropWhile js_whitespace t)" by simp
    moreover have "length (dropWhile js_whitespace (tl t)) \<le> length (tl t)" by (rule length_dropWhile_le)
    ultimately show ?thesis using t(2) by (cases t) (auto split: if_splits)
  qed
  ultimately show ?thesis by simp
qed

section \<open>\<open>toString(radix)\<close>\<close>

definition digit_unit :: "nat \<Rightarrow> 16 word" where
  "digit_unit d = (if d < 10 then 48 + of_nat d else 87 + of_nat d)"

function to_radix :: "nat \<Rightarrow> nat \<Rightarrow> js_text" where
  "to_radix r n = (if r < 2 \<or> n < r then [digit_unit n] else to_radix r (n div r) @ [digit_unit (n mod r)])"
  by pat_completeness auto
termination
  by (relation "measure snd") auto

declare to_radix.simps [simp del]

lemma unat_digit_unit: "d < 36 \<Longrightarrow> unat (digit_unit d) = (if d < 10 then 48 + d else 87 + d)"
proof -
  assume "d < 36"
  have "digit_unit d = of_nat (if d < 10 then 48 + d else 87 + d)" by (simp add: digit_unit_def)
  moreover have "unat (of_nat n :: 16 word) = n" if "n < 123" for n
    using that by (simp add: unat_of_nat take_bit_nat_eq_self)
  ultimately show ?thesis using \<open>d < 36\<close> by simp
qed

definition digit_value :: "16 word \<Rightarrow> nat" where
  "digit_value c = (if unat c < 58 then unat c - 48 else unat c - 87)"

definition radix_value :: "nat \<Rightarrow> js_text \<Rightarrow> nat" where
  "radix_value r s = foldl (\<lambda>a c. a * r + digit_value c) 0 s"

lemma digit_value_unit [simp]: "d < 36 \<Longrightarrow> digit_value (digit_unit d) = d"
  by (simp add: digit_value_def unat_digit_unit)

lemma radix_value_to_radix: "2 \<le> r \<Longrightarrow> r \<le> 36 \<Longrightarrow> radix_value r (to_radix r n) = n"
proof (induction r n rule: to_radix.induct)
  case (1 r n)
  show ?case
  proof (cases "n < r")
    case True
    with 1 show ?thesis by (subst to_radix.simps) (simp add: radix_value_def)
  next
    case False
    have "to_radix r n = to_radix r (n div r) @ [digit_unit (n mod r)]"
      using False 1 by (subst to_radix.simps) simp
    moreover have "n mod r < 36" using 1(2,3) mod_less_divisor [of r n] by linarith
    ultimately show ?thesis using False 1 by (simp add: radix_value_def)
  qed
qed

lemma to_radix_inject: "2 \<le> r \<Longrightarrow> r \<le> 36 \<Longrightarrow> to_radix r m = to_radix r n \<longleftrightarrow> m = n"
  by (metis radix_value_to_radix)

lemma to_radix_units: "2 \<le> r \<Longrightarrow> r \<le> 36 \<Longrightarrow> c \<in> set (to_radix r n) \<Longrightarrow> \<exists>d < 36. c = digit_unit d"
proof (induction r n rule: to_radix.induct)
  case (1 r n)
  have "n mod r < 36" using 1(2,3) mod_less_divisor [of r n] by linarith
  moreover have "c \<in> set (if r < 2 \<or> n < r then [digit_unit n] else to_radix r (n div r) @ [digit_unit (n mod r)])"
    using "1.prems"(3) by (subst (asm) to_radix.simps)
  ultimately show ?case using 1 by (auto split: if_splits intro: exI [of _ n])
qed

lemma to_radix_no_tilde: "2 \<le> r \<Longrightarrow> r \<le> 36 \<Longrightarrow> u16 (CHR ''~'') \<notin> set (to_radix r n)"
proof
  assume "2 \<le> r" "r \<le> 36" "u16 (CHR ''~'') \<in> set (to_radix r n)"
  then obtain d where "d < 36" "u16 (CHR ''~'') = digit_unit d" using to_radix_units by blast
  then have "unat (u16 (CHR ''~'')) = (if d < 10 then 48 + d else 87 + d)" by (simp add: unat_digit_unit)
  then show False using \<open>d < 36\<close> by (simp add: u16_def split: if_splits)
qed

end
