(* ===== verification/Markdown_Blocks.thy ===== *)
theory Markdown_Blocks
  imports Js_Text
begin

text \<open>
  The block model of the preview: the content hash and token groups of
  \<open>client/src/markdown/blocks.ts\<close>, the source splitter and the incremental-parse test of
  \<open>markdown/incremental.ts\<close>, and the task markers of \<open>markdown/tasks.ts\<close>. Each regular expression
  of the source is a matcher that reads the line the way the expression does.
\<close>

section \<open>\<open>hashString\<close>\<close>

text \<open>cyrb53: \<open>Math.imul\<close> is the 32-bit product, \<open>>>>\<close> the unsigned shift.\<close>

definition hash_step :: "32 word \<times> 32 word \<Rightarrow> 16 word \<Rightarrow> 32 word \<times> 32 word" where
  "hash_step h ch = (let (h1, h2) = h; c = ucast ch
     in (xor h1 c * 2654435761, xor h2 c * 1597334677))"

definition hash_value :: "js_text \<Rightarrow> nat" where
  "hash_value input =
     (let (h1, h2) = foldl hash_step (0xdeadbeef, 0x41c6ce57) input;
          h1 = xor (xor h1 (drop_bit 16 h1) * 2246822507) (xor h2 (drop_bit 13 h2) * 3266489909);
          h2 = xor (xor h2 (drop_bit 16 h2) * 2246822507) (xor h1 (drop_bit 13 h1) * 3266489909)
      in 4294967296 * unat (and 2097151 h2) + unat h1)"

definition hashString :: "js_text \<Rightarrow> js_text" where
  "hashString input = to_radix 36 (hash_value input)"

lemma hashString_no_tilde [simp]: "u16 (CHR ''~'') \<notin> set (hashString s)"
  by (simp add: hashString_def to_radix_no_tilde)

section \<open>Line matchers\<close>

definition leading :: "16 word \<Rightarrow> js_text \<Rightarrow> nat" where
  "leading c line = length (takeWhile (\<lambda>x. x = c) line)"

text \<open>\<open>/^( {0,3})(`{3,}|~{3,})/\<close>, with the closing run it asks for.\<close>

definition isFence :: "js_text \<Rightarrow> js_text option" where
  "isFence line =
     (let indent = leading (u16 CHR '' '') line; rest = drop indent line;
          ticks = leading 96 rest; tildes = leading 126 rest
      in if indent > 3 then None
         else if ticks \<ge> 3 then Some (replicate ticks 96)
         else if tildes \<ge> 3 then Some (replicate tildes 126)
         else None)"

definition closesFence :: "js_text \<Rightarrow> js_text \<Rightarrow> bool" where
  "closesFence close line =
     (let indent = leading (u16 CHR '' '') line
      in indent \<le> 3 \<and> take (length close) (drop indent line) = close)"

definition js_digit :: "16 word \<Rightarrow> bool" where
  "js_digit c \<longleftrightarrow> 48 \<le> c \<and> c \<le> 57"

text \<open>\<open>/^( {0,3})(?:[-+*] |\d+[.)] )/\<close>\<close>

definition isListStart :: "js_text \<Rightarrow> bool" where
  "isListStart line =
     (let indent = leading (u16 CHR '' '') line; rest = drop indent line;
          after = dropWhile js_digit rest
      in indent \<le> 3 \<and>
         ((case rest of m # s # _ \<Rightarrow> m \<in> {45, 43, 42} \<and> s = 32 | _ \<Rightarrow> False) \<or>
          (length after < length rest \<and>
           (case after of m # s # _ \<Rightarrow> m \<in> {46, 41} \<and> s = 32 | _ \<Rightarrow> False))))"

text \<open>\<open>/^( {0,3}#{1,6} )/\<close>\<close>

definition isHeadingLine :: "js_text \<Rightarrow> bool" where
  "isHeadingLine line =
     (let indent = leading (u16 CHR '' '') line; rest = drop indent line; marks = leading 35 rest
      in indent \<le> 3 \<and> 1 \<le> marks \<and> marks \<le> 6 \<and> (case drop marks rest of s # _ \<Rightarrow> s = 32 | [] \<Rightarrow> False))"

definition blank :: "js_text \<Rightarrow> bool" where
  "blank line \<longleftrightarrow> js_trim line = []"

definition starts_space_or_empty :: "js_text \<Rightarrow> bool" where
  "starts_space_or_empty line \<longleftrightarrow> (case line of [] \<Rightarrow> True | c # _ \<Rightarrow> c = 32)"

section \<open>\<open>splitSourceBlocks\<close>\<close>

record source_block =
  sourceStart :: nat
  sourceEnd :: nat
  sb_start :: nat
  sb_end :: nat
  sb_source :: js_text
  sb_key :: js_text

function skip_fence :: "js_text list \<Rightarrow> js_text \<Rightarrow> nat \<Rightarrow> nat" where
  "skip_fence ls close index =
     (if index < length ls \<and> \<not> closesFence close (ls ! index) then skip_fence ls close (index + 1) else index)"
  by pat_completeness auto
termination
  by (relation "measure (\<lambda>(ls, close, index). length ls - index)") auto

function skip_list :: "js_text list \<Rightarrow> nat \<Rightarrow> nat" where
  "skip_list ls index =
     (if index < length ls
      then let nxt = ls ! index
           in if blank nxt
              then let ahead = (if index + 1 < length ls then ls ! (index + 1) else [])
                   in if isListStart ahead \<or> starts_space_or_empty ahead then skip_list ls (index + 1) else index
              else if isFence nxt \<noteq> None \<or> isHeadingLine nxt then index
              else skip_list ls (index + 1)
      else index)"
  by pat_completeness auto
termination
  by (relation "measure (\<lambda>(ls, index). length ls - index)") auto

function skip_paragraph :: "js_text list \<Rightarrow> nat \<Rightarrow> nat" where
  "skip_paragraph ls index =
     (if index < length ls
      then let nxt = ls ! index
           in if blank nxt \<or> isFence nxt \<noteq> None \<or> isListStart nxt \<or> isHeadingLine nxt then index
              else skip_paragraph ls (index + 1)
      else index)"
  by pat_completeness auto
termination
  by (relation "measure (\<lambda>(ls, index). length ls - index)") auto

declare skip_fence.simps [simp del] skip_list.simps [simp del] skip_paragraph.simps [simp del]

lemma skip_fence_bounds: "i \<le> length ls \<Longrightarrow> i \<le> skip_fence ls c i \<and> skip_fence ls c i \<le> length ls"
  by (induction ls c i rule: skip_fence.induct) (subst (1 2) skip_fence.simps, force)

lemma skip_list_stays:
  "skip_list ls i = i \<or> i < length ls \<and> skip_list ls i = skip_list ls (i + 1)"
  by (simp add: skip_list.simps [of ls i] Let_def)

lemma skip_list_bounds: "i \<le> length ls \<Longrightarrow> i \<le> skip_list ls i \<and> skip_list ls i \<le> length ls"
proof (induction "length ls - i" arbitrary: i rule: less_induct)
  case less
  from skip_list_stays [of ls i] show ?case
  proof
    assume r: "i < length ls \<and> skip_list ls i = skip_list ls (i + 1)"
    with less.hyps [of "i + 1"] have "i + 1 \<le> skip_list ls (i + 1) \<and> skip_list ls (i + 1) \<le> length ls"
      by (simp add: diff_less_mono2)
    with r show ?thesis by simp
  qed (use less.prems in simp)
qed

lemma skip_paragraph_bounds: "i \<le> length ls \<Longrightarrow> i \<le> skip_paragraph ls i \<and> skip_paragraph ls i \<le> length ls"
  by (induction ls i rule: skip_paragraph.induct) (subst (1 2) skip_paragraph.simps, force simp: Let_def)

text \<open>The state of the splitter: the blocks so far and the occurrence counts (\<open>seen\<close>).\<close>

type_synonym split_state = "source_block list \<times> (js_text \<Rightarrow> nat)"

definition block_key :: "js_text \<Rightarrow> nat \<Rightarrow> js_text" where
  "block_key base occurrence = (if occurrence = 1 then base else base @ u16 (CHR ''~'') # to_radix 10 occurrence)"

definition push_block :: "js_text \<Rightarrow> js_text list \<Rightarrow> nat list \<Rightarrow> split_state \<Rightarrow> nat \<times> nat \<Rightarrow> split_state" where
  "push_block doc ls offsets st rng =
     (let (blocks, seen) = st; (start, fin) = rng;
          source = js_join js_newline (js_slice start fin ls)
      in if start = fin \<and> length source = 0 \<and> blocks \<noteq> [] then (blocks, seen)
         else let base = hashString source; occurrence = seen base + 1
              in (blocks @ [\<lparr>sourceStart = (if start < length offsets then offsets ! start else 0),
                             sourceEnd = (if fin \<ge> length ls then length doc else max (offsets ! fin - 1) 0),
                             sb_start = start, sb_end = fin, sb_source = source,
                             sb_key = block_key base occurrence\<rparr>],
                  seen(base := occurrence)))"

text \<open>One pass of the outer loop on a line that is not blank: where the block that starts here ends.\<close>

definition block_end :: "js_text list \<Rightarrow> nat \<Rightarrow> nat" where
  "block_end ls start =
     (case isFence (ls ! start) of
        Some close \<Rightarrow> let i = skip_fence ls close (start + 1) in if i < length ls then i + 1 else i
      | None \<Rightarrow> if isListStart (ls ! start) then skip_list ls (start + 1) else skip_paragraph ls (start + 1))"

lemma block_end_bounds: "i < length ls \<Longrightarrow> i < block_end ls i \<and> block_end ls i \<le> length ls"
  using skip_fence_bounds [of "i + 1" ls] skip_list_bounds [of "i + 1" ls] skip_paragraph_bounds [of "i + 1" ls]
  by (auto simp: block_end_def Let_def Suc_le_eq less_Suc_eq split: option.split)

function split_loop :: "js_text \<Rightarrow> js_text list \<Rightarrow> nat list \<Rightarrow> nat \<Rightarrow> split_state \<Rightarrow> split_state" where
  "split_loop doc ls offsets index st =
     (if index < length ls
      then if blank (ls ! index) then split_loop doc ls offsets (index + 1) st
           else let fin = block_end ls index in split_loop doc ls offsets fin (push_block doc ls offsets st (index, fin))
      else st)"
  by pat_completeness auto
termination
  by (relation "measure (\<lambda>(doc, ls, offsets, index, st). length ls - index)")
    (use block_end_bounds diff_less_mono2 in auto)

declare split_loop.simps [simp del]

definition splitSourceBlocks :: "js_text \<Rightarrow> source_block list" where
  "splitSourceBlocks doc =
     (let ls = js_split js_newline doc; offsets = lineOffsets 0 ls;
          (blocks, seen) = split_loop doc ls offsets 0 ([], \<lambda>_. 0)
      in if blocks = [] \<and> length doc > 0
         then fst (push_block doc ls offsets (blocks, seen) (0, length ls))
         else blocks)"

text \<open>The line ranges the loop pushes, in order.\<close>

function block_ranges :: "js_text list \<Rightarrow> nat \<Rightarrow> (nat \<times> nat) list" where
  "block_ranges ls index =
     (if index < length ls
      then if blank (ls ! index) then block_ranges ls (index + 1)
           else (index, block_end ls index) # block_ranges ls (block_end ls index)
      else [])"
  by pat_completeness auto
termination
  by (relation "measure (\<lambda>(ls, index). length ls - index)") (use block_end_bounds diff_less_mono2 in auto)

declare block_ranges.simps [simp del]

lemma split_loop_ranges:
  "split_loop doc ls offsets i st = foldl (push_block doc ls offsets) st (block_ranges ls i)"
proof (induction doc ls offsets i st rule: split_loop.induct)
  case (1 doc ls offsets i st)
  show ?case
    by (subst split_loop.simps, subst block_ranges.simps) (use 1 in \<open>simp add: Let_def\<close>)
qed

text \<open>Ranges are ascending, non-empty and disjoint, start at a line that is not blank and leave out blank lines only.\<close>

fun ranges_ok :: "js_text list \<Rightarrow> nat \<Rightarrow> (nat \<times> nat) list \<Rightarrow> bool" where
  "ranges_ok ls i [] \<longleftrightarrow> (\<forall>k. i \<le> k \<longrightarrow> k < length ls \<longrightarrow> blank (ls ! k))"
| "ranges_ok ls i ((a, b) # rs) \<longleftrightarrow> i \<le> a \<and> a < b \<and> b \<le> length ls \<and> \<not> blank (ls ! a)
     \<and> (\<forall>k. i \<le> k \<longrightarrow> k < a \<longrightarrow> blank (ls ! k)) \<and> ranges_ok ls b rs"

lemma ranges_ok_skip_blank:
  "blank (ls ! i) \<Longrightarrow> ranges_ok ls (Suc i) rs \<Longrightarrow> ranges_ok ls i rs"
proof -
  assume *: "blank (ls ! i)" "ranges_ok ls (Suc i) rs"
  have "\<forall>k. i \<le> k \<longrightarrow> k = i \<or> Suc i \<le> k" by auto
  with * show ?thesis by (cases rs) (auto, metis)
qed

lemma block_ranges_ok: "ranges_ok ls i (block_ranges ls i)"
proof (induction ls i rule: block_ranges.induct)
  case (1 ls i)
  show ?case
  proof (cases "i < length ls")
    case True
    show ?thesis
    proof (cases "blank (ls ! i)")
      case b: True
      with 1 True have "ranges_ok ls (i + 1) (block_ranges ls (i + 1))" by blast
      with b True show ?thesis
        by (subst block_ranges.simps) (simp add: ranges_ok_skip_blank)
    next
      case False
      with 1 True block_end_bounds [OF True] show ?thesis
        by (subst block_ranges.simps) simp
    qed
  next
    case False
    then show ?thesis by (subst block_ranges.simps) simp
  qed
qed

subsection \<open>Keys\<close>

lemma append_sep_inject:
  "x \<notin> set a \<Longrightarrow> x \<notin> set b \<Longrightarrow> a @ x # m = b @ x # n \<Longrightarrow> a = b \<and> m = n"
proof (induction a arbitrary: b)
  case Nil
  then show ?case by (cases b) auto
next
  case (Cons y a)
  then show ?case by (cases b) auto
qed

lemma block_key_inject:
  assumes "block_key a i = block_key b j" and no: "u16 (CHR ''~'') \<notin> set a" "u16 (CHR ''~'') \<notin> set b"
  shows "a = b \<and> i = j"
proof (cases "i = 1 \<longleftrightarrow> j = 1")
  case True
  then consider "i = 1" "j = 1" "a = b"
    | "a @ u16 (CHR ''~'') # to_radix 10 i = b @ u16 (CHR ''~'') # to_radix 10 j"
    using assms(1) by (auto simp: block_key_def)
  then show ?thesis
  proof cases
    case 2
    from append_sep_inject [OF no this] show ?thesis by (simp add: to_radix_inject)
  qed simp
next
  case False
  then have "u16 (CHR ''~'') \<in> set a \<or> u16 (CHR ''~'') \<in> set b"
    using assms(1) by (auto simp: block_key_def dest: arg_cong [of _ _ set] split: if_splits)
  with no show ?thesis by simp
qed

text \<open>Every occurrence up to the count of its hash has been used once.\<close>

definition keys_ok :: "split_state \<Rightarrow> bool" where
  "keys_ok st \<longleftrightarrow> (let (blocks, seen) = st in distinct (map sb_key blocks)
     \<and> (\<forall>k \<in> set (map sb_key blocks). \<exists>a i. k = block_key a i \<and> u16 (CHR ''~'') \<notin> set a \<and> i \<le> seen a))"

lemma push_block_keys:
  assumes "keys_ok st" shows "keys_ok (push_block doc ls offsets st r)"
proof -
  obtain blocks seen where st: "st = (blocks, seen)" by fastforce
  obtain a b where r: "r = (a, b)" by fastforce
  define base where "base = hashString (js_join js_newline (js_slice a b ls))"
  have no: "u16 (CHR ''~'') \<notin> set base" by (simp add: base_def)
  have old: "distinct (map sb_key blocks)"
      "\<forall>k \<in> set (map sb_key blocks). \<exists>a i. k = block_key a i \<and> u16 (CHR ''~'') \<notin> set a \<and> i \<le> seen a"
    using assms st by (auto simp: keys_ok_def)
  have "block_key base (seen base + 1) \<notin> set (map sb_key blocks)"
  proof
    assume "block_key base (seen base + 1) \<in> set (map sb_key blocks)"
    with old(2) obtain c i where "block_key base (seen base + 1) = block_key c i"
        "u16 (CHR ''~'') \<notin> set c" "i \<le> seen c" by blast
    with block_key_inject [OF this(1) no this(2)] show False by auto
  qed
  moreover have "\<exists>a i. k = block_key a i \<and> u16 (CHR ''~'') \<notin> set a \<and> i \<le> (seen(base := seen base + 1)) a"
    if "k \<in> set (map sb_key blocks)" for k
  proof -
    from old(2) that obtain c i where "k = block_key c i" "u16 (CHR ''~'') \<notin> set c" "i \<le> seen c" by blast
    then show ?thesis by (intro exI [of _ c] exI [of _ i]) auto
  qed
  moreover have "\<exists>a i. block_key base (seen base + 1) = block_key a i \<and> u16 (CHR ''~'') \<notin> set a
      \<and> i \<le> (seen(base := seen base + 1)) a"
    using no by (intro exI [of _ base] exI [of _ "seen base + 1"]) simp
  ultimately show ?thesis using assms old(1)
    by (auto simp: push_block_def st r keys_ok_def Let_def base_def [symmetric])
qed

lemma foldl_push_keys: "keys_ok st \<Longrightarrow> keys_ok (foldl (push_block doc ls offsets) st rs)"
  by (induction rs arbitrary: st) (auto simp: push_block_keys)

subsection \<open>Slices\<close>

text \<open>A pushed range of whole lines records exactly its slice of the document.\<close>

definition block_at :: "js_text \<Rightarrow> js_text list \<Rightarrow> nat \<times> nat \<Rightarrow> source_block \<Rightarrow> bool" where
  "block_at doc ls r b \<longleftrightarrow> sb_start b = fst r \<and> sb_end b = snd r
     \<and> sourceStart b = line_start ls (fst r) \<and> sourceEnd b = line_start ls (snd r) - 1
     \<and> sb_source b = js_slice (sourceStart b) (sourceEnd b) doc"

lemma push_block_at:
  assumes "ls = js_split js_newline doc" "a < b" "b \<le> length ls"
  obtains blk where "fst (push_block doc ls (lineOffsets 0 ls) st (a, b)) = fst st @ [blk]"
    and "block_at doc ls (a, b) blk"
proof -
  have doc: "js_join js_newline ls = doc" by (simp add: assms(1))
  have ne: "ls \<noteq> []" by (simp add: assms(1))
  have fin: "(if b \<ge> length ls then length doc else max (lineOffsets 0 ls ! b - 1) 0) = line_start ls b - 1"
    using length_js_join [OF ne, of js_newline] assms(3)
    by (auto simp: doc lineOffsets_nth le_antisym)
  have src: "js_join js_newline (js_slice a b ls) = js_slice (line_start ls a) (line_start ls b - 1) doc"
    using js_slice_lines [OF assms(2,3), of js_newline] by (simp add: doc)
  show ?thesis
    by (rule that [of "\<lparr>sourceStart = line_start ls a, sourceEnd = line_start ls b - 1, sb_start = a, sb_end = b,
          sb_source = js_join js_newline (js_slice a b ls),
          sb_key = block_key (hashString (js_join js_newline (js_slice a b ls)))
             (snd st (hashString (js_join js_newline (js_slice a b ls))) + 1)\<rparr>"])
      (use assms fin src in \<open>auto simp: push_block_def Let_def split_def block_at_def lineOffsets_nth\<close>)
qed

lemma foldl_push_at:
  assumes "ls = js_split js_newline doc" "ranges_ok ls i rs"
  shows "\<exists>blks. fst (foldl (push_block doc ls (lineOffsets 0 ls)) st rs) = fst st @ blks
    \<and> list_all2 (block_at doc ls) rs blks"
  using assms(2)
proof (induction rs arbitrary: i st)
  case (Cons r rs)
  obtain a b where r: "r = (a, b)" by fastforce
  from Cons.prems have ab: "a < b" "b \<le> length ls" and rest: "ranges_ok ls b rs" by (auto simp: r)
  from push_block_at [OF assms(1) ab, of st] obtain blk where
    blk: "fst (push_block doc ls (lineOffsets 0 ls) st (a, b)) = fst st @ [blk]" "block_at doc ls (a, b) blk" .
  from Cons.IH [OF rest, of "push_block doc ls (lineOffsets 0 ls) st (a, b)"] blk show ?case
    by (auto simp: r)
qed simp

lemma ranges_ok_covers:
  "ranges_ok ls i rs \<Longrightarrow> i \<le> k \<Longrightarrow> k < length ls \<Longrightarrow> \<not> blank (ls ! k) \<Longrightarrow> \<exists>(a, b) \<in> set rs. a \<le> k \<and> k < b"
proof (induction rs arbitrary: i)
  case (Cons r rs)
  obtain a b where r: "r = (a, b)" by fastforce
  show ?case
  proof (cases "k < b")
    case True
    moreover have "a \<le> k" using Cons.prems r by (auto simp: not_le [symmetric])
    ultimately show ?thesis by (auto simp: r)
  next
    case False
    with Cons.IH [of b] Cons.prems show ?thesis by (auto simp: r)
  qed
qed auto

lemma ranges_ok_sorted:
  "ranges_ok ls i rs \<Longrightarrow> sorted_wrt (\<lambda>r q. snd r \<le> fst q) rs \<and> (\<forall>r \<in> set rs. i \<le> fst r \<and> fst r < snd r \<and> snd r \<le> length ls)"
  by (induction rs arbitrary: i) fastforce+

text \<open>Every unit of a joined text that is not a separator belongs to a line.\<close>

lemma unit_in_line:
  "i < length (js_join sep ls) \<Longrightarrow> js_join sep ls ! i \<noteq> sep \<Longrightarrow>
     \<exists>k < length ls. line_start ls k \<le> i \<and> i < line_start ls (Suc k) - 1 \<and> js_join sep ls ! i \<in> set (ls ! k)"
proof (induction ls arbitrary: i)
  case (Cons l ls)
  show ?case
  proof (cases "i < length l")
    case True
    then have "js_join sep (l # ls) ! i = l ! i" by (cases ls) (auto simp: nth_append)
    with True show ?thesis by (intro exI [of _ 0]) (simp add: line_start_def)
  next
    case False
    with Cons.prems have ne: "ls \<noteq> []" by auto
    from Cons.prems False ne have "i \<noteq> length l" by (auto simp: js_join_Cons nth_append)
    define j where "j = i - length l - 1"
    have i: "i = length l + 1 + j" using False \<open>i \<noteq> length l\<close> by (simp add: j_def)
    have nth: "js_join sep (l # ls) ! i = js_join sep ls ! j" "j < length (js_join sep ls)"
      using Cons.prems(1) ne by (simp_all add: i js_join_Cons nth_append)
    with Cons.IH [of j] Cons.prems(2) obtain k where
      "k < length ls" "line_start ls k \<le> j" "j < line_start ls (Suc k) - 1" "js_join sep ls ! j \<in> set (ls ! k)"
      by auto
    then show ?thesis
      using nth(1) by (intro exI [of _ "Suc k"]) (auto simp: i line_start_def)
  qed
qed simp

lemma list_all2_sorted_wrt:
  "list_all2 P xs ys \<Longrightarrow> sorted_wrt Q xs \<Longrightarrow>
     (\<And>x x' y y'. x \<in> set xs \<Longrightarrow> x' \<in> set xs \<Longrightarrow> P x y \<Longrightarrow> P x' y' \<Longrightarrow> Q x x' \<Longrightarrow> R y y') \<Longrightarrow> sorted_wrt R ys"
proof (induction xs ys rule: list_all2_induct)
  case (Cons x xs y ys)
  have "R y y'" if "y' \<in> set ys" for y'
  proof -
    from Cons.hyps(2) that obtain x' where "x' \<in> set xs" "P x' y'"
      by (metis in_set_conv_nth list_all2_conv_all_nth)
    with Cons.prems(1) Cons.hyps(1) show ?thesis
      by (intro Cons.prems(2) [of x x']) auto
  qed
  with Cons show ?case by auto
qed simp

text \<open>The ranges that are pushed, fallback included.\<close>

lemma splitSourceBlocks_ranges:
  assumes "ls = js_split js_newline doc"
  obtains rs where "list_all2 (block_at doc ls) rs (splitSourceBlocks doc)"
    and "sorted_wrt (\<lambda>r q. snd r \<le> fst q) rs" and "\<forall>r \<in> set rs. fst r < snd r \<and> snd r \<le> length ls"
    and "\<forall>k < length ls. \<not> blank (ls ! k) \<longrightarrow> (\<exists>(a, b) \<in> set rs. a \<le> k \<and> k < b)"
    and "distinct (map sb_key (splitSourceBlocks doc))"
proof -
  let ?rs = "block_ranges ls 0" and ?push = "push_block doc ls (lineOffsets 0 ls)"
  let ?st = "foldl ?push ([], \<lambda>_. 0) ?rs"
  note ok = block_ranges_ok [of ls 0]
  have init: "keys_ok ([], \<lambda>_. 0)" by (simp add: keys_ok_def)
  from foldl_push_at [OF assms ok, of "([], \<lambda>_. 0)"] have
    blks: "list_all2 (block_at doc ls) ?rs (fst ?st)" by auto
  show ?thesis
  proof (cases "fst ?st = [] \<and> length doc > 0")
    case False
    then have eq: "splitSourceBlocks doc = fst ?st"
      by (auto simp: splitSourceBlocks_def assms [symmetric] split_loop_ranges Let_def split_def)
    have "distinct (map sb_key (fst ?st))"
      using foldl_push_keys [OF init, of doc ls "lineOffsets 0 ls" ?rs] by (simp add: keys_ok_def Let_def split_def)
    then show ?thesis
      by (intro that [of ?rs]) (use blks ranges_ok_sorted [OF ok] ranges_ok_covers [OF ok]
        in \<open>auto simp: eq split_def\<close>)
  next
    case True
    then have none: "?rs = []" using blks by auto
    have eq: "splitSourceBlocks doc = fst (?push ([], \<lambda>_. 0) (0, length ls))"
      using True by (simp add: splitSourceBlocks_def assms [symmetric] split_loop_ranges Let_def split_def none)
    have "0 < length ls" using assms by simp
    from push_block_at [OF assms this, of "([], \<lambda>_. 0)"] obtain blk where
      "splitSourceBlocks doc = [blk]" "block_at doc ls (0, length ls) blk" by (auto simp: eq)
    with \<open>0 < length ls\<close> show ?thesis by (intro that [of "[(0, length ls)]"]) auto
  qed
qed

text \<open>
  \<open>splitSourceBlocks\<close> cuts every document into blocks with distinct keys, in source order
  and without overlap; each block's \<open>source\<close> is exactly the slice its offsets name, and every unit
  that is not white space lies in a block.
\<close>

theorem splitSourceBlocks_partition:
  "distinct (map sb_key (splitSourceBlocks doc))
   \<and> sorted_wrt (\<lambda>a b. sourceEnd a < sourceStart b) (splitSourceBlocks doc)
   \<and> (\<forall>b \<in> set (splitSourceBlocks doc). sourceStart b \<le> sourceEnd b \<and> sourceEnd b \<le> length doc
        \<and> sb_source b = js_slice (sourceStart b) (sourceEnd b) doc)
   \<and> (\<forall>i < length doc. \<not> js_whitespace (doc ! i) \<longrightarrow>
        (\<exists>b \<in> set (splitSourceBlocks doc). sourceStart b \<le> i \<and> i < sourceEnd b))"
proof -
  define ls where "ls = js_split js_newline doc"
  have doc: "js_join js_newline ls = doc" "ls \<noteq> []" by (simp_all add: ls_def)
  obtain rs where rs: "list_all2 (block_at doc ls) rs (splitSourceBlocks doc)"
      "sorted_wrt (\<lambda>r q. snd r \<le> fst q) rs" "\<forall>r \<in> set rs. fst r < snd r \<and> snd r \<le> length ls"
      "\<forall>k < length ls. \<not> blank (ls ! k) \<longrightarrow> (\<exists>(a, b) \<in> set rs. a \<le> k \<and> k < b)"
      "distinct (map sb_key (splitSourceBlocks doc))"
    using splitSourceBlocks_ranges [OF ls_def] by blast
  have pos: "0 < line_start ls j" if "0 < j" "j \<le> length ls" for j
    using line_start_strict [of 0 j ls] that by simp
  have "sorted_wrt (\<lambda>a b. sourceEnd a < sourceStart b) (splitSourceBlocks doc)"
  proof (rule list_all2_sorted_wrt [OF rs(1,2)])
    fix r q a b
    assume "r \<in> set rs" "q \<in> set rs" "block_at doc ls r a" "block_at doc ls q b" "snd r \<le> fst q"
    moreover from this rs(3) have "0 < line_start ls (snd r)" by (intro pos) auto
    ultimately show "sourceEnd a < sourceStart b"
      using line_start_mono [of "snd r" "fst q" ls] by (simp add: block_at_def)
  qed
  moreover have "sourceStart b \<le> sourceEnd b \<and> sourceEnd b \<le> length doc
      \<and> sb_source b = js_slice (sourceStart b) (sourceEnd b) doc" if "b \<in> set (splitSourceBlocks doc)" for b
  proof -
    from rs(1) that obtain r where r: "r \<in> set rs" "block_at doc ls r b"
      by (metis in_set_conv_nth list_all2_conv_all_nth)
    with rs(3) have "fst r < snd r" "snd r \<le> length ls" by auto
    with r(2) line_start_strict [of "fst r" "snd r" ls] line_start_mono [of "snd r" "length ls" ls]
      length_js_join [OF doc(2), of js_newline] show ?thesis
      unfolding block_at_def doc(1) by (auto simp: le_diff_conv less_eq_Suc_le)
  qed
  moreover have "\<exists>b \<in> set (splitSourceBlocks doc). sourceStart b \<le> i \<and> i < sourceEnd b"
    if i: "i < length doc" "\<not> js_whitespace (doc ! i)" for i
  proof -
    have "doc ! i \<noteq> js_newline" using i(2) by (auto simp: js_whitespace_def)
    with unit_in_line [of i js_newline ls] i(1) obtain k where
      k: "k < length ls" "line_start ls k \<le> i" "i < line_start ls (Suc k) - 1" "doc ! i \<in> set (ls ! k)"
      by (auto simp: doc)
    then have "\<not> blank (ls ! k)" using i(2) by (auto simp: blank_def js_trim_Nil_iff)
    with rs(4) k(1) obtain a b where ab: "(a, b) \<in> set rs" "a \<le> k" "k < b" by auto
    with rs(1) obtain blk where "blk \<in> set (splitSourceBlocks doc)" "block_at doc ls (a, b) blk"
      by (metis in_set_conv_nth list_all2_conv_all_nth)
    with k ab line_start_mono [of a k ls] line_start_mono [of "Suc k" b ls] show ?thesis
      by (intro bexI [of _ blk]) (auto simp: block_at_def)
  qed
  ultimately show ?thesis using rs(5) by blast
qed

theorem splitSourceBlocks_partition_witness:
  "\<exists>b \<in> set (splitSourceBlocks (js ''a'')). sourceStart b \<le> 0 \<and> 0 < sourceEnd b"
proof -
  have "\<not> js_whitespace (js ''a'' ! 0)" by (simp add: js_whitespace_def u16_def)
  with splitSourceBlocks_partition [of "js ''a''"] show ?thesis by simp
qed

section \<open>\<open>incrementalParseSafe\<close>\<close>

definition lead_white :: "js_text \<Rightarrow> nat" where
  "lead_white line = length (takeWhile js_whitespace line)"

text \<open>\<open>.+?]:\<close> after an opening bracket: at least one unit, none of them a line terminator, then \<open>]:\<close>.\<close>

definition lazy_close :: "js_text \<Rightarrow> bool" where
  "lazy_close rest \<longleftrightarrow> index_of [93, 58] (takeWhile (\<lambda>c. \<not> js_line_terminator c) rest) 1 \<noteq> None"

text \<open>\<open>GLOBAL_DEF\<close>: link reference, abbreviation and footnote definitions.\<close>

definition isGlobalDef :: "js_text \<Rightarrow> bool" where
  "isGlobalDef line =
     (let indent = lead_white line; rest = drop indent line
      in indent \<le> 3 \<and>
         ((case rest of c # r \<Rightarrow> c = 91 \<and> (let body = takeWhile (\<lambda>x. x \<noteq> 93) r
              in body \<noteq> [] \<and> take 2 (drop (length body) r) = [93, 58]) | [] \<Rightarrow> False) \<or>
          (take 2 rest = [42, 91] \<and> lazy_close (drop 2 rest)) \<or>
          (take 2 rest = [91, 94] \<and> lazy_close (drop 2 rest))))"

definition globalDefinitionSignature :: "js_text \<Rightarrow> js_text" where
  "globalDefinitionSignature doc = hashString (js_join js_newline (filter isGlobalDef (js_split js_newline doc)))"

text \<open>\<open>/^ {0,3}#{1,6}\s+\S/\<close>\<close>

definition isHeadingSource :: "js_text \<Rightarrow> bool" where
  "isHeadingSource line =
     (let indent = leading (u16 CHR '' '') line; rest = drop indent line; marks = leading 35 rest;
          white = lead_white (drop marks rest)
      in indent \<le> 3 \<and> 1 \<le> marks \<and> marks \<le> 6 \<and> 1 \<le> white \<and> drop (marks + white) rest \<noteq> [])"

definition headingSources :: "js_text \<Rightarrow> js_text list" where
  "headingSources doc = filter isHeadingSource (js_split js_newline doc)"

definition dirty_blocks :: "js_text \<Rightarrow> js_text \<Rightarrow> source_block list" where
  "dirty_blocks previous current =
     filter (\<lambda>b. sb_key b \<notin> sb_key ` set (splitSourceBlocks previous)) (splitSourceBlocks current)"

text \<open>The ratio test \<open>dirty / blocks <= 0.35\<close>, multiplied out; \<open>safe\<close> also asks for a dirty block.\<close>

definition incrementalParseSafe :: "js_text \<Rightarrow> js_text \<Rightarrow> source_block list \<times> bool" where
  "incrementalParseSafe previous current =
     (let dirty = dirty_blocks previous current; n = length (splitSourceBlocks current)
      in (dirty,
          globalDefinitionSignature previous = globalDefinitionSignature current
          \<and> js_join 0 (headingSources previous) = js_join 0 (headingSources current)
          \<and> (if n = 0 then True else 100 * length dirty \<le> 35 * n)
          \<and> length dirty > 0))"

section \<open>\<open>groupTokens\<close>\<close>

record token =
  tk_type :: string
  nesting :: int
  tk_map :: "(nat \<times> nat) option"

record token_group =
  g_tokens :: "token list"
  g_line :: int
  g_source :: "js_text option"

text \<open>The \<open>do ... while\<close> loop: it takes a token first and tests afterwards.\<close>

fun group_length :: "token list \<Rightarrow> int \<Rightarrow> nat" where
  "group_length [] depth = 0"
| "group_length (t # ts) depth =
     (let depth = depth + nesting t in if ts \<noteq> [] \<and> depth > 0 then 1 + group_length ts depth else 1)"

definition first_group :: "token list \<Rightarrow> nat" where
  "first_group ts = (if nesting (hd ts) = 1 then group_length ts 0 else 1)"

definition make_group :: "js_text list \<Rightarrow> token list \<Rightarrow> token_group" where
  "make_group ls grp =
     (let mapped = (case List.find (\<lambda>t. tk_map t \<noteq> None) grp of None \<Rightarrow> None | Some t \<Rightarrow> tk_map t)
      in case mapped of
           None \<Rightarrow> \<lparr>g_tokens = grp, g_line = -1, g_source = None\<rparr>
         | Some (a, b) \<Rightarrow> \<lparr>g_tokens = grp, g_line = int a,
                            g_source = Some (js_join js_newline (js_slice a b ls))\<rparr>)"

lemma group_length_bounds: "ts \<noteq> [] \<Longrightarrow> 1 \<le> group_length ts d \<and> group_length ts d \<le> length ts"
proof (induction ts arbitrary: d)
  case (Cons t ts)
  then show ?case by (cases "ts = []") (auto simp: Let_def)
qed simp

lemma first_group_bounds: "ts \<noteq> [] \<Longrightarrow> 1 \<le> first_group ts \<and> first_group ts \<le> length ts"
  using group_length_bounds [of ts 0] by (auto simp: first_group_def Suc_le_eq)

function groupTokens :: "token list \<Rightarrow> js_text list \<Rightarrow> token_group list" where
  "groupTokens ts ls =
     (if ts = [] then []
      else make_group ls (take (first_group ts) ts) # groupTokens (drop (first_group ts) ts) ls)"
  by pat_completeness auto
termination
  by (relation "measure (\<lambda>(ts, ls). length ts)") (use first_group_bounds in force)+

declare groupTokens.simps [simp del]

definition depth_after :: "token list \<Rightarrow> int" where
  "depth_after ts = sum_list (map nesting ts)"

lemma group_length_open:
  "0 < k \<Longrightarrow> k < group_length ts d \<Longrightarrow> 0 < d + depth_after (take k ts)"
proof (induction ts arbitrary: d k)
  case (Cons t ts)
  from Cons.prems have ts: "ts \<noteq> []" "0 < d + nesting t" "k < 1 + group_length ts (d + nesting t)"
    by (auto simp: Let_def split: if_splits)
  obtain j where k: "k = Suc j" using Cons.prems(1) by (cases k) auto
  show ?case
  proof (cases "j = 0")
    case True
    with ts k show ?thesis by (simp add: depth_after_def)
  next
    case False
    with Cons.IH [of j "d + nesting t"] ts k show ?thesis by (simp add: depth_after_def)
  qed
qed simp

lemma group_length_closed:
  "group_length ts d < length ts \<Longrightarrow> ts \<noteq> [] \<Longrightarrow> d + depth_after (take (group_length ts d) ts) \<le> 0"
proof (induction ts arbitrary: d)
  case (Cons t ts)
  show ?case
  proof (cases "ts \<noteq> [] \<and> 0 < d + nesting t")
    case True
    with Cons have "d + nesting t + depth_after (take (group_length ts (d + nesting t)) ts) \<le> 0" by (simp add: Let_def)
    with True show ?thesis by (simp add: Let_def depth_after_def)
  next
    case False
    with Cons.prems show ?thesis by (auto simp: Let_def depth_after_def)
  qed
qed simp

text \<open>A group that opens stays open until its last token, and is closed by it unless the tokens run out.\<close>

definition group_whole :: "token list \<Rightarrow> bool" where
  "group_whole g \<longleftrightarrow> g \<noteq> [] \<and>
     (if nesting (hd g) = 1 then \<forall>k. 0 < k \<longrightarrow> k < length g \<longrightarrow> 0 < depth_after (take k g) else length g = 1)"

lemma first_group_whole: "ts \<noteq> [] \<Longrightarrow> group_whole (take (first_group ts) ts)"
  using first_group_bounds [of ts] group_length_open [of _ ts 0]
  by (auto simp: group_whole_def first_group_def min_absorb1 take_take neq_Nil_conv)

definition group_closed :: "token list \<Rightarrow> bool" where
  "group_closed g \<longleftrightarrow> (if nesting (hd g) = 1 then depth_after g \<le> 0 else True)"

lemma first_group_closed: "first_group ts < length ts \<Longrightarrow> group_closed (take (first_group ts) ts)"
  using group_length_closed [of ts 0] group_length_bounds [of ts 0]
  by (cases ts) (auto simp: group_closed_def first_group_def hd_take split: if_splits)

text \<open>
  \<open>groupTokens\<close> loses and reorders nothing: the groups' tokens, concatenated, are the token
  stream. No group is empty; a group that opens at depth 0 stays open until its last token and,
  unless the stream ends first, is closed by it; any other group is a single token.
\<close>

theorem groupTokens_partition:
  "concat (map g_tokens (groupTokens ts ls)) = ts
   \<and> list_all (\<lambda>g. group_whole (g_tokens g)) (groupTokens ts ls)
   \<and> list_all (\<lambda>g. group_closed (g_tokens g)) (butlast (groupTokens ts ls))"
proof (induction ts ls rule: groupTokens.induct)
  case (1 ts ls)
  have tok: "g_tokens (make_group ls g) = g" for g by (auto simp: make_group_def Let_def split: option.splits)
  show ?case
  proof (cases "ts = []")
    case False
    let ?rest = "groupTokens (drop (first_group ts) ts) ls"
    have eq: "groupTokens ts ls = make_group ls (take (first_group ts) ts) # ?rest"
      using False by (simp add: groupTokens.simps [of ts])
    have "first_group ts < length ts" if "?rest \<noteq> []"
      using that by (rule contrapos_np) (simp add: groupTokens.simps)
    with 1 False first_group_whole [OF False] first_group_closed [of ts] show ?thesis
      unfolding eq by (simp add: tok)
  qed (simp add: groupTokens.simps)
qed

section \<open>\<open>taskMarkerAt\<close>\<close>

record task_marker =
  tm_from :: nat
  tm_checked :: bool

text \<open>\<open>(?:[-*+]|\d+\.)\<close>: the length of the bullet or number, 0 if there is none.\<close>

definition list_marker :: "js_text \<Rightarrow> nat" where
  "list_marker rest =
     (let digits = length (takeWhile js_digit rest)
      in case rest of
           [] \<Rightarrow> 0
         | c # _ \<Rightarrow> if c \<in> {45, 42, 43} then 1
                    else if digits > 0 \<and> digits < length rest \<and> rest ! digits = 46 then digits + 1
                    else 0)"

text \<open>
  \<open>TASK_LINE\<close>, \<open>/^(\s*(?:[-*+]|\d+\.)\s+)\[([ xX])\]/u\<close>: the length of the first group and the
  unit between the brackets.
\<close>

definition task_line :: "js_text \<Rightarrow> (nat \<times> 16 word) option" where
  "task_line line =
     (let white = lead_white line; rest = drop white line; marker = list_marker rest;
          gap = lead_white (drop marker rest); after = drop (marker + gap) rest
      in if marker > 0 \<and> gap > 0 \<and> length after \<ge> 3 \<and> after ! 0 = 91 \<and> after ! 1 \<in> {32, 120, 88} \<and> after ! 2 = 93
         then Some (white + marker + gap, after ! 1) else None)"

fun task_scan :: "js_text list \<Rightarrow> nat \<Rightarrow> nat \<Rightarrow> nat \<Rightarrow> nat \<Rightarrow> task_marker option" where
  "task_scan [] start ordinal lineOffset seen = None"
| "task_scan (line # ls) start ordinal lineOffset seen =
     (case task_line line of
        Some (m, c) \<Rightarrow>
          if seen = ordinal then Some \<lparr>tm_from = start + lineOffset + m + 1, tm_checked = (c \<noteq> 32)\<rparr>
          else task_scan ls start ordinal (lineOffset + length line + 1) (seen + 1)
      | None \<Rightarrow> task_scan ls start ordinal (lineOffset + length line + 1) seen)"

definition taskMarkerAt :: "js_text \<Rightarrow> int \<Rightarrow> int \<Rightarrow> int \<Rightarrow> task_marker option" where
  "taskMarkerAt source start fin ordinal =
     (if \<not> is_safe_integer start \<or> \<not> is_safe_integer fin \<or> \<not> is_safe_integer ordinal
         \<or> start < 0 \<or> fin < start \<or> fin > int (length source) \<or> ordinal < 0 then None
      else task_scan (js_split js_newline (js_slice (nat start) (nat fin) source)) (nat start) (nat ordinal) 0 0)"

lemma task_line_units:
  assumes "task_line line = Some (m, c)"
  shows "m + 2 < length line \<and> line ! m = 91 \<and> line ! (m + 1) = c \<and> line ! (m + 2) = 93 \<and> c \<in> {32, 120, 88}"
proof -
  define white where "white = lead_white line"
  define marker where "marker = list_marker (drop white line)"
  define gap where "gap = lead_white (drop marker (drop white line))"
  define after where "after = drop (marker + gap) (drop white line)"
  have tl: "task_line line = (if marker > 0 \<and> gap > 0 \<and> length after \<ge> 3 \<and> after ! 0 = 91
      \<and> after ! 1 \<in> {32, 120, 88} \<and> after ! 2 = 93 then Some (white + marker + gap, after ! 1) else None)"
    unfolding task_line_def Let_def white_def marker_def gap_def after_def ..
  have "m = white + marker + gap" "length after \<ge> 3" "after ! 0 = 91" "after ! 1 = c" "c \<in> {32, 120, 88}" "after ! 2 = 93"
    using assms unfolding tl by (auto split: if_splits)
  moreover have "after = drop (white + marker + gap) line" by (simp add: after_def add.commute add.left_commute)
  ultimately show ?thesis by auto
qed

text \<open>The scan: a marker found in one of the lines, at the offset of that line in the joined text.\<close>

lemma task_scan_found:
  assumes "task_scan ls start ordinal off seen = Some mk"
  obtains k m c where "k < length ls" "task_line (ls ! k) = Some (m, c)"
    and "mk = \<lparr>tm_from = start + (off + line_start ls k) + m + 1, tm_checked = (c \<noteq> 32)\<rparr>"
  using assms
proof (induction ls arbitrary: off seen thesis)
  case (Cons l ls)
  show ?case
  proof (cases "task_line l \<noteq> None \<and> seen = ordinal")
    case True
    with Cons.prems(2) obtain m c where "task_line l = Some (m, c)"
      "mk = \<lparr>tm_from = start + off + m + 1, tm_checked = (c \<noteq> 32)\<rparr>" by auto
    then show ?thesis by (intro Cons.prems(1) [of 0]) (auto simp: line_start_def)
  next
    case False
    with Cons.prems(2) obtain seen' where "task_scan ls start ordinal (off + length l + 1) seen' = Some mk"
      by (auto split: option.splits)
    from Cons.IH [OF _ this] obtain k m c where "k < length ls" "task_line (ls ! k) = Some (m, c)"
      "mk = \<lparr>tm_from = start + (off + length l + 1 + line_start ls k) + m + 1, tm_checked = (c \<noteq> 32)\<rparr>" by metis
    then show ?thesis by (intro Cons.prems(1) [of "Suc k"]) (auto simp: line_start_def)
  qed
qed simp

lemma nth_line_unit:
  assumes "k < length ls" "i < length (ls ! k)"
  shows "js_join sep ls ! (line_start ls k + i) = ls ! k ! i" "line_start ls k + i < length (js_join sep ls)"
proof -
  have s: "js_slice (line_start ls k) (line_start ls (Suc k) - 1) (js_join sep ls) = ls ! k"
    using js_slice_lines [of k "Suc k" ls sep] assms(1)
    by (simp add: js_slice_def take_Suc_conv_app_nth hd_drop_conv_nth take_Suc)
  have "ls \<noteq> []" using assms by auto
  from length_js_join [OF this, of sep] line_start_mono [of "Suc k" "length ls" ls] line_start_Suc [OF assms(1)]
  show lt: "line_start ls k + i < length (js_join sep ls)" using assms by simp
  have "js_slice (line_start ls k) (line_start ls (Suc k) - 1) (js_join sep ls) ! i = js_join sep ls ! (line_start ls k + i)"
    using length_js_join [OF \<open>ls \<noteq> []\<close>, of sep] line_start_mono [of "Suc k" "length ls" ls] line_start_Suc [OF assms(1)] assms
    by (intro js_slice_nth) auto
  with s show "js_join sep ls ! (line_start ls k + i) = ls ! k ! i" by simp
qed

text \<open>
  A task marker is always the unit between the brackets of a check box inside the given
  source span, and \<open>checked\<close> says whether that unit is an \<open>x\<close>: replacing the one unit at
  \<open>from\<close> toggles exactly that box.
\<close>

theorem taskMarkerAt_points_at_box:
  assumes "taskMarkerAt source start fin ordinal = Some mk"
  shows "start < int (tm_from mk) \<and> int (tm_from mk) + 1 < fin \<and> fin \<le> int (length source)
    \<and> source ! (tm_from mk - 1) = 91 \<and> source ! (tm_from mk + 1) = 93
    \<and> source ! tm_from mk \<in> {32, 120, 88} \<and> (tm_checked mk \<longleftrightarrow> source ! tm_from mk \<noteq> 32)"
proof -
  let ?span = "js_slice (nat start) (nat fin) source"
  define ls where "ls = js_split js_newline ?span"
  from assms have range: "0 \<le> start" "start \<le> fin" "fin \<le> int (length source)"
    and scan: "task_scan ls (nat start) (nat ordinal) 0 0 = Some mk"
    by (auto simp: taskMarkerAt_def ls_def split: if_splits)
  from task_scan_found [OF scan] obtain k m c where
    k: "k < length ls" "task_line (ls ! k) = Some (m, c)"
      "mk = \<lparr>tm_from = nat start + line_start ls k + m + 1, tm_checked = (c \<noteq> 32)\<rparr>" by (metis add_0)
  note u = task_line_units [OF k(2)]
  have span: "js_join js_newline ls = ?span" "length ?span = nat fin - nat start"
    using range by (simp_all add: ls_def length_js_slice)
  have at: "source ! (nat start + line_start ls k + i) = ls ! k ! i \<and> line_start ls k + i < nat fin - nat start"
    if "i < length (ls ! k)" for i
  proof -
    note n = nth_line_unit [OF k(1) that, of js_newline, unfolded span]
    then have "?span ! (line_start ls k + i) = source ! (nat start + (line_start ls k + i))"
      using range by (intro js_slice_nth) auto
    with n show ?thesis by (simp add: add.assoc)
  qed
  have "m < length (ls ! k)" "m + 1 < length (ls ! k)" "m + 2 < length (ls ! k)" using u by auto
  note a = at [OF this(1)] at [OF this(2)] at [OF this(3)]
  have "tm_from mk - 1 = nat start + line_start ls k + m" "tm_from mk = nat start + line_start ls k + (m + 1)"
      "tm_from mk + 1 = nat start + line_start ls k + (m + 2)" "tm_checked mk = (c \<noteq> 32)"
    by (simp_all add: k(3))
  with a u range show ?thesis by (auto simp: of_nat_less_iff [symmetric] simp del: of_nat_less_iff)
qed

theorem taskMarkerAt_points_at_box_witness:
  "taskMarkerAt (js ''- [x] a'') 0 7 0 = Some \<lparr>tm_from = 3, tm_checked = True\<rparr> \<and> js ''- [x] a'' ! 3 \<noteq> 32"
proof -
  have "taskMarkerAt (js ''- [x] a'') 0 7 0 = Some \<lparr>tm_from = 3, tm_checked = True\<rparr>"
    by (simp add: taskMarkerAt_def is_safe_integer_def js_slice_def u16_def task_line_def list_marker_def lead_white_def
        js_whitespace_def js_digit_def Let_def)
  from taskMarkerAt_points_at_box [OF this] this show ?thesis by simp
qed

end
