(* ===== verification/Preview_Dom.thy ===== *)
theory Preview_Dom
  imports Markdown_Blocks "HOL-Library.AList"
begin

text \<open>
  What a render response does to the page: the block cache of \<open>workers/markdown.worker.ts\<close>
  (\<open>render\<close>, \<open>renderIncremental\<close>) decides which blocks carry HTML, and the keyed reconciliation of
  \<open>markdown/preview.ts\<close> (\<open>patch\<close>, \<open>scheduleRemainder\<close>, \<open>patchRange\<close>) applies them to the DOM.

  The container is the list of its children's keys, the \<open>nodes\<close> map an association list in
  insertion order. markdown-it's parser and renderer and DOMPurify's \<open>sanitize\<close> are arguments.
\<close>

section \<open>The client's DOM\<close>

record block_patch =
  bp_key :: js_text
  bp_line :: nat
  bp_sourceStart :: nat
  bp_sourceEnd :: nat
  bp_exactTextStart :: "nat option"
  bp_html :: "js_text option"

record node =
  nd_html :: js_text
  nd_line :: nat
  nd_sourceStart :: nat
  nd_sourceEnd :: nat
  nd_exactTextStart :: "nat option"

record dom =
  nodes :: "(js_text \<times> node) list"
  children :: "js_text list"
  idle :: "(block_patch list \<times> nat) option"

definition FIRST_PAINT_BLOCKS :: nat where "FIRST_PAINT_BLOCKS = 48"
definition IDLE_PAINT_BLOCKS :: nat where "IDLE_PAINT_BLOCKS = 40"

fun next_sibling :: "'k \<Rightarrow> 'k list \<Rightarrow> 'k option" where
  "next_sibling k (x # y # xs) = (if x = k then Some y else next_sibling k (y # xs))"
| "next_sibling k _ = None"

definition first_child :: "'k list \<Rightarrow> 'k option" where
  "first_child cs = (case cs of [] \<Rightarrow> None | c # _ \<Rightarrow> Some c)"

text \<open>\<open>insertBefore(node, cursor)\<close>: a node that is already a child moves; \<open>null\<close> appends.\<close>

definition insert_before :: "'k \<Rightarrow> 'k option \<Rightarrow> 'k list \<Rightarrow> 'k list" where
  "insert_before k cursor cs =
     (let cs = removeAll k cs
      in case cursor of
           None \<Rightarrow> cs @ [k]
         | Some c \<Rightarrow> takeWhile (\<lambda>x. x \<noteq> c) cs @ k # dropWhile (\<lambda>x. x \<noteq> c) cs)"

text \<open>The element a block ends up with, given the one the \<open>nodes\<close> map holds for its key.\<close>

definition patched_node :: "(js_text \<Rightarrow> js_text) \<Rightarrow> node option \<Rightarrow> block_patch \<Rightarrow> node" where
  "patched_node sanitize old b =
     \<lparr>nd_html = (case old of
          None \<Rightarrow> sanitize (case bp_html b of None \<Rightarrow> [] | Some h \<Rightarrow> h)
        | Some nd \<Rightarrow> (case bp_html b of None \<Rightarrow> nd_html nd | Some h \<Rightarrow> sanitize h)),
      nd_line = bp_line b, nd_sourceStart = bp_sourceStart b, nd_sourceEnd = bp_sourceEnd b,
      nd_exactTextStart = bp_exactTextStart b\<rparr>"

text \<open>
  The loop of \<open>patchRange\<close>. \<open>fresh\<close> says that \<open>next\<close> is a new map, so look-ups go to the old one;
  otherwise \<open>next\<close> is \<open>this.nodes\<close> itself.
\<close>

fun patch_loop :: "(js_text \<Rightarrow> js_text) \<Rightarrow> bool \<Rightarrow> (js_text \<times> node) list \<Rightarrow> block_patch list
    \<Rightarrow> (js_text \<times> node) list \<Rightarrow> js_text list \<Rightarrow> js_text option \<Rightarrow> (js_text \<times> node) list \<times> js_text list" where
  "patch_loop sanitize fresh old [] nxt cs cursor = (nxt, cs)"
| "patch_loop sanitize fresh old (b # bs) nxt cs cursor =
     (let nd = patched_node sanitize (map_of (if fresh then old else nxt) (bp_key b)) b;
          (cs, cursor) = (if cursor = Some (bp_key b) then (cs, next_sibling (bp_key b) cs)
                          else (insert_before (bp_key b) cursor cs, cursor))
      in patch_loop sanitize fresh old bs (AList.update (bp_key b) nd nxt) cs cursor)"

definition retire_stale :: "block_patch list \<Rightarrow> dom \<Rightarrow> dom" where
  "retire_stale blocks d =
     (let keys = set (map bp_key blocks); stale = {k \<in> set (map fst (nodes d)). k \<notin> keys}
      in d\<lparr>nodes := filter (\<lambda>(k, _). k \<in> keys) (nodes d), children := filter (\<lambda>k. k \<notin> stale) (children d)\<rparr>)"

definition start_cursor :: "block_patch list \<Rightarrow> nat \<Rightarrow> dom \<Rightarrow> js_text option" where
  "start_cursor blocks start d =
     (let before = (if start = 0 then first_child (children d)
                    else if start - 1 < length blocks
                            \<and> map_of (nodes d) (bp_key (blocks ! (start - 1))) \<noteq> None
                         then next_sibling (bp_key (blocks ! (start - 1))) (children d) else None)
      in case before of None \<Rightarrow> first_child (children d) | Some c \<Rightarrow> Some c)"

definition patchRange :: "(js_text \<Rightarrow> js_text) \<Rightarrow> block_patch list \<Rightarrow> nat \<Rightarrow> nat \<Rightarrow> bool \<Rightarrow> dom \<Rightarrow> dom" where
  "patchRange sanitize blocks start fin retire d =
     (let d = (if retire then retire_stale blocks d else d);
          (nxt, cs) = patch_loop sanitize (start = 0) (nodes d) (js_slice start fin blocks)
                        (if start = 0 then [] else nodes d) (children d) (start_cursor blocks start d)
      in d\<lparr>nodes := nxt, children := cs\<rparr>)"

definition dom_patch :: "(js_text \<Rightarrow> js_text) \<Rightarrow> block_patch list \<Rightarrow> dom \<Rightarrow> dom" where
  "dom_patch sanitize blocks d =
     (let d = d\<lparr>idle := None\<rparr>
      in if nodes d = [] \<and> length blocks > FIRST_PAINT_BLOCKS
         then (patchRange sanitize blocks 0 FIRST_PAINT_BLOCKS False d)\<lparr>idle := Some (blocks, FIRST_PAINT_BLOCKS)\<rparr>
         else patchRange sanitize blocks 0 (length blocks) True d)"

text \<open>One idle callback of \<open>scheduleRemainder\<close>.\<close>

definition idle_step :: "(js_text \<Rightarrow> js_text) \<Rightarrow> dom \<Rightarrow> dom" where
  "idle_step sanitize d =
     (case idle d of
        None \<Rightarrow> d
      | Some (blocks, offset) \<Rightarrow>
          let fin = min (offset + IDLE_PAINT_BLOCKS) (length blocks);
              d = patchRange sanitize blocks offset fin (fin = length blocks) (d\<lparr>idle := None\<rparr>)
          in if fin < length blocks then d\<lparr>idle := Some (blocks, fin)\<rparr> else d)"

text \<open>\<open>invalidate\<close> empties the page.\<close>

definition dom_empty :: dom where
  "dom_empty = \<lparr>nodes = [], children = [], idle = None\<rparr>"

section \<open>The worker's block cache\<close>

record render_cache =
  cache :: "(js_text \<times> js_text) list"
  present :: "js_text set"
  lastEnvSignature :: js_text
  rc_lastText :: js_text

definition clearRenderCache :: render_cache where
  "clearRenderCache = \<lparr>cache = [], present = {}, lastEnvSignature = [], rc_lastText = []\<rparr>"

text \<open>\<open>/[\\`*_~\[\]<>|!$&]/\<close>\<close>

definition markup_units :: "16 word set" where
  "markup_units = {92, 96, 42, 95, 126, 91, 93, 60, 62, 124, 33, 36, 38}"

text \<open>\<open>exactMappingStart\<close>: plain one-line paragraphs and headings only.\<close>

definition exactMappingStart :: "js_text option \<Rightarrow> nat \<Rightarrow> nat option" where
  "exactMappingStart source start =
     (case source of
        None \<Rightarrow> None
      | Some s \<Rightarrow>
          if js_newline \<in> set s then None
          else let indent = leading (u16 CHR '' '') s; marks = leading 35 (drop indent s);
                   gap = length (takeWhile (\<lambda>c. c = 32 \<or> c = 9) (drop (indent + marks) s));
                   heading = (if indent \<le> 3 \<and> 1 \<le> marks \<and> marks \<le> 6 \<and> 1 \<le> gap then indent + marks + gap else 0);
                   body = drop heading s; rest = drop (lead_white body) body;
                   digits = length (takeWhile js_digit rest);
                   bullet = (case rest of a # b # _ \<Rightarrow> a \<in> {45, 43} \<and> js_whitespace b | _ \<Rightarrow> False);
                   numbered = (case drop digits rest of a # b # _ \<Rightarrow> digits > 0 \<and> a \<in> {46, 41} \<and> js_whitespace b | _ \<Rightarrow> False)
               in if body = [] \<or> (\<exists>c \<in> set body. c \<in> markup_units) \<or> bullet \<or> numbered then None
                  else Some (start + heading))"

text \<open>\<open>md.renderer.render\<close> may throw: the renderer argument returns \<open>None\<close> then.\<close>

definition group_identity :: "token_group \<Rightarrow> js_text" where
  "group_identity g =
     (case g_source g of Some s \<Rightarrow> s | None \<Rightarrow> 64 # js_join 44 (map (js \<circ> tk_type) (g_tokens g)))"

fun render_groups :: "(token list \<Rightarrow> js_text option) \<Rightarrow> render_cache \<Rightarrow> nat list \<Rightarrow> token_group list
    \<Rightarrow> (js_text \<Rightarrow> nat) \<Rightarrow> (js_text \<times> js_text) list \<Rightarrow> ((js_text \<times> js_text) list \<times> block_patch list) option" where
  "render_groups renderer st offsets [] seen nextCache = Some (nextCache, [])"
| "render_groups renderer st offsets (g # gs) seen nextCache =
     (if g_tokens g = [] then render_groups renderer st offsets gs seen nextCache
      else let base = hashString (group_identity g); occurrence = seen base + 1;
               key = block_key base occurrence;
               html = (if map_of (cache st) key = None \<or> g_source g = None then renderer (g_tokens g)
                       else map_of (cache st) key);
               line = nat (max (g_line g) 0);
               start = (if line < length offsets then offsets ! line else 0)
           in case html of
                None \<Rightarrow> None
              | Some h \<Rightarrow>
                  (case render_groups renderer st offsets gs (seen(base := occurrence)) (AList.update key h nextCache) of
                     None \<Rightarrow> None
                   | Some (c, bs) \<Rightarrow>
                       Some (c, \<lparr>bp_key = key, bp_line = line, bp_sourceStart = start,
                                 bp_sourceEnd = (case g_source g of None \<Rightarrow> start | Some s \<Rightarrow> start + length s),
                                 bp_exactTextStart = exactMappingStart (g_source g) start,
                                 bp_html = (if key \<notin> present st \<or> g_source g = None then Some h else None)\<rparr> # bs)))"

text \<open>
  The full pass of \<open>render\<close>: \<open>md.parse\<close> with \<open>envSignature\<close> is the argument \<open>parse\<close>, which may throw.
  \<open>Inl\<close> is a throw, with the state the worker is left in.
\<close>

definition render_full :: "(js_text \<Rightarrow> (token list \<times> js_text) option) \<Rightarrow> (token list \<Rightarrow> js_text option)
    \<Rightarrow> js_text \<Rightarrow> render_cache \<Rightarrow> render_cache + render_cache \<times> block_patch list" where
  "render_full parse renderer doc st =
     (case parse doc of
        None \<Rightarrow> Inl st
      | Some (tokens, signature) \<Rightarrow>
          let st = (if signature \<noteq> lastEnvSignature st
                    then st\<lparr>cache := [], present := {}, lastEnvSignature := signature\<rparr> else st);
              st = st\<lparr>rc_lastText := doc\<rparr>;
              ls = js_split js_newline doc
          in case render_groups renderer st (lineOffsets 0 ls) (groupTokens tokens ls) (\<lambda>_. 0) [] of
               None \<Rightarrow> Inl st
             | Some (nextCache, blocks) \<Rightarrow>
                 Inr (st\<lparr>cache := nextCache, present := set (map bp_key blocks)\<rparr>, blocks))"

text \<open>\<open>renderIncremental\<close>: only dirty or uncached source blocks are parsed and rendered.\<close>

fun render_sources :: "(js_text \<Rightarrow> js_text option) \<Rightarrow> js_text set \<Rightarrow> render_cache \<Rightarrow> source_block list
    \<Rightarrow> (js_text \<times> js_text) list \<Rightarrow> ((js_text \<times> js_text) list \<times> block_patch list) option" where
  "render_sources render_source dirtySet st [] nextCache = Some (nextCache, [])"
| "render_sources render_source dirtySet st (b # bs) nextCache =
     (let cached = (if sb_key b \<in> dirtySet then None else map_of (cache st) (sb_key b))
      in case (case cached of None \<Rightarrow> render_source (sb_source b) | Some h \<Rightarrow> Some h) of
           None \<Rightarrow> None
         | Some h \<Rightarrow>
             (case render_sources render_source dirtySet st bs (AList.update (sb_key b) h nextCache) of
                None \<Rightarrow> None
              | Some (c, ps) \<Rightarrow>
                  Some (c, \<lparr>bp_key = sb_key b, bp_line = sb_start b, bp_sourceStart = sourceStart b,
                            bp_sourceEnd = sourceEnd b,
                            bp_exactTextStart = exactMappingStart (Some (sb_source b)) (sourceStart b),
                            bp_html = (if sb_key b \<notin> present st \<or> sb_key b \<in> dirtySet then Some h else None)\<rparr> # ps)))"

definition renderIncremental :: "(js_text \<Rightarrow> js_text option) \<Rightarrow> js_text \<Rightarrow> js_text set
    \<Rightarrow> render_cache \<Rightarrow> render_cache + render_cache \<times> block_patch list" where
  "renderIncremental render_source doc dirtySet st =
     (case render_sources render_source dirtySet st (splitSourceBlocks doc) [] of
        None \<Rightarrow> Inl st
      | Some (nextCache, blocks) \<Rightarrow>
          Inr (st\<lparr>cache := nextCache, present := set (map bp_key blocks), rc_lastText := doc\<rparr>, blocks))"

definition render_pass :: "(js_text \<Rightarrow> (token list \<times> js_text) option) \<Rightarrow> (token list \<Rightarrow> js_text option)
    \<Rightarrow> (js_text \<Rightarrow> js_text option) \<Rightarrow> js_text \<Rightarrow> render_cache \<Rightarrow> render_cache + render_cache \<times> block_patch list" where
  "render_pass parse renderer render_source doc st =
     (if length (rc_lastText st) > 0 \<and> snd (incrementalParseSafe (rc_lastText st) doc)
      then renderIncremental render_source doc (set (map sb_key (fst (incrementalParseSafe (rc_lastText st) doc)))) st
      else render_full parse renderer doc st)"

text \<open>
  The answer to a \<open>render\<close> message, or to a \<open>patch\<close> once its text is accepted. A throw is answered
  with a single error block; only \<open>lastText\<close> is brought up to date.
\<close>

definition error_block :: "nat \<Rightarrow> js_text \<Rightarrow> block_patch" where
  "error_block n doc =
     \<lparr>bp_key = js ''error-'' @ to_radix 10 n, bp_line = 0, bp_sourceStart = 0, bp_sourceEnd = length doc,
      bp_exactTextStart = None,
      bp_html = Some (js ''<div class=\"marks-callout marks-callout-danger\"><p>Preview failed to render.</p></div>'')\<rparr>"

definition render_answer :: "(js_text \<Rightarrow> (token list \<times> js_text) option) \<Rightarrow> (token list \<Rightarrow> js_text option)
    \<Rightarrow> (js_text \<Rightarrow> js_text option) \<Rightarrow> nat \<Rightarrow> js_text \<Rightarrow> render_cache \<Rightarrow> render_cache \<times> block_patch list" where
  "render_answer parse renderer render_source n doc st =
     (case render_pass parse renderer render_source doc st of
        Inr answer \<Rightarrow> answer
      | Inl st \<Rightarrow> (st\<lparr>rc_lastText := doc\<rparr>, [error_block n doc]))"

section \<open>Reconciliation\<close>

lemma next_sibling_split: "distinct (as @ k # bs) \<Longrightarrow> next_sibling k (as @ k # bs) = first_child bs"
proof (induction as)
  case Nil
  then show ?case by (cases bs) (auto simp: first_child_def)
next
  case (Cons a as)
  then show ?case by (cases as) (auto simp: first_child_def)
qed

lemma removeAll_split: "distinct (as @ k # bs) \<Longrightarrow> removeAll k (as @ k # bs) = as @ bs"
  by (auto simp: removeAll_id)

lemma insert_before_rest:
  assumes "distinct (pre @ rest)" "k \<notin> set pre" "first_child rest \<noteq> Some k"
  shows "insert_before k (first_child rest) (pre @ rest) = pre @ k # removeAll k rest"
proof (cases rest)
  case Nil
  with assms show ?thesis by (simp add: insert_before_def first_child_def)
next
  case (Cons c cs)
  with assms have c: "c \<noteq> k" "c \<notin> set pre" by (auto simp: first_child_def)
  have "removeAll k pre = pre" using assms(2) by simp
  moreover have "takeWhile (\<lambda>x. x \<noteq> c) (pre @ c # ys) = pre" "dropWhile (\<lambda>x. x \<noteq> c) (pre @ c # ys) = c # ys" for ys
    using c(2) by (induction pre) auto
  ultimately show ?thesis using Cons c by (simp add: insert_before_def first_child_def Let_def)
qed

lemma patch_loop_children:
  assumes "distinct (pre @ rest)" "distinct (map bp_key bs)" "set pre \<inter> set (map bp_key bs) = {}"
    and "set rest \<subseteq> set (map bp_key bs)"
  shows "snd (patch_loop sanitize fresh old bs nxt (pre @ rest) (first_child rest)) = pre @ map bp_key bs"
  using assms
proof (induction bs arbitrary: pre rest nxt)
  case (Cons b bs)
  let ?k = "bp_key b"
  show ?case
  proof (cases "first_child rest = Some ?k")
    case True
    then obtain rest' where r: "rest = ?k # rest'" by (cases rest) (auto simp: first_child_def)
    have "next_sibling ?k (pre @ ?k # rest') = first_child rest'"
      using Cons.prems(1) r by (intro next_sibling_split) simp
    moreover have "snd (patch_loop sanitize fresh old bs nxt' ((pre @ [?k]) @ rest') (first_child rest'))
        = (pre @ [?k]) @ map bp_key bs" for nxt'
      using Cons.prems r by (intro Cons.IH) auto
    ultimately show ?thesis using r True by (simp add: Let_def)
  next
    case False
    have ib: "insert_before ?k (first_child rest) (pre @ rest) = (pre @ [?k]) @ removeAll ?k rest"
      using insert_before_rest [OF Cons.prems(1) _ False] Cons.prems(3) by simp
    have fc: "first_child rest = first_child (removeAll ?k rest)"
      using False by (cases rest) (auto simp: first_child_def)
    have "snd (patch_loop sanitize fresh old bs nxt' ((pre @ [?k]) @ removeAll ?k rest) (first_child (removeAll ?k rest)))
        = (pre @ [?k]) @ map bp_key bs" for nxt'
      using Cons.prems by (intro Cons.IH) (auto simp: distinct_removeAll)
    with ib fc False show ?thesis by (simp add: Let_def)
  qed
qed simp

lemma patch_loop_nodes:
  assumes "distinct (map bp_key bs)" "fresh \<or> (\<forall>b \<in> set bs. map_of nxt (bp_key b) = map_of old (bp_key b))"
  shows "map_of (fst (patch_loop sanitize fresh old bs nxt cs cursor)) k =
     (case List.find (\<lambda>b. bp_key b = k) bs of
        Some b \<Rightarrow> Some (patched_node sanitize (map_of old k) b) | None \<Rightarrow> map_of nxt k)"
  using assms
proof (induction bs arbitrary: nxt cs cursor)
  case (Cons b bs)
  let ?nd = "patched_node sanitize (map_of (if fresh then old else nxt) (bp_key b)) b"
  have nd: "?nd = patched_node sanitize (map_of old (bp_key b)) b" using Cons.prems(2) by auto
  have notin: "List.find (\<lambda>b. bp_key b = k) bs = None" if "bp_key b = k"
    using Cons.prems(1) that by (auto simp: find_None_iff image_iff)
  have "map_of (fst (patch_loop sanitize fresh old bs (AList.update (bp_key b) ?nd nxt) cs' cursor')) k =
      (case List.find (\<lambda>b. bp_key b = k) bs of
        Some b \<Rightarrow> Some (patched_node sanitize (map_of old k) b)
      | None \<Rightarrow> map_of (AList.update (bp_key b) ?nd nxt) k)" for cs' cursor'
    using Cons.prems by (intro Cons.IH) (auto simp: update_conv' image_iff)
  then show ?case using notin nd by (auto simp: Let_def update_conv' split: prod.splits option.splits)
qed simp

text \<open>A page between passes: the map and the container name the same elements, each once.\<close>

definition dom_ok :: "dom \<Rightarrow> bool" where
  "dom_ok d \<longleftrightarrow> distinct (children d) \<and> set (children d) = fst ` set (nodes d)"

lemma patchRange_all:
  assumes "dom_ok d" "distinct (map bp_key blocks)"
  shows "children (patchRange sanitize blocks 0 (length blocks) True d) = map bp_key blocks"
    and "map_of (nodes (patchRange sanitize blocks 0 (length blocks) True d)) k =
      (case List.find (\<lambda>b. bp_key b = k) blocks of
         Some b \<Rightarrow> Some (patched_node sanitize (map_of (nodes d) k) b) | None \<Rightarrow> None)"
proof -
  let ?d = "retire_stale blocks d"
  have kept: "set (children ?d) \<subseteq> set (map bp_key blocks)" "distinct (children ?d)"
    using assms(1) by (auto simp: retire_stale_def dom_ok_def Let_def)
  have old: "map_of (nodes ?d) k = map_of (nodes d) k" if "k \<in> set (map bp_key blocks)" for k
  proof -
    have "map_of (filter (\<lambda>(k, _). k \<in> S) ns) k = (if k \<in> S then map_of ns k else None)" for S and ns :: "(js_text \<times> node) list"
      by (induction ns) auto
    with that show ?thesis by (simp add: retire_stale_def Let_def)
  qed
  have eq: "patchRange sanitize blocks 0 (length blocks) True d =
      (let r = patch_loop sanitize True (nodes ?d) blocks [] ([] @ children ?d) (first_child (children ?d))
       in ?d\<lparr>nodes := fst r, children := snd r\<rparr>)"
    by (simp add: patchRange_def start_cursor_def Let_def split_def split: option.split)
  show "children (patchRange sanitize blocks 0 (length blocks) True d) = map bp_key blocks"
    using patch_loop_children [of "[]" "children ?d" blocks] kept assms(2) by (simp add: eq Let_def)
  show "map_of (nodes (patchRange sanitize blocks 0 (length blocks) True d)) k =
      (case List.find (\<lambda>b. bp_key b = k) blocks of
         Some b \<Rightarrow> Some (patched_node sanitize (map_of (nodes d) k) b) | None \<Rightarrow> None)"
  proof (cases "List.find (\<lambda>b. bp_key b = k) blocks")
    case None
    then show ?thesis using patch_loop_nodes [OF assms(2), of True "[]" "nodes ?d"] by (simp add: eq Let_def)
  next
    case (Some b)
    then have "k \<in> set (map bp_key blocks)" by (auto simp: find_Some_iff)
    with Some show ?thesis
      using patch_loop_nodes [OF assms(2), of True "[]" "nodes ?d"] old [of k] by (simp add: eq Let_def)
  qed
qed

lemma find_key:
  "distinct (map bp_key bs) \<Longrightarrow> b \<in> set bs \<Longrightarrow> List.find (\<lambda>c. bp_key c = bp_key b) bs = Some b"
  by (induction bs) (auto simp: image_iff)

section \<open>Keys of a full pass\<close>

lemma render_groups_keys:
  assumes "render_groups renderer st offsets gs seen c = Some (c', bs)"
  shows "distinct (map bp_key bs)
    \<and> (\<forall>b \<in> set bs. \<exists>a i. bp_key b = block_key a i \<and> u16 (CHR ''~'') \<notin> set a \<and> seen a < i)"
  using assms
proof (induction gs arbitrary: seen c c' bs)
  case (Cons g gs)
  show ?case
  proof (cases "g_tokens g = []")
    case True
    with Cons show ?thesis by simp
  next
    case False
    define base where "base = hashString (group_identity g)"
    let ?key = "block_key base (seen base + 1)"
    from Cons.prems False obtain h c'' b bs' where
      rec: "render_groups renderer st offsets gs (seen(base := seen base + 1)) c'' = Some (c', bs')"
      and bs: "bs = b # bs'" "bp_key b = ?key"
      by (auto simp: base_def [symmetric] Let_def split: option.splits)
    note IH = Cons.IH [OF rec]
    have no: "u16 (CHR ''~'') \<notin> set base" by (simp add: base_def)
    have new: "?key \<noteq> bp_key b'" if "b' \<in> set bs'" for b'
    proof
      assume "?key = bp_key b'"
      moreover from IH that obtain a i where "bp_key b' = block_key a i" "u16 (CHR ''~'') \<notin> set a"
          "(seen(base := seen base + 1)) a < i" by blast
      ultimately show False using block_key_inject [of base "seen base + 1" a i] no by auto
    qed
    have "\<exists>a i. bp_key b' = block_key a i \<and> u16 (CHR ''~'') \<notin> set a \<and> seen a < i" if "b' \<in> set bs" for b'
    proof (cases "b' = b")
      case True
      with bs no show ?thesis by (intro exI [of _ base] exI [of _ "seen base + 1"]) simp
    next
      case False
      with that bs IH obtain a i where "bp_key b' = block_key a i" "u16 (CHR ''~'') \<notin> set a"
          "(seen(base := seen base + 1)) a < i" by auto
      then show ?thesis by (intro exI [of _ a] exI [of _ i]) (auto split: if_splits)
    qed
    with IH new bs show ?thesis by auto
  qed
qed simp

text \<open>
  What a pass hands out: the new cache has the HTML of every block; a block without HTML was in
  \<open>present\<close>, and its HTML is the one cached under its key.
\<close>

definition pass_ok :: "render_cache \<Rightarrow> (js_text \<times> js_text) list \<Rightarrow> block_patch list \<Rightarrow> bool" where
  "pass_ok st c bs \<longleftrightarrow> distinct (map bp_key bs)
     \<and> (\<forall>b \<in> set bs. \<exists>h. map_of c (bp_key b) = Some h
          \<and> (bp_html b = Some h \<or> bp_html b = None \<and> bp_key b \<in> present st
               \<and> (map_of (cache st) (bp_key b) \<noteq> None \<longrightarrow> map_of (cache st) (bp_key b) = Some h)))"

lemma render_groups_keeps:
  assumes "render_groups renderer st offsets gs seen c = Some (c', bs)" "k \<notin> set (map bp_key bs)"
  shows "map_of c' k = map_of c k"
  using assms
proof (induction gs arbitrary: seen c bs)
  case (Cons g gs)
  show ?case
  proof (cases "g_tokens g = []")
    case False
    with Cons.prems show ?thesis
      by (auto simp: Let_def update_conv' dest: Cons.IH split: option.splits if_splits)
  qed (use Cons in simp)
qed simp

lemma render_groups_pass:
  "render_groups renderer st offsets gs seen c = Some (c', bs) \<Longrightarrow> pass_ok st c' bs"
proof (induction gs arbitrary: seen c c' bs)
  case (Cons g gs)
  note keys = render_groups_keys [OF Cons.prems]
  show ?case
  proof (cases "g_tokens g = []")
    case True
    with Cons show ?thesis by simp
  next
    case False
    define key where "key = block_key (hashString (group_identity g)) (Suc (seen (hashString (group_identity g))))"
    from Cons.prems False obtain h b bs' seen' where
      rec: "render_groups renderer st offsets gs seen' (AList.update key h c) = Some (c', bs')"
      and bs: "bs = b # bs'" "bp_key b = key"
      and html: "bp_html b = Some h \<or> bp_html b = None \<and> key \<in> present st
         \<and> (map_of (cache st) key \<noteq> None \<longrightarrow> map_of (cache st) key = Some h)"
      by (auto simp: key_def [symmetric] Let_def split: option.splits if_splits)
    have "map_of c' key = Some h"
      using render_groups_keeps [OF rec, of key] keys bs by (auto simp: update_conv')
    with html Cons.IH [OF rec] bs keys show ?thesis by (auto simp: pass_ok_def)
  qed
qed (simp add: pass_ok_def)

lemma splitSourceBlocks_keys: "distinct (map sb_key (splitSourceBlocks doc))"
  using splitSourceBlocks_ranges [OF refl, of doc] by blast

lemma render_sources_keys:
  "render_sources rs dirty st sbs c = Some (c', bs) \<Longrightarrow> map bp_key bs = map sb_key sbs"
  by (induction sbs arbitrary: c bs) (auto simp: Let_def split: option.splits)

lemma render_sources_keeps:
  "render_sources rs dirty st sbs c = Some (c', bs) \<Longrightarrow> k \<notin> set (map sb_key sbs) \<Longrightarrow> map_of c' k = map_of c k"
  by (induction sbs arbitrary: c bs) (auto simp: Let_def update_conv' split: option.splits)

lemma render_sources_pass:
  "render_sources rs dirty st sbs c = Some (c', bs) \<Longrightarrow> distinct (map sb_key sbs) \<Longrightarrow> pass_ok st c' bs"
proof (induction sbs arbitrary: c c' bs)
  case (Cons s sbs)
  note keys = render_sources_keys [OF Cons.prems(1)]
  from Cons.prems(1) obtain h b bs' where
    rec: "render_sources rs dirty st sbs (AList.update (sb_key s) h c) = Some (c', bs')"
    and bs: "bs = b # bs'" "bp_key b = sb_key s"
    and html: "bp_html b = Some h \<or> bp_html b = None \<and> sb_key s \<in> present st
       \<and> (map_of (cache st) (sb_key s) \<noteq> None \<longrightarrow> map_of (cache st) (sb_key s) = Some h)"
    by (auto simp: Let_def split: option.splits if_splits)
  have "map_of c' (sb_key s) = Some h"
    using render_sources_keeps [OF rec, of "sb_key s"] Cons.prems(2) by (simp add: update_conv')
  moreover have "distinct (map bp_key bs)" using keys Cons.prems(2) by simp
  ultimately show ?case using html Cons.IH [OF rec] Cons.prems(2) bs by (auto simp: pass_ok_def)
qed (simp add: pass_ok_def)

text \<open>
  A successful pass leaves the cache and \<open>present\<close> of \<open>pass_ok\<close>; relative to the old state, or to one
  whose cache was emptied because the document-wide signature changed.
\<close>

lemma render_pass_ok:
  assumes "render_pass parse renderer rs doc st = Inr (st', bs)"
  shows "present st' = set (map bp_key bs)
    \<and> (pass_ok st (cache st') bs \<or> pass_ok (st\<lparr>cache := [], present := {}\<rparr>) (cache st') bs)"
proof (cases "length (rc_lastText st) > 0 \<and> snd (incrementalParseSafe (rc_lastText st) doc)")
  case True
  with assms show ?thesis
    by (auto simp: render_pass_def renderIncremental_def split: option.splits
        dest!: render_sources_pass [OF _ splitSourceBlocks_keys])
next
  case False
  with assms obtain tokens signature where p: "parse doc = Some (tokens, signature)"
    by (auto simp: render_pass_def render_full_def split: option.splits)
  define st1 where "st1 = (if signature \<noteq> lastEnvSignature st
      then st\<lparr>cache := [], present := {}, lastEnvSignature := signature\<rparr> else st)\<lparr>rc_lastText := doc\<rparr>"
  let ?ls = "js_split js_newline doc"
  have full: "render_full parse renderer doc st = Inr (st', bs)"
    using False assms by (simp add: render_pass_def split: if_splits)
  then obtain c where
    c: "render_groups renderer st1 (lineOffsets 0 ?ls) (groupTokens tokens ?ls) (\<lambda>_. 0) [] = Some (c, bs)"
    and st': "st' = st1\<lparr>cache := c, present := set (map bp_key bs)\<rparr>"
    by (auto simp: render_full_def p st1_def [symmetric] Let_def split: option.splits)
  note pass = render_groups_pass [OF c]
  show ?thesis
  proof (cases "signature = lastEnvSignature st")
    case True
    with pass st' show ?thesis by (simp add: st1_def pass_ok_def)
  next
    case False
    with pass st' show ?thesis by (simp add: st1_def pass_ok_def)
  qed
qed

section \<open>Worker and page together\<close>

text \<open>What the worker assumes when it leaves HTML out: the page has it.\<close>

definition in_sync :: "(js_text \<Rightarrow> js_text) \<Rightarrow> render_cache \<Rightarrow> dom \<Rightarrow> bool" where
  "in_sync sanitize st d \<longleftrightarrow> dom_ok d \<and> (\<forall>k \<in> present st. \<exists>h nd. map_of (cache st) k = Some h
     \<and> map_of (nodes d) k = Some nd \<and> nd_html nd = sanitize h)"

definition page_shows :: "(js_text \<Rightarrow> js_text) \<Rightarrow> (js_text \<times> js_text) list \<Rightarrow> block_patch list \<Rightarrow> dom \<Rightarrow> bool" where
  "page_shows sanitize c bs d \<longleftrightarrow> children d = map bp_key bs
     \<and> (\<forall>b \<in> set bs. \<exists>h nd. map_of c (bp_key b) = Some h \<and> map_of (nodes d) (bp_key b) = Some nd
          \<and> nd_html nd = sanitize h \<and> nd_line nd = bp_line b
          \<and> nd_sourceStart nd = bp_sourceStart b \<and> nd_sourceEnd nd = bp_sourceEnd b
          \<and> nd_exactTextStart nd = bp_exactTextStart b)"

lemma patchRange_dom_ok:
  assumes "dom_ok d" "distinct (map bp_key bs)"
  shows "dom_ok (patchRange sanitize bs 0 (length bs) True d)"
proof -
  let ?d = "patchRange sanitize bs 0 (length bs) True d"
  note all = patchRange_all [OF assms, of sanitize]
  have "k \<in> fst ` set (nodes ?d) \<longleftrightarrow> map_of (nodes ?d) k \<noteq> None" for k by (simp add: map_of_eq_None_iff)
  also have "map_of (nodes ?d) k \<noteq> None \<longleftrightarrow> List.find (\<lambda>b. bp_key b = k) bs \<noteq> None" for k
    by (simp add: all(2) split: option.splits)
  also have "List.find (\<lambda>b. bp_key b = k) bs \<noteq> None \<longleftrightarrow> k \<in> set (map bp_key bs)" for k
    by (auto simp: find_None_iff)
  finally have "fst ` set (nodes ?d) = set (map bp_key bs)" by blast
  with all(1) assms(2) show ?thesis by (simp add: dom_ok_def)
qed

lemma patched_page:
  assumes "in_sync sanitize st d" "pass_ok st c bs"
  shows "page_shows sanitize c bs (patchRange sanitize bs 0 (length bs) True d)
    \<and> dom_ok (patchRange sanitize bs 0 (length bs) True d)"
proof -
  let ?d = "patchRange sanitize bs 0 (length bs) True d"
  have dk: "distinct (map bp_key bs)" using assms(2) by (simp add: pass_ok_def)
  have "dom_ok d" using assms(1) by (simp add: in_sync_def)
  note all = patchRange_all [OF this dk, of sanitize]
  have "dom_ok ?d" by (rule patchRange_dom_ok [OF \<open>dom_ok d\<close> dk])
  moreover have "\<exists>h nd. map_of c (bp_key b) = Some h \<and> map_of (nodes ?d) (bp_key b) = Some nd
          \<and> nd_html nd = sanitize h \<and> nd_line nd = bp_line b
          \<and> nd_sourceStart nd = bp_sourceStart b \<and> nd_sourceEnd nd = bp_sourceEnd b
          \<and> nd_exactTextStart nd = bp_exactTextStart b" if "b \<in> set bs" for b
  proof -
    let ?old = "map_of (nodes d) (bp_key b)"
    have nd: "map_of (nodes ?d) (bp_key b) = Some (patched_node sanitize ?old b)"
      using all(2) [of "bp_key b"] find_key [OF dk that] by simp
    from assms(2) that obtain h where h: "map_of c (bp_key b) = Some h"
        "bp_html b = Some h \<or> bp_html b = None \<and> bp_key b \<in> present st
           \<and> (map_of (cache st) (bp_key b) \<noteq> None \<longrightarrow> map_of (cache st) (bp_key b) = Some h)"
      by (auto simp: pass_ok_def)
    have "nd_html (patched_node sanitize ?old b) = sanitize h"
    proof (cases "bp_html b")
      case None
      with h(2) have "bp_key b \<in> present st" "map_of (cache st) (bp_key b) \<noteq> None \<longrightarrow> map_of (cache st) (bp_key b) = Some h"
        by auto
      with assms(1) None show ?thesis by (auto simp: in_sync_def patched_node_def)
    next
      case (Some h')
      with h(2) show ?thesis by (cases ?old) (auto simp: patched_node_def)
    qed
    with h(1) nd show ?thesis by (auto simp: patched_node_def)
  qed
  ultimately show ?thesis using all(1) by (simp add: page_shows_def)
qed

text \<open>
  A pass that reaches the page in one go is right, and stays right: if the page holds every
  block the worker thinks it holds, then after a successful pass, full or incremental, the
  container lists exactly the response's blocks in order, each showing the worker's HTML for it
  and carrying its source offsets, and the page again holds every block the worker thinks it
  holds.
\<close>

definition full_patch :: "(js_text \<Rightarrow> js_text) \<Rightarrow> block_patch list \<Rightarrow> dom \<Rightarrow> dom" where
  "full_patch sanitize bs d = patchRange sanitize bs 0 (length bs) True (d\<lparr>idle := None\<rparr>)"

lemma dom_patch_full:
  "nodes d \<noteq> [] \<or> length bs \<le> FIRST_PAINT_BLOCKS \<Longrightarrow> dom_patch sanitize bs d = full_patch sanitize bs d"
  by (auto simp: dom_patch_def full_patch_def Let_def)

lemma full_patch_idle [simp]: "idle (full_patch sanitize bs d) = None"
  by (simp add: full_patch_def patchRange_def retire_stale_def Let_def split_def)

lemma full_patch_dom_ok: "dom_ok d \<Longrightarrow> distinct (map bp_key bs) \<Longrightarrow> dom_ok (full_patch sanitize bs d)"
  unfolding full_patch_def by (rule patchRange_dom_ok) (simp_all add: dom_ok_def)

lemma full_patch_in_sync:
  assumes "in_sync sanitize st d"
    and "render_pass parse renderer render_source doc st = Inr (st', bs)"
  shows "page_shows sanitize (cache st') bs (full_patch sanitize bs d)" "in_sync sanitize st' (full_patch sanitize bs d)"
proof -
  let ?d = "d\<lparr>idle := None\<rparr>"
  have "in_sync sanitize st ?d" "in_sync sanitize (st\<lparr>cache := [], present := {}\<rparr>) ?d"
    using assms(1) by (auto simp: in_sync_def dom_ok_def)
  with render_pass_ok [OF assms(2)] patched_page have
    "page_shows sanitize (cache st') bs (full_patch sanitize bs d) \<and> dom_ok (full_patch sanitize bs d)"
    "present st' = set (map bp_key bs)"
    unfolding full_patch_def by blast+
  then show "page_shows sanitize (cache st') bs (full_patch sanitize bs d)" "in_sync sanitize st' (full_patch sanitize bs d)"
    by (fastforce simp: in_sync_def page_shows_def)+
qed

lemma render_then_patch_in_sync:
  assumes "in_sync sanitize st d"
    and "render_pass parse renderer render_source doc st = Inr (st', bs)"
    and "nodes d \<noteq> [] \<or> length bs \<le> FIRST_PAINT_BLOCKS"
  shows "page_shows sanitize (cache st') bs (dom_patch sanitize bs d) \<and> in_sync sanitize st' (dom_patch sanitize bs d)"
  using full_patch_in_sync [OF assms(1,2)] by (simp add: dom_patch_full [OF assms(3)])

lemma render_pass_distinct:
  "render_pass parse renderer render_source doc st = Inr (st', bs) \<Longrightarrow> distinct (map bp_key bs)"
  using render_pass_ok [of parse renderer render_source doc st st' bs] by (auto simp: pass_ok_def)

subsection \<open>What the cached HTML was made from\<close>

text \<open>
  An entry of the block cache is HTML the renderer made, of a token group or of a block's source
  whose hash begins the entry's key.
\<close>

definition made_for :: "(token list \<Rightarrow> js_text option) \<Rightarrow> (js_text \<Rightarrow> js_text option) \<Rightarrow> js_text \<Rightarrow> js_text \<Rightarrow> bool" where
  "made_for renderer render_source key html \<longleftrightarrow>
     (\<exists>g i. key = block_key (hashString (group_identity g)) i \<and> renderer (g_tokens g) = Some html)
     \<or> (\<exists>src i. key = block_key (hashString src) i \<and> render_source src = Some html)"

definition cache_made :: "(token list \<Rightarrow> js_text option) \<Rightarrow> (js_text \<Rightarrow> js_text option) \<Rightarrow> (js_text \<times> js_text) list \<Rightarrow> bool" where
  "cache_made renderer render_source c \<longleftrightarrow> (\<forall>k h. map_of c k = Some h \<longrightarrow> made_for renderer render_source k h)"

lemma cache_made_update:
  "cache_made renderer rs c \<Longrightarrow> made_for renderer rs k h \<Longrightarrow> cache_made renderer rs (AList.update k h c)"
  by (simp add: cache_made_def update_conv')

lemma cache_made_Nil [simp]: "cache_made renderer rs []"
  by (simp add: cache_made_def)

lemma render_groups_made:
  assumes "cache_made renderer rs (cache st)" "cache_made renderer rs c"
    and "render_groups renderer st offsets gs seen c = Some (c', bs)"
  shows "cache_made renderer rs c'"
  using assms(2,3)
proof (induction gs arbitrary: seen c bs)
  case (Cons g gs)
  show ?case
  proof (cases "g_tokens g = []")
    case True
    with Cons show ?thesis by simp
  next
    case False
    define key where "key = block_key (hashString (group_identity g)) (Suc (seen (hashString (group_identity g))))"
    from Cons.prems(2) False obtain h seen' bs' where
      rec: "render_groups renderer st offsets gs seen' (AList.update key h c) = Some (c', bs')"
      and h: "renderer (g_tokens g) = Some h \<or> map_of (cache st) key = Some h"
      by (auto simp: key_def [symmetric] Let_def split: option.splits if_splits)
    from h have "made_for renderer rs key h"
      using assms(1) by (auto simp: made_for_def key_def cache_made_def)
    with Cons.IH [OF _ rec] Cons.prems(1) show ?thesis by (simp add: cache_made_update)
  qed
qed simp

definition keyed :: "source_block \<Rightarrow> bool" where
  "keyed b \<longleftrightarrow> (\<exists>i. sb_key b = block_key (hashString (sb_source b)) i)"

lemma push_block_keyed: "\<forall>b \<in> set (fst st). keyed b \<Longrightarrow> \<forall>b \<in> set (fst (push_block doc ls offsets st r)). keyed b"
proof -
  obtain start fin where r: "r = (start, fin)" by (cases r)
  define source where "source = js_join js_newline (js_slice start fin ls)"
  have new: "keyed \<lparr>sourceStart = p, sourceEnd = q, sb_start = start, sb_end = fin, sb_source = source,
      sb_key = block_key (hashString source) i\<rparr>" for p q i
    unfolding keyed_def by (rule exI [of _ i]) simp
  assume "\<forall>b \<in> set (fst st). keyed b"
  moreover obtain blocks seen where st: "st = (blocks, seen)" by (cases st)
  ultimately have "\<forall>b \<in> set blocks. keyed b" by (simp only: fst_conv)
  then show ?thesis
    unfolding st r push_block_def Let_def prod.case source_def [symmetric]
    by (simp only: if_distrib [of fst] fst_conv set_append list.set Un_iff insert_iff ball_Un ball_simps new simp_thms split: if_split) blast
qed

lemma splitSourceBlocks_keyed: "\<forall>b \<in> set (splitSourceBlocks doc). keyed b"
proof -
  have all: "\<forall>b \<in> set (fst (foldl (push_block doc ls offsets) st rs)). keyed b"
    if "\<forall>b \<in> set (fst st). keyed b" for st ls offsets rs
    using that
  proof (induction rs arbitrary: st)
    case (Cons r rs)
    show ?case unfolding foldl_Cons by (rule Cons.IH, rule push_block_keyed, rule Cons.prems)
  qed simp
  have start: "\<forall>b \<in> set (fst ([], \<lambda>_. 0)). keyed b" by simp
  let ?ls = "js_split js_newline doc"
  define st where "st = split_loop doc ?ls (lineOffsets 0 ?ls) 0 ([], \<lambda>_. 0)"
  have "splitSourceBlocks doc = (if fst st = [] \<and> length doc > 0
      then fst (push_block doc ?ls (lineOffsets 0 ?ls) st (0, length ?ls)) else fst st)"
    unfolding splitSourceBlocks_def st_def [symmetric] Let_def by (cases st) simp
  moreover have "\<forall>b \<in> set (fst st). keyed b" unfolding st_def split_loop_ranges by (rule all [OF start])
  moreover note push_block_keyed [OF this]
  ultimately show ?thesis by (metis (full_types))
qed

lemma render_sources_made:
  assumes "cache_made renderer rs (cache st)" "cache_made renderer rs c" "\<forall>b \<in> set sbs. keyed b"
    and "render_sources rs dirty st sbs c = Some (c', bs)"
  shows "cache_made renderer rs c'"
  using assms(2,3,4)
proof (induction sbs arbitrary: c bs)
  case (Cons b sbs)
  then obtain h bs' where
    rec: "render_sources rs dirty st sbs (AList.update (sb_key b) h c) = Some (c', bs')"
    and h: "rs (sb_source b) = Some h \<or> map_of (cache st) (sb_key b) = Some h"
    by (auto simp: Let_def split: option.splits if_splits)
  from h have "made_for renderer rs (sb_key b) h"
    using assms(1) Cons.prems(2) by (auto simp: made_for_def keyed_def cache_made_def)
  with Cons.IH [OF _ _ rec] Cons.prems(1,2) show ?case by (simp add: cache_made_update)
qed simp

lemma render_pass_made:
  assumes "cache_made renderer rs (cache st)" "render_pass parse renderer rs doc st = Inr (st', bs)"
  shows "cache_made renderer rs (cache st')"
proof (cases "length (rc_lastText st) > 0 \<and> snd (incrementalParseSafe (rc_lastText st) doc)")
  case True
  with assms(2) show ?thesis
    by (auto simp: render_pass_def renderIncremental_def split: option.splits
        dest!: render_sources_made [OF assms(1) cache_made_Nil splitSourceBlocks_keyed])
next
  case False
  with assms(2) obtain tokens signature where p: "parse doc = Some (tokens, signature)"
    by (auto simp: render_pass_def render_full_def split: option.splits)
  define st1 where "st1 = (if signature \<noteq> lastEnvSignature st
      then st\<lparr>cache := [], present := {}, lastEnvSignature := signature\<rparr> else st)\<lparr>rc_lastText := doc\<rparr>"
  have "cache_made renderer rs (cache st1)" using assms(1) by (simp add: st1_def)
  note made = render_groups_made [OF this cache_made_Nil]
  have "render_full parse renderer doc st = Inr (st', bs)"
    using False assms(2) by (simp add: render_pass_def split: if_splits)
  then show ?thesis
    by (auto simp: render_full_def p st1_def [symmetric] Let_def split: option.splits dest: made)
qed

lemma render_pass_throws_cache:
  "render_pass parse renderer rs doc st = Inl st' \<Longrightarrow> cache st' = cache st \<or> cache st' = []"
  by (auto simp: render_pass_def renderIncremental_def render_full_def Let_def split: if_splits option.splits)

text \<open>A renderer that fails on exactly one text, for concrete runs.\<close>

definition demo_parse :: "js_text \<Rightarrow> (token list \<times> js_text) option" where
  "demo_parse doc = (if doc = js ''bad'' then None
     else Some ([\<lparr>tk_type = ''paragraph'', nesting = 0, tk_map = Some (0, 1)\<rparr>], []))"

definition demo_renderer :: "token list \<Rightarrow> js_text option" where
  "demo_renderer ts = Some (js ''<p></p>'')"

definition demo_pass :: "js_text \<Rightarrow> render_cache \<Rightarrow> render_cache + render_cache \<times> block_patch list" where
  "demo_pass doc st = render_full demo_parse demo_renderer doc st"

definition demo_key :: js_text where
  "demo_key = hashString (js ''a'')"

definition demo_block :: "js_text option \<Rightarrow> block_patch" where
  "demo_block h = \<lparr>bp_key = demo_key, bp_line = 0, bp_sourceStart = 0, bp_sourceEnd = 1,
     bp_exactTextStart = exactMappingStart (Some (js ''a'')) 0, bp_html = h\<rparr>"

definition demo_cache :: render_cache where
  "demo_cache = \<lparr>cache = [(demo_key, js ''<p></p>'')], present = {demo_key}, lastEnvSignature = [], rc_lastText = js ''a''\<rparr>"

lemma demo_first_pass:
  "demo_pass (js ''a'') clearRenderCache = Inr (demo_cache, [demo_block (Some (js ''<p></p>''))])"
  by (simp add: demo_pass_def render_full_def demo_parse_def demo_renderer_def clearRenderCache_def u16_def
      groupTokens.simps first_group_def make_group_def group_identity_def js_slice_def Let_def
      demo_key_def demo_block_def demo_cache_def block_key_def)

lemma demo_page:
  "page_shows id (cache demo_cache) [demo_block (Some (js ''<p></p>''))]
     (dom_patch id [demo_block (Some (js ''<p></p>''))] dom_empty)"
proof -
  have "in_sync id clearRenderCache dom_empty"
    by (simp add: in_sync_def clearRenderCache_def dom_empty_def dom_ok_def)
  moreover have "render_pass demo_parse demo_renderer Some (js ''a'') clearRenderCache =
      Inr (demo_cache, [demo_block (Some (js ''<p></p>''))])"
    using demo_first_pass by (simp add: render_pass_def demo_pass_def clearRenderCache_def)
  ultimately show ?thesis
    using render_then_patch_in_sync [of id clearRenderCache dom_empty demo_parse demo_renderer Some "js ''a''"]
    by (simp add: FIRST_PAINT_BLOCKS_def)
qed

subsection \<open>Where the page falls out of sync\<close>

lemma single_block_not_safe:
  "length (splitSourceBlocks doc) = 1 \<Longrightarrow> \<not> snd (incrementalParseSafe previous doc)"
proof
  assume "length (splitSourceBlocks doc) = 1" "snd (incrementalParseSafe previous doc)"
  then have "0 < length (dirty_blocks previous doc)" "20 * length (dirty_blocks previous doc) \<le> 7"
    by (auto simp: incrementalParseSafe_def Let_def)
  then show False by linarith
qed

lemma demo_single: "length (splitSourceBlocks (js ''a'')) = 1" "length (splitSourceBlocks (js ''bad'')) = 1"
  by (simp_all add: splitSourceBlocks_def split_loop.simps blank_def js_trim_def js_whitespace_def u16_def
      block_end_def isFence_def leading_def isListStart_def js_digit_def skip_paragraph.simps push_block_def Let_def)

definition demo_answer :: "nat \<Rightarrow> js_text \<Rightarrow> render_cache \<Rightarrow> render_cache \<times> block_patch list" where
  "demo_answer n doc st = render_answer demo_parse demo_renderer (\<lambda>_. None) n doc st"

lemma demo_answers:
  "demo_answer 1 (js ''a'') clearRenderCache = (demo_cache, [demo_block (Some (js ''<p></p>''))])"
  "demo_answer 2 (js ''bad'') demo_cache = (demo_cache\<lparr>rc_lastText := js ''bad''\<rparr>, [error_block 2 (js ''bad'')])"
  "demo_answer 3 (js ''a'') (demo_cache\<lparr>rc_lastText := js ''bad''\<rparr>) = (demo_cache, [demo_block None])"
proof -
  show "demo_answer 1 (js ''a'') clearRenderCache = (demo_cache, [demo_block (Some (js ''<p></p>''))])"
    using demo_first_pass
    by (simp add: demo_answer_def render_answer_def render_pass_def clearRenderCache_def demo_pass_def)
  show "demo_answer 2 (js ''bad'') demo_cache = (demo_cache\<lparr>rc_lastText := js ''bad''\<rparr>, [error_block 2 (js ''bad'')])"
    using single_block_not_safe [OF demo_single(2)]
    by (simp add: demo_answer_def render_answer_def render_pass_def render_full_def demo_parse_def)
  have "render_full demo_parse demo_renderer (js ''a'') (demo_cache\<lparr>rc_lastText := js ''bad''\<rparr>) = Inr (demo_cache, [demo_block None])"
    by (simp add: render_full_def demo_parse_def demo_renderer_def u16_def demo_cache_def
      groupTokens.simps first_group_def make_group_def group_identity_def js_slice_def Let_def
      demo_key_def demo_block_def block_key_def)
  then show "demo_answer 3 (js ''a'') (demo_cache\<lparr>rc_lastText := js ''bad''\<rparr>) = (demo_cache, [demo_block None])"
    using single_block_not_safe [OF demo_single(1)]
    by (simp add: demo_answer_def render_answer_def render_pass_def)
qed

lemma one_block_page:
  "dom_ok d \<Longrightarrow> nodes d \<noteq> [] \<or> length [b] \<le> FIRST_PAINT_BLOCKS \<Longrightarrow>
     map_of (nodes (dom_patch sanitize [b] d)) k =
       (if k = bp_key b then Some (patched_node sanitize (map_of (nodes d) k) b) else None)
     \<and> children (dom_patch sanitize [b] d) = [bp_key b]"
  using patchRange_all [of "d\<lparr>idle := None\<rparr>" "[b]" sanitize]
  by (auto simp: dom_patch_def dom_ok_def Let_def)

lemma one_block_dom_ok: "dom_ok d \<Longrightarrow> dom_ok (dom_patch sanitize [b] d)"
proof -
  assume "dom_ok d"
  then have one: "map_of (nodes (dom_patch sanitize [b] d)) k =
       (if k = bp_key b then Some (patched_node sanitize (map_of (nodes d) k) b) else None)"
    "children (dom_patch sanitize [b] d) = [bp_key b]" for k
    using one_block_page [of d b sanitize] by (simp_all add: FIRST_PAINT_BLOCKS_def)
  have "k \<in> fst ` set (nodes (dom_patch sanitize [b] d)) \<longleftrightarrow> k = bp_key b" for k
    using one(1) [of k] map_of_eq_None_iff [of "nodes (dom_patch sanitize [b] d)" k] by (auto split: if_splits)
  then show ?thesis using one(2) by (auto simp: dom_ok_def)
qed

text \<open>
  A failed render leaves blank blocks behind. The error answer replaces the whole page, but
  the worker keeps \<open>present\<close>; when the source renders again, its blocks come without HTML and the
  page, which has dropped their elements, creates empty ones.
\<close>

theorem error_answer_blanks_page:
  "(let (st1, bs1) = demo_answer 1 (js ''a'') clearRenderCache; d1 = dom_patch id bs1 dom_empty;
        (st2, bs2) = demo_answer 2 (js ''bad'') st1; d2 = dom_patch id bs2 d1;
        (st3, bs3) = demo_answer 3 (js ''a'') st2; d3 = dom_patch id bs3 d2
    in children d3 = [demo_key] \<and> map_of (cache st3) demo_key = Some (js ''<p></p>'')
       \<and> map_option nd_html (map_of (nodes d1) demo_key) = Some (js ''<p></p>'')
       \<and> map_option nd_html (map_of (nodes d3) demo_key) = Some [])"
proof -
  let ?d1 = "dom_patch id [demo_block (Some (js ''<p></p>''))] dom_empty"
  let ?d2 = "dom_patch id [error_block 2 (js ''bad'')] ?d1"
  let ?d3 = "dom_patch id [demo_block None] ?d2"
  have ok0: "dom_ok dom_empty" by (simp add: dom_ok_def dom_empty_def)
  note ok1 = one_block_dom_ok [OF ok0, of id "demo_block (Some (js ''<p></p>''))"]
  note ok2 = one_block_dom_ok [OF ok1, of id "error_block 2 (js ''bad'')"]
  have hyphen: "45 \<notin> set demo_key"
  proof
    assume "45 \<in> set demo_key"
    then have "\<exists>d < 36. 45 = digit_unit d"
      unfolding demo_key_def hashString_def by (rule to_radix_units [rotated 2]) simp_all
    then obtain d where "d < 36" "45 = digit_unit d" by blast
    with unat_digit_unit [of d] show False by (auto dest: arg_cong [of _ _ unat] split: if_splits)
  qed
  have "45 \<in> set (bp_key (error_block 2 (js ''bad'')))" by (simp add: error_block_def u16_def)
  with hyphen have ne: "bp_key (error_block 2 (js ''bad'')) \<noteq> demo_key" by metis
  have "map_option nd_html (map_of (nodes ?d1) demo_key) = Some (js ''<p></p>'')"
    using one_block_page [OF ok0, of "demo_block (Some (js ''<p></p>''))" id demo_key]
    by (simp add: FIRST_PAINT_BLOCKS_def patched_node_def demo_block_def dom_empty_def)
  moreover have "map_of (nodes ?d2) demo_key = None"
    using one_block_page [OF ok1, of "error_block 2 (js ''bad'')" id demo_key] ne by (simp add: FIRST_PAINT_BLOCKS_def)
  then have "map_option nd_html (map_of (nodes ?d3) demo_key) = Some [] \<and> children ?d3 = [demo_key]"
    using one_block_page [OF ok2, of "demo_block None" id demo_key]
    by (simp add: FIRST_PAINT_BLOCKS_def patched_node_def demo_block_def)
  moreover have "map_of (cache demo_cache) demo_key = Some (js ''<p></p>'')" by (simp add: demo_cache_def)
  ultimately show ?thesis unfolding demo_answers Let_def prod.case by blast
qed

text \<open>The first paint: blocks that are new are inserted before the cursor, in order.\<close>

lemma patch_loop_inserts:
  assumes "distinct (pre @ c # post)" "distinct (map bp_key bs)" "set (pre @ c # post) \<inter> set (map bp_key bs) = {}"
  shows "snd (patch_loop sanitize fresh old bs nxt (pre @ c # post) (Some c)) = pre @ map bp_key bs @ c # post"
  using assms
proof (induction bs arbitrary: pre nxt)
  case (Cons b bs)
  have "insert_before (bp_key b) (Some c) (pre @ c # post) = (pre @ [bp_key b]) @ c # post"
  proof -
    have "insert_before (bp_key b) (first_child (c # post)) (pre @ c # post) = pre @ bp_key b # removeAll (bp_key b) (c # post)"
      using Cons.prems by (intro insert_before_rest) (auto simp: first_child_def)
    with Cons.prems show ?thesis by (simp add: first_child_def)
  qed
  moreover have "snd (patch_loop sanitize fresh old bs nxt' ((pre @ [bp_key b]) @ c # post) (Some c)) =
      (pre @ [bp_key b]) @ map bp_key bs @ c # post" for nxt'
    using Cons.prems by (intro Cons.IH) auto
  ultimately show ?case using Cons.prems(3) by (auto simp: Let_def)
qed simp

lemma first_paint:
  assumes "distinct (map bp_key bs)" "FIRST_PAINT_BLOCKS < length bs"
  shows "children (dom_patch sanitize bs dom_empty) = map bp_key (take FIRST_PAINT_BLOCKS bs)"
    and "map_of (nodes (dom_patch sanitize bs dom_empty)) k =
      (case List.find (\<lambda>b. bp_key b = k) (take FIRST_PAINT_BLOCKS bs) of
         Some b \<Rightarrow> Some (patched_node sanitize None b) | None \<Rightarrow> None)"
    and "idle (dom_patch sanitize bs dom_empty) = Some (bs, FIRST_PAINT_BLOCKS)"
proof -
  let ?bs = "take FIRST_PAINT_BLOCKS bs"
  have d: "distinct (map bp_key ?bs)" using assms(1) by (metis distinct_take take_map)
  have eq: "dom_patch sanitize bs dom_empty =
      (let r = patch_loop sanitize True [] ?bs [] ([] @ []) (first_child [])
       in \<lparr>nodes = fst r, children = snd r, idle = Some (bs, FIRST_PAINT_BLOCKS)\<rparr>)"
    using assms(2)
    by (simp add: dom_patch_def dom_empty_def patchRange_def start_cursor_def js_slice_def first_child_def
        Let_def split_def)
  show "children (dom_patch sanitize bs dom_empty) = map bp_key ?bs"
    using patch_loop_children [of "[]" "[]" ?bs] d by (simp add: eq Let_def)
  show "map_of (nodes (dom_patch sanitize bs dom_empty)) k =
      (case List.find (\<lambda>b. bp_key b = k) ?bs of
         Some b \<Rightarrow> Some (patched_node sanitize None b) | None \<Rightarrow> None)"
    using patch_loop_nodes [OF d, of True "[]" "[]"] by (simp add: eq Let_def cong: option.case_cong)
  show "idle (dom_patch sanitize bs dom_empty) = Some (bs, FIRST_PAINT_BLOCKS)"
    by (simp add: eq Let_def)
qed

lemma next_sibling_last: "distinct xs \<Longrightarrow> xs \<noteq> [] \<Longrightarrow> next_sibling (last xs) xs = None"
  using next_sibling_split [of "butlast xs" "last xs" "[]"] by (simp add: first_child_def)

lemma first_paint_cursor:
  assumes "distinct (map bp_key bs)" "FIRST_PAINT_BLOCKS < length bs"
    and d: "children d = children (dom_patch sanitize bs dom_empty)"
  shows "start_cursor bs FIRST_PAINT_BLOCKS d = Some (bp_key (hd bs))"
proof -
  let ?bs = "take FIRST_PAINT_BLOCKS bs" and ?b = "bs ! (FIRST_PAINT_BLOCKS - 1)"
  note fp = first_paint [OF assms(1,2), of sanitize]
  have ne: "?bs \<noteq> []" "bs \<noteq> []" using assms(2) by (auto simp: FIRST_PAINT_BLOCKS_def)
  have "distinct (map bp_key ?bs)" using assms(1) by (metis distinct_take take_map)
  moreover have last: "last (map bp_key ?bs) = bp_key ?b"
    using assms(2) ne by (simp add: last_map last_conv_nth min_absorb1 FIRST_PAINT_BLOCKS_def)
  ultimately have "next_sibling (bp_key ?b) (map bp_key ?bs) = None" using next_sibling_last ne by fastforce
  moreover have "first_child (map bp_key ?bs) = Some (bp_key (hd bs))"
    using ne by (cases bs) (auto simp: first_child_def FIRST_PAINT_BLOCKS_def)
  ultimately show ?thesis by (simp add: start_cursor_def d fp(1) FIRST_PAINT_BLOCKS_def Let_def)
qed

text \<open>
  The first idle callback puts its blocks in the wrong place. After a first paint the last
  painted block has no sibling, so the cursor falls back to the container's first child, and the
  remaining blocks of a document of 49 to 88 blocks come before the first 48.
\<close>

theorem first_paint_remainder_misplaced:
  assumes "distinct (map bp_key bs)" and "48 < length bs" and "length bs \<le> 88"
  shows "children (idle_step sanitize (dom_patch sanitize bs dom_empty)) =
     map bp_key (drop 48 bs) @ map bp_key (take 48 bs)"
proof -
  have fpb: "FIRST_PAINT_BLOCKS = 48" "IDLE_PAINT_BLOCKS = 40" by (simp_all add: FIRST_PAINT_BLOCKS_def IDLE_PAINT_BLOCKS_def)
  define d where "d = dom_patch sanitize bs dom_empty"
  let ?keys = "map bp_key (take 48 bs)"
  have len: "FIRST_PAINT_BLOCKS < length bs" using assms(2) fpb by simp
  note fp = first_paint [OF assms(1) len, of sanitize, folded d_def, unfolded fpb]
  have fin: "min (48 + 40) (length bs) = length bs" using assms(3) by simp
  let ?d = "retire_stale bs (d\<lparr>idle := None\<rparr>)"
  have keep: "children ?d = ?keys"
    by (auto simp: retire_stale_def fp(1) Let_def filter_id_conv dest: in_set_takeD)
  have cur: "start_cursor bs 48 ?d = Some (bp_key (hd bs))"
    using first_paint_cursor [OF assms(1) len, of ?d sanitize] keep fp(1) by (simp add: d_def fpb)
  have head: "?keys = [] @ bp_key (hd bs) # tl ?keys" using assms(2) by (cases bs) auto
  have dist: "distinct (?keys @ map bp_key (drop 48 bs))"
    using assms(1) by (metis append_take_drop_id map_append)
  have "children (idle_step sanitize d) =
      snd (patch_loop sanitize False (nodes ?d) (drop 48 bs) (nodes ?d) ?keys (Some (bp_key (hd bs))))"
    using assms(3) keep cur
    by (simp add: idle_step_def fp(3) fpb fin patchRange_def js_slice_def Let_def split_def)
  also have "\<dots> = [] @ map bp_key (drop 48 bs) @ bp_key (hd bs) # tl ?keys"
    by (subst head, rule patch_loop_inserts) (use dist head in \<open>auto simp: distinct_append\<close>)
  also have "\<dots> = map bp_key (drop 48 bs) @ ?keys" using head by simp
  finally show ?thesis by (simp add: d_def)
qed

definition numbered_blocks :: "nat \<Rightarrow> block_patch list" where
  "numbered_blocks n = map (\<lambda>i. \<lparr>bp_key = replicate i 0, bp_line = i, bp_sourceStart = 0, bp_sourceEnd = 0,
     bp_exactTextStart = None, bp_html = Some []\<rparr>) [0..<n]"

lemma numbered_blocks_distinct: "distinct (map bp_key (numbered_blocks n))"
  by (auto simp: numbered_blocks_def distinct_map inj_on_def comp_def)

theorem first_paint_remainder_misplaced_witness:
  "hd (children (idle_step id (dom_patch id (numbered_blocks 49) dom_empty))) = replicate 48 0"
proof -
  have len: "48 < length (numbered_blocks 49)" "length (numbered_blocks 49) \<le> 88" by (simp_all add: numbered_blocks_def)
  have "drop 48 [0..<49] = [48::nat]" by (simp add: upt_conv_Cons)
  then have "map bp_key (drop 48 (numbered_blocks 49)) = [replicate 48 0]"
    by (simp only: numbered_blocks_def drop_map list.map block_patch.simps)
  with first_paint_remainder_misplaced [OF numbered_blocks_distinct len, of id] show ?thesis
    by (simp only: append_Cons list.sel)
qed

text \<open>
  An edit that arrives before the first paint has finished loses the rest of the page. It
  cancels the idle callbacks, and a block that was still to be painted comes without HTML in the
  new response, because the worker has already sent it: its element is created empty.
\<close>

theorem edit_during_first_paint_blanks:
  assumes "distinct (map bp_key bs)" and "FIRST_PAINT_BLOCKS < length bs"
    and "distinct (map bp_key bs')" and "b \<in> set bs'" and "bp_html b = None"
    and "bp_key b \<notin> set (map bp_key (take FIRST_PAINT_BLOCKS bs))"
  shows "map_option nd_html (map_of (nodes (dom_patch sanitize bs' (dom_patch sanitize bs dom_empty))) (bp_key b)) =
    Some (sanitize [])"
proof -
  let ?d = "dom_patch sanitize bs dom_empty"
  note fp = first_paint [OF assms(1,2), of sanitize]
  have painted: "k \<in> fst ` set (nodes ?d) \<longleftrightarrow> k \<in> set (map bp_key (take FIRST_PAINT_BLOCKS bs))" for k
  proof -
    have "k \<in> fst ` set (nodes ?d) \<longleftrightarrow> map_of (nodes ?d) k \<noteq> None" by (simp add: map_of_eq_None_iff)
    also have "\<dots> \<longleftrightarrow> List.find (\<lambda>b. bp_key b = k) (take FIRST_PAINT_BLOCKS bs) \<noteq> None"
      by (simp add: fp(2) split: option.splits)
    also have "\<dots> \<longleftrightarrow> k \<in> set (map bp_key (take FIRST_PAINT_BLOCKS bs))" by (auto simp: find_None_iff)
    finally show ?thesis .
  qed
  have "distinct (children ?d)" using assms(1) by (simp add: fp(1)) (metis distinct_take take_map)
  then have ok: "dom_ok (?d\<lparr>idle := None\<rparr>)" using painted by (auto simp: dom_ok_def fp(1))
  have "0 < FIRST_PAINT_BLOCKS" by (simp add: FIRST_PAINT_BLOCKS_def)
  with assms(2) have "hd (map bp_key (take FIRST_PAINT_BLOCKS bs)) \<in> set (map bp_key (take FIRST_PAINT_BLOCKS bs))"
    by (intro list.set_sel) auto
  with painted have "nodes ?d \<noteq> []" by force
  then have "dom_patch sanitize bs' ?d = patchRange sanitize bs' 0 (length bs') True (?d\<lparr>idle := None\<rparr>)"
    by (simp add: dom_patch_def Let_def)
  moreover have "map_of (nodes ?d) (bp_key b) = None" using painted assms(6) by (simp add: map_of_eq_None_iff)
  ultimately show ?thesis
    using patchRange_all(2) [OF ok assms(3), of sanitize "bp_key b"] find_key [OF assms(3,4)] assms(5)
    by (simp add: patched_node_def)
qed

theorem edit_during_first_paint_blanks_witness:
  "map_option nd_html (map_of (nodes (dom_patch id
     [\<lparr>bp_key = replicate 48 0, bp_line = 0, bp_sourceStart = 0, bp_sourceEnd = 0, bp_exactTextStart = None, bp_html = None\<rparr>]
     (dom_patch id (numbered_blocks 49) dom_empty))) (replicate 48 0)) = Some (id [])"
proof -
  have "replicate 48 0 \<notin> set (map bp_key (take FIRST_PAINT_BLOCKS (numbered_blocks 49)))"
    by (auto simp: numbered_blocks_def FIRST_PAINT_BLOCKS_def take_map take_upt)
  moreover have "FIRST_PAINT_BLOCKS < length (numbered_blocks 49)"
    by (simp add: numbered_blocks_def FIRST_PAINT_BLOCKS_def)
  ultimately show ?thesis
    using edit_during_first_paint_blanks [OF numbered_blocks_distinct, of 49
      "[\<lparr>bp_key = replicate 48 0, bp_line = 0, bp_sourceStart = 0, bp_sourceEnd = 0, bp_exactTextStart = None, bp_html = None\<rparr>]"
      "\<lparr>bp_key = replicate 48 0, bp_line = 0, bp_sourceStart = 0, bp_sourceEnd = 0, bp_exactTextStart = None, bp_html = None\<rparr>" id]
    by simp
qed

end
