(* ===== verification/Preview_Sync.thy ===== *)
theory Preview_Sync
  imports Text_Edits Preview_Dom
begin

text \<open>
  The live preview as a distributed system: \<open>PreviewRenderer\<close> (\<open>client/src/markdown/preview.ts\<close>)
  on the main thread, \<open>WorkerSupervisor\<close> (\<open>markdown/worker-supervisor.ts\<close>) around the worker, and
  \<open>processMessage\<close> of \<open>workers/markdown.worker.ts\<close> behind two message ports.

  One record holds the fields of the three, the messages in transit and the environment's two
  choices (whether \<open>postMessage\<close> accepts a message, whether a worker can be created). The worker
  handles one message at a time: that is what \<open>createSerialDispatcher\<close> is for
  (\<open>markdown/serial-dispatch.ts\<close>). A generation is the worker's random UUID, modelled by a
  counter that never repeats; the client's empty string is \<open>None\<close>. One specification variable has no
  counterpart in the code: \<open>believed\<close>, the text the client takes the worker to hold once its
  outstanding request is answered. The worker's block cache, the blocks of a response and the page
  they are patched into, at once or in idle callbacks, are those of \<open>Preview_Dom\<close>.
\<close>

section \<open>State\<close>

text \<open>markdown-it with its plugins, and DOMPurify: what the renderer calls but does not define.\<close>

record rendering =
  md_parse :: "js_text \<Rightarrow> (token list \<times> js_text) option"
  md_render :: "token list \<Rightarrow> js_text option"
  md_source :: "js_text \<Rightarrow> js_text option"
  md_sanitize :: "js_text \<Rightarrow> js_text"

record queued_edits =
  q_edits :: "16 word text_edit list"
  q_baseChars :: nat
  q_chars :: nat

datatype request =
    Render nat js_text
  | Patch "(nat option, 16 word) patch_request"
  | Reset

datatype response =
    Rendered (resp_seq: nat) (resp_generation: nat) (resp_blocks: "block_patch list")
  | Resync_Response (resp_seq: nat) (resp_generation: nat)

record preview =
  seq :: nat
  inFlight :: "nat option"
  queuedFull :: "js_text option"
  queuedEdits :: "queued_edits option"
  sourceText :: "js_text"
  workerGeneration :: "nat option"
  workerTerminal :: bool
  pv_destroyed :: bool
  recovery_microtasks :: nat
  has_worker :: bool
  awaitingResponse :: bool
  failuresWithoutResponse :: nat
  stopped :: bool
  terminal_microtask :: bool
  worker :: render_cache
  worker_generation :: nat
  next_generation :: nat
  to_worker :: "request list"
  from_worker :: "response list"
  port_ok :: bool
  spawn_ok :: bool
  rendering :: rendering
  page :: dom
  believed :: "js_text"

abbreviation lastText :: "preview \<Rightarrow> js_text" where "lastText s \<equiv> rc_lastText (worker s)"
abbreviation sanitizer :: "preview \<Rightarrow> js_text \<Rightarrow> js_text" where "sanitizer s \<equiv> md_sanitize (rendering s)"

definition MAX_RECOVERIES :: nat where
  "MAX_RECOVERIES = 1"

section \<open>\<open>WorkerSupervisor\<close> and the callbacks it drives\<close>

text \<open>\<open>spawn\<close>: a new worker starts from the module's initial state under a fresh generation.\<close>

definition spawn :: "preview \<Rightarrow> preview" where
  "spawn s = s\<lparr>has_worker := True, worker := clearRenderCache, worker_generation := next_generation s,
     next_generation := next_generation s + 1, to_worker := [], from_worker := []\<rparr>"

definition clearDeadline :: "preview \<Rightarrow> preview" where
  "clearDeadline s = s\<lparr>awaitingResponse := False\<rparr>"

definition armDeadline :: "preview \<Rightarrow> preview" where
  "armDeadline s = (clearDeadline s)\<lparr>awaitingResponse := True\<rparr>"

definition detachAndTerminate :: "preview \<Rightarrow> preview" where
  "detachAndTerminate s = s\<lparr>to_worker := [], from_worker := []\<rparr>"

definition onWorkerRecovery :: "preview \<Rightarrow> preview" where
  "onWorkerRecovery s =
     (if pv_destroyed s \<or> workerTerminal s then s
      else s\<lparr>inFlight := None, workerGeneration := None, queuedEdits := None,
             queuedFull := Some (sourceText s), recovery_microtasks := recovery_microtasks s + 1\<rparr>)"

definition terminal_node :: "preview \<Rightarrow> node" where
  "terminal_node s = \<lparr>nd_html = sanitizer s (js (''<div class=\"marks-callout marks-callout-danger\"><p>Preview stopped responding. ''
       @ ''Reload this page to try again.</p></div>'')), nd_line = 0, nd_sourceStart = 0,
     nd_sourceEnd = length (sourceText s), nd_exactTextStart = None\<rparr>"

definition onWorkerTerminal :: "preview \<Rightarrow> preview" where
  "onWorkerTerminal s =
     (if pv_destroyed s \<or> workerTerminal s then s
      else s\<lparr>workerTerminal := True, inFlight := None, queuedEdits := None, queuedFull := None,
             page := \<lparr>nodes = [(js ''worker-terminal-error'', terminal_node s)],
                      children = [js ''worker-terminal-error''], idle = None\<rparr>\<rparr>)"

definition fail :: "preview \<Rightarrow> preview" where
  "fail s =
     (if stopped s \<or> \<not> has_worker s then s
      else let s = (detachAndTerminate (clearDeadline s))
                     \<lparr>has_worker := False, failuresWithoutResponse := failuresWithoutResponse s + 1\<rparr>
           in if failuresWithoutResponse s > MAX_RECOVERIES then onWorkerTerminal (s\<lparr>stopped := True\<rparr>)
              else if \<not> spawn_ok s then onWorkerTerminal (s\<lparr>stopped := True\<rparr>)
              else onWorkerRecovery (spawn s))"

definition post :: "request \<Rightarrow> bool \<Rightarrow> preview \<Rightarrow> preview \<times> bool" where
  "post message expectResponse s =
     (if stopped s \<or> \<not> has_worker s then (s, False)
      else if \<not> port_ok s then (fail s, False)
      else let s = s\<lparr>to_worker := to_worker s @ [message]\<rparr>
           in (if expectResponse then armDeadline s else s, True))"

text \<open>The constructor: a worker that cannot even start is reported from a microtask.\<close>

definition new_preview :: "rendering \<Rightarrow> bool \<Rightarrow> bool \<Rightarrow> preview" where
  "new_preview R can_spawn can_post =
     (let s = \<lparr>seq = 0, inFlight = None, queuedFull = None, queuedEdits = None, sourceText = [],
               workerGeneration = None, workerTerminal = False, pv_destroyed = False,
               recovery_microtasks = 0, has_worker = False, awaitingResponse = False,
               failuresWithoutResponse = 0, stopped = False, terminal_microtask = False,
               worker = clearRenderCache, worker_generation = 0, next_generation = 1,
               to_worker = [], from_worker = [], port_ok = can_post, spawn_ok = can_spawn,
               rendering = R, page = dom_empty, believed = []\<rparr>
      in if can_spawn then spawn s else s\<lparr>stopped := True, terminal_microtask := True\<rparr>)"

section \<open>\<open>PreviewRenderer\<close>\<close>

definition pump_restate :: "preview \<Rightarrow> preview" where
  "pump_restate s =
     (if queuedEdits s \<noteq> None \<and> workerGeneration s = None
      then s\<lparr>queuedEdits := None, queuedFull := Some (sourceText s)\<rparr> else s)"

definition pump_send :: "preview \<Rightarrow> preview" where
  "pump_send s =
     (if queuedFull s = None \<and> queuedEdits s = None then s
      else let s = s\<lparr>seq := seq s + 1\<rparr>;
               s = s\<lparr>inFlight := Some (seq s)\<rparr>;
               n = seq s;
               (s, sent) =
                 (case queuedFull s of
                    Some t \<Rightarrow> post (Render n t) True (s\<lparr>queuedFull := None, believed := t\<rparr>)
                  | None \<Rightarrow>
                      (case queuedEdits s of
                         Some q \<Rightarrow> post (Patch \<lparr>patch_seq = n, patch_edits = q_edits q,
                             patch_generation = workerGeneration s,
                             patch_baseChars = q_baseChars q, patch_chars = q_chars q\<rparr>) True
                           (s\<lparr>queuedEdits := None, believed := sourceText s\<rparr>)
                       | None \<Rightarrow> (s, False)))
           in if \<not> sent \<and> inFlight s = Some n then s\<lparr>inFlight := None\<rparr> else s)"

definition pump :: "preview \<Rightarrow> preview" where
  "pump s =
     (if inFlight s \<noteq> None \<or> pv_destroyed s \<or> workerTerminal s then s else pump_send (pump_restate s))"

text \<open>\<open>update\<close>: edits that do not fit \<open>sourceText\<close> throw before anything is changed.\<close>

definition pv_update :: "16 word text_edit list \<Rightarrow> preview \<Rightarrow> preview" where
  "pv_update edits s =
     (if pv_destroyed s \<or> workerTerminal s \<or> edits = [] then s
      else case applyTextEdits (sourceText s) edits of
             Inl _ \<Rightarrow> s
           | Inr new_source \<Rightarrow>
               let baseChars = length (sourceText s);
                   s = s\<lparr>sourceText := new_source\<rparr>;
                   q = (case queuedEdits s of
                          None \<Rightarrow> \<lparr>q_edits = [], q_baseChars = baseChars, q_chars = length new_source\<rparr>
                        | Some q \<Rightarrow> q)
               in pump (s\<lparr>queuedEdits := Some (q\<lparr>q_edits := q_edits q @ edits, q_chars := length new_source\<rparr>)\<rparr>))"

definition invalidate :: "js_text \<Rightarrow> preview \<Rightarrow> preview" where
  "invalidate new_text s =
     (if pv_destroyed s \<or> workerTerminal s then s
      else let s = s\<lparr>page := (page s)\<lparr>idle := None\<rparr>, sourceText := new_text, workerGeneration := None\<rparr>;
               s = fst (post Reset False s)
           in pump (s\<lparr>page := (page s)\<lparr>nodes := [], children := []\<rparr>, queuedEdits := None, queuedFull := Some new_text\<rparr>))"

definition onRendered :: "response \<Rightarrow> preview \<Rightarrow> preview" where
  "onRendered response s =
     (if pv_destroyed s \<or> workerTerminal s then s
      else let request = inFlight s; s = s\<lparr>inFlight := None\<rparr>
           in if request \<noteq> Some (resp_seq response) then pump s
              else case response of
                Resync_Response n g \<Rightarrow>
                  let s = s\<lparr>workerGeneration := Some g, queuedEdits := None, queuedFull := Some (sourceText s)\<rparr>
                  in pump (fst (post Reset False s))
              | Rendered n g bs \<Rightarrow> pump (s\<lparr>workerGeneration := Some g, page := dom_patch (sanitizer s) bs (page s)\<rparr>))"

definition recovery_microtask :: "preview \<Rightarrow> preview" where
  "recovery_microtask s =
     (if recovery_microtasks s = 0 then s
      else let s = s\<lparr>recovery_microtasks := recovery_microtasks s - 1\<rparr>
           in if pv_destroyed s \<or> workerTerminal s then s else pump (fst (post Reset False s)))"

definition run_terminal_microtask :: "preview \<Rightarrow> preview" where
  "run_terminal_microtask s =
     (if terminal_microtask s then onWorkerTerminal (s\<lparr>terminal_microtask := False\<rparr>) else s)"

definition pv_destroy :: "preview \<Rightarrow> preview" where
  "pv_destroy s =
     (let s = s\<lparr>pv_destroyed := True, page := (page s)\<lparr>nodes := [], idle := None\<rparr>\<rparr>
      in if stopped s then s
         else (detachAndTerminate (clearDeadline (s\<lparr>stopped := True\<rparr>)))\<lparr>has_worker := False\<rparr>)"

section \<open>The worker\<close>

text \<open>
  \<open>processMessage\<close>. An accepted text is rendered with the block cache of \<open>Preview_Dom\<close>; a render that
  throws is answered with a single error block (\<open>render_answer\<close>).
\<close>

definition answer_text :: "preview \<Rightarrow> nat \<Rightarrow> js_text \<Rightarrow> render_cache \<times> block_patch list" where
  "answer_text s n doc =
     render_answer (md_parse (rendering s)) (md_render (rendering s)) (md_source (rendering s)) n doc (worker s)"

definition accept_text :: "nat \<Rightarrow> js_text \<Rightarrow> preview \<Rightarrow> preview" where
  "accept_text n doc s =
     (let (w, blocks) = answer_text s n doc
      in s\<lparr>worker := w, from_worker := from_worker s @ [Rendered n (worker_generation s) blocks]\<rparr>)"

definition processMessage :: "request \<Rightarrow> preview \<Rightarrow> preview" where
  "processMessage message s =
     (case message of
        Reset \<Rightarrow> s\<lparr>worker := clearRenderCache\<rparr>
      | Render n t \<Rightarrow> accept_text n t s
      | Patch p \<Rightarrow>
          (case transitionPatch (lastText s) (Some (worker_generation s)) p of
             Resync r \<Rightarrow> s\<lparr>from_worker := from_worker s @ [Resync_Response (resync_seq r) (worker_generation s)]\<rparr>
           | Applied t \<Rightarrow> accept_text (patch_seq p) t s))"

section \<open>Events\<close>

datatype preview_event =
    Update "16 word text_edit list"
  | Invalidate "js_text"
  | Worker_Takes_Message
  | Client_Takes_Response
  | Deadline
  | Worker_Error
  | Worker_Module_Restart
  | Recovery_Microtask
  | Terminal_Microtask
  | Idle_Paint
  | Destroy
  | Environment bool bool

definition deliver_response :: "preview \<Rightarrow> preview" where
  "deliver_response s =
     (case from_worker s of
        [] \<Rightarrow> s
      | r # rs \<Rightarrow>
          if stopped s \<or> \<not> has_worker s then s
          else onRendered r ((clearDeadline (s\<lparr>from_worker := rs\<rparr>))\<lparr>failuresWithoutResponse := 0\<rparr>))"

definition worker_takes_message :: "preview \<Rightarrow> preview" where
  "worker_takes_message s =
     (case to_worker s of
        [] \<Rightarrow> s
      | m # ms \<Rightarrow> if has_worker s then processMessage m (s\<lparr>to_worker := ms\<rparr>) else s)"

text \<open>
  The failure \<open>worker-state.ts\<close> describes: a browser re-evaluates the worker's module, which
  starts over with an empty text and a new generation while both ports survive.
\<close>

definition module_restart :: "preview \<Rightarrow> preview" where
  "module_restart s =
     (if has_worker s then s\<lparr>worker := clearRenderCache, worker_generation := next_generation s,
                              next_generation := next_generation s + 1\<rparr> else s)"

text \<open>An idle callback of \<open>scheduleRemainder\<close>.\<close>

definition idle_paint :: "preview \<Rightarrow> preview" where
  "idle_paint s = (if pv_destroyed s then s else s\<lparr>page := idle_step (sanitizer s) (page s)\<rparr>)"

definition preview_step :: "preview \<Rightarrow> preview_event \<Rightarrow> preview" where
  "preview_step s e =
     (case e of
        Update edits \<Rightarrow> pv_update edits s
      | Invalidate t \<Rightarrow> invalidate t s
      | Worker_Takes_Message \<Rightarrow> worker_takes_message s
      | Client_Takes_Response \<Rightarrow> deliver_response s
      | Deadline \<Rightarrow> if awaitingResponse s then fail s else s
      | Worker_Error \<Rightarrow> fail s
      | Worker_Module_Restart \<Rightarrow> module_restart s
      | Recovery_Microtask \<Rightarrow> recovery_microtask s
      | Terminal_Microtask \<Rightarrow> run_terminal_microtask s
      | Idle_Paint \<Rightarrow> idle_paint s
      | Destroy \<Rightarrow> pv_destroy s
      | Environment p q \<Rightarrow> s\<lparr>port_ok := p, spawn_ok := q\<rparr>)"

definition preview_start :: "preview \<Rightarrow> bool" where
  "preview_start s \<longleftrightarrow> (\<exists>R can_spawn can_post. s = new_preview R can_spawn can_post)"

section \<open>The invariant\<close>

definition alive :: "preview \<Rightarrow> bool" where
  "alive s \<longleftrightarrow> \<not> pv_destroyed s \<and> \<not> workerTerminal s \<and> \<not> stopped s"

fun request_seq :: "request \<Rightarrow> nat option" where
  "request_seq (Render n t) = Some n"
| "request_seq (Patch p) = Some (patch_seq p)"
| "request_seq Reset = None"

text \<open>The one outstanding exchange: its request is still travelling, or its response is.\<close>

definition exchange_ok :: "preview \<Rightarrow> bool" where
  "exchange_ok s \<longleftrightarrow>
     List.map_filter request_seq (to_worker s) @ map resp_seq (from_worker s) =
       (case inFlight s of None \<Rightarrow> [] | Some n \<Rightarrow> [n])
     \<and> (inFlight s \<noteq> None \<longrightarrow> awaitingResponse s)"

text \<open>The queued work leads from what the worker is about to hold to the current source.\<close>

definition queue_ok :: "preview \<Rightarrow> bool" where
  "queue_ok s \<longleftrightarrow>
     (let base = (case queuedFull s of None \<Rightarrow> believed s | Some t \<Rightarrow> t)
      in case queuedEdits s of
           None \<Rightarrow> base = sourceText s
         | Some q \<Rightarrow> applyTextEdits base (q_edits q) = Inr (sourceText s)
             \<and> q_baseChars q = length base \<and> q_chars q = length (sourceText s))"

text \<open>
  A worker of the generation the client knows holds the believed text, or nothing after a
  \<open>reset\<close>; it never takes a patch to any other text than the one the client meant.
\<close>

definition holds_believed :: "preview \<Rightarrow> bool" where
  "holds_believed s \<longleftrightarrow> lastText s = believed s \<or> lastText s = []"

definition request_ok :: "preview \<Rightarrow> request \<Rightarrow> bool" where
  "request_ok s m \<longleftrightarrow>
     (case m of
        Reset \<Rightarrow> True
      | Render n t \<Rightarrow> t = believed s
      | Patch p \<Rightarrow> \<forall>base t. base = lastText s \<or> base = [] \<longrightarrow>
          transitionPatch base (Some (worker_generation s)) p = Applied t \<longrightarrow> t = believed s)"

text \<open>The blocks a worker answers a text with, from some state of its cache; the page they were last patched into.\<close>

definition answer_to :: "rendering \<Rightarrow> js_text \<Rightarrow> block_patch list \<Rightarrow> bool" where
  "answer_to R doc bs \<longleftrightarrow> (\<exists>n w. bs = snd (render_answer (md_parse R) (md_render R) (md_source R) n doc w))"

definition painted :: "rendering \<Rightarrow> js_text \<Rightarrow> dom \<Rightarrow> bool" where
  "painted R doc d \<longleftrightarrow> doc = [] \<and> d = dom_empty
     \<or> (\<exists>bs d0 k. answer_to R doc bs \<and> d = (idle_step (md_sanitize R) ^^ k) (dom_patch (md_sanitize R) bs d0))"

lemma painted_patch: "answer_to R doc bs \<Longrightarrow> painted R doc (dom_patch (md_sanitize R) bs d0)"
  unfolding painted_def by (intro disjI2 exI [of _ bs] exI [of _ d0] exI [of _ 0]) simp

lemma painted_idle: "painted R doc d \<Longrightarrow> painted R doc (idle_step (md_sanitize R) d)"
  unfolding painted_def
proof (elim disjE conjE exE)
  fix bs d0 k assume "answer_to R doc bs" "d = (idle_step (md_sanitize R) ^^ k) (dom_patch (md_sanitize R) bs d0)"
  then show "doc = [] \<and> idle_step (md_sanitize R) d = dom_empty
     \<or> (\<exists>bs d0 k. answer_to R doc bs \<and> idle_step (md_sanitize R) d = (idle_step (md_sanitize R) ^^ k) (dom_patch (md_sanitize R) bs d0))"
    by (intro disjI2 exI [of _ bs] exI [of _ d0] exI [of _ "Suc k"]) simp
qed (simp add: idle_step_def dom_empty_def)

definition response_ok :: "preview \<Rightarrow> response \<Rightarrow> bool" where
  "response_ok s r \<longleftrightarrow>
     (case r of
        Rendered n g bs \<Rightarrow> answer_to (rendering s) (believed s) bs \<and> (g = worker_generation s \<longrightarrow> holds_believed s)
      | Resync_Response n g \<Rightarrow> True)"

definition generations_ok :: "preview \<Rightarrow> bool" where
  "generations_ok s \<longleftrightarrow> worker_generation s < next_generation s
     \<and> (\<forall>g. workerGeneration s = Some g \<longrightarrow> g < next_generation s)
     \<and> (\<forall>r \<in> set (from_worker s). resp_generation r < next_generation s)
     \<and> (\<forall>p g. Patch p \<in> set (to_worker s) \<longrightarrow> patch_generation p = Some g \<longrightarrow> g < next_generation s)"

definition worker_ok :: "preview \<Rightarrow> bool" where
  "worker_ok s \<longleftrightarrow> has_worker s
     \<and> (\<forall>m \<in> set (to_worker s). request_ok s m) \<and> (\<forall>r \<in> set (from_worker s). response_ok s r)
     \<and> (inFlight s = None \<longrightarrow> queuedFull s = None \<longrightarrow>
          workerGeneration s = Some (worker_generation s) \<longrightarrow> holds_believed s)"

definition shown_ok :: "preview \<Rightarrow> bool" where
  "shown_ok s \<longleftrightarrow> (inFlight s = None \<longrightarrow> queuedFull s = None \<longrightarrow> painted (rendering s) (believed s) (page s))"

definition progress_ok :: "preview \<Rightarrow> bool" where
  "progress_ok s \<longleftrightarrow>
     (queuedFull s \<noteq> None \<or> queuedEdits s \<noteq> None \<longrightarrow> inFlight s \<noteq> None \<or> recovery_microtasks s > 0)"

definition channel_ok :: "preview \<Rightarrow> bool" where
  "channel_ok s \<longleftrightarrow> exchange_ok s \<and> generations_ok s \<and> worker_ok s \<and> shown_ok s"

definition settled_ok :: "preview \<Rightarrow> bool" where
  "settled_ok s \<longleftrightarrow> queue_ok s \<and> channel_ok s"

definition preview_inv :: "preview \<Rightarrow> bool" where
  "preview_inv s \<longleftrightarrow> (alive s \<longrightarrow> settled_ok s \<and> progress_ok s)"

lemmas preview_parts = settled_ok_def channel_ok_def exchange_ok_def queue_ok_def generations_ok_def worker_ok_def
  shown_ok_def progress_ok_def holds_believed_def

lemma fail_alive: "alive (fail s) \<Longrightarrow> alive s"
  by (auto simp: fail_def alive_def onWorkerTerminal_def onWorkerRecovery_def spawn_def
      detachAndTerminate_def clearDeadline_def Let_def split: if_splits)

lemma fail_inv [marks_inv]:
  "has_worker s \<Longrightarrow> preview_inv (fail s)"
  by (auto simp: preview_inv_def fail_def alive_def onWorkerTerminal_def onWorkerRecovery_def spawn_def
      detachAndTerminate_def clearDeadline_def Let_def preview_parts map_filter_simps split: if_splits)

lemma fail_recovered:
  "alive (fail s) \<Longrightarrow> has_worker s \<Longrightarrow> queuedFull (fail s) = Some (sourceText s) \<and> queuedEdits (fail s) = None
     \<and> inFlight (fail s) = None \<and> recovery_microtasks (fail s) > 0 \<and> sourceText (fail s) = sourceText s"
  by (auto simp: fail_def alive_def onWorkerTerminal_def onWorkerRecovery_def spawn_def
      detachAndTerminate_def clearDeadline_def Let_def split: if_splits)

lemma map_filter_append: "List.map_filter f (xs @ ys) = List.map_filter f xs @ List.map_filter f ys"
  by (simp add: List.map_filter_def)

lemma post_reset:
  assumes "channel_ok s" "alive (fst (post Reset False s))"
  shows "channel_ok (fst (post Reset False s)) \<and> sourceText (fst (post Reset False s)) = sourceText s
    \<and> (queue_ok s \<longrightarrow> queue_ok (fst (post Reset False s)))"
proof -
  have w: "has_worker s" using assms(1) by (simp add: channel_ok_def worker_ok_def)
  show ?thesis
  proof (cases "port_ok s")
    case True
    with assms(2) w have eq: "fst (post Reset False s) = s\<lparr>to_worker := to_worker s @ [Reset]\<rparr>"
      by (auto simp: post_def alive_def Let_def split: if_splits)
    from assms(1) show ?thesis unfolding eq
      by (simp add: preview_parts map_filter_append map_filter_simps request_ok_def response_ok_def
          cong: request.case_cong response.case_cong option.case_cong)
  next
    case False
    with assms(2) have "alive (fail s)" "fst (post Reset False s) = fail s"
      by (auto simp: post_def w alive_def fail_def split: if_splits)
    with fail_inv [OF w] fail_recovered [OF _ w] show ?thesis by (simp add: preview_inv_def settled_ok_def)
  qed
qed

lemma idle_channels:
  assumes "settled_ok s" "inFlight s = None"
  shows "List.map_filter request_seq (to_worker s) = []" "from_worker s = []"
    and "\<forall>m \<in> set (to_worker s). m = Reset"
proof -
  show no: "List.map_filter request_seq (to_worker s) = []" "from_worker s = []"
    using assms by (auto simp: settled_ok_def channel_ok_def exchange_ok_def)
  have "m = Reset" if "m \<in> set (to_worker s)" for m
    using no(1) that by (cases m) (auto simp: List.map_filter_def filter_empty_conv)
  then show "\<forall>m \<in> set (to_worker s). m = Reset" by blast
qed

lemma pump_send_full:
  assumes "settled_ok s" "alive s" "inFlight s = None" "queuedFull s = Some t" "port_ok s"
  shows "settled_ok (pump_send s)" "progress_ok (pump_send s)"
proof -
  have w: "has_worker s" "\<not> stopped s" using assms by (auto simp: settled_ok_def channel_ok_def worker_ok_def alive_def)
  have eq: "pump_send s = s\<lparr>seq := seq s + 1, inFlight := Some (seq s + 1), queuedFull := None,
      believed := t, to_worker := to_worker s @ [Render (seq s + 1) t], awaitingResponse := True\<rparr>"
    using assms w by (simp add: pump_send_def post_def armDeadline_def clearDeadline_def Let_def)
  show "settled_ok (pump_send s)" "progress_ok (pump_send s)"
    using assms idle_channels [OF assms(1,3)] unfolding eq
    by (auto simp: preview_parts map_filter_append map_filter_simps request_ok_def Let_def
        split: option.splits)
qed

lemma applied_only_believed:
  assumes "applyTextEdits old es = Inr new" "length old = n" "length new = k"
    and "base = old \<or> base = []"
    and "transitionPatch base g p = Applied t" "patch_edits p = es" "patch_baseChars p = n"
  shows "t = new"
  using assms by (auto simp: transitionPatch_Applied_iff)

lemma pump_send_patch:
  assumes "settled_ok s" "alive s" "inFlight s = None" "queuedFull s = None" "queuedEdits s = Some q"
    and "port_ok s" "workerGeneration s \<noteq> None"
  shows "settled_ok (pump_send s)" "progress_ok (pump_send s)"
proof -
  let ?p = "\<lparr>patch_seq = seq s + 1, patch_edits = q_edits q, patch_generation = workerGeneration s,
     patch_baseChars = q_baseChars q, patch_chars = q_chars q\<rparr>"
  have q: "applyTextEdits (believed s) (q_edits q) = Inr (sourceText s)"
      "q_baseChars q = length (believed s)" "q_chars q = length (sourceText s)"
    using assms by (auto simp: settled_ok_def queue_ok_def Let_def)
  have only: "t = sourceText s"
    if "base = lastText s \<or> base = []" "transitionPatch base (Some (worker_generation s)) ?p = Applied t" for base t
  proof -
    from that(2) have "workerGeneration s = Some (worker_generation s)"
      by (simp add: transitionPatch_Applied_iff)
    with assms have "holds_believed s" by (simp add: settled_ok_def channel_ok_def worker_ok_def)
    with that q show ?thesis
      by (intro applied_only_believed [of "believed s" "q_edits q" _ _ _ base _ ?p]) (auto simp: holds_believed_def)
  qed
  have w: "has_worker s" "\<not> stopped s" using assms by (auto simp: settled_ok_def channel_ok_def worker_ok_def alive_def)
  have eq: "pump_send s = s\<lparr>seq := seq s + 1, inFlight := Some (seq s + 1), queuedEdits := None,
      believed := sourceText s, to_worker := to_worker s @ [Patch ?p], awaitingResponse := True\<rparr>"
    using assms w by (simp add: pump_send_def post_def armDeadline_def clearDeadline_def Let_def)
  show "settled_ok (pump_send s)" "progress_ok (pump_send s)"
    using assms only idle_channels [OF assms(1,3)] q unfolding eq
    by (auto simp: preview_parts map_filter_append map_filter_simps request_ok_def Let_def)
qed

lemma drop_inFlight_inv:
  "preview_inv s \<Longrightarrow> (alive s \<Longrightarrow> inFlight s = None) \<Longrightarrow> preview_inv (s\<lparr>inFlight := None\<rparr>)"
proof (cases "alive s")
  case True
  assume "preview_inv s" "alive s \<Longrightarrow> inFlight s = None"
  moreover from this True have "s\<lparr>inFlight := None\<rparr> = s" by simp
  ultimately show ?thesis by simp
next
  case False
  then show ?thesis by (auto simp: preview_inv_def alive_def)
qed

lemma pump_send_refused:
  assumes "settled_ok s" "alive s" "queuedFull s \<noteq> None \<or> queuedEdits s \<noteq> None" "\<not> port_ok s"
  shows "preview_inv (pump_send s)"
proof -
  have w: "has_worker s" "\<not> stopped s" using assms by (auto simp: settled_ok_def channel_ok_def worker_ok_def alive_def)
  obtain s1 where s1: "pump_send s = (if inFlight (fail s1) = Some (seq s + 1)
      then (fail s1)\<lparr>inFlight := None\<rparr> else fail s1)" and "has_worker s1"
    using assms(3,4) w
    by (cases "queuedFull s"; cases "queuedEdits s") (auto simp: pump_send_def post_def Let_def split: if_splits)
  have "preview_inv (fail s1)" "alive (fail s1) \<Longrightarrow> inFlight (fail s1) = None"
    using fail_inv [OF \<open>has_worker s1\<close>] fail_recovered [OF _ \<open>has_worker s1\<close>] by auto
  with s1 drop_inFlight_inv show ?thesis by auto
qed

text \<open>Setting a full render as the queued work re-establishes what the queue owes.\<close>

lemma queue_full:
  "channel_ok s \<Longrightarrow> settled_ok (s\<lparr>queuedEdits := None, queuedFull := Some (sourceText s)\<rparr>)"
  by (simp add: preview_parts request_ok_def response_ok_def Let_def cong: request.case_cong response.case_cong)

lemma pump_restate_ok:
  assumes "settled_ok s"
  shows "settled_ok (pump_restate s)"
  using assms queue_full [of s] by (simp add: pump_restate_def settled_ok_def)

lemma pump_dead: "\<not> alive s \<Longrightarrow> \<not> alive (pump s)"
  by (auto simp: pump_def alive_def pump_send_def pump_restate_def post_def Let_def split: option.splits)

lemma pump_inv:
  assumes "alive s \<Longrightarrow> settled_ok s"
  shows "preview_inv (pump s)"
proof (cases "alive s \<and> inFlight s = None")
  case False
  show ?thesis
  proof (cases "alive s")
    case True
    with False have "pump s = s" and "inFlight s \<noteq> None" by (auto simp: pump_def)
    with True assms show ?thesis by (simp add: preview_inv_def progress_ok_def)
  next
    case False
    with pump_dead [OF False] show ?thesis by (simp add: preview_inv_def)
  qed
next
  case True
  let ?r = "pump_restate s"
  have r: "settled_ok ?r" "alive ?r" "inFlight ?r = None"
    using True assms pump_restate_ok [of s] by (simp_all add: alive_def pump_restate_def)
  have known: "workerGeneration ?r \<noteq> None" if "queuedFull ?r = None" "queuedEdits ?r \<noteq> None"
    using that by (simp add: pump_restate_def split: if_splits)
  have p: "pump s = pump_send ?r" using True by (simp add: pump_def alive_def)
  consider "queuedFull ?r = None" "queuedEdits ?r = None"
    | "queuedFull ?r \<noteq> None \<or> queuedEdits ?r \<noteq> None" "\<not> port_ok ?r"
    | t where "queuedFull ?r = Some t" "port_ok ?r"
    | q where "queuedFull ?r = None" "queuedEdits ?r = Some q" "port_ok ?r"
    by fastforce
  then show ?thesis
  proof cases
    case 1
    then show ?thesis using r p by (simp add: pump_send_def preview_inv_def progress_ok_def)
  next
    case 2
    then show ?thesis using pump_send_refused [OF r(1,2)] p by simp
  next
    case 3
    then show ?thesis using pump_send_full [OF r(1,2,3)] p by (simp add: preview_inv_def)
  next
    case 4
    then show ?thesis using pump_send_patch [OF r(1,2,3)] known p by (simp add: preview_inv_def)
  qed
qed

section \<open>Every event keeps the invariant\<close>

lemma update_settled:
  assumes "settled_ok s" "applyTextEdits (sourceText s) edits = Inr t"
    and "q = (case queuedEdits s of
      None \<Rightarrow> \<lparr>q_edits = [], q_baseChars = length (sourceText s), q_chars = length t\<rparr> | Some q \<Rightarrow> q)"
  shows "settled_ok (s\<lparr>sourceText := t, queuedEdits := Some (q\<lparr>q_edits := q_edits q @ edits, q_chars := length t\<rparr>)\<rparr>)"
    (is "settled_ok ?s")
proof -
  have "queue_ok ?s" using assms
    by (auto simp: settled_ok_def queue_ok_def Let_def applyTextEdits_append split: option.splits)
  with assms(1) show ?thesis
    by (simp add: settled_ok_def channel_ok_def exchange_ok_def generations_ok_def worker_ok_def shown_ok_def holds_believed_def
        request_ok_def response_ok_def cong: request.case_cong response.case_cong)
qed

lemma pv_update_inv [marks_inv]:
  assumes "preview_inv s" shows "preview_inv (pv_update edits s)"
proof (cases "pv_destroyed s \<or> workerTerminal s \<or> edits = [] \<or> (\<exists>e. applyTextEdits (sourceText s) edits = Inl e)")
  case True
  then show ?thesis using assms by (auto simp: pv_update_def)
next
  case False
  then obtain t where t: "applyTextEdits (sourceText s) edits = Inr t" by (meson sum.exhaust)
  define q where "q = (case queuedEdits s of
      None \<Rightarrow> \<lparr>q_edits = [], q_baseChars = length (sourceText s), q_chars = length t\<rparr> | Some q \<Rightarrow> q)"
  let ?s = "s\<lparr>sourceText := t, queuedEdits := Some (q\<lparr>q_edits := q_edits q @ edits, q_chars := length t\<rparr>)\<rparr>"
  have eq: "pv_update edits s = pump ?s" using False t by (simp add: pv_update_def q_def Let_def)
  have "settled_ok ?s" if "alive ?s"
    using that assms update_settled [OF _ t q_def] by (simp add: preview_inv_def alive_def)
  then show ?thesis unfolding eq by (rule pump_inv)
qed

lemma post_reset_queue:
  "(fst (post Reset False (s\<lparr>queuedEdits := a, queuedFull := b\<rparr>)))\<lparr>queuedEdits := c, queuedFull := d\<rparr> =
     (fst (post Reset False s))\<lparr>queuedEdits := c, queuedFull := d\<rparr>"
  by (simp add: post_def fail_def onWorkerTerminal_def onWorkerRecovery_def spawn_def detachAndTerminate_def clearDeadline_def
      terminal_node_def Let_def)

lemma settled_page:
  "settled_ok (s\<lparr>queuedEdits := a, queuedFull := Some t\<rparr>) \<Longrightarrow>
     settled_ok (s\<lparr>page := d, queuedEdits := a, queuedFull := Some t\<rparr>)"
  by (simp add: preview_parts request_ok_def response_ok_def cong: request.case_cong response.case_cong option.case_cong)

text \<open>The states the handlers hand to \<open>pump\<close>.\<close>

definition invalidated :: "js_text \<Rightarrow> preview \<Rightarrow> preview" where
  "invalidated t s =
     (let p = fst (post Reset False (s\<lparr>page := (page s)\<lparr>idle := None\<rparr>, sourceText := t, workerGeneration := None\<rparr>))
      in p\<lparr>page := (page p)\<lparr>nodes := [], children := []\<rparr>, queuedEdits := None, queuedFull := Some t\<rparr>)"

lemma invalidate_pump:
  "\<not> (pv_destroyed s \<or> workerTerminal s) \<Longrightarrow> invalidate t s = pump (invalidated t s)"
  by (simp add: invalidate_def invalidated_def Let_def)

lemma invalidated_settled:
  assumes "preview_inv s" "alive (invalidated t s)"
  shows "alive s" "settled_ok (invalidated t s)"
proof -
  let ?s = "s\<lparr>page := (page s)\<lparr>idle := None\<rparr>, sourceText := t, workerGeneration := None\<rparr>"
  let ?q = "?s\<lparr>queuedEdits := None, queuedFull := Some t\<rparr>"
  let ?r = "fst (post Reset False ?q)" and ?p = "fst (post Reset False ?s)"
  have same: "?r\<lparr>queuedEdits := None, queuedFull := Some t\<rparr> = ?p\<lparr>queuedEdits := None, queuedFull := Some t\<rparr>"
    by (rule post_reset_queue)
  have al: "alive ?r" using arg_cong [OF same, of alive] assms(2) by (simp add: alive_def invalidated_def Let_def)
  show "alive s" using al fail_alive [of ?q]
    by (auto simp: post_def alive_def Let_def split: if_splits)
  with assms(1) have "channel_ok s" by (simp add: preview_inv_def settled_ok_def)
  then have "channel_ok ?q"
    by (simp add: channel_ok_def exchange_ok_def generations_ok_def worker_ok_def shown_ok_def holds_believed_def
        request_ok_def response_ok_def cong: request.case_cong response.case_cong)
  from post_reset [OF this al] have "channel_ok ?r" "sourceText ?r = t" by auto
  with queue_full have "settled_ok (?r\<lparr>queuedEdits := None, queuedFull := Some t\<rparr>)" by metis
  then have "settled_ok (?p\<lparr>queuedEdits := None, queuedFull := Some t\<rparr>)" by (simp only: same)
  from settled_page [OF this, of "(page ?p)\<lparr>nodes := [], children := []\<rparr>"]
  show "settled_ok (invalidated t s)" by (simp add: invalidated_def Let_def)
qed

lemma invalidate_inv [marks_inv]:
  assumes "preview_inv s" shows "preview_inv (invalidate t s)"
proof (cases "pv_destroyed s \<or> workerTerminal s")
  case True
  then show ?thesis using assms by (simp add: invalidate_def)
next
  case False
  show ?thesis unfolding invalidate_pump [OF False]
    by (rule pump_inv) (rule invalidated_settled [OF assms])
qed

text \<open>A response that arrives is the one that is awaited, so it is never stale.\<close>

lemma deliver_current:
  assumes "channel_ok s" "from_worker s = r # rs"
  shows "rs = []" "inFlight s = Some (resp_seq r)" "\<forall>m \<in> set (to_worker s). m = Reset"
    "List.map_filter request_seq (to_worker s) = []"
proof -
  have x: "List.map_filter request_seq (to_worker s) @ resp_seq r # map resp_seq rs =
      (case inFlight s of None \<Rightarrow> [] | Some n \<Rightarrow> [n])"
    using assms by (simp add: channel_ok_def exchange_ok_def)
  then show "rs = []" "inFlight s = Some (resp_seq r)"
    and none: "List.map_filter request_seq (to_worker s) = []"
    by (auto simp: append_eq_Cons_conv split: option.splits)
  have "m = Reset" if "m \<in> set (to_worker s)" for m
    using none that by (cases m) (auto simp: List.map_filter_def filter_empty_conv)
  then show "\<forall>m \<in> set (to_worker s). m = Reset" by blast
qed

definition delivered :: "response \<Rightarrow> preview \<Rightarrow> preview" where
  "delivered r s =
     (let s = s\<lparr>from_worker := [], awaitingResponse := False, failuresWithoutResponse := 0, inFlight := None,
               workerGeneration := Some (resp_generation r)\<rparr>
      in case r of
           Rendered n g bs \<Rightarrow> s\<lparr>page := dom_patch (sanitizer s) bs (page s)\<rparr>
         | Resync_Response n g \<Rightarrow> s\<lparr>queuedEdits := None, queuedFull := Some (sourceText s)\<rparr>)"

definition after_delivery :: "response \<Rightarrow> preview \<Rightarrow> preview" where
  "after_delivery r s =
     (case r of Rendered n g bs \<Rightarrow> delivered r s | Resync_Response n g \<Rightarrow> fst (post Reset False (delivered r s)))"

lemma deliver_pump:
  assumes "channel_ok s" "from_worker s = r # rs" "alive s"
  shows "deliver_response s = pump (after_delivery r s)"
proof -
  have "has_worker s" using assms(1) by (simp add: channel_ok_def worker_ok_def)
  with assms deliver_current [OF assms(1,2)] show ?thesis
    by (cases r) (simp_all add: deliver_response_def onRendered_def clearDeadline_def alive_def after_delivery_def
        delivered_def Let_def)
qed

lemma delivered_settled:
  assumes "settled_ok s" "from_worker s = r # rs"
  shows "settled_ok (delivered r s)"
proof -
  have st: "queue_ok s" "channel_ok s" using assms(1) by (auto simp: settled_ok_def)
  note cur = deliver_current [OF st(2) assms(2)]
  have resets: "\<forall>m \<in> set (to_worker s). request_ok s' m" for s'
    using cur(3) by (auto simp: request_ok_def)
  show ?thesis
  proof (cases r)
    case (Rendered n g bs)
    have ans: "answer_to (rendering s) (believed s) bs"
      using st(2) assms(2) Rendered by (simp add: channel_ok_def worker_ok_def response_ok_def)
    show ?thesis
      using st assms(2) cur Rendered resets painted_patch [OF ans]
      by (simp add: delivered_def preview_parts response_ok_def cong: option.case_cong)
  next
    case (Resync_Response n g)
    then show ?thesis
      using st assms(2) cur resets
      by (simp add: delivered_def preview_parts response_ok_def cong: option.case_cong)
  qed
qed

lemma after_delivery_settled:
  assumes "settled_ok s" "from_worker s = r # rs" "alive (after_delivery r s)"
  shows "settled_ok (after_delivery r s)"
  using delivered_settled [OF assms(1,2)] assms(3) post_reset [of "delivered r s"]
  by (cases r) (auto simp: after_delivery_def settled_ok_def)

lemma deliver_response_inv [marks_inv]:
  assumes "preview_inv s" shows "preview_inv (deliver_response s)"
proof (cases "alive s \<and> from_worker s \<noteq> []")
  case False
  then show ?thesis using assms
    by (auto simp: deliver_response_def preview_inv_def alive_def onRendered_def clearDeadline_def Let_def
        split: list.splits)
next
  case True
  then obtain r rs where r: "from_worker s = r # rs" by (cases "from_worker s") auto
  from True assms have st: "settled_ok s" "channel_ok s" by (auto simp: preview_inv_def settled_ok_def)
  show ?thesis using True after_delivery_settled [OF st(1) r]
    by (simp add: deliver_pump [OF st(2) r] pump_inv)
qed

lemma recovery_settled:
  assumes "preview_inv s" "alive (fst (post Reset False (s\<lparr>recovery_microtasks := k\<rparr>)))"
  shows "alive s" "settled_ok (fst (post Reset False (s\<lparr>recovery_microtasks := k\<rparr>)))"
proof -
  let ?s = "s\<lparr>recovery_microtasks := k\<rparr>"
  show "alive s" using assms(2) fail_alive [of ?s]
    by (auto simp: post_def alive_def Let_def split: if_splits)
  with assms(1) have "settled_ok s" by (simp add: preview_inv_def)
  then have "channel_ok ?s" "queue_ok ?s"
    by (simp_all add: preview_parts request_ok_def response_ok_def
        cong: request.case_cong response.case_cong option.case_cong)
  with post_reset [OF _ assms(2)] show "settled_ok (fst (post Reset False ?s))" by (simp add: settled_ok_def)
qed

lemma recovery_microtask_inv [marks_inv]:
  assumes "preview_inv s" shows "preview_inv (recovery_microtask s)"
proof (cases "recovery_microtasks s = 0 \<or> pv_destroyed s \<or> workerTerminal s")
  case True
  then show ?thesis using assms by (auto simp: recovery_microtask_def preview_inv_def alive_def)
next
  case False
  then show ?thesis using recovery_settled [OF assms]
    by (simp add: recovery_microtask_def Let_def pump_inv)
qed

lemma cleared_text [simp]: "rc_lastText clearRenderCache = []"
  by (simp add: clearRenderCache_def)

lemma requestless:
  "List.map_filter request_seq ms = [] \<Longrightarrow> \<forall>m \<in> set ms. request_ok s m"
  "List.map_filter request_seq ms = [] \<Longrightarrow> Patch p \<notin> set ms"
  by (auto simp: List.map_filter_def filter_empty_conv request_ok_def split: request.splits)

lemma after_reset:
  "request_ok s m \<Longrightarrow> request_ok (s\<lparr>to_worker := ms, worker := clearRenderCache\<rparr>) m"
  "response_ok s r \<Longrightarrow> response_ok (s\<lparr>to_worker := ms, worker := clearRenderCache\<rparr>) r"
  by (simp_all add: request_ok_def response_ok_def holds_believed_def split: request.splits response.splits)

lemma render_pass_text: "render_pass parse renderer rs doc st = Inr (st', bs) \<Longrightarrow> rc_lastText st' = doc"
  by (auto simp: render_pass_def render_full_def renderIncremental_def Let_def split: if_splits option.splits prod.splits)

lemma render_answer_text: "rc_lastText (fst (render_answer parse renderer rs n doc st)) = doc"
  by (auto simp: render_answer_def split: sum.split dest: render_pass_text)

lemma accept_text_answers:
  "\<exists>w bs. answer_to (rendering s) doc bs \<and> rc_lastText w = doc
     \<and> accept_text n doc s = s\<lparr>worker := w, from_worker := from_worker s @ [Rendered n (worker_generation s) bs]\<rparr>"
proof -
  let ?a = "answer_text s n doc"
  have "answer_to (rendering s) doc (snd ?a)" unfolding answer_to_def answer_text_def by blast
  moreover have "rc_lastText (fst ?a) = doc" unfolding answer_text_def by (rule render_answer_text)
  ultimately show ?thesis by (intro exI [of _ "fst ?a"] exI [of _ "snd ?a"]) (simp add: accept_text_def Let_def split_def)
qed

lemma processMessage_answers:
  assumes "request_ok s m" "request_seq m = Some n" "from_worker s = []"
  shows "(\<exists>w bs. answer_to (rendering s) (believed s) bs \<and> rc_lastText w = believed s
         \<and> processMessage m s = s\<lparr>worker := w, from_worker := [Rendered n (worker_generation s) bs]\<rparr>)
       \<or> processMessage m s = s\<lparr>from_worker := [Resync_Response n (worker_generation s)]\<rparr>"
proof (cases m)
  case (Render k t)
  with assms have "t = believed s" "k = n" by (simp_all add: request_ok_def)
  with Render assms(3) accept_text_answers [of s "believed s" n] show ?thesis by (intro disjI1) (simp add: processMessage_def)
next
  case (Patch p)
  show ?thesis
  proof (cases "transitionPatch (lastText s) (Some (worker_generation s)) p")
    case (Applied t)
    then have "t = believed s" using assms(1) Patch by (simp add: request_ok_def)
    with Applied Patch assms(2,3) accept_text_answers [of s "believed s" n] show ?thesis by (intro disjI1) (simp add: processMessage_def)
  next
    case (Resync r)
    with transitionPatch_Resync [OF Resync] Patch assms(2,3) show ?thesis by (intro disjI2) (simp add: processMessage_def)
  qed
qed (use assms in simp)

lemma request_ok_channels: "request_ok (s\<lparr>to_worker := ms\<rparr>) m = request_ok s m"
  by (cases m) (simp_all add: request_ok_def)

lemma worker_takes_message_inv [marks_inv]:
  assumes "preview_inv s" shows "preview_inv (worker_takes_message s)"
proof (cases "alive s \<and> to_worker s \<noteq> []")
  case False
  then show ?thesis using assms
    by (auto simp: worker_takes_message_def processMessage_def accept_text_def Let_def split_def preview_inv_def alive_def
        split: list.splits request.splits patch_transition.splits)
next
  case True
  then obtain m ms where m: "to_worker s = m # ms" by (cases "to_worker s") auto
  from True assms have st: "queue_ok s" "channel_ok s" "progress_ok s"
    by (auto simp: preview_inv_def settled_ok_def)
  have w: "has_worker s" using st(2) by (simp add: channel_ok_def worker_ok_def)
  have eq: "worker_takes_message s = processMessage m (s\<lparr>to_worker := ms\<rparr>)"
    using w m by (simp add: worker_takes_message_def)
  show ?thesis
  proof (cases "request_seq m")
    case None
    then have [simp]: "m = Reset" by (cases m) auto
    have "queue_ok (s\<lparr>to_worker := ms, worker := clearRenderCache\<rparr>)" "progress_ok (s\<lparr>to_worker := ms, worker := clearRenderCache\<rparr>)"
      using st by (simp_all add: queue_ok_def progress_ok_def cong: option.case_cong)
    moreover have "channel_ok (s\<lparr>to_worker := ms, worker := clearRenderCache\<rparr>)"
      using st(2) m after_reset [of s _ ms]
      by (simp add: preview_parts map_filter_simps cong: option.case_cong)
    ultimately show ?thesis
      by (simp add: eq processMessage_def preview_inv_def settled_ok_def)
  next
    case (Some n)
    have "List.map_filter request_seq ms = [] \<and> from_worker s = [] \<and> inFlight s = Some n"
      using st(2) m Some
      by (auto simp: channel_ok_def exchange_ok_def map_filter_simps Cons_eq_append_conv split: option.splits)
    then have ex: "List.map_filter request_seq ms = []" "from_worker s = []" "inFlight s = Some n" by auto
    have "request_ok s m" using st(2) m by (simp add: channel_ok_def worker_ok_def)
    then consider w bs where "answer_to (rendering s) (believed s) bs" "rc_lastText w = believed s"
        "processMessage m (s\<lparr>to_worker := ms\<rparr>) = s\<lparr>to_worker := ms, worker := w,
          from_worker := [Rendered n (worker_generation s) bs]\<rparr>"
      | "processMessage m (s\<lparr>to_worker := ms\<rparr>) = s\<lparr>to_worker := ms,
          from_worker := [Resync_Response n (worker_generation s)]\<rparr>"
      using processMessage_answers [of "s\<lparr>to_worker := ms\<rparr>" m n] Some ex(2)
      by (auto simp: request_ok_channels)
    then show ?thesis
    proof cases
      case 1
      show ?thesis unfolding eq 1(3) using st m ex 1(1,2) requestless [OF ex(1)]
        by (simp add: preview_inv_def preview_parts response_ok_def cong: option.case_cong)
    next
      case 2
      show ?thesis unfolding eq 2 using st m ex requestless [OF ex(1)]
        by (simp add: preview_inv_def preview_parts response_ok_def cong: option.case_cong)
    qed
  qed
qed

lemma module_restart_inv [marks_inv]:
  assumes "preview_inv s" shows "preview_inv (module_restart s)"
proof (cases "alive s \<and> has_worker s")
  case False
  then show ?thesis using assms
    by (auto simp: module_restart_def preview_inv_def alive_def settled_ok_def channel_ok_def worker_ok_def)
next
  case True
  let ?s = "s\<lparr>worker := clearRenderCache, worker_generation := next_generation s, next_generation := next_generation s + 1\<rparr>"
  from True assms have st: "queue_ok s" "channel_ok s" "progress_ok s"
    by (auto simp: preview_inv_def settled_ok_def)
  have gen: "generations_ok s" using st(2) by (simp add: channel_ok_def)
  have "request_ok ?s m" if "m \<in> set (to_worker s)" for m
  proof (cases m)
    case (Patch p)
    with gen that have "patch_generation p \<noteq> Some (next_generation s)" by (auto simp: generations_ok_def)
    with Patch show ?thesis by (simp add: request_ok_def transitionPatch_Applied_iff)
  next
    case (Render n t)
    with st(2) that show ?thesis by (auto simp: channel_ok_def worker_ok_def request_ok_def)
  qed (simp add: request_ok_def)
  moreover have "response_ok ?s r" if "r \<in> set (from_worker s)" for r
    using st(2) that by (cases r) (auto simp: channel_ok_def worker_ok_def response_ok_def holds_believed_def)
  moreover have "generations_ok ?s" using gen by (auto simp: generations_ok_def less_Suc_eq)
  ultimately show ?thesis
    using True st gen
    by (simp add: module_restart_def preview_inv_def settled_ok_def channel_ok_def exchange_ok_def queue_ok_def
        worker_ok_def shown_ok_def progress_ok_def holds_believed_def cong: option.case_cong)
qed

lemma run_terminal_microtask_inv [marks_inv]:
  "preview_inv s \<Longrightarrow> terminal_microtask s \<longrightarrow> stopped s \<Longrightarrow> preview_inv (run_terminal_microtask s)"
  by (auto simp: run_terminal_microtask_def onWorkerTerminal_def preview_inv_def alive_def)

lemma environment_inv [marks_inv]: "preview_inv s \<Longrightarrow> preview_inv (s\<lparr>port_ok := p, spawn_ok := q\<rparr>)"
  by (simp add: preview_inv_def alive_def preview_parts request_ok_def response_ok_def
      cong: request.case_cong response.case_cong option.case_cong)

lemma pv_destroy_inv [marks_inv]: "preview_inv (pv_destroy s)"
  by (simp add: pv_destroy_def preview_inv_def alive_def detachAndTerminate_def clearDeadline_def Let_def)

lemma idle_paint_inv [marks_inv]: "preview_inv s \<Longrightarrow> preview_inv (idle_paint s)"
  by (simp add: idle_paint_def preview_inv_def alive_def preview_parts request_ok_def response_ok_def painted_idle
      cong: request.case_cong response.case_cong option.case_cong)

text \<open>The start-up failure is reported by a supervisor that has already stopped.\<close>

definition supervisor_ok :: "preview \<Rightarrow> bool" where
  "supervisor_ok s \<longleftrightarrow> (terminal_microtask s \<longrightarrow> stopped s) \<and> (stopped s \<or> has_worker s)
     \<and> failuresWithoutResponse s \<le> MAX_RECOVERIES + 1
     \<and> (\<not> stopped s \<longrightarrow> failuresWithoutResponse s \<le> MAX_RECOVERIES)"

lemma supervisor_ok_fail: "supervisor_ok s \<Longrightarrow> supervisor_ok (fail s)"
  by (auto simp: supervisor_ok_def fail_def onWorkerTerminal_def onWorkerRecovery_def spawn_def
      detachAndTerminate_def clearDeadline_def MAX_RECOVERIES_def Let_def)

lemma supervisor_ok_frame [simp]:
  "supervisor_ok (s\<lparr>seq := v0\<rparr>) = supervisor_ok s"
  "supervisor_ok (s\<lparr>inFlight := v1\<rparr>) = supervisor_ok s"
  "supervisor_ok (s\<lparr>queuedFull := v2\<rparr>) = supervisor_ok s"
  "supervisor_ok (s\<lparr>queuedEdits := v3\<rparr>) = supervisor_ok s"
  "supervisor_ok (s\<lparr>sourceText := v4\<rparr>) = supervisor_ok s"
  "supervisor_ok (s\<lparr>workerGeneration := v5\<rparr>) = supervisor_ok s"
  "supervisor_ok (s\<lparr>recovery_microtasks := v6\<rparr>) = supervisor_ok s"
  "supervisor_ok (s\<lparr>awaitingResponse := v7\<rparr>) = supervisor_ok s"
  "supervisor_ok (s\<lparr>worker := v8\<rparr>) = supervisor_ok s"
  "supervisor_ok (s\<lparr>worker_generation := v9\<rparr>) = supervisor_ok s"
  "supervisor_ok (s\<lparr>next_generation := v10\<rparr>) = supervisor_ok s"
  "supervisor_ok (s\<lparr>to_worker := v11\<rparr>) = supervisor_ok s"
  "supervisor_ok (s\<lparr>from_worker := v12\<rparr>) = supervisor_ok s"
  "supervisor_ok (s\<lparr>port_ok := v13\<rparr>) = supervisor_ok s"
  "supervisor_ok (s\<lparr>spawn_ok := v14\<rparr>) = supervisor_ok s"
  "supervisor_ok (s\<lparr>believed := v15\<rparr>) = supervisor_ok s"
  "supervisor_ok (s\<lparr>page := v16\<rparr>) = supervisor_ok s"
  by (simp_all add: supervisor_ok_def)

lemma supervisor_ok_post: "supervisor_ok s \<Longrightarrow> supervisor_ok (fst (post m b s))"
  using supervisor_ok_fail [of s] by (simp add: post_def armDeadline_def clearDeadline_def Let_def)

lemma supervisor_ok_pump: "supervisor_ok s \<Longrightarrow> supervisor_ok (pump s)"
proof -
  have send: "supervisor_ok (pump_send r)" if "supervisor_ok r" for r :: "preview"
    using that by (cases "queuedFull r"; cases "queuedEdits r")
      (simp_all add: pump_send_def Let_def split_def supervisor_ok_post)
  assume "supervisor_ok s"
  then have "supervisor_ok (pump_restate s)" by (simp add: pump_restate_def)
  with send \<open>supervisor_ok s\<close> show ?thesis by (simp add: pump_def)
qed

lemma supervisor_ok_onRendered: "supervisor_ok s \<Longrightarrow> supervisor_ok (onRendered r s)"
  by (auto simp: onRendered_def Let_def intro!: supervisor_ok_pump supervisor_ok_post split: response.splits)

lemma supervisor_ok_deliver: "supervisor_ok s \<Longrightarrow> supervisor_ok (deliver_response s)"
proof (cases "from_worker s")
  case (Cons r rs)
  assume "supervisor_ok s"
  then have "supervisor_ok ((clearDeadline (s\<lparr>from_worker := rs\<rparr>))\<lparr>failuresWithoutResponse := 0\<rparr>)"
    by (simp add: supervisor_ok_def clearDeadline_def)
  with \<open>supervisor_ok s\<close> Cons show ?thesis by (simp add: deliver_response_def supervisor_ok_onRendered)
qed (simp add: deliver_response_def)

lemma supervisor_ok_step: "supervisor_ok s \<Longrightarrow> supervisor_ok (preview_step s e)"
proof (cases e)
  case Client_Takes_Response
  assume "supervisor_ok s"
  with Client_Takes_Response show ?thesis by (simp add: preview_step_def supervisor_ok_deliver)
next
  case Worker_Takes_Message
  assume "supervisor_ok s"
  with Worker_Takes_Message show ?thesis
    by (auto simp: preview_step_def worker_takes_message_def processMessage_def accept_text_def Let_def split_def
        split: list.splits request.splits patch_transition.splits)
next
  case Terminal_Microtask
  assume "supervisor_ok s"
  with Terminal_Microtask show ?thesis
    by (simp add: preview_step_def run_terminal_microtask_def onWorkerTerminal_def supervisor_ok_def)
next
  case Destroy
  assume "supervisor_ok s"
  with Destroy show ?thesis
    by (auto simp: preview_step_def pv_destroy_def detachAndTerminate_def clearDeadline_def supervisor_ok_def Let_def)
qed (auto simp: preview_step_def pv_update_def invalidate_def module_restart_def recovery_microtask_def idle_paint_def
      supervisor_ok_pump supervisor_ok_post supervisor_ok_fail Let_def split: sum.splits)

section \<open>Results\<close>

definition preview_ok :: "preview \<Rightarrow> bool" where
  "preview_ok s \<longleftrightarrow> preview_inv s \<and> supervisor_ok s"

lemma preview_step_inv: "preview_ok s \<Longrightarrow> preview_inv (preview_step s e)"
proof (cases e)
  case Worker_Error
  assume "preview_ok s"
  with Worker_Error fail_inv [of s] show ?thesis
    by (cases "has_worker s") (auto simp: preview_step_def preview_ok_def, simp add: fail_def)
next
  case Deadline
  assume "preview_ok s"
  with Deadline fail_inv [of s] show ?thesis
    by (cases "has_worker s") (auto simp: preview_step_def preview_ok_def, simp add: fail_def)
qed (auto simp: preview_step_def preview_ok_def supervisor_ok_def marks_inv)

lemma painted_empty [simp]: "painted R [] dom_empty"
  by (simp add: painted_def)

lemma new_preview_ok: "preview_ok (new_preview R a b)"
  by (simp add: preview_ok_def new_preview_def preview_inv_def alive_def preview_parts supervisor_ok_def
      spawn_def map_filter_simps Let_def)

interpretation preview: event_machine preview_start preview_step preview_ok
proof unfold_locales
  show "preview_ok s" if "preview_start s" for s :: "preview"
    using that new_preview_ok by (auto simp: preview_start_def)
  show "preview_ok (preview_step s e)" if "preview_ok s" for s :: "preview" and e
    using that preview_step_inv [OF that] supervisor_ok_step [of s e] by (simp add: preview_ok_def)
qed

text \<open>Nothing in flight and no recovery pending: the client considers the preview up to date.\<close>

definition up_to_date :: "preview \<Rightarrow> bool" where
  "up_to_date s \<longleftrightarrow> inFlight s = None \<and> recovery_microtasks s = 0"

lemma up_to_date_shows:
  "preview_ok s \<Longrightarrow> alive s \<Longrightarrow> up_to_date s \<Longrightarrow>
     painted (rendering s) (sourceText s) (page s) \<and> queuedFull s = None \<and> queuedEdits s = None"
  by (auto simp: preview_ok_def preview_inv_def up_to_date_def preview_parts)

subsection \<open>Settling\<close>

text \<open>
  A schedule with no further failures: pending recoveries first, then the worker's inbox, then
  the client's. \<open>debt\<close> counts the requests that may still have to be made.
\<close>

definition settle_event :: "preview \<Rightarrow> preview_event" where
  "settle_event s =
     (if recovery_microtasks s > 0 then Recovery_Microtask
      else if to_worker s \<noteq> [] then Worker_Takes_Message
      else Client_Takes_Response)"

fun settle :: "nat \<Rightarrow> preview \<Rightarrow> preview" where
  "settle 0 s = s"
| "settle (Suc n) s = (if up_to_date s then s else settle n (preview_step s (settle_event s)))"

fun is_patch :: "request \<Rightarrow> bool" where
  "is_patch (Patch p) = True" | "is_patch _ = False"

fun is_resync :: "response \<Rightarrow> bool" where
  "is_resync (Resync_Response n g) = True" | "is_resync _ = False"

definition debt :: "preview \<Rightarrow> nat" where
  "debt s = length (filter is_resync (from_worker s)) + length (filter is_patch (to_worker s))
     + (if queuedFull s = None then 0 else 1) + (if queuedEdits s = None then 0 else 2)"

definition settle_rank :: "preview \<Rightarrow> nat \<times> nat \<times> nat" where
  "settle_rank s = (recovery_microtasks s, debt s, 2 * length (to_worker s) + length (from_worker s))"

definition kept :: "preview \<Rightarrow> preview \<Rightarrow> bool" where
  "kept s t \<longleftrightarrow> alive t \<and> port_ok t \<and> sourceText t = sourceText s"

lemma pump_settles:
  assumes "settled_ok s" "alive s" "port_ok s" "inFlight s = None"
  shows "kept s (pump s) \<and> recovery_microtasks (pump s) = recovery_microtasks s
    \<and> (pump s = s \<and> queuedFull s = None \<or> debt (pump s) < debt s)"
proof -
  have w: "has_worker s" using assms by (simp add: settled_ok_def channel_ok_def worker_ok_def)
  have resets: "filter is_patch (to_worker s) = []" "from_worker s = []"
    using idle_channels [OF assms(1,4)] by (auto simp: filter_empty_conv)
  show ?thesis
    using assms w resets
    by (cases "queuedFull s"; cases "queuedEdits s"; cases "workerGeneration s")
      (simp_all add: kept_def pump_def pump_restate_def pump_send_def post_def armDeadline_def clearDeadline_def
        alive_def debt_def)
qed

lemma settle_recovery:
  assumes "preview_ok s" "alive s" "port_ok s" "recovery_microtasks s > 0"
  shows "kept s (recovery_microtask s) \<and> recovery_microtasks (recovery_microtask s) < recovery_microtasks s"
proof -
  let ?s = "s\<lparr>recovery_microtasks := recovery_microtasks s - 1\<rparr>"
  let ?r = "fst (post Reset False ?s)"
  have w: "has_worker s" and st: "settled_ok s"
    using assms by (auto simp: preview_ok_def preview_inv_def settled_ok_def channel_ok_def worker_ok_def)
  have r: "?r = ?s\<lparr>to_worker := to_worker s @ [Reset]\<rparr>"
    using assms w by (simp add: post_def alive_def Let_def)
  have "settled_ok ?s" using st
    by (simp add: preview_parts request_ok_def response_ok_def
          cong: request.case_cong response.case_cong option.case_cong)
  then have "settled_ok ?r"
    using post_reset [of ?s] r assms by (simp add: settled_ok_def alive_def)
  moreover have eq: "recovery_microtask s = pump ?r"
    using assms by (simp add: recovery_microtask_def alive_def Let_def)
  moreover have "alive ?r" "port_ok ?r" "recovery_microtasks ?r < recovery_microtasks s" "sourceText ?r = sourceText s"
    using assms r by (simp_all add: alive_def)
  ultimately show ?thesis
    using pump_settles [of ?r] by (cases "inFlight ?r") (auto simp: kept_def pump_def)
qed

lemma settle_worker:
  assumes "preview_ok s" "alive s" "port_ok s" "to_worker s \<noteq> []"
  shows "kept s (worker_takes_message s) \<and> recovery_microtasks (worker_takes_message s) = recovery_microtasks s
    \<and> debt (worker_takes_message s) \<le> debt s
    \<and> 2 * length (to_worker (worker_takes_message s)) + length (from_worker (worker_takes_message s))
       < 2 * length (to_worker s) + length (from_worker s)"
proof -
  obtain m ms where m: "to_worker s = m # ms" using assms(4) by (cases "to_worker s") auto
  have "has_worker s"
    using assms by (auto simp: preview_ok_def preview_inv_def settled_ok_def channel_ok_def worker_ok_def)
  then have "worker_takes_message s = processMessage m (s\<lparr>to_worker := ms\<rparr>)"
    using m by (simp add: worker_takes_message_def)
  with m assms show ?thesis
    by (cases m) (auto simp: processMessage_def accept_text_def Let_def split_def kept_def alive_def debt_def split: patch_transition.splits)
qed

lemma settle_client:
  assumes "preview_ok s" "alive s" "port_ok s" "to_worker s = []" "inFlight s \<noteq> None"
  shows "kept s (deliver_response s) \<and> recovery_microtasks (deliver_response s) = recovery_microtasks s
    \<and> (debt (deliver_response s) < debt s \<or> debt (deliver_response s) \<le> debt s \<and>
        2 * length (to_worker (deliver_response s)) + length (from_worker (deliver_response s))
       < 2 * length (to_worker s) + length (from_worker s))"
proof -
  have st: "queue_ok s" "channel_ok s" and w: "has_worker s"
    using assms by (auto simp: preview_ok_def preview_inv_def settled_ok_def channel_ok_def worker_ok_def)
  obtain r rs where r: "from_worker s = r # rs"
    using st(2) assms(4,5) by (cases "from_worker s") (auto simp: channel_ok_def exchange_ok_def map_filter_simps)
  note cur = deliver_current [OF st(2) r]
  let ?s = "s\<lparr>from_worker := [], awaitingResponse := False, failuresWithoutResponse := 0, inFlight := None,
     workerGeneration := Some (resp_generation r)\<rparr>"
  have d: "deliver_response s = onRendered r (s\<lparr>from_worker := [], awaitingResponse := False, failuresWithoutResponse := 0\<rparr>)"
    using assms w r cur(1) by (simp add: deliver_response_def clearDeadline_def alive_def)
  show ?thesis
  proof (cases r)
    case (Rendered n g bs)
    let ?q = "?s\<lparr>page := dom_patch (sanitizer s) bs (page s)\<rparr>"
    have eq: "deliver_response s = pump ?q"
      using assms cur(2) Rendered by (simp add: d onRendered_def alive_def)
    have "settled_ok ?q"
      using st r cur Rendered assms(4) painted_patch [of "rendering s" "believed s" bs "page s"]
      by (simp add: preview_parts response_ok_def cong: option.case_cong)
    from pump_settles [OF this] have k: "kept s (pump ?q)" "recovery_microtasks (pump ?q) = recovery_microtasks s"
        "pump ?q = ?q \<or> debt (pump ?q) < debt ?q"
      using assms by (auto simp: kept_def alive_def)
    have "debt ?q = debt s" using r cur(1) Rendered by (simp add: debt_def)
    moreover have "length (from_worker ?q) < length (from_worker s)" "to_worker ?q = to_worker s" using r by simp_all
    ultimately show ?thesis unfolding eq using k by (metis add_le_cancel_left linorder_not_le order_refl)
  next
    case (Resync_Response n g)
    let ?q = "?s\<lparr>queuedEdits := None, queuedFull := Some (sourceText s)\<rparr>"
    let ?p = "?q\<lparr>to_worker := [Reset]\<rparr>"
    have "post Reset False ?q = (?p, True)"
      using assms w by (simp add: post_def alive_def)
    then have eq: "deliver_response s = pump ?p"
      using assms cur(2) Resync_Response by (simp add: d onRendered_def alive_def)
    have "settled_ok ?p"
      using st r cur Resync_Response assms(4)
      by (simp add: preview_parts response_ok_def request_ok_def map_filter_simps cong: option.case_cong)
    from pump_settles [OF this] have "kept s (pump ?p)" "recovery_microtasks (pump ?p) = recovery_microtasks s"
        "debt (pump ?p) < debt ?p"
      using assms by (auto simp: kept_def alive_def)
    moreover have "debt ?p \<le> debt s" using r Resync_Response by (simp add: debt_def)
    ultimately show ?thesis unfolding eq by auto
  qed
qed

lemma settle_step:
  assumes "preview_ok s" "alive s" "port_ok s" "\<not> up_to_date s"
  shows "kept s (preview_step s (settle_event s))
    \<and> (settle_rank (preview_step s (settle_event s)), settle_rank s) \<in> less_than <*lex*> less_than <*lex*> less_than"
  using settle_recovery [OF assms(1-3)] settle_worker [OF assms(1-3)] settle_client [OF assms(1-3)] assms(4)
  by (auto simp: settle_event_def preview_step_def settle_rank_def up_to_date_def)

lemma settle_reaches:
  "preview_ok s \<Longrightarrow> alive s \<Longrightarrow> port_ok s \<Longrightarrow> \<exists>n. up_to_date (settle n s) \<and> kept s (settle n s) \<and> preview_ok (settle n s)"
proof (induction "settle_rank s" arbitrary: s
    rule: wf_induct_rule [OF wf_lex_prod [OF wf_less_than wf_lex_prod [OF wf_less_than wf_less_than]]])
  case 1
  show ?case
  proof (cases "up_to_date s")
    case True
    with "1.prems" show ?thesis by (intro exI [of _ 0]) (simp add: kept_def)
  next
    case False
    note step = settle_step [OF "1.prems" False]
    have ok: "preview_ok (preview_step s (settle_event s))" by (rule preview.step_inv [OF "1.prems"(1)])
    from step ok obtain n where "up_to_date (settle n (preview_step s (settle_event s)))"
        "kept (preview_step s (settle_event s)) (settle n (preview_step s (settle_event s)))"
        "preview_ok (settle n (preview_step s (settle_event s)))"
      using "1.hyps" [of "preview_step s (settle_event s)"] by (auto simp: kept_def)
    with step False show ?thesis by (intro exI [of _ "Suc n"]) (simp add: kept_def)
  qed
qed

end
