(* ===== verification/Preview_Page.thy ===== *)
theory Preview_Page
  imports Preview_Sync
begin

text \<open>
  What the preview's page shows once it is up to date. \<open>Preview_Sync\<close> follows the texts through the
  queues; here the worker's block cache and the page are followed with them: when the worker leaves
  the HTML of a block out, the page the response will be patched into holds it.

  Two paths of the code break that, and are the exceptions the property names: a render that throws
  (\<open>markdown.worker.ts\<close>, \<open>processMessage\<close>) and a response that an empty page paints in parts
  (\<open>preview.ts\<close>, \<open>scheduleRemainder\<close>); \<open>Preview_Dom\<close> has a run of each.
\<close>

section \<open>Runs without the two exceptions\<close>

text \<open>The text a message makes the worker render, if it accepts it.\<close>

definition accepted :: "preview \<Rightarrow> request \<Rightarrow> (nat \<times> js_text) option" where
  "accepted s m =
     (case m of
        Reset \<Rightarrow> None
      | Render n t \<Rightarrow> Some (n, t)
      | Patch p \<Rightarrow> (case transitionPatch (lastText s) (Some (worker_generation s)) p of
                     Resync r \<Rightarrow> None | Applied t \<Rightarrow> Some (patch_seq p, t)))"

definition render_of :: "preview \<Rightarrow> js_text \<Rightarrow> render_cache + render_cache \<times> block_patch list" where
  "render_of s doc = render_pass (md_parse (rendering s)) (md_render (rendering s)) (md_source (rendering s)) doc (worker s)"

definition throws :: "preview \<Rightarrow> request \<Rightarrow> bool" where
  "throws s m \<longleftrightarrow> (case accepted s m of None \<Rightarrow> False
     | Some (n, t) \<Rightarrow> (case render_of s t of Inl _ \<Rightarrow> True | Inr _ \<Rightarrow> False))"

definition plain_step :: "preview \<Rightarrow> preview_event \<Rightarrow> bool" where
  "plain_step s e \<longleftrightarrow>
     (case e of
        Worker_Takes_Message \<Rightarrow> (case to_worker s of [] \<Rightarrow> True | m # _ \<Rightarrow> \<not> throws s m)
      | Client_Takes_Response \<Rightarrow>
          (case from_worker s of
             Rendered n g bs # _ \<Rightarrow> nodes (page s) \<noteq> [] \<or> length bs \<le> FIRST_PAINT_BLOCKS
           | _ \<Rightarrow> True)
      | _ \<Rightarrow> True)"

fun whole :: "preview \<Rightarrow> preview_event list \<Rightarrow> bool" where
  "whole s [] = True"
| "whole s (e # es) \<longleftrightarrow> plain_step s e \<and> whole (preview_step s e) es"

section \<open>The page and the worker's cache\<close>

text \<open>
  The page is the rendering of a text: a pass over the text, from some state of the cache, gave
  these blocks, they are the page's children in order, and each shows the sanitised HTML the
  renderer made for a block of its hash.
\<close>

definition shows_text :: "rendering \<Rightarrow> js_text \<Rightarrow> dom \<Rightarrow> bool" where
  "shows_text R doc d \<longleftrightarrow> doc = [] \<and> d = dom_empty
     \<or> (\<exists>st st' bs. render_pass (md_parse R) (md_render R) (md_source R) doc st = Inr (st', bs)
         \<and> page_shows (md_sanitize R) (cache st') bs d \<and> cache_made (md_render R) (md_source R) (cache st'))"

text \<open>
  Either a \<open>reset\<close> is on its way to the worker, or the page holds what the worker will leave out
  once the response in transit is patched in.
\<close>

definition next_page :: "preview \<Rightarrow> dom" where
  "next_page s = (case from_worker s of Rendered n g bs # _ \<Rightarrow> full_patch (sanitizer s) bs (page s) | _ \<Rightarrow> page s)"

definition agrees :: "preview \<Rightarrow> dom \<Rightarrow> bool" where
  "agrees s d \<longleftrightarrow> in_sync (sanitizer s) (worker s) d"

definition page_inv :: "preview \<Rightarrow> bool" where
  "page_inv s \<longleftrightarrow> dom_ok (page s) \<and> idle (page s) = None
     \<and> cache_made (md_render (rendering s)) (md_source (rendering s)) (cache (worker s))
     \<and> (\<forall>n g bs. Rendered n g bs \<in> set (from_worker s) \<longrightarrow> distinct (map bp_key bs))"

definition sync_next :: "preview \<Rightarrow> bool" where
  "sync_next s \<longleftrightarrow> Reset \<in> set (to_worker s) \<or> agrees s (next_page s)"

definition sync_head :: "preview \<Rightarrow> bool" where
  "sync_head s \<longleftrightarrow> (queuedFull s = None \<longrightarrow> from_worker s = [] \<longrightarrow>
     (\<exists>ms. to_worker s = Reset # ms) \<or> agrees s (page s))"

definition pending_shows :: "preview \<Rightarrow> bool" where
  "pending_shows s \<longleftrightarrow> (queuedFull s = None \<longrightarrow> (\<forall>n g bs. from_worker s = [Rendered n g bs] \<longrightarrow>
     shows_text (rendering s) (believed s) (full_patch (sanitizer s) bs (page s))))"

definition page_settled :: "preview \<Rightarrow> bool" where
  "page_settled s \<longleftrightarrow> (inFlight s = None \<longrightarrow> queuedFull s = None \<longrightarrow> shows_text (rendering s) (believed s) (page s))"

definition sync_ok :: "preview \<Rightarrow> bool" where
  "sync_ok s \<longleftrightarrow> page_inv s \<and> sync_next s \<and> sync_head s \<and> pending_shows s \<and> page_settled s"

definition sync_inv :: "preview \<Rightarrow> bool" where
  "sync_inv s \<longleftrightarrow> (alive s \<longrightarrow> sync_ok s)"

lemmas sync_parts = sync_ok_def page_inv_def sync_next_def sync_head_def pending_shows_def page_settled_def
  agrees_def next_page_def

text \<open>It does not depend on the fields of the exchange that \<open>Preview_Sync\<close> looks after.\<close>

lemma sync_ok_frame [simp]:
  "sync_ok (s\<lparr>seq := v0\<rparr>) = sync_ok s"
  "sync_ok (s\<lparr>queuedEdits := v3\<rparr>) = sync_ok s"
  "sync_ok (s\<lparr>sourceText := v4\<rparr>) = sync_ok s"
  "sync_ok (s\<lparr>workerGeneration := v5\<rparr>) = sync_ok s"
  "sync_ok (s\<lparr>recovery_microtasks := v6\<rparr>) = sync_ok s"
  "sync_ok (s\<lparr>awaitingResponse := v7\<rparr>) = sync_ok s"
  "sync_ok (s\<lparr>failuresWithoutResponse := v8\<rparr>) = sync_ok s"
  "sync_ok (s\<lparr>worker_generation := v9\<rparr>) = sync_ok s"
  "sync_ok (s\<lparr>next_generation := v10\<rparr>) = sync_ok s"
  "sync_ok (s\<lparr>port_ok := v13\<rparr>) = sync_ok s"
  "sync_ok (s\<lparr>spawn_ok := v14\<rparr>) = sync_ok s"
  "sync_ok (s\<lparr>terminal_microtask := v15\<rparr>) = sync_ok s"
  by (simp_all add: sync_parts cong: list.case_cong response.case_cong)

lemma agrees_cleared: "dom_ok d \<Longrightarrow> in_sync sanitize clearRenderCache d"
  by (simp add: in_sync_def clearRenderCache_def)

lemma cleared_cache [simp]: "cache clearRenderCache = []"
  by (simp add: clearRenderCache_def)

text \<open>A fresh worker thinks the page empty, so any page will do.\<close>

lemma sync_fresh:
  "dom_ok (page s) \<Longrightarrow> idle (page s) = None \<Longrightarrow> worker s = clearRenderCache \<Longrightarrow> from_worker s = [] \<Longrightarrow>
     queuedFull s = Some t \<Longrightarrow> sync_ok s"
  by (simp add: sync_parts agrees_cleared)

lemma fail_fresh:
  assumes "alive (fail s)" "has_worker s"
  shows "page (fail s) = page s \<and> worker (fail s) = clearRenderCache \<and> from_worker (fail s) = []
    \<and> queuedFull (fail s) = Some (sourceText s)"
  using assms by (auto simp: fail_def alive_def onWorkerTerminal_def onWorkerRecovery_def spawn_def
      detachAndTerminate_def clearDeadline_def Let_def split: if_splits)

lemma fail_sync:
  "sync_inv s \<Longrightarrow> sync_inv (fail s)"
proof (cases "has_worker s \<and> alive (fail s)")
  case True
  assume "sync_inv s"
  with True fail_alive have "page_inv s" by (auto simp: sync_inv_def sync_ok_def)
  with True fail_fresh [of s] show ?thesis
    by (simp add: sync_inv_def) (metis page_inv_def sync_fresh)
next
  case False
  assume "sync_inv s"
  with False show ?thesis by (cases "has_worker s") (simp_all add: sync_inv_def fail_def)
qed

lemma post_sync:
  assumes "sync_ok s" "alive (fst (post Reset False s))" "has_worker s"
  shows "sync_ok (fst (post Reset False s))"
proof (cases "port_ok s")
  case True
  have "\<exists>ns. ms @ [Reset] = Reset # ns" if "ms = Reset # ms'" for ms ms' using that by simp
  with assms True show ?thesis
    by (cases "stopped s"; cases "from_worker s"; cases "to_worker s")
      (auto simp: post_def alive_def sync_parts Let_def)
next
  case False
  with assms have eq: "fst (post Reset False s) = fail s" by (simp add: post_def alive_def split: if_splits)
  with assms fail_fresh [of s] have "alive s" by (simp add: fail_alive)
  with assms(1) fail_sync [of s] assms(2) show ?thesis by (simp add: eq sync_inv_def)
qed

section \<open>Every plain step keeps it\<close>

lemma only_resets: "\<forall>m \<in> set ms. m = Reset \<Longrightarrow> Reset \<in> set ms \<Longrightarrow> \<exists>ns. ms = Reset # ns"
  by (cases ms) auto

text \<open>A request that is sent finds an idle channel.\<close>

lemma sent_sync:
  assumes "sync_ok s" "\<forall>m \<in> set (to_worker s). m = Reset" "from_worker s = []" "alive s" "has_worker s"
    and "s' = s\<lparr>seq := k, inFlight := Some k, queuedFull := None, queuedEdits := e, believed := t\<rparr>"
    and "alive (fst (post m True s'))" "m \<noteq> Reset"
  shows "sync_ok (fst (post m True s'))"
proof (cases "port_ok s")
  case True
  have "(\<exists>ns. to_worker s = Reset # ns) \<or> agrees s (page s)"
    using assms(1,3) only_resets [OF assms(2)] by (auto simp: sync_ok_def sync_next_def next_page_def)
  with assms True show ?thesis
    by (auto simp: post_def alive_def sync_parts armDeadline_def clearDeadline_def Let_def)
next
  case False
  have eq: "fst (post m True s') = fail s'" using assms False by (simp add: post_def alive_def)
  have "page_inv s" using assms(1) by (simp add: sync_ok_def)
  with fail_fresh [of s'] assms show ?thesis
    unfolding eq by (intro sync_fresh [of _ "sourceText s'"]) (simp_all add: page_inv_def)
qed

definition sent_or_dropped :: "nat \<Rightarrow> preview \<times> bool \<Rightarrow> preview" where
  "sent_or_dropped n p = (if \<not> snd p \<and> inFlight (fst p) = Some n then (fst p)\<lparr>inFlight := None\<rparr> else fst p)"

lemma pump_send_cases:
  "queuedFull s = Some t \<Longrightarrow> pump_send s = sent_or_dropped (seq s + 1) (post (Render (seq s + 1) t) True
     (s\<lparr>seq := seq s + 1, inFlight := Some (seq s + 1), queuedFull := None, queuedEdits := queuedEdits s, believed := t\<rparr>))"
  "queuedFull s = None \<Longrightarrow> queuedEdits s = Some q \<Longrightarrow> pump_send s = sent_or_dropped (seq s + 1)
     (post (Patch \<lparr>patch_seq = seq s + 1, patch_edits = q_edits q, patch_generation = workerGeneration s,
        patch_baseChars = q_baseChars q, patch_chars = q_chars q\<rparr>) True
     (s\<lparr>seq := seq s + 1, inFlight := Some (seq s + 1), queuedFull := None, queuedEdits := None, believed := sourceText s\<rparr>))"
  by (cases s; simp add: pump_send_def sent_or_dropped_def Let_def split_def)+

lemma pump_sync:
  assumes "alive s \<Longrightarrow> settled_ok s" "alive s \<Longrightarrow> sync_ok s"
  shows "sync_inv (pump s)"
proof (cases "alive s")
  case False
  with pump_dead show ?thesis by (simp add: sync_inv_def)
next
  case alive: True
  note st = assms [OF alive]
  have w: "has_worker s" using st(1) by (simp add: settled_ok_def channel_ok_def worker_ok_def)
  show ?thesis
  proof (cases "inFlight s")
    case (Some n)
    with st show ?thesis by (simp add: pump_def sync_inv_def)
  next
    case None
    note idle = idle_channels [OF st(1) None]
    let ?r = "pump_restate s"
    have r: "sync_ok ?r" "alive ?r" "has_worker ?r" "to_worker ?r = to_worker s" "from_worker ?r = from_worker s"
      using st(2) alive w idle by (auto simp: pump_restate_def alive_def sync_parts)
    have send: "sync_inv (fst (post m True s'))" "post m True s' = (s'', b) \<Longrightarrow> alive s'' \<Longrightarrow> \<not> b \<Longrightarrow> inFlight s'' = None"
      if "m \<noteq> Reset" "s' = ?r\<lparr>seq := k, inFlight := Some k, queuedFull := None, queuedEdits := e, believed := t\<rparr>"
      for m k t e s' s'' b
    proof -
      show "sync_inv (fst (post m True s'))"
        using sent_sync [OF r(1) _ _ r(2,3) that(2) _ that(1)] idle r(4,5) by (auto simp: sync_inv_def)
      show "inFlight s'' = None" if "post m True s' = (s'', b)" "alive s''" "\<not> b"
      proof -
        have "s'' = fail s'"
          using that r(2,3) \<open>s' = _\<close> by (auto simp: post_def alive_def Let_def split: if_splits)
        moreover have "has_worker s'" using r(3) \<open>s' = _\<close> by simp
        ultimately show ?thesis using fail_recovered [of s'] that(2)
          by (auto simp: fail_def alive_def onWorkerTerminal_def onWorkerRecovery_def spawn_def
            detachAndTerminate_def clearDeadline_def Let_def split: if_splits)
      qed
    qed
    have keep: "sync_inv x \<Longrightarrow> (alive x \<Longrightarrow> inFlight x = None) \<Longrightarrow> sync_inv (x\<lparr>inFlight := None\<rparr>)" for x
    proof (cases "alive x")
      case True
      assume x: "sync_inv x" "alive x \<Longrightarrow> inFlight x = None"
      with True have "x\<lparr>inFlight := None\<rparr> = x" by simp
      with x show ?thesis by simp
    qed (auto simp: sync_inv_def alive_def)
    have sent: "sync_inv (sent_or_dropped k (post m True s'))"
      if "m \<noteq> Reset" "s' = ?r\<lparr>seq := k, inFlight := Some k, queuedFull := None, queuedEdits := e, believed := t\<rparr>" for m s' e t k
    proof (cases "snd (post m True s')")
      case False
      then have "sync_inv ((fst (post m True s'))\<lparr>inFlight := None\<rparr>)"
        using send(2) [OF that, of "fst (post m True s')" False] by (intro keep send(1) [OF that]) (metis prod.collapse)
      with send(1) [OF that] show ?thesis by (simp add: sent_or_dropped_def)
    qed (use send(1) [OF that] in \<open>simp add: sent_or_dropped_def\<close>)
    have "sync_inv (pump_send ?r)"
    proof (cases "queuedFull ?r")
      case (Some t)
      show ?thesis unfolding pump_send_cases(1) [OF Some] by (rule sent [OF _ refl]) simp
    next
      case no: None
      show ?thesis
      proof (cases "queuedEdits ?r")
        case None
        with no r(1) show ?thesis by (simp add: pump_send_def sync_inv_def)
      next
        case (Some q)
        show ?thesis unfolding pump_send_cases(2) [OF no Some] by (rule sent [OF _ refl]) simp
      qed
    qed
    with alive None show ?thesis by (simp add: pump_def alive_def)
  qed
qed

lemma pv_update_sync:
  assumes "preview_inv s" "sync_inv s" shows "sync_inv (pv_update edits s)"
proof (cases "pv_destroyed s \<or> workerTerminal s \<or> edits = [] \<or> (\<exists>e. applyTextEdits (sourceText s) edits = Inl e)")
  case True
  then show ?thesis using assms by (auto simp: pv_update_def)
next
  case False
  then obtain t where t: "applyTextEdits (sourceText s) edits = Inr t" by (meson sum.exhaust)
  let ?q = "(case queuedEdits s of
      None \<Rightarrow> \<lparr>q_edits = [], q_baseChars = length (sourceText s), q_chars = length t\<rparr> | Some q \<Rightarrow> q)"
  let ?s = "s\<lparr>sourceText := t, queuedEdits := Some (?q\<lparr>q_edits := q_edits ?q @ edits, q_chars := length t\<rparr>)\<rparr>"
  have eq: "pv_update edits s = pump ?s" using False t by (simp add: pv_update_def Let_def)
  show ?thesis unfolding eq
  proof (rule pump_sync)
    assume "alive ?s"
    then have "alive s" by (simp add: alive_def)
    with assms show "settled_ok ?s" "sync_ok ?s"
      using update_settled [OF _ t] by (simp_all add: preview_inv_def sync_inv_def)
  qed
qed

lemma invalidated_sync:
  assumes "preview_inv s" "sync_inv s" "alive (invalidated t s)"
  shows "sync_ok (invalidated t s)"
proof -
  note al = invalidated_settled [OF assms(1,3)]
  let ?s = "s\<lparr>page := (page s)\<lparr>idle := None\<rparr>, sourceText := t, workerGeneration := None\<rparr>"
  have w: "has_worker ?s" using al(1) assms(1) by (simp add: preview_inv_def settled_ok_def channel_ok_def worker_ok_def)
  have "page_inv s" using al(1) assms(2) by (simp add: sync_inv_def sync_ok_def)
  then have fresh: "dom_ok ((page s)\<lparr>nodes := [], children := [], idle := None\<rparr>)" by (simp add: dom_ok_def)
  show ?thesis
  proof (cases "port_ok s")
    case True
    have "invalidated t s = ?s\<lparr>to_worker := to_worker s @ [Reset], page := (page s)\<lparr>nodes := [], children := [], idle := None\<rparr>,
        queuedEdits := None, queuedFull := Some t\<rparr>"
      using True al(1) w by (simp add: invalidated_def post_def alive_def Let_def)
    with \<open>page_inv s\<close> fresh show ?thesis by (simp add: sync_parts)
  next
    case False
    with al(1) w have p: "fst (post Reset False ?s) = fail ?s" by (simp add: post_def alive_def)
    with assms(3) have "alive (fail ?s)" by (simp add: invalidated_def alive_def Let_def)
    from fail_fresh [OF this w] fresh p show ?thesis
      by (intro sync_fresh [of _ t]) (simp_all add: invalidated_def Let_def dom_ok_def)
  qed
qed

lemma invalidate_sync:
  assumes "preview_inv s" "sync_inv s" shows "sync_inv (invalidate t s)"
proof (cases "pv_destroyed s \<or> workerTerminal s")
  case True
  then show ?thesis using assms by (simp add: invalidate_def)
next
  case False
  show ?thesis unfolding invalidate_pump [OF False]
    using invalidated_settled(2) [OF assms(1)] invalidated_sync [OF assms] by (rule pump_sync)
qed

lemma delivered_sync:
  assumes "settled_ok s" "sync_ok s" "from_worker s = r # rs" "plain_step s Client_Takes_Response"
  shows "sync_ok (delivered r s)"
proof -
  note cur = deliver_current [OF _ assms(3)]
  have ch: "channel_ok s" using assms(1) by (simp add: settled_ok_def)
  have pg: "page_inv s" using assms(2) by (simp add: sync_ok_def)
  show ?thesis
  proof (cases r)
    case (Rendered n g bs)
    let ?d = "full_patch (sanitizer s) bs (page s)"
    have d: "dom_patch (sanitizer s) bs (page s) = ?d"
      using assms(3,4) Rendered by (intro dom_patch_full) (simp add: plain_step_def)
    have "distinct (map bp_key bs)" using pg assms(3) Rendered by (auto simp: page_inv_def)
    with pg have ok: "dom_ok ?d" by (simp add: page_inv_def full_patch_dom_ok)
    have nxt: "Reset \<in> set (to_worker s) \<or> agrees s ?d"
      using assms(2,3) Rendered by (simp add: sync_ok_def sync_next_def next_page_def)
    then have head: "(\<exists>ms. to_worker s = Reset # ms) \<or> agrees s ?d"
      using only_resets [OF cur(3) [OF ch]] by blast
    have "queuedFull s = None \<longrightarrow> shows_text (rendering s) (believed s) ?d"
      using assms(2,3) Rendered cur(1) [OF ch] by (simp add: sync_ok_def pending_shows_def)
    with pg ok nxt head show ?thesis
      by (simp add: delivered_def Rendered d Let_def sync_parts)
  next
    case (Resync_Response n g)
    have "Reset \<in> set (to_worker s) \<or> agrees s (page s)"
      using assms(2,3) Resync_Response by (simp add: sync_ok_def sync_next_def next_page_def)
    with pg show ?thesis by (simp add: delivered_def Resync_Response Let_def sync_parts)
  qed
qed

lemma deliver_sync:
  assumes "preview_inv s" "sync_inv s" "plain_step s Client_Takes_Response"
  shows "sync_inv (deliver_response s)"
proof (cases "alive s \<and> from_worker s \<noteq> []")
  case False
  then show ?thesis using assms
    by (auto simp: deliver_response_def sync_inv_def alive_def onRendered_def clearDeadline_def Let_def
        split: list.splits)
next
  case True
  then obtain r rs where r: "from_worker s = r # rs" by (cases "from_worker s") auto
  from True assms have st: "settled_ok s" "channel_ok s" "sync_ok s" by (auto simp: preview_inv_def sync_inv_def settled_ok_def)
  have "has_worker (delivered r s)"
    using delivered_settled [OF st(1) r] by (simp add: settled_ok_def channel_ok_def worker_ok_def)
  with post_sync [OF delivered_sync [OF st(1,3) r assms(3)]] delivered_sync [OF st(1,3) r assms(3)]
  have "sync_ok (after_delivery r s)" if "alive (after_delivery r s)"
    using that by (cases r) (auto simp: after_delivery_def)
  with after_delivery_settled [OF st(1) r] show ?thesis
    unfolding deliver_pump [OF st(2) r conjunct1 [OF True]] by (rule pump_sync)
qed

lemma recovery_sync:
  assumes "preview_inv s" "sync_inv s" shows "sync_inv (recovery_microtask s)"
proof (cases "recovery_microtasks s = 0 \<or> pv_destroyed s \<or> workerTerminal s")
  case True
  then show ?thesis using assms by (auto simp: recovery_microtask_def sync_inv_def alive_def)
next
  case False
  let ?s = "s\<lparr>recovery_microtasks := recovery_microtasks s - 1\<rparr>"
  have eq: "recovery_microtask s = pump (fst (post Reset False ?s))"
    using False by (simp add: recovery_microtask_def Let_def)
  show ?thesis unfolding eq
  proof (rule pump_sync)
    assume al: "alive (fst (post Reset False ?s))"
    note st = recovery_settled [OF assms(1) al]
    show "settled_ok (fst (post Reset False ?s))" by (rule st)
    have "sync_ok ?s" "has_worker ?s"
      using st(1) assms by (simp_all add: sync_inv_def preview_inv_def settled_ok_def channel_ok_def worker_ok_def)
    with al show "sync_ok (fst (post Reset False ?s))" by (intro post_sync)
  qed
qed

text \<open>The worker's answers.\<close>

lemma accept_renders:
  "render_of s doc = Inr (w, bs) \<Longrightarrow>
     accept_text n doc s = s\<lparr>worker := w, from_worker := from_worker s @ [Rendered n (worker_generation s) bs]\<rparr>"
  by (simp add: accept_text_def answer_text_def render_of_def render_answer_def)

lemma processMessage_accepted:
  "accepted s m = Some (n, t) \<Longrightarrow> processMessage m s = accept_text n t s"
  by (simp add: accepted_def processMessage_def split: request.splits patch_transition.splits)

lemma processMessage_refused:
  "accepted s m = None \<Longrightarrow> m \<noteq> Reset \<Longrightarrow>
     \<exists>n. processMessage m s = s\<lparr>from_worker := from_worker s @ [Resync_Response n (worker_generation s)]\<rparr>"
proof (cases m)
  case (Patch p)
  assume "accepted s m = None" "m \<noteq> Reset"
  with Patch obtain r where "transitionPatch (lastText s) (Some (worker_generation s)) p = Resync r"
    by (cases "transitionPatch (lastText s) (Some (worker_generation s)) p") (simp_all add: accepted_def)
  with Patch show ?thesis by (intro exI [of _ "resync_seq r"]) (simp add: processMessage_def)
qed (simp_all add: accepted_def)

lemma accepted_believed:
  assumes "request_ok s m" "accepted s m = Some (n, t)" shows "t = believed s"
proof (cases m)
  case (Patch p)
  have "transitionPatch (lastText s) (Some (worker_generation s)) p = Applied t"
    using assms(2) Patch by (simp add: accepted_def split: patch_transition.splits)
  moreover from assms(1) Patch have "\<forall>base t. base = lastText s \<or> base = [] \<longrightarrow>
      transitionPatch base (Some (worker_generation s)) p = Applied t \<longrightarrow> t = believed s"
    unfolding request_ok_def Patch request.case by (simp only:)
  ultimately show ?thesis by blast
qed (use assms in \<open>simp_all add: accepted_def request_ok_def\<close>)

lemma processMessage_cases [consumes 3, case_names answered refused]:
  assumes "request_ok s m" "\<not> throws s m" "m \<noteq> Reset"
  obtains (answered) n w bs where "render_of s (believed s) = Inr (w, bs)"
      "processMessage m s = s\<lparr>worker := w, from_worker := from_worker s @ [Rendered n (worker_generation s) bs]\<rparr>"
    | (refused) n where "processMessage m s = s\<lparr>from_worker := from_worker s @ [Resync_Response n (worker_generation s)]\<rparr>"
proof (cases "accepted s m")
  case None
  from processMessage_refused [OF this assms(3)] refused show ?thesis by blast
next
  case (Some nt)
  then obtain n t where nt: "accepted s m = Some (n, t)" by (cases nt) auto
  from assms(2) nt obtain w bs where "render_of s t = Inr (w, bs)" by (auto simp: throws_def split: sum.splits)
  with accepted_believed [OF assms(1) nt] processMessage_accepted [OF nt] accept_renders answered show ?thesis by metis
qed

lemma render_of_page:
  assumes "render_of s doc = Inr (w, bs)" "page_inv s"
  shows "cache_made (md_render (rendering s)) (md_source (rendering s)) (cache w)" "distinct (map bp_key bs)"
    and "agrees s d \<Longrightarrow> shows_text (rendering s) doc (full_patch (sanitizer s) bs d)
           \<and> in_sync (sanitizer s) w (full_patch (sanitizer s) bs d)"
proof -
  note pass = assms(1) [unfolded render_of_def]
  show made: "cache_made (md_render (rendering s)) (md_source (rendering s)) (cache w)"
    using assms(2) by (intro render_pass_made [OF _ pass]) (simp add: page_inv_def)
  show "distinct (map bp_key bs)" by (rule render_pass_distinct [OF pass])
  show "shows_text (rendering s) doc (full_patch (sanitizer s) bs d) \<and> in_sync (sanitizer s) w (full_patch (sanitizer s) bs d)"
    if "agrees s d"
    using full_patch_in_sync [OF that [unfolded agrees_def] pass] pass made unfolding shows_text_def by blast
qed

lemma worker_sync:
  assumes "preview_inv s" "sync_inv s" "plain_step s Worker_Takes_Message"
  shows "sync_inv (worker_takes_message s)"
proof (cases "alive s \<and> to_worker s \<noteq> []")
  case False
  then show ?thesis using assms(2)
    by (auto simp: worker_takes_message_def processMessage_def accept_text_def Let_def split_def sync_inv_def alive_def
        split: list.splits request.splits patch_transition.splits)
next
  case True
  then obtain m ms where m: "to_worker s = m # ms" by (cases "to_worker s") auto
  from True assms have st: "channel_ok s" "sync_ok s" "page_inv s" by (auto simp: preview_inv_def settled_ok_def sync_inv_def sync_ok_def)
  let ?s = "s\<lparr>to_worker := ms\<rparr>"
  have eq: "worker_takes_message s = processMessage m ?s"
    using st(1) m by (simp add: worker_takes_message_def channel_ok_def worker_ok_def)
  show ?thesis
  proof (cases "m = Reset")
    case reset: True
    have "dom_ok (next_page s)" "dom_ok (page s)"
      using st(3) by (auto simp: page_inv_def next_page_def full_patch_dom_ok split: list.split response.split)
    then have "sync_ok (?s\<lparr>worker := clearRenderCache\<rparr>)"
      using st(2) by (simp add: sync_parts agrees_cleared cong: list.case_cong response.case_cong)
    then show ?thesis by (simp add: eq reset processMessage_def sync_inv_def)
  next
    case False
    have "\<exists>n. request_seq m = Some n" using False by (cases m) auto
    then have no: "from_worker s = []" "List.map_filter request_seq ms = []" "inFlight s \<noteq> None"
      using st(1) m
      by (auto simp: channel_ok_def exchange_ok_def map_filter_simps Cons_eq_append_conv split: option.splits)
    have nxt: "Reset \<in> set ms \<or> agrees s (page s)" and head: "queuedFull s = None \<Longrightarrow> agrees s (page s)"
      using st(2) m no False by (auto simp: sync_ok_def sync_next_def sync_head_def next_page_def)
    have "accepted ?s m = accepted s m" "render_of ?s = render_of s"
      by (cases m) (simp_all add: accepted_def render_of_def fun_eq_iff)
    then have "throws ?s m = throws s m" by (simp only: throws_def)
    then have "request_ok ?s m" "\<not> throws ?s m"
      using st(1) m assms(3)
      by (simp_all add: channel_ok_def worker_ok_def request_ok_channels plain_step_def)
    from this False show ?thesis
    proof (cases rule: processMessage_cases)
      case (answered n w bs)
      then have pass: "render_of s (believed s) = Inr (w, bs)" by (simp add: render_of_def)
      note rp = render_of_page [OF pass st(3)]
      show ?thesis unfolding eq answered(2)
        using st(3) no nxt head rp
        by (auto simp: sync_inv_def sync_parts)
    next
      case (refused n)
      show ?thesis unfolding eq refused
        using st(2,3) no nxt by (auto simp: sync_inv_def sync_parts)
    qed
  qed
qed

lemma module_restart_sync:
  assumes "sync_inv s" shows "sync_inv (module_restart s)"
proof (cases "alive s \<and> has_worker s")
  case True
  then have st: "sync_ok s" "page_inv s" using assms by (auto simp: sync_inv_def sync_ok_def)
  then have "dom_ok (next_page s)" "dom_ok (page s)"
    by (auto simp: page_inv_def next_page_def full_patch_dom_ok split: list.split response.split)
  then have "sync_ok (s\<lparr>worker := clearRenderCache\<rparr>)"
    using st(1) by (simp add: sync_parts agrees_cleared cong: list.case_cong response.case_cong)
  with True show ?thesis by (simp add: module_restart_def sync_inv_def)
qed (use assms in \<open>auto simp: module_restart_def sync_inv_def alive_def\<close>)

lemma idle_paint_sync: "sync_inv s \<Longrightarrow> sync_inv (idle_paint s)"
proof (cases "alive s")
  case True
  assume "sync_inv s"
  with True have "idle (page s) = None" by (simp add: sync_inv_def sync_ok_def page_inv_def)
  then have "idle_paint s = s" by (simp add: idle_paint_def idle_step_def)
  with \<open>sync_inv s\<close> show ?thesis by simp
qed (auto simp: idle_paint_def sync_inv_def alive_def)

lemma sync_step:
  assumes "preview_ok s" "sync_inv s" "plain_step s e"
  shows "sync_inv (preview_step s e)"
proof -
  have inv: "preview_inv s" using assms(1) by (simp add: preview_ok_def)
  show ?thesis
  proof (cases e)
    case Client_Takes_Response
    with deliver_sync [OF inv assms(2)] assms(3) show ?thesis by (simp add: preview_step_def)
  next
    case Worker_Takes_Message
    with worker_sync [OF inv assms(2)] assms(3) show ?thesis by (simp add: preview_step_def)
  next
    case Terminal_Microtask
    with assms(1,2) show ?thesis
      by (auto simp: preview_step_def preview_ok_def supervisor_ok_def run_terminal_microtask_def onWorkerTerminal_def
          sync_inv_def alive_def)
  next
    case Destroy
    then show ?thesis by (simp add: preview_step_def pv_destroy_def sync_inv_def alive_def detachAndTerminate_def clearDeadline_def Let_def)
  next
    case (Environment p q)
    with assms(2) show ?thesis by (simp add: preview_step_def sync_inv_def alive_def)
  qed (use inv assms(2) in \<open>auto simp: preview_step_def pv_update_sync invalidate_sync recovery_sync fail_sync
        module_restart_sync idle_paint_sync\<close>)
qed

lemma whole_sync: "preview_ok s \<Longrightarrow> sync_inv s \<Longrightarrow> whole s es \<Longrightarrow> sync_inv (foldl preview_step s es)"
  by (induction es arbitrary: s) (simp_all add: sync_step preview.step_inv)

lemma new_preview_sync: "sync_inv (new_preview R a b)"
  by (simp add: new_preview_def sync_inv_def alive_def spawn_def sync_parts agrees_cleared shows_text_def dom_ok_def
      dom_empty_def Let_def)

section \<open>Results\<close>

lemma up_to_date_page:
  assumes "preview_start s0" "s = foldl preview_step s0 es" "alive s" "up_to_date s"
  shows "queuedFull s = None \<and> queuedEdits s = None \<and> painted (rendering s) (sourceText s) (page s)
     \<and> (whole s0 es \<longrightarrow> shows_text (rendering s) (sourceText s) (page s))"
proof -
  have ok: "preview_ok s" using preview.reachable_inv [OF assms(1), of es] assms(2) by simp
  note fin = up_to_date_shows [OF ok assms(3,4)]
  have "shows_text (rendering s) (sourceText s) (page s)" if "whole s0 es"
  proof -
    have "preview_ok s0" "sync_inv s0" using assms(1) new_preview_ok new_preview_sync by (auto simp: preview_start_def)
    with that assms(2) have "sync_inv s" by (simp add: whole_sync)
    with assms(3,4) fin have "shows_text (rendering s) (believed s) (page s)"
      by (simp add: sync_inv_def sync_ok_def page_settled_def up_to_date_def)
    moreover have "believed s = sourceText s"
      using ok assms(3) fin by (simp add: preview_ok_def preview_inv_def settled_ok_def queue_ok_def)
    ultimately show ?thesis by simp
  qed
  with fin show ?thesis by blast
qed

lemma settle_run:
  "\<exists>es. settle n s = foldl preview_step s es
     \<and> set es \<subseteq> {Recovery_Microtask, Worker_Takes_Message, Client_Takes_Response}"
proof (induction n arbitrary: s)
  case 0
  then show ?case by (intro exI [of _ "[]"]) simp
next
  case (Suc n)
  show ?case
  proof (cases "up_to_date s")
    case True
    then show ?thesis by (intro exI [of _ "[]"]) simp
  next
    case False
    from Suc.IH [of "preview_step s (settle_event s)"] obtain es where
      "settle n (preview_step s (settle_event s)) = foldl preview_step (preview_step s (settle_event s)) es"
      "set es \<subseteq> {Recovery_Microtask, Worker_Takes_Message, Client_Takes_Response}" by blast
    with False show ?thesis
      by (intro exI [of _ "settle_event s # es"]) (simp add: settle_event_def)
  qed
qed

subsection \<open>Properties\<close>


definition demo_rendering :: rendering where
  "demo_rendering = \<lparr>md_parse = demo_parse, md_render = demo_renderer, md_source = \<lambda>_. None, md_sanitize = id\<rparr>"

definition letter :: "16 word text_edit" where
  "letter = \<lparr>edit_from = 0, edit_to = 0, edit_insert = js ''a''\<rparr>"

definition letter_events :: "preview_event list" where
  "letter_events = [Update [letter], Worker_Takes_Message, Client_Takes_Response]"

lemma letter_states:
  "preview_step (new_preview demo_rendering True True) (Update [letter]) =
     (new_preview demo_rendering True True)\<lparr>seq := 1, inFlight := Some 1, sourceText := js ''a'', believed := js ''a'',
       awaitingResponse := True, to_worker := [Render 1 (js ''a'')]\<rparr>"
  by (simp add: letter_def new_preview_def spawn_def preview_step_def pv_update_def Let_def
      edit_in_range_def is_safe_integer_def replace_units_def pump_def pump_restate_def pump_send_def
      post_def armDeadline_def clearDeadline_def)

lemma letter_answer:
  assumes "rendering s = demo_rendering" "worker s = clearRenderCache"
  shows "render_of s (js ''a'') = Inr (demo_cache, [demo_block (Some (js ''<p></p>''))])"
  using demo_first_pass assms
  by (simp add: render_of_def render_pass_def demo_rendering_def demo_pass_def clearRenderCache_def)

lemma letter_run:
  fixes s0 :: preview
  defines "s0 \<equiv> new_preview demo_rendering True True"
  defines "s \<equiv> foldl preview_step s0 letter_events"
  shows "alive s \<and> up_to_date s \<and> sourceText s = js ''a'' \<and> rendering s = demo_rendering \<and> whole s0 letter_events"
proof -
  let ?s1 = "s0\<lparr>seq := 1, inFlight := Some 1, sourceText := js ''a'', believed := js ''a'',
       awaitingResponse := True, to_worker := [Render 1 (js ''a'')]\<rparr>"
  let ?b = "[demo_block (Some (js ''<p></p>''))]"
  have s0: "rendering s0 = demo_rendering" "worker s0 = clearRenderCache" "from_worker s0 = []" "has_worker s0" "worker_generation s0 = 1"
    "page s0 = dom_empty" "queuedFull s0 = None" "queuedEdits s0 = None" "recovery_microtasks s0 = 0" "alive s0"
    by (simp_all add: s0_def new_preview_def spawn_def alive_def Let_def)
  have 1: "preview_step s0 (Update [letter]) = ?s1" unfolding s0_def by (rule letter_states)
  have ans: "render_of (?s1\<lparr>to_worker := []\<rparr>) (js ''a'') = Inr (demo_cache, ?b)" "render_of ?s1 (js ''a'') = Inr (demo_cache, ?b)"
    by (intro letter_answer; simp add: s0)+
  have 2: "preview_step ?s1 Worker_Takes_Message = ?s1\<lparr>to_worker := [], worker := demo_cache, from_worker := [Rendered 1 1 ?b]\<rparr>"
    using accept_renders [OF ans(1), of 1] by (simp add: preview_step_def worker_takes_message_def processMessage_def s0)
  have 3: "preview_step (?s1\<lparr>to_worker := [], worker := demo_cache, from_worker := [Rendered 1 1 ?b]\<rparr>) Client_Takes_Response =
      ?s1\<lparr>to_worker := [], worker := demo_cache, from_worker := [], awaitingResponse := False, failuresWithoutResponse := 0,
        inFlight := None, workerGeneration := Some 1, page := dom_patch id ?b dom_empty\<rparr>"
    using s0(10) by (simp add: preview_step_def deliver_response_def onRendered_def clearDeadline_def alive_def s0 Let_def
        pump_def pump_restate_def pump_send_def demo_rendering_def)
  have s: "s = ?s1\<lparr>to_worker := [], worker := demo_cache, from_worker := [], awaitingResponse := False, failuresWithoutResponse := 0,
        inFlight := None, workerGeneration := Some 1, page := dom_patch id ?b dom_empty\<rparr>"
    unfolding s_def letter_events_def foldl_Cons foldl_Nil 1 2 3 ..
  have plain: "\<not> throws ?s1 (Render 1 (js ''a''))"
    unfolding throws_def accepted_def request.case option.case prod.case ans(2) by simp
  have "whole s0 letter_events"
    unfolding letter_events_def whole.simps 1 2 using plain
    by (simp add: plain_step_def FIRST_PAINT_BLOCKS_def)
  with s0 show ?thesis by (simp add: s alive_def up_to_date_def)
qed


text \<open>
  C2. The preview always catches up. From every reachable state that is alive and in which
  messages can be posted, whatever failures happened before, finitely many recovery microtasks and
  message deliveries, with no edit or further failure between them, bring it up to date: no edit
  is lost, the page is then painted from a worker's answer to the source it had, and it is the
  rendering of that source if the whole run had no throwing render and no painting in parts.
\<close>

theorem preview_catches_up:
  assumes "preview_start s0" and "s = foldl preview_step s0 es" and "alive s" and "port_ok s"
  shows "\<exists>es' t. t = foldl preview_step s es'
     \<and> set es' \<subseteq> {Recovery_Microtask, Worker_Takes_Message, Client_Takes_Response}
     \<and> up_to_date t \<and> alive t \<and> sourceText t = sourceText s \<and> painted (rendering t) (sourceText s) (page t)
     \<and> (whole s0 (es @ es') \<longrightarrow> shows_text (rendering t) (sourceText s) (page t))"
proof -
  have "preview_ok s" using preview.reachable_inv [OF assms(1), of es] assms(2) by simp
  from settle_reaches [OF this assms(3,4)] obtain n where
    n: "up_to_date (settle n s)" "kept s (settle n s)" by blast
  from settle_run [of n s] obtain es' where es': "settle n s = foldl preview_step s es'"
    "set es' \<subseteq> {Recovery_Microtask, Worker_Takes_Message, Client_Takes_Response}" by blast
  have "foldl preview_step s es' = foldl preview_step s0 (es @ es')" by (simp add: assms(2))
  from up_to_date_page [OF assms(1) this] n es' show ?thesis
    by (intro exI [of _ es'] exI [of _ "settle n s"]) (simp add: kept_def)
qed

theorem preview_catches_up_witness:
  "\<exists>es' t. t = foldl preview_step (preview_step (new_preview demo_rendering True True) (Update [letter])) es'
     \<and> painted (rendering t) (js ''a'') (page t)"
proof -
  let ?start = "new_preview demo_rendering True True"
  let ?now = "preview_step ?start (Update [letter])"
  have "alive ?now" "port_ok ?now" "sourceText ?now = js ''a''"
    unfolding letter_states by (simp_all add: new_preview_def spawn_def alive_def Let_def)
  moreover have "preview_start ?start" by (auto simp: preview_start_def)
  ultimately show ?thesis
    using preview_catches_up [of ?start ?now "[Update [letter]]"] by auto
qed

text \<open>
  The recovery budget: a live supervisor has seen at most one failure since the last
  response, every outstanding request has its deadline armed, and exactly one message, a request
  or its response, is in transit for it; a response that arrives is never stale.
\<close>

lemma preview_supervised:
  assumes "preview_start s0" and "s = foldl preview_step s0 es" and "alive s"
  shows "failuresWithoutResponse s \<le> MAX_RECOVERIES
    \<and> (inFlight s \<noteq> None \<longrightarrow> awaitingResponse s)
    \<and> List.map_filter request_seq (to_worker s) @ map resp_seq (from_worker s) =
        (case inFlight s of None \<Rightarrow> [] | Some n \<Rightarrow> [n])"
  using preview.reachable_inv [OF assms(1), of es] assms(2,3)
  by (auto simp: preview_ok_def preview_inv_def supervisor_ok_def alive_def settled_ok_def channel_ok_def
      exchange_ok_def)

end
