(* ===== verification/Wire_Protocol.thy ===== *)
theory Wire_Protocol
  imports Js_Text
begin

text \<open>
  The room protocol of \<open>client/src/collab/protocol.ts\<close>: tagged frames, mutation frames, committed
  receipts, and the selection presence that travels as ephemeral JSON. The byte layouts are
  written out; \<open>btoa\<close>, \<open>atob\<close> and \<open>DataView\<close> are modelled as the language defines them.
\<close>

section \<open>Hexadecimal identifiers\<close>

definition padStart :: "nat \<Rightarrow> 16 word \<Rightarrow> js_text \<Rightarrow> js_text" where
  "padStart n c s = replicate (n - length s) c @ s"

definition byte_hex :: "byte \<Rightarrow> js_text" where
  "byte_hex b = padStart 2 48 (to_radix 16 (unat b))"

definition bytesToHex :: "bytes \<Rightarrow> js_text" where
  "bytesToHex bs = concat (map byte_hex bs)"

definition is_hex_unit :: "16 word \<Rightarrow> bool" where
  "is_hex_unit c \<longleftrightarrow> 48 \<le> c \<and> c \<le> 57 \<or> 97 \<le> c \<and> c \<le> 102"

datatype protocol_error =
    Bad_Mutation_Id | Bad_Payload_Length | Invalid_Receipt | Receipt_Length_Mismatch
  | Bad_Anchor_Length | Bad_Direction | Bad_Sequence

text \<open>\<open>/^[0-9a-f]{32}$/\<close> and not \<open>/^0+$/\<close>, then the pairs of digits.\<close>

fun hex_pairs :: "js_text \<Rightarrow> bytes" where
  "hex_pairs (a # b # s) = of_nat (digit_value a * 16 + digit_value b) # hex_pairs s"
| "hex_pairs _ = []"

definition hexToBytes :: "js_text \<Rightarrow> protocol_error + bytes" where
  "hexToBytes hex =
     (if \<not> (length hex = 32 \<and> list_all is_hex_unit hex) \<or> list_all (\<lambda>c. c = 48) hex then Inl Bad_Mutation_Id
      else Inr (hex_pairs hex))"

lemma byte_hex_digits: "byte_hex b = [digit_unit (unat b div 16), digit_unit (unat b mod 16)]"
proof -
  have lt: "unat b < 256" by (rule unat_byte_lt)
  show ?thesis
  proof (cases "unat b < 16")
    case True
    then show ?thesis by (simp add: byte_hex_def to_radix.simps padStart_def digit_unit_def)
  next
    case False
    with lt have "unat b div 16 < 16" by auto
    with False show ?thesis
      by (simp add: byte_hex_def to_radix.simps [of 16 "unat b"] to_radix.simps [of 16 "unat b div 16"] padStart_def)
  qed
qed

lemma hex_pairs_bytesToHex [simp]: "hex_pairs (bytesToHex bs) = bs"
proof (induction bs)
  case (Cons b bs)
  have "unat b div 16 < 36" "unat b mod 16 < 36" using unat_byte_lt [of b] by auto
  with Cons show ?case by (simp add: bytesToHex_def byte_hex_digits)
qed (simp add: bytesToHex_def)

lemma length_bytesToHex [simp]: "length (bytesToHex bs) = 2 * length bs"
  by (induction bs) (auto simp: bytesToHex_def byte_hex_digits)

lemma digit_unit_hex: "d < 16 \<Longrightarrow> is_hex_unit (digit_unit d)"
  by (simp add: is_hex_unit_def word_le_nat_alt unat_digit_unit)

lemma digit_unit_value: "is_hex_unit c \<Longrightarrow> digit_value c < 16 \<and> digit_unit (digit_value c) = c"
proof -
  assume "is_hex_unit c"
  then have u: "48 \<le> unat c \<and> unat c \<le> 57 \<or> 97 \<le> unat c \<and> unat c \<le> 102"
    by (simp add: is_hex_unit_def word_le_nat_alt)
  then have v: "digit_value c < 16" by (auto simp: digit_value_def)
  then have "unat (digit_unit (digit_value c)) = unat c"
    using u by (auto simp: unat_digit_unit digit_value_def)
  with v show ?thesis by (simp add: word_unat_eq_iff)
qed

lemma bytesToHex_units: "list_all is_hex_unit (bytesToHex bs)"
proof (induction bs)
  case (Cons b bs)
  have "unat b div 16 < 16" "unat b mod 16 < 16" using unat_byte_lt [of b] by auto
  with Cons show ?case by (simp add: bytesToHex_def byte_hex_digits digit_unit_hex)
qed (simp add: bytesToHex_def)

lemma bytesToHex_hex_pairs:
  "list_all is_hex_unit s \<Longrightarrow> even (length s) \<Longrightarrow> bytesToHex (hex_pairs s) = s"
proof (induction s rule: hex_pairs.induct)
  case (1 a b s)
  then have a: "digit_value a < 16" "digit_unit (digit_value a) = a"
    and b: "digit_value b < 16" "digit_unit (digit_value b) = b" using digit_unit_value by auto
  have "unat (of_nat (digit_value a * 16 + digit_value b) :: byte) = digit_value a * 16 + digit_value b"
    using a b by (intro unat_byte_of_nat) simp
  with 1 a b show ?case by (simp add: bytesToHex_def byte_hex_digits)
qed (auto simp: bytesToHex_def)

definition randomMutationId :: "bytes \<Rightarrow> js_text" where
  "randomMutationId random = bytesToHex (if list_all (\<lambda>b. b = 0) random then 1 # tl random else random)"

text \<open>A fresh identifier is always acceptable to \<open>hexToBytes\<close>, the all-zero draw included.\<close>

lemma hex_zero_bytes: "list_all (\<lambda>c. c = 48) (bytesToHex bs) \<Longrightarrow> list_all (\<lambda>b. b = 0) bs"
proof (induction bs)
  case (Cons b bs)
  have "digit_value (digit_unit (unat b div 16)) = unat b div 16" "digit_value (digit_unit (unat b mod 16)) = unat b mod 16"
    using unat_byte_lt [of b] by auto
  with Cons.prems have "unat b div 16 = 0" "unat b mod 16 = 0"
    by (auto simp: bytesToHex_def byte_hex_digits digit_value_def)
  then have "b = 0" by (metis div_mult_mod_eq add_0 mult_0 unat_eq_zero)
  with Cons show ?case by (auto simp: bytesToHex_def)
qed simp

lemma randomMutationId_accepted:
  assumes "length random = 16" shows "\<exists>bs. hexToBytes (randomMutationId random) = Inr bs"
proof -
  define bs where "bs = (if list_all (\<lambda>b. b = 0) random then 1 # tl random else random)"
  have "length bs = 16" "\<not> list_all (\<lambda>b. b = 0) bs" using assms by (auto simp: bs_def)
  then show ?thesis using hex_zero_bytes [of bs]
    by (auto simp: hexToBytes_def randomMutationId_def bs_def [symmetric] bytesToHex_units)
qed

section \<open>Little-endian integers\<close>

fun le_bytes :: "nat \<Rightarrow> nat \<Rightarrow> bytes" where
  "le_bytes 0 v = []"
| "le_bytes (Suc n) v = of_nat (v mod 256) # le_bytes n (v div 256)"

fun le_value :: "bytes \<Rightarrow> nat" where
  "le_value [] = 0"
| "le_value (b # bs) = unat b + 256 * le_value bs"

lemma length_le_bytes [simp]: "length (le_bytes n v) = n"
  by (induction n arbitrary: v) auto

lemma le_value_le_bytes [simp]: "v < 256 ^ n \<Longrightarrow> le_value (le_bytes n v) = v"
proof (induction n arbitrary: v)
  case (Suc n)
  have "unat (of_nat (v mod 256) :: byte) = v mod 256"
    by (intro unat_byte_of_nat) simp
  with Suc show ?case by (simp add: less_mult_imp_div_less mult.commute)
qed simp

lemma le_bytes_le_value [simp]: "le_bytes (length bs) (le_value bs) = bs"
proof (induction bs)
  case (Cons b bs)
  have "unat b < 256" by (rule unat_byte_lt)
  then have "(unat b + 256 * le_value bs) mod 256 = unat b" "(unat b + 256 * le_value bs) div 256 = le_value bs" by auto
  with Cons show ?case by simp
qed simp

lemma le_value_bound: "le_value bs < 256 ^ length bs"
proof (induction bs)
  case (Cons b bs)
  have "unat b < 256" by (rule unat_byte_lt)
  with Cons show ?case by simp
qed simp

section \<open>Frames\<close>

text \<open>The first byte of every room message.\<close>

definition MSG_MUTATION :: byte where "MSG_MUTATION = 0x06"
definition MSG_COMMITTED :: byte where "MSG_COMMITTED = 0x07"

definition frame :: "byte \<Rightarrow> bytes \<Rightarrow> bytes" where
  "frame tag payload = tag # payload"

datatype mutation_kind = Update_Kind | Snapshot_Kind

definition MUTATION_MAGIC :: bytes where "MUTATION_MAGIC = [0x4d, 0x4b, 0x4d, 0x54]"
definition COMMITTED_MAGIC :: bytes where "COMMITTED_MAGIC = [0x4d, 0x4b, 0x43, 0x4d]"

definition encodeMutation :: "js_text \<Rightarrow> mutation_kind \<Rightarrow> bytes \<Rightarrow> protocol_error + bytes" where
  "encodeMutation mid kind payload =
     (case hexToBytes mid of
        Inl e \<Rightarrow> Inl e
      | Inr idBytes \<Rightarrow>
          if length payload = 0 \<or> length payload > 0xffffffff then Inl Bad_Payload_Length
          else Inr (MUTATION_MAGIC @ [1] @ [case kind of Update_Kind \<Rightarrow> 1 | Snapshot_Kind \<Rightarrow> 2] @ idBytes
                    @ le_bytes 4 (length payload) @ payload))"

record committed_receipt =
  receipt_id :: js_text
  receipt_revision :: nat
  receipt_version :: bytes

definition decodeCommitted :: "bytes \<Rightarrow> protocol_error + committed_receipt" where
  "decodeCommitted payload =
     (if length payload < 33 \<or> take 4 payload \<noteq> COMMITTED_MAGIC \<or> payload ! 4 \<noteq> 1 then Inl Invalid_Receipt
      else let versionLength = le_value (js_slice 29 33 payload)
           in if length payload \<noteq> 33 + versionLength then Inl Receipt_Length_Mismatch
              else Inr \<lparr>receipt_id = bytesToHex (js_slice 5 21 payload),
                        receipt_revision = le_value (js_slice 21 29 payload),
                        receipt_version = drop 33 payload\<rparr>)"

text \<open>The receipt layout, as the specification of what the room sends.\<close>

definition committed_layout :: "committed_receipt \<Rightarrow> bytes" where
  "committed_layout r = COMMITTED_MAGIC @ [1] @ hex_pairs (receipt_id r) @ le_bytes 8 (receipt_revision r)
     @ le_bytes 4 (length (receipt_version r)) @ receipt_version r"

definition receipt_valid :: "committed_receipt \<Rightarrow> bool" where
  "receipt_valid r \<longleftrightarrow> length (receipt_id r) = 32 \<and> list_all is_hex_unit (receipt_id r)
     \<and> receipt_revision r < 2 ^ 64 \<and> length (receipt_version r) < 2 ^ 32"

definition accept :: "'e + 'a \<Rightarrow> 'a option" where
  "accept r = (case r of Inl _ \<Rightarrow> None | Inr x \<Rightarrow> Some x)"

lemma length_hex_pairs: "length (hex_pairs s) = length s div 2"
  by (induction s rule: hex_pairs.induct) auto

lemma decode_layout:
  assumes "receipt_valid r" shows "decodeCommitted (committed_layout r) = Inr r"
proof -
  define p q v where pqv: "p = hex_pairs (receipt_id r)" "q = le_bytes 8 (receipt_revision r)"
    "v = le_bytes 4 (length (receipt_version r))"
  have len: "length p = 16" "length q = 8" "length v = 4"
    using assms by (simp_all add: pqv length_hex_pairs receipt_valid_def)
  have lay: "committed_layout r = COMMITTED_MAGIC @ [1] @ p @ q @ v @ receipt_version r"
    by (simp add: committed_layout_def pqv)
  have s: "js_slice 29 33 (committed_layout r) = v" "js_slice 5 21 (committed_layout r) = p"
      "js_slice 21 29 (committed_layout r) = q" "drop 33 (committed_layout r) = receipt_version r"
      "length (committed_layout r) = 33 + length (receipt_version r)"
      "take 4 (committed_layout r) = COMMITTED_MAGIC" "committed_layout r ! 4 = 1"
    by (simp_all add: lay js_slice_def len COMMITTED_MAGIC_def)
  have "le_value v = length (receipt_version r)" "le_value q = receipt_revision r" "bytesToHex p = receipt_id r"
    using assms by (simp_all add: pqv receipt_valid_def bytesToHex_hex_pairs)
  then show ?thesis by (simp add: decodeCommitted_def s)
qed

lemma layout_decode:
  assumes "decodeCommitted y = Inr r" shows "receipt_valid r \<and> committed_layout r = y"
proof -
  from assms have h: "33 \<le> length y" "take 4 y = COMMITTED_MAGIC" "y ! 4 = 1"
    and vl: "length y = 33 + le_value (js_slice 29 33 y)"
    and r: "r = \<lparr>receipt_id = bytesToHex (js_slice 5 21 y), receipt_revision = le_value (js_slice 21 29 y),
                 receipt_version = drop 33 y\<rparr>"
    by (auto simp: decodeCommitted_def Let_def split: if_splits)
  have lens: "length (js_slice 5 21 y) = 16" "length (js_slice 21 29 y) = 8" "length (js_slice 29 33 y) = 4"
    using h(1) by (auto simp: length_js_slice)
  have "le_value (js_slice 21 29 y) < 256 ^ 8" "le_value (js_slice 29 33 y) < 256 ^ 4"
    using le_value_bound [of "js_slice 21 29 y"] le_value_bound [of "js_slice 29 33 y"] lens by simp_all
  with lens vl have "receipt_valid r" by (simp add: r receipt_valid_def bytesToHex_units)
  moreover have "committed_layout r = take 4 y @ [y ! 4] @ js_slice 5 21 y @ js_slice 21 29 y @ js_slice 29 33 y @ drop 33 y"
    using le_bytes_le_value [of "js_slice 21 29 y"] le_bytes_le_value [of "js_slice 29 33 y"] lens vl h
    by (simp add: committed_layout_def r)
  moreover have "\<dots> = y"
  proof -
    have "js_slice a b y @ drop b y = drop a y" if "a \<le> b" for a b
      using that by (metis append_take_drop_id drop_drop js_slice_def le_add_diff_inverse2)
    then have "js_slice 5 21 y @ js_slice 21 29 y @ js_slice 29 33 y @ drop 33 y = drop 5 y" by simp
    moreover have "take 4 y @ y ! 4 # drop 5 y = y" using h(1) id_take_nth_drop [of 4 y] by simp
    ultimately show ?thesis by simp
  qed
  ultimately show ?thesis by simp
qed

interpretation receipt: canonical_codec committed_layout "\<lambda>y. accept (decodeCommitted y)" receipt_valid
  by unfold_locales (auto simp: accept_def decode_layout dest: layout_decode split: sum.splits)

text \<open>A mutation frame read back field by field, as its layout specifies.\<close>

definition mutation_fields :: "bytes \<Rightarrow> (js_text \<times> mutation_kind \<times> bytes) option" where
  "mutation_fields y =
     (if length y > 26 \<and> take 6 y \<in> {MUTATION_MAGIC @ [1, 1], MUTATION_MAGIC @ [1, 2]}
         \<and> le_value (js_slice 22 26 y) = length y - 26
      then Some (bytesToHex (js_slice 6 22 y), if y ! 5 = 1 then Update_Kind else Snapshot_Kind, drop 26 y)
      else None)"

lemma hexToBytes_Inr:
  "hexToBytes mid = Inr bs \<Longrightarrow> length bs = 16 \<and> bytesToHex bs = mid"
  by (auto simp: hexToBytes_def length_hex_pairs bytesToHex_hex_pairs split: if_splits)

text \<open>
  C26. A mutation frame carries its fields: every frame \<open>encodeMutation\<close> builds is exactly 26 bytes
  longer than its payload and reads back to the same identifier, kind and payload, so two
  different mutations never share a frame; and it is built for every non-zero 128-bit lower-case
  identifier and every payload of 1 to 2^32 - 1 bytes.
\<close>

theorem encodeMutation_roundtrip:
  "(case encodeMutation mid kind payload of
      Inl e \<Rightarrow> \<not> (length mid = 32 \<and> list_all is_hex_unit mid \<and> \<not> list_all (\<lambda>c. c = 48) mid
                  \<and> 0 < length payload \<and> length payload < 2 ^ 32)
    | Inr y \<Rightarrow> length y = 26 + length payload \<and> mutation_fields y = Some (mid, kind, payload))"
proof (cases "encodeMutation mid kind payload")
  case (Inl e)
  then show ?thesis by (auto simp: encodeMutation_def hexToBytes_def split: sum.splits if_splits)
next
  case (Inr y)
  then obtain bs where h: "hexToBytes mid = Inr bs" and p: "0 < length payload" "length payload < 2 ^ 32"
    and y: "y = MUTATION_MAGIC @ [1] @ [case kind of Update_Kind \<Rightarrow> 1 | Snapshot_Kind \<Rightarrow> 2] @ bs
                    @ le_bytes 4 (length payload) @ payload"
    by (auto simp: encodeMutation_def split: sum.splits if_splits)
  note bs = hexToBytes_Inr [OF h]
  define v where "v = le_bytes 4 (length payload)"
  have v: "length v = 4" "le_value v = length payload" using p by (simp_all add: v_def)
  have s: "js_slice 22 26 y = v" "js_slice 6 22 y = bs" "drop 26 y = payload" "length y = 26 + length payload"
      "take 6 y = MUTATION_MAGIC @ [1, case kind of Update_Kind \<Rightarrow> 1 | Snapshot_Kind \<Rightarrow> 2]"
      "y ! 5 = (case kind of Update_Kind \<Rightarrow> 1 | Snapshot_Kind \<Rightarrow> 2)"
    by (simp_all add: y v_def [symmetric] v js_slice_def bs MUTATION_MAGIC_def)
  from p bs have "mutation_fields y = Some (mid, kind, payload)"
    by (cases kind) (simp_all add: mutation_fields_def s v)
  with Inr s(4) show ?thesis by simp
qed

text \<open>
  A committed receipt is accepted exactly if it is the canonical encoding of the receipt it
  decodes to: no two byte strings decode to the same receipt, and every receipt with a 128-bit
  identifier, a 64-bit revision and a version below 2^32 bytes can be decoded.
\<close>

theorem decodeCommitted_canonical:
  "decodeCommitted y = Inr r \<longleftrightarrow> receipt_valid r \<and> committed_layout r = y"
  using receipt.dec_eq_Some_iff [of y r] by (cases "decodeCommitted y") (auto simp: accept_def)

section \<open>Base64url\<close>

text \<open>Six-bit groups of a byte string, as \<open>btoa\<close> forms them, and back.\<close>

fun sextets :: "nat list \<Rightarrow> nat list" where
  "sextets (a # b # c # s) = [a div 4, (a mod 4) * 16 + b div 16, (b mod 16) * 4 + c div 64, c mod 64] @ sextets s"
| "sextets [a, b] = [a div 4, (a mod 4) * 16 + b div 16, (b mod 16) * 4]"
| "sextets [a] = [a div 4, (a mod 4) * 16]"
| "sextets [] = []"

fun unsextets :: "nat list \<Rightarrow> nat list option" where
  "unsextets (w # x # y # z # s) =
     map_option (\<lambda>r. [w * 4 + x div 16, (x mod 16) * 16 + y div 4, (y mod 4) * 64 + z] @ r) (unsextets s)"
| "unsextets [w, x, y] = Some [w * 4 + x div 16, (x mod 16) * 16 + y div 4]"
| "unsextets [w, x] = Some [w * 4 + x div 16]"
| "unsextets [w] = None"
| "unsextets [] = Some []"

text \<open>The standard alphabet: letters, digits, \<open>+\<close> and \<open>/\<close>.\<close>

definition b64_unit :: "nat \<Rightarrow> 16 word" where
  "b64_unit d = (if d < 26 then 65 + of_nat d else if d < 52 then 71 + of_nat d
     else if d < 62 then of_nat d - 4 else if d = 62 then 43 else 47)"

definition b64_value :: "16 word \<Rightarrow> nat option" where
  "b64_value c = (let u = unat c in
     if 65 \<le> u \<and> u \<le> 90 then Some (u - 65) else if 97 \<le> u \<and> u \<le> 122 then Some (u - 71)
     else if 48 \<le> u \<and> u \<le> 57 then Some (u + 4) else if u = 43 then Some 62 else if u = 47 then Some 63 else None)"

definition btoa :: "nat list \<Rightarrow> js_text" where
  "btoa bs = map b64_unit (sextets bs) @ replicate ((3 - length bs mod 3) mod 3) 61"

text \<open>Forgiving decoding: up to two \<open>=\<close> are dropped from a length that is a multiple of four.\<close>

definition strip_padding :: "js_text \<Rightarrow> js_text" where
  "strip_padding s =
     (if length s mod 4 \<noteq> 0 then s
      else if length s \<ge> 2 \<and> drop (length s - 2) s = [61, 61] then take (length s - 2) s
      else if s \<noteq> [] \<and> last s = 61 then butlast s else s)"

definition atob :: "js_text \<Rightarrow> nat list option" where
  "atob s =
     (let vs = map b64_value (strip_padding s)
      in if None \<in> set vs then None else unsextets (map the vs))"

definition to_url :: "16 word \<Rightarrow> 16 word" where
  "to_url c = (if c = 43 then 45 else if c = 47 then 95 else c)"

definition from_url :: "16 word \<Rightarrow> 16 word" where
  "from_url c = (if c = 45 then 43 else if c = 95 then 47 else c)"

definition toBase64Url :: "bytes \<Rightarrow> js_text" where
  "toBase64Url bs = rev (dropWhile (\<lambda>c. c = 61) (rev (map to_url (btoa (map unat bs)))))"

definition MAX_SELECTION_ANCHOR_BYTES :: nat where "MAX_SELECTION_ANCHOR_BYTES = 4096"

definition is_base64url_unit :: "16 word \<Rightarrow> bool" where
  "is_base64url_unit c \<longleftrightarrow> 65 \<le> c \<and> c \<le> 90 \<or> 97 \<le> c \<and> c \<le> 122 \<or> 48 \<le> c \<and> c \<le> 57 \<or> c = 95 \<or> c = 45"

text \<open>\<open>Math.ceil(4096 * 4 / 3)\<close> is 5462.\<close>

definition fromBase64Url :: "js_text \<Rightarrow> bytes option" where
  "fromBase64Url value =
     (if value = [] \<or> \<not> list_all is_base64url_unit value then None
      else if length value > 5462 then None
      else case atob (map from_url value @ replicate ((4 - length value mod 4) mod 4) 61) of
             None \<Rightarrow> None
           | Some binary \<Rightarrow>
               if length binary = 0 \<or> length binary > MAX_SELECTION_ANCHOR_BYTES then None
               else let decoded = map of_nat binary
                    in if toBase64Url decoded \<noteq> value then None else Some decoded)"

lemma unsextets_sextets: "list_all (\<lambda>b. b < 256) bs \<Longrightarrow> unsextets (sextets bs) = Some bs"
proof (induction bs rule: sextets.induct)
  case (1 a b c s)
  have x: "((a mod 4) * 16 + b div 16) div 16 = a mod 4" "((a mod 4) * 16 + b div 16) mod 16 = b div 16"
    using 1 by auto
  have y: "((b mod 16) * 4 + c div 64) div 4 = b mod 16" "((b mod 16) * 4 + c div 64) mod 4 = c div 64"
    using 1 by auto
  from 1 x y show ?case by simp
next
  case (2 a b)
  have "((a mod 4) * 16 + b div 16) div 16 = a mod 4" "((a mod 4) * 16 + b div 16) mod 16 = b div 16"
    using 2 by auto
  then show ?case by simp
qed auto

lemma sextets_lt: "list_all (\<lambda>b. b < 256) bs \<Longrightarrow> list_all (\<lambda>d. d < 64) (sextets bs)"
proof (induction bs rule: sextets.induct)
  case (1 a b c s)
  then have "a div 4 < 64" "b div 16 < 16" "c div 64 < 4" by auto
  moreover have "a mod 4 < 4" "b mod 16 < 16" by simp_all
  ultimately show ?case using 1 by (simp add: less_eq_Suc_le)
next
  case (2 a b)
  then have "a div 4 < 64" "b div 16 < 16" "a mod 4 < 4" "b mod 16 < 16" by auto
  then show ?case by simp
next
  case (3 a)
  then have "a div 4 < 64" "a mod 4 < 4" by auto
  then show ?case by simp
qed simp

lemma length_sextets: "length (sextets bs) = 4 * (length bs div 3) + (if length bs mod 3 = 0 then 0 else length bs mod 3 + 1)"
proof (induction bs rule: sextets.induct)
  case (1 a b c s)
  have "length (a # b # c # s) div 3 = 1 + length s div 3" "length (a # b # c # s) mod 3 = length s mod 3" by simp_all
  with 1 show ?case by simp
qed simp_all

lemma length_sextets_mod: "length (sextets bs) mod 4 \<noteq> 1"
proof -
  have "length bs mod 3 < 3" by simp
  then consider "length bs mod 3 = 0" | "length bs mod 3 = 1" | "length bs mod 3 = 2" by linarith
  then show ?thesis
  proof cases
    case 1
    then show ?thesis by (simp add: length_sextets)
  next
    case 2
    then have "length (sextets bs) = 2 + 4 * (length bs div 3)" by (simp add: length_sextets)
    then show ?thesis by (simp only: mod_mult_self2) simp
  next
    case 3
    then have "length (sextets bs) = 3 + 4 * (length bs div 3)" by (simp add: length_sextets)
    then show ?thesis by (simp only: mod_mult_self2) simp
  qed
qed

lemma unat_b64_unit:
  "d < 64 \<Longrightarrow> unat (b64_unit d) = (if d < 26 then 65 + d else if d < 52 then 71 + d
     else if d < 62 then d - 4 else if d = 62 then 43 else 47)"
proof -
  assume "d < 64"
  define n where "n = (if d < 26 then 65 + d else if d < 52 then 71 + d
     else if d < 62 then d - 4 else if d = 62 then 43 else 47)"
  have "n < 123" using \<open>d < 64\<close> by (auto simp: n_def)
  then have "unat (of_nat n :: 16 word) = n" by (simp add: unat_of_nat take_bit_nat_eq_self)
  moreover have "b64_unit d = of_nat n" by (auto simp: b64_unit_def n_def)
  ultimately show ?thesis unfolding n_def [symmetric] by simp
qed

lemma b64_value_unit: "d < 64 \<Longrightarrow> b64_value (b64_unit d) = Some d"
  by (auto simp: b64_value_def unat_b64_unit Let_def)

lemma b64_unit_url:
  assumes "d < 64"
  shows "from_url (to_url (b64_unit d)) = b64_unit d" "to_url (b64_unit d) \<noteq> 61" "is_base64url_unit (to_url (b64_unit d))"
    and "b64_unit d \<noteq> 61"
proof -
  have u: "unat (b64_unit d) \<noteq> 45" "unat (b64_unit d) \<noteq> 95" "unat (b64_unit d) \<noteq> 61"
    using assms by (auto simp: unat_b64_unit)
  then have n: "b64_unit d \<noteq> 45" "b64_unit d \<noteq> 95" "b64_unit d \<noteq> 61"
    by (auto dest: arg_cong [of _ _ unat])
  then show "from_url (to_url (b64_unit d)) = b64_unit d" "to_url (b64_unit d) \<noteq> 61" "b64_unit d \<noteq> 61"
    by (auto simp: from_url_def to_url_def)
  show "is_base64url_unit (to_url (b64_unit d))"
  proof (cases "d < 62")
    case True
    then have u: "65 \<le> unat (b64_unit d) \<and> unat (b64_unit d) \<le> 90 \<or> 97 \<le> unat (b64_unit d) \<and> unat (b64_unit d) \<le> 122
        \<or> 48 \<le> unat (b64_unit d) \<and> unat (b64_unit d) \<le> 57"
      using assms by (simp add: unat_b64_unit) linarith
    then have "b64_unit d \<noteq> 43" "b64_unit d \<noteq> 47" by auto
    then have "to_url (b64_unit d) = b64_unit d" by (simp add: to_url_def)
    with u show ?thesis by (auto simp: is_base64url_unit_def word_le_nat_alt)
  next
    case False
    with assms have "d = 62 \<or> d = 63" by auto
    then show ?thesis by (auto simp: is_base64url_unit_def to_url_def b64_unit_def)
  qed
qed

definition b64_body :: "bytes \<Rightarrow> js_text" where
  "b64_body bs = map b64_unit (sextets (map unat bs))"

lemma bytes_lt: "list_all (\<lambda>b. b < 256) (map unat (bs :: bytes))"
  by (simp add: list_all_iff unat_byte_lt)

lemma body_units: "c \<in> set (b64_body bs) \<Longrightarrow> \<exists>d < 64. c = b64_unit d"
  using sextets_lt [OF bytes_lt, of bs] by (auto simp: b64_body_def list_all_iff)

lemma toBase64Url_body: "toBase64Url bs = map to_url (b64_body bs)"
proof -
  have pad: "to_url 61 = 61" by (simp add: to_url_def)
  have "to_url c \<noteq> 61" if c: "c \<in> set (b64_body bs)" for c
  proof -
    obtain d where "d < 64" "c = b64_unit d" using body_units [OF c] by blast
    then show ?thesis using b64_unit_url(2) by simp
  qed
  then have "61 \<notin> set (rev (map to_url (b64_body bs)))" by auto
  then have "dropWhile (\<lambda>c. c = 61) (rev (map to_url (b64_body bs))) = rev (map to_url (b64_body bs))"
    by (cases "rev (map to_url (b64_body bs))") auto
  then show ?thesis
    by (simp add: toBase64Url_def btoa_def b64_body_def [symmetric] pad dropWhile_append)
qed

lemma strip_padding_padded:
  assumes "61 \<notin> set s" "length s mod 4 \<noteq> 1"
  shows "strip_padding (s @ replicate ((4 - length s mod 4) mod 4) 61) = s"
proof -
  have "length s mod 4 < 4" by simp
  with assms(2) consider "length s mod 4 = 0" | "length s mod 4 = 2" | "length s mod 4 = 3" by linarith
  then show ?thesis
  proof cases
    case 1
    have "drop (length s - 2) s \<noteq> [61, 61]" using assms(1) by (metis in_set_dropD list.set_intros(1))
    moreover have "s \<noteq> [] \<Longrightarrow> last s \<noteq> 61" using assms(1) last_in_set by fastforce
    ultimately show ?thesis using 1 by (auto simp: strip_padding_def)
  next
    case 2
    then have "(length s + 2) mod 4 = 0" by presburger
    with 2 show ?thesis by (simp add: strip_padding_def numeral_2_eq_2)
  next
    case 3
    then have "(length s + 1) mod 4 = 0" by (simp add: mod_Suc)
    moreover have "s \<noteq> []" using 3 by auto
    moreover have "drop (length s - 1) s = [last s]"
      using \<open>s \<noteq> []\<close> by (metis append_butlast_last_id append_eq_conv_conj length_butlast)
    moreover have "last s \<noteq> 61" using assms(1) \<open>s \<noteq> []\<close> last_in_set by fastforce
    moreover have "length (s @ [61]) - 2 = length s - 1" by simp
    then have "drop (length (s @ [61]) - 2) (s @ [61]) = [last s, 61]"
      using \<open>drop (length s - 1) s = [last s]\<close> by (simp only: drop_append) simp
    ultimately show ?thesis using 3 by (simp add: strip_padding_def)
  qed
qed

lemma atob_body: "atob (b64_body bs @ replicate ((4 - length (b64_body bs) mod 4) mod 4) 61) = Some (map unat bs)"
proof -
  have "61 \<notin> set (b64_body bs)"
  proof
    assume "61 \<in> set (b64_body bs)"
    then obtain d where "d < 64" "61 = b64_unit d" using body_units by blast
    with b64_unit_url(4) [of d] show False by simp
  qed
  moreover have "length (b64_body bs) mod 4 \<noteq> 1" using length_sextets_mod by (simp add: b64_body_def)
  ultimately have s: "strip_padding (b64_body bs @ replicate ((4 - length (b64_body bs) mod 4) mod 4) 61) = b64_body bs"
    by (rule strip_padding_padded)
  have "map b64_value (b64_body bs) = map Some (sextets (map unat bs))"
    using sextets_lt [OF bytes_lt, of bs] by (simp add: b64_body_def list_all_iff b64_value_unit)
  then show ?thesis by (simp add: atob_def s Let_def comp_def unsextets_sextets bytes_lt)
qed

lemma fromBase64Url_toBase64Url:
  assumes "0 < length bs" "length bs \<le> MAX_SELECTION_ANCHOR_BYTES"
  shows "fromBase64Url (toBase64Url bs) = Some bs"
proof -
  have std: "map from_url (map to_url (b64_body bs)) = b64_body bs"
    using body_units [of _ bs] b64_unit_url(1) by (auto simp: comp_def intro!: map_idI)
  have units: "list_all is_base64url_unit (map to_url (b64_body bs))"
    using body_units [of _ bs] b64_unit_url(3) by (auto simp: list_all_iff)
  have "4 * (n div 3) + n mod 3 + 1 \<le> 5462" if "n \<le> 4096" for n :: nat using that by presburger
  with assms(2) have le: "length (b64_body bs) \<le> 5462"
    by (auto simp: b64_body_def length_sextets MAX_SELECTION_ANCHOR_BYTES_def)
  have "0 < 4 * (n div 3) + (if n mod 3 = 0 then 0 else n mod 3 + 1)" if "0 < n" for n :: nat
    using that by (auto simp: dvd_def)
  with assms(1) have "0 < length (b64_body bs)" by (simp only: b64_body_def length_sextets length_map)
  with le have len: "length (b64_body bs) \<le> 5462" "b64_body bs \<noteq> []" by auto
  have "map of_nat (map unat bs) = bs" by (simp add: comp_def)
  moreover have "atob (map from_url (toBase64Url bs) @ replicate ((4 - length (toBase64Url bs) mod 4) mod 4) 61) =
      Some (map unat bs)"
    using atob_body [of bs] by (simp only: toBase64Url_body std length_map)
  ultimately show ?thesis
    using assms units len by (simp add: fromBase64Url_def toBase64Url_body)
qed

definition anchor_valid :: "bytes \<Rightarrow> bool" where
  "anchor_valid bs \<longleftrightarrow> 0 < length bs \<and> length bs \<le> MAX_SELECTION_ANCHOR_BYTES"

interpretation anchor: canonical_codec toBase64Url fromBase64Url anchor_valid
proof unfold_locales
  show "fromBase64Url (toBase64Url bs) = Some bs" if "anchor_valid bs" for bs
    using that by (simp add: anchor_valid_def fromBase64Url_toBase64Url)
  show "anchor_valid bs" "toBase64Url bs = y" if "fromBase64Url y = Some bs" for bs y
    using that by (auto simp: anchor_valid_def fromBase64Url_def Let_def split: if_splits option.splits)
qed

section \<open>Selection presence\<close>

text \<open>Parsed JSON: integers are kept exactly, other numbers only as \<open>JFraction\<close>.\<close>

datatype json =
    JNull
  | JBool bool
  | JInt int
  | JFraction
  | JString js_text
  | JArray "json list"
  | JObject "(js_text \<times> json) list"

definition field :: "(js_text \<times> json) list \<Rightarrow> string \<Rightarrow> json option" where
  "field obj name = map_of obj (js name)"

datatype selection_direction = Forward | Backward

record selection_presence =
  sel_anchor :: bytes
  sel_head :: bytes
  sel_direction :: selection_direction
  sel_sequence :: int

definition direction_text :: "selection_direction \<Rightarrow> js_text" where
  "direction_text d = (case d of Forward \<Rightarrow> js ''forward'' | Backward \<Rightarrow> js ''backward'')"

definition isDirection :: "json option \<Rightarrow> selection_direction option" where
  "isDirection v =
     (case v of
        Some (JString s) \<Rightarrow> if s = js ''forward'' then Some Forward else if s = js ''backward'' then Some Backward else None
      | _ \<Rightarrow> None)"

definition isSequence :: "json option \<Rightarrow> int option" where
  "isSequence v = (case v of Some (JInt n) \<Rightarrow> if is_safe_integer n \<and> n \<ge> 0 then Some n else None | _ \<Rightarrow> None)"

definition encodeSelectionPresence :: "selection_presence \<Rightarrow> protocol_error + json" where
  "encodeSelectionPresence v =
     (if \<not> anchor_valid (sel_anchor v) \<or> \<not> anchor_valid (sel_head v) then Inl Bad_Anchor_Length
      else if \<not> (is_safe_integer (sel_sequence v) \<and> sel_sequence v \<ge> 0) then Inl Bad_Sequence
      else Inr (JObject [(js ''v'', JInt 2), (js ''anchor'', JString (toBase64Url (sel_anchor v))),
                         (js ''head'', JString (toBase64Url (sel_head v))),
                         (js ''direction'', JString (direction_text (sel_direction v))),
                         (js ''sequence'', JInt (sel_sequence v))]))"

definition decodeSelectionPresence :: "json \<Rightarrow> selection_presence option" where
  "decodeSelectionPresence v =
     (case v of
        JObject wire \<Rightarrow>
          if field wire ''v'' = Some (JInt 2)
          then (case (field wire ''anchor'', field wire ''head'') of
                  (Some (JString a), Some (JString h)) \<Rightarrow>
                    (case (isDirection (field wire ''direction''), isSequence (field wire ''sequence'')) of
                       (Some d, Some n) \<Rightarrow>
                         (case (fromBase64Url a, fromBase64Url h) of
                            (Some anchor, Some head) \<Rightarrow>
                              Some \<lparr>sel_anchor = anchor, sel_head = head, sel_direction = d, sel_sequence = n\<rparr>
                          | _ \<Rightarrow> None)
                     | _ \<Rightarrow> None)
                | _ \<Rightarrow> None)
          else None
      | _ \<Rightarrow> None)"

definition presence_valid :: "selection_presence \<Rightarrow> bool" where
  "presence_valid v \<longleftrightarrow> anchor_valid (sel_anchor v) \<and> anchor_valid (sel_head v)
     \<and> 0 \<le> sel_sequence v \<and> sel_sequence v \<le> max_safe_integer"

lemma js_inject [simp]: "js s = js t \<longleftrightarrow> s = t"
  by (simp add: js_def inj_map_eq_map inj_def u16_inject)

lemma direction_roundtrip: "isDirection (Some (JString (direction_text d))) = Some d"
  by (cases d) (simp_all add: isDirection_def direction_text_def u16_inject)

lemma decode_encode_presence:
  assumes "presence_valid v"
  shows "\<exists>w. encodeSelectionPresence v = Inr w \<and> decodeSelectionPresence w = Some v"
proof -
  have a: "fromBase64Url (toBase64Url (sel_anchor v)) = Some (sel_anchor v)"
      "fromBase64Url (toBase64Url (sel_head v)) = Some (sel_head v)"
    using assms anchor.dec_enc by (simp_all add: presence_valid_def)
  have names: "distinct [js ''v'', js ''anchor'', js ''head'', js ''direction'', js ''sequence'']"
    by (simp add: u16_inject)
  have "isSequence (Some (JInt (sel_sequence v))) = Some (sel_sequence v)"
    using assms by (simp add: isSequence_def presence_valid_def is_safe_integer_def)
  moreover have "is_safe_integer (sel_sequence v) \<and> 0 \<le> sel_sequence v"
    using assms by (simp add: presence_valid_def is_safe_integer_def)
  ultimately show ?thesis
    using assms names
    by (simp add: encodeSelectionPresence_def presence_valid_def decodeSelectionPresence_def field_def a
        direction_roundtrip del: js_simps)
qed

lemma decode_presence_valid: "decodeSelectionPresence w = Some v \<Longrightarrow> presence_valid v"
  by (auto simp: decodeSelectionPresence_def presence_valid_def isSequence_def is_safe_integer_def
      anchor.dec_valid split: json.splits option.splits if_splits)

text \<open>
  Selection presence survives the wire, and untrusted presence is bounded: every presence with
  anchors of 1 to 4096 bytes and a non-negative safe sequence is encoded and decodes to itself,
  and whatever JSON value is decoded, the result has anchors within that bound. An anchor string
  is accepted only in its canonical spelling.
\<close>

theorem selection_presence_roundtrip:
  "(presence_valid v \<longrightarrow> (\<exists>w. encodeSelectionPresence v = Inr w \<and> decodeSelectionPresence w = Some v))
   \<and> (decodeSelectionPresence w = Some u \<longrightarrow> presence_valid u)
   \<and> (fromBase64Url value = Some bs \<longleftrightarrow> anchor_valid bs \<and> toBase64Url bs = value)"
  using decode_encode_presence decode_presence_valid anchor.dec_eq_Some_iff by blast

definition demo_presence :: selection_presence where
  "demo_presence = \<lparr>sel_anchor = [1, 2], sel_head = [255], sel_direction = Backward, sel_sequence = 7\<rparr>"

theorem selection_presence_roundtrip_witness:
  "\<exists>w. encodeSelectionPresence demo_presence = Inr w \<and> decodeSelectionPresence w = Some demo_presence"
proof -
  have "presence_valid demo_presence"
    by (simp add: presence_valid_def demo_presence_def anchor_valid_def MAX_SELECTION_ANCHOR_BYTES_def)
  with selection_presence_roundtrip [of demo_presence] show ?thesis by blast
qed

end
