(* ===== verification/Presence_Codec.thy ===== *)
theory Presence_Codec
  imports Wire_Protocol
begin

text \<open>
  The byte format of \<open>client/src/collab/presence-store.ts\<close>: the \<open>Writer\<close> and \<open>Reader\<close> classes
  (canonical base-128 integers, length-prefixed fields), \<open>TextEncoder\<close> and the fatal
  \<open>TextDecoder\<close>, and whole presence frames. JSON text is handled by two arguments, \<open>stringify\<close>
  and \<open>parse\<close>; all that is used of them is that parsing undoes stringifying.
\<close>

datatype presence_error =
    Payload_Too_Large | Invalid_Integer | Field_Too_Long | Invalid_Payload_Length | Truncated
  | Integer_Overflow | Non_Canonical | Bad_Field_Length | Bad_Utf8 | Trailing_Bytes
  | Unsupported_Payload | Bad_Frame_Sequence | Too_Many_Entries | Empty_Key | Unsupported_Flags | Bad_Json
  | Bad_Key_Length | Sequence_Exhausted | Bad_Ttl

section \<open>Integers\<close>

text \<open>\<open>Writer.uint\<close>: seven bits at a time, the low ones first, the high bit set on all but the last.\<close>

function put_uint :: "nat \<Rightarrow> bytes" where
  "put_uint v = (let byte = v mod 128; rest = v div 128
     in if rest > 0 then of_nat (byte + 128) # put_uint rest else [of_nat byte])"
  by pat_completeness auto
termination
  by (relation "measure id") auto

declare put_uint.simps [simp del]

text \<open>\<open>Reader.uint\<close>: \<open>byte & 0x7f\<close> and \<open>byte & 0x80\<close> on a byte are remainder and comparison with 128.\<close>

fun get_uint_loop :: "nat \<Rightarrow> nat \<Rightarrow> nat \<Rightarrow> bytes \<Rightarrow> presence_error + nat \<times> bytes" where
  "get_uint_loop value factor n [] = Inl Truncated"
| "get_uint_loop value factor n (b # bs) =
     (let value = value + (unat b mod 128) * factor
      in if value > max_safe_nat then Inl Integer_Overflow
         else if unat b < 128 then (if n > 0 \<and> b = 0 then Inl Non_Canonical else Inr (value, bs))
         else if factor * 128 > max_safe_nat then Inl Integer_Overflow
         else get_uint_loop value (factor * 128) (n + 1) bs)"

definition get_uint :: "bytes \<Rightarrow> presence_error + nat \<times> bytes" where
  "get_uint bs = get_uint_loop 0 1 0 bs"

lemma get_uint_loop_put:
  "v + x * f \<le> 9007199254740991 \<Longrightarrow> n = 0 \<or> 0 < x \<Longrightarrow> 0 < f \<Longrightarrow>
     get_uint_loop v f n (put_uint x @ rest) = Inr (v + x * f, rest)"
proof (induction x arbitrary: v f n rule: put_uint.induct)
  case (1 x)
  show ?case
  proof (cases "x div 128 > 0")
    case False
    then have x: "x < 128" by (simp add: div_eq_0_iff)
    then have "put_uint x = [of_nat x]" by (simp add: put_uint.simps)
    moreover have "unat (of_nat x :: byte) = x" using x by (intro unat_byte_of_nat) simp
    moreover have "(of_nat x :: byte) = 0 \<longleftrightarrow> unat (of_nat x :: byte) = 0" by (rule unsigned_eq_0_iff [symmetric])
    ultimately show ?thesis using x "1.prems" by (simp add: Let_def)
  next
    case True
    define b where "b = x mod 128 + 128"
    have u: "unat (of_nat b :: byte) = b" by (intro unat_byte_of_nat) (simp add: b_def)
    have put: "put_uint x = of_nat b # put_uint (x div 128)"
      using True by (simp add: put_uint.simps [of x] b_def Let_def)
    have bm: "b mod 128 = x mod 128" "\<not> b < 128" by (simp_all add: b_def)
    have split: "v + (x mod 128) * f + (x div 128) * (f * 128) = v + x * f"
    proof -
      have "x * f = (x mod 128 + 128 * (x div 128)) * f" by (simp only: mod_mult_div_eq)
      also have "\<dots> = (x mod 128) * f + (x div 128) * (f * 128)" by (simp only: add_mult_distrib)
      finally show ?thesis by simp
    qed
    then have le: "v + (x mod 128) * f + (x div 128) * (f * 128) \<le> 9007199254740991" using "1.prems"(1) by simp
    moreover have "f * 128 \<le> (x div 128) * (f * 128)" using True by simp
    ultimately have f: "f * 128 \<le> 9007199254740991" "v + (x mod 128) * f \<le> 9007199254740991" by linarith+
    have "get_uint_loop (v + (x mod 128) * f) (f * 128) (n + 1) (put_uint (x div 128) @ rest) =
        Inr (v + (x mod 128) * f + (x div 128) * (f * 128), rest)"
      using "1.IH" [OF refl refl True, of "v + (x mod 128) * f" "f * 128" "n + 1"] le True "1.prems"(3) by simp
    then show ?thesis using f split by (simp add: put u bm Let_def)
  qed
qed

interpretation uint: prefix_codec put_uint get_uint "\<lambda>n. n \<le> max_safe_nat"
  using get_uint_loop_put [of 0 _ 1 0] by unfold_locales (simp add: get_uint_def)

lemma get_uint_bound: "get_uint bs = Inr (n, rest) \<Longrightarrow> n \<le> max_safe_nat"
proof -
  have "get_uint_loop v f k bs = Inr (n, rest) \<Longrightarrow> n \<le> max_safe_nat" for v f k
  proof (induction bs arbitrary: v f k)
    case (Cons b bs)
    then show ?case by (auto simp: Let_def not_less split: if_splits)
  qed simp
  then show "get_uint bs = Inr (n, rest) \<Longrightarrow> n \<le> max_safe_nat" by (simp add: get_uint_def)
qed

section \<open>UTF-8\<close>

text \<open>Code points of a UTF-16 string; a lone surrogate becomes U+FFFD, as \<open>TextEncoder\<close> does.\<close>

fun code_points :: "nat list \<Rightarrow> nat list" where
  "code_points [] = []"
| "code_points (u # us) =
     (if 0xD800 \<le> u \<and> u \<le> 0xDBFF
      then (case us of
              v # vs \<Rightarrow> if 0xDC00 \<le> v \<and> v \<le> 0xDFFF
                        then (0x10000 + (u - 0xD800) * 1024 + (v - 0xDC00)) # code_points vs
                        else 0xFFFD # code_points us
            | [] \<Rightarrow> [0xFFFD])
      else if 0xDC00 \<le> u \<and> u \<le> 0xDFFF then 0xFFFD # code_points us
      else u # code_points us)"

fun code_units :: "nat list \<Rightarrow> nat list" where
  "code_units [] = []"
| "code_units (c # cs) =
     (if c < 0x10000 then c # code_units cs
      else (0xD800 + (c - 0x10000) div 1024) # (0xDC00 + (c - 0x10000) mod 1024) # code_units cs)"

fun well_formed_utf16 :: "nat list \<Rightarrow> bool" where
  "well_formed_utf16 [] \<longleftrightarrow> True"
| "well_formed_utf16 (u # us) \<longleftrightarrow>
     (if 0xD800 \<le> u \<and> u \<le> 0xDBFF
      then (case us of v # vs \<Rightarrow> 0xDC00 \<le> v \<and> v \<le> 0xDFFF \<and> well_formed_utf16 vs | [] \<Rightarrow> False)
      else \<not> (0xDC00 \<le> u \<and> u \<le> 0xDFFF) \<and> u < 65536 \<and> well_formed_utf16 us)"

definition utf8_bytes :: "nat \<Rightarrow> nat list" where
  "utf8_bytes c =
     (if c < 0x80 then [c]
      else if c < 0x800 then [0xC0 + c div 64, 0x80 + c mod 64]
      else if c < 0x10000 then [0xE0 + c div 4096, 0x80 + (c div 64) mod 64, 0x80 + c mod 64]
      else [0xF0 + c div 262144, 0x80 + (c div 4096) mod 64, 0x80 + (c div 64) mod 64, 0x80 + c mod 64])"

definition cont :: "nat \<Rightarrow> bool" where
  "cont b \<longleftrightarrow> 0x80 \<le> b \<and> b \<le> 0xBF"

text \<open>The fatal decoder: shortest forms only, no surrogates, nothing above U+10FFFF.\<close>

fun utf8_decode :: "nat list \<Rightarrow> nat list option" where
  "utf8_decode [] = Some []"
| "utf8_decode (a # s) =
     (if a < 0x80 then map_option (Cons a) (utf8_decode s)
      else if 0xC2 \<le> a \<and> a \<le> 0xDF then
        (case s of
           b # s \<Rightarrow> if cont b then map_option (Cons ((a - 0xC0) * 64 + (b - 0x80))) (utf8_decode s) else None
         | _ \<Rightarrow> None)
      else if 0xE0 \<le> a \<and> a \<le> 0xEF then
        (case s of
           b # c # s \<Rightarrow>
             if cont b \<and> cont c \<and> (a = 0xE0 \<longrightarrow> 0xA0 \<le> b) \<and> (a = 0xED \<longrightarrow> b \<le> 0x9F)
             then map_option (Cons ((a - 0xE0) * 4096 + (b - 0x80) * 64 + (c - 0x80))) (utf8_decode s) else None
         | _ \<Rightarrow> None)
      else if 0xF0 \<le> a \<and> a \<le> 0xF4 then
        (case s of
           b # c # d # s \<Rightarrow>
             if cont b \<and> cont c \<and> cont d \<and> (a = 0xF0 \<longrightarrow> 0x90 \<le> b) \<and> (a = 0xF4 \<longrightarrow> b \<le> 0x8F)
             then map_option (Cons ((a - 0xF0) * 262144 + (b - 0x80) * 4096 + (c - 0x80) * 64 + (d - 0x80))) (utf8_decode s)
             else None
         | _ \<Rightarrow> None)
      else None)"

definition encode_text :: "js_text \<Rightarrow> bytes" where
  "encode_text s = map of_nat (concat (map utf8_bytes (code_points (map unat s))))"

text \<open>A leading byte order mark is dropped by the decoder.\<close>

definition decode_text :: "bytes \<Rightarrow> js_text option" where
  "decode_text bs =
     map_option (\<lambda>cs. map of_nat (code_units (case cs of c # r \<Rightarrow> if c = 0xFEFF then r else cs | [] \<Rightarrow> [])))
       (utf8_decode (map unat bs))"

definition text_ok :: "js_text \<Rightarrow> bool" where
  "text_ok s \<longleftrightarrow> well_formed_utf16 (map unat s) \<and> (case s of [] \<Rightarrow> True | u # _ \<Rightarrow> u \<noteq> 0xFEFF)"

definition scalar :: "nat \<Rightarrow> bool" where
  "scalar c \<longleftrightarrow> c < 0xD800 \<or> 0xDFFF < c \<and> c < 0x110000"

lemma code_points_units:
  "well_formed_utf16 us \<Longrightarrow> code_units (code_points us) = us \<and> list_all scalar (code_points us)"
proof (induction us rule: well_formed_utf16.induct)
  case (2 u us)
  show ?case
  proof (cases "0xD800 \<le> u \<and> u \<le> 0xDBFF")
    case True
    with "2.prems" obtain v vs where us: "us = v # vs" and v: "0xDC00 \<le> v" "v \<le> 0xDFFF" "well_formed_utf16 vs"
      by (auto split: list.splits)
    define k where "k = (u - 0xD800) * 1024 + (v - 0xDC00)"
    have "v - 0xDC00 < 1024" "u - 0xD800 < 1024" using v True by auto
    then have k: "k div 1024 = u - 0xD800" "k mod 1024 = v - 0xDC00" "k < 1048576" by (auto simp: k_def)
    have cp: "code_points (u # us) = (0x10000 + k) # code_points vs" using True v by (simp add: us k_def)
    have "code_units (code_points vs) = vs \<and> list_all scalar (code_points vs)"
      using "2.IH" True us v by auto
    moreover have "scalar (0x10000 + k)" using k(3) by (simp add: scalar_def)
    ultimately show ?thesis using k True v unfolding cp by (simp add: us)
  next
    case False
    with "2.prems" have "u < 65536" "\<not> (0xDC00 \<le> u \<and> u \<le> 0xDFFF)" "well_formed_utf16 us" by auto
    with False "2.IH" show ?thesis by (auto simp: scalar_def)
  qed
qed simp

lemma utf8_decode_bytes:
  assumes "scalar c" shows "utf8_decode (utf8_bytes c @ r) = map_option (Cons c) (utf8_decode r)"
proof -
  consider "c < 0x80" | "0x80 \<le> c" "c < 0x800" | "0x800 \<le> c" "c < 0x10000" | "0x10000 \<le> c" by linarith
  then show ?thesis
  proof cases
    case 1
    then show ?thesis by (simp add: utf8_bytes_def)
  next
    case 2
    define q m where qm: "q = c div 64" "m = c mod 64"
    have "q < 32" "2 \<le> q" "m < 64" "q * 64 + m = c" using 2 by (auto simp: qm)
    moreover have "utf8_bytes c = [192 + q, 128 + m]" using 2 by (simp add: utf8_bytes_def qm)
    ultimately show ?thesis by (simp add: cont_def)
  next
    case 3
    define q m n where qmn: "q = c div 4096" "m = (c div 64) mod 64" "n = c mod 64"
    have "q < 16" "m < 64" "n < 64" using 3 by (auto simp: qmn)
    moreover have c: "q * 4096 + m * 64 + n = c"
    proof -
      have A: "c div 64 = q * 64 + m" using div_mult_mod_eq [of "c div 64" 64] by (simp add: qmn div_mult2_eq [symmetric])
      have "c = c div 64 * 64 + n" by (simp add: qmn)
      also have "\<dots> = (q * 64 + m) * 64 + n" by (simp only: A)
      finally show ?thesis by simp
    qed
    moreover have "q = 0 \<longrightarrow> 32 \<le> m" using 3 \<open>q * 4096 + m * 64 + n = c\<close> \<open>n < 64\<close> by auto
    moreover have "q = 13 \<longrightarrow> m \<le> 31"
    proof
      assume "q = 13"
      with \<open>q * 4096 + m * 64 + n = c\<close> have "53248 + m * 64 + n = c" by simp
      with assms \<open>m < 64\<close> \<open>n < 64\<close> show "m \<le> 31" by (auto simp: scalar_def)
    qed
    moreover have "utf8_bytes c = [224 + q, 128 + m, 128 + n]" using 3 by (simp add: utf8_bytes_def qmn)
    ultimately show ?thesis by (auto simp: cont_def)
  next
    case 4
    define q m n k where qmnk: "q = c div 262144" "m = (c div 4096) mod 64" "n = (c div 64) mod 64" "k = c mod 64"
    have c: "c < 0x110000" using 4 assms by (auto simp: scalar_def)
    then have "q < 5" "m < 64" "n < 64" "k < 64" by (auto simp: qmnk)
    moreover have e: "q * 262144 + m * 4096 + n * 64 + k = c"
    proof -
      have B: "c div 4096 = q * 64 + m"
        using div_mult_mod_eq [of "c div 4096" 64] by (simp add: qmnk div_mult2_eq [symmetric])
      have A: "c div 64 = (c div 4096) * 64 + n"
        using div_mult_mod_eq [of "c div 64" 64] by (simp add: qmnk div_mult2_eq [symmetric])
      have "c = c div 64 * 64 + k" by (simp add: qmnk)
      also have "\<dots> = ((q * 64 + m) * 64 + n) * 64 + k" by (simp only: A B)
      finally show ?thesis by simp
    qed
    moreover have "q = 0 \<longrightarrow> 16 \<le> m" using 4 e \<open>n < 64\<close> \<open>k < 64\<close> by auto
    moreover have "q = 4 \<longrightarrow> m \<le> 15" using c e by auto
    moreover have "utf8_bytes c = [240 + q, 128 + m, 128 + n, 128 + k]" using 4 by (simp add: utf8_bytes_def qmnk)
    ultimately show ?thesis by (auto simp: cont_def)
  qed
qed

lemma utf8_decode_all: "list_all scalar cs \<Longrightarrow> utf8_decode (concat (map utf8_bytes cs)) = Some cs"
  by (induction cs) (simp_all add: utf8_decode_bytes)

lemma utf8_bytes_lt: "scalar c \<Longrightarrow> b \<in> set (utf8_bytes c) \<Longrightarrow> b < 256"
  by (auto simp: utf8_bytes_def scalar_def split: if_splits)

lemma length_utf8_le: "length (encode_text s) \<le> 4 * length s"
proof -
  have cp: "length (code_points us) \<le> length us" for us
    by (induction us rule: code_points.induct) (auto split: list.splits)
  have "length (concat (map utf8_bytes cs)) \<le> 4 * length cs" for cs
    by (induction cs) (auto simp: utf8_bytes_def)
  from this [of "code_points (map unat s)"] show ?thesis
    using cp [of "map unat s"] by (simp add: encode_text_def)
qed

lemma decode_encode_text:
  assumes "text_ok s" shows "decode_text (encode_text s) = Some s"
proof -
  let ?cs = "code_points (map unat s)"
  have cs: "code_units ?cs = map unat s" "list_all scalar ?cs"
    using assms code_points_units by (auto simp: text_ok_def)
  have "map unat (map of_nat (concat (map utf8_bytes ?cs)) :: bytes) = concat (map utf8_bytes ?cs)"
    using cs(2) by (auto simp: list_all_iff intro!: map_idI unat_byte_of_nat utf8_bytes_lt)
  then have dec: "utf8_decode (map unat (encode_text s)) = Some ?cs"
    using utf8_decode_all [OF cs(2)] by (simp add: encode_text_def)
  have "(case ?cs of c # r \<Rightarrow> if c = 0xFEFF then r else ?cs | [] \<Rightarrow> []) = ?cs"
  proof (cases s)
    case (Cons u us)
    have "u \<noteq> 0xFEFF" using assms Cons by (simp add: text_ok_def)
    moreover have "unat (0xFEFF :: 16 word) = 0xFEFF" by simp
    ultimately have "unat u \<noteq> 0xFEFF" by (metis word_unat_eq_iff)
    moreover have "hd ?cs = unat u \<or> 0x10000 \<le> hd ?cs \<or> hd ?cs = 0xFFFD" "?cs \<noteq> []"
      using Cons by (auto split: list.splits)
    ultimately show ?thesis by (cases ?cs) auto
  qed simp
  moreover have "map of_nat (map unat s) = s" by (simp add: comp_def)
  ultimately show ?thesis using dec cs(1) by (simp add: decode_text_def)
qed

section \<open>Fields\<close>

definition get_raw :: "nat \<Rightarrow> bytes \<Rightarrow> presence_error + bytes \<times> bytes" where
  "get_raw n bs = (if length bs < n then Inl Truncated else Inr (take n bs, drop n bs))"

definition get_u8 :: "bytes \<Rightarrow> presence_error + byte \<times> bytes" where
  "get_u8 bs = (case bs of [] \<Rightarrow> Inl Truncated | b # r \<Rightarrow> Inr (b, r))"

definition put_bytes :: "bytes \<Rightarrow> bytes" where
  "put_bytes v = put_uint (length v) @ v"

definition get_bytes :: "nat \<Rightarrow> bytes \<Rightarrow> presence_error + bytes \<times> bytes" where
  "get_bytes maximum bs =
     (case get_uint bs of
        Inl e \<Rightarrow> Inl e
      | Inr (n, r) \<Rightarrow> if n > maximum then Inl Bad_Field_Length else get_raw n r)"

lemma get_bytes_put: "length v \<le> maximum \<Longrightarrow> maximum \<le> max_safe_nat \<Longrightarrow> get_bytes maximum (put_bytes v @ r) = Inr (v, r)"
  using uint.get_put [of "length v" "v @ r"] by (simp add: put_bytes_def get_bytes_def get_raw_def)

definition put_string :: "js_text \<Rightarrow> bytes" where
  "put_string s = put_bytes (encode_text s)"

definition get_string :: "nat \<Rightarrow> bytes \<Rightarrow> presence_error + js_text \<times> bytes" where
  "get_string maximum bs =
     (case get_bytes maximum bs of
        Inl e \<Rightarrow> Inl e
      | Inr (v, r) \<Rightarrow> (case decode_text v of None \<Rightarrow> Inl Bad_Utf8 | Some s \<Rightarrow> Inr (s, r)))"

lemma get_string_put:
  "text_ok s \<Longrightarrow> length (encode_text s) \<le> maximum \<Longrightarrow> maximum \<le> max_safe_nat \<Longrightarrow>
     get_string maximum (put_string s @ r) = Inr (s, r)"
  by (simp add: get_string_def put_string_def get_bytes_put decode_encode_text)

section \<open>Frames\<close>

definition PRESENCE_TAG :: byte where "PRESENCE_TAG = 5"
definition PRESENCE_VERSION :: byte where "PRESENCE_VERSION = 2"
definition FLAG_DELETED :: byte where "FLAG_DELETED = 1"
definition MAX_PRESENCE_BYTES :: nat where "MAX_PRESENCE_BYTES = 65536"
definition MAX_PRESENCE_ENTRIES :: nat where "MAX_PRESENCE_ENTRIES = 256"
definition MAX_KEY_BYTES :: nat where "MAX_KEY_BYTES = 256"
definition MAX_VALUE_BYTES :: nat where "MAX_VALUE_BYTES = 16384"

text \<open>One entry of a decoded frame: a tombstone, or an age with a value.\<close>

datatype 'v frame_entry = Tombstone (fe_key: js_text) | Live (fe_key: js_text) (fe_age: nat) (fe_value: 'v)

record 'v presence_frame =
  fr_instance :: bytes
  fr_sequence :: nat
  fr_entries :: "'v frame_entry list"

definition put_entry :: "('v \<Rightarrow> js_text) \<Rightarrow> 'v frame_entry \<Rightarrow> bytes" where
  "put_entry stringify e =
     (case e of
        Tombstone key \<Rightarrow> put_string key @ [FLAG_DELETED]
      | Live key age v \<Rightarrow> put_string key @ [0] @ put_uint age @ put_string (stringify v))"

definition get_entry :: "(js_text \<Rightarrow> 'v option) \<Rightarrow> bytes \<Rightarrow> presence_error + 'v frame_entry \<times> bytes" where
  "get_entry parse bs =
     (case get_string MAX_KEY_BYTES bs of
        Inl e \<Rightarrow> Inl e
      | Inr (key, r) \<Rightarrow>
          if key = [] then Inl Empty_Key
          else case get_u8 r of
                 Inl e \<Rightarrow> Inl e
               | Inr (flags, r) \<Rightarrow>
                   if flags = FLAG_DELETED then Inr (Tombstone key, r)
                   else if flags \<noteq> 0 then Inl Unsupported_Flags
                   else case get_uint r of
                          Inl e \<Rightarrow> Inl e
                        | Inr (age, r) \<Rightarrow>
                            (case get_string MAX_VALUE_BYTES r of
                               Inl e \<Rightarrow> Inl e
                             | Inr (json, r) \<Rightarrow>
                                 (case parse json of None \<Rightarrow> Inl Bad_Json | Some v \<Rightarrow> Inr (Live key age v, r))))"

fun get_entries :: "(js_text \<Rightarrow> 'v option) \<Rightarrow> nat \<Rightarrow> bytes \<Rightarrow> presence_error + 'v frame_entry list \<times> bytes" where
  "get_entries parse 0 bs = Inr ([], bs)"
| "get_entries parse (Suc n) bs =
     (case get_entry parse bs of
        Inl e \<Rightarrow> Inl e
      | Inr (x, r) \<Rightarrow> (case get_entries parse n r of Inl e \<Rightarrow> Inl e | Inr (xs, r) \<Rightarrow> Inr (x # xs, r)))"

definition put_frame :: "('v \<Rightarrow> js_text) \<Rightarrow> 'v presence_frame \<Rightarrow> bytes" where
  "put_frame stringify f = [PRESENCE_TAG, PRESENCE_VERSION] @ fr_instance f @ put_uint (fr_sequence f)
     @ put_uint (length (fr_entries f)) @ concat (map (put_entry stringify) (fr_entries f))"

definition decodeFrame :: "(js_text \<Rightarrow> 'v option) \<Rightarrow> bytes \<Rightarrow> presence_error + 'v presence_frame" where
  "decodeFrame parse bs =
     (if bs = [] \<or> length bs > MAX_PRESENCE_BYTES then Inl Invalid_Payload_Length
      else case get_u8 bs of
        Inl e \<Rightarrow> Inl e
      | Inr (tag, r) \<Rightarrow>
          if tag \<noteq> PRESENCE_TAG then Inl Unsupported_Payload
          else case get_u8 r of
            Inl e \<Rightarrow> Inl e
          | Inr (version, r) \<Rightarrow>
              if version \<noteq> PRESENCE_VERSION then Inl Unsupported_Payload
              else case get_raw 16 r of
                Inl e \<Rightarrow> Inl e
              | Inr (inst, r) \<Rightarrow>
                  (case get_uint r of
                     Inl e \<Rightarrow> Inl e
                   | Inr (sequence, r) \<Rightarrow>
                       if sequence = 0 then Inl Bad_Frame_Sequence
                       else case get_uint r of
                         Inl e \<Rightarrow> Inl e
                       | Inr (count, r) \<Rightarrow>
                           if count > MAX_PRESENCE_ENTRIES then Inl Too_Many_Entries
                           else case get_entries parse count r of
                             Inl e \<Rightarrow> Inl e
                           | Inr (entries, r) \<Rightarrow>
                               if r \<noteq> [] then Inl Trailing_Bytes
                               else Inr \<lparr>fr_instance = inst, fr_sequence = sequence, fr_entries = entries\<rparr>))"

definition entry_ok :: "('v \<Rightarrow> js_text) \<Rightarrow> 'v frame_entry \<Rightarrow> bool" where
  "entry_ok stringify e \<longleftrightarrow> fe_key e \<noteq> [] \<and> text_ok (fe_key e) \<and> length (encode_text (fe_key e)) \<le> MAX_KEY_BYTES
     \<and> (case e of Tombstone _ \<Rightarrow> True
        | Live _ age v \<Rightarrow> age \<le> max_safe_nat \<and> text_ok (stringify v) \<and> length (encode_text (stringify v)) \<le> MAX_VALUE_BYTES)"

definition frame_ok :: "('v \<Rightarrow> js_text) \<Rightarrow> 'v presence_frame \<Rightarrow> bool" where
  "frame_ok stringify f \<longleftrightarrow> length (fr_instance f) = 16 \<and> 0 < fr_sequence f \<and> fr_sequence f \<le> max_safe_nat
     \<and> length (fr_entries f) \<le> MAX_PRESENCE_ENTRIES \<and> list_all (entry_ok stringify) (fr_entries f)
     \<and> length (put_frame stringify f) \<le> MAX_PRESENCE_BYTES"

lemma get_entry_put:
  assumes "\<And>v. parse (stringify v) = Some v" "entry_ok stringify e"
  shows "get_entry parse (put_entry stringify e @ r) = Inr (e, r)"
proof (cases e)
  case (Tombstone key)
  with assms(2) show ?thesis
    by (simp add: entry_ok_def put_entry_def get_entry_def get_string_put get_u8_def MAX_KEY_BYTES_def FLAG_DELETED_def)
next
  case (Live key age v)
  have fd: "FLAG_DELETED \<noteq> 0" by (simp add: FLAG_DELETED_def)
  from Live assms(2) have ok: "key \<noteq> []" "text_ok key" "length (encode_text key) \<le> MAX_KEY_BYTES" "age \<le> max_safe_nat"
      "text_ok (stringify v)" "length (encode_text (stringify v)) \<le> MAX_VALUE_BYTES"
    by (auto simp: entry_ok_def)
  have caps: "MAX_KEY_BYTES \<le> max_safe_nat" "MAX_VALUE_BYTES \<le> max_safe_nat"
    by (simp_all add: MAX_KEY_BYTES_def MAX_VALUE_BYTES_def)
  from get_string_put [OF ok(2,3) caps(1)] uint.get_put [OF ok(4)] get_string_put [OF ok(5,6) caps(2)] ok(1) fd
  show ?thesis by (auto simp: Live put_entry_def get_entry_def get_u8_def assms(1))
qed

lemma get_entries_put:
  assumes "\<And>v. parse (stringify v) = Some v"
  shows "list_all (entry_ok stringify) es \<Longrightarrow>
     get_entries parse (length es) (concat (map (put_entry stringify) es) @ r) = Inr (es, r)"
  by (induction es) (auto simp: get_entry_put [OF assms])

lemma decode_put_frame:
  assumes "\<And>v. parse (stringify v) = Some v" and "frame_ok stringify f"
  shows "decodeFrame parse (put_frame stringify f) = Inr f"
proof -
  have ok: "length (fr_instance f) = 16" "0 < fr_sequence f" "fr_sequence f \<le> max_safe_nat"
      "length (fr_entries f) \<le> MAX_PRESENCE_ENTRIES" "list_all (entry_ok stringify) (fr_entries f)"
      "length (put_frame stringify f) \<le> MAX_PRESENCE_BYTES"
    using assms(2) by (auto simp: frame_ok_def)
  have count: "length (fr_entries f) \<le> max_safe_nat" using ok(4) by (simp add: MAX_PRESENCE_ENTRIES_def)
  note parts = uint.get_put [OF ok(3)] uint.get_put [OF count] get_entries_put [OF assms(1) ok(5), of "[]"]
  show ?thesis
    using ok parts
    by (simp add: decodeFrame_def put_frame_def get_u8_def get_raw_def)
qed

lemma get_entries_length: "get_entries parse n bs = Inr (es, r) \<Longrightarrow> length es = n"
  by (induction parse n bs arbitrary: es r rule: get_entries.induct) (auto split: sum.splits)

lemma decodeFrame_bounds:
  "decodeFrame parse bs = Inr g \<Longrightarrow>
     fr_sequence g \<noteq> 0 \<and> length (fr_instance g) = 16 \<and> length (fr_entries g) \<le> MAX_PRESENCE_ENTRIES"
  by (auto simp: decodeFrame_def get_raw_def dest!: get_entries_length split: sum.splits if_splits)

text \<open>
  Presence frames survive the wire: whatever frame fits the limits, decoding its bytes returns
  exactly the sequence, the instance and the entries that were written, provided parsing a JSON
  text undoes stringifying; and whatever untrusted bytes are decoded, the result has a non-zero
  sequence, a 16-byte instance and at most 256 entries.
\<close>

theorem presence_frame_roundtrip:
  assumes "\<And>v. parse (stringify v) = Some v" and "frame_ok stringify f"
  shows "decodeFrame parse (put_frame stringify f) = Inr f
    \<and> (decodeFrame parse bs = Inr g \<longrightarrow> fr_sequence g \<noteq> 0 \<and> length (fr_instance g) = 16 \<and> length (fr_entries g) \<le> MAX_PRESENCE_ENTRIES)"
  using decode_put_frame [OF assms] decodeFrame_bounds by blast

definition demo_frame :: "js_text presence_frame" where
  "demo_frame = \<lparr>fr_instance = replicate 16 7, fr_sequence = 1, fr_entries = [Tombstone (js ''k''), Live (js ''a'') 3 (js ''1'')]\<rparr>"

theorem presence_frame_roundtrip_witness:
  "decodeFrame Some (put_frame id demo_frame) = Inr demo_frame"
proof -
  have "frame_ok id demo_frame"
    by (simp add: frame_ok_def demo_frame_def entry_ok_def text_ok_def u16_def encode_text_def utf8_bytes_def
        put_frame_def put_entry_def put_string_def put_bytes_def put_uint.simps MAX_PRESENCE_ENTRIES_def
        MAX_PRESENCE_BYTES_def MAX_KEY_BYTES_def MAX_VALUE_BYTES_def)
  then show ?thesis using presence_frame_roundtrip [of Some id demo_frame] by simp
qed

end
