(* ===== verification/Presence_Store.thy ===== *)
theory Presence_Store
  imports Presence_Codec "HOL-Library.AList"
begin

text \<open>
  The presence store of \<open>client/src/collab/presence-store.ts\<close>: who is where, with a time to live,
  ordered by connection instance and sequence. Time is an argument of each operation (the
  injected \<open>now\<close>), in whole milliseconds; the random connection instance is an argument too.
  The two maps are association lists in insertion order. Published frames are appended to
  \<open>outbox\<close> when there is an update listener; \<open>notified\<close> counts the calls of the listeners.
\<close>

section \<open>State\<close>

record 'v presence_entry =
  pe_value :: "'v option"
  receivedAt :: int
  pe_instance :: js_text
  pe_deleted :: bool
  pe_local :: bool

record 'v presence_store =
  entries :: "(js_text \<times> 'v presence_entry) list"
  greatestSequence :: "(js_text \<times> nat) list"
  ps_instance :: bytes
  ps_sequence :: nat
  ps_destroyed :: bool
  has_update_listeners :: bool
  outbox :: "bytes list"
  notified :: nat

definition MAX_BOOTSTRAP_AGE_MS :: nat where "MAX_BOOTSTRAP_AGE_MS = 30000"

definition instanceKey :: "bytes \<Rightarrow> js_text" where
  "instanceKey bs = bytesToHex bs"

definition new_presence :: "bytes \<Rightarrow> bool \<Rightarrow> 'v presence_store" where
  "new_presence inst listeners = \<lparr>entries = [], greatestSequence = [], ps_instance = inst, ps_sequence = 0,
     ps_destroyed = False, has_update_listeners = listeners, outbox = [], notified = 0\<rparr>"

section \<open>Operations\<close>

definition beginConnectionLifecycle :: "bytes \<Rightarrow> 'v presence_store \<Rightarrow> 'v presence_store" where
  "beginConnectionLifecycle inst s =
     s\<lparr>ps_instance := inst, ps_sequence := 0,
       entries := map (\<lambda>(k, e). (k, if pe_local e then e\<lparr>pe_instance := instanceKey inst\<rparr> else e)) (entries s)\<rparr>"

definition live :: "int \<Rightarrow> int \<Rightarrow> 'v presence_entry option \<Rightarrow> bool" where
  "live ttlMs now e = (case e of None \<Rightarrow> False | Some e \<Rightarrow> \<not> pe_deleted e \<and> now - receivedAt e \<le> ttlMs)"

definition notify :: "'v presence_store \<Rightarrow> 'v presence_store" where
  "notify s = s\<lparr>notified := notified s + 1\<rparr>"

definition sweep :: "int \<Rightarrow> int \<Rightarrow> 'v presence_store \<Rightarrow> 'v presence_store" where
  "sweep ttlMs now s =
     (let expired = (\<lambda>(k, e). now - receivedAt e > ttlMs);
          changed = list_ex (\<lambda>p. expired p \<and> \<not> pe_deleted (snd p)) (entries s);
          s = s\<lparr>entries := filter (\<lambda>p. \<not> expired p) (entries s)\<rparr>
      in if changed then notify s else s)"

definition localKeys :: "'v presence_store \<Rightarrow> js_text list" where
  "localKeys s = map fst (filter (\<lambda>(k, e). pe_local e) (entries s))"

text \<open>The frame entry a publication writes for one key.\<close>

definition published_entry :: "int \<Rightarrow> 'v presence_store \<Rightarrow> js_text \<Rightarrow> 'v frame_entry" where
  "published_entry now s key =
     (case map_of (entries s) key of
        None \<Rightarrow> Tombstone key
      | Some e \<Rightarrow>
          (case pe_value e of
             None \<Rightarrow> Tombstone key
           | Some v \<Rightarrow>
               if pe_deleted e then Tombstone key
               else Live key (min MAX_BOOTSTRAP_AGE_MS (nat (max 0 (now - receivedAt e)))) v))"

definition published_frame :: "int \<Rightarrow> 'v presence_store \<Rightarrow> js_text list \<Rightarrow> 'v presence_frame" where
  "published_frame now s keys =
     \<lparr>fr_instance = ps_instance s, fr_sequence = ps_sequence s + 1, fr_entries = map (published_entry now s) keys\<rparr>"

definition field_too_long :: "('v \<Rightarrow> js_text) \<Rightarrow> 'v frame_entry \<Rightarrow> bool" where
  "field_too_long stringify e \<longleftrightarrow> length (encode_text (fe_key e)) > MAX_KEY_BYTES
     \<or> (case e of Tombstone _ \<Rightarrow> False | Live _ _ v \<Rightarrow> length (encode_text (stringify v)) > MAX_VALUE_BYTES)"

text \<open>
  \<open>publication\<close>: the sequence number is consumed before anything is written; the \<open>Writer\<close> throws
  on a field or a frame that is too long.
\<close>

definition publication :: "('v \<Rightarrow> js_text) \<Rightarrow> int \<Rightarrow> js_text list \<Rightarrow> 'v presence_store
    \<Rightarrow> 'v presence_store \<times> (presence_error + bytes)" where
  "publication stringify now keys s =
     (if ps_sequence s \<ge> max_safe_nat - 1 then (s, Inl Sequence_Exhausted)
      else let f = published_frame now s keys; s = s\<lparr>ps_sequence := ps_sequence s + 1\<rparr>
           in (s, if list_ex (field_too_long stringify) (fr_entries f) then Inl Field_Too_Long
                  else if length (put_frame stringify f) > MAX_PRESENCE_BYTES then Inl Payload_Too_Large
                  else Inr (put_frame stringify f)))"

definition emitLocal :: "('v \<Rightarrow> js_text) \<Rightarrow> int \<Rightarrow> 'v presence_store \<Rightarrow> 'v presence_store \<times> presence_error option" where
  "emitLocal stringify now s =
     (if \<not> has_update_listeners s then (s, None)
      else case publication stringify now (localKeys s) s of
             (s, Inl e) \<Rightarrow> (s, Some e)
           | (s, Inr bs) \<Rightarrow> (s\<lparr>outbox := outbox s @ [bs]\<rparr>, None))"

definition emit_and_notify :: "('v \<Rightarrow> js_text) \<Rightarrow> int \<Rightarrow> 'v presence_store \<Rightarrow> 'v presence_store \<times> presence_error option" where
  "emit_and_notify stringify now s =
     (case emitLocal stringify now s of
        (s, Some e) \<Rightarrow> (s, Some e)
      | (s, None) \<Rightarrow> (notify s, None))"

definition presence_set :: "('v \<Rightarrow> js_text) \<Rightarrow> int \<Rightarrow> js_text \<Rightarrow> 'v \<Rightarrow> 'v presence_store
    \<Rightarrow> 'v presence_store \<times> presence_error option" where
  "presence_set stringify now key v s =
     (if ps_destroyed s then (s, None)
      else if map_of (entries s) key = None \<and> length (entries s) \<ge> MAX_PRESENCE_ENTRIES then (s, Some Too_Many_Entries)
      else if length (encode_text (stringify v)) > MAX_VALUE_BYTES then (s, Some Field_Too_Long)
      else if encode_text key = [] \<or> length (encode_text key) > MAX_KEY_BYTES then (s, Some Bad_Key_Length)
      else emit_and_notify stringify now
             (s\<lparr>entries := AList.update key \<lparr>pe_value = Some v, receivedAt = now,
                  pe_instance = instanceKey (ps_instance s), pe_deleted = False, pe_local = True\<rparr> (entries s)\<rparr>))"

definition presence_get :: "int \<Rightarrow> int \<Rightarrow> js_text \<Rightarrow> 'v presence_store \<Rightarrow> 'v option" where
  "presence_get ttlMs now key s =
     (case map_of (entries s) key of
        None \<Rightarrow> None
      | Some e \<Rightarrow> if live ttlMs now (Some e) then pe_value e else None)"

definition presence_delete :: "('v \<Rightarrow> js_text) \<Rightarrow> int \<Rightarrow> js_text \<Rightarrow> 'v presence_store
    \<Rightarrow> 'v presence_store \<times> presence_error option" where
  "presence_delete stringify now key s =
     (if ps_destroyed s then (s, None)
      else case map_of (entries s) key of
             None \<Rightarrow> (s, None)
           | Some e \<Rightarrow>
               if pe_deleted e then (s, None)
               else emit_and_notify stringify now
                      (s\<lparr>entries := AList.update key \<lparr>pe_value = None, receivedAt = now,
                           pe_instance = instanceKey (ps_instance s), pe_deleted = True, pe_local = True\<rparr> (entries s)\<rparr>))"

definition presence_keys :: "int \<Rightarrow> int \<Rightarrow> 'v presence_store \<Rightarrow> js_text list" where
  "presence_keys ttlMs now s = map fst (filter (\<lambda>(k, e). live ttlMs now (Some e)) (entries s))"

definition getAllStates :: "int \<Rightarrow> int \<Rightarrow> 'v presence_store \<Rightarrow> (js_text \<times> 'v option) list" where
  "getAllStates ttlMs now s =
     map (\<lambda>(k, e). (k, pe_value e)) (filter (\<lambda>(k, e). live ttlMs now (Some e)) (entries s))"

definition encodeAll :: "('v \<Rightarrow> js_text) \<Rightarrow> int \<Rightarrow> 'v presence_store \<Rightarrow> 'v presence_store \<times> (presence_error + bytes)" where
  "encodeAll stringify now s = publication stringify now (localKeys s) s"

text \<open>The loop body of \<open>apply\<close>; the flag is \<open>changed\<close>.\<close>

definition apply_entry :: "int \<Rightarrow> js_text \<Rightarrow> (js_text \<times> 'v presence_entry) list \<times> bool \<Rightarrow> 'v frame_entry
    \<Rightarrow> (js_text \<times> 'v presence_entry) list \<times> bool" where
  "apply_entry now ikey st incoming =
     (let (es, changed) = st; existing = map_of es (fe_key incoming);
          held = (case existing of None \<Rightarrow> False | Some e \<Rightarrow> \<not> pe_deleted e)
      in case incoming of
           Tombstone key \<Rightarrow>
             (AList.update key \<lparr>pe_value = None, receivedAt = now, pe_instance = ikey, pe_deleted = True,
                pe_local = False\<rparr> es, changed \<or> held)
         | Live key age v \<Rightarrow>
             if held \<and> (case existing of None \<Rightarrow> False | Some e \<Rightarrow> pe_instance e \<noteq> ikey) then (es, changed)
             else if age > MAX_BOOTSTRAP_AGE_MS then (es, changed)
             else (AList.update key \<lparr>pe_value = Some v, receivedAt = now, pe_instance = ikey, pe_deleted = False,
                     pe_local = False\<rparr> es, True))"

definition greatest :: "js_text \<Rightarrow> 'v presence_store \<Rightarrow> nat" where
  "greatest ikey s = (case map_of (greatestSequence s) ikey of None \<Rightarrow> 0 | Some n \<Rightarrow> n)"

definition presence_apply :: "(js_text \<Rightarrow> 'v option) \<Rightarrow> int \<Rightarrow> bytes \<Rightarrow> 'v presence_store
    \<Rightarrow> 'v presence_store \<times> presence_error option" where
  "presence_apply parse now bs s =
     (if ps_destroyed s then (s, None)
      else case decodeFrame parse bs of
             Inl e \<Rightarrow> (s, Some e)
           | Inr f \<Rightarrow>
               let ikey = instanceKey (fr_instance f)
               in if fr_sequence f \<le> greatest ikey s then (s, None)
                  else let (es, changed) = foldl (apply_entry now ikey) (entries s, False) (fr_entries f);
                           s = s\<lparr>entries := es, greatestSequence := AList.update ikey (fr_sequence f) (greatestSequence s)\<rparr>
                       in (if changed then notify s else s, None))"

definition presence_destroy :: "'v presence_store \<Rightarrow> 'v presence_store" where
  "presence_destroy s =
     (if ps_destroyed s then s
      else s\<lparr>ps_destroyed := True, entries := [], greatestSequence := [], has_update_listeners := False\<rparr>)"

section \<open>Events\<close>

datatype 'v presence_event =
    P_Set int js_text 'v
  | P_Delete int js_text
  | P_Apply int bytes
  | P_Encode_All int
  | P_Sweep int
  | P_Begin bytes
  | P_Destroy

definition presence_step :: "('v \<Rightarrow> js_text) \<Rightarrow> (js_text \<Rightarrow> 'v option) \<Rightarrow> int
    \<Rightarrow> 'v presence_store \<Rightarrow> 'v presence_event \<Rightarrow> 'v presence_store" where
  "presence_step stringify parse ttlMs s e =
     (case e of
        P_Set now k v \<Rightarrow> fst (presence_set stringify now k v s)
      | P_Delete now k \<Rightarrow> fst (presence_delete stringify now k s)
      | P_Apply now bs \<Rightarrow> fst (presence_apply parse now bs s)
      | P_Encode_All now \<Rightarrow> fst (encodeAll stringify now s)
      | P_Sweep now \<Rightarrow> sweep ttlMs now s
      | P_Begin inst \<Rightarrow> beginConnectionLifecycle inst s
      | P_Destroy \<Rightarrow> presence_destroy s)"

definition presence_inv :: "'v presence_store \<Rightarrow> bool" where
  "presence_inv s \<longleftrightarrow> distinct (map fst (entries s)) \<and> ps_sequence s \<le> max_safe_nat - 1
     \<and> (\<forall>(k, e) \<in> set (entries s). pe_deleted e \<longleftrightarrow> pe_value e = None)"

definition sequences_grow :: "'v presence_store \<Rightarrow> 'v presence_store \<Rightarrow> bool" where
  "sequences_grow s t \<longleftrightarrow> ps_destroyed t \<or> \<not> ps_destroyed s \<and> (\<forall>i. greatest i s \<le> greatest i t)"

definition presence_start :: "'v presence_store \<Rightarrow> bool" where
  "presence_start s \<longleftrightarrow> (\<exists>inst listeners. s = new_presence inst listeners)"

lemma set_alist_update: "set (AList.update k v es) \<subseteq> insert (k, v) (set es)"
  by (induction es) auto

definition entry_values_ok :: "(js_text \<times> 'v presence_entry) list \<Rightarrow> bool" where
  "entry_values_ok es \<longleftrightarrow> distinct (map fst es) \<and> (\<forall>(k, e) \<in> set es. pe_deleted e \<longleftrightarrow> pe_value e = None)"

lemma presence_inv_alt: "presence_inv s \<longleftrightarrow> entry_values_ok (entries s) \<and> ps_sequence s \<le> max_safe_nat - 1"
  by (auto simp: presence_inv_def entry_values_ok_def)

lemma entry_values_update:
  "entry_values_ok es \<Longrightarrow> pe_deleted e \<longleftrightarrow> pe_value e = None \<Longrightarrow> entry_values_ok (AList.update k e es)"
  using set_alist_update [of k e es] by (fastforce simp: entry_values_ok_def distinct_update)

lemma apply_entry_ok: "entry_values_ok (fst st) \<Longrightarrow> entry_values_ok (fst (apply_entry now ikey st x))"
  by (cases st) (auto simp: apply_entry_def Let_def entry_values_update split: frame_entry.splits)

lemma apply_entries_ok: "entry_values_ok (fst st) \<Longrightarrow> entry_values_ok (fst (foldl (apply_entry now ikey) st xs))"
  by (induction xs arbitrary: st) (auto simp: apply_entry_ok)

lemma emit_keeps:
  "entries (fst (emit_and_notify f now s)) = entries s"
  "greatestSequence (fst (emit_and_notify f now s)) = greatestSequence s"
  "ps_destroyed (fst (emit_and_notify f now s)) = ps_destroyed s"
  by (auto simp: emit_and_notify_def emitLocal_def publication_def notify_def Let_def)

lemma emit_sequence:
  "ps_sequence s \<le> 9007199254740990 \<Longrightarrow> ps_sequence (fst (emit_and_notify f now s)) \<le> 9007199254740990"
  by (auto simp: emit_and_notify_def emitLocal_def publication_def notify_def Let_def)

lemma entry_values_reinstance:
  "entry_values_ok es \<Longrightarrow> entry_values_ok (map (\<lambda>(k, e). (k, if pe_local e then e\<lparr>pe_instance := i\<rparr> else e)) es)"
proof -
  have "map fst (map (\<lambda>(k, e). (k, if pe_local e then e\<lparr>pe_instance := i\<rparr> else e)) es) = map fst es" by auto
  then show "entry_values_ok es \<Longrightarrow> ?thesis"
    unfolding entry_values_ok_def by (simp only:) (auto split: if_splits)
qed

lemma presence_step_inv: "presence_inv s \<Longrightarrow> presence_inv (presence_step stringify parse ttl s e)"
proof (cases e)
  case (P_Set now k v)
  assume "presence_inv s"
  with P_Set show ?thesis
    by (auto simp: presence_step_def presence_set_def presence_inv_alt emit_keeps intro!: emit_sequence entry_values_update)
next
  case (P_Delete now k)
  assume "presence_inv s"
  with P_Delete show ?thesis
    by (auto simp: presence_step_def presence_delete_def presence_inv_alt emit_keeps
        intro!: emit_sequence entry_values_update split: option.splits)
next
  case (P_Apply now bs)
  assume "presence_inv s"
  with P_Apply apply_entries_ok [of "(entries s, False)"] show ?thesis
    by (force simp: presence_step_def presence_apply_def presence_inv_alt notify_def Let_def split_def split: sum.splits)
next
  case (P_Begin inst)
  assume "presence_inv s"
  with P_Begin show ?thesis
    by (simp add: presence_step_def beginConnectionLifecycle_def presence_inv_alt entry_values_reinstance)
next
  case (P_Sweep now)
  assume "presence_inv s"
  with P_Sweep show ?thesis
    by (auto simp: presence_step_def sweep_def presence_inv_def notify_def Let_def distinct_map_filter)
qed (auto simp: presence_step_def encodeAll_def publication_def presence_inv_def presence_destroy_def Let_def)

lemma apply_greatest:
  "sequences_grow s (fst (presence_apply parse now bs s))"
  by (auto simp: sequences_grow_def presence_apply_def greatest_def notify_def update_conv' Let_def split_def
      split: sum.splits option.splits)

lemma presence_step_grows: "sequences_grow s (presence_step stringify parse ttl s e)"
  using apply_greatest [of s]
  by (cases e) (auto simp: presence_step_def sequences_grow_def presence_set_def presence_delete_def emit_keeps
      greatest_def encodeAll_def publication_def sweep_def notify_def beginConnectionLifecycle_def presence_destroy_def Let_def
      split: option.splits)

interpretation presence: monotone_machine presence_start "presence_step stringify parse ttl" presence_inv sequences_grow
  for stringify :: "'v \<Rightarrow> js_text" and parse ttl
proof unfold_locales
  show "presence_inv s" if "presence_start s" for s :: "'v presence_store"
    using that by (auto simp: presence_start_def new_presence_def presence_inv_def)
  show "presence_inv (presence_step stringify parse ttl s e)" if "presence_inv s" for s e
    using that by (rule presence_step_inv)
  show "sequences_grow s s" for s :: "'v presence_store" by (simp add: sequences_grow_def)
  show "sequences_grow s u" if "sequences_grow s t" "sequences_grow t u" for s t u :: "'v presence_store"
    using that order_trans by (fastforce simp: sequences_grow_def)
  show "sequences_grow s (presence_step stringify parse ttl s e)" for s e
    by (rule presence_step_grows)
qed

section \<open>Properties\<close>

lemma apply_records:
  assumes "\<not> ps_destroyed s" "decodeFrame parse bs = Inr f"
  shows "fr_sequence f \<le> greatest (instanceKey (fr_instance f)) (fst (presence_apply parse now bs s))
    \<and> \<not> ps_destroyed (fst (presence_apply parse now bs s))"
  using assms by (auto simp: presence_apply_def greatest_def notify_def update_conv' Let_def split_def)

text \<open>
  C14. No replay. Once a frame has been applied, no frame of the same connection instance with the
  same or a lower sequence number ever changes the store again, whatever happens in between:
  publications, other frames, sweeps, new connection lifecycles.
\<close>

theorem presence_no_replay:
  assumes "presence_inv s" and "\<not> ps_destroyed s" and "decodeFrame parse bs = Inr f"
    and "t = foldl (presence_step stringify parse ttl) (fst (presence_apply parse now bs s)) events"
    and "decodeFrame parse old = Inr g" and "fr_instance g = fr_instance f" and "fr_sequence g \<le> fr_sequence f"
  shows "presence_apply parse later old t = (t, None)"
proof -
  let ?s = "fst (presence_apply parse now bs s)"
  have "presence_inv ?s" using presence_step_inv [OF assms(1), of stringify parse ttl "P_Apply now bs"]
    by (simp add: presence_step_def)
  then have "sequences_grow ?s t" unfolding assms(4) by (rule presence.run_le)
  with apply_records [OF assms(2,3), of now] assms(7) have
    "ps_destroyed t \<or> fr_sequence g \<le> greatest (instanceKey (fr_instance f)) t"
    unfolding sequences_grow_def by (metis order_trans)
  with assms(5,6) show ?thesis by (auto simp: presence_apply_def)
qed

theorem presence_no_replay_witness:
  "presence_apply Some 9 (put_frame id demo_frame)
     (fst (presence_apply Some 1 (put_frame id demo_frame) (new_presence [] True))) =
   (fst (presence_apply Some 1 (put_frame id demo_frame) (new_presence [] True)), None)"
proof -
  have d: "decodeFrame Some (put_frame id demo_frame) = Inr demo_frame"
    by (simp add: decodeFrame_def put_frame_def demo_frame_def get_u8_def get_raw_def
        put_entry_def put_string_def put_bytes_def put_uint.simps u16_def encode_text_def utf8_bytes_def
        get_uint_def get_entry_def get_string_def get_bytes_def decode_text_def PRESENCE_TAG_def
        PRESENCE_VERSION_def FLAG_DELETED_def MAX_PRESENCE_BYTES_def MAX_PRESENCE_ENTRIES_def
        MAX_KEY_BYTES_def MAX_VALUE_BYTES_def Let_def)
  have i: "presence_inv (new_presence [] True)" "\<not> ps_destroyed (new_presence [] True)"
    by (simp_all add: presence_inv_def new_presence_def)
  show ?thesis
    by (rule presence_no_replay [where events = "[]" and stringify = id and ttl = 1, OF i d _ d]) simp_all
qed

text \<open>How one entry of a frame, and then a whole frame with distinct keys, changes a look-up.\<close>

lemma apply_entry_other: "k \<noteq> fe_key x \<Longrightarrow> map_of (fst (apply_entry now i st x)) k = map_of (fst st) k"
  by (cases st; cases x) (auto simp: apply_entry_def Let_def update_conv')

lemma apply_entries_other:
  "k \<notin> set (map fe_key xs) \<Longrightarrow> map_of (fst (foldl (apply_entry now i) st xs)) k = map_of (fst st) k"
  by (induction xs arbitrary: st) (auto simp: apply_entry_other)

lemma apply_entry_same:
  assumes "\<And>age v. x = Live k age v \<Longrightarrow> age \<le> MAX_BOOTSTRAP_AGE_MS"
    and "\<And>e. map_of (fst st) (fe_key x) = Some e \<Longrightarrow> pe_deleted e \<or> pe_instance e = i"
    and "fe_key x = k"
  shows "\<exists>e. map_of (fst (apply_entry now i st x)) k = Some e \<and> receivedAt e = now
     \<and> pe_value e = (case x of Tombstone _ \<Rightarrow> None | Live _ _ v \<Rightarrow> Some v) \<and> (pe_deleted e \<longleftrightarrow> pe_value e = None)"
proof (cases x)
  case (Tombstone key)
  with assms(3) show ?thesis by (cases st) (simp add: apply_entry_def update_conv')
next
  case (Live key age v)
  with assms have "age \<le> MAX_BOOTSTRAP_AGE_MS" "key = k" by auto
  with Live assms(2) show ?thesis
    by (cases st) (fastforce simp: apply_entry_def update_conv' Let_def split: option.splits)
qed

lemma apply_entries_lookup:
  assumes "distinct (map fe_key xs)" "x \<in> set xs" "fe_key x = k"
    and "\<And>age v. x = Live k age v \<Longrightarrow> age \<le> MAX_BOOTSTRAP_AGE_MS"
    and "\<And>e. map_of (fst st) k = Some e \<Longrightarrow> pe_deleted e \<or> pe_instance e = i"
  shows "\<exists>e. map_of (fst (foldl (apply_entry now i) st xs)) k = Some e \<and> receivedAt e = now
     \<and> pe_value e = (case x of Tombstone _ \<Rightarrow> None | Live _ _ v \<Rightarrow> Some v) \<and> (pe_deleted e \<longleftrightarrow> pe_value e = None)"
proof -
  from assms(2) obtain ys zs where xs: "xs = ys @ x # zs" by (meson split_list)
  let ?st = "foldl (apply_entry now i) st ys"
  have ys: "map_of (fst ?st) k = map_of (fst st) k"
    using assms(1,3) xs by (intro apply_entries_other) auto
  have "\<exists>e. map_of (fst (apply_entry now i ?st x)) k = Some e \<and> receivedAt e = now
     \<and> pe_value e = (case x of Tombstone _ \<Rightarrow> None | Live _ _ v \<Rightarrow> Some v) \<and> (pe_deleted e \<longleftrightarrow> pe_value e = None)"
    using assms(3,4,5) ys by (intro apply_entry_same) auto
  moreover have "map_of (fst (foldl (apply_entry now i) (apply_entry now i ?st x) zs)) k = map_of (fst (apply_entry now i ?st x)) k"
    using assms(1,3) xs by (intro apply_entries_other) auto
  ultimately show ?thesis by (simp add: xs)
qed

lemma published_keys: "map fe_key (map (published_entry now s) keys) = keys"
  by (induction keys) (auto simp: published_entry_def split: option.splits)

text \<open>
  Presence is seen by the others. A peer that receives a publication shows, for every key the
  publisher owns, exactly the publisher's value for as long as the time to live allows, and shows
  nothing for a key the publisher has deleted, unless another live instance holds that key.
\<close>

theorem presence_publication_reaches_peer:
  assumes "\<And>v. parse (stringify v) = Some v" and "presence_inv a"
    and "encodeAll stringify now a = (a', Inr bs)"
    and "frame_ok stringify (published_frame now a (localKeys a))"
    and "\<not> ps_destroyed b" and "greatest (instanceKey (ps_instance a)) b \<le> ps_sequence a"
    and "map_of (entries a) k = Some e" and "pe_local e"
    and "\<And>h. map_of (entries b) k = Some h \<Longrightarrow> pe_deleted h \<or> pe_instance h = instanceKey (ps_instance a)"
    and "t \<le> later" and "later - t \<le> ttl"
  shows "presence_get ttl later k (fst (presence_apply parse t bs b)) = pe_value e"
proof -
  let ?f = "published_frame now a (localKeys a)" and ?i = "instanceKey (ps_instance a)"
  have bs: "bs = put_frame stringify ?f"
    using assms(3) by (auto simp: encodeAll_def publication_def Let_def split: if_splits)
  have dec: "decodeFrame parse bs = Inr ?f" unfolding bs by (rule decode_put_frame [OF assms(1,4)])
  have mem: "(k, e) \<in> set (entries a)" using assms(7) by (rule map_of_SomeD)
  then have key: "k \<in> set (localKeys a)" using assms(8) by (force simp: localKeys_def)
  have dk: "distinct (localKeys a)"
    using assms(2) by (simp add: localKeys_def presence_inv_def distinct_map_filter)
  have ev: "pe_deleted e \<longleftrightarrow> pe_value e = None" using assms(2) mem by (auto simp: presence_inv_def)
  have "\<exists>h. map_of (fst (foldl (apply_entry t ?i) (entries b, False) (fr_entries ?f))) k = Some h \<and> receivedAt h = t
     \<and> pe_value h = (case published_entry now a k of Tombstone _ \<Rightarrow> None | Live _ _ v \<Rightarrow> Some v)
     \<and> (pe_deleted h \<longleftrightarrow> pe_value h = None)"
  proof (rule apply_entries_lookup)
    show "distinct (map fe_key (fr_entries ?f))" using dk by (simp only: published_frame_def presence_frame.simps published_keys)
    show "published_entry now a k \<in> set (fr_entries ?f)" using key by (simp add: published_frame_def)
    show "fe_key (published_entry now a k) = k" using published_keys [of now a "[k]"] by simp
    show "age \<le> MAX_BOOTSTRAP_AGE_MS" if "published_entry now a k = Live k age v" for age v
      using that by (auto simp: published_entry_def split: option.splits if_splits)
  qed (use assms(9) in auto)
  then obtain h where h: "map_of (fst (foldl (apply_entry t ?i) (entries b, False) (fr_entries ?f))) k = Some h"
      "receivedAt h = t" "pe_value h = pe_value e" "pe_deleted h \<longleftrightarrow> pe_value h = None"
    using ev assms(7) by (auto simp: published_entry_def split: option.splits)
  have "map_of (entries (fst (presence_apply parse t bs b))) k = Some h"
    using assms(5,6) dec h(1) by (auto simp: presence_apply_def published_frame_def notify_def Let_def split_def)
  with h assms(11) show ?thesis by (auto simp: presence_get_def live_def)
qed

definition demo_publisher :: "js_text presence_store" where
  "demo_publisher = (new_presence (replicate 16 7) False)\<lparr>entries :=
     [(js ''a'', \<lparr>pe_value = Some (js ''1''), receivedAt = 0, pe_instance = instanceKey (replicate 16 7),
        pe_deleted = False, pe_local = True\<rparr>)]\<rparr>"

theorem presence_publication_reaches_peer_witness:
  "presence_get 9 6 (js ''a'')
     (fst (presence_apply Some 5 (put_frame id (published_frame 3 demo_publisher (localKeys demo_publisher)))
       (new_presence [] True))) = Some (js ''1'')"
proof -
  let ?f = "published_frame 3 demo_publisher (localKeys demo_publisher)"
  have f: "?f = \<lparr>fr_instance = replicate 16 7, fr_sequence = 1, fr_entries = [Live (js ''a'') 3 (js ''1'')]\<rparr>"
    by (simp add: published_frame_def demo_publisher_def new_presence_def localKeys_def published_entry_def
        MAX_BOOTSTRAP_AGE_MS_def)
  have ok: "frame_ok id ?f" unfolding f
    by (simp add: frame_ok_def entry_ok_def text_ok_def u16_def encode_text_def utf8_bytes_def
        MAX_PRESENCE_ENTRIES_def MAX_KEY_BYTES_def MAX_VALUE_BYTES_def put_frame_def put_entry_def put_string_def
        put_bytes_def put_uint.simps MAX_PRESENCE_BYTES_def Let_def)
  have e: "encodeAll id 3 demo_publisher = (demo_publisher\<lparr>ps_sequence := 1\<rparr>, Inr (put_frame id ?f))"
    unfolding encodeAll_def publication_def f
    by (simp add: demo_publisher_def new_presence_def field_too_long_def u16_def encode_text_def utf8_bytes_def
        MAX_KEY_BYTES_def MAX_VALUE_BYTES_def put_frame_def put_entry_def put_string_def
        put_bytes_def put_uint.simps MAX_PRESENCE_BYTES_def Let_def)
  show ?thesis
    using presence_publication_reaches_peer [OF _ _ e ok, of Some "new_presence [] True" "js ''a''"
        "\<lparr>pe_value = Some (js ''1''), receivedAt = 0, pe_instance = instanceKey (replicate 16 7),
          pe_deleted = False, pe_local = True\<rparr>" 5 6 9]
    by (simp add: demo_publisher_def new_presence_def presence_inv_def greatest_def)
qed

end
