(* ===== verification/Replica_Journal.thy ===== *)
theory Replica_Journal
  imports Wire_Protocol
begin

text \<open>
  The durable journal of a replica, \<open>client/src/collab/journal.ts\<close>: what is stored in IndexedDB
  for one document, how stored values of every version are read back, and the four transactions
  that change it. IndexedDB is a function from keys to stored values; \<open>idbUpdate\<close> is an atomic
  read-modify-write which leaves the store as it was when its callback throws. Each operation runs
  under the persist lock (theory \<open>Persist_Lock\<close>), so it is one step here. Stored numbers are
  whole (versions and timestamps). The copies \<open>slice()\<close> and \<open>cloneRecord\<close> make are values here.
\<close>

unbundle bit_operations_syntax

section \<open>Records\<close>

datatype role = Owner | Editor | Commenter | Viewer | Scratch | Local

record journal_mutation =
  jm_id :: js_text
  jm_kind :: mutation_kind
  jm_bytes :: bytes
  jm_createdAt :: int

record journal =
  j_siteId :: js_text
  j_role :: "role option"
  j_snapshot :: bytes
  j_pending :: "journal_mutation list"
  j_ackedVersion :: "bytes option"
  j_committedRevision :: "js_text option"
  j_lastPruneAt :: int

text \<open>A stored value: what structured clone can hand back, of any shape.\<close>

datatype stored =
    S_Undefined | S_Null | S_Bool bool | S_Number int | S_String js_text | S_Bytes bytes
  | S_Array "stored list" | S_Object "(js_text \<times> stored) list"

definition property :: "stored \<Rightarrow> string \<Rightarrow> stored" where
  "property v name =
     (case v of
        S_Object fs \<Rightarrow> (case map_of fs (js name) of None \<Rightarrow> S_Undefined | Some x \<Rightarrow> x)
      | _ \<Rightarrow> S_Undefined)"

definition as_string :: "stored \<Rightarrow> js_text option" where
  "as_string v = (case v of S_String s \<Rightarrow> Some s | _ \<Rightarrow> None)"

definition as_bytes :: "stored \<Rightarrow> bytes option" where
  "as_bytes v = (case v of S_Bytes b \<Rightarrow> Some b | _ \<Rightarrow> None)"

definition as_number :: "int \<Rightarrow> stored \<Rightarrow> int" where
  "as_number d v = (case v of S_Number n \<Rightarrow> n | _ \<Rightarrow> d)"

definition as_array :: "stored \<Rightarrow> stored list" where
  "as_array v = (case v of S_Array vs \<Rightarrow> vs | _ \<Rightarrow> [])"

section \<open>Reading a stored value\<close>

definition role_text :: "role \<Rightarrow> js_text" where
  "role_text r = (case r of Owner \<Rightarrow> js ''owner'' | Editor \<Rightarrow> js ''editor'' | Commenter \<Rightarrow> js ''commenter''
     | Viewer \<Rightarrow> js ''viewer'' | Scratch \<Rightarrow> js ''scratch'' | Local \<Rightarrow> js ''local'')"

definition persistedRole :: "stored \<Rightarrow> role option" where
  "persistedRole v =
     (case as_string v of
        None \<Rightarrow> None
      | Some s \<Rightarrow> List.find (\<lambda>r. role_text r = s) [Local, Scratch, Owner, Editor, Commenter, Viewer])"

definition kind_text :: "mutation_kind \<Rightarrow> js_text" where
  "kind_text k = (case k of Update_Kind \<Rightarrow> js ''update'' | Snapshot_Kind \<Rightarrow> js ''snapshot'')"

definition kind_of :: "stored \<Rightarrow> mutation_kind option" where
  "kind_of v = (case as_string v of
     None \<Rightarrow> None
   | Some s \<Rightarrow> if s = js ''update'' then Some Update_Kind else if s = js ''snapshot'' then Some Snapshot_Kind else None)"

definition hex32 :: "js_text \<Rightarrow> bool" where
  "hex32 s \<longleftrightarrow> length s = 32 \<and> list_all is_hex_unit s"

text \<open>One item of \<open>pending\<close>: kept or dropped.\<close>

definition pending_item :: "stored \<Rightarrow> journal_mutation list" where
  "pending_item v =
     (case (as_string (property v ''id''), kind_of (property v ''kind''), as_bytes (property v ''bytes'')) of
        (Some i, Some k, Some b) \<Rightarrow>
          if hex32 i
          then [\<lparr>jm_id = i, jm_kind = k, jm_bytes = b, jm_createdAt = as_number 0 (property v ''createdAt'')\<rparr>]
          else []
      | _ \<Rightarrow> [])"

definition FNV_PRIME :: "64 word" where "FNV_PRIME = 0x100000001b3"

fun legacy_fold :: "bytes \<Rightarrow> 64 word \<times> 64 word \<Rightarrow> 64 word \<times> 64 word" where
  "legacy_fold [] st = st"
| "legacy_fold (b # bs) (first, second) =
     legacy_fold bs ((first XOR of_nat (unat b)) * FNV_PRIME, (second XOR of_nat (unat b + 1)) * FNV_PRIME)"

definition legacyMutationId :: "bytes \<Rightarrow> nat \<Rightarrow> js_text" where
  "legacyMutationId bs index =
     (let (first, second) = legacy_fold bs (0xcbf29ce484222325 XOR of_nat index, 0x84222325cbf29ce4 XOR of_nat (length bs));
          first = (if first = 0 \<and> second = 0 then 1 else first)
      in padStart 16 48 (to_radix 16 (unat first)) @ padStart 16 48 (to_radix 16 (unat second)))"

definition legacy_pending :: "bytes list \<Rightarrow> journal_mutation list" where
  "legacy_pending updates =
     map (\<lambda>(index, b). \<lparr>jm_id = legacyMutationId b index, jm_kind = Update_Kind, jm_bytes = b, jm_createdAt = 0\<rparr>)
       (enumerate 0 updates)"

definition normalizeRecord :: "stored \<Rightarrow> journal option" where
  "normalizeRecord v =
     (case (as_string (property v ''siteId''), as_bytes (property v ''snapshot'')) of
        (Some site, Some snap) \<Rightarrow>
          let version = property v ''version''; acked = as_bytes (property v ''ackedVersion'');
              pruned = as_number 0 (property v ''lastPruneAt'')
          in if version = S_Number 3 \<or> version = S_Number 2
             then Some \<lparr>j_siteId = site,
                    j_role = (if version = S_Number 3 then persistedRole (property v ''role'') else None),
                    j_snapshot = snap, j_pending = concat (map pending_item (as_array (property v ''pending''))),
                    j_ackedVersion = acked, j_committedRevision = as_string (property v ''committedRevision''),
                    j_lastPruneAt = pruned\<rparr>
             else if version = S_Number 1
             then Some \<lparr>j_siteId = site, j_role = None, j_snapshot = snap,
                    j_pending = legacy_pending (List.map_filter as_bytes (as_array (property v ''updates''))),
                    j_ackedVersion = acked, j_committedRevision = None, j_lastPruneAt = pruned\<rparr>
             else None
      | _ \<Rightarrow> None)"

text \<open>What a record is stored as.\<close>

definition store_mutation :: "journal_mutation \<Rightarrow> stored" where
  "store_mutation m = S_Object [(js ''id'', S_String (jm_id m)), (js ''kind'', S_String (kind_text (jm_kind m))),
     (js ''bytes'', S_Bytes (jm_bytes m)), (js ''createdAt'', S_Number (jm_createdAt m))]"

definition nullable :: "('a \<Rightarrow> stored) \<Rightarrow> 'a option \<Rightarrow> stored" where
  "nullable f x = (case x of None \<Rightarrow> S_Null | Some a \<Rightarrow> f a)"

definition store_journal :: "journal \<Rightarrow> stored" where
  "store_journal r = S_Object [(js ''version'', S_Number 3), (js ''siteId'', S_String (j_siteId r)),
     (js ''role'', nullable (S_String \<circ> role_text) (j_role r)), (js ''snapshot'', S_Bytes (j_snapshot r)),
     (js ''pending'', S_Array (map store_mutation (j_pending r))),
     (js ''ackedVersion'', nullable S_Bytes (j_ackedVersion r)),
     (js ''committedRevision'', nullable S_String (j_committedRevision r)),
     (js ''lastPruneAt'', S_Number (j_lastPruneAt r))]"

section \<open>Transactions\<close>

datatype journal_error = Id_Reused | Journal_Unavailable

type_synonym idb = "js_text \<Rightarrow> stored"

definition journalCacheKey :: "js_text \<Rightarrow> js_text" where
  "journalCacheKey docId = js ''marks:esbt:journal:'' @ docId"

definition readReplicaJournal :: "js_text \<Rightarrow> idb \<Rightarrow> journal option" where
  "readReplicaJournal docId db = normalizeRecord (db (journalCacheKey docId))"

definition writeReplicaJournal :: "js_text \<Rightarrow> journal \<Rightarrow> idb \<Rightarrow> idb" where
  "writeReplicaJournal docId r db = db(journalCacheKey docId := store_journal r)"

definition deleteReplicaJournal :: "js_text \<Rightarrow> idb \<Rightarrow> idb" where
  "deleteReplicaJournal docId db = db(journalCacheKey docId := S_Undefined)"

definition current_record :: "js_text \<Rightarrow> journal \<Rightarrow> idb \<Rightarrow> journal" where
  "current_record docId fallback db = (case readReplicaJournal docId db of None \<Rightarrow> fallback | Some r \<Rightarrow> r)"

definition updateRecord :: "js_text \<Rightarrow> journal \<Rightarrow> (journal \<Rightarrow> journal_error + journal) \<Rightarrow> idb
    \<Rightarrow> idb \<times> (journal_error + journal)" where
  "updateRecord docId fallback mutate db =
     (case mutate (current_record docId fallback db) of
        Inl e \<Rightarrow> (db, Inl e)
      | Inr written \<Rightarrow> (writeReplicaJournal docId written db, Inr written))"

definition appendMutation :: "journal_mutation \<Rightarrow> journal \<Rightarrow> journal_error + journal" where
  "appendMutation m r =
     (if jm_bytes m = [] then Inr r
      else case List.find (\<lambda>i. jm_id i = jm_id m) (j_pending r) of
             Some e \<Rightarrow> if jm_kind e \<noteq> jm_kind m \<or> jm_bytes e \<noteq> jm_bytes m then Inl Id_Reused else Inr r
           | None \<Rightarrow> Inr (r\<lparr>j_pending := j_pending r @ [m]\<rparr>))"

definition appendPendingMutation :: "js_text \<Rightarrow> journal \<Rightarrow> journal_mutation \<Rightarrow> idb
    \<Rightarrow> idb \<times> (journal_error + journal)" where
  "appendPendingMutation docId fallback m db = updateRecord docId fallback (appendMutation m) db"

definition checkpointReplicaJournal :: "js_text \<Rightarrow> journal \<Rightarrow> bytes \<Rightarrow> idb \<Rightarrow> idb \<times> journal" where
  "checkpointReplicaJournal docId fallback snap db =
     (let written = (current_record docId fallback db)\<lparr>j_snapshot := snap\<rparr>
      in (writeReplicaJournal docId written db, written))"

definition decimal :: "nat \<Rightarrow> js_text" where
  "decimal n = to_radix 10 n"

definition acknowledgePendingMutation :: "js_text \<Rightarrow> journal \<Rightarrow> js_text \<Rightarrow> bytes \<Rightarrow> nat \<Rightarrow> bytes \<Rightarrow> idb
    \<Rightarrow> idb \<times> journal" where
  "acknowledgePendingMutation docId fallback mid version revision snap db =
     (let current = current_record docId fallback db;
          written = current\<lparr>j_snapshot := snap, j_pending := filter (\<lambda>m. jm_id m \<noteq> mid) (j_pending current),
            j_ackedVersion := Some version, j_committedRevision := Some (decimal revision)\<rparr>
      in (writeReplicaJournal docId written db, written))"

definition JOURNAL_PRUNE_INTERVAL_MS :: int where "JOURNAL_PRUNE_INTERVAL_MS = 600000"

definition shouldPruneHistory :: "nat \<Rightarrow> nat \<Rightarrow> int \<Rightarrow> int \<Rightarrow> bool" where
  "shouldPruneHistory threshold retained lastPruneAt now =
     (if retained > threshold then True
      else if lastPruneAt = 0 then False
      else now - lastPruneAt > JOURNAL_PRUNE_INTERVAL_MS)"

text \<open>
  Opening: the read may reject or run past its deadline (\<open>Inl\<close>), and only a successful read
  reaches the continuation.
\<close>

definition readReplicaJournalForOpen :: "'e + journal option \<Rightarrow> journal_error + journal option" where
  "readReplicaJournalForOpen outcome = (case outcome of Inl _ \<Rightarrow> Inl Journal_Unavailable | Inr r \<Rightarrow> Inr r)"

definition openWithReplicaJournal :: "'e + journal option \<Rightarrow> (journal option \<Rightarrow> journal_error + 'a) \<Rightarrow> journal_error + 'a" where
  "openWithReplicaJournal outcome continueOpening =
     (case readReplicaJournalForOpen outcome of Inl e \<Rightarrow> Inl e | Inr s \<Rightarrow> continueOpening s)"

section \<open>Reading back what was stored\<close>

lemma as_values: "as_string (S_String s) = Some s" "as_bytes (S_Bytes b) = Some b" "as_number d (S_Number n) = n"
    "as_array (S_Array vs) = vs"
  by (simp_all add: as_string_def as_bytes_def as_number_def as_array_def)

lemma kind_of_text [simp]: "kind_of (S_String (kind_text k)) = Some k"
  by (cases k) (simp_all add: kind_of_def kind_text_def as_string_def)

lemma persistedRole_text [simp]: "persistedRole (nullable (S_String \<circ> role_text) r) = r"
proof (cases r)
  case (Some x)
  then show ?thesis by (cases x) (simp_all add: nullable_def persistedRole_def as_string_def role_text_def)
qed (simp add: nullable_def persistedRole_def as_string_def)

lemma pending_item_store: "pending_item (store_mutation m) = (if hex32 (jm_id m) then [m] else [])"
  by (simp add: pending_item_def store_mutation_def property_def as_string_def as_bytes_def as_number_def)

lemma pending_items_store:
  "concat (map (pending_item \<circ> store_mutation) ms) = filter (\<lambda>m. hex32 (jm_id m)) ms"
  by (induction ms) (simp_all add: pending_item_store)

lemma as_nullable [simp]: "as_bytes (nullable S_Bytes x) = x" "as_string (nullable S_String y) = y"
  by (auto simp: nullable_def as_bytes_def as_string_def split: option.splits)

lemma store_journal_properties:
  "property (store_journal r) ''siteId'' = S_String (j_siteId r)"
  "property (store_journal r) ''snapshot'' = S_Bytes (j_snapshot r)"
  "property (store_journal r) ''version'' = S_Number 3"
  "property (store_journal r) ''role'' = nullable (S_String \<circ> role_text) (j_role r)"
  "property (store_journal r) ''pending'' = S_Array (map store_mutation (j_pending r))"
  "property (store_journal r) ''ackedVersion'' = nullable S_Bytes (j_ackedVersion r)"
  "property (store_journal r) ''committedRevision'' = nullable S_String (j_committedRevision r)"
  "property (store_journal r) ''lastPruneAt'' = S_Number (j_lastPruneAt r)"
  by (simp_all add: store_journal_def property_def)

lemma normalize_store:
  "normalizeRecord (store_journal r) = Some (r\<lparr>j_pending := filter (\<lambda>m. hex32 (jm_id m)) (j_pending r)\<rparr>)"
  by (simp add: normalizeRecord_def store_journal_properties pending_items_store as_values)

definition journal_ok :: "journal \<Rightarrow> bool" where
  "journal_ok r \<longleftrightarrow> list_all (\<lambda>m. hex32 (jm_id m)) (j_pending r)"

lemma journal_ok_filter: "journal_ok r \<Longrightarrow> r\<lparr>j_pending := filter (\<lambda>m. hex32 (jm_id m)) (j_pending r)\<rparr> = r"
  by (cases r) (auto simp: journal_ok_def list_all_iff intro: filter_True)

lemma to_radix_16:
  "list_all is_hex_unit (to_radix 16 n) \<and> (\<forall>k. n < 16 ^ Suc k \<longrightarrow> length (to_radix 16 n) \<le> Suc k)"
proof (induction n rule: less_induct)
  case (less n)
  show ?case
  proof (cases "n < 16")
    case True
    then show ?thesis by (simp add: to_radix.simps [of 16 n] digit_unit_hex)
  next
    case False
    then have IH: "list_all is_hex_unit (to_radix 16 (n div 16))"
        "\<And>k. n div 16 < 16 ^ Suc k \<Longrightarrow> length (to_radix 16 (n div 16)) \<le> Suc k" using less by auto
    have "length (to_radix 16 n) \<le> Suc k" if "n < 16 ^ Suc k" for k
    proof (cases k)
      case (Suc j)
      with that have "n div 16 < 16 ^ Suc j" by (auto simp: less_mult_imp_div_less mult.commute)
      from IH(2) [OF this] show ?thesis using False Suc by (simp add: to_radix.simps [of 16 n])
    qed (use that False in simp)
    then show ?thesis using IH(1) False by (simp add: to_radix.simps [of 16 n] digit_unit_hex)
  qed
qed

lemma padded_hex:
  "length (padStart 16 48 (to_radix 16 (unat (w :: 64 word)))) = 16"
  "list_all is_hex_unit (padStart 16 48 (to_radix 16 (unat w)))"
proof -
  have "unat w < 16 ^ Suc 15" using unsigned_less [of w] by simp
  then have "length (to_radix 16 (unat w)) \<le> Suc 15" using to_radix_16 by blast
  then show "length (padStart 16 48 (to_radix 16 (unat w))) = 16" by (simp add: padStart_def)
  show "list_all is_hex_unit (padStart 16 48 (to_radix 16 (unat w)))"
    using to_radix_16 [of "unat w"] by (auto simp: padStart_def list_all_iff is_hex_unit_def)
qed

lemma hex32_legacy: "hex32 (legacyMutationId bs i)"
  by (simp add: hex32_def legacyMutationId_def padded_hex Let_def split_def)

lemma pending_item_hex: "m \<in> set (pending_item v) \<Longrightarrow> hex32 (jm_id m)"
  by (auto simp: pending_item_def split: option.splits if_splits)

lemma normalize_ok: "normalizeRecord v = Some r \<Longrightarrow> journal_ok r"
  by (auto simp: normalizeRecord_def journal_ok_def list_all_iff legacy_pending_def hex32_legacy Let_def
      dest: pending_item_hex split: option.splits if_splits)

lemma current_ok: "journal_ok fallback \<Longrightarrow> journal_ok (current_record d fallback db)"
  by (auto simp: current_record_def readReplicaJournal_def dest: normalize_ok split: option.splits)

section \<open>The journal as a retry outbox\<close>

text \<open>
  What a client of the journal relies on. Mutations carry an identifier; adding never drops a
  pending mutation, acknowledging drops exactly the mutations with that identifier, and every
  other event leaves the pending mutations alone.
\<close>

locale retry_outbox =
  fixes ok :: "'s \<Rightarrow> bool" and pend :: "'s \<Rightarrow> 'm list" and ident :: "'m \<Rightarrow> 'i"
    and step :: "'s \<Rightarrow> 'e \<Rightarrow> 's" and acks :: "'e \<Rightarrow> 'i option"
  assumes step_ok: "ok s \<Longrightarrow> ok (step s e)"
    and step_keeps: "ok s \<Longrightarrow> m \<in> set (pend s) \<Longrightarrow> acks e \<noteq> Some (ident m) \<Longrightarrow> m \<in> set (pend (step s e))"
    and step_acks: "ok s \<Longrightarrow> acks e = Some i \<Longrightarrow> pend (step s e) = filter (\<lambda>m. ident m \<noteq> i) (pend s)"
begin

lemma run_ok: "ok s \<Longrightarrow> ok (foldl step s es)"
  by (induction es arbitrary: s) (auto simp: step_ok)

lemma kept_until_ack:
  "ok s \<Longrightarrow> m \<in> set (pend s) \<Longrightarrow> Some (ident m) \<notin> acks ` set es \<Longrightarrow> m \<in> set (pend (foldl step s es))"
proof (induction es arbitrary: s)
  case (Cons e es)
  then have "m \<in> set (pend (step s e))" by (intro step_keeps) auto
  with Cons step_ok show ?case by auto
qed simp

end

datatype journal_event =
    J_Append journal journal_mutation
  | J_Checkpoint journal bytes
  | J_Acknowledge journal js_text bytes nat bytes
  | J_Elsewhere js_text stored

text \<open>
  One step of one document's journal. \<open>J_Elsewhere\<close> is a write under any other key: the journal
  of another document, or another user of the same database.
\<close>

definition journal_step :: "js_text \<Rightarrow> idb \<Rightarrow> journal_event \<Rightarrow> idb" where
  "journal_step d db e =
     (case e of
        J_Append fallback m \<Rightarrow> fst (appendPendingMutation d fallback m db)
      | J_Checkpoint fallback snap \<Rightarrow> fst (checkpointReplicaJournal d fallback snap db)
      | J_Acknowledge fallback mid version revision snap \<Rightarrow>
          fst (acknowledgePendingMutation d fallback mid version revision snap db)
      | J_Elsewhere key v \<Rightarrow> if key = journalCacheKey d then db else db(key := v))"

definition acknowledges :: "journal_event \<Rightarrow> js_text option" where
  "acknowledges e = (case e of J_Acknowledge _ mid _ _ _ \<Rightarrow> Some mid | _ \<Rightarrow> None)"

definition journal_pending :: "js_text \<Rightarrow> idb \<Rightarrow> journal_mutation list" where
  "journal_pending d db = (case readReplicaJournal d db of None \<Rightarrow> [] | Some r \<Rightarrow> j_pending r)"

lemma read_write: "readReplicaJournal d (writeReplicaJournal d r db) =
    Some (r\<lparr>j_pending := filter (\<lambda>m. hex32 (jm_id m)) (j_pending r)\<rparr>)"
  by (simp add: readReplicaJournal_def writeReplicaJournal_def normalize_store)

lemma read_write_other: "d \<noteq> d' \<Longrightarrow> readReplicaJournal d (writeReplicaJournal d' r db) = readReplicaJournal d db"
  by (simp add: readReplicaJournal_def writeReplicaJournal_def journalCacheKey_def)

lemma appendMutation_pending:
  "appendMutation m r = Inr r' \<Longrightarrow> \<exists>ms. j_pending r' = j_pending r @ ms \<and> r' = r\<lparr>j_pending := j_pending r @ ms\<rparr>"
  by (cases r) (auto simp: appendMutation_def split: if_splits option.splits)

lemma read_Some_hex: "readReplicaJournal d db = Some r \<Longrightarrow> m \<in> set (j_pending r) \<Longrightarrow> hex32 (jm_id m)"
  unfolding readReplicaJournal_def using normalize_ok by (auto simp: journal_ok_def list_all_iff)

lemma filter_hex_read [simp]:
  "readReplicaJournal d db = Some r \<Longrightarrow> filter (\<lambda>m. hex32 (jm_id m)) (j_pending r) = j_pending r"
  by (rule filter_True) (auto dest: read_Some_hex)

interpretation journal_outbox: retry_outbox "\<lambda>db. \<exists>r. readReplicaJournal d db = Some r" "journal_pending d" jm_id
  "journal_step d" acknowledges
  for d
proof unfold_locales
  fix db :: idb and e m i
  assume "\<exists>r. readReplicaJournal d db = Some r"
  then obtain r where r: "readReplicaJournal d db = Some r" by blast
  then have cur: "current_record d fallback db = r" for fallback by (simp add: current_record_def)
  have elsewhere: "readReplicaJournal d (db(key := v)) = Some r" if "key \<noteq> journalCacheKey d" for key v
    using r that by (simp add: readReplicaJournal_def)
  show "\<exists>r. readReplicaJournal d (journal_step d db e) = Some r"
    using r elsewhere by (cases e)
      (auto simp: journal_step_def appendPendingMutation_def updateRecord_def checkpointReplicaJournal_def
        acknowledgePendingMutation_def read_write Let_def split: sum.splits)
  show "m \<in> set (journal_pending d (journal_step d db e))"
    if "m \<in> set (journal_pending d db)" "acknowledges e \<noteq> Some (jm_id m)"
  proof (cases e)
    case (J_Append fallback x)
    with that r cur show ?thesis
      by (auto simp: journal_step_def journal_pending_def appendPendingMutation_def updateRecord_def read_write
          dest: appendMutation_pending read_Some_hex split: sum.splits)
  qed (use that r cur elsewhere in \<open>auto simp: journal_step_def journal_pending_def checkpointReplicaJournal_def
        acknowledgePendingMutation_def acknowledges_def read_write Let_def dest: read_Some_hex\<close>)
  show "journal_pending d (journal_step d db e) = filter (\<lambda>m. jm_id m \<noteq> i) (journal_pending d db)"
    if "acknowledges e = Some i"
    using that r cur by (cases e) (auto simp: journal_step_def journal_pending_def acknowledgePendingMutation_def
        acknowledges_def read_write filter_filter conj_commute Let_def dest: read_Some_hex intro!: filter_cong)
qed

section \<open>Migrated identifiers\<close>

lemma foldl_zeros: "foldl (\<lambda>a c. a * r + digit_value c) 0 (replicate k 48) = 0"
  by (induction k) (simp_all add: digit_value_def)

lemma radix_value_padded: "radix_value 16 (padStart k 48 (to_radix 16 n)) = n"
  using radix_value_to_radix [of 16 n] by (simp add: padStart_def radix_value_def foldl_zeros)

lemma padded_inject:
  "padStart 16 48 (to_radix 16 (unat (v :: 64 word))) = padStart 16 48 (to_radix 16 (unat (w :: 64 word))) \<longleftrightarrow> v = w"
  by (metis radix_value_padded word_unat_eq_iff)

lemma padded_zero: "list_all (\<lambda>c. c = 48) (padStart 16 48 (to_radix 16 (unat (w :: 64 word)))) \<Longrightarrow> w = 0"
proof -
  let ?s = "padStart 16 48 (to_radix 16 (unat w))"
  assume "list_all (\<lambda>c. c = 48) ?s"
  then have s: "?s = replicate 16 48" using padded_hex(1) [of w] by (intro replicate_eqI) (auto simp: list_all_iff)
  have "radix_value 16 ?s = 0" unfolding s radix_value_def by (rule foldl_zeros)
  then show ?thesis by (simp add: radix_value_padded unat_eq_zero)
qed

lemma legacyMutationId_words:
  "\<exists>v w. (v \<noteq> 0 \<or> w \<noteq> 0)
     \<and> legacyMutationId bs i = padStart 16 48 (to_radix 16 (unat (v :: 64 word))) @ padStart 16 48 (to_radix 16 (unat (w :: 64 word)))"
proof -
  obtain a b where f: "legacy_fold bs (0xcbf29ce484222325 XOR of_nat i, 0x84222325cbf29ce4 XOR of_nat (length bs)) = (a, b)"
    by fastforce
  show ?thesis unfolding legacyMutationId_def f
    by (intro exI [of _ "if a = 0 \<and> b = 0 then 1 else a"] exI [of _ b]) simp
qed

lemma legacy_id_nonzero: "\<not> list_all (\<lambda>c. c = 48) (legacyMutationId bs i)"
  using legacyMutationId_words [of bs i] padded_zero by (auto simp: list_all_append)

text \<open>The hash step is a bijection of the first word: the multiplier is odd.\<close>

lemma FNV_cancel: "a * FNV_PRIME = b * FNV_PRIME \<Longrightarrow> a = b"
proof -
  assume "a * FNV_PRIME = b * FNV_PRIME"
  then have "a * (FNV_PRIME * 0xce965057aff6957b) = b * (FNV_PRIME * 0xce965057aff6957b)"
    by (simp only: mult.assoc [symmetric])
  moreover have "FNV_PRIME * 0xce965057aff6957b = 1" by (simp add: FNV_PRIME_def)
  ultimately show "a = b" by simp
qed

lemma xor_cancel: "(a :: 64 word) XOR c = b XOR c \<Longrightarrow> a = b"
proof -
  assume "a XOR c = b XOR c"
  then have "(a XOR c) XOR c = (b XOR c) XOR c" by simp
  then show "a = b" by (simp add: xor.assoc)
qed

lemma legacy_fold_first: "fst (legacy_fold bs (a, s)) = fst (legacy_fold bs (b, t)) \<Longrightarrow> a = b"
  by (induction bs arbitrary: a b s t) (auto dest!: FNV_cancel xor_cancel)

lemma legacy_fold_second: "snd (legacy_fold bs (a, s)) = snd (legacy_fold bs (b, s))"
  by (induction bs arbitrary: a b s) auto

section \<open>Appending\<close>

definition same_mutation :: "journal_mutation \<Rightarrow> journal_mutation \<Rightarrow> bool" where
  "same_mutation x m \<longleftrightarrow> jm_id x = jm_id m \<and> jm_kind x = jm_kind m \<and> jm_bytes x = jm_bytes m"

lemma append_written:
  assumes "hex32 (jm_id m)" "jm_bytes m \<noteq> []" "journal_ok fallback"
    and "appendPendingMutation d fallback m db = (db', Inr r)"
  shows "readReplicaJournal d db' = Some r" "\<exists>x \<in> set (j_pending r). same_mutation x m"
proof -
  have r: "appendMutation m (current_record d fallback db) = Inr r" and db': "db' = writeReplicaJournal d r db"
    using assms(4) by (auto simp: appendPendingMutation_def updateRecord_def split: sum.splits)
  have "journal_ok r" using r assms(1) current_ok [OF assms(3), of d db]
    by (auto simp: appendMutation_def journal_ok_def split: option.splits if_splits)
  then show "readReplicaJournal d db' = Some r" by (simp add: db' read_write journal_ok_filter)
  show "\<exists>x \<in> set (j_pending r). same_mutation x m"
    using r assms(2) by (fastforce simp: appendMutation_def same_mutation_def dest: find_SomeD split: option.splits if_splits)
qed

section \<open>Properties\<close>

text \<open>
  C10. An edit is never lost before the server has it: a mutation that the journal of a document
  holds is still there, with its kind and bytes, after any sequence of appends, checkpoints,
  acknowledgements of other mutations and writes under other keys, from whichever tab.
\<close>

theorem pending_until_acknowledged:
  assumes "readReplicaJournal d db = Some r" and "m \<in> set (j_pending r)"
    and "Some (jm_id m) \<notin> acknowledges ` set es"
  shows "\<exists>r'. readReplicaJournal d (foldl (journal_step d) db es) = Some r' \<and> m \<in> set (j_pending r')"
proof -
  have ok: "\<exists>r. readReplicaJournal d db = Some r" using assms(1) by blast
  have "m \<in> set (journal_pending d (foldl (journal_step d) db es))"
    using assms by (intro journal_outbox.kept_until_ack) (simp_all add: journal_pending_def)
  with journal_outbox.run_ok [OF ok, of es] show ?thesis by (auto simp: journal_pending_def)
qed

definition demo_journal :: journal where
  "demo_journal = \<lparr>j_siteId = js ''7'', j_role = Some Editor, j_snapshot = [1], j_pending = [], j_ackedVersion = None,
     j_committedRevision = None, j_lastPruneAt = 0\<rparr>"

definition demo_mutation :: "16 word \<Rightarrow> journal_mutation" where
  "demo_mutation c = \<lparr>jm_id = replicate 32 c, jm_kind = Update_Kind, jm_bytes = [5], jm_createdAt = 0\<rparr>"

lemma demo_hex: "hex32 (jm_id (demo_mutation 49))" "hex32 (jm_id (demo_mutation 50))"
  by (simp_all add: demo_mutation_def hex32_def list_all_iff is_hex_unit_def)

lemma demo_read: "readReplicaJournal [] ((\<lambda>_. S_Undefined)
    (journalCacheKey [] := store_journal (demo_journal\<lparr>j_pending := [demo_mutation 49]\<rparr>))) =
  Some (demo_journal\<lparr>j_pending := [demo_mutation 49]\<rparr>)"
  by (simp add: readReplicaJournal_def normalize_store demo_hex)

theorem pending_until_acknowledged_witness:
  "\<exists>r'. readReplicaJournal [] (foldl (journal_step [])
      ((\<lambda>_. S_Undefined)(journalCacheKey [] := store_journal (demo_journal\<lparr>j_pending := [demo_mutation 49]\<rparr>)))
      [J_Append demo_journal (demo_mutation 50), J_Acknowledge demo_journal (replicate 32 50) [] 1 [2]]) = Some r'
    \<and> demo_mutation 49 \<in> set (j_pending r')"
  by (rule pending_until_acknowledged [OF demo_read])
    (simp_all add: acknowledges_def demo_mutation_def)

text \<open>
  Appending is durable and idempotent: a successful append is read back as the record it
  returned, whose pending list extends the previous one and holds the mutation's identifier, kind
  and bytes, and repeating it changes nothing. It fails only when the identifier is already
  pending with another kind or other bytes, and then the database is as it was.
\<close>

theorem append_is_durable:
  assumes "hex32 (jm_id m)" and "jm_bytes m \<noteq> []" and "journal_ok fallback"
  shows "case appendPendingMutation d fallback m db of
     (db', Inl e) \<Rightarrow> db' = db \<and> (\<exists>x \<in> set (j_pending (current_record d fallback db)).
         jm_id x = jm_id m \<and> (jm_kind x \<noteq> jm_kind m \<or> jm_bytes x \<noteq> jm_bytes m))
   | (db', Inr r) \<Rightarrow> readReplicaJournal d db' = Some r
       \<and> (\<exists>ms. j_pending r = j_pending (current_record d fallback db) @ ms)
       \<and> (\<exists>x \<in> set (j_pending r). same_mutation x m)
       \<and> appendPendingMutation d fallback m db' = (db', Inr r)"
proof (cases "appendMutation m (current_record d fallback db)")
  case (Inl e)
  with assms show ?thesis
    by (auto simp: appendPendingMutation_def updateRecord_def appendMutation_def dest: find_SomeD split: option.splits if_splits)
next
  case (Inr r)
  let ?cur = "current_record d fallback db"
  obtain ms where ms: "j_pending r = j_pending ?cur @ ms" using appendMutation_pending [OF Inr] by blast
  have app: "appendPendingMutation d fallback m db = (writeReplicaJournal d r db, Inr r)"
    using Inr by (simp add: appendPendingMutation_def updateRecord_def)
  note rd = append_written(1) [OF assms app]
  obtain x where x: "x \<in> set (j_pending r)" "same_mutation x m" using append_written(2) [OF assms app] by blast
  have "List.find (\<lambda>i. jm_id i = jm_id m) (j_pending r) =
      (case List.find (\<lambda>i. jm_id i = jm_id m) (j_pending ?cur) of None \<Rightarrow> Some m | Some y \<Rightarrow> Some y)"
    using Inr assms(2) by (auto simp: appendMutation_def find_append' split: option.splits if_splits)
  then have again: "appendMutation m r = Inr r"
    using Inr assms(2) by (auto simp: appendMutation_def split: option.splits if_splits)
  have "appendPendingMutation d fallback m (writeReplicaJournal d r db) = (writeReplicaJournal d r db, Inr r)"
    using again rd by (simp add: appendPendingMutation_def updateRecord_def current_record_def)
      (simp add: writeReplicaJournal_def)
  then show ?thesis using app rd ms x by auto
qed

theorem append_is_durable_witness:
  "\<exists>db' r. appendPendingMutation [] demo_journal (demo_mutation 49) (\<lambda>_. S_Undefined) = (db', Inr r)
     \<and> readReplicaJournal [] db' = Some r"
  using append_is_durable [of "demo_mutation 49" demo_journal "\<lambda>_. S_Undefined" "[]"] demo_hex
  by (simp add: appendPendingMutation_def updateRecord_def current_record_def readReplicaJournal_def
      normalizeRecord_def property_def as_string_def appendMutation_def demo_journal_def demo_mutation_def
      journal_ok_def split: prod.splits sum.splits)

text \<open>
  An acknowledgement removes exactly the mutations it names and records what was committed,
  in one write: afterwards the journal holds the same record with those mutations filtered out,
  the new snapshot, version and revision, and no other document's journal has changed.
\<close>

theorem acknowledge_exact:
  assumes "journal_ok fallback"
  shows "readReplicaJournal d (fst (acknowledgePendingMutation d fallback mid version revision snap db)) =
      Some ((current_record d fallback db)\<lparr>j_snapshot := snap, j_ackedVersion := Some version,
        j_pending := filter (\<lambda>m. jm_id m \<noteq> mid) (j_pending (current_record d fallback db)),
        j_committedRevision := Some (decimal revision)\<rparr>)
    \<and> (d' \<noteq> d \<longrightarrow> readReplicaJournal d' (fst (acknowledgePendingMutation d fallback mid version revision snap db))
        = readReplicaJournal d' db)"
proof -
  let ?cur = "current_record d fallback db"
  have "filter (\<lambda>m. hex32 (jm_id m)) (filter (\<lambda>m. jm_id m \<noteq> mid) (j_pending ?cur)) = filter (\<lambda>m. jm_id m \<noteq> mid) (j_pending ?cur)"
    using current_ok [OF assms, of d db] by (intro filter_True) (auto simp: journal_ok_def list_all_iff)
  then show ?thesis by (simp add: acknowledgePendingMutation_def Let_def read_write read_write_other)
qed

theorem acknowledge_exact_witness:
  "\<exists>r. readReplicaJournal [] (fst (acknowledgePendingMutation [] demo_journal (replicate 32 49) [9] 12 [2]
      ((\<lambda>_. S_Undefined)(journalCacheKey [] := store_journal (demo_journal\<lparr>j_pending := [demo_mutation 49]\<rparr>)))))
    = Some r \<and> j_pending r = []"
  using acknowledge_exact [of demo_journal "[]" "replicate 32 49" "[9]" 12 "[2]"] demo_read
  by (simp add: journal_ok_def demo_journal_def current_record_def demo_mutation_def)

text \<open>
  Reading a journal settles it: what normalisation makes of a stored value of any supported
  version is read back unchanged once it is stored, so migrating twice is migrating once, and
  every pending identifier is 32 lower-case hexadecimal digits.
\<close>

theorem normalize_roundtrip:
  assumes "normalizeRecord v = Some r"
  shows "normalizeRecord (store_journal r) = Some r \<and> list_all (\<lambda>m. hex32 (jm_id m)) (j_pending r)"
  using normalize_ok [OF assms] by (simp add: normalize_store journal_ok_filter) (simp add: journal_ok_def)

definition demo_legacy :: stored where
  "demo_legacy = S_Object [(js ''version'', S_Number 1), (js ''siteId'', S_String []), (js ''snapshot'', S_Bytes []),
     (js ''updates'', S_Array [S_Bytes [1, 2], S_Null])]"

theorem normalize_roundtrip_witness:
  "\<exists>r. normalizeRecord demo_legacy = Some r \<and> normalizeRecord (store_journal r) = Some r \<and> length (j_pending r) = 1"
proof -
  have "\<exists>r. normalizeRecord demo_legacy = Some r \<and> length (j_pending r) = 1"
    by (simp add: normalizeRecord_def demo_legacy_def property_def as_string_def as_bytes_def as_array_def
        legacy_pending_def map_filter_simps)
  then show ?thesis using normalize_roundtrip by blast
qed

text \<open>
  Migrated updates can be sent: every update of a version 1 journal gets an identifier with
  which the mutation encoder accepts it, and two copies of the same update at different
  positions get different identifiers, unless the second hash of those bytes is zero.
\<close>

theorem legacy_ids_usable:
  assumes "bs \<noteq> []" and "length bs < 2 ^ 32"
  shows "(\<exists>y. encodeMutation (legacyMutationId bs i) Update_Kind bs = Inr y)
    \<and> (i < 2 ^ 64 \<and> j < 2 ^ 64 \<and> i \<noteq> j
        \<and> snd (legacy_fold bs (0, 0x84222325cbf29ce4 XOR of_nat (length bs))) \<noteq> 0
        \<longrightarrow> legacyMutationId bs i \<noteq> legacyMutationId bs j)"
proof (intro conjI impI)
  show "\<exists>y. encodeMutation (legacyMutationId bs i) Update_Kind bs = Inr y"
    using assms hex32_legacy [of bs i] legacy_id_nonzero [of bs i]
    by (auto simp: encodeMutation_def hexToBytes_def hex32_def)
next
  let ?f = "\<lambda>i. legacy_fold bs (0xcbf29ce484222325 XOR of_nat i, 0x84222325cbf29ce4 XOR of_nat (length bs))"
  assume a: "i < 2 ^ 64 \<and> j < 2 ^ 64 \<and> i \<noteq> j \<and> snd (legacy_fold bs (0, 0x84222325cbf29ce4 XOR of_nat (length bs))) \<noteq> 0"
  then have nz: "snd (?f i) \<noteq> 0" "snd (?f j) \<noteq> 0" by (metis legacy_fold_second)+
  have "(of_nat i :: 64 word) \<noteq> of_nat j" using a by (simp add: of_nat_inverse word_unat_eq_iff unat_of_nat)
  then have "fst (?f i) \<noteq> fst (?f j)" by (metis legacy_fold_first xor.commute xor_cancel)
  then show "legacyMutationId bs i \<noteq> legacyMutationId bs j"
    using nz by (simp add: legacyMutationId_def split_def Let_def append_eq_append_conv padded_hex(1) padded_inject)
qed

theorem legacy_ids_usable_witness:
  "(\<exists>y. encodeMutation (legacyMutationId [1] 0) Update_Kind [1] = Inr y) \<and> legacyMutationId [1] 0 \<noteq> legacyMutationId [1] 1"
  using legacy_ids_usable [of "[1]" 0 1] by (simp add: FNV_PRIME_def)

text \<open>
  A journal written by a later version of the client is taken for an empty one: reading it
  gives nothing, and the next append replaces it by the fallback record, so its pending
  mutations are gone although nothing acknowledged them.
\<close>

theorem unknown_version_overwritten:
  assumes "property v ''version'' \<notin> {S_Number 1, S_Number 2, S_Number 3}" and "journal_ok fallback"
    and "db (journalCacheKey d) = v"
  shows "readReplicaJournal d db = None
    \<and> readReplicaJournal d (fst (checkpointReplicaJournal d fallback snap db)) = Some (fallback\<lparr>j_snapshot := snap\<rparr>)"
proof -
  have none: "readReplicaJournal d db = None"
    using assms by (auto simp: readReplicaJournal_def normalizeRecord_def Let_def split: option.splits)
  have "filter (\<lambda>m. hex32 (jm_id m)) (j_pending fallback) = j_pending fallback"
    using assms(2) by (intro filter_True) (auto simp: journal_ok_def list_all_iff)
  with none show ?thesis
    by (cases fallback) (simp add: checkpointReplicaJournal_def current_record_def Let_def read_write)
qed

theorem unknown_version_overwritten_witness:
  "\<exists>db. property (db (journalCacheKey [])) ''pending'' = S_Array [store_mutation (demo_mutation 49)]
     \<and> readReplicaJournal [] (fst (checkpointReplicaJournal [] demo_journal [3] db)) = Some (demo_journal\<lparr>j_snapshot := [3]\<rparr>)"
proof -
  let ?v = "S_Object [(js ''version'', S_Number 4), (js ''siteId'', S_String []), (js ''snapshot'', S_Bytes []),
     (js ''pending'', S_Array [store_mutation (demo_mutation 49)])]"
  have "property ?v ''version'' \<notin> {S_Number 1, S_Number 2, S_Number 3}"
    "property ?v ''pending'' = S_Array [store_mutation (demo_mutation 49)]" by (simp_all add: property_def)
  then show ?thesis
    using unknown_version_overwritten [of ?v demo_journal "(\<lambda>_. ?v)" "[]" "[3]"]
    by (intro exI [of _ "\<lambda>_. ?v"]) (simp add: journal_ok_def demo_journal_def)
qed

end
