(* ===== verification/Presence_Activity.thy ===== *)
theory Presence_Activity
  imports Marks_Prelude
begin

text \<open>
  The activity controller of \<open>client/src/collab/presence-activity-controller.ts\<close>: when the user's
  presence may be shown to others. Its two callbacks are outputs: every operation returns the
  publications it makes, in order. The visibility of the page is an argument of the operations
  that read it. Listeners on the window and the document are registered exactly while the
  controller is not \<open>Disconnected\<close>; input events that arrive otherwise are ignored by
  \<open>recordActivity\<close>.
\<close>

datatype activity_state = Active | Idle | Hidden | Disconnected

datatype publish = Publish_Active | Publish_Inactive

record activity =
  current :: activity_state
  idle_timer :: bool

definition new_activity :: activity where
  "new_activity = \<lparr>current = Disconnected, idle_timer = False\<rparr>"

definition clearIdleTimer :: "activity \<Rightarrow> activity" where
  "clearIdleTimer a = a\<lparr>idle_timer := False\<rparr>"

definition armIdleTimer :: "activity \<Rightarrow> activity" where
  "armIdleTimer a = (clearIdleTimer a)\<lparr>idle_timer := True\<rparr>"

definition transitionInactive :: "activity_state \<Rightarrow> activity \<Rightarrow> activity \<times> publish list" where
  "transitionInactive st a =
     ((clearIdleTimer a)\<lparr>current := st\<rparr>, if current a = Active then [Publish_Inactive] else [])"

definition recordActivity :: "bool \<Rightarrow> activity \<Rightarrow> activity \<times> publish list" where
  "recordActivity hidden a =
     (if current a = Disconnected \<or> hidden then (a, [])
      else (armIdleTimer (a\<lparr>current := Active\<rparr>), [Publish_Active]))"

definition activity_start :: "bool \<Rightarrow> activity \<Rightarrow> activity \<times> publish list" where
  "activity_start hidden a =
     (if current a \<noteq> Disconnected then (a, [])
      else let a = a\<lparr>current := Idle\<rparr>
           in if hidden then transitionInactive Hidden a else recordActivity hidden a)"

definition heartbeat :: "activity \<Rightarrow> activity \<times> publish list" where
  "heartbeat a = (a, if current a = Active then [Publish_Active] else [])"

definition activity_disconnect :: "activity \<Rightarrow> activity \<times> publish list" where
  "activity_disconnect a =
     (if current a = Disconnected then (a, [])
      else ((clearIdleTimer a)\<lparr>current := Disconnected\<rparr>, [Publish_Inactive]))"

definition activity_visibility :: "bool \<Rightarrow> activity \<Rightarrow> activity \<times> publish list" where
  "activity_visibility hidden a =
     (if current a \<noteq> Disconnected \<and> hidden then transitionInactive Hidden a else (a, []))"

definition idle_timer_fires :: "activity \<Rightarrow> activity \<times> publish list" where
  "idle_timer_fires a =
     (if \<not> idle_timer a then (a, [])
      else let a = a\<lparr>idle_timer := False\<rparr>
           in if current a = Active then transitionInactive Idle a else (a, []))"

datatype activity_event = A_Start bool | A_Input bool | A_Heartbeat | A_Pagehide | A_Disconnect
  | A_Visibility bool | A_Idle_Timer

fun activity_step :: "activity \<Rightarrow> activity_event \<Rightarrow> activity \<times> publish list" where
  "activity_step a (A_Start hidden) = activity_start hidden a"
| "activity_step a (A_Input hidden) = recordActivity hidden a"
| "activity_step a A_Heartbeat = heartbeat a"
| "activity_step a A_Pagehide = activity_disconnect a"
| "activity_step a A_Disconnect = activity_disconnect a"
| "activity_step a (A_Visibility hidden) = activity_visibility hidden a"
| "activity_step a A_Idle_Timer = idle_timer_fires a"

text \<open>The controller together with everything it has published.\<close>

definition activity_trace_step :: "activity \<times> publish list \<Rightarrow> activity_event \<Rightarrow> activity \<times> publish list" where
  "activity_trace_step st e = (case activity_step (fst st) e of (a, ps) \<Rightarrow> (a, snd st @ ps))"

definition shown :: "publish list \<Rightarrow> bool" where
  "shown ps \<longleftrightarrow> ps \<noteq> [] \<and> last ps = Publish_Active"

definition activity_inv :: "activity \<times> publish list \<Rightarrow> bool" where
  "activity_inv st \<longleftrightarrow> (shown (snd st) \<longleftrightarrow> current (fst st) = Active) \<and> (idle_timer (fst st) \<longleftrightarrow> current (fst st) = Active)"

lemmas activity_ops = activity_start_def recordActivity_def heartbeat_def activity_disconnect_def
  activity_visibility_def idle_timer_fires_def transitionInactive_def armIdleTimer_def clearIdleTimer_def

lemma activity_step_inv: "activity_inv st \<Longrightarrow> activity_inv (activity_trace_step st e)"
  by (cases e) (auto simp: activity_inv_def activity_trace_step_def activity_ops shown_def Let_def)

interpretation activity: event_machine "\<lambda>st. st = (new_activity, [])" activity_trace_step activity_inv
proof unfold_locales
  show "activity_inv s" if "s = (new_activity, [])" for s
    using that by (simp add: activity_inv_def new_activity_def shown_def)
qed (rule activity_step_inv)

text \<open>
  Others see the user exactly while the user is active: after any sequence of inputs, timers,
  heartbeats and visibility changes, the last publication is the active one if and only if the
  controller is in its active state, and then the idle timer that will end it is running.
\<close>

theorem activity_shown_iff_active:
  "case foldl activity_trace_step (new_activity, []) es of
     (a, ps) \<Rightarrow> (shown ps \<longleftrightarrow> current a = Active) \<and> (idle_timer a \<longleftrightarrow> current a = Active)"
  using activity.reachable_inv [OF refl, of es] by (simp add: activity_inv_def split_def)

end
