(* ===== verification/Session_State.thy ===== *)
theory Session_State
  imports Complex_Main Replica_Journal Presence_Store Presence_Activity
begin

text \<open>
  The state of one editing session, \<open>EsbtEngine\<close> of \<open>client/src/collab/esbt-engine.ts\<close>, and its
  leaf operations: capabilities, status, durability waiters, timers and the two ways it stops.

  The session is asynchronous. What JavaScript keeps in promises is explicit here: \<open>lane\<close> is the
  first-in first-out queue of journal transactions behind the persist lock, \<open>settled\<close> the
  transactions whose continuations have not run yet. \<open>disk\<close> is the shared IndexedDB. Effects on
  the outside (frames sent, messages to other tabs, listeners called) are appended to \<open>effects\<close>.
  Everything the session reads from outside during one event is in the record \<open>world\<close>: the clocks,
  the random bytes, which \<open>send\<close> or \<open>close\<close> throws, and the replica operations of the Wasm
  component. Sockets and abort controllers are numbered in the order of their construction.
\<close>

section \<open>Types\<close>

datatype connection_status = Connecting | Saving | Connected | Offline

datatype engine_error = Esbt nat | Other_Error

datatype storage_fault = Append_Failed | Checkpoint_Failed | Commit_Checkpoint_Failed
  | Local_Checkpoint_Failed | Compaction_Failed | Corrupt_Edit

datatype notice = Terminal_Notice nat | Storage_Notice storage_fault | Engine_Notice nat

record room_ticket =
  t_siteId :: js_text
  t_role :: "role option"
  t_scratch :: bool

record session_options =
  o_docId :: js_text
  o_access :: bool
  o_name :: js_text
  o_colorIndex :: int
  o_userId :: js_text

datatype checkpoint_purpose = Plain | Archive | After_Prune

datatype job =
    Append journal journal_mutation bool
  | Ack_Commit journal committed_receipt
  | Ack_Local journal journal_mutation bytes
  | Checkpoint journal checkpoint_purpose

datatype maintenance = No_Maintenance | Awaiting | Settling

datatype effect =
    Connect nat "js_text option"
  | Sent nat bytes
  | Closed nat
  | Tab_Hello
  | Tab_Request
  | Tab_Update bytes
  | Tab_Snapshot bytes
  | Status_Changed connection_status
  | Document_Changed
  | Hydrated
  | Error_Shown notice
  | Local_Text js_text
  | Resolved nat
  | Rejected nat

record 'd world =
  w_now :: real
  w_date :: int
  w_jitter :: real
  w_random :: bytes
  w_instance :: bytes
  w_hidden :: bool
  w_presence_now :: int
  w_send_throws :: "bytes \<Rightarrow> bool"
  w_close_throws :: bool
  w_threshold :: nat
  w_stringify :: "json \<Rightarrow> js_text"
  w_parse :: "js_text \<Rightarrow> json option"
  w_create :: "js_text \<Rightarrow> engine_error + 'd"
  w_version :: "'d \<Rightarrow> bytes"
  w_text :: "'d \<Rightarrow> js_text"
  w_retained :: "'d \<Rightarrow> nat"
  w_import :: "bytes \<Rightarrow> 'd \<Rightarrow> engine_error + 'd \<times> bool"
  w_applySnapshot :: "bytes \<Rightarrow> 'd \<Rightarrow> engine_error + 'd \<times> bool"
  w_exportFull :: "'d \<Rightarrow> engine_error + bytes"
  w_exportUpdate :: "bytes \<Rightarrow> 'd \<Rightarrow> engine_error + bytes"
  w_exportCompact :: "'d \<Rightarrow> engine_error + bytes"
  w_prune :: "bytes \<Rightarrow> 'd \<Rightarrow> engine_error + 'd"

text \<open>
  \<open>doc\<close> says whether \<open>this.doc\<close> is set; \<open>replica\<close> is the component's state, which outlives
  \<open>this.doc\<close> until the last checkpoint has exported it. A timer is the fact that it is armed,
  with its delay where the delay is computed. \<open>views\<close> are the mounted editors with the value of
  their \<open>editable\<close> field.
\<close>

record 'd session =
  opts :: session_options
  loading :: bool
  doc :: bool
  replica :: "'d option"
  socket :: "nat option"
  readyOpen :: bool
  nextSocket :: nat
  admissionAbort :: "nat option"
  nextController :: nat
  reconnectDelay :: real
  reconnectTimer :: "real option"
  graceDeadline :: real
  graceTimer :: bool
  snapshotReplyTimer :: bool
  saveTimer :: bool
  markdownTimer :: bool
  socketDeadline :: "(nat \<times> nat) option"
  socketErrorClose :: "nat option"
  lastServerVV :: "bytes option"
  lastAckedVersion :: "bytes option"
  committedRevision :: nat
  lastPruneAt :: int
  pendingTicket :: "room_ticket option"
  permissionRole :: "role option"
  marksSiteId :: js_text
  destroyed :: bool
  isHydrated :: bool
  localSaved :: bool
  serverSynced :: bool
  pendingMutations :: "(js_text \<times> journal_mutation) list"
  currentStatus :: connection_status
  views :: "(nat \<times> bool) list"
  waiters :: "nat list"
  storageError :: "notice option"
  terminalError :: "notice option"
  storageFatal :: bool
  historyMaintenance :: maintenance
  activity :: activity
  ephemeral :: "json presence_store"
  lane :: "job list"
  settled :: "(job \<times> bool) list"
  disk :: idb
  effects :: "effect list"

definition RECONNECT_MIN_MS :: real where "RECONNECT_MIN_MS = 500"
definition RECONNECT_MAX_MS :: real where "RECONNECT_MAX_MS = 8000"
definition SOCKET_HANDSHAKE_TIMEOUT_MS :: nat where "SOCKET_HANDSHAKE_TIMEOUT_MS = 10000"
definition SOCKET_INITIAL_SYNC_TIMEOUT_MS :: nat where "SOCKET_INITIAL_SYNC_TIMEOUT_MS = 10000"
definition SOCKET_COMMIT_TIMEOUT_MS :: nat where "SOCKET_COMMIT_TIMEOUT_MS = 15000"
definition AUTHORITY_CHANGE_GRACE_MS :: real where "AUTHORITY_CHANGE_GRACE_MS = 15500"
definition CLOSE_INVALID_PAYLOAD :: nat where "CLOSE_INVALID_PAYLOAD = 4400"
definition CLOSE_AUTHORITY_CHANGED :: nat where "CLOSE_AUTHORITY_CHANGED = 4401"
definition CLOSE_FORBIDDEN_WRITE :: nat where "CLOSE_FORBIDDEN_WRITE = 4403"
definition CLOSE_DOCUMENT_DELETED :: nat where "CLOSE_DOCUMENT_DELETED = 4404"
definition MAX_VV_QUERY_BYTES :: nat where "MAX_VV_QUERY_BYTES = 4096"

definition new_session :: "session_options \<Rightarrow> bytes \<Rightarrow> idb \<Rightarrow> 'd session" where
  "new_session options inst db = \<lparr>opts = options, loading = False, doc = False, replica = None, socket = None,
     readyOpen = False, nextSocket = 0, admissionAbort = None, nextController = 0, reconnectDelay = RECONNECT_MIN_MS,
     reconnectTimer = None, graceDeadline = 0, graceTimer = False, snapshotReplyTimer = False, saveTimer = False,
     markdownTimer = False, socketDeadline = None, socketErrorClose = None, lastServerVV = None,
     lastAckedVersion = None, committedRevision = 0, lastPruneAt = 0, pendingTicket = None,
     permissionRole = (if o_access options then None else Some Local), marksSiteId = [], destroyed = False,
     isHydrated = False, localSaved = False, serverSynced = False, pendingMutations = [], currentStatus = Connecting,
     views = [], waiters = [], storageError = None, terminalError = None, storageFatal = False,
     historyMaintenance = No_Maintenance, activity = new_activity, ephemeral = new_presence inst False, lane = [],
     settled = [], disk = db, effects = []\<rparr>"

abbreviation access :: "'d session \<Rightarrow> bool" where "access s \<equiv> o_access (opts s)"
abbreviation docId :: "'d session \<Rightarrow> js_text" where "docId s \<equiv> o_docId (opts s)"
abbreviation stopped :: "'d session \<Rightarrow> bool" where "stopped s \<equiv> destroyed s \<or> storageFatal s"

definition emit :: "effect \<Rightarrow> 'd session \<Rightarrow> 'd session" where
  "emit e s = s\<lparr>effects := effects s @ [e]\<rparr>"

section \<open>Capabilities\<close>

record capabilities =
  cap_role :: "role option"
  cap_edit :: bool
  cap_comment :: bool
  cap_saveVersion :: bool
  cap_manageShares :: bool

definition role_capabilities :: "role option \<Rightarrow> capabilities" where
  "role_capabilities r =
     (let can = (\<lambda>e c v m. \<lparr>cap_role = r, cap_edit = e, cap_comment = c, cap_saveVersion = v, cap_manageShares = m\<rparr>)
      in case r of
           Some Local \<Rightarrow> can True True True False
         | Some Scratch \<Rightarrow> can True False False False
         | Some Owner \<Rightarrow> can True True True True
         | Some Editor \<Rightarrow> can True True True False
         | Some Commenter \<Rightarrow> can False True False False
         | Some Viewer \<Rightarrow> can False False False False
         | None \<Rightarrow> can False False False False)"

definition capabilities :: "'d session \<Rightarrow> capabilities" where
  "capabilities s =
     (let c = role_capabilities (permissionRole s)
      in if storageFatal s \<or> destroyed s
         then c\<lparr>cap_edit := False, cap_comment := False, cap_saveVersion := False, cap_manageShares := False\<rparr>
         else c)"

definition can_edit :: "'d session \<Rightarrow> bool" where
  "can_edit s = cap_edit (capabilities s)"

definition refreshEditorEditable :: "'d session \<Rightarrow> 'd session" where
  "refreshEditorEditable s = s\<lparr>views := map (\<lambda>(v, _). (v, can_edit s)) (views s)\<rparr>"

section \<open>Durability and status\<close>

definition isDurable :: "'d session \<Rightarrow> bool" where
  "isDurable s =
     (if destroyed s \<or> storageFatal s \<or> pendingMutations s \<noteq> [] \<or> \<not> localSaved s then False
      else \<not> access s \<or> (serverSynced s \<and> currentStatus s = Connected))"

definition resolveDurabilityWaiters :: "'d session \<Rightarrow> 'd session" where
  "resolveDurabilityWaiters s =
     (if \<not> isDurable s then s else s\<lparr>effects := effects s @ map Resolved (waiters s), waiters := []\<rparr>)"

definition rejectDurabilityWaiters :: "'d session \<Rightarrow> 'd session" where
  "rejectDurabilityWaiters s = s\<lparr>effects := effects s @ map Rejected (waiters s), waiters := []\<rparr>"

definition setStatus :: "connection_status \<Rightarrow> 'd session \<Rightarrow> 'd session" where
  "setStatus st s =
     (if \<not> storageFatal s \<and> \<not> access s \<and> currentStatus s = Connected then s
      else let st = (if storageFatal s then Offline else if \<not> access s then Connected else st)
           in if currentStatus s = st then s
              else resolveDurabilityWaiters (emit (Status_Changed st) (s\<lparr>currentStatus := st\<rparr>)))"

definition whenDurable :: "nat \<Rightarrow> 'd session \<Rightarrow> 'd session" where
  "whenDurable n s =
     (if isDurable s then emit (Resolved n) s
      else if storageFatal s \<or> destroyed s then emit (Rejected n) s
      else s\<lparr>waiters := waiters s @ [n]\<rparr>)"

definition waiter_times_out :: "nat \<Rightarrow> 'd session \<Rightarrow> 'd session" where
  "waiter_times_out n s = (if n \<in> set (waiters s) then emit (Rejected n) (s\<lparr>waiters := remove1 n (waiters s)\<rparr>) else s)"

section \<open>Timers\<close>

definition clearSocketErrorCloseDeadline :: "nat option \<Rightarrow> 'd session \<Rightarrow> 'd session" where
  "clearSocketErrorCloseDeadline k s =
     (if k \<noteq> None \<and> socketErrorClose s \<noteq> k then s else s\<lparr>socketErrorClose := None\<rparr>)"

definition clearSocketDeadline :: "nat option \<Rightarrow> 'd session \<Rightarrow> 'd session" where
  "clearSocketDeadline k s =
     (if k \<noteq> None \<and> map_option fst (socketDeadline s) \<noteq> k then s else s\<lparr>socketDeadline := None\<rparr>)"

definition armSocketDeadline :: "nat \<Rightarrow> nat \<Rightarrow> 'd session \<Rightarrow> 'd session" where
  "armSocketDeadline k ms s =
     (let s = clearSocketDeadline None s
      in if socket s \<noteq> Some k \<or> destroyed s \<or> storageFatal s then s else s\<lparr>socketDeadline := Some (k, ms)\<rparr>)"

definition clearAuthorityChangeGrace :: "'d session \<Rightarrow> 'd session" where
  "clearAuthorityChangeGrace s = s\<lparr>graceTimer := False, graceDeadline := 0\<rparr>"

definition beginAuthorityChangeGrace :: "'d world \<Rightarrow> 'd session \<Rightarrow> 'd session" where
  "beginAuthorityChangeGrace x s =
     (clearAuthorityChangeGrace s)\<lparr>graceDeadline := w_now x + AUTHORITY_CHANGE_GRACE_MS, graceTimer := True\<rparr>"

definition scheduleLocalSave :: "'d session \<Rightarrow> 'd session" where
  "scheduleLocalSave s = (if destroyed s \<or> storageFatal s then s else s\<lparr>saveTimer := True\<rparr>)"

definition scheduleMarkdownCheckpoint :: "'d session \<Rightarrow> 'd session" where
  "scheduleMarkdownCheckpoint s = (if access s then s else s\<lparr>markdownTimer := True\<rparr>)"

definition flushMarkdownCheckpoint :: "'d world \<Rightarrow> 'd session \<Rightarrow> 'd session" where
  "flushMarkdownCheckpoint x s =
     (if access s \<or> \<not> doc s then s
      else case replica s of None \<Rightarrow> s | Some d \<Rightarrow> emit (Local_Text (w_text x d)) s)"

definition close_socket :: "'d session \<Rightarrow> 'd session" where
  "close_socket s =
     (case socket s of None \<Rightarrow> s | Some k \<Rightarrow> emit (Closed k) (s\<lparr>socket := None, readyOpen := False\<rparr>))"

section \<open>The journal\<close>

definition emptyRecord :: "'d session \<Rightarrow> journal" where
  "emptyRecord s = \<lparr>j_siteId = marksSiteId s, j_role = permissionRole s, j_snapshot = [],
     j_pending = map snd (pendingMutations s), j_ackedVersion = lastAckedVersion s,
     j_committedRevision = Some (decimal (committedRevision s)), j_lastPruneAt = lastPruneAt s\<rparr>"

definition enqueue :: "job \<Rightarrow> 'd session \<Rightarrow> 'd session" where
  "enqueue j s = s\<lparr>lane := lane s @ [j]\<rparr>"

definition checkpointJournal :: "checkpoint_purpose \<Rightarrow> 'd session \<Rightarrow> 'd session" where
  "checkpointJournal p s = (if \<not> doc s \<or> storageFatal s then s else enqueue (Checkpoint (emptyRecord s) p) s)"

definition flushLocalSave :: "'d world \<Rightarrow> 'd session \<Rightarrow> 'd session" where
  "flushLocalSave x s = flushMarkdownCheckpoint x (checkpointJournal Plain (s\<lparr>saveTimer := False\<rparr>))"

definition applyPermissionRole :: "role option \<Rightarrow> 'd session \<Rightarrow> 'd session" where
  "applyPermissionRole r s =
     (if r = permissionRole s then s
      else let s = refreshEditorEditable (s\<lparr>permissionRole := r\<rparr>)
           in if doc s then checkpointJournal Plain s else s)"

definition applyTicketPermissions :: "room_ticket \<Rightarrow> 'd session \<Rightarrow> 'd session" where
  "applyTicketPermissions t s =
     applyPermissionRole (if t_scratch t then (case t_role t of None \<Rightarrow> Some Scratch | Some r \<Rightarrow> Some r) else t_role t) s"

section \<open>Stopping\<close>

definition emitEngineError :: "nat \<Rightarrow> 'd session \<Rightarrow> 'd session" where
  "emitEngineError code s = emit (Error_Shown (Engine_Notice code)) s"

definition recordStorageError :: "storage_fault \<Rightarrow> 'd session \<Rightarrow> 'd session" where
  "recordStorageError f s =
     (if storageFatal s then s
      else emit (Error_Shown (Storage_Notice f))
        (rejectDurabilityWaiters (setStatus Offline (close_socket
          (clearSocketDeadline None (clearSocketErrorCloseDeadline None (clearAuthorityChangeGrace
            ((refreshEditorEditable (s\<lparr>storageError := Some (Storage_Notice f), storageFatal := True, localSaved := False\<rparr>))
               \<lparr>saveTimer := False, markdownTimer := False, reconnectTimer := None, admissionAbort := None,
                serverSynced := False\<rparr>))))))))"

definition enterTerminalRecovery :: "nat \<Rightarrow> 'd session \<Rightarrow> 'd session" where
  "enterTerminalRecovery code s =
     (if destroyed s \<or> storageFatal s then s
      else checkpointJournal Plain (emit (Error_Shown (Terminal_Notice code))
        (rejectDurabilityWaiters (refreshEditorEditable (setStatus Offline (close_socket
          ((clearSocketDeadline None (clearSocketErrorCloseDeadline None (clearAuthorityChangeGrace
             (s\<lparr>terminalError := Some (Terminal_Notice code), destroyed := True, permissionRole := None,
                serverSynced := False, admissionAbort := None\<rparr>))))
             \<lparr>reconnectTimer := None, snapshotReplyTimer := False, saveTimer := False\<rparr>)))))))"

end
