(* ===== verification/Session_Engine.thy ===== *)
theory Session_Engine
  imports Session_State
begin

text \<open>
  The handlers of \<open>EsbtEngine\<close> (\<open>client/src/collab/esbt-engine.ts\<close>): connection, admission and
  reconnection, the message loop, the commit protocol with its journal continuations, history
  maintenance, and teardown. Each definition is one method; a method that awaits is split at the
  await, the rest being the branch of \<open>continue_job\<close> for the transaction it waits for. The last
  section folds the handlers into one step function over the events a browser can deliver.
\<close>

section \<open>Connecting\<close>

definition openSocket :: "'d world \<Rightarrow> room_ticket \<Rightarrow> 'd session \<Rightarrow> 'd session" where
  "openSocket x ticket s =
     (if destroyed s \<or> storageFatal s then s
      else let k = nextSocket s; s = s\<lparr>ephemeral := beginConnectionLifecycle (w_instance x) (ephemeral s)\<rparr>;
               vv = (if doc s then (case replica s of None \<Rightarrow> [] | Some d \<Rightarrow> w_version x d) else []);
               query = (if 0 < length vv \<and> length vv \<le> MAX_VV_QUERY_BYTES then Some (toBase64Url vv) else None)
           in armSocketDeadline k SOCKET_HANDSHAKE_TIMEOUT_MS
                ((emit (Connect k query) s)\<lparr>socket := Some k, readyOpen := False, nextSocket := k + 1, serverSynced := False\<rparr>))"

definition connect :: "'d world \<Rightarrow> 'd session \<Rightarrow> 'd session" where
  "connect x s =
     (if \<not> access s \<or> destroyed s \<or> storageFatal s \<or> socket s \<noteq> None \<or> admissionAbort s \<noteq> None then s
      else case pendingTicket s of
             Some ticket \<Rightarrow> (openSocket x ticket s)\<lparr>pendingTicket := None\<rparr>
           | None \<Rightarrow> setStatus Connecting
               (s\<lparr>admissionAbort := Some (nextController s), nextController := nextController s + 1\<rparr>))"

definition expireAuthorityChangeGrace :: "'d world \<Rightarrow> 'd session \<Rightarrow> 'd session" where
  "expireAuthorityChangeGrace x s =
     (if graceDeadline s = 0 \<or> destroyed s \<or> storageFatal s then s
      else if graceDeadline s - w_now x > 0 then s\<lparr>graceTimer := True\<rparr>
      else enterTerminalRecovery CLOSE_AUTHORITY_CHANGED ((clearAuthorityChangeGrace s)\<lparr>admissionAbort := None\<rparr>))"

definition scheduleReconnect :: "'d world \<Rightarrow> 'd session \<Rightarrow> 'd session" where
  "scheduleReconnect x s =
     (if reconnectTimer s \<noteq> None \<or> destroyed s \<or> storageFatal s \<or> \<not> access s then s
      else let delay = min (reconnectDelay s * w_jitter x) RECONNECT_MAX_MS;
               s = s\<lparr>reconnectDelay := min (reconnectDelay s * 2) RECONNECT_MAX_MS\<rparr>;
               remaining = graceDeadline s - w_now x
           in if graceDeadline s > 0 \<and> remaining \<le> 0 then expireAuthorityChangeGrace x s
              else let delay = (if graceDeadline s > 0 then min delay remaining else delay)
                   in s\<lparr>reconnectTimer := Some (max 1 delay)\<rparr>)"

definition reconnect_timer_fires :: "'d world \<Rightarrow> 'd session \<Rightarrow> 'd session" where
  "reconnect_timer_fires x s =
     (if reconnectTimer s = None then s
      else let s = s\<lparr>reconnectTimer := None\<rparr>
           in if graceDeadline s > 0 \<and> w_now x \<ge> graceDeadline s then expireAuthorityChangeGrace x s else connect x s)"

definition admission_succeeds :: "'d world \<Rightarrow> nat \<Rightarrow> room_ticket \<Rightarrow> 'd session \<Rightarrow> 'd session" where
  "admission_succeeds x c ticket s =
     (if destroyed s \<or> storageFatal s \<or> admissionAbort s \<noteq> Some c then s
      else openSocket x ticket (applyTicketPermissions ticket
             ((clearAuthorityChangeGrace (s\<lparr>admissionAbort := None\<rparr>))\<lparr>marksSiteId := t_siteId ticket\<rparr>)))"

text \<open>
  An aborted controller is never the current one: every \<open>abort()\<close> is followed by clearing
  \<open>admissionAbort\<close>. So \<open>signal.aborted\<close> is the test that \<open>c\<close> is no longer current.
\<close>

definition admission_fails :: "'d world \<Rightarrow> nat \<Rightarrow> bool \<Rightarrow> 'd session \<Rightarrow> 'd session" where
  "admission_fails x c retryable s =
     (if admissionAbort s \<noteq> Some c then s
      else let s = s\<lparr>admissionAbort := None\<rparr>
           in if destroyed s \<or> storageFatal s then s
              else if retryable \<or> graceDeadline s > w_now x then scheduleReconnect x (setStatus Offline s)
              else enterTerminalRecovery CLOSE_AUTHORITY_CHANGED s)"

definition onDisconnect :: "'d world \<Rightarrow> nat \<Rightarrow> nat option \<Rightarrow> 'd session \<Rightarrow> 'd session" where
  "onDisconnect x k code s =
     (if socket s \<noteq> Some k then s
      else let s = (clearSocketDeadline (Some k) (clearSocketErrorCloseDeadline (Some k) s))
                 \<lparr>socket := None, readyOpen := False, serverSynced := False\<rparr>
           in if destroyed s \<or> storageFatal s then s
              else if code = Some CLOSE_INVALID_PAYLOAD \<or> code = Some CLOSE_FORBIDDEN_WRITE \<or> code = Some CLOSE_DOCUMENT_DELETED
                   then enterTerminalRecovery (the code) s
              else let s = setStatus Offline s
                   in if code = Some CLOSE_AUTHORITY_CHANGED
                      then connect x (beginAuthorityChangeGrace x (applyPermissionRole None s))
                      else scheduleReconnect x s)"

definition onSocketError :: "'d world \<Rightarrow> nat \<Rightarrow> 'd session \<Rightarrow> 'd session" where
  "onSocketError x k s =
     (if socket s \<noteq> Some k \<or> destroyed s \<or> storageFatal s \<or> socketErrorClose s = Some k then s
      else let s = s\<lparr>socketErrorClose := Some k\<rparr>
           in if w_close_throws x then onDisconnect x k None (clearSocketErrorCloseDeadline (Some k) s)
              else emit (Closed k) (s\<lparr>readyOpen := False\<rparr>))"

definition error_close_timer_fires :: "'d world \<Rightarrow> 'd session \<Rightarrow> 'd session" where
  "error_close_timer_fires x s =
     (case socketErrorClose s of
        None \<Rightarrow> s
      | Some k \<Rightarrow> if socket s \<noteq> Some k then s
                 else onDisconnect x k None (clearSocketErrorCloseDeadline (Some k) s))"

definition socket_deadline_fires :: "'d world \<Rightarrow> 'd session \<Rightarrow> 'd session" where
  "socket_deadline_fires x s =
     (case socketDeadline s of
        None \<Rightarrow> s
      | Some (k, _) \<Rightarrow> if socket s \<noteq> Some k then s else emit (Closed k) (onDisconnect x k None s))"

section \<open>Sending\<close>

definition send :: "'d world \<Rightarrow> byte \<Rightarrow> bytes \<Rightarrow> 'd session \<Rightarrow> 'd session" where
  "send x tag payload s =
     (if destroyed s \<or> storageFatal s then s
      else case socket s of
             None \<Rightarrow> s
           | Some k \<Rightarrow>
               if \<not> readyOpen s \<or> payload = [] then s
               else if w_send_throws x (frame tag payload) then emit (Closed k) (onDisconnect x k None s)
               else emit (Sent k (frame tag payload)) s)"

definition MSG_UPDATE :: byte where "MSG_UPDATE = 0x01"
definition MSG_EPHEMERAL :: byte where "MSG_EPHEMERAL = 0x02"
definition MSG_SERVER_VV :: byte where "MSG_SERVER_VV = 0x03"
definition MSG_SNAPSHOT :: byte where "MSG_SNAPSHOT = 0x04"
definition MSG_SYNCED :: byte where "MSG_SYNCED = 0x05"
definition MSG_PRESENCE_DELTA :: byte where "MSG_PRESENCE_DELTA = 0x08"
definition MSG_PRESENCE_SNAPSHOT :: byte where "MSG_PRESENCE_SNAPSHOT = 0x09"
definition MSG_PRESENCE_REMOVAL :: byte where "MSG_PRESENCE_REMOVAL = 0x0a"

definition sendable :: "'d session \<Rightarrow> bool" where
  "sendable s \<longleftrightarrow> \<not> destroyed s \<and> \<not> storageFatal s \<and> socket s \<noteq> None \<and> readyOpen s \<and> serverSynced s"

definition sendMutation :: "'d world \<Rightarrow> journal_mutation \<Rightarrow> 'd session \<Rightarrow> 'd session" where
  "sendMutation x m s =
     (if \<not> sendable s then s
      else case encodeMutation (jm_id m) (jm_kind m) (jm_bytes m) of
             Inl _ \<Rightarrow> s
           | Inr y \<Rightarrow> armSocketDeadline (the (socket s)) SOCKET_COMMIT_TIMEOUT_MS (send x MSG_MUTATION y s))"

text \<open>\<open>encodeMutation\<close> throws on a malformed mutation; the exception ends the loop.\<close>

definition send_mutation_throws :: "journal_mutation \<Rightarrow> 'd session \<Rightarrow> bool" where
  "send_mutation_throws m s \<longleftrightarrow> sendable s \<and> isl (encodeMutation (jm_id m) (jm_kind m) (jm_bytes m))"

fun send_all :: "'d world \<Rightarrow> journal_mutation list \<Rightarrow> 'd session \<Rightarrow> 'd session" where
  "send_all x [] s = s"
| "send_all x (m # ms) s = (if send_mutation_throws m s then s else send_all x ms (sendMutation x m s))"

definition sendPendingMutations :: "'d world \<Rightarrow> 'd session \<Rightarrow> 'd session" where
  "sendPendingMutations x s =
     (if destroyed s \<or> storageFatal s then s else send_all x (map snd (pendingMutations s)) s)"

definition persistAndSendMutation :: "'d world \<Rightarrow> bytes \<Rightarrow> mutation_kind \<Rightarrow> bool \<Rightarrow> 'd session \<Rightarrow> 'd session" where
  "persistAndSendMutation x bs kind broadcastTab s =
     (if \<not> doc s \<or> destroyed s \<or> storageFatal s \<or> bs = [] then s
      else let m = \<lparr>jm_id = randomMutationId (w_random x), jm_kind = kind, jm_bytes = bs, jm_createdAt = w_date x\<rparr>;
               s = s\<lparr>pendingMutations := AList.update (jm_id m) m (pendingMutations s)\<rparr>;
               s = (if access s \<and> serverSynced s then setStatus Saving s else s)
           in enqueue (Append (emptyRecord s) m broadcastTab) s)"

definition exportReconnectPayload :: "'d world \<Rightarrow> 'd \<Rightarrow> bytes \<Rightarrow> engine_error + mutation_kind \<times> bytes" where
  "exportReconnectPayload x d version =
     (case w_exportUpdate x version d of
        Inr bs \<Rightarrow> Inr (Update_Kind, bs)
      | Inl e \<Rightarrow> if e = Esbt 21 then (case w_exportCompact x d of Inr bs \<Rightarrow> Inr (Snapshot_Kind, bs) | Inl e \<Rightarrow> Inl e)
                else Inl e)"

definition sendMissingSince :: "'d world \<Rightarrow> bytes \<Rightarrow> 'd session \<Rightarrow> 'd session" where
  "sendMissingSince x version s =
     (if \<not> doc s \<or> destroyed s \<or> storageFatal s then s
      else if pendingMutations s \<noteq> [] then sendPendingMutations x s
      else case replica s of
             None \<Rightarrow> s
           | Some d \<Rightarrow>
               if w_version x d = version then (if serverSynced s then setStatus Connected s else s)
               else case exportReconnectPayload x d version of
                      Inl (Esbt code) \<Rightarrow> emitEngineError code s
                    | Inl Other_Error \<Rightarrow> s
                    | Inr (kind, bs) \<Rightarrow>
                        if bs = [] then (if serverSynced s then setStatus Connected s else s)
                        else persistAndSendMutation x bs kind False s)"

definition synchronizeWithServer :: "'d world \<Rightarrow> 'd session \<Rightarrow> 'd session" where
  "synchronizeWithServer x s =
     (if \<not> serverSynced s \<or> destroyed s \<or> storageFatal s then s
      else if pendingMutations s \<noteq> [] then sendPendingMutations x (setStatus Saving s)
      else case lastServerVV s of Some v \<Rightarrow> sendMissingSince x v s | None \<Rightarrow> setStatus Connected s)"

section \<open>Presence\<close>

text \<open>\<open>bindDocument\<close> sets a non-empty \<open>marksSiteId\<close> together with \<open>this.doc\<close>, so the replica's own site is never consulted.\<close>

definition presenceSiteId :: "'d session \<Rightarrow> js_text" where
  "presenceSiteId s = (if marksSiteId s \<noteq> [] then marksSiteId s else js ''local'')"

definition userKey :: "js_text \<Rightarrow> js_text" where
  "userKey site = site @ js ''-cm-user''"

text \<open>The store publishes to its listener, which sends; the outbox is drained in order.\<close>

fun send_presence :: "'d world \<Rightarrow> bytes list \<Rightarrow> 'd session \<Rightarrow> 'd session" where
  "send_presence x [] s = s"
| "send_presence x (bs # bss) s = send_presence x bss (send x MSG_PRESENCE_DELTA bs s)"

definition with_presence :: "'d world \<Rightarrow> (json presence_store \<Rightarrow> json presence_store) \<Rightarrow> 'd session \<Rightarrow> 'd session" where
  "with_presence x f s =
     (let p = f ((ephemeral s)\<lparr>outbox := []\<rparr>) in send_presence x (outbox p) (s\<lparr>ephemeral := p\<lparr>outbox := []\<rparr>\<rparr>))"

definition publishUser :: "'d world \<Rightarrow> 'd session \<Rightarrow> 'd session" where
  "publishUser x s =
     (let site = presenceSiteId s; own = opts s;
          user = JObject [(js ''active'', JBool True), (js ''colorPreference'', JInt (o_colorIndex own)),
            (js ''name'', JString (o_name own)),
            (js ''colorClassName'', JString (js ''marks-user'' @ decimal (nat (o_colorIndex own)))),
            (js ''participantId'', JString (if o_userId own \<noteq> [] then o_userId own else site))]
      in with_presence x (\<lambda>p. fst (presence_set (w_stringify x) (w_presence_now x) (userKey site) user p)) s)"

definition clearLocalPresence :: "'d world \<Rightarrow> 'd session \<Rightarrow> 'd session" where
  "clearLocalPresence x s =
     (let site = presenceSiteId s;
          s = with_presence x (\<lambda>p. fst (presence_delete (w_stringify x) (w_presence_now x) (userKey site) p)) s
      in with_presence x (\<lambda>p. fst (presence_delete (w_stringify x) (w_presence_now x) (site @ js ''-cm-sel'') p)) s)"

fun run_publish :: "'d world \<Rightarrow> publish list \<Rightarrow> 'd session \<Rightarrow> 'd session" where
  "run_publish x [] s = s"
| "run_publish x (Publish_Active # ps) s = run_publish x ps (publishUser x s)"
| "run_publish x (Publish_Inactive # ps) s = run_publish x ps (clearLocalPresence x s)"

definition with_activity :: "'d world \<Rightarrow> activity_event \<Rightarrow> 'd session \<Rightarrow> 'd session" where
  "with_activity x e s = (case activity_step (activity s) e of (a, ps) \<Rightarrow> run_publish x ps (s\<lparr>activity := a\<rparr>))"

definition socket_opens :: "'d world \<Rightarrow> nat \<Rightarrow> 'd session \<Rightarrow> 'd session" where
  "socket_opens x k s =
     (if socket s \<noteq> Some k then s
      else let s = armSocketDeadline k SOCKET_INITIAL_SYNC_TIMEOUT_MS (s\<lparr>readyOpen := True, reconnectDelay := RECONNECT_MIN_MS\<rparr>)
           in case encodeAll (w_stringify x) (w_presence_now x) (ephemeral s) of
                (p, Inl _) \<Rightarrow> s\<lparr>ephemeral := p\<rparr>
              | (p, Inr bs) \<Rightarrow> send x MSG_PRESENCE_DELTA bs (s\<lparr>ephemeral := p\<rparr>))"

section \<open>The replica\<close>

definition document_changed :: "'d session \<Rightarrow> 'd session" where
  "document_changed s = scheduleMarkdownCheckpoint (scheduleLocalSave (emit Document_Changed s))"

definition isSnapshotRefusal :: "nat \<Rightarrow> bool" where
  "isSnapshotRefusal code \<longleftrightarrow> code = 21 \<or> code = 20 \<or> code = 18"

definition imported :: "'d \<Rightarrow> bool \<Rightarrow> 'd session \<Rightarrow> 'd session" where
  "imported d visible s = (if visible then document_changed (s\<lparr>replica := Some d\<rparr>) else s\<lparr>replica := Some d\<rparr>)"

definition importRemote :: "'d world \<Rightarrow> bytes \<Rightarrow> 'd session \<Rightarrow> 'd session" where
  "importRemote x bs s =
     (if \<not> doc s \<or> destroyed s \<or> storageFatal s \<or> bs = [] then s
      else case replica s of
             None \<Rightarrow> s
           | Some d \<Rightarrow>
               (case w_import x bs d of
                  Inr (d', visible) \<Rightarrow> imported d' visible s
                | Inl (Esbt code) \<Rightarrow> if isSnapshotRefusal code then emitEngineError code s else s
                | Inl Other_Error \<Rightarrow> s))"

definition importFromTab :: "'d world \<Rightarrow> bytes \<Rightarrow> mutation_kind \<Rightarrow> 'd session \<Rightarrow> 'd session" where
  "importFromTab x bs kind s =
     (if destroyed s \<or> storageFatal s \<or> bs = [] then s
      else let after = (\<lambda>s. case kind of
                 Update_Kind \<Rightarrow> persistAndSendMutation x bs Update_Kind False s
               | Snapshot_Kind \<Rightarrow> (case lastServerVV s of None \<Rightarrow> s | Some v \<Rightarrow> sendMissingSince x v s))
           in if \<not> doc s then after s
              else case replica s of
                     None \<Rightarrow> s
                   | Some d \<Rightarrow> (case w_import x bs d of Inl _ \<Rightarrow> s | Inr (d', visible) \<Rightarrow> after (imported d' visible s)))"

text \<open>
  A local edit: a transaction of the editor, of the session's own interface, or an undo. It is
  let through only with the edit capability. The component's update goes to the journal first,
  then the change listeners run.
\<close>

definition local_edit :: "'d world \<Rightarrow> ('d \<Rightarrow> engine_error + 'd \<times> bytes \<times> bool) \<Rightarrow> 'd session \<Rightarrow> 'd session" where
  "local_edit x edit s =
     (if \<not> doc s \<or> \<not> can_edit s then s
      else case replica s of
             None \<Rightarrow> s
           | Some d \<Rightarrow>
               (case edit d of
                  Inl (Esbt code) \<Rightarrow> emitEngineError code s
                | Inl Other_Error \<Rightarrow> s
                | Inr (d', bs, visible) \<Rightarrow>
                    let s = persistAndSendMutation x bs Update_Kind True (s\<lparr>replica := Some d', localSaved := False\<rparr>)
                    in if visible then document_changed s else s))"

section \<open>History maintenance\<close>

definition compactDurableLocalHistory :: "'d world \<Rightarrow> 'd session \<Rightarrow> 'd session" where
  "compactDurableLocalHistory x s =
     (if historyMaintenance s \<noteq> No_Maintenance then s
      else case replica s of
             Some d \<Rightarrow>
               if storageFatal s \<or> \<not> doc s \<or> w_retained x d \<le> w_threshold x then s\<lparr>historyMaintenance := Settling\<rparr>
               else (enqueue (Checkpoint (emptyRecord s) Archive) s)\<lparr>historyMaintenance := Awaiting\<rparr>
           | None \<Rightarrow> s\<lparr>historyMaintenance := Settling\<rparr>)"

definition await_checkpoint :: "'d session \<Rightarrow> 'd session" where
  "await_checkpoint s =
     (if \<not> doc s \<or> storageFatal s then s\<lparr>historyMaintenance := Settling\<rparr>
      else (checkpointJournal After_Prune s)\<lparr>historyMaintenance := Awaiting\<rparr>)"

definition maybePrune :: "'d world \<Rightarrow> bytes \<Rightarrow> 'd session \<Rightarrow> 'd session" where
  "maybePrune x version s =
     (if historyMaintenance s \<noteq> No_Maintenance then s
      else case replica s of
             Some d \<Rightarrow>
               if \<not> doc s \<or> storageFatal s \<or> \<not> shouldPruneHistory (w_threshold x) (w_retained x d) (lastPruneAt s) (w_date x)
                  \<or> \<not> (w_retained x d > w_threshold x \<or> lastPruneAt s > 0)
               then s\<lparr>historyMaintenance := Settling\<rparr>
               else (case w_prune x version d of
                       Inl _ \<Rightarrow> s\<lparr>historyMaintenance := Settling\<rparr>
                     | Inr d' \<Rightarrow> await_checkpoint
                         (s\<lparr>replica := Some d', lastPruneAt := w_date x, lastAckedVersion := Some version\<rparr>))
           | None \<Rightarrow> s\<lparr>historyMaintenance := Settling\<rparr>)"

definition archived :: "'d world \<Rightarrow> 'd session \<Rightarrow> 'd session" where
  "archived x s =
     (let s = s\<lparr>localSaved := True\<rparr>
      in case replica s of
           None \<Rightarrow> (recordStorageError Compaction_Failed s)\<lparr>historyMaintenance := Settling\<rparr>
         | Some d \<Rightarrow>
             (case w_prune x (w_version x d) d of
                Inl _ \<Rightarrow> (recordStorageError Compaction_Failed s)\<lparr>historyMaintenance := Settling\<rparr>
              | Inr d' \<Rightarrow> await_checkpoint (s\<lparr>replica := Some d', lastPruneAt := w_date x\<rparr>)))"

definition maintenance_settles :: "'d session \<Rightarrow> 'd session" where
  "maintenance_settles s = (if historyMaintenance s = Settling then s\<lparr>historyMaintenance := No_Maintenance\<rparr> else s)"

section \<open>Commits\<close>

definition handleCommitted :: "'d world \<Rightarrow> bytes \<Rightarrow> 'd session \<Rightarrow> 'd session" where
  "handleCommitted x payload s =
     (if destroyed s \<or> storageFatal s then s
      else case decodeCommitted payload of
             Inl _ \<Rightarrow> (case socket s of None \<Rightarrow> s | Some k \<Rightarrow> emit (Closed k) (s\<lparr>readyOpen := False\<rparr>))
           | Inr r \<Rightarrow>
               let s = s\<lparr>lastAckedVersion := Some (receipt_version r), lastServerVV := Some (receipt_version r),
                         committedRevision := max (committedRevision s) (receipt_revision r)\<rparr>
               in if doc s then enqueue (Ack_Commit (emptyRecord s) r) s else s)"

definition commit_acknowledged :: "'d world \<Rightarrow> committed_receipt \<Rightarrow> 'd session \<Rightarrow> 'd session" where
  "commit_acknowledged x r s =
     (let s = s\<lparr>pendingMutations := AList.delete (receipt_id r) (pendingMutations s), localSaved := True\<rparr>
      in if destroyed s \<or> storageFatal s then s
         else let s = (case socket s of
                         Some k \<Rightarrow> if pendingMutations s \<noteq> [] then armSocketDeadline k SOCKET_COMMIT_TIMEOUT_MS s
                                  else clearSocketDeadline (Some k) s
                       | None \<Rightarrow> clearSocketDeadline None s);
                  s = maybePrune x (receipt_version r) s;
                  s = (if pendingMutations s = [] then sendMissingSince x (receipt_version r) s
                       else if serverSynced s then setStatus Saving s else s)
              in resolveDurabilityWaiters s)"

definition append_settled :: "'d world \<Rightarrow> journal_mutation \<Rightarrow> bool \<Rightarrow> 'd session \<Rightarrow> 'd session" where
  "append_settled x m broadcastTab s =
     (let s = s\<lparr>localSaved := True\<rparr>
      in if destroyed s \<or> storageFatal s then s
         else let s = (if broadcastTab
                       then emit (case jm_kind m of Update_Kind \<Rightarrow> Tab_Update (jm_bytes m) | Snapshot_Kind \<Rightarrow> Tab_Snapshot (jm_bytes m)) s
                       else s)
              in if access s
                 then if serverSynced s \<and> send_mutation_throws m s then s
                      else compactDurableLocalHistory x (if serverSynced s then sendMutation x m s else s)
                 else case replica s of
                        None \<Rightarrow> s
                      | Some d \<Rightarrow> enqueue (Ack_Local (emptyRecord s) m (w_version x d)) s)"

definition local_acknowledged :: "'d world \<Rightarrow> journal_mutation \<Rightarrow> 'd session \<Rightarrow> 'd session" where
  "local_acknowledged x m s =
     compactDurableLocalHistory x (resolveDurabilityWaiters
       (s\<lparr>pendingMutations := AList.delete (jm_id m) (pendingMutations s), localSaved := True\<rparr>))"

definition checkpoint_settled :: "'d session \<Rightarrow> 'd session" where
  "checkpoint_settled s = resolveDurabilityWaiters (s\<lparr>localSaved := True\<rparr>)"

definition checkpoint_failed :: "'d session \<Rightarrow> 'd session" where
  "checkpoint_failed s = recordStorageError Checkpoint_Failed (s\<lparr>localSaved := False\<rparr>)"

text \<open>The continuation of a journal transaction, for a transaction that succeeded or failed.\<close>

definition continue_job :: "'d world \<Rightarrow> job \<Rightarrow> bool \<Rightarrow> 'd session \<Rightarrow> 'd session" where
  "continue_job x j ok s =
     (case j of
        Append _ m broadcastTab \<Rightarrow>
          if ok then append_settled x m broadcastTab s else recordStorageError Append_Failed (s\<lparr>localSaved := False\<rparr>)
      | Ack_Commit _ r \<Rightarrow>
          if ok then commit_acknowledged x r s else recordStorageError Commit_Checkpoint_Failed (s\<lparr>localSaved := False\<rparr>)
      | Ack_Local _ m _ \<Rightarrow> if ok then local_acknowledged x m s else recordStorageError Local_Checkpoint_Failed s
      | Checkpoint _ Plain \<Rightarrow> if ok then checkpoint_settled s else checkpoint_failed s
      | Checkpoint _ After_Prune \<Rightarrow>
          (if ok then checkpoint_settled s else checkpoint_failed s)\<lparr>historyMaintenance := Settling\<rparr>
      | Checkpoint _ Archive \<Rightarrow>
          if ok then archived x s else (recordStorageError Compaction_Failed s)\<lparr>historyMaintenance := Settling\<rparr>)"

text \<open>The transaction itself, under the persist lock; the snapshot is exported inside the lock.\<close>

definition job_writes :: "'d world \<Rightarrow> job \<Rightarrow> 'd session \<Rightarrow> idb option" where
  "job_writes x j s =
     (let snapshot = (case replica s of None \<Rightarrow> None | Some d \<Rightarrow> (case w_exportFull x d of Inl _ \<Rightarrow> None | Inr bs \<Rightarrow> Some bs))
      in case j of
           Append fallback m _ \<Rightarrow>
             (case appendPendingMutation (docId s) fallback m (disk s) of (db, Inl _) \<Rightarrow> None | (db, Inr _) \<Rightarrow> Some db)
         | Ack_Commit fallback r \<Rightarrow>
             map_option (\<lambda>snap. fst (acknowledgePendingMutation (docId s) fallback (receipt_id r) (receipt_version r)
               (receipt_revision r) snap (disk s))) snapshot
         | Ack_Local fallback m version \<Rightarrow>
             map_option (\<lambda>snap. fst (acknowledgePendingMutation (docId s) fallback (jm_id m) version 0 snap (disk s))) snapshot
         | Checkpoint fallback _ \<Rightarrow>
             map_option (\<lambda>snap. fst (checkpointReplicaJournal (docId s) fallback snap (disk s))) snapshot)"

definition run_job :: "'d world \<Rightarrow> 'd session \<Rightarrow> 'd session" where
  "run_job x s =
     (case lane s of
        [] \<Rightarrow> s
      | j # rest \<Rightarrow> (case job_writes x j s of
                    None \<Rightarrow> s\<lparr>lane := rest, settled := settled s @ [(j, False)]\<rparr>
                  | Some db \<Rightarrow> s\<lparr>lane := rest, settled := settled s @ [(j, True)], disk := db\<rparr>))"

text \<open>
  A transaction that the storage or the lock's deadline rejects. A rejected transaction may
  nevertheless have been written: IndexedDB work is not cancellable.
\<close>

definition fail_job :: "'d world \<Rightarrow> bool \<Rightarrow> 'd session \<Rightarrow> 'd session" where
  "fail_job x written s =
     (case lane s of
        [] \<Rightarrow> s
      | j # rest \<Rightarrow> s\<lparr>lane := rest, settled := settled s @ [(j, False)],
                    disk := (case (written, job_writes x j s) of (True, Some db) \<Rightarrow> db | _ \<Rightarrow> disk s)\<rparr>)"

definition settle_job :: "'d world \<Rightarrow> 'd session \<Rightarrow> 'd session" where
  "settle_job x s = (case settled s of [] \<Rightarrow> s | (j, ok) # rest \<Rightarrow> continue_job x j ok (s\<lparr>settled := rest\<rparr>))"

section \<open>Messages\<close>

definition onMessage :: "'d world \<Rightarrow> nat \<Rightarrow> bytes \<Rightarrow> 'd session \<Rightarrow> 'd session" where
  "onMessage x k data s =
     (if socket s \<noteq> Some k \<or> destroyed s \<or> storageFatal s then s
      else case data of
             [] \<Rightarrow> s
           | tag # payload \<Rightarrow>
               if tag = MSG_UPDATE \<or> tag = MSG_SNAPSHOT then importRemote x payload s
               else if tag = MSG_EPHEMERAL \<or> tag = MSG_PRESENCE_DELTA \<or> tag = MSG_PRESENCE_SNAPSHOT \<or> tag = MSG_PRESENCE_REMOVAL
                    then s\<lparr>ephemeral := fst (presence_apply (w_parse x) (w_presence_now x) payload (ephemeral s))\<rparr>
               else if tag = MSG_SERVER_VV then maybePrune x payload (s\<lparr>lastServerVV := Some payload\<rparr>)
               else if tag = MSG_SYNCED
                    then synchronizeWithServer x (clearSocketDeadline (Some k) (s\<lparr>serverSynced := True\<rparr>))
               else if tag = MSG_COMMITTED then handleCommitted x payload s
               else s)"

definition scheduleTabSnapshot :: "'d session \<Rightarrow> 'd session" where
  "scheduleTabSnapshot s = (if destroyed s \<or> storageFatal s \<or> \<not> doc s then s else s\<lparr>snapshotReplyTimer := True\<rparr>)"

definition snapshot_reply_fires :: "'d world \<Rightarrow> 'd session \<Rightarrow> 'd session" where
  "snapshot_reply_fires x s =
     (if \<not> snapshotReplyTimer s then s
      else let s = s\<lparr>snapshotReplyTimer := False\<rparr>
           in if destroyed s \<or> storageFatal s \<or> \<not> doc s then s
              else case replica s of
                     None \<Rightarrow> s
                   | Some d \<Rightarrow> (case w_exportFull x d of Inr (b # bs) \<Rightarrow> emit (Tab_Snapshot (b # bs)) s | _ \<Rightarrow> s))"

section \<open>The page\<close>

definition handleOnline :: "'d world \<Rightarrow> 'd session \<Rightarrow> 'd session" where
  "handleOnline x s =
     (if destroyed s \<or> storageFatal s then s
      else let s = s\<lparr>reconnectDelay := RECONNECT_MIN_MS, reconnectTimer := None\<rparr>
           in if access s \<and> socket s = None then connect x s else s)"

definition handleOffline :: "'d session \<Rightarrow> 'd session" where
  "handleOffline s =
     (let s = clearSocketErrorCloseDeadline None (s\<lparr>admissionAbort := None\<rparr>);
          s = (case socket s of
                 None \<Rightarrow> s
               | Some k \<Rightarrow> emit (Closed k) ((clearSocketDeadline (Some k) s)\<lparr>socket := None, readyOpen := False, serverSynced := False\<rparr>));
          s = s\<lparr>reconnectTimer := None\<rparr>
      in if access s then setStatus Offline s else s)"

definition handleVisibility :: "'d world \<Rightarrow> 'd session \<Rightarrow> 'd session" where
  "handleVisibility x s = (if w_hidden x then flushLocalSave x s else emit Tab_Request s)"

definition handlePageHide :: "'d world \<Rightarrow> 'd session \<Rightarrow> 'd session" where
  "handlePageHide x s =
     close_socket (clearSocketDeadline None (clearSocketErrorCloseDeadline None
       (with_activity x A_Pagehide (flushLocalSave x s))))"

definition save_timer_fires :: "'d session \<Rightarrow> 'd session" where
  "save_timer_fires s = (if saveTimer s then checkpointJournal Plain (s\<lparr>saveTimer := False\<rparr>) else s)"

definition markdown_timer_fires :: "'d world \<Rightarrow> 'd session \<Rightarrow> 'd session" where
  "markdown_timer_fires x s = (if markdownTimer s then flushMarkdownCheckpoint x (s\<lparr>markdownTimer := False\<rparr>) else s)"

definition grace_timer_fires :: "'d world \<Rightarrow> 'd session \<Rightarrow> 'd session" where
  "grace_timer_fires x s = (if graceTimer s then expireAuthorityChangeGrace x (s\<lparr>graceTimer := False\<rparr>) else s)"

section \<open>Opening and closing a session\<close>

definition markHydrated :: "'d session \<Rightarrow> 'd session" where
  "markHydrated s =
     (if isHydrated s then s
      else let s = s\<lparr>isHydrated := True\<rparr> in emit Hydrated (if access s then s else setStatus Connected s))"

definition bindDocument :: "'d world \<Rightarrow> js_text \<Rightarrow> 'd \<Rightarrow> 'd session \<Rightarrow> 'd session" where
  "bindDocument x site d s =
     (let s = with_activity x (A_Start (w_hidden x)) (s\<lparr>doc := True, replica := Some d, marksSiteId := site\<rparr>)
      in s\<lparr>ephemeral := (ephemeral s)\<lparr>has_update_listeners := True\<rparr>\<rparr>)"

definition session_destroy :: "'d world \<Rightarrow> 'd session \<Rightarrow> 'd session" where
  "session_destroy x s =
     (let s = rejectDurabilityWaiters ((flushLocalSave x s)\<lparr>destroyed := True\<rparr>);
          s = clearSocketDeadline None (clearSocketErrorCloseDeadline None (clearAuthorityChangeGrace (s\<lparr>admissionAbort := None\<rparr>)));
          s = with_activity x A_Disconnect (s\<lparr>reconnectTimer := None, snapshotReplyTimer := False\<rparr>);
          s = close_socket (s\<lparr>markdownTimer := False\<rparr>)
      in s\<lparr>doc := False, ephemeral := presence_destroy (ephemeral s), views := []\<rparr>)"

text \<open>\<open>releaseReplicaAfterCheckpoint\<close>: the replica is freed after the last checkpoint, or after its budget.\<close>

definition release_replica :: "'d session \<Rightarrow> 'd session" where
  "release_replica s = (if destroyed s \<and> \<not> doc s then s\<lparr>replica := None\<rparr> else s)"

fun restore_pending :: "'d world \<Rightarrow> journal_mutation list \<Rightarrow> 'd session \<Rightarrow> 'd session" where
  "restore_pending x [] s = s"
| "restore_pending x (m # ms) s =
     restore_pending x ms
       (case replica s of
          None \<Rightarrow> s
        | Some d \<Rightarrow> (case w_import x (jm_bytes m) d of
                      Inl _ \<Rightarrow> recordStorageError Corrupt_Edit s
                    | Inr (d', visible) \<Rightarrow> imported d' visible s))"

datatype start_source = From_Journal journal | From_Admission room_ticket | From_Local js_text js_text

definition decimal_text :: "js_text \<Rightarrow> bool" where
  "decimal_text t \<longleftrightarrow> t \<noteq> [] \<and> list_all (\<lambda>c. 48 \<le> c \<and> c \<le> 57) t"

text \<open>
  \<open>start\<close> up to the server snapshot. A site or a stored snapshot that the component rejects, or a
  revision that is no number, makes \<open>open\<close> destroy the session. \<open>From_Local\<close> carries the random site and
  the seed text, which is written through the component like an edit.
\<close>

definition begin_loading :: "'d session \<Rightarrow> 'd session" where
  "begin_loading s = (emit Tab_Hello (markHydrated s))\<lparr>loading := True\<rparr>"

definition session_start :: "'d world \<Rightarrow> start_source \<Rightarrow> ('d \<Rightarrow> engine_error + 'd \<times> bytes \<times> bool) \<Rightarrow> 'd session \<Rightarrow> 'd session" where
  "session_start x src seed s =
     (if destroyed s \<or> doc s then s
      else case src of
        From_Journal j \<Rightarrow>
          let role = (if access s then (if j_role j = Some Local then None else j_role j) else Some Local);
              s = s\<lparr>permissionRole := role\<rparr>;
              bound = (\<lambda>d. bindDocument x (j_siteId j) d
                    (s\<lparr>pendingMutations := foldl (\<lambda>ps m. AList.update (jm_id m) m ps) [] (j_pending j)\<rparr>));
              restored = (case w_create x (j_siteId j) of
                            Inl _ \<Rightarrow> Inl s
                          | Inr d \<Rightarrow>
                              if j_snapshot j = [] then Inr (bound d)
                              else case w_applySnapshot x (j_snapshot j) d of
                                     Inl _ \<Rightarrow> Inl (bound d)
                                   | Inr (d', v) \<Rightarrow> Inr (imported d' v (bound d)))
          in (case restored of
                Inl s \<Rightarrow> session_destroy x s
              | Inr s \<Rightarrow>
                  let s = restore_pending x (j_pending j) s; revision = (case j_committedRevision j of None \<Rightarrow> decimal 0 | Some t \<Rightarrow> t)
                  in if \<not> decimal_text revision then session_destroy x s
                     else begin_loading (s\<lparr>lastAckedVersion := j_ackedVersion j, committedRevision := radix_value 10 revision,
                            lastPruneAt := j_lastPruneAt j, localSaved := True\<rparr>))
      | From_Admission t \<Rightarrow>
          if \<not> access s then s
          else let s = (applyTicketPermissions t (s\<lparr>pendingTicket := Some t\<rparr>))\<lparr>marksSiteId := t_siteId t\<rparr>
               in (case w_create x (t_siteId t) of
                     Inl _ \<Rightarrow> session_destroy x s
                   | Inr d \<Rightarrow> begin_loading (bindDocument x (t_siteId t) d s))
      | From_Local site markdown \<Rightarrow>
          if access s then s
          else case w_create x site of
                 Inl _ \<Rightarrow> session_destroy x s
               | Inr d \<Rightarrow> let s = bindDocument x site d s in begin_loading (if markdown = [] then s else local_edit x seed s))"

definition loadServerSnapshot :: "'d world \<Rightarrow> bytes option \<Rightarrow> 'd session \<Rightarrow> 'd session" where
  "loadServerSnapshot x response s =
     (if \<not> access s \<or> \<not> doc s \<or> storageFatal s then s
      else case response of None \<Rightarrow> s | Some bs \<Rightarrow> importRemote x bs s)"

definition snapshot_loaded :: "'d world \<Rightarrow> bytes option \<Rightarrow> 'd session \<Rightarrow> 'd session" where
  "snapshot_loaded x response s =
     (if \<not> loading s then s
      else let s = loadServerSnapshot x response (s\<lparr>loading := False\<rparr>)
           in if destroyed s then s else connect x (checkpointJournal Plain s))"

definition mount_view :: "nat \<Rightarrow> 'd session \<Rightarrow> 'd session" where
  "mount_view v s = s\<lparr>views := (v, can_edit s) # filter (\<lambda>p. fst p \<noteq> v) (views s)\<rparr>"

definition unmount_view :: "nat \<Rightarrow> 'd session \<Rightarrow> 'd session" where
  "unmount_view v s = s\<lparr>views := filter (\<lambda>p. fst p \<noteq> v) (views s)\<rparr>"

section \<open>Events\<close>

datatype 'd session_event =
    E_Start start_source "'d \<Rightarrow> engine_error + 'd \<times> bytes \<times> bool"
  | E_Snapshot "bytes option"
  | E_Edit "'d \<Rightarrow> engine_error + 'd \<times> bytes \<times> bool"
  | E_Admitted nat room_ticket
  | E_Admission_Failed nat bool
  | E_Socket_Open nat
  | E_Socket_Message nat bytes
  | E_Socket_Close nat nat
  | E_Socket_Error nat
  | E_Socket_Deadline
  | E_Error_Close_Timer
  | E_Reconnect_Timer
  | E_Grace_Timer
  | E_Save_Timer
  | E_Markdown_Timer
  | E_Snapshot_Reply_Timer
  | E_Online
  | E_Offline
  | E_Visibility
  | E_Page_Hide
  | E_Activity activity_event
  | E_Tab_Hello
  | E_Tab_Import bytes mutation_kind
  | E_When_Durable nat
  | E_Waiter_Timeout nat
  | E_Run_Job
  | E_Fail_Job bool
  | E_Settle_Job
  | E_Maintenance
  | E_Other_Tab journal_event
  | E_Mount nat
  | E_Unmount nat
  | E_Destroy
  | E_Release

text \<open>
  One event. An editor can be mounted only once \<open>open\<close> has returned the session, that is, after
  \<open>start\<close> has bound the document. After \<open>destroy\<close> the page listeners and the tab channel are gone, and the editor is
  unmounted; messages of a closed socket are ignored by the handlers themselves.
\<close>

definition session_step :: "'d session \<Rightarrow> 'd world \<times> 'd session_event \<Rightarrow> 'd session" where
  "session_step s ev =
     (case ev of (x, e) \<Rightarrow>
        (case e of
           E_Start src seed \<Rightarrow> session_start x src seed s
         | E_Snapshot r \<Rightarrow> snapshot_loaded x r s
         | E_Edit f \<Rightarrow> local_edit x f s
         | E_Admitted c t \<Rightarrow> admission_succeeds x c t s
         | E_Admission_Failed c b \<Rightarrow> admission_fails x c b s
         | E_Socket_Open k \<Rightarrow> socket_opens x k s
         | E_Socket_Message k bs \<Rightarrow> onMessage x k bs s
         | E_Socket_Close k code \<Rightarrow> onDisconnect x k (Some code) s
         | E_Socket_Error k \<Rightarrow> onSocketError x k s
         | E_Socket_Deadline \<Rightarrow> socket_deadline_fires x s
         | E_Error_Close_Timer \<Rightarrow> error_close_timer_fires x s
         | E_Reconnect_Timer \<Rightarrow> reconnect_timer_fires x s
         | E_Grace_Timer \<Rightarrow> grace_timer_fires x s
         | E_Save_Timer \<Rightarrow> save_timer_fires s
         | E_Markdown_Timer \<Rightarrow> markdown_timer_fires x s
         | E_Snapshot_Reply_Timer \<Rightarrow> snapshot_reply_fires x s
         | E_Online \<Rightarrow> if destroyed s \<and> \<not> doc s then s else handleOnline x s
         | E_Offline \<Rightarrow> if destroyed s \<and> \<not> doc s then s else handleOffline s
         | E_Visibility \<Rightarrow> if destroyed s \<and> \<not> doc s then s else handleVisibility x s
         | E_Page_Hide \<Rightarrow> if destroyed s \<and> \<not> doc s then s else handlePageHide x s
         | E_Activity e \<Rightarrow> with_activity x e s
         | E_Tab_Hello \<Rightarrow> if destroyed s \<and> \<not> doc s then s else scheduleTabSnapshot s
         | E_Tab_Import bs k \<Rightarrow> if destroyed s \<and> \<not> doc s then s else importFromTab x bs k s
         | E_When_Durable n \<Rightarrow> whenDurable n s
         | E_Waiter_Timeout n \<Rightarrow> waiter_times_out n s
         | E_Run_Job \<Rightarrow> run_job x s
         | E_Fail_Job w \<Rightarrow> fail_job x w s
         | E_Settle_Job \<Rightarrow> settle_job x s
         | E_Maintenance \<Rightarrow> maintenance_settles s
         | E_Other_Tab j \<Rightarrow> s\<lparr>disk := journal_step (docId s) (disk s) j\<rparr>
         | E_Mount v \<Rightarrow> if doc s \<or> destroyed s then mount_view v s else s
         | E_Unmount v \<Rightarrow> unmount_view v s
         | E_Destroy \<Rightarrow> session_destroy x s
         | E_Release \<Rightarrow> release_replica s))"

end
