(* ===== verification/Session_Invariants.thy ===== *)
theory Session_Invariants
  imports Session_Engine
begin

text \<open>
  One interface for every invariant of a session. A session has many handlers but few places where
  what an invariant talks about changes: \<open>core\<close> is that part of the state, everything else (timers,
  the transport, the replica) is soft. The locale \<open>session_closed\<close> asks of a predicate that it
  survives the primitive changes of the core, each under the guards the code establishes, and
  proves once that it survives every event. The invariants below are its interpretations.
\<close>

definition core :: "'d session \<Rightarrow> session_options \<times> bool \<times> bool \<times> bool \<times> role option
    \<times> (js_text \<times> journal_mutation) list \<times> (nat \<times> bool) list \<times> effect list \<times> job list \<times> (job \<times> bool) list \<times> idb" where
  "core s = (opts s, doc s, destroyed s, storageFatal s, permissionRole s, pendingMutations s, views s, effects s,
     lane s, settled s, disk s)"

lemma core_soft [simp]:
  "core (s\<lparr>replica := a1\<rparr>) = core s" "core (s\<lparr>loading := a2\<rparr>) = core s" "core (s\<lparr>socket := a3\<rparr>) = core s"
  "core (s\<lparr>readyOpen := a4\<rparr>) = core s" "core (s\<lparr>nextSocket := a5\<rparr>) = core s" "core (s\<lparr>admissionAbort := a6\<rparr>) = core s"
  "core (s\<lparr>nextController := a7\<rparr>) = core s" "core (s\<lparr>reconnectDelay := a8\<rparr>) = core s"
  "core (s\<lparr>reconnectTimer := a9\<rparr>) = core s" "core (s\<lparr>graceDeadline := a10\<rparr>) = core s" "core (s\<lparr>graceTimer := a11\<rparr>) = core s"
  "core (s\<lparr>snapshotReplyTimer := a12\<rparr>) = core s" "core (s\<lparr>saveTimer := a13\<rparr>) = core s" "core (s\<lparr>markdownTimer := a14\<rparr>) = core s"
  "core (s\<lparr>socketDeadline := a15\<rparr>) = core s" "core (s\<lparr>socketErrorClose := a16\<rparr>) = core s" "core (s\<lparr>lastServerVV := a17\<rparr>) = core s"
  "core (s\<lparr>lastAckedVersion := a18\<rparr>) = core s" "core (s\<lparr>committedRevision := a19\<rparr>) = core s" "core (s\<lparr>lastPruneAt := a20\<rparr>) = core s"
  "core (s\<lparr>pendingTicket := a21\<rparr>) = core s" "core (s\<lparr>marksSiteId := a22\<rparr>) = core s" "core (s\<lparr>isHydrated := a23\<rparr>) = core s"
  "core (s\<lparr>localSaved := a24\<rparr>) = core s" "core (s\<lparr>serverSynced := a25\<rparr>) = core s" "core (s\<lparr>currentStatus := a26\<rparr>) = core s"
  "core (s\<lparr>waiters := a27\<rparr>) = core s" "core (s\<lparr>storageError := a28\<rparr>) = core s" "core (s\<lparr>terminalError := a29\<rparr>) = core s"
  "core (s\<lparr>historyMaintenance := a30\<rparr>) = core s" "core (s\<lparr>activity := a31\<rparr>) = core s" "core (s\<lparr>ephemeral := a32\<rparr>) = core s"
  by (simp_all add: core_def)

definition network :: "effect \<Rightarrow> bool" where
  "network e = (case e of Connect _ _ \<Rightarrow> True | Sent _ _ \<Rightarrow> True | Tab_Update _ \<Rightarrow> True | Tab_Snapshot _ \<Rightarrow> True | _ \<Rightarrow> False)"

definition resolves :: "effect \<Rightarrow> bool" where
  "resolves e = (case e of Resolved _ \<Rightarrow> True | _ \<Rightarrow> False)"

definition retire :: "job \<Rightarrow> 'd session \<Rightarrow> 'd session" where
  "retire j s =
     (case j of
        Ack_Commit _ r \<Rightarrow> s\<lparr>pendingMutations := AList.delete (receipt_id r) (pendingMutations s)\<rparr>
      | Ack_Local _ m _ \<Rightarrow> s\<lparr>pendingMutations := AList.delete (jm_id m) (pendingMutations s)\<rparr>
      | _ \<Rightarrow> s)"

text \<open>Events that a predicate may exclude: receipts, random bytes and journal writes of other tabs.\<close>

definition admissible :: "(committed_receipt \<Rightarrow> bool) \<Rightarrow> ('d world \<Rightarrow> bool) \<Rightarrow> (journal_event \<Rightarrow> bool)
    \<Rightarrow> 'd world \<times> 'd session_event \<Rightarrow> bool" where
  "admissible allowed fresh foreign ev \<longleftrightarrow> fresh (fst ev)
     \<and> (case snd ev of
          E_Socket_Message k bs \<Rightarrow> (case decodeCommitted (tl bs) of Inl _ \<Rightarrow> True | Inr r \<Rightarrow> allowed r)
        | E_Other_Tab j \<Rightarrow> foreign j
        | _ \<Rightarrow> True)"

locale session_basic =
  fixes P :: "'d session \<Rightarrow> bool"
  assumes soft: "P s \<Longrightarrow> core t = core s \<Longrightarrow> P t"
    and quiet: "P s \<Longrightarrow> \<not> network e \<Longrightarrow> \<not> resolves e \<Longrightarrow> P (emit e s)"
    and network: "P s \<Longrightarrow> \<not> stopped s \<Longrightarrow> network e \<Longrightarrow> P (emit e s)"
    and resolve: "P s \<Longrightarrow> isDurable s \<Longrightarrow> P (s\<lparr>effects := effects s @ map Resolved ns\<rparr>)"
    and checkpoint: "P s \<Longrightarrow> doc s \<Longrightarrow> \<not> storageFatal s \<Longrightarrow> P (enqueue (Checkpoint (emptyRecord s) p) s)"
begin

lemma rejected: "P s \<Longrightarrow> P (rejectDurabilityWaiters s)"
proof -
  have step: "P (t\<lparr>effects := effects t @ map Rejected ns\<rparr>)" if "P t" for t ns
    using that
  proof (induction ns arbitrary: t)
    case (Cons n ns)
    have "P (emit (Rejected n) t)" using Cons.prems by (intro quiet) (simp_all add: network_def resolves_def)
    from Cons.IH [OF this] show ?case by (simp add: emit_def)
  qed (auto elim: soft)
  assume "P s"
  then show ?thesis by (rule step [THEN soft]) (simp add: rejectDurabilityWaiters_def core_def)
qed

lemma resolved: "P s \<Longrightarrow> P (resolveDurabilityWaiters s)"
proof (cases "isDurable s")
  case True
  assume "P s"
  from resolve [OF this True, of "waiters s"] show ?thesis
    by (rule soft) (simp add: resolveDurabilityWaiters_def True core_def)
qed (simp add: resolveDurabilityWaiters_def)

lemma status: "P s \<Longrightarrow> P (setStatus st s)"
proof -
  assume "P s"
  then have "P (emit (Status_Changed c) (s\<lparr>currentStatus := c\<rparr>))" for c
    by (intro quiet) (auto intro: soft simp: network_def resolves_def)
  with \<open>P s\<close> show ?thesis by (simp add: setStatus_def Let_def resolved)
qed

lemma softs:
  "P s \<Longrightarrow> P (clearSocketDeadline k s)" "P s \<Longrightarrow> P (clearSocketErrorCloseDeadline k s)"
  "P s \<Longrightarrow> P (armSocketDeadline n ms s)" "P s \<Longrightarrow> P (clearAuthorityChangeGrace s)"
  "P s \<Longrightarrow> P (beginAuthorityChangeGrace x s)" "P s \<Longrightarrow> P (scheduleLocalSave s)"
  "P s \<Longrightarrow> P (scheduleMarkdownCheckpoint s)" "P s \<Longrightarrow> P (maintenance_settles s)" "P s \<Longrightarrow> P (scheduleTabSnapshot s)"
  by (erule soft, simp add: clearSocketDeadline_def clearSocketErrorCloseDeadline_def armSocketDeadline_def Let_def
      clearAuthorityChangeGrace_def beginAuthorityChangeGrace_def scheduleLocalSave_def scheduleMarkdownCheckpoint_def
      maintenance_settles_def scheduleTabSnapshot_def; fail)+

lemma checkpointed: "P s \<Longrightarrow> P (checkpointJournal p s)"
  by (simp add: checkpointJournal_def checkpoint)

lemma closed: "P s \<Longrightarrow> P (emit (Closed k) s)"
  by (simp add: quiet network_def resolves_def)

lemma errors: "P s \<Longrightarrow> P (emitEngineError c s)" "P s \<Longrightarrow> P (flushMarkdownCheckpoint x s)"
  by (auto simp: emitEngineError_def flushMarkdownCheckpoint_def network_def resolves_def intro!: quiet split: option.splits)

text \<open>
  \<open>P\<close> of a state with soft updates is \<open>P\<close> of the state; the rewrite rules let the simplifier drop
  them wherever they occur.
\<close>

lemma soft_eq: "core t = core s \<Longrightarrow> P t \<longleftrightarrow> P s"
  using soft by metis

lemmas P_soft = core_soft [THEN soft_eq]

lemma document_change: "P s \<Longrightarrow> P (document_changed s)"
  by (simp add: document_changed_def softs quiet network_def resolves_def)

lemma import_done: "P s \<Longrightarrow> P (imported d v s)"
  by (simp add: imported_def document_change P_soft)

lemma socket_closed: "P s \<Longrightarrow> P (close_socket s)"
  by (simp add: close_socket_def closed P_soft split: option.splits)

lemma flushes: "P s \<Longrightarrow> P (flushLocalSave x s)"
  by (simp add: flushLocalSave_def errors checkpointed P_soft)

end

text \<open>What a predicate has to survive for every handler to keep it.\<close>

locale session_handlers = session_basic P
  for P :: "'d session \<Rightarrow> bool" +
  fixes allowed :: "committed_receipt \<Rightarrow> bool" and fresh :: "'d world \<Rightarrow> bool"
    and foreign :: "journal_event \<Rightarrow> bool"
  assumes role: "P s \<Longrightarrow> P (refreshEditorEditable (s\<lparr>permissionRole := new\<rparr>))"
    and terminal: "P s \<Longrightarrow> P (enterTerminalRecovery c s)"
    and storage: "P s \<Longrightarrow> P (recordStorageError f s)"
    and persist: "P s \<Longrightarrow> fresh x \<Longrightarrow> P (persistAndSendMutation x bs k b s)"
    and commit: "P s \<Longrightarrow> \<not> stopped s \<Longrightarrow> doc s \<Longrightarrow> allowed r \<Longrightarrow> P (enqueue (Ack_Commit (emptyRecord s) r) s)"
    and local_commit: "P s \<Longrightarrow> \<not> stopped s \<Longrightarrow> \<not> access s \<Longrightarrow> P (enqueue (Ack_Local (emptyRecord s) m v) s)"
    and pop_fail: "P s \<Longrightarrow> settled s = (j, False) # rest \<Longrightarrow> core t = core (s\<lparr>settled := rest\<rparr>) \<Longrightarrow> P (recordStorageError f t)"
    and pop_ok: "P s \<Longrightarrow> settled s = (j, True) # rest \<Longrightarrow> P (retire j (s\<lparr>settled := rest\<rparr>))"
    and run: "P s \<Longrightarrow> P (run_job x s)"
    and failed: "P s \<Longrightarrow> P (fail_job x w s)"
    and other_tab: "P s \<Longrightarrow> foreign ev \<Longrightarrow> P (s\<lparr>disk := journal_step (docId s) (disk s) ev\<rparr>)"
    and destroy: "P s \<Longrightarrow> P (session_destroy x s)"
    and unmount: "P s \<Longrightarrow> P (unmount_view n s)"
begin

lemma permission: "P s \<Longrightarrow> P (applyPermissionRole ro s)"
  by (simp add: applyPermissionRole_def Let_def checkpointed role)

lemma ticket: "P s \<Longrightarrow> P (applyTicketPermissions t s)"
  by (simp add: applyTicketPermissions_def permission)

lemma socket_opened: "P s \<Longrightarrow> P (openSocket x t s)"
proof -
  assume "P s"
  then have "P (emit (Connect k q) (s\<lparr>ephemeral := e\<rparr>))" if "\<not> stopped s" for k q e
    using that by (intro network) (simp_all add: P_soft network_def)
  with \<open>P s\<close> show ?thesis by (simp add: openSocket_def Let_def softs P_soft)
qed

lemma connected: "P s \<Longrightarrow> P (connect x s)"
  by (auto simp: connect_def P_soft status socket_opened split: option.splits)

lemma grace_expired: "P s \<Longrightarrow> P (expireAuthorityChangeGrace x s)"
  by (simp add: expireAuthorityChangeGrace_def P_soft softs terminal)

lemma reconnects: "P s \<Longrightarrow> P (scheduleReconnect x s)" "P s \<Longrightarrow> P (reconnect_timer_fires x s)"
  by (simp_all add: scheduleReconnect_def reconnect_timer_fires_def Let_def P_soft grace_expired connected)

lemma admissions: "P s \<Longrightarrow> P (admission_succeeds x c t s)" "P s \<Longrightarrow> P (admission_fails x c b s)"
  by (simp_all add: admission_succeeds_def admission_fails_def Let_def P_soft softs socket_opened ticket status reconnects terminal)

lemma disconnected: "P s \<Longrightarrow> P (onDisconnect x k code s)"
  by (simp add: onDisconnect_def Let_def P_soft softs terminal status connected permission reconnects)

lemma socket_errors:
  "P s \<Longrightarrow> P (onSocketError x k s)" "P s \<Longrightarrow> P (error_close_timer_fires x s)" "P s \<Longrightarrow> P (socket_deadline_fires x s)"
  by (simp_all add: onSocketError_def error_close_timer_fires_def socket_deadline_fires_def Let_def P_soft softs
      disconnected closed split: option.splits prod.splits)

lemma sent: "P s \<Longrightarrow> P (send x tag bs s)"
  by (auto simp: send_def network_def closed disconnected intro!: network split: option.splits)

lemma mutation_sent: "P s \<Longrightarrow> P (sendMutation x m s)"
  by (simp add: sendMutation_def softs sent split: sum.splits)

lemma all_sent: "P s \<Longrightarrow> P (send_all x ms s)"
  by (induction ms arbitrary: s) (simp_all add: mutation_sent)

lemma pending_sent: "P s \<Longrightarrow> P (sendPendingMutations x s)"
  by (simp add: sendPendingMutations_def all_sent)

lemma missing_sent: "P s \<Longrightarrow> fresh x \<Longrightarrow> P (sendMissingSince x v s)"
  by (simp add: sendMissingSince_def pending_sent status errors persist split: option.splits sum.splits engine_error.splits prod.splits)

lemma synchronized: "P s \<Longrightarrow> fresh x \<Longrightarrow> P (synchronizeWithServer x s)"
  by (simp add: synchronizeWithServer_def pending_sent status missing_sent split: option.splits)

lemma presence_sent: "P s \<Longrightarrow> P (send_presence x bss s)"
  by (induction bss arbitrary: s) (simp_all add: sent)

lemma presence_done: "P s \<Longrightarrow> P (with_presence x f s)"
  by (simp add: with_presence_def Let_def presence_sent P_soft)

lemma published: "P s \<Longrightarrow> P (run_publish x ps s)"
  by (induction x ps s rule: run_publish.induct)
    (simp_all add: publishUser_def clearLocalPresence_def Let_def presence_done)

lemma activity_done: "P s \<Longrightarrow> P (with_activity x e s)"
  by (simp add: with_activity_def published P_soft split: prod.splits)

lemma socket_open_done: "P s \<Longrightarrow> P (socket_opens x k s)"
  by (simp add: socket_opens_def Let_def softs P_soft sent split: prod.splits sum.splits)

lemma remote_imported: "P s \<Longrightarrow> P (importRemote x bs s)"
  by (simp add: importRemote_def import_done errors split: option.splits sum.splits prod.splits engine_error.splits)

lemma tab_imports: "P s \<Longrightarrow> fresh x \<Longrightarrow> P (importFromTab x bs k s)"
  by (simp add: importFromTab_def Let_def import_done persist missing_sent
      split: option.splits sum.splits prod.splits mutation_kind.splits)

lemma edits: "P s \<Longrightarrow> fresh x \<Longrightarrow> P (local_edit x f s)"
  by (simp add: local_edit_def Let_def document_change persist P_soft errors
      split: option.splits sum.splits prod.splits engine_error.splits)

lemma compacts: "P s \<Longrightarrow> P (compactDurableLocalHistory x s)"
  by (simp add: compactDurableLocalHistory_def P_soft checkpoint split: option.splits)

lemma awaits: "P s \<Longrightarrow> P (await_checkpoint s)"
  by (simp add: await_checkpoint_def P_soft checkpointed)

lemma prunes: "P s \<Longrightarrow> P (maybePrune x v s)" "P s \<Longrightarrow> P (archived x s)"
  by (simp_all add: maybePrune_def archived_def Let_def P_soft awaits storage split: option.splits sum.splits)

lemma commits:
  assumes "P s" "\<And>r. decodeCommitted bs = Inr r \<Longrightarrow> allowed r"
  shows "P (handleCommitted x bs s)"
proof (cases "decodeCommitted bs")
  case (Inr r)
  let ?s = "s\<lparr>lastAckedVersion := Some (receipt_version r), lastServerVV := Some (receipt_version r),
      committedRevision := max (committedRevision s) (receipt_revision r)\<rparr>"
  have "P ?s" using assms(1) by (simp add: P_soft)
  then have "P (enqueue (Ack_Commit (emptyRecord ?s) r) ?s)" if "doc s" "\<not> stopped s"
    using that assms(2) [OF Inr] by (intro commit) simp_all
  with \<open>P ?s\<close> assms(1) show ?thesis by (simp add: handleCommitted_def Inr Let_def)
qed (use assms(1) in \<open>simp add: handleCommitted_def closed P_soft split: option.splits\<close>)

lemma messages:
  assumes "P s" "fresh x" "\<And>r. decodeCommitted (tl bs) = Inr r \<Longrightarrow> allowed r"
  shows "P (onMessage x k bs s)"
proof (cases bs)
  case (Cons tag payload)
  then have "P (handleCommitted x payload s)" using assms by (intro commits) auto
  with assms Cons show ?thesis
    by (simp add: onMessage_def remote_imported P_soft prunes synchronized softs)
qed (use assms in \<open>simp add: onMessage_def\<close>)

lemma append_done: "P s \<Longrightarrow> P (append_settled x m b s)"
proof -
  assume P: "P s"
  let ?e = "case jm_kind m of Update_Kind \<Rightarrow> Tab_Update (jm_bytes m) | Snapshot_Kind \<Rightarrow> Tab_Snapshot (jm_bytes m)"
  have "network ?e" by (cases "jm_kind m") (simp_all add: network_def)
  moreover have "P (s\<lparr>localSaved := True\<rparr>)" using P by (simp add: P_soft)
  ultimately have "P (emit ?e (s\<lparr>localSaved := True\<rparr>))" if "\<not> stopped s" using that by (intro network) simp_all
  moreover have "stopped (emit ?e t) \<longleftrightarrow> stopped t" "access (emit ?e t) \<longleftrightarrow> access t" for t :: "'d session" by (simp_all add: emit_def)
  ultimately show ?thesis using P
    by (simp add: append_settled_def Let_def P_soft compacts mutation_sent local_commit split: option.splits)
qed

lemma commit_done:
  assumes "P (s\<lparr>pendingMutations := AList.delete (receipt_id r) (pendingMutations s)\<rparr>)" "fresh x"
  shows "P (commit_acknowledged x r s)"
proof -
  let ?t = "s\<lparr>pendingMutations := AList.delete (receipt_id r) (pendingMutations s), localSaved := True\<rparr>"
  define u where "u = (case socket ?t of
      Some k \<Rightarrow> if pendingMutations ?t \<noteq> [] then armSocketDeadline k SOCKET_COMMIT_TIMEOUT_MS ?t else clearSocketDeadline (Some k) ?t
    | None \<Rightarrow> clearSocketDeadline None ?t)"
  define v where "v = maybePrune x (receipt_version r) u"
  have t: "P ?t" using assms(1) by (simp add: P_soft)
  then have "P u" unfolding u_def by (simp only: softs split: option.splits if_splits) simp
  then have "P v" unfolding v_def by (rule prunes)
  then show ?thesis
    unfolding commit_acknowledged_def Let_def u_def [symmetric] v_def [symmetric]
    using t assms(2) by (simp add: resolved missing_sent status)
qed

lemma local_done:
  assumes "P (s\<lparr>pendingMutations := AList.delete (jm_id m) (pendingMutations s)\<rparr>)"
  shows "P (local_acknowledged x m s)"
  using assms by (simp add: local_acknowledged_def P_soft compacts resolved)

lemma settles: "P s \<Longrightarrow> fresh x \<Longrightarrow> P (settle_job x s)"
proof (cases "settled s")
  case (Cons jb rest)
  obtain j ok where jb: "jb = (j, ok)" by fastforce
  assume P: "P s" and fresh: "fresh x"
  show ?thesis
  proof (cases ok)
    case True
    have R: "P (retire j (s\<lparr>settled := rest\<rparr>))" using P Cons jb True by (intro pop_ok) simp_all
    have "P (continue_job x j True (s\<lparr>settled := rest\<rparr>))"
    proof (cases j)
      case (Checkpoint fb p)
      with R show ?thesis
        by (cases p) (simp_all add: continue_job_def retire_def checkpoint_settled_def resolved P_soft prunes)
    qed (use R fresh in \<open>simp_all add: continue_job_def retire_def append_done commit_done local_done\<close>)
    then show ?thesis using Cons jb True by (simp add: settle_job_def)
  next
    case False
    have F: "P (recordStorageError f t)" if "core t = core (s\<lparr>settled := rest\<rparr>)" for f t
      using P Cons jb False that by (intro pop_fail) simp_all
    have "P (continue_job x j False (s\<lparr>settled := rest\<rparr>))"
    proof (cases j)
      case (Checkpoint fb p)
      then show ?thesis by (cases p) (simp_all add: continue_job_def checkpoint_failed_def F P_soft)
    qed (simp_all add: continue_job_def F)
    then show ?thesis using Cons jb False by (simp add: settle_job_def)
  qed
qed (simp add: settle_job_def)

lemma pages:
  "P s \<Longrightarrow> P (handleOnline x s)" "P s \<Longrightarrow> P (handleOffline s)" "P s \<Longrightarrow> P (handleVisibility x s)"
  "P s \<Longrightarrow> P (handlePageHide x s)"
  by (simp_all add: handleOnline_def handleOffline_def handleVisibility_def handlePageHide_def Let_def P_soft softs
      connected status closed flushes activity_done socket_closed quiet network_def resolves_def split: option.splits)

lemma timers:
  "P s \<Longrightarrow> P (save_timer_fires s)" "P s \<Longrightarrow> P (markdown_timer_fires x s)" "P s \<Longrightarrow> P (grace_timer_fires x s)"
  "P s \<Longrightarrow> P (release_replica s)"
  by (simp_all add: save_timer_fires_def markdown_timer_fires_def grace_timer_fires_def release_replica_def P_soft
      checkpointed errors grace_expired)

lemma snapshot_reply: "P s \<Longrightarrow> P (snapshot_reply_fires x s)"
  by (auto simp: snapshot_reply_fires_def Let_def P_soft network_def intro!: network
      split: option.splits sum.splits list.splits)

lemma snapshots: "P s \<Longrightarrow> P (snapshot_loaded x r s)"
  by (simp add: snapshot_loaded_def loadServerSnapshot_def Let_def P_soft connected checkpointed remote_imported split: option.splits)

lemma durability: "P s \<Longrightarrow> P (whenDurable n s)" "P s \<Longrightarrow> P (waiter_times_out n s)"
proof -
  assume P: "P s"
  from resolve [OF P, of "[n]"] P show "P (whenDurable n s)"
    by (auto simp: whenDurable_def emit_def [symmetric] P_soft network_def resolves_def intro: quiet)
  from P show "P (waiter_times_out n s)"
    by (auto simp: waiter_times_out_def P_soft network_def resolves_def intro: quiet)
qed

text \<open>Opening a session, for a predicate that also survives binding the document.\<close>

lemma started_by:
  assumes P: "P s" and fresh: "fresh x"
    and bind: "\<And>t. P t \<Longrightarrow> P (t\<lparr>doc := True\<rparr>)"
    and restore: "\<And>j ro. src = From_Journal j \<Longrightarrow>
      P (s\<lparr>permissionRole := ro\<rparr>) \<and>
      P (s\<lparr>permissionRole := ro, pendingMutations := foldl (\<lambda>ps m. AList.update (jm_id m) m ps) [] (j_pending j)\<rparr>)"
  shows "P (session_start x src seed s)"
proof -
  have bound: "P (bindDocument x site d t)" if "P t" for site d t
  proof -
    have "P (t\<lparr>doc := True, replica := Some d, marksSiteId := site\<rparr>)" using bind [OF that] by (simp add: P_soft)
    then show ?thesis by (simp add: bindDocument_def Let_def activity_done P_soft)
  qed
  have loads: "P (begin_loading t)" if "P t" for t
    using that by (simp add: begin_loading_def markHydrated_def Let_def P_soft quiet network_def resolves_def status)
  have pend: "P (restore_pending x ms t)" if "P t" for ms t
    using that
  proof (induction ms arbitrary: t)
    case (Cons m ms)
    have "P (case replica t of None \<Rightarrow> t | Some d \<Rightarrow> (case w_import x (jm_bytes m) d of
        Inl _ \<Rightarrow> recordStorageError Corrupt_Edit t | Inr (d', v) \<Rightarrow> imported d' v t))"
      using Cons.prems by (simp add: storage import_done split: option.splits sum.splits prod.splits)
    then show ?case by (simp add: Cons.IH)
  qed simp
  show ?thesis
  proof (cases src)
    case (From_Journal j)
    have "P (bindDocument x (j_siteId j) d (s\<lparr>permissionRole := ro,
        pendingMutations := foldl (\<lambda>ps m. AList.update (jm_id m) m ps) [] (j_pending j)\<rparr>))" for d ro
      by (rule bound [OF restore [OF From_Journal, THEN conjunct2]])
    then show ?thesis using P loads pend From_Journal restore [OF From_Journal, THEN conjunct1]
      by (auto simp: session_start_def Let_def destroy import_done P_soft split: sum.splits option.splits prod.splits if_splits)
  next
    case (From_Admission t)
    have "P ((applyTicketPermissions t (s\<lparr>pendingTicket := Some t\<rparr>))\<lparr>marksSiteId := t_siteId t\<rparr>)"
      using P by (simp add: P_soft ticket)
    then show ?thesis using P loads bound From_Admission by (simp add: session_start_def Let_def destroy split: sum.splits)
  next
    case (From_Local site md)
    then show ?thesis using P loads bound fresh by (simp add: session_start_def Let_def edits destroy split: sum.splits)
  qed
qed

theorem step_from:
  assumes P: "P s" and a: "admissible allowed fresh foreign ev"
    and st: "\<And>src seed. P (session_start (fst ev) src seed s)"
    and mount: "\<And>n. doc s \<or> destroyed s \<Longrightarrow> P (mount_view n s)"
  shows "P (session_step s ev)"
proof (cases ev)
  case (Pair x e)
  then have x: "fresh x" using a by (simp add: admissible_def)
  have st: "P (session_start x src seed s)" for src seed using st Pair by simp
  have msg: "allowed r" if "e = E_Socket_Message k bs" "decodeCommitted (tl bs) = Inr r" for k bs r
    using a that by (simp add: admissible_def Pair)
  have oth: "foreign j" if "e = E_Other_Tab j" for j using a that by (simp add: admissible_def Pair)
  show ?thesis unfolding Pair session_step_def
    using P x
    by (cases e) (simp_all add: st snapshots edits admissions socket_open_done messages msg disconnected socket_errors
        reconnects timers snapshot_reply pages activity_done softs tab_imports durability run failed settles other_tab oth
        mount unmount destroy)
qed

end

locale session_closed = session_handlers P allowed fresh foreign
  for P :: "'d session \<Rightarrow> bool" and allowed fresh foreign +
  assumes start: "P s \<Longrightarrow> fresh x \<Longrightarrow> \<not> destroyed s \<Longrightarrow> \<not> doc s \<Longrightarrow> P (session_start x src seed s)"
    and mount: "P s \<Longrightarrow> doc s \<or> destroyed s \<Longrightarrow> P (mount_view n s)"
begin

theorem step: "P s \<Longrightarrow> admissible allowed fresh foreign ev \<Longrightarrow> P (session_step s ev)"
proof (rule step_from)
  assume P: "P s" and a: "admissible allowed fresh foreign ev"
  then have x: "fresh (fst ev)" by (simp add: admissible_def)
  show "P (session_start (fst ev) src seed s)" for src seed
    using start [OF P x] P by (cases "destroyed s \<or> doc s") (auto simp: session_start_def)
qed (auto intro: mount)

theorem steps: "P s \<Longrightarrow> list_all (admissible allowed fresh foreign) evs \<Longrightarrow> P (foldl session_step s evs)"
  by (induction evs arbitrary: s) (simp_all add: step)

end

text \<open>Handlers that only talk: in a stopped session they change nothing of the core.\<close>

lemma send_stopped: "stopped s \<Longrightarrow> send x tag bs s = s"
  by (auto simp: send_def)

lemma send_presence_stopped: "stopped s \<Longrightarrow> send_presence x bss s = s"
  by (induction bss) (simp_all add: send_stopped)

lemma with_presence_stopped:
  "stopped s \<Longrightarrow> core (with_presence x f s) = core s \<and> stopped (with_presence x f s)"
  by (simp add: with_presence_def Let_def send_presence_stopped)

lemma run_publish_stopped: "stopped s \<Longrightarrow> core (run_publish x ps s) = core s"
  by (induction x ps s rule: run_publish.induct)
    (simp_all add: publishUser_def clearLocalPresence_def Let_def with_presence_stopped)

lemma with_activity_stopped: "stopped s \<Longrightarrow> core (with_activity x e s) = core s"
  by (simp add: with_activity_def run_publish_stopped split: prod.splits)

text \<open>A predicate that survives the fields a stopping session changes survives its ways of stopping.\<close>

locale session_stoppable = session_basic P
  for P :: "'d session \<Rightarrow> bool" +
  assumes set_destroyed: "P s \<Longrightarrow> P (s\<lparr>destroyed := True\<rparr>)"
    and set_fatal: "P s \<Longrightarrow> P (s\<lparr>storageFatal := True\<rparr>)"
    and set_role: "P s \<Longrightarrow> P (s\<lparr>permissionRole := new\<rparr>)"
    and set_views: "P s \<Longrightarrow> P (s\<lparr>views := vs\<rparr>)"
    and drop_doc: "P s \<Longrightarrow> destroyed s \<Longrightarrow> P (s\<lparr>doc := False\<rparr>)"
begin

lemma refreshed: "P s \<Longrightarrow> P (refreshEditorEditable s)"
  by (simp add: refreshEditorEditable_def set_views)

lemma terminated: "P s \<Longrightarrow> P (enterTerminalRecovery c s)"
proof -
  assume P: "P s"
  have eq: "P (s\<lparr>terminalError := a, destroyed := True, permissionRole := None, serverSynced := b, admissionAbort := d\<rparr>)" for a b d
    using set_role [OF set_destroyed [OF P], of None] by (rule soft) (simp add: core_def)
  show ?thesis
    using P eq by (simp add: enterTerminalRecovery_def checkpointed quiet network_def resolves_def rejected refreshed status
        socket_closed softs P_soft)
qed

lemma faulted: "P s \<Longrightarrow> P (recordStorageError f s)"
proof -
  assume P: "P s"
  have "P (s\<lparr>storageError := a, storageFatal := True, localSaved := b\<rparr>)" for a b
    using set_fatal [OF P] by (rule soft) (simp add: core_def)
  with P show ?thesis
    by (simp add: recordStorageError_def quiet network_def resolves_def rejected refreshed status socket_closed softs P_soft)
qed

lemma destruct: "P s \<Longrightarrow> P (session_destroy x s)"
proof -
  assume P: "P s"
  define u where "u = clearSocketDeadline None (clearSocketErrorCloseDeadline None (clearAuthorityChangeGrace
      ((rejectDurabilityWaiters ((flushLocalSave x s)\<lparr>destroyed := True\<rparr>))\<lparr>admissionAbort := None\<rparr>)))"
  define v where "v = with_activity x A_Disconnect (u\<lparr>reconnectTimer := None, snapshotReplyTimer := False\<rparr>)"
  have "destroyed u"
    by (simp add: u_def clearSocketDeadline_def clearSocketErrorCloseDeadline_def clearAuthorityChangeGrace_def rejectDurabilityWaiters_def)
  have "P ((flushLocalSave x s)\<lparr>destroyed := True\<rparr>)" by (rule set_destroyed [OF flushes [OF P]])
  then have "P u" unfolding u_def by (simp add: softs P_soft rejected)
  have cv: "core v = core (u\<lparr>reconnectTimer := None, snapshotReplyTimer := False\<rparr>)"
    unfolding v_def using \<open>destroyed u\<close> by (intro with_activity_stopped) simp
  then have "P v" using \<open>P u\<close> by (simp add: soft)
  moreover have "destroyed v" using cv \<open>destroyed u\<close> by (simp add: core_def)
  ultimately have "P (close_socket (v\<lparr>markdownTimer := False\<rparr>)) \<and> destroyed (close_socket (v\<lparr>markdownTimer := False\<rparr>))"
    by (auto simp: socket_closed P_soft) (simp add: close_socket_def emit_def split: option.splits)
  then have "P ((close_socket (v\<lparr>markdownTimer := False\<rparr>))\<lparr>doc := False\<rparr>)" by (simp add: drop_doc)
  from set_views [OF this] show ?thesis
    unfolding session_destroy_def Let_def u_def [symmetric] v_def [symmetric]
    by (rule soft) (simp add: core_def)
qed

end

text \<open>
  The common case: a predicate about the pending mutations, the queued transactions and the
  effects of a session that has started. It has to survive each field on its own.
\<close>

locale session_primitive = session_stoppable P
  for P :: "'d session \<Rightarrow> bool" +
  fixes allowed :: "committed_receipt \<Rightarrow> bool"
  assumes started: "P s \<Longrightarrow> doc s \<or> destroyed s"
    and set_disk: "P s \<Longrightarrow> P (s\<lparr>disk := db\<rparr>)"
    and add_pending: "P s \<Longrightarrow> \<not> stopped s \<Longrightarrow> P (s\<lparr>pendingMutations := AList.update i m (pendingMutations s)\<rparr>)"
    and enqueue: "P s \<Longrightarrow> \<not> stopped s \<Longrightarrow> (case j of Ack_Commit _ r \<Rightarrow> allowed r | Ack_Local _ _ _ \<Rightarrow> \<not> access s | _ \<Rightarrow> True)
        \<Longrightarrow> P (enqueue j s)"
    and pop: "P s \<Longrightarrow> settled s = (j, ok) # rest \<Longrightarrow> P (s\<lparr>settled := rest\<rparr>)"
    and retired: "P s \<Longrightarrow> settled s = (j, True) # rest \<Longrightarrow> P (retire j (s\<lparr>settled := rest\<rparr>))"
    and shift: "P s \<Longrightarrow> lane s = j # js' \<Longrightarrow> P (s\<lparr>lane := js', settled := settled s @ [(j, ok)]\<rparr>)"
begin

lemma persisted: "P s \<Longrightarrow> P (persistAndSendMutation x bs k b s)"
proof -
  assume P: "P s"
  define m where "m = \<lparr>jm_id = randomMutationId (w_random x), jm_kind = k, jm_bytes = bs, jm_createdAt = w_date x\<rparr>"
  define t where "t = s\<lparr>pendingMutations := AList.update (jm_id m) m (pendingMutations s)\<rparr>"
  define u where "u = (if access t \<and> serverSynced t then setStatus Saving t else t)"
  show ?thesis
  proof (cases "stopped s")
    case False
    then have "P t" unfolding t_def by (intro add_pending P) auto
    then have "P u" unfolding u_def by (simp add: status)
    moreover have "stopped u \<longleftrightarrow> stopped t"
      by (simp add: u_def setStatus_def resolveDurabilityWaiters_def emit_def Let_def)
    ultimately have "P (enqueue (Append (emptyRecord u) m b) u)" using False
      by (intro enqueue) (simp_all add: t_def)
    with P False show ?thesis
      by (auto simp: persistAndSendMutation_def Let_def m_def [symmetric] t_def [symmetric] u_def [symmetric] split: if_splits)
        (simp_all add: u_def t_def)
  qed (use P in \<open>auto simp: persistAndSendMutation_def\<close>)
qed

lemma ran: "P s \<Longrightarrow> P (run_job x s)" "P s \<Longrightarrow> P (fail_job x w s)"
proof -
  assume P: "P s"
  have sh: "P (s\<lparr>lane := rest, settled := settled s @ [(j, ok)], disk := db\<rparr>)"
      "P (s\<lparr>lane := rest, settled := settled s @ [(j, ok)]\<rparr>)" if "lane s = j # rest" for j rest ok db
    using shift [OF P that] set_disk by simp_all
  show "P (run_job x s)" using P sh by (auto simp: run_job_def split: list.splits option.splits)
  show "P (fail_job x w s)" using P sh by (auto simp: fail_job_def split: list.splits)
qed

sublocale session_closed P allowed "\<lambda>_. True" "\<lambda>_. True"
proof unfold_locales
  show "P (recordStorageError f t)" if "P s" "settled s = (j, False) # rest" "core t = core (s\<lparr>settled := rest\<rparr>)"
    for s t :: "'d session" and j rest f
    using that pop soft by (intro faulted) blast
  show "P (refreshEditorEditable (s\<lparr>permissionRole := new\<rparr>))" if "P s" for s :: "'d session" and new
    by (intro refreshed set_role that)
  show "P (session_start x src seed s)" if "P s" "\<not> destroyed s" "\<not> doc s" for x src seed and s :: "'d session"
    using started [OF that(1)] that by simp
qed (auto simp: terminated faulted persisted ran destruct retired set_disk mount_view_def unmount_view_def set_views
    intro!: enqueue)

end

end
