(* ===== verification/Session_Safety.thy ===== *)
theory Session_Safety
  imports Session_Invariants
begin

text \<open>
  What a session guarantees whatever the network, the storage and the user do: stopping is final,
  waiting for durability means waiting for the commit, editors are writable exactly with the
  authority to write, and pending edits are in the journal.
\<close>

section \<open>Stopping is final\<close>

definition after_stop :: "'d session \<Rightarrow> 'd session \<Rightarrow> bool" where
  "after_stop s t \<longleftrightarrow> (doc t \<or> destroyed t) \<and> stopped t
     \<and> (\<exists>ext. effects t = effects s @ ext \<and> list_all (\<lambda>e. \<not> network e \<and> \<not> resolves e) ext)
     \<and> fst ` set (pendingMutations t) \<subseteq> fst ` set (pendingMutations s)"

lemma after_stop_quiet: "after_stop s t \<Longrightarrow> \<not> network e \<Longrightarrow> \<not> resolves e \<Longrightarrow> after_stop s (emit e t)"
  unfolding after_stop_def emit_def by (auto intro: exI [of _ "_ @ [e]"])

lemma delete_ids: "fst ` set (AList.delete i xs) \<subseteq> fst ` set xs"
  by (induction xs) auto

lemma after_stop_retire: "after_stop s (t\<lparr>settled := r\<rparr>) \<Longrightarrow> after_stop s (retire j (t\<lparr>settled := r\<rparr>))"
  unfolding after_stop_def retire_def by (cases j) (simp_all add: subset_trans [OF delete_ids])

interpretation stop: session_primitive "after_stop s" "\<lambda>_. True" for s :: "'d session"
proof unfold_locales
  fix t u :: "'d session" and e :: effect and ns and j :: job and rest ok
  show "after_stop s u" if "after_stop s t" "core u = core t" using that by (simp add: after_stop_def core_def)
  show "after_stop s (emit e t)" if "after_stop s t" "\<not> network e" "\<not> resolves e"
    using that by (rule after_stop_quiet)
  show "after_stop s (emit e t)" if "after_stop s t" "\<not> stopped t" "network e"
    using that by (simp add: after_stop_def)
  show "after_stop s (t\<lparr>effects := effects t @ map Resolved ns\<rparr>)" if "after_stop s t" "isDurable t"
    using that by (auto simp: after_stop_def isDurable_def)
  show "after_stop s (retire j (t\<lparr>settled := rest\<rparr>))" if "after_stop s t"
    using that by (intro after_stop_retire) (simp add: after_stop_def)
qed (auto simp: after_stop_def enqueue_def)

lemma admissible_all: "admissible (\<lambda>_. True) (\<lambda>_. True) (\<lambda>_. True) ev"
  by (cases ev) (auto simp: admissible_def split: session_event.splits sum.splits)

text \<open>
  C5. Stopping is final. Once a started session is destroyed or its storage has failed, then after
  any further events it is still stopped and cannot edit, it has opened no socket, sent nothing to
  the server, handed no update or snapshot to another tab and told nobody that an edit is durable,
  and it has accepted no new mutation. (The requests of the tab channel, which carry no document
  data, are not counted.)
\<close>

theorem session_stop_final:
  assumes "stopped s" and "doc s \<or> destroyed s"
  shows "stopped (foldl session_step s evs) \<and> \<not> can_edit (foldl session_step s evs)
    \<and> (\<exists>ext. effects (foldl session_step s evs) = effects s @ ext \<and> list_all (\<lambda>e. \<not> network e \<and> \<not> resolves e) ext)
    \<and> fst ` set (pendingMutations (foldl session_step s evs)) \<subseteq> fst ` set (pendingMutations s)"
proof -
  have "after_stop s s" using assms by (simp add: after_stop_def)
  then have "after_stop s (foldl session_step s evs)"
    by (rule stop.steps) (simp add: list_all_iff admissible_all)
  then show ?thesis by (auto simp: after_stop_def can_edit_def capabilities_def Let_def)
qed

definition demo_options :: session_options where
  "demo_options = \<lparr>o_docId = js ''d'', o_access = True, o_name = [], o_colorIndex = 1, o_userId = []\<rparr>"

definition demo_session :: "nat session" where
  "demo_session = (new_session demo_options [] (\<lambda>_. S_Undefined))\<lparr>doc := True, replica := Some 0, permissionRole := Some Editor,
     marksSiteId := js ''7'', isHydrated := True, localSaved := True\<rparr>"

definition demo_world :: "nat world" where
  "demo_world = \<lparr>w_now = 0, w_date = 0, w_jitter = 1, w_random = replicate 16 1, w_instance = [], w_hidden = False,
     w_presence_now = 0, w_send_throws = (\<lambda>_. False), w_close_throws = False, w_threshold = 100,
     w_stringify = (\<lambda>_. []), w_parse = (\<lambda>_. None), w_create = (\<lambda>_. Inr 0), w_version = (\<lambda>_. [1]), w_text = (\<lambda>_. []),
     w_retained = (\<lambda>_. 0), w_import = (\<lambda>_ d. Inr (d, False)), w_applySnapshot = (\<lambda>_ d. Inr (d, False)),
     w_exportFull = (\<lambda>_. Inr [1]), w_exportUpdate = (\<lambda>_ _. Inr [2]), w_exportCompact = (\<lambda>_. Inr [3]), w_prune = (\<lambda>_ d. Inr d)\<rparr>"

theorem session_stop_final_witness:
  "\<forall>evs. stopped (foldl session_step (enterTerminalRecovery 4404 demo_session) evs)"
proof -
  have "stopped (enterTerminalRecovery 4404 demo_session) \<and> doc (enterTerminalRecovery 4404 demo_session)"
    by (simp add: demo_session_def demo_options_def new_session_def enterTerminalRecovery_def checkpointJournal_def enqueue_def
        emit_def rejectDurabilityWaiters_def refreshEditorEditable_def setStatus_def resolveDurabilityWaiters_def Let_def
        close_socket_def clearSocketDeadline_def clearSocketErrorCloseDeadline_def clearAuthorityChangeGrace_def)
  then show ?thesis using session_stop_final [of "enterTerminalRecovery 4404 demo_session"] by blast
qed

section \<open>Durable means committed\<close>

definition acks :: "job \<Rightarrow> js_text \<Rightarrow> bool" where
  "acks j i = (case j of Ack_Commit _ r \<Rightarrow> receipt_id r = i | Ack_Local _ m _ \<Rightarrow> jm_id m = i | _ \<Rightarrow> False)"

definition held :: "js_text \<Rightarrow> effect list \<Rightarrow> 'd session \<Rightarrow> bool" where
  "held i before s \<longleftrightarrow> access s \<and> (doc s \<or> destroyed s) \<and> i \<in> fst ` set (pendingMutations s)
     \<and> list_all (\<lambda>j. \<not> acks j i) (lane s) \<and> list_all (\<lambda>(j, ok). \<not> acks j i) (settled s)
     \<and> (\<exists>ext. effects s = before @ ext \<and> list_all (\<lambda>e. \<not> resolves e) ext)"

lemma delete_other_id: "i \<noteq> k \<Longrightarrow> i \<in> fst ` set xs \<Longrightarrow> i \<in> fst ` set (AList.delete k xs)"
  by (induction xs) auto

lemma update_keeps_id: "i \<in> fst ` set xs \<Longrightarrow> i \<in> fst ` set (AList.update k m xs)"
  by (induction xs) auto

interpretation waiting: session_primitive "held i before" "\<lambda>r. receipt_id r \<noteq> i" for i before
proof unfold_locales
  fix t u :: "'d session" and e :: effect and ns and j :: job and rest ok and k and m
  show "held i before u" if "held i before t" "core u = core t" using that by (simp add: held_def core_def)
  show "held i before (emit e t)" if "held i before t" "\<not> network e" "\<not> resolves e"
    using that by (auto simp: held_def emit_def intro: exI [of _ "_ @ [e]"])
  show "held i before (emit e t)" if "held i before t" "\<not> stopped t" "network e"
  proof -
    have "\<not> resolves e" using that(3) by (cases e) (simp_all add: network_def resolves_def)
    with that(1) show ?thesis by (auto simp: held_def emit_def intro: exI [of _ "_ @ [e]"])
  qed
  show "held i before (t\<lparr>effects := effects t @ map Resolved ns\<rparr>)" if "held i before t" "isDurable t"
    using that by (auto simp: held_def isDurable_def split: if_splits)
  show "held i before (t\<lparr>pendingMutations := AList.update k m (pendingMutations t)\<rparr>)" if "held i before t"
    using that by (simp add: held_def update_keeps_id)
  show "held i before (enqueue j t)"
    if "held i before t" "case j of Ack_Commit _ r \<Rightarrow> receipt_id r \<noteq> i | Ack_Local _ _ _ \<Rightarrow> \<not> access t | _ \<Rightarrow> True"
    using that by (cases j) (simp_all add: held_def enqueue_def acks_def)
  show "held i before (retire j (t\<lparr>settled := rest\<rparr>))" if "held i before t" "settled t = (j, True) # rest"
    using that by (cases j) (auto simp: held_def retire_def acks_def intro!: delete_other_id)
qed (auto simp: held_def enqueue_def acks_def)

text \<open>
  C6. Nobody is told that an edit is durable before the server has committed it. Take a session
  with a service in which the mutation \<open>i\<close> is pending and no acknowledgement of it is under way.
  As long as no message of the socket is a commit receipt for \<open>i\<close>, the mutation stays pending and
  no durability waiter is resolved, whatever else happens.
\<close>

theorem durable_only_after_commit:
  assumes "access s" and "doc s" and "i \<in> fst ` set (pendingMutations s)"
    and "list_all (\<lambda>j. \<not> acks j i) (lane s)" and "list_all (\<lambda>(j, ok). \<not> acks j i) (settled s)"
    and "\<And>x k bs r. (x, E_Socket_Message k bs) \<in> set evs \<Longrightarrow> decodeCommitted (tl bs) = Inr r \<Longrightarrow> receipt_id r \<noteq> i"
  shows "i \<in> fst ` set (pendingMutations (foldl session_step s evs))
    \<and> (\<exists>ext. effects (foldl session_step s evs) = effects s @ ext \<and> list_all (\<lambda>e. \<not> resolves e) ext)"
proof -
  have "held i (effects s) s" using assms by (simp add: held_def)
  moreover have "list_all (admissible (\<lambda>r. receipt_id r \<noteq> i) (\<lambda>_. True) (\<lambda>_. True)) evs"
    using assms(6) by (fastforce simp: list_all_iff admissible_def split: session_event.splits sum.splits)
  ultimately have "held i (effects s) (foldl session_step s evs)" by (rule waiting.steps)
  then show ?thesis by (simp add: held_def)
qed

definition demo_pending :: "nat session" where
  "demo_pending = demo_session\<lparr>pendingMutations := [(replicate 32 49, demo_mutation 49)]\<rparr>"

theorem durable_only_after_commit_witness:
  "\<forall>x. replicate 32 49 \<in> fst ` set (pendingMutations
     (foldl session_step demo_pending [(x, E_Online), (x, E_Save_Timer), (x, E_Run_Job), (x, E_Settle_Job)]))"
proof
  fix x :: "nat world"
  show "replicate 32 49 \<in> fst ` set (pendingMutations
     (foldl session_step demo_pending [(x, E_Online), (x, E_Save_Timer), (x, E_Run_Job), (x, E_Settle_Job)]))"
    by (rule durable_only_after_commit [THEN conjunct1])
      (simp_all add: demo_pending_def demo_session_def demo_options_def new_session_def)
qed

section \<open>Editors follow the authority\<close>

text \<open>Before a session has started nothing is mounted.\<close>

interpretation no_views: session_handlers "\<lambda>s. views s = []" "\<lambda>_. True" "\<lambda>_. True" "\<lambda>_. True"
proof unfold_locales
  fix s t :: "'d session" and c f x src seed bs k b
  show "views t = []" if "views s = []" "core t = core s" using that by (simp add: core_def)
  show "views (enterTerminalRecovery c s) = []" if "views s = []"
    using that by (simp add: enterTerminalRecovery_def checkpointJournal_def enqueue_def emit_def rejectDurabilityWaiters_def
        refreshEditorEditable_def setStatus_def resolveDurabilityWaiters_def Let_def close_socket_def clearSocketDeadline_def
        clearSocketErrorCloseDeadline_def clearAuthorityChangeGrace_def split: option.splits)
qed (simp_all add: emit_def enqueue_def refreshEditorEditable_def persistAndSendMutation_def setStatus_def
    resolveDurabilityWaiters_def recordStorageError_def retire_def run_job_def fail_job_def Let_def session_destroy_def
    rejectDurabilityWaiters_def close_socket_def clearSocketDeadline_def
    clearSocketErrorCloseDeadline_def clearAuthorityChangeGrace_def unmount_view_def core_def
    split: job.splits list.splits option.splits)

definition views_ok :: "'d session \<Rightarrow> bool" where
  "views_ok s \<longleftrightarrow> (\<forall>(v, b) \<in> set (views s). b = can_edit s) \<and> (doc s \<or> destroyed s \<or> views s = [])"

lemma can_edit_stopped: "stopped s \<Longrightarrow> \<not> can_edit s"
  by (auto simp: can_edit_def capabilities_def Let_def)

lemma setStatus_keeps [simp]:
  "views (setStatus st s) = views s" "doc (setStatus st s) = doc s" "destroyed (setStatus st s) = destroyed s"
  "storageFatal (setStatus st s) = storageFatal s" "permissionRole (setStatus st s) = permissionRole s"
  "pendingMutations (setStatus st s) = pendingMutations s" "lane (setStatus st s) = lane s"
  "settled (setStatus st s) = settled s" "disk (setStatus st s) = disk s" "opts (setStatus st s) = opts s"
  by (simp_all add: setStatus_def resolveDurabilityWaiters_def emit_def Let_def)

lemmas stop_defs = checkpointJournal_def enqueue_def emit_def rejectDurabilityWaiters_def refreshEditorEditable_def
  close_socket_def clearSocketDeadline_def clearSocketErrorCloseDeadline_def clearAuthorityChangeGrace_def

lemma enterTerminalRecovery_fields:
  assumes "\<not> stopped s"
  shows "stopped (enterTerminalRecovery c s)" "doc (enterTerminalRecovery c s) = doc s"
    "views (enterTerminalRecovery c s) = map (\<lambda>(v, _). (v, False)) (views s)"
    "opts (enterTerminalRecovery c s) = opts s" "pendingMutations (enterTerminalRecovery c s) = pendingMutations s"
    "settled (enterTerminalRecovery c s) = settled s" "disk (enterTerminalRecovery c s) = disk s"
  using assms by (simp_all add: enterTerminalRecovery_def stop_defs can_edit_def capabilities_def Let_def split: option.splits)

lemma recordStorageError_fields:
  assumes "\<not> storageFatal s"
  shows "storageFatal (recordStorageError c s)" "doc (recordStorageError c s) = doc s"
    "views (recordStorageError c s) = map (\<lambda>(v, _). (v, False)) (views s)"
    "destroyed (recordStorageError c s) = destroyed s"
    "opts (recordStorageError c s) = opts s" "pendingMutations (recordStorageError c s) = pendingMutations s"
    "settled (recordStorageError c s) = settled s" "disk (recordStorageError c s) = disk s" "lane (recordStorageError c s) = lane s"
  using assms by (simp_all add: recordStorageError_def stop_defs can_edit_def capabilities_def Let_def split: option.splits)

lemma views_ok_off: "stopped t \<Longrightarrow> views t = map (\<lambda>(v, _). (v, False)) vs \<Longrightarrow> doc t \<or> destroyed t \<or> vs = [] \<Longrightarrow> views_ok t"
  using can_edit_stopped [of t] by (auto simp: views_ok_def)

lemma views_ok_terminal: "views_ok s \<Longrightarrow> views_ok (enterTerminalRecovery c s)"
proof (cases "stopped s")
  case False
  assume "views_ok s"
  then have "doc s \<or> destroyed s \<or> views s = []" by (simp add: views_ok_def)
  with False show ?thesis
    by (intro views_ok_off [of _ "views s"]) (auto simp: enterTerminalRecovery_fields)
qed (auto simp: enterTerminalRecovery_def)

lemma views_ok_storage: "views_ok s \<Longrightarrow> views_ok (recordStorageError f s)"
proof (cases "storageFatal s")
  case False
  assume "views_ok s"
  then have "doc s \<or> destroyed s \<or> views s = []" by (simp add: views_ok_def)
  with False show ?thesis
    by (intro views_ok_off [of _ "views s"]) (auto simp: recordStorageError_fields)
qed (auto simp: recordStorageError_def)

lemma views_ok_eq: "core t = core s \<Longrightarrow> views_ok t = views_ok s"
  by (simp add: core_def views_ok_def can_edit_def capabilities_def)

lemma views_ok_fields:
  "views t = views s \<Longrightarrow> doc t = doc s \<Longrightarrow> destroyed t = destroyed s \<Longrightarrow> storageFatal t = storageFatal s \<Longrightarrow>
   permissionRole t = permissionRole s \<Longrightarrow> views_ok t = views_ok s"
  by (simp add: views_ok_def can_edit_def capabilities_def)

lemma views_ok_enqueue: "views_ok (enqueue j s) = views_ok s"
  by (rule views_ok_fields) (simp_all add: enqueue_def)

interpretation editors: session_closed views_ok "\<lambda>_. True" "\<lambda>_. True" "\<lambda>_. True"
proof unfold_locales
  fix s t :: "'d session" and x :: "'d world" and e ns p new c f bs k b r m v j rest w ev src seed n
  show "views_ok t" if "views_ok s" "core t = core s" using that views_ok_eq by blast
  show "views_ok (emit e s)" if "views_ok s" using that by (subst views_ok_fields [of _ s]) (simp_all add: emit_def)
  then show "views_ok (emit e s)" if "views_ok s" using that .
  show "views_ok (s\<lparr>effects := effects s @ map Resolved ns\<rparr>)" if "views_ok s"
    using that by (subst views_ok_fields [of _ s]) simp_all
  show "views_ok (refreshEditorEditable (s\<lparr>permissionRole := new\<rparr>))" if "views_ok s"
    using that by (auto simp: views_ok_def refreshEditorEditable_def can_edit_def capabilities_def)
  show "views_ok (enterTerminalRecovery c s)" if "views_ok s" using that by (rule views_ok_terminal)
  show "views_ok (recordStorageError f s)" if "views_ok s" using that by (rule views_ok_storage)
  show "views_ok (persistAndSendMutation x bs k b s)" if "views_ok s"
    using that by (subst views_ok_fields [of _ s]) (simp_all add: persistAndSendMutation_def Let_def enqueue_def)
  show "views_ok (recordStorageError f t)" if "views_ok s" "core t = core (s\<lparr>settled := rest\<rparr>)"
    using that by (intro views_ok_storage) (simp add: core_def views_ok_def can_edit_def capabilities_def)
  show "views_ok (retire j (s\<lparr>settled := rest\<rparr>))" if "views_ok s"
    using that by (subst views_ok_fields [of _ s]) (simp_all add: retire_def split: job.splits)
  show "views_ok (run_job x s)" if "views_ok s"
    using that by (subst views_ok_fields [of _ s]) (simp_all add: run_job_def split: list.splits option.splits)
  show "views_ok (fail_job x w s)" if "views_ok s"
    using that by (subst views_ok_fields [of _ s]) (simp_all add: fail_job_def split: list.splits)
  show "views_ok (s\<lparr>disk := journal_step (docId s) (disk s) ev\<rparr>)" if "views_ok s"
    using that by (subst views_ok_fields [of _ s]) simp_all
  show "views_ok (session_start x src seed s)" if "views_ok s" "\<not> destroyed s" "\<not> doc s"
  proof -
    have v: "views s = []" using that by (simp add: views_ok_def)
    have "views (session_start x src seed s) = []" by (rule no_views.started_by) (simp_all add: v)
    then show ?thesis by (simp add: views_ok_def)
  qed
  show "views_ok (session_destroy x s)" by (simp add: session_destroy_def Let_def views_ok_def)
  show "views_ok (mount_view n s)" if "views_ok s" "doc s \<or> destroyed s"
    using that by (auto simp: views_ok_def mount_view_def can_edit_def capabilities_def)
  show "views_ok (unmount_view n s)" if "views_ok s"
    using that by (auto simp: views_ok_def unmount_view_def can_edit_def capabilities_def)
qed (simp_all add: views_ok_enqueue)

definition session_initial :: "'d session \<Rightarrow> bool" where
  "session_initial s \<longleftrightarrow> (\<exists>options inst db. s = new_session options inst db)"

text \<open>
  Editors follow the authority. After any sequence of events every mounted editor is writable
  exactly if the session has the edit capability; and it has it only while it is neither destroyed
  nor without storage, in the role of owner or editor, or on a scratch or local page.
\<close>

theorem editors_follow_authority:
  assumes "session_initial s"
  shows "(\<forall>(v, b) \<in> set (views (foldl session_step s evs)). b = can_edit (foldl session_step s evs))
    \<and> (can_edit (foldl session_step s evs) \<longrightarrow> \<not> stopped (foldl session_step s evs)
        \<and> permissionRole (foldl session_step s evs) \<in> {Some Owner, Some Editor, Some Scratch, Some Local})"
proof -
  have "views_ok s" using assms by (auto simp: session_initial_def new_session_def views_ok_def)
  then have "views_ok (foldl session_step s evs)"
    by (rule editors.steps) (simp add: list_all_iff admissible_all)
  then show ?thesis
    by (auto simp: views_ok_def can_edit_def capabilities_def role_capabilities_def Let_def split: option.splits role.splits if_splits)
qed

theorem editors_follow_authority_witness:
  "can_edit (new_session (demo_options\<lparr>o_access := False\<rparr>) [] (\<lambda>_. S_Undefined) :: nat session)
    \<and> permissionRole (new_session (demo_options\<lparr>o_access := False\<rparr>) [] (\<lambda>_. S_Undefined) :: nat session)
       \<in> {Some Owner, Some Editor, Some Scratch, Some Local}"
proof -
  let ?s = "new_session (demo_options\<lparr>o_access := False\<rparr>) [] (\<lambda>_. S_Undefined) :: nat session"
  have "can_edit ?s" by (simp add: can_edit_def capabilities_def role_capabilities_def new_session_def demo_options_def)
  moreover have "session_initial ?s" by (auto simp: session_initial_def)
  ultimately show ?thesis using editors_follow_authority [of ?s "[]"] by simp
qed

end
