(* ===== verification/Session_Journal.thy ===== *)
theory Session_Journal
  imports Session_Safety
begin

text \<open>
  The session and its journal together: every mutation the session still owes the server is either
  in the durable journal, or on its way there, or already committed, as long as the storage works.
  The journal enters through the facts of \<open>retry_outbox\<close>, the handlers through \<open>session_handlers\<close>.
\<close>

definition fallback_of :: "job \<Rightarrow> journal" where
  "fallback_of j = (case j of Append f _ _ \<Rightarrow> f | Ack_Commit f _ \<Rightarrow> f | Ack_Local f _ _ \<Rightarrow> f | Checkpoint f _ \<Rightarrow> f)"

definition sendable_mutation :: "journal_mutation \<Rightarrow> bool" where
  "sendable_mutation m \<longleftrightarrow> hex32 (jm_id m) \<and> jm_bytes m \<noteq> []"

definition job_ok :: "job \<Rightarrow> bool" where
  "job_ok j \<longleftrightarrow> journal_ok (fallback_of j) \<and> (case j of Append _ m _ \<Rightarrow> sendable_mutation m | _ \<Rightarrow> True)"

definition on_disk :: "js_text \<Rightarrow> idb \<Rightarrow> journal_mutation \<Rightarrow> bool" where
  "on_disk d db m \<longleftrightarrow> (\<exists>y \<in> set (journal_pending d db). same_mutation y m)"

definition underway :: "job list \<Rightarrow> (job \<times> bool) list \<Rightarrow> journal_mutation \<Rightarrow> bool" where
  "underway queue finished m \<longleftrightarrow> (\<exists>f b. Append f m b \<in> set queue) \<or> (\<exists>j. (j, True) \<in> set finished \<and> acks j (jm_id m))"

text \<open>
  A failed transaction disables the session as soon as its continuation runs, so nothing is asked
  of a session whose storage has failed.
\<close>

definition failing :: "'d session \<Rightarrow> bool" where
  "failing s \<longleftrightarrow> storageFatal s \<or> (\<exists>j. (j, False) \<in> set (settled s))"

text \<open>\<open>A\<close>: the mutations whose acknowledgement another tab recorded in the shared journal.\<close>

definition restart_complete :: "js_text set \<Rightarrow> 'd session \<Rightarrow> bool" where
  "restart_complete A s \<longleftrightarrow> failing s \<or> list_all job_ok (lane s)
     \<and> (\<forall>(i, m) \<in> set (pendingMutations s). jm_id m = i \<and> sendable_mutation m
          \<and> (on_disk (docId s) (disk s) m \<or> underway (lane s) (settled s) m \<or> i \<in> A))"

lemma restart_completeD:
  assumes "restart_complete A s" "\<not> failing s" "(i, m) \<in> set (pendingMutations s)"
  shows "jm_id m = i" "sendable_mutation m"
    "on_disk (docId s) (disk s) m \<or> underway (lane s) (settled s) m \<or> i \<in> A"
  using assms unfolding restart_complete_def by blast+

lemma restart_complete_mono:
  assumes "restart_complete A s" "docId t = docId s" "disk t = disk s" "settled t = settled s"
    "storageFatal s \<Longrightarrow> storageFatal t" "set (lane s) \<subseteq> set (lane t)" "list_all job_ok (lane s) \<Longrightarrow> list_all job_ok (lane t)"
    "set (pendingMutations t) \<subseteq> set (pendingMutations s)"
  shows "restart_complete A t"
proof (cases "failing s")
  case True
  with assms show ?thesis by (auto simp: restart_complete_def failing_def)
next
  case False
  have "underway (lane t) (settled t) m" if "underway (lane s) (settled s) m" for m
    using that assms(4,6) by (auto simp: underway_def)
  with False assms show ?thesis by (fastforce simp: restart_complete_def)
qed

lemma fallback_ok: "restart_complete A s \<Longrightarrow> \<not> failing s \<Longrightarrow> journal_ok (emptyRecord s)"
  by (auto simp: restart_complete_def journal_ok_def list_all_iff emptyRecord_def sendable_mutation_def)

lemma restart_complete_enqueue:
  assumes "restart_complete A s" "\<not> failing s \<Longrightarrow> job_ok j" shows "restart_complete A (enqueue j s)"
proof (cases "failing s")
  case True
  then show ?thesis by (simp add: restart_complete_def failing_def enqueue_def)
next
  case False
  with assms show ?thesis by (intro restart_complete_mono [OF assms(1)]) (auto simp: enqueue_def)
qed

lemma restart_complete_checkpoint: "restart_complete A s \<Longrightarrow> restart_complete A (enqueue (Checkpoint (emptyRecord s) p) s)"
  by (rule restart_complete_enqueue) (auto simp: job_ok_def fallback_of_def fallback_ok)

interpretation journaled: session_stoppable "restart_complete A"
proof unfold_locales
  fix s t :: "'d session" and e ns p
  show "restart_complete A t" if "restart_complete A s" "core t = core s"
    using that by (simp add: restart_complete_def failing_def core_def)
  show "restart_complete A (enqueue (Checkpoint (emptyRecord s) p) s)" if "restart_complete A s"
    using that by (rule restart_complete_checkpoint)
qed (auto simp: restart_complete_def failing_def emit_def)

text \<open>What a transaction does to the disk is a step of the journal.\<close>

lemma job_writes_step:
  assumes "job_writes x j s = Some db"
  shows "\<exists>ev. db = journal_step (docId s) (disk s) ev
    \<and> (\<forall>i. acknowledges ev = Some i \<longrightarrow> acks j i)"
  using assms
proof (cases j)
  case (Append f m b)
  with assms show ?thesis
    by (intro exI [of _ "J_Append f m"])
      (auto simp: job_writes_def journal_step_def acknowledges_def Let_def split: prod.splits sum.splits)
next
  case (Ack_Commit f r)
  with assms obtain snap where "db = fst (acknowledgePendingMutation (docId s) f (receipt_id r) (receipt_version r)
      (receipt_revision r) snap (disk s))" by (auto simp: job_writes_def Let_def)
  with Ack_Commit show ?thesis
    by (intro exI [of _ "J_Acknowledge f (receipt_id r) (receipt_version r) (receipt_revision r) snap"])
      (simp add: journal_step_def acknowledges_def acks_def)
next
  case (Ack_Local f m v)
  with assms obtain snap where "db = fst (acknowledgePendingMutation (docId s) f (jm_id m) v 0 snap (disk s))"
    by (auto simp: job_writes_def Let_def)
  with Ack_Local show ?thesis
    by (intro exI [of _ "J_Acknowledge f (jm_id m) v 0 snap"]) (simp add: journal_step_def acknowledges_def acks_def)
next
  case (Checkpoint f p)
  with assms obtain snap where "db = fst (checkpointReplicaJournal (docId s) f snap (disk s))"
    by (auto simp: job_writes_def Let_def)
  with Checkpoint show ?thesis
    by (intro exI [of _ "J_Checkpoint f snap"]) (simp add: journal_step_def acknowledges_def)
qed

lemma on_disk_step:
  assumes "on_disk d db m" "acknowledges ev \<noteq> Some (jm_id m)"
  shows "on_disk d (journal_step d db ev) m"
proof -
  from assms(1) obtain y where y: "y \<in> set (journal_pending d db)" "same_mutation y m" by (auto simp: on_disk_def)
  then have "\<exists>r. readReplicaJournal d db = Some r" by (cases "readReplicaJournal d db") (simp_all add: journal_pending_def)
  then have "y \<in> set (journal_pending d (journal_step d db ev))"
    using y assms(2) by (intro journal_outbox.step_keeps) (auto simp: same_mutation_def)
  with y(2) show ?thesis by (auto simp: on_disk_def)
qed

lemma append_on_disk:
  assumes "job_writes x (Append f m b) s = Some db" "job_ok (Append f m b)"
  shows "on_disk (docId s) db m"
proof -
  obtain r where "appendPendingMutation (docId s) f m (disk s) = (db, Inr r)"
    using assms(1) by (auto simp: job_writes_def Let_def split: prod.splits sum.splits)
  with assms(2) append_written [of m f "docId s" "disk s" db r] show ?thesis
    by (auto simp: job_ok_def fallback_of_def sendable_mutation_def on_disk_def journal_pending_def)
qed

lemma restart_complete_run: "restart_complete A s \<Longrightarrow> restart_complete A (run_job x s)"
proof (cases "lane s")
  case (Cons j rest)
  assume rc: "restart_complete A s"
  show ?thesis
  proof (cases "failing s \<or> job_writes x j s = None")
    case True
    with Cons show ?thesis by (auto simp: run_job_def restart_complete_def failing_def split: option.splits)
  next
    case False
    then obtain db where db: "job_writes x j s = Some db" by auto
    obtain ev where ev: "db = journal_step (docId s) (disk s) ev" "\<And>i. acknowledges ev = Some i \<Longrightarrow> acks j i"
      using job_writes_step [OF db] by blast
    have ok: "list_all job_ok (j # rest)" using rc False Cons by (simp add: restart_complete_def)
    have "on_disk (docId s) db m \<or> underway rest (settled s @ [(j, True)]) m"
      if "on_disk (docId s) (disk s) m \<or> underway (j # rest) (settled s) m" for m
    proof (cases "on_disk (docId s) (disk s) m")
      case True
      then show ?thesis using on_disk_step [OF True, of ev] ev by (auto simp: underway_def)
    next
      case notdisk: False
      with that have "underway (j # rest) (settled s) m" by simp
      then show ?thesis using append_on_disk [of x _ m _ s db] db ok by (fastforce simp: underway_def)
    qed
    then show ?thesis using rc False Cons db ok
      by (auto simp: run_job_def restart_complete_def failing_def)
  qed
qed (simp add: run_job_def)

lemma restart_complete_persist:
  assumes "restart_complete A s" "length (w_random x) = 16"
  shows "restart_complete A (persistAndSendMutation x bs k b s)"
proof (cases "\<not> doc s \<or> destroyed s \<or> storageFatal s \<or> bs = []")
  case True
  with assms show ?thesis by (auto simp: persistAndSendMutation_def)
next
  case False
  define m where "m = \<lparr>jm_id = randomMutationId (w_random x), jm_kind = k, jm_bytes = bs, jm_createdAt = w_date x\<rparr>"
  define t where "t = s\<lparr>pendingMutations := AList.update (jm_id m) m (pendingMutations s)\<rparr>"
  define u where "u = (if access t \<and> serverSynced t then setStatus Saving t else t)"
  obtain y where "hexToBytes (jm_id m) = Inr y" using randomMutationId_accepted [OF assms(2)] by (auto simp: m_def)
  then have m: "sendable_mutation m" using False
    by (auto simp: sendable_mutation_def m_def hexToBytes_def hex32_def split: if_splits)
  have u: "pendingMutations u = pendingMutations t" "lane u = lane s" "settled u = settled s" "disk u = disk s"
      "docId u = docId s" "storageFatal u = storageFatal s" by (simp_all add: u_def t_def)
  have pend: "set (pendingMutations t) \<subseteq> insert (jm_id m, m) (set (pendingMutations s))"
    unfolding t_def using set_alist_update by simp
  have "restart_complete A (enqueue (Append (emptyRecord u) m b) u)"
  proof (cases "failing s")
    case True
    then show ?thesis by (simp add: restart_complete_def failing_def enqueue_def u)
  next
    case nf: False
    have ok: "jm_id n = i \<and> sendable_mutation n" if "(i, n) \<in> set (pendingMutations t)" for i n
      using that pend assms(1) nf m by (fastforce simp: restart_complete_def)
    have "journal_ok (emptyRecord u)" using ok by (force simp: journal_ok_def emptyRecord_def list_all_iff u sendable_mutation_def)
    with m have job: "job_ok (Append (emptyRecord u) m b)" by (simp add: job_ok_def fallback_of_def)
    have cov: "on_disk (docId s) (disk s) n \<or> underway (lane s @ [Append (emptyRecord u) m b]) (settled s) n \<or> i \<in> A"
      if "(i, n) \<in> set (pendingMutations t)" for i n
    proof (cases "n = m")
      case False
      then have "(i, n) \<in> set (pendingMutations s)" using that pend by auto
      from restart_completeD(3) [OF assms(1) nf this] show ?thesis by (auto simp: underway_def)
    qed (auto simp: underway_def)
    show ?thesis using assms(1) nf job ok cov
      by (auto simp: restart_complete_def enqueue_def u failing_def)
  qed
  then show ?thesis using False
    by (auto simp: persistAndSendMutation_def Let_def m_def [symmetric] t_def [symmetric] u_def [symmetric] split: if_splits)
      (simp_all add: u_def t_def)
qed

lemma restart_complete_pop:
  assumes "restart_complete A s" "settled s = (j, True) # rest"
  shows "restart_complete A (retire j (s\<lparr>settled := rest\<rparr>))"
proof -
  let ?t = "retire j (s\<lparr>settled := rest\<rparr>)"
  have t: "lane ?t = lane s" "settled ?t = rest" "disk ?t = disk s" "docId ?t = docId s" "storageFatal ?t = storageFatal s"
    by (cases j; simp add: retire_def)+
  have f: "failing ?t = failing s" using assms(2) t by (auto simp: failing_def)
  have p: "(i, m) \<in> set (pendingMutations s) \<and> \<not> acks j i" if "(i, m) \<in> set (pendingMutations ?t)" for i m
    using that by (cases j) (auto simp: retire_def acks_def AList.delete_eq)
  have "on_disk (docId s) (disk s) m \<or> underway (lane s) rest m \<or> i \<in> A"
    if "(i, m) \<in> set (pendingMutations ?t)" "\<not> failing s" for i m
  proof -
    from p [OF that(1)] have mine: "(i, m) \<in> set (pendingMutations s)" "\<not> acks j i" by auto
    note owed = restart_completeD [OF assms(1) that(2) mine(1)]
    then show ?thesis using mine(2) assms(2) by (auto simp: underway_def)
  qed
  then show ?thesis using assms(1) p unfolding restart_complete_def [of A ?t] f t by (fastforce simp: restart_complete_def)
qed

interpretation outbox: session_handlers "restart_complete A" "\<lambda>_. True" "\<lambda>x. length (w_random x) = 16" "\<lambda>ev. \<forall>i. acknowledges ev = Some i \<longrightarrow> i \<in> A"
proof unfold_locales
  fix s t :: "'d session" and x :: "'d world" and new c f bs k b r m v j rest w ev n
  show "restart_complete A (refreshEditorEditable (s\<lparr>permissionRole := new\<rparr>))" if "restart_complete A s"
    by (intro journaled.refreshed journaled.set_role that)
  show "restart_complete A (enterTerminalRecovery c s)" if "restart_complete A s" by (rule journaled.terminated [OF that])
  show "restart_complete A (recordStorageError f s)" if "restart_complete A s" by (rule journaled.faulted [OF that])
  show "restart_complete A (persistAndSendMutation x bs k b s)" if "restart_complete A s" "length (w_random x) = 16"
    by (rule restart_complete_persist [OF that])
  show "restart_complete A (enqueue (Ack_Commit (emptyRecord s) r) s)" if "restart_complete A s"
    using that fallback_ok [OF that] by (intro restart_complete_enqueue) (auto simp: job_ok_def fallback_of_def)
  show "restart_complete A (enqueue (Ack_Local (emptyRecord s) m v) s)" if "restart_complete A s"
    using that fallback_ok [OF that] by (intro restart_complete_enqueue) (auto simp: job_ok_def fallback_of_def)
  show "restart_complete A (recordStorageError f t)"
  proof -
    have "storageFatal (recordStorageError f t)"
      by (cases "storageFatal t") (simp_all add: recordStorageError_fields, simp add: recordStorageError_def)
    then show ?thesis by (simp add: restart_complete_def failing_def)
  qed
  show "restart_complete A (retire j (s\<lparr>settled := rest\<rparr>))" if "restart_complete A s" "settled s = (j, True) # rest"
    by (rule restart_complete_pop [OF that])
  show "restart_complete A (run_job x s)" if "restart_complete A s" by (rule restart_complete_run [OF that])
  show "restart_complete A (fail_job x w s)" if "restart_complete A s"
    using that by (auto simp: fail_job_def restart_complete_def failing_def split: list.splits)
  show "restart_complete A (s\<lparr>disk := journal_step (docId s) (disk s) ev\<rparr>)" if "restart_complete A s" "\<forall>i. acknowledges ev = Some i \<longrightarrow> i \<in> A"
    using that on_disk_step [of "docId s" "disk s" _ ev] by (fastforce simp: restart_complete_def failing_def)
  show "restart_complete A (session_destroy x s)" if "restart_complete A s" by (rule journaled.destruct [OF that])
  show "restart_complete A (unmount_view n s)" if "restart_complete A s"
    using that by (simp add: restart_complete_def failing_def unmount_view_def)
qed

interpretation started: session_primitive "\<lambda>s. doc s \<or> destroyed s" "\<lambda>_. True"
proof unfold_locales
  fix s t :: "'d session" and j rest
  show "doc t \<or> destroyed t" if "doc s \<or> destroyed s" "core t = core s" using that by (simp add: core_def)
  show "doc (retire j (s\<lparr>settled := rest\<rparr>)) \<or> destroyed (retire j (s\<lparr>settled := rest\<rparr>))" if "doc s \<or> destroyed s"
    using that by (cases j) (simp_all add: retire_def)
qed (simp_all add: emit_def enqueue_def)

lemma restart_complete_steps:
  assumes "restart_complete A s" "doc s \<or> destroyed s"
    and "list_all (admissible (\<lambda>_. True) (\<lambda>x. length (w_random x) = 16) (\<lambda>ev. \<forall>i. acknowledges ev = Some i \<longrightarrow> i \<in> A)) evs"
  shows "restart_complete A (foldl session_step s evs)"
  using assms
proof (induction evs arbitrary: s)
  case (Cons ev evs)
  have "restart_complete A (session_step s ev)"
  proof (rule outbox.step_from)
    show "restart_complete A (session_start (fst ev) src seed s)" for src seed
      using Cons.prems by (auto simp: session_start_def)
    show "restart_complete A (mount_view n s)" for n
      using Cons.prems by (simp add: restart_complete_def failing_def mount_view_def)
  qed (use Cons.prems in simp_all)
  moreover have "doc (session_step s ev) \<or> destroyed (session_step s ev)"
    using Cons.prems(2) by (rule started.step) (rule admissible_all)
  ultimately show ?case using Cons by simp
qed simp

text \<open>A session opened on the journal it was stored in starts restart-complete.\<close>

lemma foldl_update_set:
  "set (foldl (\<lambda>ps m. AList.update (jm_id m) m ps) qs ms) \<subseteq> set qs \<union> (\<lambda>m. (jm_id m, m)) ` set ms"
proof (induction ms arbitrary: qs)
  case (Cons m ms)
  from Cons [of "AList.update (jm_id m) m qs"] set_alist_update [of "jm_id m" m qs] show ?case by auto
qed simp

lemma restart_complete_open:
  assumes "readReplicaJournal (o_docId options) db = Some j" "list_all (\<lambda>m. jm_bytes m \<noteq> []) (j_pending j)"
    and "length (w_random x) = 16"
  shows "restart_complete A (session_start x (From_Journal j) seed (new_session options inst db))"
proof (rule outbox.started_by)
  fix j' ro
  let ?s = "new_session options inst db :: 'd session"
  assume "From_Journal j = From_Journal j'"
  then have "j' = j" by simp
  have "on_disk (docId ?s) (disk ?s) m \<and> sendable_mutation m" if "m \<in> set (j_pending j)" for m
    using that assms read_Some_hex [OF assms(1) that]
    by (auto simp: on_disk_def journal_pending_def new_session_def same_mutation_def sendable_mutation_def list_all_iff)
  then show "restart_complete A (?s\<lparr>permissionRole := ro\<rparr>) \<and> restart_complete A (?s\<lparr>permissionRole := ro,
      pendingMutations := foldl (\<lambda>ps m. AList.update (jm_id m) m ps) [] (j_pending j')\<rparr>)"
    using foldl_update_set [of "[]" "j_pending j"] unfolding \<open>j' = j\<close>
    by (fastforce simp: restart_complete_def new_session_def)
qed (use assms(3) in \<open>auto simp: restart_complete_def new_session_def failing_def\<close>)

text \<open>
  C4. What the session owes the server survives a crash. From a started session for which it holds
  (one just opened on its journal, by \<open>restart_complete_open\<close>), after any events of the session and
  of other tabs on the same journal: unless the storage has failed, every pending mutation is in the
  durable journal with its kind and bytes, or its append is still queued, or its commit has been
  recorded, by this session or by another tab that saw the server acknowledge it. Random bytes are
  sixteen per identifier.
\<close>

theorem session_restart_complete:
  assumes "restart_complete {} s" and "doc s \<or> destroyed s"
    and "\<And>x e. (x, e) \<in> set evs \<Longrightarrow> length (w_random x) = 16"
    and "(i, m) \<in> set (pendingMutations (foldl session_step s evs))"
    and "\<not> failing (foldl session_step s evs)"
  shows "on_disk (docId (foldl session_step s evs)) (disk (foldl session_step s evs)) m
    \<or> underway (lane (foldl session_step s evs)) (settled (foldl session_step s evs)) m
    \<or> (\<exists>x j. (x, E_Other_Tab j) \<in> set evs \<and> acknowledges j = Some i)"
proof -
  let ?A = "{i. \<exists>x j. (x, E_Other_Tab j) \<in> set evs \<and> acknowledges j = Some i}"
  have start: "restart_complete ?A s" using assms(1) by (fastforce simp: restart_complete_def)
  have "list_all (admissible (\<lambda>_. True) (\<lambda>x. length (w_random x) = 16) (\<lambda>ev. \<forall>i. acknowledges ev = Some i \<longrightarrow> i \<in> ?A)) evs"
    using assms(3) by (fastforce simp: list_all_iff admissible_def split: session_event.splits sum.splits)
  from restart_complete_steps [OF start assms(2) this] assms(4,5) show ?thesis
    by (fastforce simp: restart_complete_def)
qed

definition demo_edit :: "nat \<Rightarrow> engine_error + nat \<times> bytes \<times> bool" where
  "demo_edit d = Inr (d + 1, [5], False)"

lemma demo_edited:
  "pendingMutations (foldl session_step demo_session [(demo_world, E_Edit demo_edit)]) =
     [(randomMutationId (replicate 16 1),
       \<lparr>jm_id = randomMutationId (replicate 16 1), jm_kind = Update_Kind, jm_bytes = [5], jm_createdAt = 0\<rparr>)]"
  "\<not> failing (foldl session_step demo_session [(demo_world, E_Edit demo_edit)])"
  by (simp_all add: session_step_def local_edit_def demo_edit_def demo_session_def demo_world_def demo_options_def new_session_def
      can_edit_def capabilities_def role_capabilities_def persistAndSendMutation_def enqueue_def Let_def failing_def)

theorem session_restart_complete_witness:
  "on_disk (docId (foldl session_step demo_session [(demo_world, E_Edit demo_edit)]))
      (disk (foldl session_step demo_session [(demo_world, E_Edit demo_edit)]))
      \<lparr>jm_id = randomMutationId (replicate 16 1), jm_kind = Update_Kind, jm_bytes = [5], jm_createdAt = 0\<rparr>
   \<or> underway (lane (foldl session_step demo_session [(demo_world, E_Edit demo_edit)]))
      (settled (foldl session_step demo_session [(demo_world, E_Edit demo_edit)]))
      \<lparr>jm_id = randomMutationId (replicate 16 1), jm_kind = Update_Kind, jm_bytes = [5], jm_createdAt = 0\<rparr>"
proof -
  have "restart_complete {} demo_session" "doc demo_session"
    by (simp_all add: restart_complete_def demo_session_def new_session_def)
  then show ?thesis
    using session_restart_complete [of demo_session "[(demo_world, E_Edit demo_edit)]" "randomMutationId (replicate 16 1)"
        "\<lparr>jm_id = randomMutationId (replicate 16 1), jm_kind = Update_Kind, jm_bytes = [5], jm_createdAt = 0\<rparr>"]
    by (simp only: demo_edited list.set(1,2) insert_iff empty_iff prod.inject simp_thms session_event.distinct)
      (simp add: demo_world_def)
qed

end
