(* ===== verification/Session_Connection.thy ===== *)
theory Session_Connection
  imports Session_Journal
begin

text \<open>
  The connection of a session: a live session is never left without something that will bring the
  connection back, the reconnection delays are bounded, and reconnecting sends every pending
  mutation again. Two theorems at the end record where the code falls short of that: a
  synchronisation that overtakes the journal, and hiding the page.
\<close>

definition link :: "'d session \<Rightarrow> session_options \<times> bool \<times> bool \<times> bool \<times> bool \<times> nat option \<times> nat option \<times> real option \<times> real \<times> bool" where
  "link s = (opts s, doc s, loading s, destroyed s, storageFatal s, socket s, admissionAbort s, reconnectTimer s, reconnectDelay s,
     graceTimer s)"

text \<open>
  With \<open>b\<close> false: the bounds of the reconnection delays. With \<open>b\<close> true, in addition: a session
  that has finished loading has a socket, an admission under way, or a reconnection scheduled.
\<close>

definition lively :: "bool \<Rightarrow> 'd session \<Rightarrow> bool" where
  "lively b s \<longleftrightarrow> RECONNECT_MIN_MS \<le> reconnectDelay s \<and> reconnectDelay s \<le> RECONNECT_MAX_MS
     \<and> (\<forall>d. reconnectTimer s = Some d \<longrightarrow> 1 \<le> d \<and> d \<le> RECONNECT_MAX_MS)
     \<and> (b \<longrightarrow> access s \<longrightarrow> doc s \<longrightarrow> \<not> loading s \<longrightarrow> \<not> stopped s \<longrightarrow>
          socket s \<noteq> None \<or> admissionAbort s \<noteq> None \<or> reconnectTimer s \<noteq> None)"

lemma lively_link: "link t = link s \<Longrightarrow> lively b t = lively b s"
  by (simp add: lively_def link_def)

lemma lively_weaken: "lively b s \<Longrightarrow> lively False s"
  by (simp add: lively_def)

lemma link_soft [simp]:
  "link (s\<lparr>replica := a1\<rparr>) = link s" "link (s\<lparr>readyOpen := a2\<rparr>) = link s" "link (s\<lparr>nextSocket := a3\<rparr>) = link s"
  "link (s\<lparr>nextController := a4\<rparr>) = link s" "link (s\<lparr>graceDeadline := a5\<rparr>) = link s"
  "link (s\<lparr>snapshotReplyTimer := a7\<rparr>) = link s" "link (s\<lparr>saveTimer := a8\<rparr>) = link s" "link (s\<lparr>markdownTimer := a9\<rparr>) = link s"
  "link (s\<lparr>socketDeadline := a10\<rparr>) = link s" "link (s\<lparr>socketErrorClose := a11\<rparr>) = link s" "link (s\<lparr>lastServerVV := a12\<rparr>) = link s"
  "link (s\<lparr>lastAckedVersion := a13\<rparr>) = link s" "link (s\<lparr>committedRevision := a14\<rparr>) = link s" "link (s\<lparr>lastPruneAt := a15\<rparr>) = link s"
  "link (s\<lparr>pendingTicket := a16\<rparr>) = link s" "link (s\<lparr>permissionRole := a17\<rparr>) = link s" "link (s\<lparr>marksSiteId := a18\<rparr>) = link s"
  "link (s\<lparr>isHydrated := a19\<rparr>) = link s" "link (s\<lparr>localSaved := a20\<rparr>) = link s" "link (s\<lparr>serverSynced := a21\<rparr>) = link s"
  "link (s\<lparr>pendingMutations := a22\<rparr>) = link s" "link (s\<lparr>currentStatus := a23\<rparr>) = link s" "link (s\<lparr>views := a24\<rparr>) = link s"
  "link (s\<lparr>waiters := a25\<rparr>) = link s" "link (s\<lparr>storageError := a26\<rparr>) = link s" "link (s\<lparr>terminalError := a27\<rparr>) = link s"
  "link (s\<lparr>historyMaintenance := a28\<rparr>) = link s" "link (s\<lparr>activity := a29\<rparr>) = link s" "link (s\<lparr>ephemeral := a30\<rparr>) = link s"
  "link (s\<lparr>lane := a31\<rparr>) = link s" "link (s\<lparr>settled := a32\<rparr>) = link s" "link (s\<lparr>disk := a33\<rparr>) = link s"
  "link (s\<lparr>effects := a34\<rparr>) = link s"
  by (simp_all add: link_def)

lemmas lively_soft [simp] = link_soft [THEN lively_link]

lemma lively_grace [simp]:
  "lively b (s\<lparr>graceTimer := g\<rparr>) = lively b s" "lively b (clearAuthorityChangeGrace s) = lively b s"
  "lively b (beginAuthorityChangeGrace x s) = lively b s"
  by (simp_all add: lively_def clearAuthorityChangeGrace_def beginAuthorityChangeGrace_def)

lemma link_leaf [simp]:
  "link (emit e s) = link s" "link (enqueue j s) = link s" "link (resolveDurabilityWaiters s) = link s"
  "link (rejectDurabilityWaiters s) = link s" "link (refreshEditorEditable s) = link s" "link (checkpointJournal p s) = link s"
  "link (clearSocketDeadline k s) = link s" "link (clearSocketErrorCloseDeadline k s) = link s"
  "link (scheduleLocalSave s) = link s" "link (scheduleMarkdownCheckpoint s) = link s" "link (maintenance_settles s) = link s"
  "link (scheduleTabSnapshot s) = link s" "link (emitEngineError c s) = link s" "link (armSocketDeadline n ms s) = link s"
  by (simp_all add: emit_def enqueue_def resolveDurabilityWaiters_def rejectDurabilityWaiters_def refreshEditorEditable_def
      checkpointJournal_def clearSocketDeadline_def clearSocketErrorCloseDeadline_def scheduleLocalSave_def scheduleMarkdownCheckpoint_def maintenance_settles_def
      scheduleTabSnapshot_def emitEngineError_def armSocketDeadline_def Let_def)

lemma link_inner [simp]:
  "link (setStatus st s) = link s" "link (applyPermissionRole r s) = link s" "link (document_changed s) = link s"
  "link (flushMarkdownCheckpoint x s) = link s" "link (imported d v s) = link s"
  by (simp_all add: setStatus_def applyPermissionRole_def document_changed_def flushMarkdownCheckpoint_def imported_def Let_def
      split: option.splits)

lemma link_outer [simp]:
  "link (applyTicketPermissions t s) = link s" "link (flushLocalSave x s) = link s" "link (importRemote x bs s) = link s"
  "link (persistAndSendMutation x bs k b s) = link s" "link (compactDurableLocalHistory x s) = link s"
  "link (await_checkpoint s) = link s" "link (whenDurable n s) = link s" "link (waiter_times_out n s) = link s"
  "link (run_job x s) = link s" "link (fail_job x w s) = link s" "link (snapshot_reply_fires x s) = link s"
  "link (markdown_timer_fires x s) = link s" "link (save_timer_fires s) = link s" "link (handleVisibility x s) = link s"
  "link (handleCommitted x bs s) = link s" "link (loadServerSnapshot x r s) = link s" "link (release_replica s) = link s"
  "link (mount_view n s) = link s" "link (unmount_view n s) = link s" "link (markHydrated s) = link s"
  by (simp_all add: applyTicketPermissions_def flushLocalSave_def importRemote_def persistAndSendMutation_def
      compactDurableLocalHistory_def await_checkpoint_def whenDurable_def waiter_times_out_def run_job_def fail_job_def
      snapshot_reply_fires_def markdown_timer_fires_def save_timer_fires_def handleVisibility_def handleCommitted_def
      loadServerSnapshot_def release_replica_def mount_view_def unmount_view_def markHydrated_def Let_def
      split: option.splits sum.splits prod.splits engine_error.splits list.splits)

lemma link_prune [simp]: "link (maybePrune x v s) = link s"
  by (simp add: maybePrune_def Let_def split: option.splits sum.splits)

lemmas lively_ops [simp] = link_leaf [THEN lively_link] link_inner [THEN lively_link] link_outer [THEN lively_link] link_prune [THEN lively_link]

lemma lively_off: "stopped s \<Longrightarrow> lively b s = lively False s"
  by (auto simp: lively_def)

text \<open>Facts about the fields of \<open>link\<close> follow from its equations.\<close>

lemma link_eqD:
  assumes "link t = link s"
  shows "access t = access s" "doc t = doc s" "loading t = loading s" "stopped t = stopped s" "socket t = socket s"
    "admissionAbort t = admissionAbort s" "reconnectTimer t = reconnectTimer s" "reconnectDelay t = reconnectDelay s"
    "destroyed t = destroyed s" "graceTimer t = graceTimer s"
  using assms by (simp_all add: link_def)

lemma lively_terminal: "lively False s \<Longrightarrow> lively b (enterTerminalRecovery c s)"
proof (cases "stopped s")
  case True
  then have "enterTerminalRecovery c s = s" by (auto simp: enterTerminalRecovery_def)
  then show "lively False s \<Longrightarrow> ?thesis" using lively_off [OF True] by simp
next
  case False
  have "reconnectDelay (enterTerminalRecovery c s) = reconnectDelay s" "reconnectTimer (enterTerminalRecovery c s) = None"
    using False by (simp_all add: enterTerminalRecovery_def stop_defs setStatus_def resolveDurabilityWaiters_def Let_def split: option.splits)
  then show "lively False s \<Longrightarrow> ?thesis" using enterTerminalRecovery_fields(1) [OF False, of c]
    by (auto simp: lively_def)
qed

lemma lively_storage: "lively False s \<Longrightarrow> lively b (recordStorageError f s)"
proof (cases "storageFatal s")
  case True
  then have "recordStorageError f s = s" "stopped s" by (auto simp: recordStorageError_def)
  then show "lively False s \<Longrightarrow> ?thesis" using lively_off by metis
next
  case False
  have "reconnectDelay (recordStorageError f s) = reconnectDelay s" "reconnectTimer (recordStorageError f s) = None"
    using False by (simp_all add: recordStorageError_def stop_defs setStatus_def resolveDurabilityWaiters_def Let_def split: option.splits)
  then show "lively False s \<Longrightarrow> ?thesis" using recordStorageError_fields(1) [OF False, of f]
    by (auto simp: lively_def)
qed

lemma openSocket_link:
  "\<not> stopped s \<Longrightarrow> link (openSocket x t s) = link (s\<lparr>socket := Some (nextSocket s)\<rparr>)"
  by (simp add: openSocket_def Let_def) (simp add: link_def emit_def)

lemma lively_open: "lively False s \<Longrightarrow> lively b (openSocket x t s)"
proof (cases "stopped s")
  case True
  then show "lively False s \<Longrightarrow> ?thesis" using lively_off [OF True] by (auto simp: openSocket_def)
next
  case False
  then show "lively False s \<Longrightarrow> ?thesis" by (simp add: openSocket_link [THEN lively_link]) (simp add: lively_def)
qed

lemma lively_connect: "lively False s \<Longrightarrow> lively b (connect x s)"
  by (auto simp: connect_def lively_open split: option.splits) (auto simp: lively_def)

lemma lively_expire: "lively b s \<Longrightarrow> lively b (expireAuthorityChangeGrace x s)"
proof -
  assume "lively b s"
  then have "lively False ((clearAuthorityChangeGrace s)\<lparr>admissionAbort := None\<rparr>)"
    using lively_weaken [of b s] by (simp add: lively_def clearAuthorityChangeGrace_def)
  with \<open>lively b s\<close> show ?thesis by (simp add: expireAuthorityChangeGrace_def lively_terminal)
qed

lemma lively_expired:
  assumes "lively False s" "graceDeadline s > 0" "graceDeadline s - w_now x \<le> 0"
  shows "lively b (expireAuthorityChangeGrace x s)"
proof (cases "stopped s")
  case True
  then show ?thesis using assms lively_off [OF True] by (auto simp: expireAuthorityChangeGrace_def)
next
  case False
  have "lively False ((clearAuthorityChangeGrace s)\<lparr>admissionAbort := None\<rparr>)"
    using assms(1) by (simp add: lively_def clearAuthorityChangeGrace_def)
  with False assms show ?thesis by (auto simp: expireAuthorityChangeGrace_def lively_terminal)
qed

lemma lively_reconnect: "lively False s \<Longrightarrow> lively b (scheduleReconnect x s)"
proof -
  assume l: "lively False s"
  let ?s = "s\<lparr>reconnectDelay := min (reconnectDelay s * 2) RECONNECT_MAX_MS\<rparr>"
  have l': "lively False ?s" using l by (auto simp: lively_def RECONNECT_MIN_MS_def RECONNECT_MAX_MS_def)
  have timer: "lively b (?s\<lparr>reconnectTimer := Some (max 1 d)\<rparr>)" if "d \<le> RECONNECT_MAX_MS" for d
    using l' that by (auto simp: lively_def RECONNECT_MAX_MS_def)
  show ?thesis
    using l lively_expired [OF l', of x b] timer [of "min (reconnectDelay s * w_jitter x) RECONNECT_MAX_MS"]
      timer [of "min (min (reconnectDelay s * w_jitter x) RECONNECT_MAX_MS) (graceDeadline s - w_now x)"]
    by (auto simp: scheduleReconnect_def Let_def) (auto simp: lively_def)
qed

lemma lively_reconnect_timer: "lively b s \<Longrightarrow> lively b (reconnect_timer_fires x s)"
proof -
  assume l: "lively b s"
  have "lively False (s\<lparr>reconnectTimer := None\<rparr>)" using l by (auto simp: lively_def)
  with l show ?thesis
    by (auto simp: reconnect_timer_fires_def Let_def lively_connect intro!: lively_expired)
qed

lemma lively_admission: "lively b s \<Longrightarrow> lively b (admission_succeeds x c t s)" "lively b s \<Longrightarrow> lively b (admission_fails x c r s)"
proof -
  assume l: "lively b s"
  have n: "lively False (s\<lparr>admissionAbort := None\<rparr>)" using l by (simp add: lively_def)
  then have "lively False (applyTicketPermissions t ((clearAuthorityChangeGrace (s\<lparr>admissionAbort := None\<rparr>))\<lparr>marksSiteId := t_siteId t\<rparr>))"
    by simp
  with l show "lively b (admission_succeeds x c t s)" by (simp add: admission_succeeds_def lively_open)
  have "lively b (s\<lparr>admissionAbort := None\<rparr>)" if "stopped s" using n that lively_off [of "s\<lparr>admissionAbort := None\<rparr>" b] by simp
  with l n show "lively b (admission_fails x c r s)"
    by (auto simp: admission_fails_def Let_def lively_reconnect lively_terminal)
qed

lemma lively_disconnect: "lively b s \<Longrightarrow> lively b (onDisconnect x k code s)"
proof (cases "socket s = Some k")
  case True
  assume l: "lively b s"
  define u where "u = (clearSocketDeadline (Some k) (clearSocketErrorCloseDeadline (Some k) s))
      \<lparr>socket := None, readyOpen := False, serverSynced := False\<rparr>"
  have "link u = link (s\<lparr>socket := None\<rparr>)"
    by (simp add: u_def link_def clearSocketDeadline_def clearSocketErrorCloseDeadline_def)
  then have n: "lively False u" using l lively_link [of u "s\<lparr>socket := None\<rparr>" False] by (simp add: lively_def)
  have "lively b u" if "stopped u" using n that lively_off [OF that] by simp
  with True n show ?thesis
    unfolding onDisconnect_def Let_def u_def [symmetric]
    by (simp add: lively_terminal lively_connect lively_reconnect)
qed (simp add: onDisconnect_def)

lemma lively_errors:
  "lively b s \<Longrightarrow> lively b (onSocketError x k s)" "lively b s \<Longrightarrow> lively b (error_close_timer_fires x s)"
  "lively b s \<Longrightarrow> lively b (socket_deadline_fires x s)" "lively b s \<Longrightarrow> lively b (grace_timer_fires x s)"
  by (simp_all add: onSocketError_def error_close_timer_fires_def socket_deadline_fires_def grace_timer_fires_def Let_def
      lively_disconnect lively_expire split: option.splits prod.splits)

lemma lively_send: "lively b s \<Longrightarrow> lively b (send x tag bs s)"
  by (simp add: send_def lively_disconnect split: option.splits)

lemma lively_mutation: "lively b s \<Longrightarrow> lively b (sendMutation x m s)"
  by (simp add: sendMutation_def lively_send split: sum.splits)

lemma lively_all: "lively b s \<Longrightarrow> lively b (send_all x ms s)"
  by (induction ms arbitrary: s) (simp_all add: lively_mutation)

lemma lively_sync: "lively b s \<Longrightarrow> lively b (sendMissingSince x v s)" "lively b s \<Longrightarrow> lively b (synchronizeWithServer x s)"
proof -
  have m: "lively b (sendMissingSince x v t)" if "lively b t" for v t
    using that by (simp add: sendMissingSince_def sendPendingMutations_def lively_all
        split: option.splits sum.splits engine_error.splits prod.splits)
  then show "lively b s \<Longrightarrow> lively b (sendMissingSince x v s)" .
  show "lively b s \<Longrightarrow> lively b (synchronizeWithServer x s)"
    by (simp add: synchronizeWithServer_def sendPendingMutations_def lively_all m split: option.splits)
qed

lemma lively_presence: "lively b s \<Longrightarrow> lively b (with_presence x f s)"
proof -
  have "lively b (send_presence x bss t)" if "lively b t" for bss t
    using that by (induction bss arbitrary: t) (simp_all add: lively_send)
  then show "lively b s \<Longrightarrow> ?thesis" by (simp add: with_presence_def Let_def)
qed

lemma lively_activity: "lively b s \<Longrightarrow> lively b (with_activity x e s)"
proof -
  have "lively b (run_publish x ps t)" if "lively b t" for ps t
    using that by (induction x ps t rule: run_publish.induct)
      (simp_all add: publishUser_def clearLocalPresence_def Let_def lively_presence)
  then show "lively b s \<Longrightarrow> ?thesis" by (simp add: with_activity_def split: prod.splits)
qed

lemma lively_socket_open: "lively b s \<Longrightarrow> lively b (socket_opens x k s)"
proof -
  assume l: "lively b s"
  have "lively b (s\<lparr>readyOpen := True, reconnectDelay := RECONNECT_MIN_MS\<rparr>)"
    using l by (auto simp: lively_def RECONNECT_MIN_MS_def RECONNECT_MAX_MS_def)
  with l show ?thesis by (simp add: socket_opens_def Let_def lively_send split: prod.splits sum.splits)
qed

lemma lively_tab: "lively b s \<Longrightarrow> lively b (importFromTab x bs k s)"
  by (simp add: importFromTab_def Let_def lively_sync split: option.splits sum.splits prod.splits mutation_kind.splits)

lemma lively_edit: "lively b s \<Longrightarrow> lively b (local_edit x f s)"
  by (simp add: local_edit_def Let_def split: option.splits sum.splits prod.splits engine_error.splits)

lemma lively_message: "lively b s \<Longrightarrow> lively b (onMessage x k bs s)"
  by (cases bs) (simp_all add: onMessage_def lively_sync)

lemma lively_append: "lively b s \<Longrightarrow> lively b (append_settled x m t s)"
  by (simp add: append_settled_def Let_def lively_mutation split: option.splits)

lemma lively_commit: "lively b s \<Longrightarrow> lively b (commit_acknowledged x r s)"
proof -
  assume l: "lively b s"
  let ?t = "s\<lparr>pendingMutations := AList.delete (receipt_id r) (pendingMutations s), localSaved := True\<rparr>"
  define u where "u = (case socket ?t of
      Some k \<Rightarrow> if pendingMutations ?t \<noteq> [] then armSocketDeadline k SOCKET_COMMIT_TIMEOUT_MS ?t else clearSocketDeadline (Some k) ?t
    | None \<Rightarrow> clearSocketDeadline None ?t)"
  have "lively b u" using l unfolding u_def by (simp split: option.splits)
  then show ?thesis
    unfolding commit_acknowledged_def Let_def u_def [symmetric] using l by (simp add: lively_sync)
qed

lemma lively_settle: "lively b s \<Longrightarrow> lively b (settle_job x s)"
proof -
  assume l: "lively b s"
  have arch: "lively b (archived x t)" if "lively b t" for t
    using that lively_weaken [OF that] by (simp add: archived_def Let_def lively_storage split: option.splits sum.splits)
  have "lively b (continue_job x j ok t)" if "lively b t" for j ok t
    using that lively_weaken [OF that] arch [OF that]
    by (auto simp: continue_job_def lively_append lively_commit lively_storage local_acknowledged_def checkpoint_settled_def
        checkpoint_failed_def split: job.splits checkpoint_purpose.splits)
  with l show ?thesis by (simp add: settle_job_def split: list.splits prod.splits)
qed

lemma lively_destroy: "lively False s \<Longrightarrow> lively b (session_destroy x s)"
proof -
  assume l: "lively False s"
  define u where "u = clearSocketDeadline None (clearSocketErrorCloseDeadline None (clearAuthorityChangeGrace
      ((rejectDurabilityWaiters ((flushLocalSave x s)\<lparr>destroyed := True\<rparr>))\<lparr>admissionAbort := None\<rparr>)))"
  have f: "reconnectDelay (flushLocalSave x s) = reconnectDelay s" using link_outer(2) [of x s] by (simp add: link_def)
  have u: "reconnectDelay u = reconnectDelay s" "destroyed u"
    by (simp_all add: u_def clearSocketDeadline_def clearSocketErrorCloseDeadline_def clearAuthorityChangeGrace_def
        rejectDurabilityWaiters_def f)
  then have "lively False (u\<lparr>reconnectTimer := None, snapshotReplyTimer := False\<rparr>)" using l by (simp add: lively_def)
  then have v: "lively False (with_activity x A_Disconnect (u\<lparr>reconnectTimer := None, snapshotReplyTimer := False\<rparr>))"
    by (rule lively_activity)
  have d: "destroyed (with_activity x A_Disconnect (u\<lparr>reconnectTimer := None, snapshotReplyTimer := False\<rparr>))"
    using with_activity_stopped [of "u\<lparr>reconnectTimer := None, snapshotReplyTimer := False\<rparr>" x A_Disconnect] u(2)
    by (simp add: core_def)
  show ?thesis
    unfolding session_destroy_def Let_def u_def [symmetric]
    using v d by (auto simp: lively_def close_socket_def emit_def split: option.splits)
qed

lemma lively_start: "lively b s \<Longrightarrow> lively b (session_start x src seed s)"
proof -
  assume l: "lively b s"
  have bound: "lively False (bindDocument x site d t)" if "lively False t" for site d t
  proof -
    have "lively False (t\<lparr>doc := True, replica := Some d, marksSiteId := site\<rparr>)" using that by (simp add: lively_def)
    then show ?thesis by (simp add: bindDocument_def Let_def lively_activity)
  qed
  have loads: "lively b (begin_loading t)" if "lively False t" for t
    using that link_inner(1) link_outer(20) [of t] by (simp add: begin_loading_def lively_def emit_def link_def)
  have pend: "lively False (restore_pending x ms t)" if "lively False t" for ms t
    using that by (induction ms arbitrary: t)
      (simp_all add: lively_storage split: option.splits sum.splits prod.splits)
  note n = lively_weaken [OF l]
  show ?thesis
  proof (cases src)
    case (From_Journal j)
    have "lively False (bindDocument x (j_siteId j) d (s\<lparr>permissionRole := ro, pendingMutations := ps\<rparr>))" for d ro ps
      using n by (intro bound) simp
    note facts = this l n loads pend lively_destroy
    show ?thesis unfolding From_Journal session_start_def Let_def
      by (auto simp: facts split: sum.splits option.splits prod.splits)
  next
    case (From_Admission t)
    then show ?thesis by (simp add: session_start_def Let_def l n loads bound lively_destroy split: sum.splits)
  next
    case (From_Local site md)
    then show ?thesis by (simp add: session_start_def Let_def lively_edit l n loads bound lively_destroy split: sum.splits)
  qed
qed

lemma lively_online: "lively b s \<Longrightarrow> lively b (handleOnline x s)"
proof -
  assume l: "lively b s"
  have "lively False (s\<lparr>reconnectDelay := RECONNECT_MIN_MS, reconnectTimer := None\<rparr>)"
    by (simp add: lively_def RECONNECT_MIN_MS_def RECONNECT_MAX_MS_def)
  then have c: "lively b (connect x (s\<lparr>reconnectDelay := RECONNECT_MIN_MS, reconnectTimer := None\<rparr>))" by (rule lively_connect)
  have "lively b (s\<lparr>reconnectDelay := RECONNECT_MIN_MS, reconnectTimer := None\<rparr>)" if "\<not> access s \<or> socket s \<noteq> None"
    using that by (auto simp: lively_def RECONNECT_MIN_MS_def RECONNECT_MAX_MS_def)
  with l c show ?thesis by (auto simp: handleOnline_def Let_def)
qed

lemma lively_snapshot: "lively b s \<Longrightarrow> lively b (snapshot_loaded x r s)"
proof -
  assume l: "lively b s"
  define u where "u = loadServerSnapshot x r (s\<lparr>loading := False\<rparr>)"
  have "link u = link (s\<lparr>loading := False\<rparr>)" by (simp add: u_def)
  then have n: "lively False u" using l lively_link [of u "s\<lparr>loading := False\<rparr>" False] by (simp add: lively_def)
  then have "lively b u" if "destroyed u" using that lively_off [of u b] by simp
  with l n show ?thesis
    unfolding snapshot_loaded_def Let_def u_def [symmetric] by (simp add: lively_connect)
qed

lemma lively_page:
  "lively False s \<Longrightarrow> lively False (handleOffline s)" "lively False s \<Longrightarrow> lively False (handlePageHide x s)"
proof -
  assume l: "lively False s"
  have "reconnectDelay (handleOffline s) = reconnectDelay s \<and> reconnectTimer (handleOffline s) = None"
    by (auto simp: handleOffline_def Let_def clearSocketErrorCloseDeadline_def clearSocketDeadline_def emit_def
        link_inner(1) [THEN link_eqD(7)] link_inner(1) [THEN link_eqD(8)] split: option.splits)
  with l show "lively False (handleOffline s)" by (simp add: lively_def)
  have "lively False (with_activity x A_Pagehide (flushLocalSave x s))" using l by (simp add: lively_activity)
  then show "lively False (handlePageHide x s)"
    by (auto simp: handlePageHide_def close_socket_def emit_def clearSocketDeadline_def clearSocketErrorCloseDeadline_def lively_def
        split: option.splits)
qed

definition parks :: "'d session_event \<Rightarrow> bool" where
  "parks e \<longleftrightarrow> (case e of E_Offline \<Rightarrow> True | E_Page_Hide \<Rightarrow> True | _ \<Rightarrow> False)"

lemma lively_step:
  assumes "lively b s" "b \<longrightarrow> \<not> parks (snd ev)" shows "lively b (session_step s ev)"
proof (cases ev)
  case (Pair x e)
  note l = assms(1)
  have d: "lively b (session_destroy x s)" by (rule lively_destroy [OF lively_weaken [OF l]])
  show ?thesis
  proof (cases e)
    case E_Offline
    with assms Pair have "\<not> b" by (simp add: parks_def)
    with l E_Offline show ?thesis by (simp add: session_step_def Pair lively_page)
  next
    case E_Page_Hide
    with assms Pair have "\<not> b" by (simp add: parks_def)
    with l E_Page_Hide show ?thesis by (simp add: session_step_def Pair lively_page)
  qed (simp_all add: session_step_def Pair l d lively_start lively_snapshot lively_edit lively_admission lively_socket_open lively_message
      lively_disconnect lively_errors lively_reconnect_timer lively_online lively_activity lively_tab lively_settle)
qed

lemma lively_steps: "lively b s \<Longrightarrow> list_all (\<lambda>ev. b \<longrightarrow> \<not> parks (snd ev)) evs \<Longrightarrow> lively b (foldl session_step s evs)"
  by (induction evs arbitrary: s) (simp_all add: lively_step)

interpretation connection: event_machine session_initial session_step "lively False"
proof unfold_locales
  show "lively False s" if "session_initial s" for s :: "'d session"
    using that by (auto simp: session_initial_def new_session_def lively_def RECONNECT_MIN_MS_def RECONNECT_MAX_MS_def)
qed (simp add: lively_step)

text \<open>
  C8. A live session is never stranded. From a new session, after any events that do not take the
  page offline or hide it: a session with a service that has loaded and has not stopped has a
  socket, or an admission request under way, or a reconnection scheduled.
\<close>

theorem session_never_stranded:
  assumes "session_initial s" and "list_all (\<lambda>ev. \<not> parks (snd ev)) evs"
    and "t = foldl session_step s evs" and "access t" and "doc t" and "\<not> loading t" and "\<not> stopped t"
  shows "socket t \<noteq> None \<or> admissionAbort t \<noteq> None \<or> reconnectTimer t \<noteq> None"
proof -
  have "lively True s" using assms(1)
    by (auto simp: session_initial_def new_session_def lively_def RECONNECT_MIN_MS_def RECONNECT_MAX_MS_def)
  then have "lively True t" unfolding assms(3) using assms(2) by (intro lively_steps) simp_all
  with assms(4-7) show ?thesis by (auto simp: lively_def)
qed

text \<open>
  Reconnection is paced: in every reachable state the next delay is between half a second and
  eight seconds, and a scheduled reconnection is between one millisecond and eight seconds away,
  whatever the clock and the random jitter were.
\<close>

theorem reconnect_bounds:
  assumes "session_initial s"
  shows "500 \<le> reconnectDelay (foldl session_step s evs) \<and> reconnectDelay (foldl session_step s evs) \<le> 8000
    \<and> (\<forall>d. reconnectTimer (foldl session_step s evs) = Some d \<longrightarrow> 1 \<le> d \<and> d \<le> 8000)"
  using connection.reachable_inv [OF assms, of evs] by (simp add: lively_def RECONNECT_MIN_MS_def RECONNECT_MAX_MS_def)

theorem reconnect_bounds_witness:
  "\<forall>evs :: (nat world \<times> nat session_event) list.
     reconnectDelay (foldl session_step (new_session demo_options [] (\<lambda>_. S_Undefined)) evs) \<le> 8000"
  using reconnect_bounds [of "new_session demo_options [] (\<lambda>_. S_Undefined) :: nat session"]
  by (auto simp: session_initial_def)

theorem session_never_stranded_witness:
  "socket (foldl session_step (new_session demo_options [] (\<lambda>_. S_Undefined))
     [(demo_world\<lparr>w_hidden := True\<rparr>, E_Start (From_Admission \<lparr>t_siteId = js ''7'', t_role = Some Editor, t_scratch = False\<rparr>) (\<lambda>_. Inl Other_Error)),
      (demo_world\<lparr>w_hidden := True\<rparr>, E_Snapshot None)]) = Some 0"
proof -
  let ?evs = "[(demo_world\<lparr>w_hidden := True\<rparr>, E_Start (From_Admission \<lparr>t_siteId = js ''7'', t_role = Some Editor, t_scratch = False\<rparr>) (\<lambda>_. Inl Other_Error)),
      (demo_world\<lparr>w_hidden := True\<rparr>, E_Snapshot None)]"
  let ?s = "new_session demo_options [] (\<lambda>_. S_Undefined) :: nat session"
  let ?t = "foldl session_step ?s ?evs"
  have t: "access ?t" "doc ?t" "\<not> loading ?t" "\<not> stopped ?t" "admissionAbort ?t = None" "reconnectTimer ?t = None"
      "socket ?t = None \<or> socket ?t = Some 0"
    by (simp_all add: session_step_def session_start_def snapshot_loaded_def loadServerSnapshot_def demo_world_def demo_options_def new_session_def
        begin_loading_def bindDocument_def with_activity_def activity_start_def transitionInactive_def new_activity_def
        clearIdleTimer_def applyTicketPermissions_def applyPermissionRole_def refreshEditorEditable_def checkpointJournal_def
        markHydrated_def emit_def connect_def openSocket_def armSocketDeadline_def clearSocketDeadline_def enqueue_def Let_def)
  have i: "session_initial ?s" "list_all (\<lambda>ev. \<not> parks (snd ev)) ?evs" by (auto simp: session_initial_def parks_def)
  have "socket ?t \<noteq> None \<or> admissionAbort ?t \<noteq> None \<or> reconnectTimer ?t \<noteq> None"
    by (rule session_never_stranded [OF i refl t(1,2,3,4)])
  with t show ?thesis by (metis option.distinct(1))
qed

section \<open>Resending\<close>

lemmas message_tags = MSG_SYNCED_def MSG_UPDATE_def MSG_SNAPSHOT_def MSG_EPHEMERAL_def MSG_PRESENCE_DELTA_def
  MSG_PRESENCE_SNAPSHOT_def MSG_PRESENCE_REMOVAL_def MSG_SERVER_VV_def

lemma recordStorageError_keeps_effects: "set (effects s) \<subseteq> set (effects (recordStorageError f s))"
  by (auto simp: recordStorageError_def stop_defs setStatus_def resolveDurabilityWaiters_def Let_def split: option.splits)

definition mutation_frame :: "journal_mutation \<Rightarrow> bytes" where
  "mutation_frame m = frame MSG_MUTATION (case encodeMutation (jm_id m) (jm_kind m) (jm_bytes m) of Inl _ \<Rightarrow> [] | Inr y \<Rightarrow> y)"

lemma sendMutation_ok:
  assumes "sendable s" "socket s = Some k" "encodeMutation (jm_id m) (jm_kind m) (jm_bytes m) = Inr y"
    "\<not> w_send_throws x (mutation_frame m)"
  shows "sendMutation x m s = s\<lparr>effects := effects s @ [Sent k (mutation_frame m)], socketDeadline := Some (k, SOCKET_COMMIT_TIMEOUT_MS)\<rparr>"
proof -
  have "y \<noteq> []" using assms(3) by (auto simp: encodeMutation_def MUTATION_MAGIC_def split: sum.splits if_splits)
  with assms show ?thesis
    by (auto simp: sendMutation_def send_def sendable_def mutation_frame_def emit_def armSocketDeadline_def clearSocketDeadline_def Let_def)
qed

text \<open>The frames a session has handed to its sockets, in order.\<close>

definition sent_frames :: "effect list \<Rightarrow> (nat \<times> bytes) list" where
  "sent_frames es = List.map_filter (\<lambda>e. case e of Sent k f \<Rightarrow> Some (k, f) | _ \<Rightarrow> None) es"

lemma sent_frames_simps [simp]:
  "sent_frames [] = []" "sent_frames (as @ bs) = sent_frames as @ sent_frames bs"
  "sent_frames (Sent k f # es) = (k, f) # sent_frames es"
  "sent_frames (Status_Changed st # es) = sent_frames es" "sent_frames (Closed k # es) = sent_frames es"
  "sent_frames (Error_Shown e # es) = sent_frames es"
  "sent_frames (map Resolved ns) = []" "sent_frames (map Rejected ns) = []"
  by (simp_all add: sent_frames_def List.map_filter_def comp_def)

lemma setStatus_sent [simp]: "sent_frames (effects (setStatus st s)) = sent_frames (effects s)"
  by (simp add: setStatus_def resolveDurabilityWaiters_def emit_def Let_def)

lemma enterTerminalRecovery_sent [simp]: "sent_frames (effects (enterTerminalRecovery c s)) = sent_frames (effects s)"
  by (simp add: enterTerminalRecovery_def stop_defs setStatus_def resolveDurabilityWaiters_def emit_def Let_def split: option.splits)

lemma onDisconnect_sent: "sent_frames (effects (onDisconnect x k None s)) = sent_frames (effects s)"
  by (simp add: onDisconnect_def scheduleReconnect_def expireAuthorityChangeGrace_def clearSocketDeadline_def
      clearSocketErrorCloseDeadline_def clearAuthorityChangeGrace_def Let_def)

lemma setStatus_socket: "socket (setStatus st s) = socket s"
  by (simp add: setStatus_def resolveDurabilityWaiters_def emit_def Let_def)

lemma enterTerminalRecovery_socket: "socket s = None \<Longrightarrow> socket (enterTerminalRecovery c s) = None"
  by (simp add: enterTerminalRecovery_def stop_defs setStatus_def resolveDurabilityWaiters_def Let_def split: option.splits)

lemma expireAuthorityChangeGrace_socket: "socket s = None \<Longrightarrow> socket (expireAuthorityChangeGrace x s) = None"
  by (simp add: expireAuthorityChangeGrace_def clearAuthorityChangeGrace_def enterTerminalRecovery_socket)

lemma scheduleReconnect_socket: "socket s = None \<Longrightarrow> socket (scheduleReconnect x s) = None"
  by (simp add: scheduleReconnect_def expireAuthorityChangeGrace_socket Let_def)

lemma onDisconnect_socket: "socket s = Some k \<Longrightarrow> socket (onDisconnect x k None s) = None"
  by (simp add: onDisconnect_def scheduleReconnect_socket setStatus_socket clearSocketDeadline_def
      clearSocketErrorCloseDeadline_def Let_def)

text \<open>A mutation that can be encoded and whose frame the socket takes.\<close>

definition goes_out :: "'d world \<Rightarrow> journal_mutation \<Rightarrow> bool" where
  "goes_out x m \<longleftrightarrow> \<not> isl (encodeMutation (jm_id m) (jm_kind m) (jm_bytes m)) \<and> \<not> w_send_throws x (mutation_frame m)"

lemma send_all_unsendable: "socket s = None \<Longrightarrow> send_all x ms s = s"
  by (induction ms) (simp_all add: sendMutation_def send_mutation_throws_def sendable_def)

lemma send_all_sent:
  assumes "sendable s" "socket s = Some k"
  shows "sent_frames (effects (send_all x ms s)) =
     sent_frames (effects s) @ map (\<lambda>m. (k, mutation_frame m)) (takeWhile (goes_out x) ms)"
  using assms
proof (induction ms arbitrary: s)
  case (Cons m ms)
  show ?case
  proof (cases "encodeMutation (jm_id m) (jm_kind m) (jm_bytes m)")
    case (Inl e)
    with Cons.prems show ?thesis by (simp add: send_mutation_throws_def goes_out_def)
  next
    case y: (Inr y)
    show ?thesis
    proof (cases "w_send_throws x (mutation_frame m)")
      case False
      note ok = sendMutation_ok [OF Cons.prems y False]
      have "sendable (sendMutation x m s)" "socket (sendMutation x m s) = Some k"
        using ok Cons.prems by (simp_all add: sendable_def)
      from Cons.IH [OF this] ok y False show ?thesis by (simp add: send_mutation_throws_def goes_out_def)
    next
      case True
      let ?d = "emit (Closed k) (onDisconnect x k None s)"
      have "y \<noteq> []" using y by (auto simp: encodeMutation_def MUTATION_MAGIC_def split: sum.splits if_splits)
      with y True Cons.prems have eq: "sendMutation x m s = armSocketDeadline k SOCKET_COMMIT_TIMEOUT_MS ?d"
        by (auto simp: sendMutation_def send_def sendable_def mutation_frame_def)
      have "socket ?d = None" using Cons.prems onDisconnect_socket by (auto simp: sendable_def emit_def)
      then have "socket (sendMutation x m s) = None" "sent_frames (effects (sendMutation x m s)) = sent_frames (effects s)"
        unfolding eq by (auto simp: armSocketDeadline_def clearSocketDeadline_def emit_def onDisconnect_sent Let_def)
      with y True show ?thesis by (simp add: send_mutation_throws_def send_all_unsendable goes_out_def)
    qed
  qed
qed simp


definition demo_open :: "nat session" where
  "demo_open = demo_session\<lparr>socket := Some 0, readyOpen := True, nextSocket := 1\<rparr>"

lemma demo_encodes: "\<exists>y. encodeMutation (jm_id (demo_mutation 49)) (jm_kind (demo_mutation 49)) (jm_bytes (demo_mutation 49)) = Inr y"
  by (simp add: encodeMutation_def demo_mutation_def hexToBytes_def list_all_iff is_hex_unit_def)


section \<open>Where the code falls short\<close>

text \<open>
  A synchronisation overtakes the journal. The edit below is pending while its append is still
  queued; the server's synchronisation message makes the session send it; then the append fails.
  The server has received an edit that the journal of the client never held.
\<close>

theorem sync_overtakes_journal:
  "let m = \<lparr>jm_id = randomMutationId (replicate 16 1), jm_kind = Update_Kind, jm_bytes = [5], jm_createdAt = 0\<rparr>;
       t = foldl session_step demo_open [(demo_world, E_Edit demo_edit), (demo_world, E_Socket_Message 0 [MSG_SYNCED]),
             (demo_world, E_Fail_Job False), (demo_world, E_Settle_Job)]
   in Sent 0 (mutation_frame m) \<in> set (effects t) \<and> storageFatal t \<and> journal_pending (docId t) (disk t) = []"
proof -
  let ?m = "\<lparr>jm_id = randomMutationId (replicate 16 1), jm_kind = Update_Kind, jm_bytes = [5], jm_createdAt = 0\<rparr>"
  let ?s = "local_edit demo_world demo_edit demo_open"
  have s: "?s = demo_open\<lparr>replica := Some 1, localSaved := False, pendingMutations := [(jm_id ?m, ?m)],
      lane := [Append (emptyRecord (demo_open\<lparr>pendingMutations := [(jm_id ?m, ?m)]\<rparr>)) ?m True]\<rparr>"
    by (simp add: local_edit_def demo_edit_def demo_open_def demo_session_def demo_world_def demo_options_def new_session_def
        can_edit_def capabilities_def role_capabilities_def persistAndSendMutation_def enqueue_def emptyRecord_def Let_def)
  obtain h where "hexToBytes (jm_id ?m) = Inr h" using randomMutationId_accepted [of "replicate 16 1"] by auto
  then have enc: "\<not> isl (encodeMutation (jm_id ?m) Update_Kind [5])" by (simp add: encodeMutation_def)
  then obtain y where y: "encodeMutation (jm_id ?m) (jm_kind ?m) (jm_bytes ?m) = Inr y"
    by (cases "encodeMutation (jm_id ?m) Update_Kind [5]") auto
  define v where "v = setStatus Saving (clearSocketDeadline (Some 0) (?s\<lparr>serverSynced := True\<rparr>))"
  have v: "sendable v" "socket v = Some 0" "lane v = lane ?s" "settled v = []" "disk v = (\<lambda>_. S_Undefined)" "\<not> storageFatal v"
    unfolding v_def s
    by (simp_all add: sendable_def setStatus_def resolveDurabilityWaiters_def isDurable_def emit_def clearSocketDeadline_def Let_def
        demo_open_def demo_session_def demo_options_def new_session_def)
  let ?t = "v\<lparr>effects := effects v @ [Sent 0 (mutation_frame ?m)], socketDeadline := Some (0, SOCKET_COMMIT_TIMEOUT_MS)\<rparr>"
  have "onMessage demo_world 0 [MSG_SYNCED] ?s = sendMutation demo_world ?m v"
    using enc v(1) unfolding v_def s
    by (simp add: onMessage_def synchronizeWithServer_def sendPendingMutations_def clearSocketDeadline_def message_tags send_mutation_throws_def
        demo_open_def demo_session_def demo_options_def new_session_def)
  also have "\<dots> = ?t" by (rule sendMutation_ok [OF v(1,2) y]) (simp add: demo_world_def)
  finally have m: "onMessage demo_world 0 [MSG_SYNCED] ?s = ?t" .
  define w where "w = recordStorageError Append_Failed (?t\<lparr>lane := [], disk := \<lambda>_. S_Undefined, settled := [], localSaved := False\<rparr>)"
  have "settle_job demo_world (fail_job demo_world False ?t) = w"
    unfolding w_def using v by (simp add: settle_job_def fail_job_def continue_job_def s)
  moreover have "Sent 0 (mutation_frame ?m) \<in> set (effects w)" "storageFatal w" "disk w = (\<lambda>_. S_Undefined)"
    using v recordStorageError_fields [of "?t\<lparr>lane := [], disk := \<lambda>_. S_Undefined, settled := [], localSaved := False\<rparr>" Append_Failed]
      recordStorageError_keeps_effects [of "?t\<lparr>lane := [], disk := \<lambda>_. S_Undefined, settled := [], localSaved := False\<rparr>" Append_Failed]
    by (auto simp: w_def)
  moreover have "journal_pending d (\<lambda>_. S_Undefined) = []" for d
    by (simp add: journal_pending_def readReplicaJournal_def normalizeRecord_def property_def as_string_def)
  ultimately show ?thesis by (simp add: session_step_def m)
qed

text \<open>A parked session has nothing that could bring its connection back.\<close>

definition parked :: "'d session \<Rightarrow> bool" where
  "parked s \<longleftrightarrow> socket s = None \<and> admissionAbort s = None \<and> reconnectTimer s = None \<and> \<not> loading s \<and> (doc s \<or> destroyed s)"

lemma parked_link: "link t = link s \<Longrightarrow> parked t = parked s"
  by (simp add: parked_def link_def)

lemmas parked_ops [simp] = link_soft [THEN parked_link] link_leaf [THEN parked_link] link_inner [THEN parked_link]
  link_outer [THEN parked_link] link_prune [THEN parked_link]

lemma parked_silent [simp]:
  assumes "parked s"
  shows "send x tag bs s = s" "sendMutation x m s = s" "send_mutation_throws m s = False" "onDisconnect x k code s = s"
    "close_socket s = s"
  using assms by (auto simp: parked_def send_def sendMutation_def send_mutation_throws_def sendable_def onDisconnect_def close_socket_def)

lemma parked_stop: "parked s \<Longrightarrow> parked (recordStorageError f s)" "parked s \<Longrightarrow> parked (enterTerminalRecovery c s)"
proof -
  assume p: "parked s"
  show "parked (recordStorageError f s)"
    using p by (simp add: recordStorageError_def) (auto simp: parked_def stop_defs setStatus_def resolveDurabilityWaiters_def Let_def)
  show "parked (enterTerminalRecovery c s)"
    using p by (simp add: enterTerminalRecovery_def) (auto simp: parked_def stop_defs setStatus_def resolveDurabilityWaiters_def Let_def)
qed

lemma parked_all: "parked s \<Longrightarrow> send_all x ms s = s"
  by (induction ms) simp_all

lemma parked_sync: "parked s \<Longrightarrow> parked (sendMissingSince x v s)" "parked s \<Longrightarrow> parked (synchronizeWithServer x s)"
  by (simp_all add: synchronizeWithServer_def sendMissingSince_def sendPendingMutations_def parked_all
      split: option.splits sum.splits engine_error.splits prod.splits)

lemma parked_presence: "parked s \<Longrightarrow> parked (with_presence x f s)"
proof -
  have "parked t \<Longrightarrow> send_presence x bss t = t" for bss t by (induction bss) simp_all
  then show "parked s \<Longrightarrow> ?thesis" by (simp add: with_presence_def Let_def)
qed

lemma parked_activity: "parked s \<Longrightarrow> parked (with_activity x e s)"
proof -
  have "parked (run_publish x ps t)" if "parked t" for ps t
    using that by (induction x ps t rule: run_publish.induct)
      (simp_all add: publishUser_def clearLocalPresence_def Let_def parked_presence)
  then show "parked s \<Longrightarrow> ?thesis" by (simp add: with_activity_def split: prod.splits)
qed

lemma parked_settle: "parked s \<Longrightarrow> parked (settle_job x s)"
proof -
  assume p: "parked s"
  have app: "parked (append_settled x m b t)" if "parked t" for m b t
    using that by (simp add: append_settled_def Let_def split: option.splits)
  have com: "parked (commit_acknowledged x r t)" if "parked t" for r t
    using that by (simp add: commit_acknowledged_def Let_def parked_sync split: option.splits)
  have arch: "parked (archived x t)" if "parked t" for t
    using that by (simp add: archived_def Let_def parked_stop split: option.splits sum.splits)
  have "parked (continue_job x j ok t)" if "parked t" for j ok t
    using that app com arch
    by (auto simp: continue_job_def parked_stop local_acknowledged_def checkpoint_settled_def checkpoint_failed_def
        split: job.splits checkpoint_purpose.splits)
  with p show ?thesis by (simp add: settle_job_def split: list.splits prod.splits)
qed

lemma parked_destroy: "parked s \<Longrightarrow> parked (session_destroy x s)"
proof -
  assume p: "parked s"
  define u where "u = clearSocketDeadline None (clearSocketErrorCloseDeadline None (clearAuthorityChangeGrace
      ((rejectDurabilityWaiters ((flushLocalSave x s)\<lparr>destroyed := True\<rparr>))\<lparr>admissionAbort := None\<rparr>)))"
  have "parked (flushLocalSave x s)" using p by simp
  then have "parked (u\<lparr>reconnectTimer := None, snapshotReplyTimer := False\<rparr>)" and d: "destroyed u"
    unfolding u_def by (simp_all add: parked_def clearAuthorityChangeGrace_def rejectDurabilityWaiters_def
        clearSocketDeadline_def clearSocketErrorCloseDeadline_def)
  then have v: "parked (with_activity x A_Disconnect (u\<lparr>reconnectTimer := None, snapshotReplyTimer := False\<rparr>))"
    by (intro parked_activity)
  have "destroyed (with_activity x A_Disconnect (u\<lparr>reconnectTimer := None, snapshotReplyTimer := False\<rparr>))"
    using with_activity_stopped [of "u\<lparr>reconnectTimer := None, snapshotReplyTimer := False\<rparr>" x A_Disconnect] d by (simp add: core_def)
  with v show ?thesis
    unfolding session_destroy_def Let_def u_def [symmetric] by (auto simp: parked_def close_socket_def)
qed

lemma parked_other:
  "parked s \<Longrightarrow> parked (importFromTab x bs k s)" "parked s \<Longrightarrow> parked (local_edit x f s)" "parked s \<Longrightarrow> onMessage x n bs s = s"
  "parked s \<Longrightarrow> parked (handleOffline s)" "parked s \<Longrightarrow> parked (handlePageHide x s)" "parked s \<Longrightarrow> parked (grace_timer_fires x s)"
proof -
  assume p: "parked s"
  show "parked (importFromTab x bs k s)"
    using p by (simp add: importFromTab_def Let_def parked_sync split: option.splits sum.splits prod.splits mutation_kind.splits)
  show "parked (local_edit x f s)"
    using p by (simp add: local_edit_def Let_def split: option.splits sum.splits prod.splits engine_error.splits)
  show "onMessage x n bs s = s" using p by (simp add: onMessage_def parked_def)
  have "s\<lparr>admissionAbort := None, reconnectTimer := None\<rparr> = s" using p by (cases s) (simp add: parked_def)
  with p show "parked (handleOffline s)"
    by (simp add: handleOffline_def Let_def split: option.splits) (auto simp: parked_def clearSocketErrorCloseDeadline_def)
  show "parked (handlePageHide x s)" using p by (simp add: handlePageHide_def parked_activity)
  have "parked (t\<lparr>graceTimer := g\<rparr>) = parked t" "parked ((clearAuthorityChangeGrace t)\<lparr>admissionAbort := None\<rparr>)" if "parked t" for t :: "'a session" and g
    using that by (auto simp: parked_def clearAuthorityChangeGrace_def)
  with p show "parked (grace_timer_fires x s)"
    by (simp add: grace_timer_fires_def expireAuthorityChangeGrace_def parked_stop)
qed

lemma parked_idle:
  assumes "parked s"
  shows "session_start x src seed s = s" "snapshot_loaded x r s = s" "admission_succeeds x c t s = s" "admission_fails x c b s = s"
    "socket_opens x k s = s" "onSocketError x k s = s" "error_close_timer_fires x s = s" "socket_deadline_fires x s = s"
    "reconnect_timer_fires x s = s"
  using assms by (auto simp: parked_def session_start_def snapshot_loaded_def admission_succeeds_def admission_fails_def
      socket_opens_def onSocketError_def error_close_timer_fires_def socket_deadline_fires_def reconnect_timer_fires_def
      split: option.splits)

lemma parked_step: "parked s \<Longrightarrow> snd ev \<noteq> E_Online \<Longrightarrow> parked (session_step s ev)"
  by (cases ev; cases "snd ev")
    (simp_all add: session_step_def parked_idle parked_other parked_activity parked_settle parked_destroy)

interpretation parking: event_machine parked "\<lambda>s ev. if snd ev = E_Online then s else session_step s ev" parked
  by unfold_locales (simp_all add: parked_step)

lemma parked_steps: "parked s \<Longrightarrow> E_Online \<notin> snd ` set evs \<Longrightarrow> parked (foldl session_step s evs)"
  by (induction evs arbitrary: s) (auto simp: parked_step)

text \<open>
  Hiding the page strands the session. If the page is hidden while it is connected and it later
  comes back (the browser kept it in its cache, or a \<open>beforeunload\<close> prompt was cancelled), nothing
  opens a socket again: without an \<open>online\<close> event of the browser the session has no socket, no
  admission and no scheduled reconnection after any further events, edits included.
\<close>

theorem pagehide_strands_session:
  assumes "doc s" and "\<not> loading s" and "admissionAbort s = None" and "reconnectTimer s = None"
    and "\<And>bs. \<not> w_send_throws x bs" and "E_Online \<notin> snd ` set evs"
    and "t = foldl session_step (handlePageHide x s) evs"
  shows "socket t = None \<and> admissionAbort t = None \<and> reconnectTimer t = None"
proof -
  have sl: "link (send x tag bs u) = link u" for tag bs u by (simp add: send_def assms(5) split: option.splits)
  have pl: "link (with_presence x f u) = link u" for f u
  proof -
    have "link (send_presence x bss u) = link u" for bss u by (induction bss arbitrary: u) (simp_all add: sl)
    then show ?thesis by (simp add: with_presence_def Let_def)
  qed
  have "link (run_publish x' ps u) = link u" if "x' = x" for x' ps u
    using that by (induction x' ps u rule: run_publish.induct) (simp_all add: publishUser_def clearLocalPresence_def Let_def pl)
  then have "link (with_activity x A_Pagehide (flushLocalSave x s)) = link s"
    by (simp add: with_activity_def split: prod.splits)
  note f = link_eqD [OF this]
  have "parked (handlePageHide x s)"
    by (simp add: handlePageHide_def parked_def close_socket_def emit_def clearSocketDeadline_def clearSocketErrorCloseDeadline_def
        f assms split: option.splits)
  then have "parked t" unfolding assms(7) by (rule parked_steps [OF _ assms(6)])
  then show ?thesis by (simp add: parked_def)
qed

theorem pagehide_strands_session_witness:
  "socket (foldl session_step (handlePageHide demo_world demo_open) [(demo_world, E_Edit demo_edit), (demo_world, E_Visibility)]) = None"
  using pagehide_strands_session [of demo_open demo_world "[(demo_world, E_Edit demo_edit), (demo_world, E_Visibility)]"]
  by (simp add: demo_open_def demo_session_def demo_options_def new_session_def demo_world_def)

end
