(* ===== verification/Persist_Lock.thy ===== *)
theory Persist_Lock
  imports Marks_Prelude
begin

text \<open>
  The persist lock of one document: \<open>client/src/browser/persist-lock.ts\<close> with the deadline of
  \<open>runWithTimeout\<close> in \<open>client/src/browser/network.ts\<close>. Every tab has a lane, its in-process queue;
  the head of a lane also asks for the browser's exclusive Web Lock, which all tabs share, when the
  browser has Web Locks. A call that misses its deadline is answered with the timeout and poisons
  the lane of its tab; its work cannot be cancelled and goes on until it settles by itself.

  A promise that is not answered yet is a call in a lane; the microtasks that follow a timer run in
  the same step as the timer.
\<close>

section \<open>State\<close>

datatype call_phase = Queued | Waiting | Working

record lock_call =
  call_id :: nat
  call_phase :: call_phase
  aborted :: bool

record lock_lane =
  calls :: "lock_call list"
  poisoned :: bool
  next_call :: nat

datatype settlement = Work_Resolved | Work_Rejected | PersistLockTimeoutError | PersistLockPoisonedError

record lock_world =
  lanes :: "nat \<Rightarrow> lock_lane"
  holder :: "nat option"
  settlements :: "(nat \<times> nat \<times> settlement) list"
  started :: "(nat \<times> nat) list"

definition no_calls :: lock_world where
  "no_calls = \<lparr>lanes = (\<lambda>_. \<lparr>calls = [], poisoned = False, next_call = 0\<rparr>), holder = None, settlements = [], started = []\<rparr>"

definition settle :: "nat \<Rightarrow> nat \<Rightarrow> settlement \<Rightarrow> lock_world \<Rightarrow> lock_world" where
  "settle t n r w = w\<lparr>settlements := settlements w @ [(t, n, r)]\<rparr>"

definition set_lane :: "nat \<Rightarrow> lock_lane \<Rightarrow> lock_world \<Rightarrow> lock_world" where
  "set_lane t l w = w\<lparr>lanes := (lanes w)(t := l)\<rparr>"

section \<open>Operations\<close>

text \<open>The call itself: refused on a poisoned lane, out of time at once without a budget, queued otherwise.\<close>

definition withPersistLock :: "nat \<Rightarrow> int \<Rightarrow> lock_world \<Rightarrow> lock_world" where
  "withPersistLock t timeoutMs w =
     (let l = lanes w t; n = next_call l; l = l\<lparr>next_call := n + 1\<rparr>
      in if poisoned l then settle t n PersistLockPoisonedError (set_lane t l w)
         else if timeoutMs \<le> 0 then settle t n PersistLockTimeoutError (set_lane t (l\<lparr>poisoned := True\<rparr>) w)
         else set_lane t (l\<lparr>calls := calls l @ [\<lparr>call_id = n, call_phase = Queued, aborted = False\<rparr>]\<rparr>) w)"

text \<open>The head of the lane settles; the caller has been answered before if the call timed out.\<close>

definition leave :: "nat \<Rightarrow> settlement \<Rightarrow> lock_world \<Rightarrow> lock_world" where
  "leave t r w =
     (case calls (lanes w t) of
        [] \<Rightarrow> w
      | c # cs \<Rightarrow>
          let w = set_lane t ((lanes w t)\<lparr>calls := cs\<rparr>) w
          in if aborted c then w else settle t (call_id c) r w)"

definition set_head :: "nat \<Rightarrow> call_phase \<Rightarrow> lock_world \<Rightarrow> lock_world" where
  "set_head t p w =
     (case calls (lanes w t) of
        [] \<Rightarrow> w
      | c # cs \<Rightarrow> set_lane t ((lanes w t)\<lparr>calls := c\<lparr>call_phase := p\<rparr> # cs\<rparr>) w)"

definition begin_work :: "nat \<Rightarrow> nat \<Rightarrow> lock_world \<Rightarrow> lock_world" where
  "begin_work t n w = (set_head t Working w)\<lparr>started := started w @ [(t, n)]\<rparr>"

definition withProcessLock :: "bool \<Rightarrow> nat \<Rightarrow> lock_world \<Rightarrow> lock_world" where
  "withProcessLock hasWebLocks t w =
     (case calls (lanes w t) of
        [] \<Rightarrow> w
      | c # cs \<Rightarrow>
          if call_phase c \<noteq> Queued then w
          else if poisoned (lanes w t) then leave t PersistLockPoisonedError w
          else if aborted c then leave t PersistLockTimeoutError w
          else if \<not> hasWebLocks then begin_work t (call_id c) w
          else set_head t Waiting w)"

definition lock_granted :: "nat \<Rightarrow> lock_world \<Rightarrow> lock_world" where
  "lock_granted t w =
     (case calls (lanes w t) of
        [] \<Rightarrow> w
      | c # cs \<Rightarrow>
          if call_phase c \<noteq> Waiting \<or> holder w \<noteq> None then w
          else if poisoned (lanes w t) then leave t PersistLockPoisonedError w
          else if aborted c then leave t PersistLockTimeoutError w
          else begin_work t (call_id c) (w\<lparr>holder := Some t\<rparr>))"

text \<open>The browser rejects a pending lock request whose signal is aborted.\<close>

definition request_aborted :: "nat \<Rightarrow> lock_world \<Rightarrow> lock_world" where
  "request_aborted t w =
     (case calls (lanes w t) of
        c # cs \<Rightarrow> if call_phase c = Waiting \<and> aborted c then leave t PersistLockTimeoutError w else w
      | [] \<Rightarrow> w)"

definition work_settles :: "nat \<Rightarrow> bool \<Rightarrow> lock_world \<Rightarrow> lock_world" where
  "work_settles t ok w =
     (case calls (lanes w t) of
        c # cs \<Rightarrow>
          if call_phase c = Working
          then leave t (if ok then Work_Resolved else Work_Rejected)
                 (if holder w = Some t then w\<lparr>holder := None\<rparr> else w)
          else w
      | [] \<Rightarrow> w)"

definition abort_call :: "nat \<Rightarrow> lock_call \<Rightarrow> lock_call" where
  "abort_call n c = (if call_id c = n then c\<lparr>aborted := True\<rparr> else c)"

definition timer_fires :: "nat \<Rightarrow> nat \<Rightarrow> lock_world \<Rightarrow> lock_world" where
  "timer_fires t n w =
     (let l = lanes w t
      in if list_ex (\<lambda>c. call_id c = n \<and> \<not> aborted c) (calls l)
         then settle t n PersistLockTimeoutError
                (set_lane t (l\<lparr>calls := map (abort_call n) (calls l), poisoned := True\<rparr>) w)
         else w)"

datatype lock_event = Call nat int | Head nat | Granted nat | Request_Aborted nat | Work nat bool | Timer nat nat

definition lock_step :: "bool \<Rightarrow> lock_world \<Rightarrow> lock_event \<Rightarrow> lock_world" where
  "lock_step hasWebLocks w e =
     (case e of
        Call t ms \<Rightarrow> withPersistLock t ms w
      | Head t \<Rightarrow> withProcessLock hasWebLocks t w
      | Granted t \<Rightarrow> lock_granted t w
      | Request_Aborted t \<Rightarrow> request_aborted t w
      | Work t ok \<Rightarrow> work_settles t ok w
      | Timer t n \<Rightarrow> timer_fires t n w)"

lemmas lock_defs = withPersistLock_def withProcessLock_def lock_granted_def request_aborted_def work_settles_def
  timer_fires_def leave_def set_head_def begin_work_def set_lane_def settle_def

section \<open>One writer at a time\<close>

definition working :: "lock_world \<Rightarrow> nat \<Rightarrow> nat \<Rightarrow> bool" where
  "working w t n \<longleftrightarrow> (\<exists>c \<in> set (calls (lanes w t)). call_phase c = Working \<and> call_id c = n)"

text \<open>Only the head of a lane has left the queue; with Web Locks it works exactly while its tab holds the lock.\<close>

definition lane_ok :: "bool \<Rightarrow> bool \<Rightarrow> lock_lane \<Rightarrow> bool" where
  "lane_ok web held l \<longleftrightarrow> list_all (\<lambda>c. call_phase c = Queued) (tl (calls l))
     \<and> (web \<longrightarrow> (held \<longleftrightarrow> (\<exists>c cs. calls l = c # cs \<and> call_phase c = Working)))
     \<and> (\<not> web \<longrightarrow> \<not> held \<and> list_all (\<lambda>c. call_phase c \<noteq> Waiting) (calls l))"

definition lock_inv :: "bool \<Rightarrow> lock_world \<Rightarrow> bool" where
  "lock_inv web w \<longleftrightarrow> (\<forall>t. lane_ok web (holder w = Some t) (lanes w t))"

lemma lane_ok_Queued: "lane_ok web held l \<Longrightarrow> calls l = c # cs \<Longrightarrow> list_all (\<lambda>c. call_phase c = Queued) cs"
  by (simp add: lane_ok_def)

lemma queued_idle: "list_all (\<lambda>c. call_phase c = Queued) cs \<Longrightarrow> lane_ok web False (l\<lparr>calls := cs\<rparr>)"
  by (cases cs) (auto simp: lane_ok_def list_all_iff)

text \<open>Every operation touches the lane of one tab, and the lock only on its behalf.\<close>

lemma lock_inv_lane:
  assumes "lock_inv web w" "lanes v = (lanes w)(t := l)" "lane_ok web (holder v = Some t) l"
    and "\<And>u. u \<noteq> t \<Longrightarrow> (holder v = Some u) = (holder w = Some u)"
  shows "lock_inv web v"
  using assms by (auto simp: lock_inv_def)

lemma lane_ok_more [simp]: "lane_ok web held (l\<lparr>poisoned := b\<rparr>) = lane_ok web held l" "lane_ok web held (l\<lparr>next_call := n\<rparr>) = lane_ok web held l"
  by (simp_all add: lane_ok_def)

lemma lane_ok_enqueue: "lane_ok web held l \<Longrightarrow> call_phase c = Queued \<Longrightarrow> lane_ok web held (l\<lparr>calls := calls l @ [c]\<rparr>)"
  by (cases "calls l") (auto simp: lane_ok_def)

lemma lane_ok_abort: "lane_ok web held l \<Longrightarrow> lane_ok web held (l\<lparr>calls := map (abort_call n) (calls l)\<rparr>)"
  by (cases "calls l") (auto simp: lane_ok_def abort_call_def list_all_iff)

lemma leave_inv:
  assumes "lock_inv web w" "calls (lanes w t) = c # cs" "call_phase c \<noteq> Working \<or> \<not> web"
  shows "lock_inv web (leave t r w)"
proof (rule lock_inv_lane [OF assms(1)])
  have l: "lane_ok web (holder w = Some t) (lanes w t)" using assms(1) by (simp add: lock_inv_def)
  then have "\<not> (holder w = Some t)" using assms(2,3) by (auto simp: lane_ok_def)
  then show "lane_ok web (holder (leave t r w) = Some t) ((lanes w t)\<lparr>calls := cs\<rparr>)"
    using lane_ok_Queued [OF l assms(2)] queued_idle [of cs web "lanes w t"] by (simp add: leave_def assms(2) set_lane_def settle_def Let_def)
qed (simp_all add: leave_def assms(2) set_lane_def settle_def Let_def)

lemma call_inv: "lock_inv web w \<Longrightarrow> lock_inv web (withPersistLock t ms w)"
proof -
  assume i: "lock_inv web w"
  have l: "lane_ok web (holder w = Some t) (lanes w t)" using i by (simp add: lock_inv_def)
  then show ?thesis using i lane_ok_enqueue [OF l, of "\<lparr>call_id = next_call (lanes w t), call_phase = Queued, aborted = False\<rparr>"]
    by (auto simp: withPersistLock_def settle_def set_lane_def lock_inv_def Let_def lane_ok_def)
qed

lemma set_head_inv:
  assumes "lock_inv web w" "calls (lanes w t) = c # cs" "holder v = holder w \<or> holder v = Some t \<and> holder w = None"
    and "lanes v = (lanes w)(t := (lanes w t)\<lparr>calls := c\<lparr>call_phase := p\<rparr> # cs\<rparr>)"
    and "web \<Longrightarrow> (holder v = Some t) = (p = Working)" and "\<not> web \<Longrightarrow> p \<noteq> Waiting \<and> holder v = holder w"
  shows "lock_inv web v"
proof (rule lock_inv_lane [OF assms(1,4)])
  have "lane_ok web (holder w = Some t) (lanes w t)" using assms(1) by (simp add: lock_inv_def)
  with assms show "lane_ok web (holder v = Some t) ((lanes w t)\<lparr>calls := c\<lparr>call_phase := p\<rparr> # cs\<rparr>)"
    by (auto simp: lane_ok_def list_all_iff)
qed (use assms(3) in auto)

lemma head_inv: "lock_inv web w \<Longrightarrow> lock_inv web (withProcessLock web t w)"
proof (cases "calls (lanes w t)")
  case (Cons c cs)
  assume i: "lock_inv web w"
  have l: "lane_ok web (holder w = Some t) (lanes w t)" using i by (simp add: lock_inv_def)
  have "lock_inv web (begin_work t (call_id c) w)" if "\<not> web"
    using that l Cons by (intro set_head_inv [OF i Cons, of _ Working])
      (auto simp: begin_work_def set_head_def set_lane_def lane_ok_def)
  moreover have "lock_inv web (set_head t Waiting w)" if web "call_phase c = Queued"
    using that l Cons by (intro set_head_inv [OF i Cons, of _ Waiting]) (auto simp: set_head_def set_lane_def lane_ok_def)
  ultimately show ?thesis using i Cons by (auto simp: withProcessLock_def intro: leave_inv)
qed (simp add: withProcessLock_def)

lemma granted_inv: "lock_inv web w \<Longrightarrow> lock_inv web (lock_granted t w)"
proof (cases "calls (lanes w t)")
  case (Cons c cs)
  assume i: "lock_inv web w"
  have l: "lane_ok web (holder w = Some t) (lanes w t)" using i by (simp add: lock_inv_def)
  have "lock_inv web (begin_work t (call_id c) (w\<lparr>holder := Some t\<rparr>))" if "call_phase c = Waiting" "holder w = None"
    using that l Cons by (intro set_head_inv [OF i Cons, of _ Working])
      (auto simp: begin_work_def set_head_def set_lane_def lane_ok_def)
  then show ?thesis using i Cons by (auto simp: lock_granted_def intro: leave_inv)
qed (simp add: lock_granted_def)

lemma work_inv: "lock_inv web w \<Longrightarrow> lock_inv web (work_settles t ok w)"
proof (cases "calls (lanes w t)")
  case (Cons c cs)
  assume i: "lock_inv web w"
  have l: "lane_ok web (holder w = Some t) (lanes w t)" using i by (simp add: lock_inv_def)
  have "lock_inv web (leave t r (if holder w = Some t then w\<lparr>holder := None\<rparr> else w))" if "call_phase c = Working" for r
    using queued_idle [OF lane_ok_Queued [OF l Cons], of web "lanes w t"] l Cons that
    by (intro lock_inv_lane [OF i, of _ t "(lanes w t)\<lparr>calls := cs\<rparr>"]) (auto simp: leave_def set_lane_def settle_def lane_ok_def Let_def)
  then show ?thesis using i Cons by (simp add: work_settles_def)
qed (simp add: work_settles_def)

lemma timer_inv: "lock_inv web w \<Longrightarrow> lock_inv web (timer_fires t n w)"
proof -
  assume i: "lock_inv web w"
  have l: "lane_ok web (holder w = Some t) (lanes w t)" using i by (simp add: lock_inv_def)
  then show ?thesis using i lane_ok_abort [OF l, of n]
    by (auto simp: timer_fires_def settle_def set_lane_def lock_inv_def Let_def lane_ok_def)
qed

lemma lock_step_inv: "lock_inv web w \<Longrightarrow> lock_inv web (lock_step web w e)"
  by (cases e) (auto simp: lock_step_def call_inv head_inv granted_inv work_inv timer_inv request_aborted_def
      intro: leave_inv split: list.splits)

lemma no_calls_inv: "lock_inv web no_calls"
  by (simp add: no_calls_def lock_inv_def lane_ok_def)

interpretation lock: event_machine "\<lambda>w. w = no_calls" "lock_step web" "lock_inv web"
  by unfold_locales (simp_all add: no_calls_inv lock_step_inv)

section \<open>Answers\<close>

definition answered :: "nat \<Rightarrow> lock_world \<Rightarrow> nat list" where
  "answered t w = map (fst \<circ> snd) (filter (\<lambda>(u, _). u = t) (settlements w))"

definition begun :: "nat \<Rightarrow> lock_world \<Rightarrow> nat list" where
  "begun t w = map snd (filter (\<lambda>(u, _). u = t) (started w))"

definition unanswered :: "lock_call list \<Rightarrow> nat set" where
  "unanswered cs = set (map call_id (filter (\<lambda>c. \<not> aborted c) cs))"

text \<open>
  Numbers are given out in the order of the calls. The works begun, followed by the calls that
  still have to begin, are in that order; the answers given are those of all calls but the
  unanswered ones.
\<close>

definition accounted :: "nat \<Rightarrow> lock_world \<Rightarrow> bool" where
  "accounted t w \<longleftrightarrow> sorted_wrt (<) (map call_id (calls (lanes w t)) @ [next_call (lanes w t)])
     \<and> sorted_wrt (<) (begun t w @ map call_id (filter (\<lambda>c. call_phase c \<noteq> Working) (calls (lanes w t))) @ [next_call (lanes w t)])
     \<and> distinct (answered t w) \<and> set (answered t w) = {..<next_call (lanes w t)} - unanswered (calls (lanes w t))"

lemma log_simps [simp]:
  "answered u (settle t n r w) = answered u w @ (if u = t then [n] else [])" "answered u (set_lane t l w) = answered u w"
  "begun u (settle t n r w) = begun u w" "begun u (set_lane t l w) = begun u w"
  "lanes (settle t n r w) = lanes w" "lanes (set_lane t l w) = (lanes w)(t := l)"
  by (simp_all add: answered_def begun_def settle_def set_lane_def)

lemma leave_accounted:
  assumes "accounted u w" "calls (lanes w t) = c # cs" shows "accounted u (leave t r w)"
  using assms by (cases "u = t") (auto simp: accounted_def leave_def Let_def unanswered_def sorted_wrt_append split: if_splits)

lemma set_head_accounted:
  assumes "accounted u w" "calls (lanes w t) = c # cs" "call_phase c \<noteq> Working"
  shows "p \<noteq> Working \<Longrightarrow> accounted u (set_head t p w)" "accounted u (begin_work t (call_id c) w)"
proof -
  have un: "unanswered (c\<lparr>call_phase := q\<rparr> # cs) = unanswered (c # cs)" for q by (simp add: unanswered_def)
  show "accounted u (set_head t p w)" if "p \<noteq> Working"
    using assms that by (cases "u = t") (simp_all add: accounted_def set_head_def un)
  have "answered u (begin_work t (call_id c) w) = answered u w"
       "begun u (begin_work t (call_id c) w) = begun u w @ (if u = t then [call_id c] else [])"
    using assms(2) by (simp_all add: begin_work_def set_head_def answered_def begun_def set_lane_def)
  then show "accounted u (begin_work t (call_id c) w)"
    using assms by (cases "u = t") (simp_all add: accounted_def begin_work_def set_head_def un)
qed

lemma unanswered_bound: "accounted t w \<Longrightarrow> unanswered (calls (lanes w t)) \<subseteq> {..<next_call (lanes w t)}"
  by (auto simp: accounted_def unanswered_def sorted_wrt_append)

lemma call_accounted: "accounted u w \<Longrightarrow> accounted u (withPersistLock t ms w)"
proof (cases "u = t")
  case True
  assume a: "accounted u w"
  have "unanswered (cs @ [\<lparr>call_id = n, call_phase = q, aborted = False\<rparr>]) = insert n (unanswered cs)" for cs n q
    by (simp add: unanswered_def)
  then show ?thesis using a True unanswered_bound [of t w]
    by (auto simp: accounted_def withPersistLock_def Let_def sorted_wrt_append lessThan_Suc intro: less_SucI)
qed (simp add: accounted_def withPersistLock_def Let_def)

lemma abort_ids: "map call_id (map (abort_call n) cs) = map call_id cs"
    "map call_id (filter (\<lambda>c. call_phase c \<noteq> Working) (map (abort_call n) cs)) = map call_id (filter (\<lambda>c. call_phase c \<noteq> Working) cs)"
    "unanswered (map (abort_call n) cs) = unanswered cs - {n}"
  by (induction cs) (auto simp: abort_call_def unanswered_def)

lemma timer_accounted: "accounted u w \<Longrightarrow> accounted u (timer_fires t n w)"
proof (cases "u = t \<and> n \<in> unanswered (calls (lanes w t))")
  case True
  assume a: "accounted u w"
  then have "n < next_call (lanes w t)" using True unanswered_bound [of t w] by auto
  moreover have "list_ex (\<lambda>c. call_id c = n \<and> \<not> aborted c) (calls (lanes w t))" using True by (auto simp: unanswered_def list_ex_iff)
  ultimately show ?thesis using a True
    by (auto simp: accounted_def timer_fires_def Let_def abort_ids simp del: map_map)
qed (auto simp: accounted_def timer_fires_def Let_def list_ex_iff unanswered_def)

lemma lock_step_accounted: "accounted u w \<Longrightarrow> accounted u (lock_step web w e)"
proof -
  assume a: "accounted u w"
  have h: "accounted u (v\<lparr>holder := x\<rparr>) = accounted u v" for v x by (simp add: accounted_def begun_def answered_def)
  show ?thesis
    using a by (cases e) (auto simp: lock_step_def call_accounted timer_accounted withProcessLock_def lock_granted_def request_aborted_def
        work_settles_def h intro!: leave_accounted set_head_accounted split: list.splits)
qed

lemma no_calls_accounted: "accounted t no_calls"
  by (simp add: accounted_def no_calls_def answered_def begun_def unanswered_def)

interpretation accounts: event_machine "\<lambda>w. w = no_calls" "lock_step web" "accounted t"
  by unfold_locales (simp_all add: lock_step_accounted no_calls_accounted)

text \<open>What happens to a lane after it was poisoned.\<close>

definition silent_since :: "nat \<Rightarrow> lock_world \<Rightarrow> lock_world \<Rightarrow> bool" where
  "silent_since t w v \<longleftrightarrow> poisoned (lanes v t) \<and> begun t v = begun t w
     \<and> (\<forall>n \<in> {next_call (lanes w t)..<next_call (lanes v t)}. (t, n, PersistLockPoisonedError) \<in> set (settlements v))"

lemma silent_frame:
  assumes "silent_since t w v" "poisoned (lanes v' t) = poisoned (lanes v t)" "begun t v' = begun t v"
    "next_call (lanes v' t) = next_call (lanes v t)" "set (settlements v) \<subseteq> set (settlements v')"
  shows "silent_since t w v'"
  using assms by (auto simp: silent_since_def)

lemma silent_leave: "silent_since t w v \<Longrightarrow> silent_since t w (leave u r v)"
  by (erule silent_frame) (auto simp: leave_def Let_def settle_def set_lane_def begun_def split: list.splits)

lemma silent_begin: "silent_since t w v \<Longrightarrow> u \<noteq> t \<Longrightarrow> silent_since t w (begin_work u n v)"
  by (erule silent_frame) (auto simp: begin_work_def set_head_def set_lane_def begun_def split: list.splits)

lemma silent_head: "silent_since t w v \<Longrightarrow> silent_since t w (set_head u p v)"
  by (erule silent_frame) (auto simp: set_head_def set_lane_def begun_def split: list.splits)

lemma silent_holder: "silent_since t w v \<Longrightarrow> silent_since t w (v\<lparr>holder := h\<rparr>)"
  by (erule silent_frame) (auto simp: begun_def)

lemma silent_call: "silent_since t w v \<Longrightarrow> silent_since t w (withPersistLock u ms v)"
proof (cases "u = t")
  case True
  assume "silent_since t w v"
  with True show ?thesis
    by (auto simp: silent_since_def withPersistLock_def Let_def settle_def set_lane_def begun_def less_Suc_eq)
qed (erule silent_frame, auto simp: withPersistLock_def Let_def settle_def set_lane_def begun_def)

lemma silent_timer: "silent_since t w v \<Longrightarrow> silent_since t w (timer_fires u n v)"
  by (auto simp: silent_since_def timer_fires_def Let_def settle_def set_lane_def begun_def)

lemma silent_step: "silent_since t w v \<Longrightarrow> silent_since t w (lock_step web v e)"
proof -
  assume a: "silent_since t w v"
  then have p: "poisoned (lanes v t)" by (simp add: silent_since_def)
  have g: "silent_since t w (begin_work u n v')" if "silent_since t w v'" "\<not> poisoned (lanes v u)" for u n v'
    using that p by (cases "u = t") (auto intro: silent_begin)
  show ?thesis
    using a by (cases e) (auto simp: lock_step_def withProcessLock_def lock_granted_def request_aborted_def work_settles_def
        intro!: silent_leave silent_head silent_holder silent_call silent_timer g split: list.splits)
qed

lemma silent_refl: "poisoned (lanes w t) \<Longrightarrow> silent_since t w w"
  by (simp add: silent_since_def)

interpretation silence: event_machine "\<lambda>v. v = w \<and> poisoned (lanes w t)" "lock_step web" "silent_since t w"
  by unfold_locales (auto simp: silent_refl silent_step)

section \<open>Properties\<close>

text \<open>
  C20. One writer at a time. Whatever calls, grants, deadlines and results are delivered in whatever
  order: no two works of one tab run at the same time, and in browsers with Web Locks no two works
  of any tabs do, not even works whose callers have given up on them.
\<close>

theorem persist_lock_exclusive:
  assumes "working (foldl (lock_step hasWebLocks) no_calls evs) t m" and "working (foldl (lock_step hasWebLocks) no_calls evs) u n"
    and "hasWebLocks \<or> t = u"
  shows "t = u \<and> m = n"
proof -
  let ?w = "foldl (lock_step hasWebLocks) no_calls evs"
  have l: "lane_ok hasWebLocks (holder ?w = Some v) (lanes ?w v)" for v
    using lock.reachable_inv [OF refl, of hasWebLocks evs] by (simp add: lock_inv_def)
  have h: "\<exists>c cs. calls (lanes ?w v) = c # cs \<and> call_phase c = Working \<and> call_id c = k" if "working ?w v k" for v k
    using that l [of v] by (cases "calls (lanes ?w v)") (auto simp: working_def lane_ok_def list_all_iff)
  have "t = u" using h [OF assms(1)] h [OF assms(2)] l [of t] l [of u] assms(3) by (auto simp: lane_ok_def)
  with h [OF assms(1)] h [OF assms(2)] show ?thesis by auto
qed

theorem persist_lock_exclusive_witness:
  "working (foldl (lock_step True) no_calls [Call 0 5000, Call 1 5000, Head 0, Head 1, Granted 0, Granted 1, Timer 0 0]) 0 0
   \<and> \<not> working (foldl (lock_step True) no_calls [Call 0 5000, Call 1 5000, Head 0, Head 1, Granted 0, Granted 1, Timer 0 0]) 1 0"
proof -
  let ?w = "foldl (lock_step True) no_calls [Call 0 5000, Call 1 5000, Head 0, Head 1, Granted 0, Granted 1, Timer 0 0]"
  have a: "working ?w 0 0" by (simp add: working_def lock_step_def lock_defs abort_call_def no_calls_def Let_def)
  with persist_lock_exclusive [OF a, of 1 0] show ?thesis by auto
qed

text \<open>
  C31. Every call is answered once and in order. In every reachable state the works of a tab have
  begun in the order of the calls, no call has two answers, and the deadline of any call answers
  it if nothing has before: after \<open>timer_fires\<close> the call is among the answered ones.
\<close>

theorem persist_lock_answers_once:
  "let w = foldl (lock_step hasWebLocks) no_calls evs
   in sorted_wrt (<) (begun t w) \<and> distinct (answered t w)
      \<and> set (answered t (timer_fires t n w)) = set (answered t w) \<union> ({n} \<inter> {..<next_call (lanes w t)})"
proof -
  let ?w = "foldl (lock_step hasWebLocks) no_calls evs"
  have a: "accounted t ?w" by (rule accounts.reachable_inv [OF refl])
  then have b: "accounted t (timer_fires t n ?w)" by (rule timer_accounted)
  have "unanswered (calls (lanes (timer_fires t n ?w) t)) = unanswered (calls (lanes ?w t)) - {n}"
    "next_call (lanes (timer_fires t n ?w) t) = next_call (lanes ?w t)"
    by (auto simp: timer_fires_def Let_def abort_ids) (auto simp: unanswered_def list_ex_iff)
  with a b show ?thesis unfolding Let_def by (auto simp: accounted_def sorted_wrt_append)
qed

text \<open>
  A poisoned lane stays silent. Once a call of a tab has missed its deadline, no work of that
  tab begins any more, whatever happens, and every later call is refused with the poisoned error.
\<close>

theorem persist_lock_poison_final:
  assumes "poisoned (lanes w t)"
  shows "begun t (foldl (lock_step hasWebLocks) w evs) = begun t w
    \<and> (\<forall>n \<in> {next_call (lanes w t)..<next_call (lanes (foldl (lock_step hasWebLocks) w evs) t)}.
         (t, n, PersistLockPoisonedError) \<in> set (settlements (foldl (lock_step hasWebLocks) w evs)))"
  using silence.reachable_inv [of "w" w t hasWebLocks evs] assms by (simp add: silent_since_def)

theorem persist_lock_poison_final_witness:
  "begun 0 (foldl (lock_step True) (withPersistLock 0 0 no_calls) [Call 0 5000, Head 0, Granted 0]) = []
   \<and> (0, 1, PersistLockPoisonedError) \<in> set (settlements (foldl (lock_step True) (withPersistLock 0 0 no_calls) [Call 0 5000, Head 0, Granted 0]))"
proof -
  let ?w = "withPersistLock 0 0 no_calls"
  have "poisoned (lanes ?w 0)" "next_call (lanes ?w 0) = 1" "begun 0 ?w = []"
    "next_call (lanes (foldl (lock_step True) ?w [Call 0 5000, Head 0, Granted 0]) 0) = 2"
    by (simp_all add: lock_defs no_calls_def begun_def lock_step_def Let_def)
  with persist_lock_poison_final [of ?w 0 True "[Call 0 5000, Head 0, Granted 0]"] show ?thesis by auto
qed

end
