(* ===== verification/Wasm_Sites.thy ===== *)
theory Wasm_Sites
  imports Replica_Journal
begin

text \<open>
  Site identifiers: the room's 32-bit decimal site, the 128-bit hexadecimal site of the engine, and
  the pair of 64-bit words the Wasm component takes (\<open>client/src/collab/wasm/index.ts\<close> and
  \<open>client/src/collab/wasm/esbt-document.ts\<close>). \<open>BigInt\<close> of a string is written out.
\<close>

datatype site_error = Not_Decimal | Marks_Range | Engine_Range | Not_Hex | Bad_Site_Form | Site_Range | Not_Integer

datatype marks_site = Site_Text js_text | Site_Number "int option"

definition MARKS_SITE_MAX :: nat where "MARKS_SITE_MAX = 0xffffffff"

definition is_decimal_unit :: "16 word \<Rightarrow> bool" where
  "is_decimal_unit c \<longleftrightarrow> 48 \<le> c \<and> c \<le> 57"

text \<open>\<open>/^[1-9][0-9]*$/\<close>\<close>

definition parseMarksSite :: "js_text \<Rightarrow> site_error + nat" where
  "parseMarksSite site =
     (case site of
        [] \<Rightarrow> Inl Not_Decimal
      | c # cs \<Rightarrow> if is_decimal_unit c \<and> c \<noteq> 48 \<and> list_all is_decimal_unit cs then Inr (radix_value 10 site) else Inl Not_Decimal)"

text \<open>A number that is no integer makes \<open>BigInt\<close> throw; it is \<open>Site_Number None\<close>.\<close>

definition marksSiteToEngine :: "marks_site \<Rightarrow> site_error + js_text" where
  "marksSiteToEngine site =
     (case (case site of
              Site_Text s \<Rightarrow> (case parseMarksSite s of Inl e \<Rightarrow> Inl e | Inr n \<Rightarrow> Inr (int n))
            | Site_Number None \<Rightarrow> Inl Not_Integer
            | Site_Number (Some n) \<Rightarrow> Inr n) of
        Inl e \<Rightarrow> Inl e
      | Inr v \<Rightarrow> if v \<le> 0 \<or> v > int MARKS_SITE_MAX then Inl Marks_Range
                else Inr (padStart 32 48 (to_radix 16 (nat v))))"

definition to_lower :: "16 word \<Rightarrow> 16 word" where
  "to_lower c = (if 65 \<le> c \<and> c \<le> 90 then c + 32 else c)"

text \<open>\<open>BigInt("0x" + hex)\<close>: digits of either case, white space after them is ignored.\<close>

definition hex_bigint :: "js_text \<Rightarrow> nat option" where
  "hex_bigint hex =
     (let ds = map to_lower (rev (dropWhile js_whitespace (rev hex)))
      in if ds = [] \<or> \<not> list_all is_hex_unit ds then None else Some (radix_value 16 ds))"

definition engineSiteToMarks :: "js_text \<Rightarrow> site_error + js_text" where
  "engineSiteToMarks hex =
     (case hex_bigint hex of
        None \<Rightarrow> Inl Not_Hex
      | Some v \<Rightarrow> if v = 0 \<or> v > MARKS_SITE_MAX then Inl Engine_Range else Inr (to_radix 10 v))"

section \<open>The component's site\<close>

record site_id =
  site_low :: "64 word"
  site_high :: "64 word"

datatype site_input = Random_Site bytes | Hex_Site js_text | Byte_Site bytes | Other_Site

text \<open>
  \<open>normalizeSiteId\<close>. Of the letters only ASCII ones lower to hexadecimal digits, so lowering is
  \<open>to_lower\<close> as far as the test that follows can tell.
\<close>

definition site_of_value :: "nat \<Rightarrow> site_error + site_id" where
  "site_of_value v =
     (if v = 0 \<or> v > 2 ^ 128 - 1 then Inl Site_Range
      else Inr \<lparr>site_low = of_nat v, site_high = of_nat (v div 2 ^ 64)\<rparr>)"

definition normalizeSiteId :: "site_input \<Rightarrow> site_error + site_id" where
  "normalizeSiteId siteId =
     (case siteId of
        Random_Site bs \<Rightarrow> site_of_value (radix_value 16 (bytesToHex (if list_all (\<lambda>b. b = 0) bs then bs[15 := 1] else bs)))
      | Hex_Site s \<Rightarrow>
          let hex = map to_lower (filter (\<lambda>c. c \<noteq> 45) s)
          in if length hex = 32 \<and> list_all is_hex_unit hex then site_of_value (radix_value 16 hex) else Inl Bad_Site_Form
      | Byte_Site bs \<Rightarrow> if length bs = 16 then site_of_value (radix_value 16 (bytesToHex bs)) else Inl Bad_Site_Form
      | Other_Site \<Rightarrow> Inl Bad_Site_Form)"

definition siteToHex :: "site_id \<Rightarrow> js_text" where
  "siteToHex site = padStart 32 48 (to_radix 16 (unat (site_high site) * 2 ^ 64 + unat (site_low site)))"

section \<open>Lemmas on digits\<close>

lemma radix_value_snoc: "radix_value r (s @ [c]) = radix_value r s * r + digit_value c"
  by (simp add: radix_value_def)

lemma decimal_digit: "is_decimal_unit c \<Longrightarrow> digit_value c < 10 \<and> digit_unit (digit_value c) = c"
proof -
  assume d: "is_decimal_unit c"
  then have "is_hex_unit c" "48 \<le> unat c" "unat c \<le> 57" by (simp_all add: is_decimal_unit_def is_hex_unit_def word_le_nat_alt)
  then show ?thesis using digit_unit_value [of c] by (simp add: digit_value_def)
qed

lemma digit_unit_0: "digit_unit 0 = 48"
  by (simp add: digit_unit_def)

lemma to_radix_decimal:
  "list_all is_decimal_unit s \<Longrightarrow> s \<noteq> [] \<Longrightarrow> hd s \<noteq> 48 \<Longrightarrow> to_radix 10 (radix_value 10 s) = s \<and> 0 < radix_value 10 s"
proof (induction s rule: rev_induct)
  case (snoc c s)
  note d = decimal_digit [of c]
  show ?case
  proof (cases "s = []")
    case True
    have "digit_value c \<noteq> 0" using snoc.prems d True digit_unit_0 by (metis append_Nil list.sel(1) list_all_append list.pred_inject(2))
    with True d snoc.prems show ?thesis by (simp add: radix_value_def to_radix.simps [of 10 "digit_value c"])
  next
    case False
    with snoc have "to_radix 10 (radix_value 10 s) = s" "0 < radix_value 10 s" by auto
    with d snoc.prems show ?thesis by (simp add: radix_value_snoc to_radix.simps [of 10 "radix_value 10 s * 10 + digit_value c"])
  qed
qed simp

lemma radix_10_first: "0 < n \<Longrightarrow> to_radix 10 n \<noteq> [] \<and> hd (to_radix 10 n) \<noteq> 48 \<and> list_all is_decimal_unit (to_radix 10 n)"
proof (induction n rule: less_induct)
  case (less n)
  have u: "is_decimal_unit (digit_unit d)" if "d < 10" for d
    using that by (simp add: is_decimal_unit_def word_le_nat_alt unat_digit_unit)
  have z: "digit_unit d \<noteq> 48" if "0 < d" "d < 10" for d
    using that digit_value_unit [of d] digit_value_unit [of 0] digit_unit_0 by force
  show ?case
  proof (cases "n < 10")
    case True
    with less.prems u z show ?thesis by (simp add: to_radix.simps [of 10 n])
  next
    case False
    then have "0 < n div 10" "n div 10 < n" by auto
    from less.IH [OF this(2,1)] False u [of "n mod 10"] show ?thesis by (simp add: to_radix.simps [of 10 n])
  qed
qed

lemma hex_lower: "is_hex_unit c \<Longrightarrow> to_lower c = c \<and> \<not> js_whitespace c \<and> c \<noteq> 45"
  by (auto simp: is_hex_unit_def to_lower_def js_whitespace_def word_le_nat_alt)

lemma padded_32:
  assumes "n < 2 ^ 128"
  shows "length (padStart 32 48 (to_radix 16 n)) = 32" "list_all is_hex_unit (padStart 32 48 (to_radix 16 n))"
proof -
  have "n < 16 ^ Suc 31" using assms by simp
  then have "length (to_radix 16 n) \<le> Suc 31" using to_radix_16 by blast
  then show "length (padStart 32 48 (to_radix 16 n)) = 32" by (simp add: padStart_def)
  show "list_all is_hex_unit (padStart 32 48 (to_radix 16 n))"
    using to_radix_16 [of n] by (auto simp: padStart_def list_all_iff is_hex_unit_def)
qed

lemma hex_digits_kept:
  assumes "list_all is_hex_unit h"
  shows "map to_lower h = h" "filter (\<lambda>c. c \<noteq> 45) h = h" "dropWhile js_whitespace (rev h) = rev h"
proof -
  show "map to_lower h = h" "filter (\<lambda>c. c \<noteq> 45) h = h" using assms hex_lower by (auto simp: list_all_iff intro: map_idI filter_True)
  show "dropWhile js_whitespace (rev h) = rev h"
    using assms hex_lower by (cases "rev h") (auto simp: list_all_iff dest: arg_cong [of _ _ set])
qed

lemma siteToHex_value:
  assumes "0 < v" "v < 2 ^ 128"
  shows "\<exists>site. site_of_value v = Inr site \<and> siteToHex site = padStart 32 48 (to_radix 16 v)
    \<and> unat (site_high site) * 2 ^ 64 + unat (site_low site) = v"
proof -
  let ?site = "\<lparr>site_low = of_nat v, site_high = of_nat (v div 2 ^ 64)\<rparr> :: site_id"
  have "v div 2 ^ 64 < 2 ^ 64" using assms(2) by (intro less_mult_imp_div_less) simp
  then have "unat (site_high ?site) = v div 2 ^ 64" by (simp add: unat_of_nat take_bit_nat_eq_self)
  moreover have "unat (site_low ?site) = v mod 2 ^ 64" by (simp add: unat_of_nat take_bit_eq_mod)
  ultimately have "unat (site_high ?site) * 2 ^ 64 + unat (site_low ?site) = v" by simp
  then show ?thesis using assms by (auto simp: site_of_value_def siteToHex_def)
qed

lemma hex_bigint_padded: "v < 2 ^ 128 \<Longrightarrow> hex_bigint (padStart 32 48 (to_radix 16 v)) = Some v"
  using padded_32 [of v] hex_digits_kept [OF padded_32(2) [of v]] radix_value_padded [of 32 v]
  by (auto simp: hex_bigint_def Let_def)

lemma MARKS_SITE_small: "MARKS_SITE_MAX < 2 ^ 128"
  by (simp add: MARKS_SITE_MAX_def)

text \<open>
  A site survives the way to the component and back: a room's site that is accepted becomes a
  component site whose printed form is the engine's hexadecimal form and narrows to the same
  decimal string again; and whatever \<open>engineSiteToMarks\<close> returns is accepted by
  \<open>marksSiteToEngine\<close>, which widens it to a form with the same value.
\<close>

theorem site_roundtrip:
  "(marksSiteToEngine (Site_Text s) = Inr h \<longrightarrow>
      (\<exists>site. normalizeSiteId (Hex_Site h) = Inr site \<and> siteToHex site = h \<and> engineSiteToMarks (siteToHex site) = Inr s))
   \<and> (engineSiteToMarks g = Inr t \<longrightarrow>
      (\<exists>h. marksSiteToEngine (Site_Text t) = Inr h \<and> hex_bigint h = hex_bigint g))"
proof (intro conjI impI)
  assume "marksSiteToEngine (Site_Text s) = Inr h"
  then obtain c cs where s: "s = c # cs" "is_decimal_unit c" "c \<noteq> 48" "list_all is_decimal_unit cs"
    and v: "0 < radix_value 10 s" "radix_value 10 s \<le> MARKS_SITE_MAX" and h: "h = padStart 32 48 (to_radix 16 (radix_value 10 s))"
    by (auto simp: marksSiteToEngine_def parseMarksSite_def split: list.splits if_splits)
  let ?v = "radix_value 10 s"
  have lt: "?v < 2 ^ 128" using v MARKS_SITE_small by simp
  obtain site where site: "site_of_value ?v = Inr site" "siteToHex site = h" using siteToHex_value [OF v(1) lt] h by auto
  have "normalizeSiteId (Hex_Site h) = Inr site"
    using padded_32 [OF lt] hex_digits_kept [OF padded_32(2) [OF lt]] site(1) by (simp add: normalizeSiteId_def h radix_value_padded)
  moreover have "engineSiteToMarks h = Inr s"
    using hex_bigint_padded [OF lt] v to_radix_decimal [of s] s by (simp add: engineSiteToMarks_def h)
  ultimately show "\<exists>site. normalizeSiteId (Hex_Site h) = Inr site \<and> siteToHex site = h \<and> engineSiteToMarks (siteToHex site) = Inr s"
    using site by auto
next
  assume "engineSiteToMarks g = Inr t"
  then obtain v where v: "hex_bigint g = Some v" "0 < v" "v \<le> MARKS_SITE_MAX" "t = to_radix 10 v"
    by (auto simp: engineSiteToMarks_def split: option.splits if_splits)
  obtain c cs where t: "t = c # cs" "is_decimal_unit c" "c \<noteq> 48" "list_all is_decimal_unit cs"
    using radix_10_first [OF v(2)] unfolding v(4) [symmetric] by (cases t) auto
  have "radix_value 10 t = v" using radix_value_to_radix [of 10 v] v(4) by simp
  then have "marksSiteToEngine (Site_Text t) = Inr (padStart 32 48 (to_radix 16 v))"
    using t v by (auto simp: marksSiteToEngine_def parseMarksSite_def)
  then show "\<exists>h. marksSiteToEngine (Site_Text t) = Inr h \<and> hex_bigint h = hex_bigint g"
    using hex_bigint_padded [of v] v MARKS_SITE_small by auto
qed

theorem site_roundtrip_witness:
  "\<exists>h site. marksSiteToEngine (Site_Text (js ''42'')) = Inr h \<and> normalizeSiteId (Hex_Site h) = Inr site
     \<and> engineSiteToMarks (siteToHex site) = Inr (js ''42'')"
proof -
  have "js ''42'' = [52, 50]" by (simp add: js_def u16_def)
  then have "\<exists>h. marksSiteToEngine (Site_Text (js ''42'')) = Inr h"
    by (simp add: marksSiteToEngine_def parseMarksSite_def is_decimal_unit_def MARKS_SITE_MAX_def radix_value_def digit_value_def)
  then show ?thesis using site_roundtrip by blast
qed

end
