(* ===== verification/Wasm_Document.thy ===== *)
theory Wasm_Document
  imports Editor_Bridge Js_Text
begin

text \<open>
  \<open>EsbtDocument\<close> of \<open>client/src/collab/wasm/esbt-document.ts\<close>: the owner of one Wasm replica. It
  checks its arguments, runs the component, keeps at most one component transaction open, and
  tells its listeners what changed.

  The component is code outside the repository: the record \<open>component\<close> holds its operations on an
  opaque state. An operation that throws still returns a state, since a failing call may have
  changed the replica. The notifications are kept as a log in the order the listeners are called.
\<close>

section \<open>Types\<close>

datatype doc_error = EsbtError nat | RangeError | TypeError | Callback_Threw

record 'u local_change =
  lc_update :: bytes
  lc_visibleChanged :: bool
  lc_visibleEdits :: "'u text_edit list"

datatype artifact_kind = Update_Artifact | Compact_Snapshot | Full_Snapshot | Other_Artifact

record ('c, 'u) component =
  c_begin :: "nat option \<Rightarrow> 'c \<Rightarrow> 'c \<times> (doc_error + unit)"
  c_commit :: "'c \<Rightarrow> 'c \<times> (doc_error + 'u local_change option)"
  c_abort :: "'c \<Rightarrow> 'c"
  c_replace :: "'u text_edit \<Rightarrow> nat option \<Rightarrow> 'c \<Rightarrow> 'c \<times> (doc_error + 'u local_change option)"
  c_undo :: "'c \<Rightarrow> 'c \<times> (doc_error + 'u local_change option)"
  c_redo :: "'c \<Rightarrow> 'c \<times> (doc_error + 'u local_change option)"
  c_applyUpdate :: "bytes \<Rightarrow> 'c \<Rightarrow> 'c \<times> (doc_error + bool \<times> 'u text_edit list)"
  c_applySnapshot :: "bytes \<Rightarrow> 'c \<Rightarrow> 'c \<times> (doc_error + bool \<times> 'u text_edit list)"
  c_classify :: "bytes \<Rightarrow> doc_error + artifact_kind"
  c_text :: "'c \<Rightarrow> 'u list"

datatype 'u notification = Local_Update bytes | Change "'u text_edit list" "js_text option" bool | Replica_Change

record ('c, 'u) document =
  component_state :: 'c
  transactionDepth :: nat
  transactionOrigin :: "js_text option"
  doc_destroyed :: bool
  notifications :: "'u notification list"

record transact_options =
  t_origin :: "js_text option"
  t_undoGroup :: "int option"

definition new_document :: "'c \<Rightarrow> ('c, 'u) document" where
  "new_document c = \<lparr>component_state = c, transactionDepth = 0, transactionOrigin = None, doc_destroyed = False, notifications = []\<rparr>"

section \<open>Checks\<close>

definition normalizeUndoGroup :: "int option \<Rightarrow> doc_error + nat option" where
  "normalizeUndoGroup undoGroup =
     (case undoGroup of
        None \<Rightarrow> Inr None
      | Some v \<Rightarrow> if v < 0 \<or> v > 0xffffffffffffffff then Inl RangeError else Inr (Some (nat v)))"

text \<open>\<open>decodeUtf16\<close> joins chunks of at most 16384 units.\<close>

function decode_chunks :: "nat \<Rightarrow> 'u list \<Rightarrow> 'u list list" where
  "decode_chunks offset units =
     (if offset < length units
      then js_slice offset (offset + 16384) units # decode_chunks (offset + 16384) units
      else [])"
  by pat_completeness auto
termination by (relation "measure (\<lambda>(n, us). length us - n)") auto

declare decode_chunks.simps [simp del]

definition decodeUtf16 :: "'u list \<Rightarrow> 'u list" where
  "decodeUtf16 units = concat (decode_chunks 0 units)"

lemma decode_chunks_drop: "concat (decode_chunks offset units) = drop offset units"
proof (induction offset units rule: decode_chunks.induct)
  case (1 offset units)
  show ?case
  proof (cases "offset < length units")
    case True
    have "js_slice offset (offset + 16384) units @ drop (offset + 16384) units = drop offset units"
      by (simp add: js_slice_def) (metis append_take_drop_id drop_drop add.commute)
    with True 1 show ?thesis by (simp add: decode_chunks.simps [of offset units])
  qed (simp add: decode_chunks.simps [of offset units])
qed

lemma decodeUtf16_id [simp]: "decodeUtf16 units = units"
  by (simp add: decodeUtf16_def decode_chunks_drop)

definition mapVisibleEdit :: "'u text_edit \<Rightarrow> 'u text_edit" where
  "mapVisibleEdit e = e\<lparr>edit_insert := decodeUtf16 (edit_insert e)\<rparr>"

lemma map_mapVisibleEdit [simp]: "map mapVisibleEdit es = es"
  by (rule map_idI) (simp add: mapVisibleEdit_def)

section \<open>Notifications\<close>

definition emitChange :: "'u text_edit list \<Rightarrow> js_text option \<Rightarrow> bool \<Rightarrow> ('c, 'u) document \<Rightarrow> ('c, 'u) document" where
  "emitChange edits origin local d = d\<lparr>notifications := notifications d @ [Change edits origin local]\<rparr>"

definition emitReplicaChange :: "('c, 'u) document \<Rightarrow> ('c, 'u) document" where
  "emitReplicaChange d = d\<lparr>notifications := notifications d @ [Replica_Change]\<rparr>"

definition emitLocalUpdate :: "bytes \<Rightarrow> 'u text_edit list \<Rightarrow> js_text option \<Rightarrow> ('c, 'u) document \<Rightarrow> ('c, 'u) document" where
  "emitLocalUpdate update edits origin d =
     (let d = d\<lparr>notifications := notifications d @ [Local_Update update]\<rparr>
      in emitReplicaChange (if edits \<noteq> [] then emitChange edits origin True d else d))"

definition consumeLocalChange :: "'u local_change option \<Rightarrow> js_text option \<Rightarrow> ('c, 'u) document
    \<Rightarrow> ('c, 'u) document \<times> (doc_error + bytes option)" where
  "consumeLocalChange change origin d =
     (case change of
        None \<Rightarrow> (d, Inr None)
      | Some ch \<Rightarrow>
          let edits = map mapVisibleEdit (lc_visibleEdits ch)
          in if lc_visibleChanged ch \<noteq> (edits \<noteq> []) then (d, Inl (EsbtError 4))
             else (emitLocalUpdate (lc_update ch) edits origin d, Inr (Some (lc_update ch))))"

section \<open>Operations\<close>

text \<open>A call of the component whose result is a local change: \<open>replaceRange\<close>, \<open>undo\<close> and \<open>redo\<close> end like this.\<close>

definition local_call :: "('c \<Rightarrow> 'c \<times> (doc_error + 'u local_change option)) \<Rightarrow> js_text option \<Rightarrow> ('c, 'u) document
    \<Rightarrow> ('c, 'u) document \<times> (doc_error + bytes option)" where
  "local_call f origin d =
     (case f (component_state d) of
        (c, Inl e) \<Rightarrow> (d\<lparr>component_state := c\<rparr>, Inl e)
      | (c, Inr change) \<Rightarrow> consumeLocalChange change origin (d\<lparr>component_state := c\<rparr>))"

definition assertLive :: "('c, 'u) document \<Rightarrow> bool" where
  "assertLive d \<longleftrightarrow> \<not> doc_destroyed d"

definition replaceRange :: "('c, 'u) component \<Rightarrow> 'u doc_op \<Rightarrow> transact_options \<Rightarrow> ('c, 'u) document
    \<Rightarrow> ('c, 'u) document \<times> (doc_error + bytes option)" where
  "replaceRange k oper options d =
     (case doc_replace_call oper of
        Inl _ \<Rightarrow> (d, Inl (if \<not> assertLive d \<and> (case oper of Doc_Insert _ _ \<Rightarrow> True | _ \<Rightarrow> False) then EsbtError 24 else RangeError))
      | Inr edit \<Rightarrow>
          if \<not> assertLive d then (d, Inl (EsbtError 24))
          else case normalizeUndoGroup (t_undoGroup options) of
                 Inl e \<Rightarrow> (d, Inl e)
               | Inr g \<Rightarrow> local_call (c_replace k edit g) (t_origin options) d)"

definition setText :: "('c, 'u) component \<Rightarrow> 'u list \<Rightarrow> transact_options \<Rightarrow> ('c, 'u) document
    \<Rightarrow> ('c, 'u) document \<times> (doc_error + bytes option)" where
  "setText k new options d =
     (if \<not> assertLive d then (d, Inl (EsbtError 24))
      else case doc_replaceRange 0 (int (length (c_text k (component_state d)))) new of
             Inl _ \<Rightarrow> (d, Inl RangeError)
           | Inr edit \<Rightarrow>
               (case normalizeUndoGroup (t_undoGroup options) of
                  Inl e \<Rightarrow> (d, Inl e)
                | Inr g \<Rightarrow> local_call (c_replace k edit g) (t_origin options) d))"

definition doc_undo :: "('c, 'u) component \<Rightarrow> js_text option \<Rightarrow> ('c, 'u) document \<Rightarrow> ('c, 'u) document \<times> (doc_error + bytes option)" where
  "doc_undo k origin d =
     (if \<not> assertLive d then (d, Inl (EsbtError 24))
      else local_call (c_undo k) (case origin of None \<Rightarrow> Some (js ''undo'') | Some x \<Rightarrow> Some x) d)"

definition doc_redo :: "('c, 'u) component \<Rightarrow> js_text option \<Rightarrow> ('c, 'u) document \<Rightarrow> ('c, 'u) document \<times> (doc_error + bytes option)" where
  "doc_redo k origin d =
     (if \<not> assertLive d then (d, Inl (EsbtError 24))
      else local_call (c_redo k) (case origin of None \<Rightarrow> Some (js ''redo'') | Some x \<Rightarrow> Some x) d)"

text \<open>\<open>mapApplyReceipt\<close> and \<open>mapSnapshotReceipt\<close> refuse a receipt that disagrees with its own edits.\<close>

definition remote_call :: "('c \<Rightarrow> 'c \<times> (doc_error + bool \<times> 'u text_edit list)) \<Rightarrow> ('c, 'u) document
    \<Rightarrow> ('c, 'u) document \<times> (doc_error + 'u text_edit list)" where
  "remote_call f d =
     (if \<not> assertLive d then (d, Inl (EsbtError 24))
      else case f (component_state d) of
             (c, Inl e) \<Rightarrow> (d\<lparr>component_state := c\<rparr>, Inl e)
           | (c, Inr (visibleChanged, receipt_edits)) \<Rightarrow>
               let d = d\<lparr>component_state := c\<rparr>; visibleEdits = map mapVisibleEdit receipt_edits
               in if visibleChanged \<noteq> (visibleEdits \<noteq> []) then (d, Inl (EsbtError 4))
                  else (emitReplicaChange (if visibleEdits \<noteq> [] then emitChange visibleEdits None False d else d), Inr visibleEdits))"

definition applyUpdate :: "('c, 'u) component \<Rightarrow> bytes \<Rightarrow> ('c, 'u) document \<Rightarrow> ('c, 'u) document \<times> (doc_error + 'u text_edit list)" where
  "applyUpdate k bs d = remote_call (c_applyUpdate k bs) d"

definition applySnapshot :: "('c, 'u) component \<Rightarrow> bytes \<Rightarrow> ('c, 'u) document \<Rightarrow> ('c, 'u) document \<times> (doc_error + 'u text_edit list)" where
  "applySnapshot k bs d = remote_call (c_applySnapshot k bs) d"

definition doc_import :: "('c, 'u) component \<Rightarrow> bytes \<Rightarrow> ('c, 'u) document \<Rightarrow> ('c, 'u) document \<times> (doc_error + 'u text_edit list)" where
  "doc_import k bs d =
     (case c_classify k bs of
        Inl e \<Rightarrow> (d, Inl e)
      | Inr Update_Artifact \<Rightarrow> applyUpdate k bs d
      | Inr Compact_Snapshot \<Rightarrow> applySnapshot k bs d
      | Inr Full_Snapshot \<Rightarrow> applySnapshot k bs d
      | Inr Other_Artifact \<Rightarrow> (d, Inl (EsbtError 4)))"

definition doc_destroy :: "('c, 'u) document \<Rightarrow> ('c, 'u) document" where
  "doc_destroy d = d\<lparr>doc_destroyed := True\<rparr>"

section \<open>Transactions\<close>

text \<open>
  What a callback of \<open>transact\<close> does: edits, nested transactions, throwing by itself; an exception
  of a step leaves the callback. The flag says that the callback returned a promise.
\<close>

datatype 'u callback_step = Edit "'u doc_op" transact_options | Nested transact_options bool "'u callback_step list" | Throw

fun run_step :: "('c, 'u) component \<Rightarrow> 'u callback_step \<Rightarrow> ('c, 'u) document \<Rightarrow> ('c, 'u) document \<times> (doc_error + unit)"
and run_steps :: "('c, 'u) component \<Rightarrow> 'u callback_step list \<Rightarrow> ('c, 'u) document \<Rightarrow> ('c, 'u) document \<times> (doc_error + unit)"
and transact :: "('c, 'u) component \<Rightarrow> transact_options \<Rightarrow> bool \<Rightarrow> 'u callback_step list \<Rightarrow> ('c, 'u) document \<Rightarrow> ('c, 'u) document \<times> (doc_error + unit)" where
  "run_step k (Edit oper options) d =
     (case replaceRange k oper options d of (d, Inl e) \<Rightarrow> (d, Inl e) | (d, Inr _) \<Rightarrow> (d, Inr ()))"
| "run_step k (Nested options promise steps) d = transact k options promise steps d"
| "run_step k Throw d = (d, Inl Callback_Threw)"
| "run_steps k [] d = (d, Inr ())"
| "run_steps k (st # sts) d = (case run_step k st d of (d, Inl e) \<Rightarrow> (d, Inl e) | (d, Inr _) \<Rightarrow> run_steps k sts d)"
| "transact k options promise steps d =
     (if \<not> assertLive d then (d, Inl (EsbtError 24))
      else if transactionDepth d > 0
      then (case run_steps k steps (d\<lparr>transactionDepth := transactionDepth d + 1\<rparr>) of
              (d, r) \<Rightarrow> (d\<lparr>transactionDepth := transactionDepth d - 1\<rparr>, if \<not> isl r \<and> promise then Inl TypeError else r))
      else case normalizeUndoGroup (t_undoGroup options) of
        Inl e \<Rightarrow> (d, Inl e)
      | Inr g \<Rightarrow>
          (case c_begin k g (component_state d) of
             (c, Inl e) \<Rightarrow> (d\<lparr>component_state := c\<rparr>, Inl e)
           | (c, Inr _) \<Rightarrow>
               (case (case run_steps k steps (d\<lparr>component_state := c, transactionDepth := 1, transactionOrigin := t_origin options\<rparr>) of
                        (d, Inl e) \<Rightarrow> (d, Inl e)
                      | (d, Inr _) \<Rightarrow>
                          if promise then (d, Inl TypeError)
                          else (case local_call (c_commit k) (transactionOrigin d) (d\<lparr>transactionDepth := 0\<rparr>) of
                                  (d, Inl e) \<Rightarrow> (d, Inl e) | (d, Inr _) \<Rightarrow> (d, Inr ()))) of
                  (d, Inl e) \<Rightarrow>
                    (d\<lparr>transactionDepth := 0, component_state := c_abort k (component_state d), transactionOrigin := None\<rparr>, Inl e)
                | (d, Inr v) \<Rightarrow> (d\<lparr>transactionOrigin := None\<rparr>, Inr v))))"

section \<open>What the component promises\<close>

definition change_ok :: "'u list \<Rightarrow> 'u list \<Rightarrow> 'u local_change option \<Rightarrow> bool" where
  "change_ok t t' change \<longleftrightarrow>
     (case change of
        None \<Rightarrow> t' = t
      | Some ch \<Rightarrow> lc_visibleChanged ch = (lc_visibleEdits ch \<noteq> []) \<and> applyTextEdits t (lc_visibleEdits ch) = Inr t')"

text \<open>
  \<open>saved c\<close> is the state an open transaction started from. Outside a transaction an operation
  either reports how the text changed or throws and changes nothing; inside one, edits report
  nothing before the commit, and a failing edit may already have rolled the transaction back.
\<close>

definition local_ok :: "('c, 'u) component \<Rightarrow> ('c \<Rightarrow> 'c option) \<Rightarrow> 'c \<Rightarrow> 'c \<times> (doc_error + 'u local_change option) \<Rightarrow> bool" where
  "local_ok k saved c result \<longleftrightarrow>
     (case result of (c', Inl e) \<Rightarrow> c' = c | (c', Inr ch) \<Rightarrow> saved c' = None \<and> change_ok (c_text k c) (c_text k c') ch)"

definition remote_ok :: "('c, 'u) component \<Rightarrow> ('c \<Rightarrow> 'c option) \<Rightarrow> 'c \<Rightarrow> 'c \<times> (doc_error + bool \<times> 'u text_edit list) \<Rightarrow> bool" where
  "remote_ok k saved c result \<longleftrightarrow>
     (case result of
        (c', Inl e) \<Rightarrow> c' = c
      | (c', Inr (v, es)) \<Rightarrow> saved c' = None \<and> v = (es \<noteq> []) \<and> applyTextEdits (c_text k c) es = Inr (c_text k c'))"

definition idle_ok :: "('c, 'u) component \<Rightarrow> ('c \<Rightarrow> 'c option) \<Rightarrow> 'c \<Rightarrow> bool" where
  "idle_ok k saved c \<longleftrightarrow>
     (\<forall>g. case c_begin k g c of (c', Inl e) \<Rightarrow> c' = c | (c', Inr _) \<Rightarrow> saved c' = Some c)
     \<and> (\<forall>edit g. local_ok k saved c (c_replace k edit g c)) \<and> local_ok k saved c (c_undo k c) \<and> local_ok k saved c (c_redo k c)
     \<and> (\<forall>bs. remote_ok k saved c (c_applyUpdate k bs c) \<and> remote_ok k saved c (c_applySnapshot k bs c))
     \<and> c_abort k c = c"

definition open_ok :: "('c, 'u) component \<Rightarrow> ('c \<Rightarrow> 'c option) \<Rightarrow> 'c \<Rightarrow> 'c \<Rightarrow> bool" where
  "open_ok k saved b c \<longleftrightarrow> saved b = None
     \<and> (\<forall>edit g. case c_replace k edit g c of
          (c', Inl e) \<Rightarrow> saved c' = Some b \<or> c' = b | (c', Inr ch) \<Rightarrow> saved c' = Some b \<and> ch = None)
     \<and> (case c_commit k c of
          (c', Inl e) \<Rightarrow> saved c' = Some b \<or> c' = b
        | (c', Inr ch) \<Rightarrow> saved c' = None \<and> change_ok (c_text k b) (c_text k c') ch)
     \<and> c_abort k c = b"

definition component_contract :: "('c, 'u) component \<Rightarrow> ('c \<Rightarrow> 'c option) \<Rightarrow> bool" where
  "component_contract k saved \<longleftrightarrow>
     (\<forall>c. (saved c = None \<longrightarrow> idle_ok k saved c) \<and> (\<forall>b. saved c = Some b \<longrightarrow> open_ok k saved b c))"

section \<open>Transactions are atomic\<close>

definition batch :: "'u local_change option \<Rightarrow> js_text option \<Rightarrow> 'u notification list" where
  "batch change origin =
     (case change of
        None \<Rightarrow> []
      | Some ch \<Rightarrow> Local_Update (lc_update ch) # (if lc_visibleEdits ch \<noteq> [] then [Change (lc_visibleEdits ch) origin True] else []) @ [Replica_Change])"

lemma consume_ok:
  assumes "change_ok t t' change"
  shows "consumeLocalChange change origin d =
    (d\<lparr>notifications := notifications d @ batch change origin\<rparr>, Inr (map_option lc_update change))"
  using assms by (cases change) (auto simp: consumeLocalChange_def change_ok_def batch_def emitLocalUpdate_def emitChange_def
      emitReplicaChange_def Let_def)

text \<open>Inside a transaction nothing is announced, and only the component's state moves.\<close>

definition inside :: "('c \<Rightarrow> 'c option) \<Rightarrow> 'c \<Rightarrow> ('c, 'u) document \<Rightarrow> ('c, 'u) document \<times> (doc_error + unit) \<Rightarrow> bool" where
  "inside saved b d result \<longleftrightarrow>
     (case result of (d', r) \<Rightarrow>
        (\<exists>c. d' = d\<lparr>component_state := c\<rparr> \<and> (saved c = Some b \<or> isl r \<and> c = b)))"

lemma edit_inside:
  assumes "component_contract k saved" "saved (component_state d) = Some b"
  shows "inside saved b d (run_step k (Edit oper options) d)"
proof -
  have o: "open_ok k saved b (component_state d)" using assms by (simp add: component_contract_def)
  have same: "inside saved b d (d, Inl e)" for e using assms(2) by (auto simp: inside_def intro: exI [of _ "component_state d"])
  have "inside saved b d (case local_call (c_replace k edit g) origin d of (d, Inl e) \<Rightarrow> (d, Inl e) | (d, Inr _) \<Rightarrow> (d, Inr ()))" for edit g origin
  proof (cases "c_replace k edit g (component_state d)")
    case (Pair c r)
    with o have r: "case r of Inl e \<Rightarrow> saved c = Some b \<or> c = b | Inr ch \<Rightarrow> saved c = Some b \<and> ch = None"
      unfolding open_ok_def by (auto split: sum.splits dest: spec2 [of _ edit g])
    then show ?thesis using Pair by (cases r) (auto simp: inside_def local_call_def consumeLocalChange_def)
  qed
  with same show ?thesis
    by (auto simp: replaceRange_def split: sum.splits)
qed

lemma inside_same: "saved (component_state d) = Some b \<Longrightarrow> inside saved b d (d, r)"
  by (auto simp: inside_def intro: exI [of _ "component_state d"])

lemma inside_trans:
  assumes "inside saved b d (d', Inr u)" "saved (component_state d') = Some b \<Longrightarrow> inside saved b d' result"
  shows "inside saved b d result"
proof -
  obtain c where d': "d' = d\<lparr>component_state := c\<rparr>" "saved c = Some b" using assms(1) by (auto simp: inside_def)
  then have "inside saved b d' result" using assms(2) by simp
  then show ?thesis by (auto simp: inside_def d' split: prod.splits)
qed

lemma inside_nested:
  assumes "inside saved b (d\<lparr>transactionDepth := transactionDepth d + 1\<rparr>) (d', r)" "isl r \<Longrightarrow> isl r'" "0 < transactionDepth d"
  shows "inside saved b d (d'\<lparr>transactionDepth := transactionDepth d' - 1\<rparr>, r')"
proof -
  obtain c where c: "d' = d\<lparr>transactionDepth := transactionDepth d + 1, component_state := c\<rparr>" "saved c = Some b \<or> isl r \<and> c = b"
    using assms(1) by (auto simp: inside_def)
  then have "d'\<lparr>transactionDepth := transactionDepth d' - 1\<rparr> = d\<lparr>component_state := c\<rparr>" by (cases d) simp
  with c assms(2) show ?thesis by (auto simp: inside_def)
qed

lemma callback_inside:
  assumes "component_contract k saved"
  shows "saved (component_state d) = Some b \<Longrightarrow> 0 < transactionDepth d \<Longrightarrow> inside saved b d (run_step k st d)"
    and "saved (component_state d) = Some b \<Longrightarrow> 0 < transactionDepth d \<Longrightarrow> inside saved b d (run_steps k sts d)"
    and "saved (component_state d) = Some b \<Longrightarrow> 0 < transactionDepth d \<Longrightarrow> inside saved b d (transact k options promise sts d)"
  using assms
proof (induction k st d and k sts d and k options promise sts d rule: run_step_run_steps_transact.induct)
  case (1 k oper options d)
  then show ?case by (intro edit_inside)
next
  case (5 k st sts d)
  have i: "inside saved b d (run_step k st d)" using 5(1,3-) by simp
  show ?case
  proof (cases "run_step k st d")
    case (Pair d' r)
    show ?thesis
    proof (cases r)
      case (Inr u)
      have t: "transactionDepth d' = transactionDepth d" using i Pair by (auto simp: inside_def)
      show ?thesis using inside_trans [of saved b d d' u] i Pair Inr 5 t by auto
    qed (use i Pair in simp)
  qed
next
  case (6 k options promise sts d)
  then have i: "inside saved b (d\<lparr>transactionDepth := transactionDepth d + 1\<rparr>) (run_steps k sts (d\<lparr>transactionDepth := transactionDepth d + 1\<rparr>))"
    if "assertLive d" using that by simp
  show ?case
  proof (cases "assertLive d")
    case True
    with 6 inside_nested [where d = d and saved = saved and b = b] i show ?thesis
      by (cases "run_steps k sts (d\<lparr>transactionDepth := transactionDepth d + 1\<rparr>)") (fastforce simp: isl_def)
  qed (use 6 in \<open>simp add: inside_same\<close>)
qed (simp_all add: inside_same)

text \<open>What an operation leaves behind outside a transaction: all of its change, or nothing.\<close>

definition settled_doc :: "('c \<Rightarrow> 'c option) \<Rightarrow> ('c, 'u) document \<Rightarrow> bool" where
  "settled_doc saved d \<longleftrightarrow> transactionDepth d = 0 \<and> transactionOrigin d = None \<and> saved (component_state d) = None"

definition all_or_nothing :: "('c, 'u) component \<Rightarrow> ('c \<Rightarrow> 'c option) \<Rightarrow> js_text option \<Rightarrow> ('c, 'u) document
    \<Rightarrow> ('c, 'u) document \<times> (doc_error + 'r) \<Rightarrow> bool" where
  "all_or_nothing k saved origin d result \<longleftrightarrow>
     (case result of
        (d', Inl e) \<Rightarrow> d' = d
      | (d', Inr _) \<Rightarrow> \<exists>c ch. d' = d\<lparr>component_state := c, notifications := notifications d @ batch ch origin\<rparr>
                       \<and> saved c = None \<and> change_ok (c_text k (component_state d)) (c_text k c) ch)"

lemma all_or_nothing_error: "all_or_nothing k saved origin d (d, Inl e)"
  by (simp add: all_or_nothing_def)

lemma local_call_ok:
  assumes "local_ok k saved (component_state d) (f (component_state d))"
  shows "all_or_nothing k saved origin d (local_call f origin d)"
proof (cases "f (component_state d)")
  case (Pair c r)
  show ?thesis
  proof (cases r)
    case (Inl e)
    with Pair assms have "c = component_state d" by (simp add: local_ok_def)
    with Pair Inl show ?thesis by (simp add: local_call_def all_or_nothing_def)
  next
    case (Inr ch)
    with Pair assms have "saved c = None" "change_ok (c_text k (component_state d)) (c_text k c) ch" by (simp_all add: local_ok_def)
    with Pair Inr consume_ok [OF this(2), of origin "d\<lparr>component_state := c\<rparr>"] show ?thesis
      by (auto simp: local_call_def all_or_nothing_def)
  qed
qed

lemma commit_ok:
  assumes "component_contract k saved" "saved (component_state d) = Some b"
  shows "case local_call (c_commit k) origin d of
      (d', Inl e) \<Rightarrow> \<exists>c. d' = d\<lparr>component_state := c\<rparr> \<and> (saved c = Some b \<or> c = b)
    | (d', Inr _) \<Rightarrow> \<exists>c ch. d' = d\<lparr>component_state := c, notifications := notifications d @ batch ch origin\<rparr>
                       \<and> saved c = None \<and> change_ok (c_text k b) (c_text k c) ch"
proof -
  have ok: "open_ok k saved b (component_state d)" using assms by (simp add: component_contract_def)
  obtain c r where r: "c_commit k (component_state d) = (c, r)" by (cases "c_commit k (component_state d)")
  show ?thesis
  proof (cases r)
    case (Inl e)
    with r ok have "saved c = Some b \<or> c = b" by (simp add: open_ok_def)
    with r Inl show ?thesis by (auto simp: local_call_def)
  next
    case (Inr ch)
    with r ok have c: "saved c = None" "change_ok (c_text k b) (c_text k c) ch" by (simp_all add: open_ok_def)
    with r Inr consume_ok [OF c(2), of origin "d\<lparr>component_state := c\<rparr>"] show ?thesis by (auto simp: local_call_def)
  qed
qed

lemma transact_begun:
  assumes k: "component_contract k saved" and d: "settled_doc saved d" and live: "assertLive d"
    and g: "normalizeUndoGroup (t_undoGroup options) = Inr g" and b: "c_begin k g (component_state d) = (c, Inr u)"
    and c: "saved c = Some (component_state d)"
  shows "all_or_nothing k saved (t_origin options) d (transact k options promise steps d)"
proof -
  have aborts: "c_abort k c = component_state d" if "saved c = Some (component_state d) \<or> c = component_state d" for c
    using that k d by (auto simp: component_contract_def open_ok_def idle_ok_def settled_doc_def)
  let ?d = "d\<lparr>component_state := c, transactionDepth := 1, transactionOrigin := t_origin options\<rparr>"
  have "inside saved (component_state d) ?d (run_steps k steps ?d)" using callback_inside(2) [OF k] c by simp
  then obtain c' r' where run: "run_steps k steps ?d = (?d\<lparr>component_state := c'\<rparr>, r')"
      "saved c' = Some (component_state d) \<or> isl r' \<and> c' = component_state d"
    by (cases "run_steps k steps ?d") (auto simp: inside_def)
  note lift = live g b d
  show ?thesis
  proof (cases "isl r' \<or> promise")
    case True
    have "d\<lparr>transactionDepth := 0, component_state := c_abort k c', transactionOrigin := None\<rparr> = d"
      using aborts [of c'] run(2) d by (cases d) (auto simp: settled_doc_def)
    with True lift run show ?thesis
      by (cases r') (auto simp: settled_doc_def all_or_nothing_def)
  next
    case False
    let ?e = "d\<lparr>transactionOrigin := t_origin options, component_state := c', transactionDepth := 0\<rparr>"
    have r': "r' = Inr ()" "\<not> promise" using False by (cases r', auto)
    have sc: "saved (component_state ?e) = Some (component_state d)" using run False by auto
    obtain d' r'' where loc: "local_call (c_commit k) (t_origin options) ?e = (d', r'')"
      by (cases "local_call (c_commit k) (t_origin options) ?e")
    show ?thesis
    proof (cases r'')
      case (Inl x)
      then obtain c'' where "d' = ?e\<lparr>component_state := c''\<rparr>" "c_abort k c'' = component_state d"
        using commit_ok [OF k sc, of "t_origin options"] loc aborts by auto
      then have "d'\<lparr>transactionDepth := 0, component_state := c_abort k (component_state d'), transactionOrigin := None\<rparr> = d"
        using d by (cases d) (simp add: settled_doc_def)
      with lift run r' loc Inl show ?thesis by (simp add: settled_doc_def all_or_nothing_def)
    next
      case (Inr y)
      with commit_ok [OF k sc, of "t_origin options"] loc obtain c'' ch where
        "d' = ?e\<lparr>component_state := c'', notifications := notifications ?e @ batch ch (t_origin options)\<rparr>"
        and ch: "saved c'' = None" "change_ok (c_text k (component_state d)) (c_text k c'') ch" by auto
      then have "d'\<lparr>transactionOrigin := None\<rparr> = d\<lparr>component_state := c'', notifications := notifications d @ batch ch (t_origin options)\<rparr>"
        using d by (cases d) (simp add: settled_doc_def)
      with lift run r' loc Inr ch show ?thesis by (auto simp: settled_doc_def all_or_nothing_def)
    qed
  qed
qed

lemma transact_outer:
  assumes k: "component_contract k saved" and d: "settled_doc saved d"
  shows "all_or_nothing k saved (t_origin options) d (transact k options promise steps d)"
proof -
  have idle: "idle_ok k saved (component_state d)" using assms by (simp add: component_contract_def settled_doc_def)
  obtain gr where gr: "normalizeUndoGroup (t_undoGroup options) = gr" by simp
  show ?thesis
  proof (cases "assertLive d \<and> \<not> isl gr")
    case False
    then show ?thesis using d gr by (cases gr) (auto simp: settled_doc_def all_or_nothing_error)
  next
    case True
    then obtain g where g: "normalizeUndoGroup (t_undoGroup options) = Inr g" using gr by (cases gr) auto
    obtain c r where b: "c_begin k g (component_state d) = (c, r)" by (cases "c_begin k g (component_state d)")
    show ?thesis
    proof (cases r)
      case (Inl e)
      with b idle have "c = component_state d" by (auto simp: idle_ok_def dest: spec [of _ g])
      with Inl b g True d show ?thesis by (simp add: settled_doc_def all_or_nothing_def)
    next
      case (Inr u)
      with b idle have c: "saved c = Some (component_state d)" by (auto simp: idle_ok_def dest: spec [of _ g])
      with True g b Inr show ?thesis using transact_begun [OF k d] by simp
    qed
  qed
qed

section \<open>A follower of the changes has the text\<close>

datatype 'u doc_request =
    R_Edit "'u doc_op" transact_options
  | R_Set "'u list" transact_options
  | R_Undo "js_text option"
  | R_Redo "js_text option"
  | R_Transact transact_options bool "'u callback_step list"
  | R_Update bytes
  | R_Snapshot bytes
  | R_Import bytes
  | R_Destroy

fun doc_step :: "('c, 'u) component \<Rightarrow> ('c, 'u) document \<Rightarrow> 'u doc_request \<Rightarrow> ('c, 'u) document" where
  "doc_step k d (R_Edit oper options) = fst (replaceRange k oper options d)"
| "doc_step k d (R_Set new options) = fst (setText k new options d)"
| "doc_step k d (R_Undo origin) = fst (doc_undo k origin d)"
| "doc_step k d (R_Redo origin) = fst (doc_redo k origin d)"
| "doc_step k d (R_Transact options promise steps) = fst (transact k options promise steps d)"
| "doc_step k d (R_Update bs) = fst (applyUpdate k bs d)"
| "doc_step k d (R_Snapshot bs) = fst (applySnapshot k bs d)"
| "doc_step k d (R_Import bs) = fst (doc_import k bs d)"
| "doc_step k d R_Destroy = doc_destroy d"

text \<open>A listener that applies the edits of every change to its own copy.\<close>

fun follow :: "'u list \<Rightarrow> 'u notification list \<Rightarrow> edit_error + 'u list" where
  "follow t [] = Inr t"
| "follow t (Change edits _ _ # ns) = (case applyTextEdits t edits of Inl e \<Rightarrow> Inl e | Inr t' \<Rightarrow> follow t' ns)"
| "follow t (n # ns) = follow t ns"

lemma follow_append: "follow t (ms @ ns) = (case follow t ms of Inl e \<Rightarrow> Inl e | Inr t' \<Rightarrow> follow t' ns)"
  by (induction t ms rule: follow.induct) (auto split: sum.splits)

lemma follow_batch: "change_ok t t' ch \<Longrightarrow> follow t (batch ch origin) = Inr t'"
  by (cases ch) (auto simp: change_ok_def batch_def split: if_splits)

definition mirrored :: "('c, 'u) component \<Rightarrow> ('c \<Rightarrow> 'c option) \<Rightarrow> 'u list \<Rightarrow> ('c, 'u) document \<Rightarrow> bool" where
  "mirrored k saved t d \<longleftrightarrow> settled_doc saved d \<and> follow t (notifications d) = Inr (c_text k (component_state d))"

lemma mirrored_local: "mirrored k saved t d \<Longrightarrow> all_or_nothing k saved origin d result \<Longrightarrow> mirrored k saved t (fst result)"
  by (cases result) (auto simp: mirrored_def settled_doc_def all_or_nothing_def follow_append follow_batch split: sum.splits)

lemma mirrored_remote:
  assumes "mirrored k saved t d" "remote_ok k saved (component_state d) (f (component_state d))"
  shows "mirrored k saved t (fst (remote_call f d))"
  using assms
  by (cases "f (component_state d)") (auto simp: mirrored_def settled_doc_def remote_ok_def remote_call_def Let_def follow_append
      emitReplicaChange_def emitChange_def split: sum.splits)

lemma doc_step_mirrored:
  assumes k: "component_contract k saved" and m: "mirrored k saved t d"
  shows "mirrored k saved t (doc_step k d request)"
proof -
  have idle: "idle_ok k saved (component_state d)" using assms by (simp add: component_contract_def mirrored_def settled_doc_def)
  then have l: "mirrored k saved t (fst (local_call f origin d))"
    if "f \<in> {c_undo k, c_redo k, c_replace k edit g}" for f origin edit g
    using that by (intro mirrored_local [OF m local_call_ok]) (auto simp: idle_ok_def)
  have u: "mirrored k saved t (fst (applyUpdate k bs d))" "mirrored k saved t (fst (applySnapshot k bs d))" for bs
    unfolding applyUpdate_def applySnapshot_def using idle by (auto intro!: mirrored_remote [OF m] simp: idle_ok_def)
  show ?thesis
  proof (cases request)
    case (R_Edit oper options)
    then show ?thesis using m l by (auto simp: replaceRange_def split: sum.splits)
  next
    case (R_Set new options)
    then show ?thesis using m l by (auto simp: setText_def split: sum.splits)
  next
    case (R_Transact options promise steps)
    then show ?thesis using mirrored_local [OF m transact_outer [OF k]] m by (simp add: mirrored_def del: transact.simps)
  next
    case (R_Import bs)
    then show ?thesis using m u by (auto simp: doc_import_def split: sum.splits artifact_kind.splits)
  next
    case R_Destroy
    then show ?thesis using m by (simp add: doc_destroy_def mirrored_def settled_doc_def)
  qed (use m l u in \<open>auto simp: doc_undo_def doc_redo_def\<close>)
qed

section \<open>A component that keeps the contract\<close>

type_synonym 'u plain_state = "'u list \<times> 'u list option"

definition plain_saved :: "'u plain_state \<Rightarrow> 'u plain_state option" where
  "plain_saved c = map_option (\<lambda>b. (b, None)) (snd c)"

definition plain_change :: "'u text_edit \<Rightarrow> 'u local_change option" where
  "plain_change e = Some \<lparr>lc_update = [1], lc_visibleChanged = True, lc_visibleEdits = [e]\<rparr>"

definition plain_replace :: "'u text_edit \<Rightarrow> nat option \<Rightarrow> 'u plain_state \<Rightarrow> 'u plain_state \<times> (doc_error + 'u local_change option)" where
  "plain_replace e g c =
     (case (applyTextEdits (fst c) [e], snd c) of
        (Inr t, None) \<Rightarrow> ((t, None), Inr (plain_change e))
      | (Inr t, Some b) \<Rightarrow> ((t, Some b), Inr None)
      | (Inl _, None) \<Rightarrow> (c, Inl (EsbtError 15))
      | (Inl _, Some b) \<Rightarrow> ((b, None), Inl (EsbtError 15)))"

definition plain_commit :: "'u plain_state \<Rightarrow> 'u plain_state \<times> (doc_error + 'u local_change option)" where
  "plain_commit c =
     (case snd c of
        None \<Rightarrow> (c, Inl (EsbtError 23))
      | Some b \<Rightarrow>
          let e = \<lparr>edit_from = 0, edit_to = int (length b), edit_insert = fst c\<rparr>
          in if edit_in_range e b then ((fst c, None), Inr (plain_change e)) else ((b, None), Inl (EsbtError 15)))"

definition plain_component :: "('u plain_state, 'u) component" where
  "plain_component = \<lparr>
     c_begin = (\<lambda>g c. if snd c = None then ((fst c, Some (fst c)), Inr ()) else (c, Inl (EsbtError 22))),
     c_commit = plain_commit,
     c_abort = (\<lambda>c. case snd c of None \<Rightarrow> c | Some b \<Rightarrow> (b, None)),
     c_replace = plain_replace,
     c_undo = (\<lambda>c. (c, Inr None)), c_redo = (\<lambda>c. (c, Inr None)),
     c_applyUpdate = (\<lambda>_ c. (c, Inr (False, []))), c_applySnapshot = (\<lambda>_ c. (c, Inr (False, []))),
     c_classify = (\<lambda>_. Inr Other_Artifact), c_text = fst\<rparr>"

lemma plain_contract: "component_contract plain_component plain_saved"
proof -
  have i: "idle_ok plain_component plain_saved (t, None)" for t :: "'u list"
    by (auto simp: idle_ok_def local_ok_def remote_ok_def plain_component_def plain_saved_def plain_replace_def plain_change_def change_ok_def
        split: sum.splits)
  have o: "open_ok plain_component plain_saved (b, None) (t, Some b)" for b t :: "'u list"
    by (auto simp: open_ok_def plain_component_def plain_saved_def plain_replace_def plain_commit_def plain_change_def change_ok_def Let_def
        replace_units_def split: sum.splits)
  show ?thesis
    unfolding component_contract_def
  proof (intro allI conjI impI)
    fix c b :: "'u plain_state"
    show "idle_ok plain_component plain_saved c" if "plain_saved c = None" using that i [of "fst c"] by (cases c) (simp add: plain_saved_def)
    show "open_ok plain_component plain_saved b c" if "plain_saved c = Some b"
      using that o by (cases c) (auto simp: plain_saved_def)
  qed
qed

section \<open>Properties\<close>

text \<open>
  C29. A transaction is all or nothing. For a component that keeps its contract, and whatever edits,
  nested transactions and exceptions the callback consists of: if \<open>transact\<close> throws, the document
  is exactly as it was and no listener was called; if it returns, the listeners were called once
  with the update, the edits and the origin of the outermost transaction, the edits lead from the
  text before to the text after, and no transaction is left open.
\<close>

theorem transact_atomic:
  assumes "component_contract k saved" and "settled_doc saved d"
  shows "case transact k options promise steps d of
      (d', Inl e) \<Rightarrow> d' = d
    | (d', Inr _) \<Rightarrow> \<exists>c ch. d' = d\<lparr>component_state := c, notifications := notifications d @ batch ch (t_origin options)\<rparr>
        \<and> saved c = None \<and> change_ok (c_text k (component_state d)) (c_text k c) ch"
  using transact_outer [OF assms] by (simp add: all_or_nothing_def del: transact.simps)

theorem transact_atomic_witness:
  "fst (transact plain_component \<lparr>t_origin = None, t_undoGroup = None\<rparr> False
      [Edit (Doc_Insert 0 ''x'') \<lparr>t_origin = None, t_undoGroup = None\<rparr>, Throw] (new_document (''ab'', None)))
    = new_document (''ab'', None)"
proof -
  let ?o = "\<lparr>t_origin = None, t_undoGroup = None\<rparr>"
  let ?d = "new_document (''ab'', None) :: (char plain_state, char) document"
  let ?r = "transact plain_component ?o False [Edit (Doc_Insert 0 ''x'') ?o, Throw] ?d"
  have "isl (snd ?r)"
    by (simp add: new_document_def assertLive_def normalizeUndoGroup_def plain_component_def replaceRange_def doc_replaceRange_def
        checkedIndex_def local_call_def plain_replace_def edit_in_range_def is_safe_integer_def consumeLocalChange_def)
  moreover have "settled_doc plain_saved ?d" by (simp add: settled_doc_def new_document_def plain_saved_def)
  ultimately show ?thesis
    using transact_atomic [OF plain_contract, of ?d ?o False "[Edit (Doc_Insert 0 ''x'') ?o, Throw]"]
    by (cases ?r) (auto simp del: transact.simps split: sum.splits)
qed

text \<open>
  A follower has the text. For a component that keeps its contract: after any sequence of
  edits, transactions, undos, updates, snapshots and imports, failed ones included, a listener
  that applied the edits of every change event to its copy of the first text has exactly the
  replica's text, and no transaction is open.
\<close>

theorem follower_has_text:
  assumes "component_contract k saved" and "saved c = None"
  shows "follow (c_text k c) (notifications (foldl (doc_step k) (new_document c) requests))
      = Inr (c_text k (component_state (foldl (doc_step k) (new_document c) requests)))
    \<and> transactionDepth (foldl (doc_step k) (new_document c) requests) = 0"
proof -
  have "mirrored k saved (c_text k c) (new_document c)"
    using assms(2) by (simp add: mirrored_def settled_doc_def new_document_def)
  then have "mirrored k saved (c_text k c) (foldl (doc_step k) (new_document c) requests)"
    by (induction requests rule: rev_induct) (simp_all add: doc_step_mirrored [OF assms(1)])
  then show ?thesis by (simp add: mirrored_def settled_doc_def)
qed

theorem follower_has_text_witness:
  "follow ''ab'' (notifications (foldl (doc_step plain_component) (new_document (''ab'', None))
      [R_Edit (Doc_Insert 1 ''x'') \<lparr>t_origin = None, t_undoGroup = None\<rparr>, R_Destroy]))
    = Inr (fst (component_state (foldl (doc_step plain_component) (new_document (''ab'', None))
        [R_Edit (Doc_Insert 1 ''x'') \<lparr>t_origin = None, t_undoGroup = None\<rparr>, R_Destroy])))"
  using follower_has_text [OF plain_contract, of "(''ab'', None)" "[R_Edit (Doc_Insert 1 ''x'') \<lparr>t_origin = None, t_undoGroup = None\<rparr>, R_Destroy]"]
  by (simp add: plain_saved_def plain_component_def)

end
