(* ===== verification/Wasm_Manifest.thy ===== *)
theory Wasm_Manifest
  imports Wire_Protocol
begin

text \<open>
  The provenance check of the Wasm component (\<open>client/src/collab/wasm/esbt-document.ts\<close>): which
  manifests \<open>isEsbtComponentManifest\<close> accepts, and that the loader of \<open>EsbtRuntime.load\<close> compiles
  only bytes that match the accepted manifest. SHA-256 and the network are arguments; regular
  expressions are written out as the scans they stand for.
\<close>

section \<open>Text patterns\<close>

definition is_digit_unit :: "16 word \<Rightarrow> bool" where
  "is_digit_unit c \<longleftrightarrow> 48 \<le> c \<and> c \<le> 57"

text \<open>\<open>/^[0-9a-f]{n}$/u\<close>\<close>

definition hex_text :: "nat \<Rightarrow> js_text \<Rightarrow> bool" where
  "hex_text n s \<longleftrightarrow> length s = n \<and> list_all is_hex_unit s"

text \<open>\<open>\d+\<close> followed by the text \<open>stop\<close>, which does not begin with a digit: what is left, if it matches.\<close>

definition digits_then :: "js_text \<Rightarrow> js_text \<Rightarrow> js_text option" where
  "digits_then stop s =
     (let ds = takeWhile is_digit_unit s; rest = dropWhile is_digit_unit s
      in if ds \<noteq> [] \<and> take (length stop) rest = stop then Some (drop (length stop) rest) else None)"

definition version_then :: "js_text \<Rightarrow> js_text \<Rightarrow> js_text option" where
  "version_then stop s =
     Option.bind (digits_then [46] s) (\<lambda>s. Option.bind (digits_then [46] s) (digits_then stop))"

definition after_prefix :: "js_text \<Rightarrow> js_text \<Rightarrow> js_text option" where
  "after_prefix p s = (if take (length p) s = p then Some (drop (length p) s) else None)"

text \<open>\<open>/^\/esbt\.core(?:[1-9][0-9]*)?\.wasm$/u\<close>\<close>

definition core_path :: "js_text \<Rightarrow> bool" where
  "core_path s \<longleftrightarrow>
     (case after_prefix (js ''/esbt.core'') s of
        None \<Rightarrow> False
      | Some rest \<Rightarrow>
          let ds = takeWhile is_digit_unit rest
          in (ds = [] \<or> hd ds \<noteq> 48) \<and> dropWhile is_digit_unit rest = js ''.wasm'')"

section \<open>Descriptors\<close>

definition MAX_COMPONENT_MODULE_BYTES :: int where "MAX_COMPONENT_MODULE_BYTES = 64 * 1024 * 1024"

record artifact_descriptor =
  a_path :: js_text
  a_bytes :: int
  a_sha256 :: js_text

definition validHash :: "json option \<Rightarrow> bool" where
  "validHash v \<longleftrightarrow> (case v of Some (JString s) \<Rightarrow> hex_text 64 s | _ \<Rightarrow> False)"

text \<open>The fields of a value that passed the test of its size and hash.\<close>

definition sized_descriptor :: "json \<Rightarrow> artifact_descriptor option" where
  "sized_descriptor v =
     (case v of
        JObject fs \<Rightarrow>
          (case (field fs ''path'', field fs ''bytes'', field fs ''sha256'') of
             (Some (JString p), Some (JInt n), Some (JString h)) \<Rightarrow>
               if is_safe_integer n \<and> n > 0 \<and> n \<le> MAX_COMPONENT_MODULE_BYTES \<and> hex_text 64 h
               then Some \<lparr>a_path = p, a_bytes = n, a_sha256 = h\<rparr> else None
           | _ \<Rightarrow> None)
      | _ \<Rightarrow> None)"

definition isArtifactDescriptor :: "json \<Rightarrow> artifact_descriptor option" where
  "isArtifactDescriptor v =
     (case sized_descriptor v of Some d \<Rightarrow> if take 1 (a_path d) = js ''/'' then Some d else None | None \<Rightarrow> None)"

definition isComponentDescriptor :: "json \<Rightarrow> bool" where
  "isComponentDescriptor v \<longleftrightarrow>
     (case isArtifactDescriptor v of Some d \<Rightarrow> a_path d = js ''/esbt.component.wasm'' | None \<Rightarrow> False)"

definition isCoreDescriptor :: "json \<Rightarrow> artifact_descriptor option" where
  "isCoreDescriptor v = (case isArtifactDescriptor v of Some d \<Rightarrow> if core_path (a_path d) then Some d else None | None \<Rightarrow> None)"

definition isWrapperDescriptor :: "json \<Rightarrow> bool" where
  "isWrapperDescriptor v \<longleftrightarrow>
     (case sized_descriptor v of Some d \<Rightarrow> a_path d = js ''client:collab/wasm/generated/esbt.js'' | None \<Rightarrow> False)"

definition core_modules :: "json option \<Rightarrow> artifact_descriptor list option" where
  "core_modules v =
     (case v of
        Some (JArray vs) \<Rightarrow>
          let ds = map isCoreDescriptor vs
          in if 0 < length vs \<and> length vs \<le> 16 \<and> list_all (\<lambda>d. d \<noteq> None) ds \<and> distinct (map (a_path \<circ> the) ds)
             then Some (map the ds) else None
      | _ \<Rightarrow> None)"

definition text_field :: "(js_text \<times> json) list \<Rightarrow> string \<Rightarrow> (js_text \<Rightarrow> bool) \<Rightarrow> bool" where
  "text_field fs name p \<longleftrightarrow> (case field fs name of Some (JString s) \<Rightarrow> p s | _ \<Rightarrow> False)"

text \<open>The accepted manifests, each with the descriptors of its core modules.\<close>

definition isEsbtComponentManifest :: "json \<Rightarrow> artifact_descriptor list option" where
  "isEsbtComponentManifest v =
     (case v of
        JObject fs \<Rightarrow>
          if text_field fs ''schema'' (\<lambda>s. s = js ''esbt.component-artifact'') \<and> field fs ''format'' = Some (JInt 1)
             \<and> text_field fs ''engine_revision'' (hex_text 40)
             \<and> (case field fs ''source_dirty'' of Some (JBool _) \<Rightarrow> True | _ \<Rightarrow> False)
             \<and> validHash (field fs ''source_sha256'') \<and> validHash (field fs ''profile_sha256'')
             \<and> text_field fs ''wit_package'' (\<lambda>s. s = js ''esbt:document@1.0.0'') \<and> validHash (field fs ''wit_sha256'')
             \<and> field fs ''wire_version'' = Some (JInt 1)
             \<and> text_field fs ''transpiler_package'' (\<lambda>s. s = js ''@bytecodealliance/jco-transpile'')
             \<and> text_field fs ''transpiler_version'' (\<lambda>s. version_then [] s = Some [])
             \<and> (case field fs ''component'' of Some d \<Rightarrow> isComponentDescriptor d | None \<Rightarrow> False)
             \<and> (case field fs ''wrapper'' of Some d \<Rightarrow> isWrapperDescriptor d | None \<Rightarrow> False)
             \<and> text_field fs ''compiler'' (\<lambda>s. Option.bind (after_prefix (js ''rustc '') s) (version_then [32]) \<noteq> None)
             \<and> text_field fs ''target'' (\<lambda>s. s = js ''wasm32-unknown-unknown'')
          then core_modules (field fs ''core_modules'') else None
      | _ \<Rightarrow> None)"

section \<open>Loading\<close>

datatype load_error = Bad_Descriptor | Length_Differs | Hash_Differs | Not_Declared | Fetch_Failed

definition verifyComponentArtifact :: "(bytes \<Rightarrow> js_text) \<Rightarrow> bytes \<Rightarrow> artifact_descriptor \<Rightarrow> load_error + unit" where
  "verifyComponentArtifact sha256 bs d =
     (if \<not> (take 1 (a_path d) = js ''/'' \<and> is_safe_integer (a_bytes d) \<and> a_bytes d > 0 \<and> a_bytes d \<le> MAX_COMPONENT_MODULE_BYTES
           \<and> hex_text 64 (a_sha256 d)) then Inl Bad_Descriptor
      else if int (length bs) \<noteq> a_bytes d then Inl Length_Differs
      else if sha256 bs \<noteq> a_sha256 d then Inl Hash_Differs
      else Inr ())"

text \<open>\<open>path.slice(path.lastIndexOf('/') + 1)\<close>\<close>

definition file_name :: "js_text \<Rightarrow> js_text" where
  "file_name path = rev (takeWhile (\<lambda>c. c \<noteq> 47) (rev path))"

text \<open>The \<open>Map\<close> by name keeps the last of several entries with one name.\<close>

definition byName :: "artifact_descriptor list \<Rightarrow> js_text \<Rightarrow> artifact_descriptor option" where
  "byName ds = map_of (rev (map (\<lambda>d. (file_name (a_path d), d)) ds))"

definition load_module :: "(bytes \<Rightarrow> js_text) \<Rightarrow> (js_text \<Rightarrow> bytes option) \<Rightarrow> artifact_descriptor list \<Rightarrow> js_text \<Rightarrow> load_error + bytes" where
  "load_module sha256 fetched ds name =
     (case byName ds name of
        None \<Rightarrow> Inl Not_Declared
      | Some d \<Rightarrow>
          (case fetched (a_path d) of
             None \<Rightarrow> Inl Fetch_Failed
           | Some bs \<Rightarrow> (case verifyComponentArtifact sha256 bs d of Inl e \<Rightarrow> Inl e | Inr _ \<Rightarrow> Inr bs)))"

section \<open>Only verified modules are compiled\<close>

lemma file_name_slash: "47 \<notin> set q \<Longrightarrow> file_name (p @ 47 # q) = q"
  by (simp add: file_name_def takeWhile_append)

lemma after_prefix_Some: "after_prefix p s = Some r \<Longrightarrow> s = p @ r"
  by (auto simp: after_prefix_def split: if_splits) (metis append_take_drop_id)

lemma core_path_slash:
  assumes "core_path p" shows "\<exists>q. p = 47 # q \<and> 47 \<notin> set q"
proof -
  from assms obtain rest where r: "p = js ''/esbt.core'' @ rest" "dropWhile is_digit_unit rest = js ''.wasm''"
    unfolding core_path_def Let_def by (auto simp del: js_simps dest!: after_prefix_Some split: option.splits)
  have "rest = takeWhile is_digit_unit rest @ js ''.wasm''" using r(2) takeWhile_dropWhile_id [of is_digit_unit rest] by simp
  moreover have "47 \<notin> set (takeWhile is_digit_unit rest)" by (auto dest!: set_takeWhileD simp: is_digit_unit_def)
  moreover have "js ''/esbt.core'' = 47 # js ''esbt.core''" "47 \<notin> set (js ''esbt.core'')" "47 \<notin> set (js ''.wasm'')"
    by (simp_all add: js_def u16_def)
  ultimately show ?thesis using r(1) by (metis Un_iff append_Cons set_append)
qed

lemma core_modules_ok:
  assumes "core_modules v = Some ds"
  shows "distinct (map a_path ds)" "d \<in> set ds \<Longrightarrow> core_path (a_path d) \<and> 0 < a_bytes d \<and> a_bytes d \<le> MAX_COMPONENT_MODULE_BYTES"
proof -
  from assms obtain vs where vs: "list_all (\<lambda>d. d \<noteq> None) (map isCoreDescriptor vs)" "distinct (map (a_path \<circ> the) (map isCoreDescriptor vs))"
      "ds = map the (map isCoreDescriptor vs)"
    by (auto simp: core_modules_def Let_def split: option.splits json.splits if_splits)
  then show "distinct (map a_path ds)" by (simp add: o_def)
  show "core_path (a_path d) \<and> 0 < a_bytes d \<and> a_bytes d \<le> MAX_COMPONENT_MODULE_BYTES" if "d \<in> set ds"
  proof -
    from that vs(3) obtain x where x: "x \<in> set vs" "d = the (isCoreDescriptor x)" by auto
    with vs(1) have "isCoreDescriptor x = Some d" by (auto simp: list_all_iff)
    then show ?thesis
      by (auto simp: isCoreDescriptor_def isArtifactDescriptor_def sized_descriptor_def split: option.splits json.splits if_splits)
  qed
qed

lemma byName_Some: "byName ds name = Some d \<Longrightarrow> d \<in> set ds \<and> file_name (a_path d) = name"
  by (auto simp: byName_def dest: map_of_SomeD)

text \<open>
  C32. Only verified modules are compiled. If the manifest is accepted and the loader returns the
  bytes of a module, then the manifest declares exactly one core module of that name, at most
  64 MiB long, the bytes were fetched from its path, and they have its length and its hash.
\<close>

theorem loaded_module_verified:
  assumes "isEsbtComponentManifest manifest = Some ds" and "load_module sha256 fetched ds name = Inr bs"
  shows "\<exists>d. {d \<in> set ds. file_name (a_path d) = name} = {d} \<and> core_path (a_path d) \<and> fetched (a_path d) = Some bs
    \<and> int (length bs) = a_bytes d \<and> a_bytes d \<le> MAX_COMPONENT_MODULE_BYTES \<and> sha256 bs = a_sha256 d"
proof -
  obtain v where v: "core_modules v = Some ds" using assms(1)
    by (auto simp: isEsbtComponentManifest_def split: json.splits if_splits)
  from assms(2) obtain d where d: "byName ds name = Some d" "fetched (a_path d) = Some bs" "verifyComponentArtifact sha256 bs d = Inr ()"
    by (auto simp: load_module_def split: option.splits sum.splits)
  note mem = byName_Some [OF d(1)]
  have "e = d" if e: "e \<in> set ds" "file_name (a_path e) = name" for e
  proof -
    obtain q r where "a_path e = 47 # q" "47 \<notin> set q" "a_path d = 47 # r" "47 \<notin> set r"
      using core_path_slash [of "a_path e"] core_path_slash [of "a_path d"] core_modules_ok(2) [OF v, of e] core_modules_ok(2) [OF v, of d]
        e(1) mem by blast
    with e mem have "a_path e = a_path d" using file_name_slash [of _ "[]"] by simp
    with core_modules_ok(1) [OF v] e mem show ?thesis by (auto simp: distinct_map inj_on_def)
  qed
  with mem have "{d \<in> set ds. file_name (a_path d) = name} = {d}" by auto
  moreover have "int (length bs) = a_bytes d" "sha256 bs = a_sha256 d"
    using d(3) by (simp_all add: verifyComponentArtifact_def split: if_splits)
  moreover have "core_path (a_path d)" "a_bytes d \<le> MAX_COMPONENT_MODULE_BYTES" using core_modules_ok(2) [OF v] mem by auto
  ultimately show ?thesis using d(2) by blast
qed

definition demo_descriptor :: "string \<Rightarrow> json" where
  "demo_descriptor path = JObject [(js ''path'', JString (js path)), (js ''bytes'', JInt 1), (js ''sha256'', JString (replicate 64 48))]"

definition demo_manifest :: json where
  "demo_manifest = JObject [(js ''schema'', JString (js ''esbt.component-artifact'')), (js ''format'', JInt 1),
     (js ''engine_revision'', JString (replicate 40 48)), (js ''source_dirty'', JBool False),
     (js ''source_sha256'', JString (replicate 64 48)), (js ''profile_sha256'', JString (replicate 64 48)),
     (js ''wit_package'', JString (js ''esbt:document@1.0.0'')), (js ''wit_sha256'', JString (replicate 64 48)),
     (js ''wire_version'', JInt 1), (js ''transpiler_package'', JString (js ''@bytecodealliance/jco-transpile'')),
     (js ''transpiler_version'', JString [49, 46, 50, 46, 51]), (js ''component'', demo_descriptor ''/esbt.component.wasm''),
     (js ''wrapper'', demo_descriptor ''client:collab/wasm/generated/esbt.js''), (js ''core_modules'', JArray [demo_descriptor ''/esbt.core.wasm'']),
     (js ''compiler'', JString (js ''rustc '' @ [49, 46, 50, 46, 51, 32])), (js ''target'', JString (js ''wasm32-unknown-unknown''))]"

lemma demo_core: "core_modules (Some (JArray [demo_descriptor ''/esbt.core.wasm''])) =
    Some [\<lparr>a_path = js ''/esbt.core.wasm'', a_bytes = 1, a_sha256 = replicate 64 48\<rparr>]"
  by (simp add: core_modules_def isCoreDescriptor_def isArtifactDescriptor_def sized_descriptor_def demo_descriptor_def field_def
      is_safe_integer_def MAX_COMPONENT_MODULE_BYTES_def hex_text_def is_hex_unit_def list_all_iff core_path_def after_prefix_def
      js_def u16_def is_digit_unit_def)

lemma demo_accepted: "isEsbtComponentManifest demo_manifest =
    Some [\<lparr>a_path = js ''/esbt.core.wasm'', a_bytes = 1, a_sha256 = replicate 64 48\<rparr>]"
  using demo_core
  by (simp add: isEsbtComponentManifest_def demo_manifest_def field_def text_field_def validHash_def hex_text_def is_hex_unit_def
      list_all_iff version_then_def digits_then_def is_digit_unit_def after_prefix_def isComponentDescriptor_def isWrapperDescriptor_def
      isArtifactDescriptor_def sized_descriptor_def demo_descriptor_def is_safe_integer_def MAX_COMPONENT_MODULE_BYTES_def)

theorem loaded_module_verified_witness:
  "load_module (\<lambda>_. replicate 64 48) (\<lambda>_. Some [7]) [\<lparr>a_path = js ''/esbt.core.wasm'', a_bytes = 1, a_sha256 = replicate 64 48\<rparr>]
      (js ''esbt.core.wasm'') = Inr [7]
   \<and> int (length [7 :: byte]) \<le> MAX_COMPONENT_MODULE_BYTES"
proof -
  let ?ds = "[\<lparr>a_path = js ''/esbt.core.wasm'', a_bytes = 1, a_sha256 = replicate 64 48\<rparr>] :: artifact_descriptor list"
  have l: "load_module (\<lambda>_. replicate 64 48) (\<lambda>_. Some [7]) ?ds (js ''esbt.core.wasm'') = Inr [7]"
    using file_name_slash [of "js ''esbt.core.wasm''" "[]"]
    by (simp add: load_module_def byName_def verifyComponentArtifact_def is_safe_integer_def MAX_COMPONENT_MODULE_BYTES_def
        hex_text_def is_hex_unit_def list_all_iff u16_def)
  obtain d :: artifact_descriptor where "int (length [7 :: byte]) = a_bytes d" "a_bytes d \<le> MAX_COMPONENT_MODULE_BYTES"
    using loaded_module_verified [OF demo_accepted l] by blast
  with l show ?thesis by simp
qed

end
