(* ===== verification/Command_Runtime.thy ===== *)
theory Command_Runtime
  imports Session_State
begin

text \<open>
  The command runtime: which commands a source may invoke in which state of the page
  (\<open>client/src/commands/projection.ts\<close>), and the life of one invocation from proposal over
  approval and execution to its receipt (\<open>client/src/commands/runtime.ts\<close>).

  Identifiers are fresh numbers. An \<open>await\<close> of the executor is a run in \<open>executing\<close>; a queued
  microtask is an identifier in \<open>microtasks\<close>. The log records what happened, in order.
\<close>

section \<open>Commands and the page\<close>

datatype command_source = Human | Keyboard | Palette | Agent | Bridge
datatype command_mode = Edit_Mode | Split_Mode | Preview_Mode
datatype pane = Editor_Pane | Preview_Pane
datatype shell = Phone | Studio | Desktop | Fold_Book | Fold_Laptop
datatype context_kind = Text_Kind | Heading_Kind | Image_Kind | Table_Kind | Shape_Kind | Code_Kind
datatype command_surface = Ribbon | Phone_Surface | Foldable | Mini | Palette_Surface | Quick_Access | Agent_Surface
datatype command_risk = Read_Risk | Write_Risk | External_Risk | Destructive_Risk
datatype workspace_kind = Local_Workspace | Scratch_Workspace | Session_Workspace
datatype command_capability = Edit_Capability | Comment_Capability | Save_Version_Capability | Manage_Shares_Capability
datatype parameter_type = String_Type | Number_Type | Boolean_Type

record command_schema =
  properties :: "(js_text \<times> parameter_type \<times> json list option) list"
  required :: "js_text list"

record command =
  command_id :: string
  surfaces :: "command_surface list"
  invocationSources :: "command_source list"
  command_modes :: "command_mode list option"
  command_contexts :: "context_kind list option"
  command_roles :: "role list option"
  workspaceKinds :: "workspace_kind list option"
  command_capability :: "command_capability option"
  requiresDocument :: bool
  requiresSelection :: bool
  hiddenWhenUnavailable :: bool
  command_risk :: command_risk
  parameters :: "command_schema option"

record environment =
  hasDocument :: bool
  env_hydrated :: bool
  env_capabilities :: "capabilities option"
  workspaceKind :: workspace_kind
  env_mode :: command_mode
  activePane :: pane
  env_shell :: shell
  env_context :: context_kind
  selectionLength :: nat
  voiceSupported :: bool

datatype unavailable = No_Document | Still_Opening | Wrong_Mode | Wrong_Context | Wrong_Workspace | No_Authority
  | Wrong_Role | No_Capability | No_Selection | No_Voice | No_Split

datatype ribbon_task = Compose | Inspect

definition ribbonTask :: "environment \<Rightarrow> ribbon_task" where
  "ribbonTask env =
     (if env_mode env = Preview_Mode then Inspect
      else if env_mode env = Edit_Mode then Compose
      else if env_shell env = Fold_Book \<or> env_shell env = Fold_Laptop then Compose
      else if activePane env = Preview_Pane then Inspect else Compose)"

definition invocationCommandMode :: "environment \<Rightarrow> command_source \<Rightarrow> command_mode" where
  "invocationCommandMode env source = (if source = Human \<and> ribbonTask env = Inspect then Preview_Mode else env_mode env)"

definition invocationContext :: "environment \<Rightarrow> command_source \<Rightarrow> context_kind" where
  "invocationContext env source = (if source = Human \<and> ribbonTask env = Inspect then Text_Kind else env_context env)"

definition isRibbonPresentationSurface :: "command_surface \<Rightarrow> bool" where
  "isRibbonPresentationSurface surface \<longleftrightarrow> surface = Ribbon \<or> surface = Phone_Surface \<or> surface = Foldable"

definition presentationCommandMode :: "environment \<Rightarrow> command_surface \<Rightarrow> command_mode" where
  "presentationCommandMode env surface =
     (if isRibbonPresentationSurface surface \<and> ribbonTask env = Inspect then Preview_Mode else env_mode env)"

definition presentationContext :: "environment \<Rightarrow> command_surface \<Rightarrow> context_kind" where
  "presentationContext env surface =
     (if isRibbonPresentationSurface surface \<and> ribbonTask env = Inspect then Text_Kind else env_context env)"

definition has_capability :: "command_capability \<Rightarrow> capabilities \<Rightarrow> bool" where
  "has_capability c caps =
     (case c of
        Edit_Capability \<Rightarrow> cap_edit caps
      | Comment_Capability \<Rightarrow> cap_comment caps
      | Save_Version_Capability \<Rightarrow> cap_saveVersion caps
      | Manage_Shares_Capability \<Rightarrow> cap_manageShares caps)"

text \<open>An optional list of allowed values.\<close>

definition allows :: "'a list option \<Rightarrow> 'a \<Rightarrow> bool" where
  "allows xs x \<longleftrightarrow> (case xs of None \<Rightarrow> True | Some ys \<Rightarrow> x \<in> set ys)"

text \<open>\<open>roles.includes(capabilities?.role)\<close>: a role that is still unknown is in no list.\<close>

definition allows_role :: "command \<Rightarrow> environment \<Rightarrow> bool" where
  "allows_role c env \<longleftrightarrow>
     (case command_roles c of
        None \<Rightarrow> True
      | Some rs \<Rightarrow> (case Option.bind (env_capabilities env) cap_role of None \<Rightarrow> False | Some r \<Rightarrow> r \<in> set rs))"

definition lacks_capability :: "command \<Rightarrow> environment \<Rightarrow> bool" where
  "lacks_capability c env \<longleftrightarrow>
     (case command_capability c of
        None \<Rightarrow> False
      | Some k \<Rightarrow> (case env_capabilities env of None \<Rightarrow> True | Some caps \<Rightarrow> \<not> has_capability k caps))"

record evaluated =
  ev_reason :: "unavailable option"
  contextualMismatch :: bool
  modalityMismatch :: bool
  identityMismatch :: bool

definition evaluateAvailability :: "command \<Rightarrow> environment \<Rightarrow> command_mode \<Rightarrow> context_kind \<Rightarrow> evaluated" where
  "evaluateAvailability c env m visibleContext =
     \<lparr>ev_reason =
        (if requiresDocument c \<and> \<not> hasDocument env then Some No_Document
         else if requiresDocument c \<and> \<not> env_hydrated env then Some Still_Opening
         else if \<not> allows (command_modes c) m then Some Wrong_Mode
         else if \<not> allows (command_contexts c) (env_context env) then Some Wrong_Context
         else if \<not> allows (workspaceKinds c) (workspaceKind env) then Some Wrong_Workspace
         else if command_roles c \<noteq> None \<and> Option.bind (env_capabilities env) cap_role = None then Some No_Authority
         else if \<not> allows_role c env then Some Wrong_Role
         else if lacks_capability c env then Some No_Capability
         else if requiresSelection c \<and> selectionLength env = 0 then Some No_Selection
         else if command_id c = ''input.dictate'' \<and> \<not> voiceSupported env then Some No_Voice
         else if command_id c = ''view.split'' \<and> env_shell env = Phone then Some No_Split
         else None),
      contextualMismatch = (\<not> allows (command_contexts c) visibleContext),
      modalityMismatch = (\<not> allows (command_modes c) m),
      identityMismatch = (\<not> allows (workspaceKinds c) (workspaceKind env) \<or> \<not> allows_role c env)\<rparr>"

record availability =
  av_visible :: bool
  av_enabled :: bool
  av_reason :: "unavailable option"

definition commandAvailability :: "command \<Rightarrow> environment \<Rightarrow> command_surface \<Rightarrow> availability" where
  "commandAvailability c env surface =
     (if surface \<notin> set (surfaces c) then \<lparr>av_visible = False, av_enabled = False, av_reason = None\<rparr>
      else
        let ev = evaluateAvailability c env (presentationCommandMode env surface) (presentationContext env surface)
        in \<lparr>av_visible =
              (if \<not> hiddenWhenUnavailable c \<or> ev_reason ev = None
               then surface \<notin> {Ribbon, Phone_Surface, Foldable, Mini}
                 \<or> \<not> contextualMismatch ev \<and> (surface = Phone_Surface \<or> \<not> modalityMismatch ev)
               else \<not> identityMismatch ev \<and> \<not> contextualMismatch ev \<and> \<not> modalityMismatch ev),
            av_enabled = (ev_reason ev = None), av_reason = ev_reason ev\<rparr>)"

definition commandInvocationAvailability :: "command \<Rightarrow> environment \<Rightarrow> command_source \<Rightarrow> availability" where
  "commandInvocationAvailability c env source =
     (if source \<notin> set (invocationSources c) then \<lparr>av_visible = False, av_enabled = False, av_reason = None\<rparr>
      else
        let ev = evaluateAvailability c env (invocationCommandMode env source) (invocationContext env source)
        in \<lparr>av_visible = True, av_enabled = (ev_reason ev = None), av_reason = ev_reason ev\<rparr>)"

section \<open>Arguments\<close>

datatype input_error = No_Arguments_Accepted | Unknown_Argument js_text | Missing_Argument js_text | Wrong_Type js_text | Outside_Enum js_text

definition has_type :: "json \<Rightarrow> parameter_type \<Rightarrow> bool" where
  "has_type v t \<longleftrightarrow>
     (case (v, t) of
        (JString _, String_Type) \<Rightarrow> True
      | (JInt _, Number_Type) \<Rightarrow> True
      | (JFraction, Number_Type) \<Rightarrow> True
      | (JBool _, Boolean_Type) \<Rightarrow> True
      | _ \<Rightarrow> False)"

definition argument_error :: "command_schema \<Rightarrow> js_text \<times> json \<Rightarrow> input_error option" where
  "argument_error schema kv =
     (case map_of (properties schema) (fst kv) of
        None \<Rightarrow> None
      | Some (t, allowed) \<Rightarrow>
          if \<not> has_type (snd kv) t then Some (Wrong_Type (fst kv))
          else if \<not> allows allowed (snd kv) then Some (Outside_Enum (fst kv))
          else None)"

text \<open>
  The three passes, each stopping at the first offender. A name that exists only on the prototype
  of the schema's object passes \<open>in\<close> there but has no type, so it is refused by the third pass;
  here it is refused as unknown.
\<close>

definition validateInput :: "command \<Rightarrow> (js_text \<times> json) list \<Rightarrow> input_error option" where
  "validateInput c input =
     (case parameters c of
        None \<Rightarrow> if input \<noteq> [] then Some No_Arguments_Accepted else None
      | Some schema \<Rightarrow>
          (case find (\<lambda>k. map_of (properties schema) k = None) (map fst input) of
             Some k \<Rightarrow> Some (Unknown_Argument k)
           | None \<Rightarrow>
               (case find (\<lambda>k. map_of input k = None) (required schema) of
                  Some k \<Rightarrow> Some (Missing_Argument k)
                | None \<Rightarrow> (case List.map_filter (argument_error schema) input of [] \<Rightarrow> None | e # _ \<Rightarrow> Some e))))"

section \<open>Runs\<close>

datatype run_status = Proposed | Awaiting_Approval | Running | Succeeded | Failed | Cancelled

record command_run =
  run_id :: nat
  run_command :: command
  run_source :: command_source
  run_status :: run_status
  run_input :: "(js_text \<times> json) list"

text \<open>
  What happened: a run was created (with its \<open>bypassApproval\<close>), a human approved it, its executor was
  called in an environment, its promise was resolved with a terminal status.
\<close>

datatype run_event =
    Created nat command command_source "(js_text \<times> json) list" bool
  | Approved nat
  | Executed nat command command_source "(js_text \<times> json) list" environment
  | Resolved_Run nat run_status

record runtime =
  pending :: "(nat \<times> command_run) list"
  shown_runs :: "command_run list"
  receipts :: "command_run list"
  microtasks :: "nat list"
  executing :: "nat list"
  next_run :: nat
  run_log :: "run_event list"

definition new_runtime :: runtime where
  "new_runtime = \<lparr>pending = [], shown_runs = [], receipts = [], microtasks = [], executing = [], next_run = 0, run_log = []\<rparr>"

definition log_run :: "run_event \<Rightarrow> runtime \<Rightarrow> runtime" where
  "log_run e r = r\<lparr>run_log := run_log r @ [e]\<rparr>"

text \<open>\<open>slice(-n)\<close>; \<open>slice(-0)\<close> is the whole array.\<close>

definition last_of :: "nat \<Rightarrow> 'a list \<Rightarrow> 'a list" where
  "last_of n xs = (if n = 0 then xs else drop (length xs - n) xs)"

definition update_run :: "nat \<Rightarrow> run_status \<Rightarrow> runtime \<Rightarrow> runtime" where
  "update_run i st r =
     (case map_of (pending r) i of
        None \<Rightarrow> r
      | Some run \<Rightarrow>
          let run = run\<lparr>run_status := st\<rparr>
          in r\<lparr>pending := AList.update i run (pending r), shown_runs := map (\<lambda>x. if run_id x = i then run else x) (shown_runs r)\<rparr>)"

definition finish :: "nat \<Rightarrow> nat \<Rightarrow> run_status \<Rightarrow> runtime \<Rightarrow> runtime" where
  "finish maxReceipts i st r =
     (case map_of (pending r) i of
        None \<Rightarrow> r
      | Some run \<Rightarrow>
          let receipt = run\<lparr>run_status := st\<rparr>
          in log_run (Resolved_Run i st)
               (r\<lparr>pending := AList.delete i (pending r), shown_runs := map (\<lambda>x. if run_id x = i then receipt else x) (shown_runs r),
                  receipts := last_of maxReceipts (receipts r @ [receipt])\<rparr>))"

definition needs_approval :: "command \<Rightarrow> command_source \<Rightarrow> bool \<Rightarrow> bool" where
  "needs_approval c source bypassApproval \<longleftrightarrow>
     (source = Agent \<or> source = Bridge) \<and> (command_risk c = External_Risk \<or> command_risk c = Destructive_Risk) \<and> \<not> bypassApproval"

definition create_run :: "nat \<Rightarrow> command \<Rightarrow> command_source \<Rightarrow> (js_text \<times> json) list \<Rightarrow> bool \<Rightarrow> environment \<Rightarrow> runtime \<Rightarrow> runtime" where
  "create_run maxReceipts c source input bypassApproval env r =
     (let enabled = av_enabled (commandInvocationAvailability c env source);
          bad = ((source = Agent \<or> source = Bridge) \<and> validateInput c input \<noteq> None);
          needs = needs_approval c source bypassApproval;
          i = next_run r;
          st = (if enabled \<and> \<not> bad then (if needs then Awaiting_Approval else Proposed) else Failed);
          run = \<lparr>run_id = i, run_command = c, run_source = source, run_status = st, run_input = input\<rparr>;
          r = log_run (Created i c source input bypassApproval)
                (r\<lparr>next_run := i + 1, pending := pending r @ [(i, run)], shown_runs := last_of 12 (shown_runs r @ [run])\<rparr>)
      in if st = Failed then finish maxReceipts i Failed r else r)"

definition start_run :: "nat \<Rightarrow> command \<Rightarrow> command_source \<Rightarrow> (js_text \<times> json) list \<Rightarrow> bool \<Rightarrow> environment \<Rightarrow> runtime \<Rightarrow> runtime" where
  "start_run maxReceipts c source input bypassApproval env r =
     (let i = next_run r; r = create_run maxReceipts c source input bypassApproval env r
      in case map_of (pending r) i of
           Some run \<Rightarrow> if run_status run = Proposed then r\<lparr>microtasks := microtasks r @ [i]\<rparr> else r
         | None \<Rightarrow> r)"

definition execute_run :: "nat \<Rightarrow> nat \<Rightarrow> environment \<Rightarrow> runtime \<Rightarrow> runtime" where
  "execute_run maxReceipts i env r =
     (case map_of (pending r) i of
        None \<Rightarrow> r
      | Some run \<Rightarrow>
          if run_status run \<noteq> Proposed then r
          else if \<not> av_enabled (commandInvocationAvailability (run_command run) env (run_source run)) then finish maxReceipts i Failed r
          else let r = log_run (Executed i (run_command run) (run_source run) (run_input run) env) (update_run i Running r) in r\<lparr>executing := executing r @ [i]\<rparr>)"

definition run_microtask :: "nat \<Rightarrow> environment \<Rightarrow> runtime \<Rightarrow> runtime" where
  "run_microtask maxReceipts env r =
     (case microtasks r of [] \<Rightarrow> r | i # is \<Rightarrow> execute_run maxReceipts i env (r\<lparr>microtasks := is\<rparr>))"

definition approve :: "nat \<Rightarrow> nat \<Rightarrow> environment \<Rightarrow> runtime \<Rightarrow> runtime" where
  "approve maxReceipts i env r =
     (case map_of (pending r) i of
        None \<Rightarrow> r
      | Some run \<Rightarrow>
          if run_status run \<noteq> Awaiting_Approval then r
          else execute_run maxReceipts i env (log_run (Approved i) (update_run i Proposed r)))"

definition cancel_run :: "nat \<Rightarrow> nat \<Rightarrow> runtime \<Rightarrow> runtime" where
  "cancel_run maxReceipts i r =
     (case map_of (pending r) i of
        None \<Rightarrow> r
      | Some run \<Rightarrow> if run_status run \<in> {Succeeded, Failed, Cancelled} then r else finish maxReceipts i Cancelled r)"

text \<open>
  The executor settles: it returned a result, or threw. A run is aborted exactly when it has been
  cancelled, that is, when it is no longer pending; then \<open>finish\<close> finds nothing.
\<close>

definition executor_settles :: "nat \<Rightarrow> nat \<Rightarrow> bool \<Rightarrow> runtime \<Rightarrow> runtime" where
  "executor_settles maxReceipts i ok r =
     (if i \<notin> set (executing r) then r
      else finish maxReceipts i (if ok then Succeeded else Failed) (r\<lparr>executing := remove1 i (executing r)\<rparr>))"

definition destroy_runtime :: "nat \<Rightarrow> runtime \<Rightarrow> runtime" where
  "destroy_runtime maxReceipts r = foldl (\<lambda>r i. finish maxReceipts i Cancelled r) r (map fst (pending r))"

datatype runtime_event =
    Start command command_source "(js_text \<times> json) list" bool environment
  | Microtask environment
  | Approve nat environment
  | Cancel nat
  | Settles nat bool
  | Destroy_Runtime

definition runtime_step :: "nat \<Rightarrow> runtime \<Rightarrow> runtime_event \<Rightarrow> runtime" where
  "runtime_step maxReceipts r e =
     (case e of
        Start c source input bypassApproval env \<Rightarrow> start_run maxReceipts c source input bypassApproval env r
      | Microtask env \<Rightarrow> run_microtask maxReceipts env r
      | Approve i env \<Rightarrow> approve maxReceipts i env r
      | Cancel i \<Rightarrow> cancel_run maxReceipts i r
      | Settles i ok \<Rightarrow> executor_settles maxReceipts i ok r
      | Destroy_Runtime \<Rightarrow> destroy_runtime maxReceipts r)"

section \<open>Correctness of the runtime\<close>

definition executed_ids :: "run_event list \<Rightarrow> nat list" where
  "executed_ids evs = List.map_filter (\<lambda>e. case e of Executed i _ _ _ _ \<Rightarrow> Some i | _ \<Rightarrow> None) evs"

definition resolved_ids :: "run_event list \<Rightarrow> nat list" where
  "resolved_ids evs = List.map_filter (\<lambda>e. case e of Resolved_Run i _ \<Rightarrow> Some i | _ \<Rightarrow> None) evs"

lemma log_ids [simp]:
  "executed_ids [] = []" "resolved_ids [] = []"
  "executed_ids (evs @ evs') = executed_ids evs @ executed_ids evs'"
  "resolved_ids (evs @ evs') = resolved_ids evs @ resolved_ids evs'"
  "executed_ids (Created i c s inp b # evs) = executed_ids evs" "executed_ids (Approved i # evs) = executed_ids evs"
  "executed_ids (Executed i c s inp env # evs) = i # executed_ids evs" "executed_ids (Resolved_Run i st # evs) = executed_ids evs"
  "resolved_ids (Created i c s inp b # evs) = resolved_ids evs" "resolved_ids (Approved i # evs) = resolved_ids evs"
  "resolved_ids (Executed i c s inp env # evs) = resolved_ids evs" "resolved_ids (Resolved_Run i st # evs) = i # resolved_ids evs"
  by (simp_all add: executed_ids_def resolved_ids_def List.map_filter_def)

text \<open>What must be so at the moment an executor is called: \<open>pre\<close> is the log up to that moment.\<close>

definition admitted :: "run_event list \<Rightarrow> run_event \<Rightarrow> bool" where
  "admitted pre e \<longleftrightarrow>
     (case e of
        Executed i c source input env \<Rightarrow>
          i \<notin> set (executed_ids pre) \<and> i \<notin> set (resolved_ids pre)
          \<and> av_enabled (commandInvocationAvailability c env source)
          \<and> (source \<in> {Agent, Bridge} \<longrightarrow> validateInput c input = None)
          \<and> (\<exists>b. Created i c source input b \<in> set pre \<and> (needs_approval c source b \<longrightarrow> Approved i \<in> set pre))
      | _ \<Rightarrow> True)"

definition admitted_log :: "run_event list \<Rightarrow> bool" where
  "admitted_log evs \<longleftrightarrow> (\<forall>pre e post. evs = pre @ e # post \<longrightarrow> admitted pre e)"

lemma admitted_log_Nil [simp]: "admitted_log []"
  by (simp add: admitted_log_def)

lemma admitted_log_snoc [simp]: "admitted_log (evs @ [e]) \<longleftrightarrow> admitted_log evs \<and> admitted evs e"
proof -
  have "evs @ [e] = pre @ x # post \<longleftrightarrow> (post = [] \<and> pre = evs \<and> x = e) \<or> (\<exists>post'. post = post' @ [e] \<and> evs = pre @ x # post')" for pre x post
    by (cases post rule: rev_cases) auto
  then show ?thesis by (auto simp: admitted_log_def)
qed

lemma admitted_simps [simp]:
  "admitted pre (Created i c s inp b)" "admitted pre (Approved i)" "admitted pre (Resolved_Run i st)"
  by (simp_all add: admitted_def)

text \<open>A pending run and what the log says of it.\<close>

definition run_ok :: "run_event list \<Rightarrow> nat \<Rightarrow> command_run \<Rightarrow> bool" where
  "run_ok evs i run \<longleftrightarrow>
     run_id run = i \<and> run_status run \<in> {Proposed, Awaiting_Approval, Running}
     \<and> (run_status run \<noteq> Running \<longrightarrow> i \<notin> set (executed_ids evs))
     \<and> (run_source run \<in> {Agent, Bridge} \<longrightarrow> validateInput (run_command run) (run_input run) = None)
     \<and> (\<exists>b. Created i (run_command run) (run_source run) (run_input run) b \<in> set evs
            \<and> (needs_approval (run_command run) (run_source run) b \<longrightarrow> run_status run = Awaiting_Approval \<or> Approved i \<in> set evs))"

definition runtime_inv :: "runtime \<Rightarrow> bool" where
  "runtime_inv r \<longleftrightarrow>
     distinct (map fst (pending r)) \<and> distinct (resolved_ids (run_log r)) \<and> distinct (executed_ids (run_log r))
     \<and> set (resolved_ids (run_log r)) \<inter> fst ` set (pending r) = {}
     \<and> set (resolved_ids (run_log r)) \<union> fst ` set (pending r) = {..<next_run r}
     \<and> set (executed_ids (run_log r)) \<subseteq> {..<next_run r}
     \<and> admitted_log (run_log r)
     \<and> (\<forall>i run. map_of (pending r) i = Some run \<longrightarrow> run_ok (run_log r) i run)"

text \<open>Nobody is forgotten: who decides next about a pending run.\<close>

definition attended :: "runtime \<Rightarrow> bool" where
  "attended r \<longleftrightarrow>
     (\<forall>i run. map_of (pending r) i = Some run \<longrightarrow>
        (run_status run = Proposed \<longrightarrow> i \<in> set (microtasks r)) \<and> (run_status run = Running \<longrightarrow> i \<in> set (executing r)))"

definition runtime_ok :: "runtime \<Rightarrow> bool" where
  "runtime_ok r \<longleftrightarrow> runtime_inv r \<and> attended r"

subsection \<open>Every operation keeps the invariant\<close>

lemma map_of_delete_Some: "map_of (AList.delete k xs) k' = Some v \<longleftrightarrow> k' \<noteq> k \<and> map_of xs k' = Some v"
  by (auto simp: delete_conv' split: if_splits)

lemma map_of_update_Some: "map_of (AList.update k v xs) k' = Some w \<longleftrightarrow> (if k' = k then w = v else map_of xs k' = Some w)"
  by (auto simp: update_conv')

lemma keys_delete: "fst ` set (AList.delete k xs) = fst ` set xs - {k}"
  using delete_keys [of k xs] by (metis list.set_map set_removeAll)

lemma keys_update: "fst ` set (AList.update k v xs) = insert k (fst ` set xs)"
  by (simp add: dom_update)

lemma finish_inv: "runtime_inv r \<Longrightarrow> runtime_inv (finish m i st r)"
proof (cases "map_of (pending r) i")
  case None
  assume "runtime_inv r"
  with None show ?thesis by (simp add: finish_def)
next
  case (Some run)
  assume inv: "runtime_inv r"
  have k: "i \<in> fst ` set (pending r)" using Some by (force dest: map_of_SomeD)
  have ok: "run_ok (run_log r @ [Resolved_Run i st]) j x" if "run_ok (run_log r) j x" for j x
    using that by (auto simp: run_ok_def)
  show ?thesis
    using inv Some k
    by (auto simp: finish_def Let_def log_run_def runtime_inv_def keys_delete map_of_delete_Some distinct_delete intro!: ok)
qed

lemma update_run_inv:
  assumes "runtime_inv r" "map_of (pending r) i = Some run" "run_ok (run_log r) i (run\<lparr>run_status := st\<rparr>)"
  shows "runtime_inv (update_run i st r)"
proof -
  have k: "i \<in> fst ` set (pending r)" using assms(2) by (force dest: map_of_SomeD)
  then have "insert i (fst ` set (pending r)) = fst ` set (pending r)" by auto
  then show ?thesis
    using assms by (auto simp: update_run_def Let_def runtime_inv_def keys_update map_of_update_Some distinct_update split: if_splits)
qed

lemma approved_inv: "runtime_inv r \<Longrightarrow> runtime_inv (log_run (Approved i) r)"
  by (fastforce simp: log_run_def runtime_inv_def run_ok_def)

lemma queues_inv [simp]:
  "runtime_inv (r\<lparr>microtasks := x\<rparr>) = runtime_inv r" "runtime_inv (r\<lparr>executing := y\<rparr>) = runtime_inv r"
  by (simp_all add: runtime_inv_def)

lemma executed_inv:
  assumes inv: "runtime_inv r" and run: "map_of (pending r) i = Some run" and fresh: "i \<notin> set (executed_ids (run_log r))"
    and st: "run_status run = Running" and ok: "run_ok (run_log r) i run"
    and allowed: "av_enabled (commandInvocationAvailability (run_command run) env (run_source run))"
  shows "runtime_inv (log_run (Executed i (run_command run) (run_source run) (run_input run) env) r)" (is "runtime_inv (log_run ?e r)")
proof -
  have k: "i \<in> fst ` set (pending r)" using run by (force dest: map_of_SomeD)
  then have lt: "i < next_run r" and unresolved: "i \<notin> set (resolved_ids (run_log r))"
    using inv unfolding runtime_inv_def by blast+
  have "admitted (run_log r) ?e"
    using ok st fresh allowed unresolved by (auto simp: admitted_def run_ok_def)
  moreover have "run_ok (run_log r @ [?e]) j x" if "map_of (pending r) j = Some x" for j x
  proof -
    have "run_ok (run_log r) j x" using inv that by (simp add: runtime_inv_def)
    then show ?thesis using that run st by (auto simp: run_ok_def)
  qed
  ultimately show ?thesis
    using inv fresh lt by (simp add: runtime_inv_def log_run_def)
qed

lemma execute_run_inv:
  assumes inv: "runtime_inv r"
  shows "runtime_inv (execute_run m i env r)"
proof (cases "map_of (pending r) i")
  case None
  then show ?thesis using inv by (simp add: execute_run_def)
next
  case (Some run)
  have ok: "run_ok (run_log r) i run" using inv Some by (simp add: runtime_inv_def)
  let ?run = "run\<lparr>run_status := Running\<rparr>"
  show ?thesis
  proof (cases "run_status run = Proposed \<and> av_enabled (commandInvocationAvailability (run_command run) env (run_source run))")
    case False
    then show ?thesis using inv Some by (auto simp: execute_run_def intro: finish_inv)
  next
    case True
    have ok': "run_ok (run_log r) i ?run" using ok True by (auto simp: run_ok_def)
    have u: "runtime_inv (update_run i Running r)" by (rule update_run_inv [OF inv Some ok'])
    have m: "map_of (pending (update_run i Running r)) i = Some ?run" "run_log (update_run i Running r) = run_log r"
      using Some by (simp_all add: update_run_def Let_def update_conv')
    have "i \<notin> set (executed_ids (run_log r))" using ok True by (simp add: run_ok_def)
    then have "runtime_inv (log_run (Executed i (run_command ?run) (run_source ?run) (run_input ?run) env) (update_run i Running r))"
      by (intro executed_inv [OF u m(1)]) (use True ok' m(2) in auto)
    then show ?thesis using Some True by (simp add: execute_run_def Let_def)
  qed
qed

lemma create_run_inv:
  assumes inv: "runtime_inv r"
  shows "runtime_inv (create_run m c source input b env r)"
proof -
  let ?bad = "source \<in> {Agent, Bridge} \<and> validateInput c input \<noteq> None"
  let ?on = "av_enabled (commandInvocationAvailability c env source)"
  let ?st = "if ?on \<and> \<not> ?bad then if needs_approval c source b then Awaiting_Approval else Proposed else Failed"
  let ?run = "\<lparr>run_id = next_run r, run_command = c, run_source = source, run_status = ?st, run_input = input\<rparr>"
  let ?e = "Created (next_run r) c source input b"
  have new: "next_run r \<notin> fst ` set (pending r)" "next_run r \<notin> set (resolved_ids (run_log r))"
    "next_run r \<notin> set (executed_ids (run_log r))"
    using inv unfolding runtime_inv_def by auto
  have old: "run_ok (run_log r @ [?e]) j x" if "run_ok (run_log r) j x" for j x
    using that by (auto simp: run_ok_def)
  show ?thesis
  proof (cases "?st = Failed")
    case True
    have none: "map_of (pending r) (next_run r) = None" using new(1) by (simp add: map_of_eq_None_iff)
    have del: "AList.delete (next_run r) (pending r @ [(next_run r, run)]) = pending r" for run
      using new(1) by (simp add: AList.delete_eq filter_id_conv) (force simp: filter_id_conv)
    let ?r = "create_run m c source input b env r"
    have r: "pending ?r = pending r" "run_log ?r = (run_log r @ [?e]) @ [Resolved_Run (next_run r) Failed]" "next_run ?r = Suc (next_run r)"
      using True by (simp_all add: create_run_def Let_def finish_def log_run_def map_add_def none del split: if_splits)
    have "run_ok ((run_log r @ [?e]) @ [Resolved_Run (next_run r) Failed]) j x" if "run_ok (run_log r) j x" for j x
      using that by (auto simp: run_ok_def)
    moreover have "admitted_log ((run_log r @ [?e]) @ [Resolved_Run (next_run r) Failed])"
      using inv by (simp add: runtime_inv_def del: append_assoc)
    ultimately show ?thesis
      using inv new unfolding runtime_inv_def r by auto
  next
    case False
    have this': "run_ok (run_log r @ [?e]) (next_run r) ?run"
      using False new by (auto simp: run_ok_def split: if_splits)
    have "runtime_inv (log_run ?e (r\<lparr>next_run := next_run r + 1, pending := pending r @ [(next_run r, ?run)], shown_runs := last_of 12 (shown_runs r @ [?run])\<rparr>))"
      using inv new old this'
      by (auto simp: runtime_inv_def log_run_def map_add_def split: option.splits if_splits)
    then show ?thesis using False by (simp add: create_run_def Let_def)
  qed
qed

lemma start_run_inv: "runtime_inv r \<Longrightarrow> runtime_inv (start_run m c source input b env r)"
  by (auto simp: start_run_def Let_def create_run_inv split: option.splits)

lemma approve_inv:
  assumes inv: "runtime_inv r"
  shows "runtime_inv (approve m i env r)"
proof (cases "\<exists>run. map_of (pending r) i = Some run \<and> run_status run = Awaiting_Approval")
  case False
  then show ?thesis using inv by (auto simp: approve_def split: option.splits)
next
  case True
  then obtain run where run: "map_of (pending r) i = Some run" "run_status run = Awaiting_Approval" by blast
  let ?r = "log_run (Approved i) r"
  have r: "runtime_inv ?r" by (rule approved_inv [OF inv])
  have p: "map_of (pending ?r) i = Some run" using run by (simp add: log_run_def)
  have "run_ok (run_log ?r) i run" using r p by (simp add: runtime_inv_def)
  then have "run_ok (run_log ?r) i (run\<lparr>run_status := Proposed\<rparr>)"
    using run by (auto simp: run_ok_def log_run_def)
  then have "runtime_inv (update_run i Proposed ?r)" by (rule update_run_inv [OF r p])
  moreover have "log_run (Approved i) (update_run i Proposed r) = update_run i Proposed ?r"
    using run by (simp add: log_run_def update_run_def Let_def)
  ultimately show ?thesis using run by (simp add: approve_def execute_run_inv)
qed

lemma destroy_runtime_inv: "runtime_inv r \<Longrightarrow> runtime_inv (destroy_runtime m r)"
  unfolding destroy_runtime_def
  by (rule event_machine.run_inv [where start = "\<lambda>_. False"]) (unfold_locales; simp add: finish_inv)

subsection \<open>No pending run is forgotten\<close>

definition attended_but :: "nat \<Rightarrow> runtime \<Rightarrow> bool" where
  "attended_but k r \<longleftrightarrow>
     (\<forall>i run. map_of (pending r) i = Some run \<longrightarrow>
        (run_status run = Proposed \<longrightarrow> i = k \<or> i \<in> set (microtasks r)) \<and> (run_status run = Running \<longrightarrow> i \<in> set (executing r)))"

lemma attended_but_finish: "attended_but k r \<Longrightarrow> attended_but k (finish m i st r)"
  by (auto simp: finish_def Let_def log_run_def attended_but_def map_of_delete_Some split: option.splits)

lemma finish_attended: "attended r \<Longrightarrow> attended (finish m i st r)"
  by (auto simp: finish_def Let_def log_run_def attended_def map_of_delete_Some split: option.splits)

lemma attended_butD: "attended_but i r \<Longrightarrow> (\<And>run. map_of (pending r) i = Some run \<Longrightarrow> run_status run \<noteq> Proposed) \<Longrightarrow> attended r"
  unfolding attended_but_def attended_def by metis

lemma execute_run_attended:
  assumes "attended_but i r"
  shows "attended (execute_run m i env r)"
proof (rule attended_butD [of i])
  show "attended_but i (execute_run m i env r)"
    using assms
    by (auto simp: execute_run_def update_run_def Let_def log_run_def intro!: attended_but_finish split: option.splits)
      (auto simp: attended_but_def map_of_update_Some split: if_splits)
  show "run_status run \<noteq> Proposed" if "map_of (pending (execute_run m i env r)) i = Some run" for run
    using that by (auto simp: execute_run_def finish_def update_run_def Let_def log_run_def map_of_delete_Some map_of_update_Some
        split: option.splits if_splits)
qed

lemma create_run_attended: "attended r \<Longrightarrow> attended_but (next_run r) (create_run m c source input b env r)"
proof -
  assume a: "attended r"
  have "attended_but (next_run r) (log_run e (r\<lparr>next_run := n, pending := pending r @ [(next_run r, run)], shown_runs := s\<rparr>))"
    if "run_status run \<noteq> Running" for e n run s
    using a that by (auto simp: attended_def attended_but_def log_run_def map_add_def split: option.splits if_splits)
  then show ?thesis by (simp add: create_run_def Let_def attended_but_finish)
qed

lemma start_run_attended: "attended r \<Longrightarrow> attended (start_run m c source input b env r)"
proof -
  assume "attended r"
  then have b: "attended_but (next_run r) (create_run m c source input b env r)" by (rule create_run_attended)
  let ?r = "create_run m c source input b env r"
  show ?thesis
  proof (cases "\<exists>run. map_of (pending ?r) (next_run r) = Some run \<and> run_status run = Proposed")
    case True
    then show ?thesis using b by (auto simp: start_run_def Let_def attended_def attended_but_def)
  next
    case False
    then show ?thesis using attended_butD [OF b] by (auto simp: start_run_def Let_def split: option.splits)
  qed
qed

lemma approve_attended: "attended r \<Longrightarrow> attended (approve m i env r)"
proof -
  assume a: "attended r"
  have "attended_but i (log_run (Approved i) (update_run i Proposed r))"
    using a by (auto simp: update_run_def Let_def log_run_def attended_def attended_but_def map_of_update_Some split: option.splits if_splits)
  then show ?thesis using a by (simp add: approve_def execute_run_attended split: option.splits)
qed

lemma settles_attended:
  assumes "attended r"
  shows "attended (executor_settles m i ok r)"
proof (cases "i \<in> fst ` set (pending r)")
  case True
  have "attended (finish m i st (r\<lparr>executing := remove1 i (executing r)\<rparr>))" for st
  proof -
    obtain run where "map_of (pending r) i = Some run" using True by (metis eq_fst_iff map_of_eq_None_iff not_None_eq image_iff)
    then show ?thesis
      using assms by (auto simp: finish_def Let_def log_run_def attended_def map_of_delete_Some in_set_remove1)
  qed
  then show ?thesis using assms by (simp add: executor_settles_def)
next
  case False
  then have "map_of (pending r) i = None" by (simp add: map_of_eq_None_iff)
  moreover have "j \<noteq> i" if "map_of (pending r) j = Some run" for j run
    using that calculation by auto
  ultimately show ?thesis
    using assms by (auto simp: executor_settles_def finish_def attended_def)
qed

lemma destroy_runtime_attended: "attended r \<Longrightarrow> attended (destroy_runtime m r)"
  unfolding destroy_runtime_def
  by (rule event_machine.run_inv [where start = "\<lambda>_. False"]) (unfold_locales; simp add: finish_attended)

lemma run_microtask_attended: "attended r \<Longrightarrow> attended (run_microtask m env r)"
proof (cases "microtasks r")
  case (Cons i rest)
  assume "attended r"
  then have "attended_but i (r\<lparr>microtasks := rest\<rparr>)" using Cons by (auto simp: attended_def attended_but_def)
  then show ?thesis using Cons by (simp add: run_microtask_def execute_run_attended)
qed (simp add: run_microtask_def)

lemma runtime_step_inv: "runtime_inv r \<Longrightarrow> runtime_inv (runtime_step m r e)"
  by (cases e) (auto simp: runtime_step_def start_run_inv approve_inv destroy_runtime_inv cancel_run_def run_microtask_def
      executor_settles_def finish_inv execute_run_inv split: option.splits list.splits)

lemma runtime_step_attended: "attended r \<Longrightarrow> attended (runtime_step m r e)"
  by (cases e) (simp_all add: runtime_step_def start_run_attended approve_attended run_microtask_attended
      settles_attended destroy_runtime_attended cancel_run_def finish_attended split: option.splits)

lemma runtime_step_ok: "runtime_ok r \<Longrightarrow> runtime_ok (runtime_step m r e)"
  by (simp add: runtime_ok_def runtime_step_inv runtime_step_attended)

lemma new_runtime_ok: "runtime_ok new_runtime"
  by (simp add: new_runtime_def runtime_ok_def runtime_inv_def attended_def)

interpretation runtime: event_machine "\<lambda>r. r = new_runtime" "runtime_step m" runtime_ok
  by unfold_locales (simp_all add: new_runtime_ok runtime_step_ok)

subsection \<open>Destroying the runtime\<close>

lemma finish_pending: "fst ` set (pending (finish m i st r)) = fst ` set (pending r) - {i} \<and> next_run (finish m i st r) = next_run r"
  by (auto simp: finish_def Let_def log_run_def keys_delete map_of_eq_None_iff split: option.splits)

lemma finish_all_pending:
  "fst ` set (pending (foldl (\<lambda>r i. finish m i st r) r ks)) = fst ` set (pending r) - set ks
   \<and> next_run (foldl (\<lambda>r i. finish m i st r) r ks) = next_run r"
  by (induction ks arbitrary: r) (auto simp: finish_pending)

lemma destroy_runtime_pending: "pending (destroy_runtime m r) = [] \<and> next_run (destroy_runtime m r) = next_run r"
  using finish_all_pending [of m Cancelled r "map fst (pending r)"] by (simp add: destroy_runtime_def)

lemma pending_attended:
  assumes ok: "runtime_ok r" and i: "(i, run) \<in> set (pending r)"
  shows "run_status run = Awaiting_Approval \<or> run_status run = Proposed \<and> i \<in> set (microtasks r)
    \<or> run_status run = Running \<and> i \<in> set (executing r)"
proof -
  have m: "map_of (pending r) i = Some run" using ok i by (simp add: runtime_ok_def runtime_inv_def)
  then have "run_ok (run_log r) i run" using ok by (simp add: runtime_ok_def runtime_inv_def)
  moreover have "run_status run = Proposed \<longrightarrow> i \<in> set (microtasks r)" "run_status run = Running \<longrightarrow> i \<in> set (executing r)"
    using ok m by (auto simp: runtime_ok_def attended_def simp del: map_of_eq_Some_iff)
  ultimately show ?thesis by (auto simp: run_ok_def)
qed

lemma runtime_reachable: "runtime_ok (foldl (runtime_step m) new_runtime es)"
  by (rule runtime.reachable_inv) simp

text \<open>Every creation and approval in the log is the call of \<open>start\<close> or \<open>approve\<close> that was made.\<close>

definition entry_of :: "runtime_event \<Rightarrow> run_event \<Rightarrow> bool" where
  "entry_of e x \<longleftrightarrow>
     (case x of
        Created i c source input b \<Rightarrow> \<exists>env. e = Start c source input b env
      | Approved i \<Rightarrow> \<exists>env. e = Approve i env
      | _ \<Rightarrow> True)"

definition only_outcomes :: "runtime \<Rightarrow> runtime \<Rightarrow> bool" where
  "only_outcomes r r' \<longleftrightarrow> (\<forall>x \<in> set (run_log r'). x \<in> set (run_log r) \<or> (\<forall>e. entry_of e x))"

lemma only_outcomes_refl [simp]: "only_outcomes r r"
  by (simp add: only_outcomes_def)

lemma only_outcomes_trans: "only_outcomes r r' \<Longrightarrow> only_outcomes r' r'' \<Longrightarrow> only_outcomes r r''"
  unfolding only_outcomes_def by blast

lemma update_run_log [simp]: "run_log (update_run i st r) = run_log r"
  by (simp add: update_run_def Let_def split: option.split)

lemma finish_outcomes: "only_outcomes r (finish m i st r)"
  by (auto simp: finish_def only_outcomes_def entry_of_def log_run_def Let_def split: option.split)

lemma finish_all_outcomes: "only_outcomes r (foldl (\<lambda>r i. finish m i st r) r ks)"
  by (induction ks rule: rev_induct) (auto intro: only_outcomes_trans finish_outcomes)

lemma execute_run_outcomes: "only_outcomes r (execute_run m i env r)"
  using finish_outcomes [of r m i Failed]
  by (auto simp: execute_run_def only_outcomes_def entry_of_def log_run_def Let_def split: option.split)

lemma step_log: "x \<in> set (run_log (runtime_step m r e)) \<Longrightarrow> x \<in> set (run_log r) \<or> entry_of e x"
proof (cases e)
  case (Start c source input b env)
  assume x: "x \<in> set (run_log (runtime_step m r e))"
  let ?log = "run_log r @ [Created (next_run r) c source input b]"
  have "run_log (start_run m c source input b env r) = run_log (create_run m c source input b env r)"
    by (simp add: start_run_def Let_def split: option.split)
  moreover have "set (run_log (create_run m c source input b env r)) \<subseteq> set ?log \<union> {x. \<forall>e. entry_of e x}"
  proof -
    have outcomes: "set (run_log (finish m j Failed q)) \<subseteq> set (run_log q) \<union> {x. \<forall>e. entry_of e x}" for j q
      using finish_outcomes [of q m j Failed] by (auto simp: only_outcomes_def)
    have "set (run_log (finish m j Failed q)) \<subseteq> set l \<union> {x. \<forall>e. entry_of e x}" if "run_log q = l" for j q l
      using outcomes [of j q] that by simp
    then show ?thesis by (simp add: create_run_def log_run_def Let_def del: set_append)
  qed
  moreover have "entry_of e (Created (next_run r) c source input b)" by (simp add: entry_of_def Start)
  ultimately show ?thesis using x Start by (auto simp: runtime_step_def)
next
  case (Microtask env)
  assume "x \<in> set (run_log (runtime_step m r e))"
  moreover have "only_outcomes r (run_microtask m env r)"
    using execute_run_outcomes by (fastforce simp: run_microtask_def only_outcomes_def split: list.split)
  ultimately show ?thesis using Microtask by (auto simp: runtime_step_def only_outcomes_def)
next
  case (Approve i env)
  assume "x \<in> set (run_log (runtime_step m r e))"
  moreover have "set (run_log (approve m i env r)) \<subseteq> set (run_log r) \<union> {Approved i} \<union> {x. \<forall>e. entry_of e x}"
  proof -
    let ?q = "log_run (Approved i) (update_run i Proposed r)"
    have "run_log ?q = run_log r @ [Approved i]" by (simp add: log_run_def)
    then have "set (run_log (execute_run m i env ?q)) \<subseteq> set (run_log r) \<union> {Approved i} \<union> {x. \<forall>e. entry_of e x}"
      using execute_run_outcomes [of ?q m i env] by (auto simp: only_outcomes_def)
    then show ?thesis by (auto simp: approve_def split: option.split)
  qed
  moreover have "entry_of e (Approved i)" by (simp add: entry_of_def Approve)
  ultimately show ?thesis using Approve by (auto simp: runtime_step_def)
next
  case (Cancel i)
  assume "x \<in> set (run_log (runtime_step m r e))"
  with Cancel finish_outcomes [of r m i Cancelled] show ?thesis
    by (auto simp: runtime_step_def cancel_run_def only_outcomes_def split: option.splits if_splits)
next
  case (Settles i ok)
  assume "x \<in> set (run_log (runtime_step m r e))"
  with Settles finish_outcomes [of "r\<lparr>executing := remove1 i (executing r)\<rparr>" m i] show ?thesis
    by (fastforce simp: runtime_step_def executor_settles_def only_outcomes_def split: if_splits)
next
  case Destroy_Runtime
  assume "x \<in> set (run_log (runtime_step m r e))"
  with Destroy_Runtime finish_all_outcomes [of r m Cancelled "map fst (pending r)"] show ?thesis
    by (auto simp: runtime_step_def destroy_runtime_def only_outcomes_def)
qed

lemma log_made:
  "x \<in> set (run_log (foldl (runtime_step m) r es)) \<Longrightarrow> x \<in> set (run_log r) \<or> (\<exists>e \<in> set es. entry_of e x)"
proof (induction es arbitrary: r)
  case (Cons e es)
  from Cons.IH [of "runtime_step m r e"] Cons.prems step_log [of x m r e] show ?case by auto
qed simp

section \<open>Properties\<close>

text \<open>
  C3. No dangerous agent command without approval. Whatever is invoked, approved, cancelled or
  answered in whatever order, the executor is called for a run at most once and never after the run
  was resolved; at that moment the command is available to its source in the state of the page, and
  the arguments are those of the invocation and, for an agent or the bridge, were validated. Before
  an external or destructive command of an agent or the bridge is executed, \<open>approve\<close> was called
  for that very run, with one exception the code provides for: the invocation itself was made with
  \<open>bypassApproval\<close> set (\<open>runtime.ts\<close> reads the flag; no caller in the repository sets it). An approval
  is a call of \<open>approve\<close>, which the agent panel's button and the command bridge make.
\<close>

theorem agent_effects_need_approval:
  assumes "run_log (foldl (runtime_step m) new_runtime es) = pre @ Executed i c source input env # post"
  shows "i \<notin> set (executed_ids pre) \<and> i \<notin> set (resolved_ids pre)
    \<and> av_enabled (commandInvocationAvailability c env source)
    \<and> (source \<in> {Agent, Bridge} \<longrightarrow> validateInput c input = None)
    \<and> (\<exists>bypass env'. Created i c source input bypass \<in> set pre \<and> Start c source input bypass env' \<in> set es
         \<and> (source \<in> {Agent, Bridge} \<and> command_risk c \<in> {External_Risk, Destructive_Risk} \<longrightarrow>
              Approved i \<in> set pre \<and> (\<exists>env'. Approve i env' \<in> set es) \<or> bypass))"
proof -
  have "admitted pre (Executed i c source input env)"
    using assms runtime_reachable [of m es] by (auto simp: runtime_ok_def runtime_inv_def admitted_log_def)
  then obtain b where b: "Created i c source input b \<in> set pre" "needs_approval c source b \<longrightarrow> Approved i \<in> set pre"
    and rest: "i \<notin> set (executed_ids pre) \<and> i \<notin> set (resolved_ids pre)
      \<and> av_enabled (commandInvocationAvailability c env source)
      \<and> (source \<in> {Agent, Bridge} \<longrightarrow> validateInput c input = None)"
    by (auto simp: admitted_def)
  have made: "x \<in> set pre \<Longrightarrow> \<exists>e \<in> set es. entry_of e x" for x
    using assms log_made [of x m new_runtime es] by (auto simp: new_runtime_def)
  from made [OF b(1)] obtain env' where "Start c source input b env' \<in> set es" by (auto simp: entry_of_def)
  moreover have "Approved i \<in> set pre \<Longrightarrow> \<exists>env'. Approve i env' \<in> set es"
    using made [of "Approved i"] by (auto simp: entry_of_def)
  moreover have "source \<in> {Agent, Bridge} \<and> command_risk c \<in> {External_Risk, Destructive_Risk} \<Longrightarrow> Approved i \<in> set pre \<or> b"
    using b(2) by (auto simp: needs_approval_def)
  ultimately show ?thesis using b(1) rest by blast
qed

text \<open>
  C19. Every invocation is answered exactly once. After any events, every run created so far has
  either been resolved, once, or is pending; a pending run waits for the human, is queued for
  execution or has its executor running; and destroying the runtime resolves all that is left.
\<close>

theorem run_resolved_once:
  "let r = foldl (runtime_step m) new_runtime es; done = set (resolved_ids (run_log r)); open = fst ` set (pending r)
   in distinct (resolved_ids (run_log r)) \<and> done \<union> open = {..<next_run r} \<and> done \<inter> open = {}
     \<and> set (pending r) \<subseteq> {(i, run). run_status run = Awaiting_Approval \<or> run_status run = Proposed \<and> i \<in> set (microtasks r)
                              \<or> run_status run = Running \<and> i \<in> set (executing r)}
     \<and> set (resolved_ids (run_log (destroy_runtime m r))) = {..<next_run r}"
proof -
  let ?r = "foldl (runtime_step m) new_runtime es"
  have ok: "runtime_ok ?r" by (rule runtime_reachable)
  have "runtime_inv (destroy_runtime m ?r)" using ok by (simp add: runtime_ok_def destroy_runtime_inv)
  then have "set (resolved_ids (run_log (destroy_runtime m ?r))) = {..<next_run ?r}"
    using destroy_runtime_pending [of m ?r] by (simp add: runtime_inv_def)
  moreover have "distinct (resolved_ids (run_log ?r))"
    "set (resolved_ids (run_log ?r)) \<union> fst ` set (pending ?r) = {..<next_run ?r}"
    "set (resolved_ids (run_log ?r)) \<inter> fst ` set (pending ?r) = {}"
    using ok by (simp_all add: runtime_ok_def runtime_inv_def)
  moreover have "set (pending ?r) \<subseteq> {(i, run). run_status run = Awaiting_Approval \<or> run_status run = Proposed \<and> i \<in> set (microtasks ?r)
                              \<or> run_status run = Running \<and> i \<in> set (executing ?r)}"
    using pending_attended [OF ok] by blast
  ultimately show ?thesis by (simp add: Let_def)
qed

definition page :: environment where
  "page = \<lparr>hasDocument = True, env_hydrated = True, env_capabilities = Some (role_capabilities (Some Owner)),
     workspaceKind = Session_Workspace, env_mode = Edit_Mode, activePane = Editor_Pane, env_shell = Desktop,
     env_context = Text_Kind, selectionLength = 0, voiceSupported = False\<rparr>"

definition delete_document :: command where
  "delete_document = \<lparr>command_id = ''document.delete'', surfaces = [Palette_Surface], invocationSources = [Human, Agent],
     command_modes = None, command_contexts = None, command_roles = Some [Owner], workspaceKinds = None,
     command_capability = None, requiresDocument = True, requiresSelection = False, hiddenWhenUnavailable = False,
     command_risk = Destructive_Risk, parameters = None\<rparr>"

theorem agent_effects_need_approval_witness:
  "Approved 0 \<in> set [Created 0 delete_document Agent [] False, Approved 0]
   \<and> run_log (foldl (runtime_step 40) new_runtime [Start delete_document Agent [] False page, Microtask page, Approve 0 page, Settles 0 True])
     = [Created 0 delete_document Agent [] False, Approved 0, Executed 0 delete_document Agent [] page, Resolved_Run 0 Succeeded]"
proof -
  have l: "run_log (foldl (runtime_step 40) new_runtime [Start delete_document Agent [] False page, Microtask page, Approve 0 page, Settles 0 True])
     = [Created 0 delete_document Agent [] False, Approved 0, Executed 0 delete_document Agent [] page, Resolved_Run 0 Succeeded]"
    by code_simp
  have "command_risk delete_document = Destructive_Risk" by (simp add: delete_document_def)
  then have "Approved 0 \<in> set [Created 0 delete_document Agent [] False, Approved 0]"
    using agent_effects_need_approval
      [where m = 40 and es = "[Start delete_document Agent [] False page, Microtask page, Approve 0 page, Settles 0 True]"
        and pre = "[Created 0 delete_document Agent [] False, Approved 0]" and i = 0 and c = delete_document and source = Agent
        and input = "[]" and env = page and post = "[Resolved_Run 0 Succeeded]"]
    by (simp add: l)
  then show ?thesis using l by simp
qed

end
