(* ===== verification/Agent_Execution.thy ===== *)
theory Agent_Execution
  imports Command_Runtime
begin

text \<open>
  The execution of an agent's plan (\<open>client/src/agent/execution.ts\<close>) on top of the command runtime:
  one step after the other, each waiting for the receipt of the one before, which may include the
  time a step waits for the approval of a human. A plan is a coroutine, so its state says where it
  is suspended; every event of the runtime may happen while it waits.
\<close>

section \<open>The plan\<close>

type_synonym agent_step = "command \<times> (js_text \<times> json) list"

text \<open>
  \<open>step_queue\<close> is what the \<open>for\<close> loop has still before it, \<open>plan_runs\<close> the runs it started, in
  order.
\<close>

record agent_run =
  step_queue :: "agent_step list"
  activeRunId :: "nat option"
  completed :: "(nat \<times> run_status) list"
  plan_runs :: "nat list"
  plan_begun :: bool
  plan_aborted :: bool
  plan_returned :: bool

record agent_world =
  rt :: runtime
  plan :: agent_run

definition new_world :: "agent_step list \<Rightarrow> agent_world" where
  "new_world steps =
     \<lparr>rt = new_runtime,
      plan = \<lparr>step_queue = steps, activeRunId = None, completed = [], plan_runs = [], plan_begun = False, plan_aborted = False, plan_returned = False\<rparr>\<rparr>"

text \<open>The value of the promise \<open>started.finished\<close>.\<close>

definition receipt_of :: "run_event list \<Rightarrow> nat \<Rightarrow> run_status option" where
  "receipt_of evs i = map_of (List.map_filter (\<lambda>e. case e of Resolved_Run j st \<Rightarrow> Some (j, st) | _ \<Rightarrow> None) evs) i"

text \<open>One turn of the loop, up to its \<open>await\<close>.\<close>

definition launch :: "nat \<Rightarrow> environment \<Rightarrow> agent_world \<Rightarrow> agent_world" where
  "launch maxReceipts env w =
     (case step_queue (plan w) of
        [] \<Rightarrow> w\<lparr>plan := (plan w)\<lparr>plan_returned := True\<rparr>\<rparr>
      | (c, input) # steps \<Rightarrow>
          if plan_aborted (plan w) then w\<lparr>plan := (plan w)\<lparr>plan_returned := True\<rparr>\<rparr>
          else
            let i = next_run (rt w)
            in w\<lparr>rt := start_run maxReceipts c Agent input False env (rt w),
                 plan := (plan w)\<lparr>step_queue := steps, activeRunId := Some i, plan_runs := plan_runs (plan w) @ [i]\<rparr>\<rparr>)"

definition executeAgentSteps :: "nat \<Rightarrow> environment \<Rightarrow> agent_world \<Rightarrow> agent_world" where
  "executeAgentSteps maxReceipts env w =
     (if plan_begun (plan w) then w else launch maxReceipts env (w\<lparr>plan := (plan w)\<lparr>plan_begun := True\<rparr>\<rparr>))"

text \<open>What follows the \<open>await\<close>, once the receipt is there.\<close>

definition plan_resumes :: "nat \<Rightarrow> environment \<Rightarrow> agent_world \<Rightarrow> agent_world" where
  "plan_resumes maxReceipts env w =
     (case activeRunId (plan w) of
        None \<Rightarrow> w
      | Some i \<Rightarrow>
          (case receipt_of (run_log (rt w)) i of
             None \<Rightarrow> w
           | Some st \<Rightarrow>
               let w = w\<lparr>plan := (plan w)\<lparr>completed := completed (plan w) @ [(i, st)], activeRunId := None\<rparr>\<rparr>
               in if st \<noteq> Succeeded then w\<lparr>plan := (plan w)\<lparr>plan_returned := True\<rparr>\<rparr> else launch maxReceipts env w))"

text \<open>The abort signal fires: the listener is gone once the plan has returned.\<close>

definition plan_abort :: "nat \<Rightarrow> agent_world \<Rightarrow> agent_world" where
  "plan_abort maxReceipts w =
     (let w' = w\<lparr>plan := (plan w)\<lparr>plan_aborted := True\<rparr>\<rparr>
      in if plan_begun (plan w) \<and> \<not> plan_returned (plan w)
         then (case activeRunId (plan w) of None \<Rightarrow> w' | Some i \<Rightarrow> w'\<lparr>rt := cancel_run maxReceipts i (rt w)\<rparr>)
         else w')"

datatype agent_event = Page_Event runtime_event | Plan_Begins environment | Plan_Resumes environment | Plan_Aborts

definition agent_step :: "nat \<Rightarrow> agent_world \<Rightarrow> agent_event \<Rightarrow> agent_world" where
  "agent_step maxReceipts w e =
     (case e of
        Page_Event e \<Rightarrow> w\<lparr>rt := runtime_step maxReceipts (rt w) e\<rparr>
      | Plan_Begins env \<Rightarrow> executeAgentSteps maxReceipts env w
      | Plan_Resumes env \<Rightarrow> plan_resumes maxReceipts env w
      | Plan_Aborts \<Rightarrow> plan_abort maxReceipts w)"

section \<open>The log of the runtime only grows\<close>

definition grows :: "runtime \<Rightarrow> runtime \<Rightarrow> bool" where
  "grows r r' \<longleftrightarrow>
     next_run r \<le> next_run r'
     \<and> (\<exists>ext. run_log r' = run_log r @ ext \<and> (\<forall>j c s inp b. Created j c s inp b \<in> set ext \<longrightarrow> next_run r \<le> j \<and> j < next_run r'))"

lemma grows_refl [simp]: "grows r r"
  by (simp add: grows_def)

lemma grows_trans: "grows r s \<Longrightarrow> grows s t \<Longrightarrow> grows r t"
  unfolding grows_def by (fastforce intro: le_trans less_le_trans)

lemma grows_same: "next_run r' = next_run r \<Longrightarrow> run_log r' = run_log r \<Longrightarrow> grows r r'"
  by (simp add: grows_def)

lemma grows_finish: "grows r (finish m i st r)"
  by (auto simp: finish_def Let_def log_run_def grows_def split: option.splits)

lemma grows_update_run: "grows r (update_run i st r)"
  by (auto simp: update_run_def Let_def intro!: grows_same split: option.splits)

lemma grows_log: "(\<And>j c s inp b. e \<noteq> Created j c s inp b) \<Longrightarrow> grows r (log_run e r)"
  by (simp add: grows_def log_run_def) metis

lemma grows_queues: "grows r (r\<lparr>microtasks := x\<rparr>)" "grows r (r\<lparr>executing := y\<rparr>)"
  by (simp_all add: grows_def)

lemma grows_execute_run: "grows r (execute_run m i env r)"
proof -
  have "grows r (log_run (Executed i c s inp env) (update_run i Running r))" for c s inp
    by (rule grows_trans [OF grows_update_run grows_log]) simp
  then show ?thesis
    by (auto simp: execute_run_def Let_def intro: grows_finish grows_trans [OF _ grows_queues(2)] split: option.splits)
qed

lemma create_run_log:
  "next_run (create_run m c s inp b env r) = Suc (next_run r)
   \<and> (\<exists>ext. run_log (create_run m c s inp b env r) = run_log r @ Created (next_run r) c s inp b # ext \<and> set ext \<subseteq> {Resolved_Run (next_run r) Failed})"
  by (auto simp: create_run_def Let_def log_run_def finish_def split: option.splits)

lemma start_run_log:
  "next_run (start_run m c s inp b env r) = Suc (next_run r)
   \<and> (\<exists>ext. run_log (start_run m c s inp b env r) = run_log r @ Created (next_run r) c s inp b # ext \<and> set ext \<subseteq> {Resolved_Run (next_run r) Failed})"
  using create_run_log [of m c s inp b env r] by (auto simp: start_run_def Let_def split: option.splits)

lemma grows_start_run: "grows r (start_run m c s inp b env r)"
  using start_run_log [of m c s inp b env r] by (auto simp: grows_def)

lemma grows_approve: "grows r (approve m i env r)"
proof -
  have "grows r (execute_run m i env (log_run (Approved i) (update_run i Proposed r)))"
    by (rule grows_trans [OF grows_trans [OF grows_update_run grows_log] grows_execute_run]) simp
  then show ?thesis by (simp add: approve_def split: option.splits)
qed

lemma grows_destroy: "grows r (destroy_runtime m r)"
proof -
  have "grows r (foldl (\<lambda>r i. finish m i Cancelled r) r ks)" for ks
    by (induction ks arbitrary: r) (auto intro: grows_trans [OF grows_finish])
  then show ?thesis by (simp add: destroy_runtime_def)
qed

lemma grows_step: "grows r (runtime_step m r e)"
  by (cases e) (auto simp: runtime_step_def grows_start_run grows_approve grows_destroy grows_finish cancel_run_def
      run_microtask_def executor_settles_def intro: grows_trans [OF grows_queues(1) grows_execute_run]
      grows_trans [OF grows_queues(2) grows_finish] split: option.splits list.splits)

interpretation runtime_log: monotone_machine "\<lambda>r. r = new_runtime" "runtime_step m" runtime_ok grows
  by unfold_locales (auto simp: grows_step intro: grows_trans)

section \<open>One step after the other\<close>

text \<open>When a run of the plan was created, every earlier run of the plan had succeeded.\<close>

definition in_order :: "nat list \<Rightarrow> run_event list \<Rightarrow> bool" where
  "in_order ks evs \<longleftrightarrow>
     (\<forall>pre j c s inp b post. evs = pre @ Created j c s inp b # post \<longrightarrow> j \<in> set ks \<longrightarrow>
        (\<forall>i\<in>set ks. i < j \<longrightarrow> Resolved_Run i Succeeded \<in> set pre))"

lemma in_order_append:
  assumes "in_order ks evs" "\<And>j c s inp b. Created j c s inp b \<in> set ext \<Longrightarrow> j \<notin> set ks"
  shows "in_order ks (evs @ ext)"
  unfolding in_order_def
proof (intro allI impI ballI)
  fix pre j c s inp b post i
  assume split: "evs @ ext = pre @ Created j c s inp b # post" and j: "j \<in> set ks" and i: "i \<in> set ks" "i < j"
  have "Created j c s inp b \<notin> set ext" using assms(2) j by blast
  then obtain post' where "evs = pre @ Created j c s inp b # post'"
    using split by (auto simp: append_eq_append_conv2 append_eq_Cons_conv Cons_eq_append_conv)
  then show "Resolved_Run i Succeeded \<in> set pre" using assms(1) i j unfolding in_order_def by blast
qed

lemma in_order_launch:
  assumes o: "in_order ks evs" and below: "\<And>j c s inp b. Created j c s inp b \<in> set evs \<Longrightarrow> j < n"
    and ok: "\<And>i. i \<in> set ks \<Longrightarrow> i < n \<and> Resolved_Run i Succeeded \<in> set evs"
    and ext: "set ext \<subseteq> {Resolved_Run n Failed}"
  shows "in_order (ks @ [n]) (evs @ Created n c s inp b # ext)"
  unfolding in_order_def
proof (intro allI impI ballI)
  fix pre j c' s' inp' b' post i
  assume split: "evs @ Created n c s inp b # ext = pre @ Created j c' s' inp' b' # post"
    and j: "j \<in> set (ks @ [n])" and i: "i \<in> set (ks @ [n])" "i < j"
  consider (old) post' where "evs = pre @ Created j c' s' inp' b' # post'" | (new) "pre = evs"
    using split ext by (fastforce simp: append_eq_append_conv2 append_eq_Cons_conv Cons_eq_append_conv)
  then show "Resolved_Run i Succeeded \<in> set pre"
  proof cases
    case old
    then have "j < n" using below [of j c' s' inp' b'] by simp
    then have "i \<in> set ks" "j \<in> set ks" using i j by auto
    then show ?thesis using o old i unfolding in_order_def by blast
  next
    case new
    then have "j = n" using split by simp
    then show ?thesis using new i ok by auto
  qed
qed

definition created_below :: "runtime \<Rightarrow> bool" where
  "created_below r \<longleftrightarrow> (\<forall>j c s inp b. Created j c s inp b \<in> set (run_log r) \<longrightarrow> j < next_run r)"

definition launched :: "run_event list \<Rightarrow> agent_step \<Rightarrow> nat \<Rightarrow> bool" where
  "launched evs step i \<longleftrightarrow> Created i (fst step) Agent (snd step) False \<in> set evs"

definition plan_ok :: "agent_step list \<Rightarrow> nat \<Rightarrow> run_event list \<Rightarrow> agent_run \<Rightarrow> bool" where
  "plan_ok steps n evs p \<longleftrightarrow>
     (let ks = plan_runs p
      in (\<forall>i\<in>set ks. i < n) \<and> sorted_wrt (<) ks
         \<and> map fst (completed p) @ (case activeRunId p of None \<Rightarrow> [] | Some i \<Rightarrow> [i]) = ks
         \<and> (\<forall>(i, st)\<in>set (completed p). Resolved_Run i st \<in> set evs)
         \<and> (plan_returned p \<longrightarrow> activeRunId p = None) \<and> (plan_returned p \<or> (\<forall>(i, st)\<in>set (completed p). st = Succeeded))
         \<and> length ks \<le> length steps \<and> step_queue p = drop (length ks) steps
         \<and> list_all2 (launched evs) (take (length ks) steps) ks
         \<and> in_order ks evs
         \<and> (plan_begun p \<or> ks = [] \<and> \<not> plan_returned p))"

definition agent_inv :: "agent_step list \<Rightarrow> agent_world \<Rightarrow> bool" where
  "agent_inv steps w \<longleftrightarrow> created_below (rt w) \<and> plan_ok steps (next_run (rt w)) (run_log (rt w)) (plan w)"

lemma created_below_grows: "grows r r' \<Longrightarrow> created_below r \<Longrightarrow> created_below r'"
  unfolding grows_def created_below_def by (fastforce dest: less_le_trans)

lemma plan_ok_grows:
  assumes g: "grows r r'" and ok: "plan_ok steps (next_run r) (run_log r) p"
  shows "plan_ok steps (next_run r') (run_log r') p"
proof -
  obtain ext where e: "run_log r' = run_log r @ ext" "\<And>j c s inp b. Created j c s inp b \<in> set ext \<Longrightarrow> next_run r \<le> j"
    and n: "next_run r \<le> next_run r'" using g unfolding grows_def by blast
  have "in_order (plan_runs p) (run_log r @ ext)"
    using ok e(2) by (intro in_order_append) (force simp: plan_ok_def Let_def)+
  moreover have "list_all2 (launched (run_log r @ ext)) (take (length (plan_runs p)) steps) (plan_runs p)"
    using ok by (auto simp: plan_ok_def Let_def launched_def elim!: list_all2_mono)
  moreover have "\<forall>i\<in>set (plan_runs p). i < next_run r'" using ok n by (auto simp: plan_ok_def Let_def intro: less_le_trans)
  ultimately show ?thesis
    using ok unfolding plan_ok_def Let_def e(1) by auto
qed

lemma agent_inv_runtime: "grows (rt w) r \<Longrightarrow> agent_inv steps w \<Longrightarrow> agent_inv steps (w\<lparr>rt := r\<rparr>)"
  by (simp add: agent_inv_def created_below_grows plan_ok_grows)

lemma receipt_of_log: "receipt_of evs i = Some st \<Longrightarrow> Resolved_Run i st \<in> set evs"
  by (induction evs) (auto simp: receipt_of_def map_filter_simps split: run_event.splits if_splits)

lemma launch_inv:
  assumes inv: "agent_inv steps w" and active: "activeRunId (plan w) = None" "\<not> plan_returned (plan w)" "plan_begun (plan w)"
  shows "agent_inv steps (launch m env w)"
proof -
  let ?p = "plan w" and ?ks = "plan_runs (plan w)" and ?evs = "run_log (rt w)" and ?n = "next_run (rt w)"
  have p: "plan_ok steps ?n ?evs ?p" and cb: "created_below (rt w)" using inv by (simp_all add: agent_inv_def)
  have returned: "agent_inv steps (w\<lparr>plan := ?p\<lparr>plan_returned := True\<rparr>\<rparr>)"
    using inv active by (simp add: agent_inv_def plan_ok_def Let_def)
  show ?thesis
  proof (cases "step_queue ?p = [] \<or> plan_aborted ?p")
    case True
    then show ?thesis using returned by (auto simp: launch_def split: list.splits)
  next
    case False
    then obtain c input rest where q: "step_queue ?p = (c, input) # rest" by (cases "step_queue ?p") auto
    let ?r = "start_run m c Agent input False env (rt w)"
    obtain ext where l: "run_log ?r = ?evs @ Created ?n c Agent input False # ext" "set ext \<subseteq> {Resolved_Run ?n Failed}"
      and n: "next_run ?r = Suc ?n" using start_run_log [of m c Agent input False env "rt w"] by blast
    have d: "drop (length ?ks) steps = (c, input) # rest" using p q by (simp add: plan_ok_def Let_def)
    then have len: "length ?ks < length steps" by (metis drop_all list.distinct(1) not_le)
    have t: "take (Suc (length ?ks)) steps = take (length ?ks) steps @ [(c, input)]" "drop (Suc (length ?ks)) steps = rest"
      using d len by (simp_all add: take_Suc_conv_app_nth nth_via_drop drop_Suc flip: tl_drop)
    have done_ok: "i < ?n \<and> Resolved_Run i Succeeded \<in> set ?evs" if "i \<in> set ?ks" for i
    proof -
      have "map fst (completed ?p) = ?ks" using p active by (simp add: plan_ok_def Let_def)
      then obtain st where "(i, st) \<in> set (completed ?p)" using \<open>i \<in> set ?ks\<close> by (metis (no_types) image_iff list.set_map prod.collapse)
      then have "Resolved_Run i st \<in> set ?evs" "st = Succeeded" using p active by (auto simp: plan_ok_def Let_def)
      then show ?thesis using p that by (simp add: plan_ok_def Let_def)
    qed
    have io: "in_order (?ks @ [?n]) (run_log ?r)"
      unfolding l(1)
    proof (rule in_order_launch [OF _ _ done_ok l(2)])
      show "in_order ?ks ?evs" using p by (simp add: plan_ok_def Let_def)
      show "j < ?n" if "Created j c' s inp b \<in> set ?evs" for j c' s inp b using cb that unfolding created_below_def by blast
    qed
    have la: "list_all2 (launched (run_log ?r)) (take (length ?ks) steps) ?ks"
      using p by (auto simp: plan_ok_def Let_def launched_def l(1) elim!: list_all2_mono)
    have below: "\<forall>i\<in>set (?ks @ [?n]). i < Suc ?n" "sorted_wrt (<) (?ks @ [?n])"
      using p done_ok by (auto simp: plan_ok_def Let_def sorted_wrt_append less_SucI)
    have all: "list_all2 (launched (run_log ?r)) (take (length (?ks @ [?n])) steps) (?ks @ [?n])"
      using la t(1) by (simp add: list_all2_appendI launched_def l(1))
    have compl: "map fst (completed ?p) = ?ks" "\<forall>(i, st)\<in>set (completed ?p). Resolved_Run i st \<in> set (run_log ?r)"
      "\<forall>(i, st)\<in>set (completed ?p). st = Succeeded"
      using p active by (auto simp: plan_ok_def Let_def l(1))
    have "plan_ok steps (next_run ?r) (run_log ?r)
        (?p\<lparr>step_queue := rest, activeRunId := Some ?n, plan_runs := ?ks @ [?n]\<rparr>)"
      unfolding plan_ok_def Let_def n
      using below all compl io active len t(2) by (simp del: set_append sorted_wrt_append set_simps ball_Un)
    then show ?thesis
      using False q cb grows_start_run [of "rt w" m c Agent input False env]
      by (simp add: launch_def Let_def agent_inv_def created_below_grows)
  qed
qed

lemma plan_resumes_inv:
  assumes inv: "agent_inv steps w"
  shows "agent_inv steps (plan_resumes m env w)"
proof (cases "\<exists>i st. activeRunId (plan w) = Some i \<and> receipt_of (run_log (rt w)) i = Some st")
  case False
  then show ?thesis using inv by (auto simp: plan_resumes_def split: option.splits)
next
  case True
  then obtain i st where a: "activeRunId (plan w) = Some i" "receipt_of (run_log (rt w)) i = Some st" by blast
  have r: "Resolved_Run i st \<in> set (run_log (rt w))"
    by (rule receipt_of_log [OF a(2)])
  let ?w = "w\<lparr>plan := (plan w)\<lparr>completed := completed (plan w) @ [(i, st)], activeRunId := None\<rparr>\<rparr>"
  have begun: "plan_begun (plan w)" "\<not> plan_returned (plan w)"
    using inv a by (auto simp: agent_inv_def plan_ok_def Let_def)
  show ?thesis
  proof (cases "st = Succeeded")
    case True
    then have "agent_inv steps ?w" using inv a r begun by (auto simp: agent_inv_def plan_ok_def Let_def)
    then show ?thesis using True a begun by (simp add: plan_resumes_def Let_def launch_inv)
  next
    case False
    then show ?thesis using inv a r begun by (auto simp: plan_resumes_def agent_inv_def plan_ok_def Let_def)
  qed
qed

lemma executeAgentSteps_inv: "agent_inv steps w \<Longrightarrow> agent_inv steps (executeAgentSteps m env w)"
proof (cases "plan_begun (plan w)")
  case False
  assume inv: "agent_inv steps w"
  have "agent_inv steps (w\<lparr>plan := (plan w)\<lparr>plan_begun := True\<rparr>\<rparr>)"
    using inv False by (auto simp: agent_inv_def plan_ok_def Let_def)
  then show ?thesis
    using False inv by (simp add: executeAgentSteps_def) (rule launch_inv; auto simp: agent_inv_def plan_ok_def Let_def split: option.splits)
qed (simp add: executeAgentSteps_def)

lemma plan_abort_inv: "agent_inv steps w \<Longrightarrow> agent_inv steps (plan_abort m w)"
proof -
  assume inv: "agent_inv steps w"
  have a: "agent_inv steps (w\<lparr>plan := (plan w)\<lparr>plan_aborted := True\<rparr>\<rparr>)"
    using inv by (simp add: agent_inv_def plan_ok_def Let_def)
  have "agent_inv steps (w\<lparr>plan := (plan w)\<lparr>plan_aborted := True\<rparr>, rt := cancel_run m i (rt w)\<rparr>)" for i
  proof -
    have "grows (rt w) (cancel_run m i (rt w))" using grows_step [of "rt w" m "Cancel i"] by (simp add: runtime_step_def)
    then show ?thesis using agent_inv_runtime [OF _ a] by simp
  qed
  then show ?thesis using a by (simp add: plan_abort_def Let_def split: option.splits)
qed

lemma agent_step_inv: "agent_inv steps w \<Longrightarrow> agent_inv steps (agent_step m w e)"
  by (cases e) (simp_all add: agent_step_def plan_resumes_inv executeAgentSteps_inv plan_abort_inv agent_inv_runtime grows_step)

lemma new_world_inv: "agent_inv steps (new_world steps)"
  by (simp add: agent_inv_def new_world_def new_runtime_def created_below_def plan_ok_def in_order_def)

interpretation agent: event_machine "\<lambda>w. w = new_world steps" "agent_step m" "agent_inv steps"
  by unfold_locales (simp_all add: new_world_inv agent_step_inv)

section \<open>Property\<close>

text \<open>
  The plan of an agent is executed in order. Whatever happens on the page meanwhile, the runs
  the plan started are those of its first steps, one for one and in order, invoked as the agent and
  without bypassing approval; and at the moment a step is started, every step before it has been
  resolved as succeeded.
\<close>

theorem agent_steps_in_order:
  fixes es m steps
  defines "w \<equiv> foldl (agent_step m) (new_world steps) es"
  assumes "k < length (plan_runs (plan w))" "l < k"
    and "run_log (rt w) = pre @ Created (plan_runs (plan w) ! k) c source input bypass # post"
  shows "list_all2 (launched (run_log (rt w))) (take (length (plan_runs (plan w))) steps) (plan_runs (plan w))
    \<and> Resolved_Run (plan_runs (plan w) ! l) Succeeded \<in> set pre"
proof -
  let ?ks = "plan_runs (plan w)"
  have inv: "agent_inv steps w" unfolding w_def by (rule agent.reachable_inv) simp
  then have "?ks ! l < ?ks ! k" "in_order ?ks (run_log (rt w))"
    using assms(2,3) by (auto simp: agent_inv_def plan_ok_def Let_def sorted_wrt_nth_less)
  then have "Resolved_Run (?ks ! l) Succeeded \<in> set pre"
    using assms(2-4) unfolding in_order_def by (meson less_trans nth_mem)
  then show ?thesis using inv by (simp add: agent_inv_def plan_ok_def Let_def)
qed

definition view_preview :: command where
  "view_preview = delete_document\<lparr>command_id := ''view.preview'', command_roles := None, command_risk := Read_Risk\<rparr>"

theorem agent_steps_in_order_witness:
  "let w = foldl (agent_step 40) (new_world [(delete_document, []), (view_preview, [])])
      [Plan_Begins page, Page_Event (Approve 0 page), Page_Event (Settles 0 True), Plan_Resumes page]
   in plan_runs (plan w) = [0, 1] \<and> Resolved_Run 0 Succeeded \<in> set (take 4 (run_log (rt w)))"
proof -
  let ?steps = "[(delete_document, []), (view_preview, [])]"
  let ?es = "[Plan_Begins page, Page_Event (Approve 0 page), Page_Event (Settles 0 True), Plan_Resumes page]"
  let ?w = "foldl (agent_step 40) (new_world ?steps) ?es"
  have r: "plan_runs (plan ?w) = [0, 1]" by code_simp
  have l: "run_log (rt ?w) = [Created 0 delete_document Agent [] False, Approved 0, Executed 0 delete_document Agent [] page,
      Resolved_Run 0 Succeeded] @ Created (plan_runs (plan ?w) ! 1) view_preview Agent [] False # []" by code_simp
  have "Resolved_Run (plan_runs (plan ?w) ! 0) Succeeded \<in> set [Created 0 delete_document Agent [] False, Approved 0,
      Executed 0 delete_document Agent [] page, Resolved_Run 0 Succeeded]"
    using agent_steps_in_order [where m = 40 and steps = ?steps and es = ?es and k = 1 and l = 0, OF _ _ l] r by simp
  then show ?thesis using r l by (simp add: Let_def)
qed

end
