(* ===== verification/Auth_Protocol.thy ===== *)
theory Auth_Protocol
  imports Presence_Codec
begin

text \<open>
  The authentication protocol of the client (\<open>client/src/auth/protocol.ts\<close>): the canonical
  encodings of what a device signs, base64url text, and the link that pairs two devices; and the
  loop that polls a pairing until it is settled (\<open>client/src/auth/pairing-poll.ts\<close>).
\<close>

section \<open>The canonical writer\<close>

datatype auth_error = Not_An_Identifier | Wrong_Byte_Length | Unknown_Capability_Bits | Out_Of_Range | Bad_Audience
  | Bad_Base64url | Bad_Fragment

text \<open>A call of one of the methods of \<open>CanonicalWriter\<close>, and the part it pushes.\<close>

datatype writer_call = W_raw bytes | W_u8 int | W_u32 int | W_u64 int | W_bytes bytes | W_text js_text

definition be_bytes :: "nat \<Rightarrow> nat \<Rightarrow> bytes" where
  "be_bytes n v = rev (le_bytes n v)"

definition w_uint :: "nat \<Rightarrow> int \<Rightarrow> auth_error + bytes" where
  "w_uint n v = (if v < 0 \<or> v \<ge> 256 ^ n then Inl Out_Of_Range else Inr (be_bytes n (nat v)))"

definition w_bytes :: "bytes \<Rightarrow> auth_error + bytes" where
  "w_bytes v = (case w_uint 4 (int (length v)) of Inl e \<Rightarrow> Inl e | Inr l \<Rightarrow> Inr (l @ v))"

fun write_call :: "writer_call \<Rightarrow> auth_error + bytes" where
  "write_call (W_raw v) = Inr v"
| "write_call (W_u8 v) = w_uint 1 v"
| "write_call (W_u32 v) = w_uint 4 v"
| "write_call (W_u64 v) = w_uint 8 v"
| "write_call (W_bytes v) = w_bytes v"
| "write_call (W_text s) = w_bytes (encode_text s)"

fun run_writer :: "writer_call list \<Rightarrow> auth_error + bytes" where
  "run_writer [] = Inr []"
| "run_writer (c # cs) =
     (case write_call c of
        Inl e \<Rightarrow> Inl e
      | Inr part \<Rightarrow> (case run_writer cs of Inl e \<Rightarrow> Inl e | Inr parts \<Rightarrow> Inr (part @ parts)))"

section \<open>Signed messages\<close>

definition opaque_unit :: "16 word \<Rightarrow> bool" where
  "opaque_unit c \<longleftrightarrow> 65 \<le> c \<and> c \<le> 90 \<or> 97 \<le> c \<and> c \<le> 122 \<or> 48 \<le> c \<and> c \<le> 57 \<or> c = 95 \<or> c = 45"

text \<open>\<open>OPAQUE_ID_PATTERN\<close>\<close>

definition opaque_id :: "js_text \<Rightarrow> bool" where
  "opaque_id s \<longleftrightarrow> 8 \<le> length s \<and> length s \<le> 128 \<and> list_all opaque_unit s"

definition ascii_bytes :: "string \<Rightarrow> bytes" where
  "ascii_bytes s = map (\<lambda>c. of_nat (of_char c)) s"

definition DEVICE_GRANT_DOMAIN :: bytes where
  "DEVICE_GRANT_DOMAIN = ascii_bytes ''marks-device-grant-v1'' @ [0]"

definition CONTROLLER_BOOTSTRAP_DOMAIN :: bytes where
  "CONTROLLER_BOOTSTRAP_DOMAIN = ascii_bytes ''marks-controller-bootstrap-v1'' @ [0]"

definition SELF_BOOTSTRAP_DOMAIN :: bytes where
  "SELF_BOOTSTRAP_DOMAIN = ascii_bytes ''marks-self-bootstrap-v1'' @ [0]"

definition DEVICE_SESSION_DOMAIN :: bytes where
  "DEVICE_SESSION_DOMAIN = ascii_bytes ''marks-device-session-v1'' @ [0]"

record device_grant =
  dg_version :: int
  dg_principalId :: js_text
  dg_controllerId :: js_text
  dg_controllerEpoch :: int
  dg_pairingId :: js_text
  dg_scratchId :: js_text
  dg_pendingDeviceId :: js_text
  dg_pendingDevicePublicKeyHash :: bytes
  dg_capabilities :: int
  dg_issuedAtMs :: int
  dg_expiresAtMs :: int

record controller_bootstrap =
  cb_version :: int
  cb_controllerId :: js_text
  cb_controllerDeviceId :: js_text
  cb_controllerPublicKeyHash :: bytes
  cb_pairingId :: js_text
  cb_scratchId :: js_text
  cb_pendingDeviceId :: js_text
  cb_pendingDevicePublicKeyHash :: bytes
  cb_issuedAtMs :: int
  cb_expiresAtMs :: int

record self_bootstrap =
  sb_version :: int
  sb_controllerId :: js_text
  sb_scratchId :: js_text
  sb_deviceId :: js_text
  sb_devicePublicKeyHash :: bytes
  sb_issuedAtMs :: int
  sb_expiresAtMs :: int

record device_session_proof =
  sp_version :: int
  sp_challengeId :: js_text
  sp_deviceId :: js_text
  sp_deviceKeyEpoch :: int
  sp_audience :: js_text
  sp_challenge :: bytes
  sp_issuedAtMs :: int
  sp_expiresAtMs :: int

definition assertId :: "js_text \<Rightarrow> auth_error option" where
  "assertId s = (if opaque_id s then None else Some Not_An_Identifier)"

definition assertBytes :: "bytes \<Rightarrow> nat \<Rightarrow> auth_error option" where
  "assertBytes v n = (if length v \<noteq> n then Some Wrong_Byte_Length else None)"

text \<open>\<open>~DEVICE_CAPABILITIES_CONTROLLER\<close> on the 32 bits of the number; the controller has the bits 0, 1 and 2.\<close>

definition assertCapabilities :: "int \<Rightarrow> auth_error option" where
  "assertCapabilities v =
     (if v < 0 \<or> and (word_of_int v :: 32 word) (not 7) \<noteq> 0 then Some Unknown_Capability_Bits else None)"

text \<open>The assertions of an encoder, in order; the first that fails is thrown.\<close>

fun after_checks :: "auth_error option list \<Rightarrow> writer_call list \<Rightarrow> auth_error + bytes" where
  "after_checks [] calls = run_writer calls"
| "after_checks (c # cs) calls = (case c of Some e \<Rightarrow> Inl e | None \<Rightarrow> after_checks cs calls)"

definition grant_calls :: "device_grant \<Rightarrow> writer_call list" where
  "grant_calls g =
     [W_raw DEVICE_GRANT_DOMAIN, W_u8 (dg_version g), W_text (dg_principalId g), W_text (dg_controllerId g),
        W_u64 (dg_controllerEpoch g), W_text (dg_pairingId g), W_text (dg_scratchId g), W_text (dg_pendingDeviceId g),
        W_bytes (dg_pendingDevicePublicKeyHash g), W_u32 (dg_capabilities g), W_u64 (dg_issuedAtMs g), W_u64 (dg_expiresAtMs g)]"

definition encodeDeviceGrant :: "device_grant \<Rightarrow> auth_error + bytes" where
  "encodeDeviceGrant g =
     after_checks
       [assertId (dg_principalId g), assertId (dg_controllerId g), assertId (dg_pairingId g), assertId (dg_scratchId g),
        assertId (dg_pendingDeviceId g), assertBytes (dg_pendingDevicePublicKeyHash g) 32, assertCapabilities (dg_capabilities g)]
       (grant_calls g)"

definition controller_calls :: "controller_bootstrap \<Rightarrow> writer_call list" where
  "controller_calls b =
     [W_raw CONTROLLER_BOOTSTRAP_DOMAIN, W_u8 (cb_version b), W_text (cb_controllerId b), W_text (cb_controllerDeviceId b),
        W_bytes (cb_controllerPublicKeyHash b), W_text (cb_pairingId b), W_text (cb_scratchId b), W_text (cb_pendingDeviceId b),
        W_bytes (cb_pendingDevicePublicKeyHash b), W_u64 (cb_issuedAtMs b), W_u64 (cb_expiresAtMs b)]"

definition encodeControllerBootstrap :: "controller_bootstrap \<Rightarrow> auth_error + bytes" where
  "encodeControllerBootstrap b =
     after_checks
       [assertId (cb_controllerId b), assertId (cb_controllerDeviceId b), assertId (cb_pairingId b), assertId (cb_scratchId b),
        assertId (cb_pendingDeviceId b), assertBytes (cb_controllerPublicKeyHash b) 32, assertBytes (cb_pendingDevicePublicKeyHash b) 32]
       (controller_calls b)"

definition self_calls :: "self_bootstrap \<Rightarrow> writer_call list" where
  "self_calls b =
     [W_raw SELF_BOOTSTRAP_DOMAIN, W_u8 (sb_version b), W_text (sb_controllerId b), W_text (sb_scratchId b), W_text (sb_deviceId b),
        W_bytes (sb_devicePublicKeyHash b), W_u64 (sb_issuedAtMs b), W_u64 (sb_expiresAtMs b)]"

definition encodeSelfBootstrap :: "self_bootstrap \<Rightarrow> auth_error + bytes" where
  "encodeSelfBootstrap b =
     after_checks
       [assertId (sb_controllerId b), assertId (sb_scratchId b), assertId (sb_deviceId b), assertBytes (sb_devicePublicKeyHash b) 32]
       (self_calls b)"

definition starts_with :: "'a list \<Rightarrow> 'a list \<Rightarrow> bool" where
  "starts_with p s \<longleftrightarrow> take (length p) s = p"

definition session_calls :: "device_session_proof \<Rightarrow> writer_call list" where
  "session_calls p =
     [W_raw DEVICE_SESSION_DOMAIN, W_u8 (sp_version p), W_text (sp_challengeId p), W_text (sp_deviceId p), W_u64 (sp_deviceKeyEpoch p),
        W_text (sp_audience p), W_bytes (sp_challenge p), W_u64 (sp_issuedAtMs p), W_u64 (sp_expiresAtMs p)]"

definition encodeDeviceSessionProof :: "device_session_proof \<Rightarrow> auth_error + bytes" where
  "encodeDeviceSessionProof p =
     after_checks
       [assertId (sp_challengeId p), assertId (sp_deviceId p), assertBytes (sp_challenge p) 32,
        if starts_with (js ''http://'') (sp_audience p) \<or> starts_with (js ''https://'') (sp_audience p) then None else Some Bad_Audience]
       (session_calls p)"

text \<open>Everything a device key signs.\<close>

datatype signed_message =
    Signed_Grant device_grant
  | Signed_Controller controller_bootstrap
  | Signed_Self self_bootstrap
  | Signed_Session device_session_proof

fun encode_signed :: "signed_message \<Rightarrow> auth_error + bytes" where
  "encode_signed (Signed_Grant g) = encodeDeviceGrant g"
| "encode_signed (Signed_Controller b) = encodeControllerBootstrap b"
| "encode_signed (Signed_Self b) = encodeSelfBootstrap b"
| "encode_signed (Signed_Session p) = encodeDeviceSessionProof p"

section \<open>Encodings are unambiguous\<close>

fun same_call :: "writer_call \<Rightarrow> writer_call \<Rightarrow> bool" where
  "same_call (W_u8 _) (W_u8 _) = True"
| "same_call (W_u32 _) (W_u32 _) = True"
| "same_call (W_u64 _) (W_u64 _) = True"
| "same_call (W_bytes _) (W_bytes _) = True"
| "same_call (W_text s) (W_text t) \<longleftrightarrow> well_formed_utf16 (map unat s) \<and> well_formed_utf16 (map unat t)"
| "same_call (W_raw v) (W_raw w) \<longleftrightarrow> v = w"
| "same_call _ _ = False"

lemma encode_text_inject:
  assumes "well_formed_utf16 (map unat s)" "well_formed_utf16 (map unat t)" "encode_text s = encode_text t"
  shows "s = t"
proof -
  have dec: "utf8_decode (map unat (encode_text u)) = Some (code_points (map unat u))" if "well_formed_utf16 (map unat u)" for u
  proof -
    have sc: "list_all scalar (code_points (map unat u))" using code_points_units [OF that] by simp
    then have "map unat (encode_text u) = concat (map utf8_bytes (code_points (map unat u)))"
      by (auto simp: encode_text_def list_all_iff intro!: map_idI unat_byte_of_nat utf8_bytes_lt)
    then show ?thesis using utf8_decode_all [OF sc] by simp
  qed
  have "code_points (map unat s) = code_points (map unat t)" using dec assms by (metis option.inject)
  then have "map unat s = map unat t" using code_points_units assms(1,2) by metis
  then have "map of_nat (map unat s) = (map of_nat (map unat t) :: js_text)" by simp
  then show ?thesis by (simp add: comp_def)
qed

lemma w_uint_inject:
  assumes "w_uint n v = Inr a" "w_uint n w = Inr b" "a @ r = b @ s"
  shows "v = w \<and> r = s"
proof -
  have v: "0 \<le> v" "v < 256 ^ n" "a = be_bytes n (nat v)" and w: "0 \<le> w" "w < 256 ^ n" "b = be_bytes n (nat w)"
    using assms(1,2) by (auto simp: w_uint_def split: if_splits)
  have "length a = length b" using v w by (simp add: be_bytes_def)
  then have eq: "a = b" "r = s" using assms(3) by simp_all
  have "le_value (rev a) = nat v" "le_value (rev b) = nat w"
    using v w by (simp_all add: be_bytes_def nat_less_iff)
  then show ?thesis using eq v w by simp
qed

lemma w_bytes_inject:
  assumes "w_bytes v = Inr a" "w_bytes w = Inr b" "a @ r = b @ s"
  shows "v = w \<and> r = s"
proof -
  obtain l k where l: "w_uint 4 (int (length v)) = Inr l" "a = l @ v" and k: "w_uint 4 (int (length w)) = Inr k" "b = k @ w"
    using assms(1,2) by (auto simp: w_bytes_def split: sum.splits)
  have "int (length v) = int (length w) \<and> v @ r = w @ s" using w_uint_inject [OF l(1) k(1)] assms(3) l k by simp
  then have "length v = length w" "v @ r = w @ s" by simp_all
  then show ?thesis by simp
qed

lemma write_call_inject:
  assumes "same_call c d" "write_call c = Inr a" "write_call d = Inr b" "a @ r = b @ s"
  shows "c = d \<and> r = s"
  using assms by (cases "(c, d)" rule: same_call.cases) (auto dest: w_uint_inject w_bytes_inject encode_text_inject)

lemma run_writer_Cons:
  "run_writer (c # cs) = Inr b \<longleftrightarrow> (\<exists>part parts. write_call c = Inr part \<and> run_writer cs = Inr parts \<and> b = part @ parts)"
  by (auto split: sum.splits)

lemma run_writer_inject:
  "list_all2 same_call cs ds \<Longrightarrow> run_writer cs = Inr b \<Longrightarrow> run_writer ds = Inr b \<Longrightarrow> cs = ds"
proof (induction arbitrary: b rule: list_all2_induct)
  case (Cons c cs d ds)
  from Cons.prems obtain p ps q qs where "write_call c = Inr p" "run_writer cs = Inr ps" "b = p @ ps"
    "write_call d = Inr q" "run_writer ds = Inr qs" "b = q @ qs" unfolding run_writer_Cons by blast
  then show ?case using write_call_inject [OF Cons.hyps(1)] Cons.IH by metis
qed simp

lemma opaque_ascii: "opaque_unit c \<Longrightarrow> unat c < 128"
proof -
  assume "opaque_unit c"
  then show ?thesis by (auto simp: opaque_unit_def word_le_nat_alt)
qed

lemma opaque_well_formed: "opaque_id s \<Longrightarrow> well_formed_utf16 (map unat s)"
proof -
  have "list_all opaque_unit s \<Longrightarrow> well_formed_utf16 (map unat s)" for s
    by (induction s) (auto dest!: opaque_ascii)
  then show "opaque_id s \<Longrightarrow> ?thesis" by (simp add: opaque_id_def)
qed

lemma after_checks_Inr: "after_checks cs calls = Inr b \<longleftrightarrow> list_all (\<lambda>c. c = None) cs \<and> run_writer calls = Inr b"
  by (induction cs) (auto split: option.splits)

lemma assertId_None: "assertId s = None \<longleftrightarrow> opaque_id s"
  by (simp add: assertId_def)

lemmas domains = DEVICE_GRANT_DOMAIN_def CONTROLLER_BOOTSTRAP_DOMAIN_def SELF_BOOTSTRAP_DOMAIN_def DEVICE_SESSION_DOMAIN_def ascii_bytes_def
lemmas encoders = encodeDeviceGrant_def encodeControllerBootstrap_def encodeSelfBootstrap_def encodeDeviceSessionProof_def
lemmas calls = grant_calls_def controller_calls_def self_calls_def session_calls_def

fun message_calls :: "signed_message \<Rightarrow> writer_call list" where
  "message_calls (Signed_Grant g) = grant_calls g"
| "message_calls (Signed_Controller b) = controller_calls b"
| "message_calls (Signed_Self b) = self_calls b"
| "message_calls (Signed_Session p) = session_calls p"

definition audience_ok :: "signed_message \<Rightarrow> bool" where
  "audience_ok m \<longleftrightarrow> (case m of Signed_Session p \<Rightarrow> well_formed_utf16 (map unat (sp_audience p)) | _ \<Rightarrow> True)"

definition texts_ok :: "writer_call list \<Rightarrow> bool" where
  "texts_ok cs \<longleftrightarrow> list_all (\<lambda>c. case c of W_text s \<Rightarrow> well_formed_utf16 (map unat s) | _ \<Rightarrow> True) cs"

lemma encode_signed_calls:
  assumes "encode_signed m = Inr b" "audience_ok m"
  shows "run_writer (message_calls m) = Inr b \<and> texts_ok (message_calls m)"
  using assms by (cases m) (auto simp: encoders after_checks_Inr assertId_None opaque_well_formed audience_ok_def texts_ok_def calls
      simp del: after_checks.simps run_writer.simps)

lemma message_calls_inject: "message_calls m = message_calls m' \<Longrightarrow> m = m'"
  by (cases m; cases m') (auto simp: calls domains)

lemma message_domains_differ:
  assumes "run_writer (message_calls m) = Inr b" "run_writer (message_calls m') = Inr b"
  shows "hd (message_calls m) = hd (message_calls m')"
proof -
  have "\<exists>d r. hd (message_calls k) = W_raw d \<and> b = d @ r" if "run_writer (message_calls k) = Inr b" for k
    using that by (cases k) (auto simp: calls split: sum.splits)
  then obtain d r d' r' where "hd (message_calls m) = W_raw d" "hd (message_calls m') = W_raw d'" "b = d @ r" "b = d' @ r'"
    using assms by metis
  then show ?thesis by (cases m; cases m') (auto simp: calls domains)
qed

lemma message_same_calls:
  "hd (message_calls m) = hd (message_calls m') \<Longrightarrow> texts_ok (message_calls m) \<Longrightarrow> texts_ok (message_calls m')
   \<Longrightarrow> list_all2 same_call (message_calls m) (message_calls m')"
  by (cases m; cases m') (simp_all add: calls domains texts_ok_def)

text \<open>
  C15. What a device signs is unambiguous. Two messages of any of the four kinds that have the same
  canonical encoding are the same message: no bytes signed as one kind can be presented as another,
  and nothing of one field can be read as part of its neighbour. The audience of a session proof is
  taken to be well-formed UTF-16, since the encoder replaces lone surrogates.
\<close>

theorem signed_messages_unambiguous:
  assumes "encode_signed m = Inr b" "encode_signed m' = Inr b" "audience_ok m" "audience_ok m'"
  shows "m = m'"
proof -
  have m: "run_writer (message_calls m) = Inr b" "texts_ok (message_calls m)"
    and m': "run_writer (message_calls m') = Inr b" "texts_ok (message_calls m')"
    using encode_signed_calls assms by blast+
  then have "list_all2 same_call (message_calls m) (message_calls m')"
    by (intro message_same_calls message_domains_differ)
  then show ?thesis using run_writer_inject m(1) m'(1) message_calls_inject by blast
qed

text \<open>The encoders succeed on well-formed values.\<close>

lemma length_encode_opaque: "list_all opaque_unit s \<Longrightarrow> length (encode_text s) = length s"
proof -
  have "list_all opaque_unit s \<Longrightarrow> code_points (map unat s) = map unat s \<and> length (concat (map utf8_bytes (map unat s))) = length s" for s
    by (induction s) (auto dest!: opaque_ascii simp: utf8_bytes_def)
  then show "list_all opaque_unit s \<Longrightarrow> ?thesis" by (simp add: encode_text_def)
qed

lemma write_id: "opaque_id s \<Longrightarrow> \<exists>b. write_call (W_text s) = Inr b"
  by (auto simp: opaque_id_def w_bytes_def w_uint_def length_encode_opaque)

lemma encodeSelfBootstrap_total:
  assumes "opaque_id (sb_controllerId b)" "opaque_id (sb_scratchId b)" "opaque_id (sb_deviceId b)" "length (sb_devicePublicKeyHash b) = 32"
    and "sb_version b = 1" "0 \<le> sb_issuedAtMs b" "sb_issuedAtMs b < 2 ^ 64" "0 \<le> sb_expiresAtMs b" "sb_expiresAtMs b < 2 ^ 64"
  shows "\<exists>bs. encodeSelfBootstrap b = Inr bs"
  using write_id [OF assms(1)] write_id [OF assms(2)] write_id [OF assms(3)] assms
  by (auto simp: encodeSelfBootstrap_def self_calls_def assertId_def assertBytes_def w_uint_def w_bytes_def)

definition demo_self :: self_bootstrap where
  "demo_self = \<lparr>sb_version = 1, sb_controllerId = js ''controller'', sb_scratchId = js ''scratch_1'', sb_deviceId = js ''device_1'',
     sb_devicePublicKeyHash = replicate 32 7, sb_issuedAtMs = 1000, sb_expiresAtMs = 2000\<rparr>"

theorem signed_messages_unambiguous_witness:
  "\<exists>b. encode_signed (Signed_Self demo_self) = Inr b
    \<and> encode_signed (Signed_Self (demo_self\<lparr>sb_scratchId := js ''scratch_2''\<rparr>)) \<noteq> Inr b"
proof -
  let ?m = "Signed_Self demo_self" and ?n = "Signed_Self (demo_self\<lparr>sb_scratchId := js ''scratch_2''\<rparr>)"
  have "opaque_id (js ''controller'')" "opaque_id (js ''scratch_1'')" "opaque_id (js ''device_1'')" by code_simp+
  then obtain b where b: "encode_signed ?m = Inr b"
    using encodeSelfBootstrap_total [of demo_self] by (auto simp: demo_self_def)
  have "?m \<noteq> ?n" by (simp add: demo_self_def)
  then have "encode_signed ?n \<noteq> Inr b"
    using signed_messages_unambiguous [OF b, of ?n] by (auto simp: audience_ok_def)
  then show ?thesis using b by blast
qed

section \<open>Base64url and the pairing link\<close>

definition encodeBase64Url :: "bytes \<Rightarrow> js_text" where
  "encodeBase64Url v = rev (dropWhile (\<lambda>c. c = 61) (rev (map to_url (btoa (map unat v)))))"

definition decodeBase64Url :: "js_text \<Rightarrow> auth_error + bytes" where
  "decodeBase64Url s =
     (if \<not> list_all is_base64url_unit s then Inl Bad_Base64url
      else case atob (map from_url s @ replicate ((4 - length s mod 4) mod 4) 61) of
             None \<Rightarrow> Inl Bad_Base64url
           | Some binary \<Rightarrow> Inr (map of_nat binary))"

lemma decode_encodeBase64Url: "decodeBase64Url (encodeBase64Url v) = Inr v"
proof -
  have e: "encodeBase64Url v = map to_url (b64_body v)"
    using toBase64Url_body [of v] by (simp only: encodeBase64Url_def toBase64Url_def)
  have std: "map from_url (map to_url (b64_body v)) = b64_body v"
    using body_units [of _ v] b64_unit_url(1) by (auto simp: comp_def intro!: map_idI)
  have units: "list_all is_base64url_unit (map to_url (b64_body v))"
    using body_units [of _ v] b64_unit_url(3) by (auto simp: list_all_iff)
  have "atob (map from_url (map to_url (b64_body v)) @ replicate ((4 - length (map to_url (b64_body v)) mod 4) mod 4) 61) = Some (map unat v)"
    using atob_body [of v] by (simp only: std length_map)
  then show ?thesis using units by (simp add: decodeBase64Url_def e comp_def)
qed

definition pairingFragment :: "js_text \<Rightarrow> bytes \<Rightarrow> auth_error + js_text" where
  "pairingFragment pairingId secret =
     (case assertId pairingId of
        Some e \<Rightarrow> Inl e
      | None \<Rightarrow>
          (case assertBytes secret 32 of
             Some e \<Rightarrow> Inl e
           | None \<Rightarrow> Inr (js ''#v1.'' @ pairingId @ [u16 CHR ''.''] @ encodeBase64Url secret)))"

text \<open>
  The pattern has no dot in its two groups, so it matches exactly the text \<open>#v1.\<close> followed by two
  pieces between dots that fit the groups.
\<close>

definition parsePairingFragment :: "js_text \<Rightarrow> auth_error + js_text \<times> bytes" where
  "parsePairingFragment f =
     (if \<not> starts_with (js ''#v1.'') f then Inl Bad_Fragment
      else case js_split (u16 CHR ''.'') (drop 4 f) of
             [i, t] \<Rightarrow>
               if \<not> opaque_id i \<or> t = [] \<or> \<not> list_all is_base64url_unit t then Inl Bad_Fragment
               else (case decodeBase64Url t of
                       Inl e \<Rightarrow> Inl e
                     | Inr secret \<Rightarrow> (case assertBytes secret 32 of Some e \<Rightarrow> Inl e | None \<Rightarrow> Inr (i, secret)))
           | _ \<Rightarrow> Inl Bad_Fragment)"

lemma js_split_without: "sep \<notin> set t \<Longrightarrow> js_split sep t = [t]"
  by (induction t) (auto split: list.splits)

lemma js_split_once: "sep \<notin> set i \<Longrightarrow> sep \<notin> set t \<Longrightarrow> js_split sep (i @ [sep] @ t) = [i, t]"
  by (induction i) (auto simp: js_split_without split: list.splits)

lemma opaque_unit_base64url: "opaque_unit = is_base64url_unit"
  by (auto simp: opaque_unit_def is_base64url_unit_def fun_eq_iff)

lemma dot_not_base64url: "list_all is_base64url_unit s \<Longrightarrow> u16 CHR ''.'' \<notin> set s"
proof -
  have "\<not> is_base64url_unit (u16 CHR ''.'')" by code_simp
  then show "list_all is_base64url_unit s \<Longrightarrow> ?thesis" by (auto simp: list_all_iff)
qed

text \<open>
  A pairing link carries its secret. The link made for an identifier and a secret is parsed back
  to exactly the two; and whatever text is parsed, what is accepted is a bounded identifier with a
  secret of 32 bytes, for which a link can be made again.
\<close>

theorem pairing_fragment_roundtrip:
  assumes "opaque_id i" "length secret = 32"
  shows "(\<exists>f. pairingFragment i secret = Inr f \<and> parsePairingFragment f = Inr (i, secret))
    \<and> (\<forall>f j s. parsePairingFragment f = Inr (j, s) \<longrightarrow> opaque_id j \<and> length s = 32 \<and> (\<exists>g. pairingFragment j s = Inr g))"
proof -
  let ?f = "js ''#v1.'' @ i @ [u16 CHR ''.''] @ encodeBase64Url secret"
  have made: "pairingFragment i secret = Inr ?f"
    using assms by (simp add: pairingFragment_def assertId_def assertBytes_def)
  have e: "encodeBase64Url secret = map to_url (b64_body secret)"
    using toBase64Url_body [of secret] by (simp only: encodeBase64Url_def toBase64Url_def)
  have units: "list_all is_base64url_unit (encodeBase64Url secret)"
    unfolding e using body_units [of _ secret] b64_unit_url(3) by (auto simp: list_all_iff)
  have ne: "encodeBase64Url secret \<noteq> []"
  proof -
    have "length (b64_body secret) = 4 * (length secret div 3) + (if length secret mod 3 = 0 then 0 else length secret mod 3 + 1)"
      by (simp only: b64_body_def length_sextets length_map)
    then show ?thesis using assms(2) unfolding e by auto
  qed
  have "js_split (u16 CHR ''.'') (i @ [u16 CHR ''.''] @ encodeBase64Url secret) = [i, encodeBase64Url secret]"
    using assms(1) units by (intro js_split_once dot_not_base64url) (simp_all add: opaque_id_def opaque_unit_base64url)
  then have "parsePairingFragment ?f = Inr (i, secret)"
    using assms units ne by (simp add: parsePairingFragment_def starts_with_def decode_encodeBase64Url assertBytes_def)
  moreover have "opaque_id j \<and> length s = 32" if "parsePairingFragment f = Inr (j, s)" for f j s
    using that by (auto simp: parsePairingFragment_def assertBytes_def split: if_splits list.splits sum.splits)
  ultimately show ?thesis
    using made by (auto simp: pairingFragment_def assertId_def assertBytes_def)
qed

theorem pairing_fragment_roundtrip_witness:
  "\<exists>f. pairingFragment (js ''pairing_1'') (replicate 32 7) = Inr f \<and> parsePairingFragment f = Inr (js ''pairing_1'', replicate 32 7)"
proof -
  have "opaque_id (js ''pairing_1'')" "length (replicate 32 (7 :: byte)) = 32" by (code_simp, simp)
  then show ?thesis using pairing_fragment_roundtrip [of "js ''pairing_1''" "replicate 32 7"] by blast
qed

end
