(* ===== verification/Room_Access.thy ===== *)
theory Room_Access
  imports Auth_Protocol Replica_Journal
begin

text \<open>
  Admission to a room (\<open>client/src/auth/room-access.ts\<close>): what the service answered is turned into
  a ticket or refused. URLs are parsed by the browser: \<open>parse_url\<close> (text and base) is a parameter,
  as is what \<open>fetch\<close> returned.
\<close>

section \<open>URLs and tickets\<close>

record url =
  protocol :: js_text
  host :: js_text
  username :: js_text
  password :: js_text
  url_hash :: js_text
  url_search :: js_text
  pathname :: js_text

datatype authority = Session_Authority | Scratch_Authority

record display_identity =
  participantId :: js_text
  displayName :: js_text
  avatar :: "js_text option"

text \<open>The address of the room is kept as the parsed URL whose \<open>href\<close> the code returns.\<close>

record access_ticket =
  roomUrl :: url
  ticketId :: js_text
  ticketSecret :: js_text
  ticket_siteId :: js_text
  ticket_role :: "role option"
  ticket_authority :: authority
  displayIdentity :: display_identity

datatype access_error = Access_Aborted | Room_Access_Error string bool

definition refused :: "string \<Rightarrow> access_error + 'a" where
  "refused message = Inl (Room_Access_Error message False)"

section \<open>Validation\<close>

definition assertTicketSecret :: "js_text \<Rightarrow> bool" where
  "assertTicketSecret s \<longleftrightarrow> (case decodeBase64Url s of Inl _ \<Rightarrow> False | Inr bytes \<Rightarrow> length bytes = 32)"

definition decimal_digit_unit :: "16 word \<Rightarrow> bool" where
  "decimal_digit_unit c \<longleftrightarrow> 48 \<le> c \<and> c \<le> 57"

text \<open>\<open>/^[1-9][0-9]*$/\<close>\<close>

definition site_pattern :: "js_text \<Rightarrow> bool" where
  "site_pattern s \<longleftrightarrow> (case s of [] \<Rightarrow> False | c # cs \<Rightarrow> 49 \<le> c \<and> c \<le> 57 \<and> list_all decimal_digit_unit cs)"

text \<open>The Unicode categories \<open>Cc\<close> and \<open>Cf\<close>.\<close>

definition control_or_format :: "nat \<Rightarrow> bool" where
  "control_or_format c \<longleftrightarrow>
     list_ex (\<lambda>(a, b). a \<le> c \<and> c \<le> b)
       [(0, 0x1F), (0x7F, 0x9F), (0xAD, 0xAD), (0x600, 0x605), (0x61C, 0x61C), (0x6DD, 0x6DD), (0x70F, 0x70F), (0x890, 0x891),
        (0x8E2, 0x8E2), (0x180E, 0x180E), (0x200B, 0x200F), (0x202A, 0x202E), (0x2060, 0x2064), (0x2066, 0x206F), (0xFEFF, 0xFEFF),
        (0xFFF9, 0xFFFB), (0x110BD, 0x110BD), (0x110CD, 0x110CD), (0x13430, 0x1343F), (0x1BCA0, 0x1BCA3), (0x1D173, 0x1D17A),
        (0xE0001, 0xE0001), (0xE0020, 0xE007F)]"

text \<open>
  A code point per scalar value and one per lone surrogate, so the list has the length of
  \<open>Array.from\<close>; a lone surrogate is neither control nor format.
\<close>

definition display_name_ok :: "js_text \<Rightarrow> bool" where
  "display_name_ok s \<longleftrightarrow>
     length (code_points (map unat s)) \<le> 64 \<and> length (encode_text s) \<le> 128
     \<and> \<not> list_ex control_or_format (code_points (map unat s))"

definition document_role :: "json option \<Rightarrow> role option" where
  "document_role v =
     (case v of Some (JString s) \<Rightarrow> List.find (\<lambda>r. role_text r = s) [Owner, Editor, Commenter, Viewer] | _ \<Rightarrow> None)"

definition scratch_role_ok :: "json option \<Rightarrow> bool" where
  "scratch_role_ok v \<longleftrightarrow> (v = Some JNull \<or> v = Some (JString (js ''editor'')))"

definition parse_identity :: "json option \<Rightarrow> access_error + display_identity" where
  "parse_identity v =
     (case v of
        Some (JObject d) \<Rightarrow>
          (case (field d ''participantId'', field d ''displayName'') of
             (Some (JString p), Some (JString n)) \<Rightarrow>
               if \<not> display_name_ok n then refused ''invalid room display name''
               else (case field d ''avatar'' of
                       None \<Rightarrow> Inr \<lparr>participantId = p, displayName = n, avatar = None\<rparr>
                     | Some JNull \<Rightarrow> Inr \<lparr>participantId = p, displayName = n, avatar = None\<rparr>
                     | Some (JString a) \<Rightarrow> Inr \<lparr>participantId = p, displayName = n, avatar = Some a\<rparr>
                     | _ \<Rightarrow> refused ''invalid room avatar'')
           | _ \<Rightarrow> refused ''invalid room display identity'')
      | _ \<Rightarrow> refused ''invalid room display identity'')"

definition ROOM_PATH_PREFIX :: js_text where
  "ROOM_PATH_PREFIX = js ''/collab/''"

definition socket_protocol :: "url \<Rightarrow> url" where
  "socket_protocol u =
     (if protocol u = js ''http:'' then u\<lparr>protocol := js ''ws:''\<rparr>
      else if protocol u = js ''https:'' then u\<lparr>protocol := js ''wss:''\<rparr> else u)"

definition room_url_ok :: "url \<Rightarrow> url \<Rightarrow> bool" where
  "room_url_ok expected u \<longleftrightarrow>
     protocol u = (if protocol expected = js ''https:'' then js ''wss:'' else js ''ws:'')
     \<and> host u = host expected \<and> username u = [] \<and> password u = [] \<and> url_hash u = [] \<and> url_search u = []
     \<and> starts_with ROOM_PATH_PREFIX (pathname u)"

definition resolve_room_url :: "(js_text \<Rightarrow> url option \<Rightarrow> url option) \<Rightarrow> js_text \<Rightarrow> js_text \<Rightarrow> access_error + url" where
  "resolve_room_url parse_url origin text =
     (case parse_url origin None of
        None \<Rightarrow> refused ''invalid room URL''
      | Some expected \<Rightarrow>
          (case parse_url text (Some expected) of
             None \<Rightarrow> refused ''invalid room URL''
           | Some resolved \<Rightarrow>
               if room_url_ok expected (socket_protocol resolved) then Inr (socket_protocol resolved)
               else refused ''room URL is outside the Marks transport boundary''))"

definition validateTicketResponse ::
    "(js_text \<Rightarrow> url option \<Rightarrow> url option) \<Rightarrow> json \<Rightarrow> js_text \<Rightarrow> authority \<Rightarrow> access_error + access_ticket" where
  "validateTicketResponse parse_url v origin authority =
     (case v of
        JObject t \<Rightarrow>
          (case (field t ''roomUrl'', field t ''ticketId'', field t ''ticketSecret'') of
             (Some (JString room), Some (JString i), Some (JString secret)) \<Rightarrow>
               (case field t ''siteId'' of
                  Some (JString site) \<Rightarrow>
                    if \<not> site_pattern site then refused ''invalid room site assignment''
                    else if authority = Session_Authority \<and> document_role (field t ''role'') = None
                         \<or> authority = Scratch_Authority \<and> \<not> scratch_role_ok (field t ''role'')
                    then refused ''invalid room role''
                    else if \<not> opaque_id i then refused ''invalid room ticket ID''
                    else if \<not> assertTicketSecret secret then refused ''invalid room ticket secret''
                    else
                      (case parse_identity (field t ''displayIdentity'') of
                         Inl e \<Rightarrow> Inl e
                       | Inr identity \<Rightarrow>
                           (case resolve_room_url parse_url origin room of
                              Inl e \<Rightarrow> Inl e
                            | Inr u \<Rightarrow>
                                Inr \<lparr>roomUrl = u, ticketId = i, ticketSecret = secret, ticket_siteId = site,
                                     ticket_role = document_role (field t ''role''), ticket_authority = authority,
                                     displayIdentity = identity\<rparr>))
                | _ \<Rightarrow> refused ''invalid room site assignment'')
           | _ \<Rightarrow> refused ''invalid room admission response'')
      | _ \<Rightarrow> refused ''invalid room admission response'')"

section \<open>Admission\<close>

text \<open>How the request ended; the body is \<open>None\<close> if it is not JSON.\<close>

datatype fetch_result = Fetch_Aborted | Fetch_Failed | Fetch_Response nat "json option"

definition retryable_status :: "nat \<Rightarrow> bool" where
  "retryable_status st \<longleftrightarrow> st = 408 \<or> st = 425 \<or> st = 429 \<or> st \<ge> 500"

definition admit ::
    "(js_text \<Rightarrow> url option \<Rightarrow> url option) \<Rightarrow> js_text \<Rightarrow> authority \<Rightarrow> fetch_result \<Rightarrow> access_error + access_ticket" where
  "admit parse_url origin authority result =
     (case result of
        Fetch_Aborted \<Rightarrow> Inl Access_Aborted
      | Fetch_Failed \<Rightarrow> Inl (Room_Access_Error ''room admission request failed'' True)
      | Fetch_Response st body \<Rightarrow>
          if \<not> (200 \<le> st \<and> st \<le> 299) then Inl (Room_Access_Error ''room admission was denied'' (retryable_status st))
          else (case body of
                  None \<Rightarrow> refused ''room admission response was not JSON''
                | Some v \<Rightarrow> validateTicketResponse parse_url v origin authority))"

definition roomTicketProtocols :: "access_ticket \<Rightarrow> access_error + js_text \<times> js_text" where
  "roomTicketProtocols t =
     (if \<not> opaque_id (ticketId t) then refused ''invalid room ticket ID''
      else if \<not> assertTicketSecret (ticketSecret t) then refused ''invalid room ticket secret''
      else Inr (js ''marks.esbt.v2'', js ''marks.ticket.v1.'' @ ticketId t @ [u16 CHR ''.''] @ ticketSecret t))"

definition documentPrefix :: "authority \<Rightarrow> js_text" where
  "documentPrefix a = (if a = Scratch_Authority then js ''/v1/scratch/documents'' else js ''/v1/documents'')"

lemma parse_identity_name: "parse_identity f = Inr x \<Longrightarrow> display_name_ok (displayName x)"
  unfolding parse_identity_def refused_def
  by (auto split: option.split_asm json.split_asm if_split_asm)

section \<open>Properties\<close>

text \<open>
  C27. A ticket never leads out of the transport boundary. Whatever the service answers, a ticket is
  returned only for a successful response; its address has the socket scheme of the page's origin,
  the page's host, no credentials, query or fragment and a path under \<open>/collab/\<close>; its role fits the
  authority that asked, its site is a positive decimal number, its display name is bounded and has
  no control characters; and its identifier and 32-byte secret are accepted as socket protocols.
\<close>

theorem room_ticket_within_boundary:
  assumes "admit parse_url origin authority result = Inr t"
  shows "(\<exists>st body. result = Fetch_Response st (Some body) \<and> 200 \<le> st \<and> st \<le> 299)
    \<and> (\<exists>expected. parse_url origin None = Some expected \<and> room_url_ok expected (roomUrl t))
    \<and> ticket_authority t = authority
    \<and> (case authority of Session_Authority \<Rightarrow> ticket_role t \<in> {Some Owner, Some Editor, Some Commenter, Some Viewer}
         | Scratch_Authority \<Rightarrow> ticket_role t \<in> {None, Some Editor})
    \<and> site_pattern (ticket_siteId t) \<and> display_name_ok (displayName (displayIdentity t))
    \<and> (\<exists>p. roomTicketProtocols t = Inr p)"
proof -
  obtain st body where r: "result = Fetch_Response st (Some body)" "200 \<le> st" "st \<le> 299"
    and v: "validateTicketResponse parse_url body origin authority = Inr t"
    using assms by (auto simp: admit_def refused_def split: fetch_result.splits if_splits option.splits)
  have roles: "document_role x \<in> {None, Some Owner, Some Editor, Some Commenter, Some Viewer}" for x
    by (auto simp: document_role_def split: option.splits json.splits)
  have scratch: "document_role x \<in> {None, Some Editor}" if "scratch_role_ok x" for x
    using that by (auto simp: document_role_def scratch_role_ok_def role_text_def)
  note cases = validateTicketResponse_def refused_def
  have i: "\<exists>f. parse_identity f = Inr (displayIdentity t)"
    using v by (auto simp: cases split: json.splits option.splits if_splits sum.splits)
  have u: "\<exists>room. resolve_room_url parse_url origin room = Inr (roomUrl t)"
    using v by (auto simp: cases split: json.splits option.splits if_splits sum.splits)
  have t: "ticket_authority t = authority" "site_pattern (ticket_siteId t)" "opaque_id (ticketId t)" "assertTicketSecret (ticketSecret t)"
    using v by (auto simp: cases split: json.splits option.splits if_splits sum.splits)
  obtain fs where fs: "body = JObject fs" using v by (cases body) (simp_all add: cases)
  have ro: "ticket_role t = document_role (field fs ''role'')"
      "\<not> (authority = Session_Authority \<and> document_role (field fs ''role'') = None)"
      "\<not> (authority = Scratch_Authority \<and> \<not> scratch_role_ok (field fs ''role''))"
    using v unfolding fs by (auto simp: cases split: json.splits option.splits if_splits sum.splits)
  have "display_name_ok (displayName (displayIdentity t))"
    using i parse_identity_name by blast
  moreover obtain room where "resolve_room_url parse_url origin room = Inr (roomUrl t)" using u by blast
  then have "\<exists>expected. parse_url origin None = Some expected \<and> room_url_ok expected (roomUrl t)"
    by (auto simp: resolve_room_url_def refused_def split: option.split_asm if_split_asm)
  moreover have "case authority of Session_Authority \<Rightarrow> ticket_role t \<in> {Some Owner, Some Editor, Some Commenter, Some Viewer}
         | Scratch_Authority \<Rightarrow> ticket_role t \<in> {None, Some Editor}"
    using ro roles scratch by (cases authority) force+
  ultimately show ?thesis using r i t by (auto simp: roomTicketProtocols_def)
qed

definition demo_url :: url where
  "demo_url = \<lparr>protocol = js ''https:'', host = js ''marks.example'', username = [], password = [], url_hash = [], url_search = [],
     pathname = js ''/collab/room''\<rparr>"

definition demo_ticket :: json where
  "demo_ticket = JObject
     [(js ''roomUrl'', JString (js ''/collab/room'')), (js ''ticketId'', JString (js ''ticket_1'')),
      (js ''ticketSecret'', JString (encodeBase64Url (replicate 32 7))), (js ''siteId'', JString (js ''12'')),
      (js ''role'', JString (js ''viewer'')),
      (js ''displayIdentity'', JObject [(js ''participantId'', JString (js ''p'')), (js ''displayName'', JString (js ''Ada''))])]"

theorem room_ticket_within_boundary_witness:
  "\<exists>t. admit (\<lambda>_ _. Some demo_url) (js ''https://marks.example'') Session_Authority (Fetch_Response 200 (Some demo_ticket)) = Inr t
    \<and> host (roomUrl t) = js ''marks.example'' \<and> protocol (roomUrl t) = js ''wss:'' \<and> ticket_role t = Some Viewer"
proof -
  let ?a = "admit (\<lambda>_ _. Some demo_url) (js ''https://marks.example'') Session_Authority (Fetch_Response 200 (Some demo_ticket))"
  have "opaque_id (js ''ticket_1'')" by code_simp
  moreover have "site_pattern (js ''12'')" by code_simp
  moreover have "display_name_ok (js ''Ada'')"
    by (simp add: display_name_ok_def encode_text_def utf8_bytes_def control_or_format_def u16_def)
  moreover have "room_url_ok demo_url (socket_protocol demo_url)"
    by (simp add: room_url_ok_def socket_protocol_def demo_url_def starts_with_def ROOM_PATH_PREFIX_def)
  moreover have "assertTicketSecret (encodeBase64Url (replicate 32 7))"
    by (simp only: assertTicketSecret_def decode_encodeBase64Url sum.case length_replicate)
  moreover have "document_role (Some (JString (js ''viewer''))) = Some Viewer" by code_simp
  ultimately have t: "?a = Inr \<lparr>roomUrl = socket_protocol demo_url, ticketId = js ''ticket_1'', ticketSecret = encodeBase64Url (replicate 32 7),
      ticket_siteId = js ''12'', ticket_role = Some Viewer, ticket_authority = Session_Authority,
      displayIdentity = \<lparr>participantId = js ''p'', displayName = js ''Ada'', avatar = None\<rparr>\<rparr>"
    by (simp add: admit_def demo_ticket_def validateTicketResponse_def field_def parse_identity_def resolve_room_url_def del: js_simps)
  have "protocol demo_url = js ''https:''" "host demo_url = js ''marks.example''" by (simp_all add: demo_url_def)
  then show ?thesis
    using room_ticket_within_boundary [OF t] t unfolding room_url_ok_def by (simp del: js_simps)
qed

end
