(* ===== verification/Pairing_Poll.thy ===== *)
theory Pairing_Poll
  imports Marks_Prelude
begin

text \<open>
  The loop that waits for a pairing to be settled (\<open>client/src/auth/pairing-poll.ts\<close>). What the
  loop meets is a stream of attempts: how the request of the k-th turn ended, how long it and the
  sleep after it took, and where the caller had aborted. The loop is \<open>while (true)\<close>, so it is a
  partial function: that it returns is a theorem.
\<close>

datatype 'a outcome = Settled 'a | Finalize_Gone | Still_Pending | Threw | Deadline_Passed

record 'a attempt =
  aborted_before :: bool
  attempt_outcome :: "'a outcome"
  attempt_took :: nat
  aborted_during :: bool
  aborted_asleep :: bool
  overslept :: nat

datatype 'a poll_answer = Poll_Settled 'a | Poll_Gone | Poll_Aborted

text \<open>One request: its answer, or \<open>None\<close> if it is to be repeated. \<open>now\<close> is the time after it.\<close>

definition poll_once :: "int \<Rightarrow> 'a attempt \<Rightarrow> int \<Rightarrow> 'a poll_answer option" where
  "poll_once expiresAtMs a now =
     (case attempt_outcome a of
        Settled v \<Rightarrow> Some (Poll_Settled v)
      | Finalize_Gone \<Rightarrow> Some Poll_Gone
      | Still_Pending \<Rightarrow> None
      | Threw \<Rightarrow> if aborted_during a then Some Poll_Aborted else if now \<ge> expiresAtMs then Some Poll_Gone else None
      | Deadline_Passed \<Rightarrow> if aborted_during a then Some Poll_Aborted else Some Poll_Gone)"

text \<open>The answer and the number of requests made; \<open>sleepWithSignal\<close> sleeps at least a millisecond.\<close>

partial_function (option) pollPairingUntilSettled ::
    "int \<Rightarrow> int \<Rightarrow> (nat \<Rightarrow> 'a attempt) \<Rightarrow> nat \<Rightarrow> int \<Rightarrow> ('a poll_answer \<times> nat) option" where
  "pollPairingUntilSettled expiresAtMs intervalMs attempts k now =
     (if aborted_before (attempts k) then Some (Poll_Aborted, k)
      else if expiresAtMs - now \<le> 0 then Some (Poll_Gone, k)
      else
        let later = now + int (attempt_took (attempts k)); wait = min intervalMs (expiresAtMs - later)
        in case poll_once expiresAtMs (attempts k) later of
             Some r \<Rightarrow> Some (r, Suc k)
           | None \<Rightarrow>
               if wait \<le> 0 then Some (Poll_Gone, Suc k)
               else if aborted_asleep (attempts k) then Some (Poll_Aborted, Suc k)
               else pollPairingUntilSettled expiresAtMs intervalMs attempts (Suc k)
                      (later + max 1 wait + int (overslept (attempts k))))"

definition requests_left :: "int \<Rightarrow> int \<Rightarrow> int \<Rightarrow> int" where
  "requests_left expires interval now = (max 0 (expires - now) + interval - 1) div interval"

lemma requests_left_step:
  assumes "0 < interval" "now < expires" "now + min interval (expires - now) \<le> now'" 
  shows "1 + requests_left expires interval now' \<le> requests_left expires interval now"
proof (cases "expires \<le> now'")
  case True
  then have "requests_left expires interval now' = 0" using assms(1) by (simp add: requests_left_def)
  moreover have "interval div interval \<le> (expires - now + interval - 1) div interval"
    using assms by (intro zdiv_mono1) auto
  ultimately show ?thesis using assms by (simp add: requests_left_def)
next
  case False
  then have "now + interval \<le> now'" using assms by auto
  then have "(expires - now' + interval - 1 + 1 * interval) div interval \<le> (expires - now + interval - 1) div interval"
    using assms by (intro zdiv_mono1) auto
  moreover have "(expires - now' + interval - 1 + 1 * interval) div interval = (expires - now' + interval - 1) div interval + 1"
    using assms(1) by (subst div_mult_self1) auto
  ultimately show ?thesis using False assms by (simp add: requests_left_def)
qed

definition poll_ok :: "(nat \<Rightarrow> 'a attempt) \<Rightarrow> nat \<Rightarrow> int \<Rightarrow> ('a poll_answer \<times> nat) option \<Rightarrow> bool" where
  "poll_ok attempts k bound res \<longleftrightarrow>
     (\<exists>r n. res = Some (r, n) \<and> k \<le> n \<and> int n \<le> int k + bound
        \<and> (\<forall>v. r = Poll_Settled v \<longrightarrow> k < n \<and> attempt_outcome (attempts (n - 1)) = Settled v))"

lemma poll_ok_done:
  "0 \<le> bound \<Longrightarrow> (\<And>v. r \<noteq> Poll_Settled v) \<Longrightarrow> poll_ok attempts k bound (Some (r, k))"
  "1 \<le> bound \<Longrightarrow> (\<And>v. r = Poll_Settled v \<Longrightarrow> attempt_outcome (attempts k) = Settled v) \<Longrightarrow> poll_ok attempts k bound (Some (r, Suc k))"
  by (auto simp: poll_ok_def)

lemma poll_ok_later: "poll_ok attempts (Suc k) b res \<Longrightarrow> 1 + b \<le> bound \<Longrightarrow> poll_ok attempts k bound res"
  by (fastforce simp: poll_ok_def)

lemma poll_returns:
  assumes "0 < interval"
  shows "poll_ok attempts k (requests_left expires interval now) (pollPairingUntilSettled expires interval attempts k now)"
proof (induction "nat (expires - now)" arbitrary: k now rule: less_induct)
  case less
  have pos: "0 \<le> requests_left expires interval now" using assms by (simp add: requests_left_def pos_imp_zdiv_nonneg_iff)
  show ?case
  proof (cases "aborted_before (attempts k) \<or> expires - now \<le> 0")
    case True
    then show ?thesis using pos by (subst pollPairingUntilSettled.simps) (auto intro: poll_ok_done)
  next
    case False
    let ?a = "attempts k"
    let ?now = "now + int (attempt_took ?a)"
    let ?wait = "min interval (expires - ?now)"
    let ?next = "?now + max 1 ?wait + int (overslept ?a)"
    have "0 \<le> requests_left expires interval (now + interval)" using assms by (simp add: requests_left_def pos_imp_zdiv_nonneg_iff)
    then have one: "1 \<le> requests_left expires interval now"
      using requests_left_step [OF assms, of now expires "now + interval"] False by simp
    have rec: "poll_ok attempts k (requests_left expires interval now) (pollPairingUntilSettled expires interval attempts (Suc k) ?next)"
      if "0 < ?wait"
    proof (rule poll_ok_later)
      show "poll_ok attempts (Suc k) (requests_left expires interval ?next) (pollPairingUntilSettled expires interval attempts (Suc k) ?next)"
        by (rule less) (use False in auto)
      show "1 + requests_left expires interval ?next \<le> requests_left expires interval now"
        by (rule requests_left_step) (use False that assms in auto)
    qed
    show ?thesis
      using False one rec
      by (subst pollPairingUntilSettled.simps) (auto simp: Let_def poll_once_def not_le intro: poll_ok_done split: outcome.split)
  qed
qed

text \<open>
  C28. Waiting for a pairing ends. However the requests end, however long they take and wherever the
  caller aborts, the loop returns; it has made at most one request per interval up to the expiry,
  and if it returns a settled pairing, that is the answer of its last request.
\<close>

theorem pairing_poll_terminates:
  assumes "0 < intervalMs"
  shows "\<exists>r n. pollPairingUntilSettled expiresAtMs intervalMs attempts 0 now = Some (r, n)
    \<and> int n \<le> (max 0 (expiresAtMs - now) + intervalMs - 1) div intervalMs
    \<and> (\<forall>v. r = Poll_Settled v \<longrightarrow> 0 < n \<and> attempt_outcome (attempts (n - 1)) = Settled v)"
  using poll_returns [OF assms, of attempts 0 expiresAtMs now] by (simp add: poll_ok_def requests_left_def)

theorem pairing_poll_terminates_witness:
  "\<exists>r n. pollPairingUntilSettled 5000 1500
       (\<lambda>k. \<lparr>aborted_before = False, attempt_outcome = (if k = 2 then Settled ''paired'' else Still_Pending), attempt_took = 10,
             aborted_during = False, aborted_asleep = False, overslept = 0\<rparr>) 0 0 = Some (r, n) \<and> n \<le> 4"
  using pairing_poll_terminates [of 1500 5000 "\<lambda>k. \<lparr>aborted_before = False, attempt_outcome = (if k = 2 then Settled ''paired'' else Still_Pending),
     attempt_took = 10, aborted_during = False, aborted_asleep = False, overslept = 0\<rparr>" 0] by auto

end
