(* ===== verification/Stored_Zip.thy ===== *)
theory Stored_Zip
  imports Presence_Codec
begin

unbundle bit_operations_syntax

text \<open>
  The store-only ZIP writer of portable bundles (\<open>client/src/lib/stored-zip.ts\<close>): the table-driven
  CRC-32, the check of entry paths and the layout of the archive. The last section is a reader that
  follows the ZIP format from the end record to the directory to the entries; it is the
  specification the writer is proved against.
\<close>

section \<open>CRC-32\<close>

definition crc_step :: "32 word \<Rightarrow> 32 word" where
  "crc_step crc = (if crc AND 1 = 1 then 0xEDB88320 XOR drop_bit 1 crc else drop_bit 1 crc)"

definition crc_table_entry :: "32 word \<Rightarrow> 32 word" where
  "crc_table_entry v = (crc_step ^^ 8) v"

definition CRC_TABLE :: "32 word list" where
  "CRC_TABLE = map (\<lambda>v. crc_table_entry (of_nat v)) [0..<256]"

definition crc32 :: "bytes \<Rightarrow> 32 word" where
  "crc32 bs =
     foldl (\<lambda>crc b. (CRC_TABLE ! unat ((crc XOR ucast b) AND 0xFF)) XOR drop_bit 8 crc) 0xFFFFFFFF bs XOR 0xFFFFFFFF"

text \<open>The shift register of the standard: one bit of the message at a time, least significant first.\<close>

definition crc_bit :: "32 word \<Rightarrow> bool \<Rightarrow> 32 word" where
  "crc_bit crc d = (if (crc AND 1 = 1) \<noteq> d then 0xEDB88320 XOR drop_bit 1 crc else drop_bit 1 crc)"

definition message_bits :: "bytes \<Rightarrow> bool list" where
  "message_bits bs = concat (map (\<lambda>b. map (bit b) [0..<8]) bs)"

definition crc32_register :: "bytes \<Rightarrow> 32 word" where
  "crc32_register bs = foldl crc_bit 0xFFFFFFFF (message_bits bs) XOR 0xFFFFFFFF"

lemma and_one_odd: "(x :: 32 word) AND 1 = 1 \<longleftrightarrow> bit x 0"
  by (simp add: bit_0 and_one_eq odd_iff_mod_2_eq_one)

lemma crc_step_alt: "crc_step x = (if bit x 0 then 0xEDB88320 XOR drop_bit 1 x else drop_bit 1 x)"
  by (simp add: crc_step_def and_one_odd)

lemma crc_step_xor: "crc_step (x XOR y) = crc_step x XOR crc_step y"
proof -
  have c: "0xEDB88320 XOR (0xEDB88320 XOR z) = z" for z :: "32 word" by (simp flip: xor.assoc)
  show ?thesis
    by (cases "bit x 0"; cases "bit y 0") (simp_all add: crc_step_alt bit_xor_iff drop_bit_xor xor.assoc xor.left_commute c)
qed

lemma crc_steps_xor: "(crc_step ^^ n) (x XOR y) = (crc_step ^^ n) x XOR (crc_step ^^ n) y"
  by (induction n) (simp_all add: crc_step_xor)

lemma crc_steps_high: "\<forall>k<n. \<not> bit x k \<Longrightarrow> (crc_step ^^ n) x = drop_bit n x"
proof (induction n)
  case (Suc n)
  then have "(crc_step ^^ Suc n) x = crc_step (drop_bit n x)" by simp
  also have "\<not> bit (drop_bit n x) 0" using Suc.prems by (simp add: bit_drop_bit_eq)
  then have "crc_step (drop_bit n x) = drop_bit (Suc n) x" by (simp add: crc_step_alt drop_bit_drop_bit)
  finally show ?case .
qed simp

lemma crc_table_nth: "v < 256 \<Longrightarrow> CRC_TABLE ! v = (crc_step ^^ 8) (of_nat v)"
  by (simp add: CRC_TABLE_def crc_table_entry_def)

lemma crc_byte_table:
  "(CRC_TABLE ! unat (x AND 0xFF)) XOR drop_bit 8 x = (crc_step ^^ 8) x"
proof -
  have m: "x AND 0xFF = take_bit 8 x" by (simp add: take_bit_eq_mask mask_eq_exp_minus_1)
  have lt: "unat (take_bit 8 x) < 256" using take_bit_nat_less_exp [of 8 "unat x"] by (simp add: unsigned_take_bit_eq)
  let ?h = "x AND NOT (mask 8)"
  have x: "take_bit 8 x XOR ?h = x" by (rule bit_word_eqI) (auto simp: bit_simps)
  have "(crc_step ^^ 8) ?h = drop_bit 8 ?h" by (rule crc_steps_high) (simp add: bit_simps)
  also have "drop_bit 8 ?h = drop_bit 8 x" by (rule bit_word_eqI) (auto simp: bit_simps dest: bit_imp_le_length)
  finally have "(crc_step ^^ 8) (take_bit 8 x XOR ?h) = (crc_step ^^ 8) (take_bit 8 x) XOR drop_bit 8 x"
    by (simp add: crc_steps_xor)
  then show ?thesis unfolding m x using crc_table_nth [OF lt] by simp
qed

lemma crc_bit_step: "crc_bit crc d = crc_step (crc XOR of_bool d)"
proof -
  have "drop_bit 1 (crc XOR 1) = drop_bit 1 crc" by (rule bit_word_eqI) (auto simp: bit_simps)
  then show ?thesis by (cases d) (auto simp: crc_bit_def crc_step_alt and_one_odd bit_xor_iff)
qed

lemma crc_bits_steps:
  "foldl crc_bit crc (map (bit b) [0..<n]) = (crc_step ^^ n) (crc XOR take_bit n (ucast (b :: byte)))" if "n \<le> 8"
  using that
proof (induction n)
  case (Suc n)
  let ?v = "ucast b :: 32 word" and ?d = "bit b n"
  let ?w = "push_bit n (of_bool ?d) :: 32 word"
  have "take_bit (Suc n) ?v = take_bit n ?v XOR ?w"
    by (rule bit_word_eqI) (use Suc.prems in \<open>auto simp: bit_simps less_Suc_eq\<close>)
  moreover have "(crc_step ^^ n) ?w = of_bool ?d"
  proof -
    have "drop_bit n ?w = of_bool ?d"
      by (rule bit_word_eqI) (use Suc.prems in \<open>auto simp: bit_simps\<close>)
    then show ?thesis using crc_steps_high [of n ?w] by (simp add: bit_simps)
  qed
  ultimately have "(crc_step ^^ n) (crc XOR take_bit (Suc n) ?v) = (crc_step ^^ n) (crc XOR take_bit n ?v) XOR of_bool ?d"
    by (simp add: crc_steps_xor flip: xor.assoc)
  then show ?case using Suc by (simp add: crc_bit_step)
qed simp

lemma crc_byte_bits:
  "foldl crc_bit crc (map (bit b) [0..<8]) = (CRC_TABLE ! unat ((crc XOR ucast (b :: byte)) AND 0xFF)) XOR drop_bit 8 (crc XOR ucast b)"
proof -
  have "take_bit 8 (ucast b :: 32 word) = ucast b"
    by (rule bit_word_eqI) (auto simp: bit_simps dest: bit_imp_le_length)
  then show ?thesis using crc_bits_steps [of 8 crc b] crc_byte_table [of "crc XOR ucast b"] by simp
qed

lemma crc32_is_register: "crc32 bs = crc32_register bs"
proof -
  have d: "drop_bit 8 (crc XOR ucast (b :: byte)) = drop_bit 8 crc" for crc :: "32 word" and b
    by (rule bit_word_eqI) (auto simp: bit_simps dest: bit_imp_le_length)
  have "(CRC_TABLE ! unat ((crc XOR ucast b) AND 0xFF)) XOR drop_bit 8 crc = foldl crc_bit crc (map (bit b) [0..<8])"
    for crc and b :: byte
    unfolding crc_byte_bits d ..
  then have "foldl (\<lambda>crc b. (CRC_TABLE ! unat ((crc XOR ucast b) AND 0xFF)) XOR drop_bit 8 crc) crc bs = foldl crc_bit crc (message_bits bs)" for crc
    by (induction bs arbitrary: crc) (simp_all add: message_bits_def)
  then show ?thesis by (simp add: crc32_def crc32_register_def)
qed

section \<open>The archive\<close>

datatype zip_error = Unsafe_Path | Path_Too_Long | Too_Many_Entries | Zip_Too_Large

text \<open>A \<open>Blob\<close> is the bytes it holds.\<close>

datatype zip_source = Zip_Text js_text | Zip_Bytes bytes

record zip_entry =
  zip_path :: js_text
  zip_data :: zip_source

abbreviation MAX_U16 :: nat where "MAX_U16 \<equiv> 0xFFFF"
abbreviation MAX_U32 :: nat where "MAX_U32 \<equiv> 0xFFFFFFFF"

definition safePath :: "js_text \<Rightarrow> zip_error + bytes" where
  "safePath path =
     (if path = [] \<or> hd path = u16 CHR ''/'' \<or> 92 \<in> set path \<or> 0 \<in> set path
         \<or> list_ex (\<lambda>part. part = [] \<or> part = js ''.'' \<or> part = js ''..'') (js_split (u16 CHR ''/'') path)
      then Inl Unsafe_Path
      else if length (encode_text path) > MAX_U16 then Inl Path_Too_Long
      else Inr (encode_text path))"

definition bytesFor :: "zip_source \<Rightarrow> bytes" where
  "bytesFor source = (case source of Zip_Text s \<Rightarrow> encode_text s | Zip_Bytes bs \<Rightarrow> bs)"

definition local_header :: "bytes \<Rightarrow> bytes \<Rightarrow> bytes" where
  "local_header name data =
     le_bytes 4 0x04034b50 @ le_bytes 2 20 @ le_bytes 2 0x0800 @ le_bytes 2 0 @ le_bytes 2 0 @ le_bytes 2 33
     @ le_bytes 4 (unat (crc32 data)) @ le_bytes 4 (length data) @ le_bytes 4 (length data)
     @ le_bytes 2 (length name) @ le_bytes 2 0"

definition directory_header :: "bytes \<Rightarrow> bytes \<Rightarrow> nat \<Rightarrow> bytes" where
  "directory_header name data offset =
     le_bytes 4 0x02014b50 @ le_bytes 2 20 @ le_bytes 2 20 @ le_bytes 2 0x0800 @ le_bytes 2 0 @ le_bytes 2 0 @ le_bytes 2 33
     @ le_bytes 4 (unat (crc32 data)) @ le_bytes 4 (length data) @ le_bytes 4 (length data)
     @ le_bytes 2 (length name) @ le_bytes 2 0 @ le_bytes 2 0 @ le_bytes 2 0 @ le_bytes 2 0
     @ le_bytes 4 0 @ le_bytes 4 offset"

definition end_record :: "nat \<Rightarrow> nat \<Rightarrow> nat \<Rightarrow> bytes" where
  "end_record count centralBytes offset =
     le_bytes 4 0x06054b50 @ le_bytes 2 0 @ le_bytes 2 0 @ le_bytes 2 count @ le_bytes 2 count
     @ le_bytes 4 centralBytes @ le_bytes 4 offset @ le_bytes 2 0"

text \<open>The loop: output, central directory, offset and size of the directory so far.\<close>

fun zip_entries :: "zip_entry list \<Rightarrow> bytes \<Rightarrow> bytes \<Rightarrow> nat \<Rightarrow> nat \<Rightarrow> zip_error + bytes \<times> bytes \<times> nat \<times> nat" where
  "zip_entries [] output central offset centralBytes = Inr (output, central, offset, centralBytes)"
| "zip_entries (e # es) output central offset centralBytes =
     (case safePath (zip_path e) of
        Inl err \<Rightarrow> Inl err
      | Inr name \<Rightarrow>
          let data = bytesFor (zip_data e); size = length data
          in if size > MAX_U32 \<or> offset + 30 + length name + size > MAX_U32 then Inl Zip_Too_Large
             else zip_entries es (output @ local_header name data @ name @ data)
                    (central @ directory_header name data offset @ name)
                    (offset + (30 + length name + size)) (centralBytes + (46 + length name)))"

definition buildStoredZip :: "zip_entry list \<Rightarrow> zip_error + bytes" where
  "buildStoredZip es =
     (if length es > MAX_U16 then Inl Too_Many_Entries
      else case zip_entries es [] [] 0 0 of
             Inl err \<Rightarrow> Inl err
           | Inr (output, central, offset, centralBytes) \<Rightarrow>
               if offset + centralBytes > MAX_U32 then Inl Zip_Too_Large
               else Inr (output @ central @ end_record (length es) centralBytes offset))"

section \<open>A reader of the format\<close>

text \<open>An unsigned little-endian integer of \<open>n\<close> bytes at an offset.\<close>

definition uint_at :: "nat \<Rightarrow> nat \<Rightarrow> bytes \<Rightarrow> nat" where
  "uint_at n k bs = le_value (take n (drop k bs))"

text \<open>The entry at a local header; the directory says its name, size and checksum.\<close>

definition read_local :: "bytes \<Rightarrow> nat \<Rightarrow> bytes \<Rightarrow> nat \<Rightarrow> nat \<Rightarrow> bytes option" where
  "read_local archive offset name len checksum =
     (let h = drop offset archive; n = uint_at 2 26 h; x = uint_at 2 28 h; data = take len (drop (30 + n + x) h)
      in if uint_at 4 0 h = 0x04034b50 \<and> uint_at 2 8 h = 0 \<and> uint_at 4 18 h = len \<and> uint_at 4 22 h = len
            \<and> uint_at 4 14 h = checksum \<and> take n (drop 30 h) = name \<and> length data = len
            \<and> unat (crc32_register data) = checksum
         then Some data else None)"

fun read_directory :: "bytes \<Rightarrow> nat \<Rightarrow> bytes \<Rightarrow> (bytes \<times> bytes) list option" where
  "read_directory archive 0 d = Some []"
| "read_directory archive (Suc k) d =
     (let n = uint_at 2 28 d; name = take n (drop 46 d)
      in if uint_at 4 0 d \<noteq> 0x02014b50 then None
         else case read_local archive (uint_at 4 42 d) name (uint_at 4 20 d) (uint_at 4 16 d) of
                None \<Rightarrow> None
              | Some data \<Rightarrow>
                  map_option (Cons (name, data)) (read_directory archive k (drop (46 + n + uint_at 2 30 d + uint_at 2 32 d) d)))"

definition unzip_archive :: "bytes \<Rightarrow> (bytes \<times> bytes) list option" where
  "unzip_archive archive =
     (let e = drop (length archive - 22) archive
      in if length archive < 22 \<or> uint_at 4 0 e \<noteq> 0x06054b50 then None
         else if uint_at 4 16 e + uint_at 4 12 e \<noteq> length archive - 22 then None
         else read_directory archive (uint_at 2 10 e) (drop (uint_at 4 16 e) archive))"

section \<open>What is written is read\<close>

lemma uint_at_0 [simp]: "v < 256 ^ n \<Longrightarrow> uint_at n 0 (le_bytes n v @ rest) = v"
  by (simp add: uint_at_def)

lemma uint_at_skip: "length pre \<le> k \<Longrightarrow> uint_at n k (pre @ rest) = uint_at n (k - length pre) rest"
  by (simp add: uint_at_def)

lemma length_headers [simp]: "length (local_header name data) = 30" "length (directory_header name data off) = 46"
  "length (end_record k c off) = 22"
  by (simp_all add: local_header_def directory_header_def end_record_def)

lemma unat_crc_bound: "unat (crc32 data) < 256 ^ 4"
  using unsigned_less [of "crc32 data"] by simp

lemma local_header_fields:
  assumes "length name \<le> MAX_U16" "length data \<le> MAX_U32"
  shows "uint_at 4 0 (local_header name data @ r) = 0x04034b50" "uint_at 2 8 (local_header name data @ r) = 0"
    "uint_at 4 14 (local_header name data @ r) = unat (crc32 data)" "uint_at 4 18 (local_header name data @ r) = length data"
    "uint_at 4 22 (local_header name data @ r) = length data" "uint_at 2 26 (local_header name data @ r) = length name"
    "uint_at 2 28 (local_header name data @ r) = 0"
  using assms unat_crc_bound [of data] unfolding local_header_def append_assoc
  by (simp_all add: uint_at_skip)

lemma directory_header_fields:
  assumes "length name \<le> MAX_U16" "length data \<le> MAX_U32" "off \<le> MAX_U32"
  shows "uint_at 4 0 (directory_header name data off @ r) = 0x02014b50" "uint_at 4 16 (directory_header name data off @ r) = unat (crc32 data)"
    "uint_at 4 20 (directory_header name data off @ r) = length data" "uint_at 2 28 (directory_header name data off @ r) = length name"
    "uint_at 2 30 (directory_header name data off @ r) = 0" "uint_at 2 32 (directory_header name data off @ r) = 0"
    "uint_at 4 42 (directory_header name data off @ r) = off"
  using assms unat_crc_bound [of data] unfolding directory_header_def append_assoc
  by (simp_all add: uint_at_skip)

lemma end_record_fields:
  assumes "k \<le> MAX_U16" "c \<le> MAX_U32" "off \<le> MAX_U32"
  shows "uint_at 4 0 (end_record k c off) = 0x06054b50" "uint_at 2 10 (end_record k c off) = k"
    "uint_at 4 12 (end_record k c off) = c" "uint_at 4 16 (end_record k c off) = off"
  using assms unfolding end_record_def by (simp_all add: uint_at_skip)

text \<open>The archive as the loop lays it out.\<close>

definition file_of :: "zip_entry \<Rightarrow> bytes \<times> bytes" where
  "file_of e = (encode_text (zip_path e), bytesFor (zip_data e))"

fun locals_of :: "(bytes \<times> bytes) list \<Rightarrow> bytes" where
  "locals_of [] = []"
| "locals_of ((name, data) # fs) = local_header name data @ name @ data @ locals_of fs"

fun directory_of :: "nat \<Rightarrow> (bytes \<times> bytes) list \<Rightarrow> bytes" where
  "directory_of off [] = []"
| "directory_of off ((name, data) # fs) =
     directory_header name data off @ name @ directory_of (off + (30 + length name + length data)) fs"

fun files_fit :: "nat \<Rightarrow> (bytes \<times> bytes) list \<Rightarrow> bool" where
  "files_fit off [] \<longleftrightarrow> True"
| "files_fit off ((name, data) # fs) \<longleftrightarrow>
     length name \<le> MAX_U16 \<and> off + 30 + length name + length data \<le> MAX_U32
     \<and> files_fit (off + (30 + length name + length data)) fs"

lemma safePath_Inr: "safePath p = Inr name \<longleftrightarrow> safePath p \<noteq> Inl Unsafe_Path \<and> name = encode_text p \<and> length name \<le> MAX_U16"
  by (auto simp: safePath_def)

lemma zip_entries_Inr:
  "zip_entries es out cen off cb = Inr (out', cen', off', cb') \<Longrightarrow>
     out' = out @ locals_of (map file_of es) \<and> cen' = cen @ directory_of off (map file_of es)
     \<and> off' = off + length (locals_of (map file_of es)) \<and> cb' = cb + length (directory_of off (map file_of es))
     \<and> files_fit off (map file_of es) \<and> list_all (\<lambda>e. \<exists>n. safePath (zip_path e) = Inr n) es"
proof (induction es arbitrary: out cen off cb)
  case (Cons e es)
  obtain name where n: "safePath (zip_path e) = Inr name" using Cons.prems by (auto split: sum.splits)
  then have f: "file_of e = (name, bytesFor (zip_data e))" "length name \<le> MAX_U16" by (auto simp: file_of_def safePath_Inr)
  have fit: "\<not> (length (bytesFor (zip_data e)) > MAX_U32 \<or> off + 30 + length name + length (bytesFor (zip_data e)) > MAX_U32)"
    using Cons.prems n by (auto simp: Let_def split: if_splits)
  then have "zip_entries es (out @ local_header name (bytesFor (zip_data e)) @ name @ bytesFor (zip_data e))
      (cen @ directory_header name (bytesFor (zip_data e)) off @ name)
      (off + (30 + length name + length (bytesFor (zip_data e)))) (cb + (46 + length name)) = Inr (out', cen', off', cb')"
    using Cons.prems n by (simp add: Let_def)
  from Cons.IH [OF this] show ?case using f fit n by auto
qed simp

lemma read_local_written:
  assumes "length name \<le> MAX_U16" "length data \<le> MAX_U32"
  shows "read_local (pre @ local_header name data @ name @ data @ r) (length pre) name (length data) (unat (crc32 data)) = Some data"
  using assms local_header_fields [OF assms, of "name @ data @ r"]
  by (simp add: read_local_def Let_def crc32_is_register)

lemma read_directory_written:
  "files_fit (length pre) fs \<Longrightarrow> archive = pre @ locals_of fs @ post \<Longrightarrow>
     read_directory archive (length fs) (directory_of (length pre) fs @ tail) = Some fs"
proof (induction fs arbitrary: pre)
  case (Cons f fs)
  obtain name data where f: "f = (name, data)" by fastforce
  have b: "length name \<le> MAX_U16" "length data \<le> MAX_U32" "length pre \<le> MAX_U32" using Cons.prems(1) f by auto
  let ?pre = "pre @ local_header name data @ name @ data"
  let ?rest = "directory_of (length ?pre) fs @ tail"
  have a: "archive = pre @ local_header name data @ name @ data @ (locals_of fs @ post)" using Cons.prems(2) f by simp
  have "read_directory archive (length fs) ?rest = Some fs"
    by (rule Cons.IH) (use Cons.prems f in \<open>simp_all add: add.assoc\<close>)
  moreover have "directory_of (length pre) (f # fs) @ tail = directory_header name data (length pre) @ name @ ?rest"
    by (simp add: f add.assoc)
  moreover have "read_local archive (length pre) name (length data) (unat (crc32 data)) = Some data"
    unfolding a by (rule read_local_written [OF b(1,2)])
  ultimately show ?case
    using directory_header_fields [OF b, of "name @ ?rest"] by (simp add: Let_def f)
qed simp

text \<open>
  C17. What the writer packs, any ZIP reader unpacks. If the archive is built, then reading it from
  its end record over the directory to the entries, with the checksum of the standard checked bit by
  bit, gives exactly the given files, in order, under their paths in UTF-8; and every path was a
  relative one that cannot leave the directory it is unpacked in.
\<close>

theorem stored_zip_roundtrip:
  assumes "buildStoredZip es = Inr archive"
  shows "unzip_archive archive = Some (map (\<lambda>e. (encode_text (zip_path e), bytesFor (zip_data e))) es)
    \<and> list_all (\<lambda>e. zip_path e \<noteq> [] \<and> hd (zip_path e) \<noteq> u16 CHR ''/'' \<and> js ''..'' \<notin> set (js_split (u16 CHR ''/'') (zip_path e))) es"
proof -
  let ?fs = "map file_of es"
  obtain out central offset centralBytes where z: "zip_entries es [] [] 0 0 = Inr (out, central, offset, centralBytes)"
    and a: "archive = out @ central @ end_record (length es) centralBytes offset"
    and b: "length es \<le> MAX_U16" "offset + centralBytes \<le> MAX_U32"
    using assms by (auto simp: buildStoredZip_def split: if_splits sum.splits)
  note l = zip_entries_Inr [OF z]
  have e: "drop (length archive - 22) archive = end_record (length es) centralBytes offset" using a by simp
  have "read_directory archive (length ?fs) (directory_of 0 ?fs @ end_record (length es) centralBytes offset) = Some ?fs"
    using read_directory_written [of "[]" ?fs archive "central @ end_record (length es) centralBytes offset"] l a by simp
  moreover have "drop offset archive = directory_of 0 ?fs @ end_record (length es) centralBytes offset" using l a by simp
  moreover have "offset + centralBytes = length archive - 22" "\<not> length archive < 22" using l a by simp_all
  ultimately have "unzip_archive archive = Some ?fs"
    using b end_record_fields [of "length es" centralBytes offset] by (simp add: unzip_archive_def Let_def e)
  moreover have "list_all (\<lambda>e. \<exists>n. safePath (zip_path e) = Inr n) es" using l by simp
  ultimately show ?thesis
    by (auto simp: file_of_def [abs_def] list_all_iff safePath_def list_ex_iff split: if_splits)
qed

definition demo_entries :: "zip_entry list" where
  "demo_entries = [\<lparr>zip_path = js ''document.md'', zip_data = Zip_Bytes [104, 105]\<rparr>,
     \<lparr>zip_path = js ''assets/a.png'', zip_data = Zip_Bytes [1, 2, 3]\<rparr>]"

theorem stored_zip_roundtrip_witness:
  "\<exists>archive. buildStoredZip demo_entries = Inr archive
    \<and> unzip_archive archive = Some [(encode_text (js ''document.md''), [104, 105]), (encode_text (js ''assets/a.png''), [1, 2, 3])]"
proof -
  have "safePath (js ''document.md'') = Inr (encode_text (js ''document.md''))" "length (encode_text (js ''document.md'')) = 11"
    "safePath (js ''assets/a.png'') = Inr (encode_text (js ''assets/a.png''))" "length (encode_text (js ''assets/a.png'')) = 12"
    by (simp_all add: safePath_def encode_text_def utf8_bytes_def u16_def)
  then obtain archive where b: "buildStoredZip demo_entries = Inr archive"
    by (simp add: buildStoredZip_def demo_entries_def bytesFor_def Let_def del: js_simps)
  then show ?thesis
    using stored_zip_roundtrip [OF b] by (simp add: demo_entries_def bytesFor_def del: js_simps)
qed

end
