(* ===== verification/Portable_Bundle.thy ===== *)
theory Portable_Bundle
  imports Stored_Zip "HOL-Library.AList"
begin

text \<open>
  The portable bundle of a document (\<open>client/src/lib/portable-bundle.ts\<close>): the URLs of known
  assets in the Markdown are replaced by paths into the bundle, found by a trie of the URLs, and
  the document, a manifest and the assets that are used go into one archive.
\<close>

section \<open>The trie of URLs\<close>

datatype url_trie = Url_Trie (assetIndex: "nat option") (children: "(16 word \<times> url_trie) list")

definition empty_trie :: url_trie where
  "empty_trie = Url_Trie None []"

fun trie_insert :: "js_text \<Rightarrow> nat \<Rightarrow> url_trie \<Rightarrow> url_trie" where
  "trie_insert [] i t = Url_Trie (Some i) (children t)"
| "trie_insert (c # url) i t =
     Url_Trie (assetIndex t)
       (AList.update c (trie_insert url i (case map_of (children t) c of Some child \<Rightarrow> child | None \<Rightarrow> empty_trie)) (children t))"

text \<open>A later asset with the same URL takes its place; an asset without a URL is not entered.\<close>

definition build_trie :: "js_text list \<Rightarrow> url_trie" where
  "build_trie urls = foldl (\<lambda>t (i, url). if url = [] then t else trie_insert url i t) empty_trie (enumerate 0 urls)"

text \<open>The inner loop: \<open>probe\<close> is where it looks, \<open>matched\<close> the longest match so far.\<close>

fun probe_trie :: "url_trie \<Rightarrow> js_text \<Rightarrow> nat \<Rightarrow> (nat \<times> nat) option \<Rightarrow> (nat \<times> nat) option" where
  "probe_trie t [] probe matched = matched"
| "probe_trie t (c # s) probe matched =
     (case map_of (children t) c of
        None \<Rightarrow> matched
      | Some child \<Rightarrow>
          probe_trie child s (Suc probe) (case assetIndex child of Some i \<Rightarrow> Some (i, Suc probe) | None \<Rightarrow> matched))"

lemma probe_trie_bounds:
  "probe_trie t s p m = Some (i, e) \<Longrightarrow> m = Some (i, e) \<or> p < e \<and> e \<le> p + length s"
  by (induction t s p m rule: probe_trie.induct) (auto split: option.splits)

section \<open>Rewriting\<close>

function rewrite_loop :: "url_trie \<Rightarrow> js_text list \<Rightarrow> js_text \<Rightarrow> nat \<Rightarrow> nat \<Rightarrow> js_text list \<Rightarrow> bool list \<Rightarrow> js_text \<times> bool list" where
  "rewrite_loop t paths source cursor copiedThrough out used =
     (if cursor < length source then
        (case probe_trie t (drop cursor source) cursor None of
           None \<Rightarrow> rewrite_loop t paths source (Suc cursor) copiedThrough out used
         | Some (i, e) \<Rightarrow>
             rewrite_loop t paths source e e (out @ [js_slice copiedThrough cursor source, paths ! i]) (used[i := True]))
      else (concat (out @ [drop copiedThrough source]), used))"
  by pat_completeness auto
termination
  by (relation "measure (\<lambda>(t, paths, source, cursor, _). length source - cursor)") (auto dest: probe_trie_bounds)

declare rewrite_loop.simps [simp del]

definition rewriteKnownAssetUrls :: "js_text \<Rightarrow> (js_text \<times> js_text) list \<Rightarrow> js_text \<times> bool list" where
  "rewriteKnownAssetUrls source assets =
     rewrite_loop (build_trie (map fst assets)) (map snd assets) source 0 0 [] (replicate (length assets) False)"

section \<open>What rewriting means\<close>

text \<open>The asset of a URL: the last one that has it. The longest known URL at the front of a text.\<close>

definition asset_of :: "js_text list \<Rightarrow> js_text \<Rightarrow> nat option" where
  "asset_of urls u = (if u = [] then None else List.find (\<lambda>i. urls ! i = u) (rev [0..<length urls]))"

definition longest_asset :: "js_text list \<Rightarrow> js_text \<Rightarrow> (nat \<times> nat) option" where
  "longest_asset urls s =
     (case List.find (\<lambda>k. asset_of urls (take k s) \<noteq> None) (rev [1..<Suc (length s)]) of
        None \<Rightarrow> None
      | Some k \<Rightarrow> Some (the (asset_of urls (take k s)), k))"

datatype segment = Kept "16 word" | Asset nat

function segments :: "js_text list \<Rightarrow> js_text \<Rightarrow> segment list" where
  "segments urls [] = []"
| "segments urls (c # s) =
     (case longest_asset urls (c # s) of
        None \<Rightarrow> Kept c # segments urls s
      | Some (i, k) \<Rightarrow> Asset i # segments urls (drop (max 1 k) (c # s)))"
  by pat_completeness auto
termination by (relation "measure (\<lambda>(_, s). length s)") auto

definition segment_text :: "js_text list \<Rightarrow> segment \<Rightarrow> js_text" where
  "segment_text texts g = (case g of Kept c \<Rightarrow> [c] | Asset i \<Rightarrow> texts ! i)"

subsection \<open>The trie is a map\<close>

fun trie_lookup :: "url_trie \<Rightarrow> js_text \<Rightarrow> nat option" where
  "trie_lookup t [] = assetIndex t"
| "trie_lookup t (c # u) = (case map_of (children t) c of None \<Rightarrow> None | Some child \<Rightarrow> trie_lookup child u)"

lemma trie_lookup_empty [simp]: "trie_lookup empty_trie u = None"
  by (cases u) (simp_all add: empty_trie_def)

lemma trie_lookup_insert: "trie_lookup (trie_insert u i t) v = (if v = u then Some i else trie_lookup t v)"
proof (induction u i t arbitrary: v rule: trie_insert.induct)
  case (1 i t)
  then show ?case by (cases v) simp_all
next
  case (2 c u i t)
  then show ?case by (cases v) (auto simp: update_conv' split: option.splits)
qed

text \<open>The interface the rewriting relies on: a store of URLs that knows the last index entered.\<close>

locale url_index =
  fixes empty :: 't and insert :: "js_text \<Rightarrow> nat \<Rightarrow> 't \<Rightarrow> 't" and lookup :: "'t \<Rightarrow> js_text \<Rightarrow> nat option"
  assumes lookup_empty: "lookup empty u = None"
    and lookup_insert: "lookup (insert u i t) v = (if v = u then Some i else lookup t v)"
begin

definition index_all :: "js_text list \<Rightarrow> 't" where
  "index_all urls = foldl (\<lambda>t (i, url). if url = [] then t else insert url i t) empty (enumerate 0 urls)"

lemma index_all_snoc:
  "index_all (urls @ [u]) = (if u = [] then index_all urls else insert u (length urls) (index_all urls))"
  by (simp add: index_all_def enumerate_append_eq)

lemma asset_of_snoc: "asset_of (urls @ [u]) v = (if v \<noteq> [] \<and> v = u then Some (length urls) else asset_of urls v)"
proof -
  have "List.find (\<lambda>i. (urls @ [u]) ! i = v) (rev [0..<length urls]) = List.find (\<lambda>i. urls ! i = v) (rev [0..<length urls])"
    by (rule find_cong) (simp_all add: nth_append)
  then show ?thesis by (auto simp: asset_of_def)
qed

lemma lookup_all: "lookup (index_all urls) u = asset_of urls u"
proof (induction urls rule: rev_induct)
  case Nil
  show ?case by (simp add: index_all_def lookup_empty asset_of_def)
next
  case (snoc x xs)
  then show ?case by (auto simp: index_all_snoc lookup_insert asset_of_snoc)
qed

end

interpretation trie: url_index empty_trie trie_insert trie_lookup
  by unfold_locales (simp_all add: trie_lookup_insert)

lemma build_trie_lookup: "trie_lookup (build_trie urls) u = asset_of urls u"
  using trie.lookup_all [of urls u] by (simp add: trie.index_all_def build_trie_def)

subsection \<open>The probe finds the longest match\<close>

lemma find_Some_map: "List.find P (map f xs) = map_option f (List.find (P \<circ> f) xs)"
  by (induction xs) simp_all

lemma rev_upt_Suc: "rev [1..<Suc (Suc n)] = map Suc (rev [1..<Suc n]) @ [1]"
proof -
  have "[1..<Suc (Suc n)] = 1 # map Suc [1..<Suc n]" by (simp add: map_Suc_upt upt_conv_Cons)
  then show ?thesis by (simp add: rev_map)
qed

lemma probe_trie_longest:
  "probe_trie t s p m =
     (case List.find (\<lambda>k. trie_lookup t (take k s) \<noteq> None) (rev [1..<Suc (length s)]) of
        None \<Rightarrow> m
      | Some k \<Rightarrow> Some (the (trie_lookup t (take k s)), p + k))"
proof (induction t s p m rule: probe_trie.induct)
  case (2 t c s p m)
  show ?case
  proof (cases "map_of (children t) c")
    case None
    then have "List.find (\<lambda>k. trie_lookup t (take k (c # s)) \<noteq> None) (rev [1..<Suc (length (c # s))]) = None"
      by (auto simp: find_None_iff take_Cons' split: if_splits)
    then show ?thesis using None by simp
  next
    case (Some child)
    have "List.find (\<lambda>k. trie_lookup t (take k (c # s)) \<noteq> None) (rev [1..<Suc (length (c # s))])
      = (case List.find (\<lambda>k. trie_lookup child (take k s) \<noteq> None) (rev [1..<Suc (length s)]) of
           None \<Rightarrow> if assetIndex child \<noteq> None then Some 1 else None
         | Some k \<Rightarrow> Some (Suc k))"
      unfolding list.size add_0_right add_Suc_right rev_upt_Suc find_append' find_Some_map
      using Some by (auto simp: comp_def split: option.splits)
    then show ?thesis
      using 2 [OF Some] Some by (auto split: option.splits)
  qed
qed simp

lemma probe_build: "probe_trie (build_trie urls) s p None = map_option (\<lambda>(i, k). (i, p + k)) (longest_asset urls s)"
  by (simp add: probe_trie_longest build_trie_lookup longest_asset_def split: option.splits)

lemma longest_asset_Some:
  assumes "longest_asset urls s = Some (i, k)"
  shows "1 \<le> k" "k \<le> length s" "i < length urls" "urls ! i = take k s"
proof -
  let ?find = "List.find (\<lambda>k. asset_of urls (take k s) \<noteq> None) (rev [1..<Suc (length s)])"
  have "?find \<noteq> None" using assms unfolding longest_asset_def by (metis option.case(1) option.distinct(1))
  then obtain j where f: "?find = Some j" by blast
  have i: "i = the (asset_of urls (take j s))" "k = j" using assms unfolding longest_asset_def f by auto
  have "j \<in> set (rev [1..<Suc (length s)]) \<and> asset_of urls (take j s) \<noteq> None" using f by (rule find_SomeD)
  then have j: "1 \<le> j" "j \<le> length s" and n: "asset_of urls (take j s) \<noteq> None" by (simp_all del: upt_Suc)
  have a: "asset_of urls (take j s) = Some i" using n i(1) by simp
  then have "List.find (\<lambda>i. urls ! i = take j s) (rev [0..<length urls]) = Some i"
    unfolding asset_of_def by (simp split: if_split_asm)
  then have "i \<in> set (rev [0..<length urls]) \<and> urls ! i = take j s" by (rule find_SomeD)
  then show "1 \<le> k" "k \<le> length s" "i < length urls" "urls ! i = take k s" using j i by auto
qed

lemma segments_restore: "concat (map (segment_text urls) (segments urls s)) = s"
proof (induction urls s rule: segments.induct)
  case (2 urls c s)
  show ?case
  proof (cases "longest_asset urls (c # s)")
    case (Some p)
    obtain i k where p: "p = (i, k)" by fastforce
    note l = longest_asset_Some [OF Some [unfolded p]]
    have "max 1 k = k" using l(1) by simp
    then show ?thesis using 2(2) [OF Some, of i k] l(4) Some p by (simp add: segment_text_def)
  qed (use 2 in \<open>simp add: segment_text_def\<close>)
qed simp

definition mark_used :: "bool list \<Rightarrow> segment list \<Rightarrow> bool list" where
  "mark_used used gs = foldl (\<lambda>u g. case g of Asset i \<Rightarrow> u[i := True] | Kept _ \<Rightarrow> u) used gs"

lemma mark_used_Cons: "mark_used used (Kept c # gs) = mark_used used gs" "mark_used used (Asset i # gs) = mark_used (used[i := True]) gs"
  by (simp_all add: mark_used_def)

lemma length_mark_used [simp]: "length (mark_used used gs) = length used"
  by (induction gs arbitrary: used) (auto simp: mark_used_def split: segment.split)

lemma mark_used_nth: "i < length used \<Longrightarrow> mark_used used gs ! i \<longleftrightarrow> used ! i \<or> Asset i \<in> set gs"
proof (induction gs arbitrary: used)
  case (Cons g gs)
  have "used[j := True] ! i \<longleftrightarrow> used ! i \<or> i = j" for j using Cons.prems by (cases "i = j") auto
  then show ?case using Cons by (cases g) (auto simp: mark_used_Cons)
qed (simp add: mark_used_def)

lemma rewrite_loop_segments:
  "copied \<le> cursor \<Longrightarrow> cursor \<le> length source \<Longrightarrow>
     rewrite_loop (build_trie urls) paths source cursor copied out used =
       (concat out @ js_slice copied cursor source @ concat (map (segment_text paths) (segments urls (drop cursor source))),
        mark_used used (segments urls (drop cursor source)))"
proof (induction "build_trie urls" paths source cursor copied out used rule: rewrite_loop.induct)
  case (1 paths source cursor copied out used)
  show ?case
  proof (cases "cursor < length source")
    case False
    then show ?thesis using 1 by (simp add: rewrite_loop.simps js_slice_def mark_used_def)
  next
    case True
    then have d: "drop cursor source = source ! cursor # drop (Suc cursor) source" by (simp add: Cons_nth_drop_Suc)
    show ?thesis
    proof (cases "longest_asset urls (drop cursor source)")
      case None
      have "js_slice copied (Suc cursor) source = js_slice copied cursor source @ [source ! cursor]"
        using 1(3) True by (simp add: js_slice_def Suc_diff_le take_Suc_conv_app_nth)
      moreover have s: "segments urls (drop cursor source) = Kept (source ! cursor) # segments urls (drop (Suc cursor) source)"
        using None by (simp add: d)
      moreover have "rewrite_loop (build_trie urls) paths source cursor copied out used =
          rewrite_loop (build_trie urls) paths source (Suc cursor) copied out used"
        using True None by (subst rewrite_loop.simps) (simp add: probe_build)
      ultimately show ?thesis
        using 1(1) [OF True] 1(3) True None by (simp add: probe_build segment_text_def mark_used_Cons)
    next
      case (Some p)
      obtain i k where p: "p = (i, k)" by fastforce
      note l = longest_asset_Some [OF Some [unfolded p]]
      have s: "segments urls (drop cursor source) = Asset i # segments urls (drop (cursor + k) source)"
      proof -
        have "drop (max 1 k) (source ! cursor # drop (Suc cursor) source) = drop (cursor + k) source"
          using l(1) by (simp add: max_def add.commute flip: d)
        moreover have "longest_asset urls (source ! cursor # drop (Suc cursor) source) = Some (i, k)" using Some p d by simp
        ultimately show ?thesis unfolding d by (simp del: drop_drop)
      qed
      have "rewrite_loop (build_trie urls) paths source (cursor + k) (cursor + k) (out @ [js_slice copied cursor source, paths ! i]) (used[i := True]) =
          (concat (out @ [js_slice copied cursor source, paths ! i]) @ js_slice (cursor + k) (cursor + k) source
            @ concat (map (segment_text paths) (segments urls (drop (cursor + k) source))),
           mark_used (used[i := True]) (segments urls (drop (cursor + k) source)))"
        using 1(2) [OF True, of "(i, cursor + k)" i "cursor + k"] l Some p True by (simp add: probe_build)
      then show ?thesis
        using True Some p unfolding s by (subst rewrite_loop.simps) (simp add: probe_build segment_text_def mark_used_Cons)
    qed
  qed
qed

section \<open>The bundle\<close>

record bundle_asset =
  asset_id :: js_text
  asset_url :: js_text
  filename :: js_text
  mediaType :: js_text
  asset_bytes :: nat
  sha256 :: js_text
  asset_blob :: bytes

definition extension :: "js_text \<Rightarrow> js_text" where
  "extension kind =
     (if kind = js ''image/png'' then js ''png'' else if kind = js ''image/jpeg'' then js ''jpg''
      else if kind = js ''image/gif'' then js ''gif'' else if kind = js ''image/webp'' then js ''webp'' else js ''bin'')"

definition candidate_path :: "bundle_asset \<Rightarrow> js_text" where
  "candidate_path a = js ''assets/'' @ asset_id a @ [u16 CHR ''.''] @ extension (mediaType a)"

text \<open>
  \<open>JSON.stringify\<close> of a string: quotes, backslashes and control characters are escaped, and so are
  lone surrogates.
\<close>

definition json_escape_hex :: "16 word \<Rightarrow> js_text" where
  "json_escape_hex c = js [CHR 92, CHR ''u''] @ padStart 4 48 (to_radix 16 (unat c))"

definition json_escape :: "16 word \<Rightarrow> js_text" where
  "json_escape c =
     (if c = 34 then [92, 34] else if c = 92 then [92, 92]
      else if c = 8 then [92, 98] else if c = 12 then [92, 102] else if c = 10 then [92, 110]
      else if c = 13 then [92, 114] else if c = 9 then [92, 116]
      else if c < 32 then json_escape_hex c else [c])"

fun json_escapes :: "js_text \<Rightarrow> js_text" where
  "json_escapes [] = []"
| "json_escapes (c # s) =
     (if 0xD800 \<le> c \<and> c \<le> 0xDBFF then
        (case s of
           d # s' \<Rightarrow> if 0xDC00 \<le> d \<and> d \<le> 0xDFFF then c # d # json_escapes s' else json_escape_hex c @ json_escapes s
         | [] \<Rightarrow> json_escape_hex c)
      else if 0xDC00 \<le> c \<and> c \<le> 0xDFFF then json_escape_hex c @ json_escapes s
      else json_escape c @ json_escapes s)"

definition json_quote :: "js_text \<Rightarrow> js_text" where
  "json_quote s = [34] @ json_escapes s @ [34]"

text \<open>A member of an object, indented.\<close>

definition json_member :: "nat \<Rightarrow> string \<Rightarrow> js_text \<Rightarrow> js_text" where
  "json_member n key v = replicate n 32 @ json_quote (js key) @ js '': '' @ v"

definition json_object :: "nat \<Rightarrow> (string \<times> js_text) list \<Rightarrow> js_text" where
  "json_object n members =
     js ''{'' @ [10] @ concat (map (\<lambda>(k, v). json_member (n + 2) k v @ js '','' @ [10]) (butlast members))
     @ json_member (n + 2) (fst (last members)) (snd (last members)) @ [10] @ replicate n 32 @ js ''}''"

definition manifest_asset :: "bundle_asset \<Rightarrow> js_text" where
  "manifest_asset a =
     json_object 4
       [(''id'', json_quote (asset_id a)), (''path'', json_quote (candidate_path a)), (''filename'', json_quote (filename a)),
        (''mediaType'', json_quote (mediaType a)), (''bytes'', to_radix 10 (asset_bytes a)), (''sha256'', json_quote (sha256 a))]"

definition manifest_assets :: "bundle_asset list \<Rightarrow> js_text" where
  "manifest_assets as =
     (if as = [] then js ''[]''
      else js ''['' @ [10] @ concat (map (\<lambda>a. replicate 4 32 @ manifest_asset a @ js '','' @ [10]) (butlast as))
        @ replicate 4 32 @ manifest_asset (last as) @ [10] @ replicate 2 32 @ js '']'')"

text \<open>\<open>JSON.stringify(manifest, null, 2)\<close>\<close>

definition manifest_text :: "js_text \<Rightarrow> bundle_asset list \<Rightarrow> js_text" where
  "manifest_text documentId included =
     json_object 0
       [(''schema'', json_quote (js ''marks-portable-bundle'')), (''version'', js ''1''), (''documentId'', json_quote documentId),
        (''assets'', manifest_assets included)]"

definition createPortableBundle ::
    "js_text \<Rightarrow> js_text \<Rightarrow> bundle_asset list \<Rightarrow> zip_error + bytes" where
  "createPortableBundle documentId sourceMarkdown assets =
     (let (markdown, used) = rewriteKnownAssetUrls sourceMarkdown (map (\<lambda>a. (asset_url a, candidate_path a)) assets);
          included = map fst (filter snd (zip assets used))
      in buildStoredZip
           ([\<lparr>zip_path = js ''document.md'', zip_data = Zip_Text markdown\<rparr>,
             \<lparr>zip_path = js ''manifest.json'', zip_data = Zip_Text (manifest_text documentId included @ [10])\<rparr>]
            @ map (\<lambda>a. \<lparr>zip_path = candidate_path a, zip_data = Zip_Bytes (asset_blob a)\<rparr>) included))"

lemma rewriteKnownAssetUrls_segments:
  "rewriteKnownAssetUrls source assets =
     (concat (map (segment_text (map snd assets)) (segments (map fst assets) source)),
      map (\<lambda>i. Asset i \<in> set (segments (map fst assets) source)) [0..<length assets])"
proof -
  have "mark_used (replicate (length assets) False) gs = map (\<lambda>i. Asset i \<in> set gs) [0..<length assets]" for gs
    by (rule nth_equalityI) (simp_all add: mark_used_nth)
  then show ?thesis
    by (simp add: rewriteKnownAssetUrls_def rewrite_loop_segments)
qed

lemma segments_assets: "Asset i \<in> set (segments urls s) \<Longrightarrow> i < length urls"
proof (induction urls s rule: segments.induct)
  case (2 urls c s)
  then show ?case
    by (cases "longest_asset urls (c # s)") (auto dest: longest_asset_Some(3) split: prod.splits)
qed simp

text \<open>
  C18. A bundle is complete and true to the document. If it is built, a ZIP reader finds in it the
  document, in which each longest URL of a known asset, from left to right, is replaced by the path
  of that asset and nothing else is changed, so putting the URLs back gives the source; the
  manifest; and, under exactly the paths the document uses, the bytes of exactly the assets used.
\<close>

theorem bundle_self_contained:
  assumes "createPortableBundle documentId source assets = Inr archive"
  shows "let gs = segments (map asset_url assets) source;
             included = map (\<lambda>i. assets ! i) (filter (\<lambda>i. Asset i \<in> set gs) [0..<length assets])
    in unzip_archive archive =
         Some ([(encode_text (js ''document.md''), encode_text (concat (map (segment_text (map candidate_path assets)) gs))),
                (encode_text (js ''manifest.json''), encode_text (manifest_text documentId included @ [10]))]
               @ map (\<lambda>a. (encode_text (candidate_path a), asset_blob a)) included)
       \<and> concat (map (segment_text (map asset_url assets)) gs) = source
       \<and> (\<forall>i. Asset i \<in> set gs \<longrightarrow> (encode_text (candidate_path (assets ! i)), asset_blob (assets ! i)) \<in> set (the (unzip_archive archive)))"
proof -
  let ?gs = "segments (map asset_url assets) source"
  let ?ix = "filter (\<lambda>i. Asset i \<in> set ?gs) [0..<length assets]"
  have inc: "map fst (filter snd (zip assets (map P [0..<length assets]))) = map (\<lambda>i. assets ! i) (filter P [0..<length assets])" for P
  proof -
    have "zip assets (map P [0..<length assets]) = map (\<lambda>i. (assets ! i, P i)) [0..<length assets]"
      by (rule nth_equalityI) simp_all
    then show ?thesis by (simp add: filter_map comp_def)
  qed
  have z: "unzip_archive archive =
         Some ([(encode_text (js ''document.md''), encode_text (concat (map (segment_text (map candidate_path assets)) ?gs))),
                (encode_text (js ''manifest.json''), encode_text (manifest_text documentId (map (\<lambda>i. assets ! i) ?ix) @ [10]))]
               @ map (\<lambda>a. (encode_text (candidate_path a), asset_blob a)) (map (\<lambda>i. assets ! i) ?ix))"
    using assms [unfolded createPortableBundle_def Let_def rewriteKnownAssetUrls_segments prod.case, THEN stored_zip_roundtrip]
    by (simp add: bytesFor_def comp_def inc del: js_simps)
  moreover have "i \<in> set ?ix" if "Asset i \<in> set ?gs" for i
    using segments_assets [OF that] that by simp
  ultimately show ?thesis
    by (auto simp: Let_def segments_restore simp del: js_simps)
qed

definition demo_asset :: bundle_asset where
  "demo_asset = \<lparr>asset_id = js ''a1'', asset_url = js ''/v1/a1'', filename = js ''p.png'', mediaType = js ''image/png'',
     asset_bytes = 3, sha256 = js ''00'', asset_blob = [1, 2, 3]\<rparr>"

theorem bundle_self_contained_witness:
  "\<exists>archive. createPortableBundle (js ''doc'') (js ''see /v1/a1'') [demo_asset] = Inr archive
    \<and> (encode_text (js ''assets/a1.png''), [1, 2, 3]) \<in> set (the (unzip_archive archive))"
proof -
  have g: "segments [js ''/v1/a1''] (js ''see /v1/a1'') = map Kept (js ''see '') @ [Asset 0]" by code_simp
  have p: "candidate_path demo_asset = js ''assets/a1.png''" by code_simp
  let ?m = "manifest_text (js ''doc'') [demo_asset] @ [10]"
  have l: "length ?m \<le> 400" by code_simp
  then have ml: "length (encode_text ?m) \<le> 1600" using length_utf8_le [of ?m] by simp
  have safe: "safePath (js ''document.md'') = Inr (encode_text (js ''document.md''))" "length (encode_text (js ''document.md'')) = 11"
    "safePath (js ''manifest.json'') = Inr (encode_text (js ''manifest.json''))" "length (encode_text (js ''manifest.json'')) = 13"
    "safePath (js ''assets/a1.png'') = Inr (encode_text (js ''assets/a1.png''))" "length (encode_text (js ''assets/a1.png'')) = 13"
    "length (encode_text (js ''see '' @ js ''assets/a1.png'')) = 17"
    by (simp_all add: safePath_def encode_text_def utf8_bytes_def u16_def)
  have "concat (map (segment_text [js ''assets/a1.png'']) (map Kept (js ''see '') @ [Asset 0])) = js ''see '' @ js ''assets/a1.png''"
    by (simp add: segment_text_def)
  then have r: "rewriteKnownAssetUrls (js ''see /v1/a1'') [(js ''/v1/a1'', js ''assets/a1.png'')] = (js ''see '' @ js ''assets/a1.png'', [True])"
    by (simp add: rewriteKnownAssetUrls_segments g del: js_simps)
  have u: "asset_url demo_asset = js ''/v1/a1''" "asset_blob demo_asset = [1, 2, 3]" by (simp_all add: demo_asset_def)
  obtain archive where a: "createPortableBundle (js ''doc'') (js ''see /v1/a1'') [demo_asset] = Inr archive"
    using safe ml
    by (auto simp: createPortableBundle_def p u r buildStoredZip_def bytesFor_def Let_def simp del: js_simps)
  then show ?thesis
    using bundle_self_contained [OF a] by (simp add: Let_def p u g del: js_simps)
qed

end
