(* ===== verification/Run_Store.thy ===== *)
theory Run_Store
  imports Wire_Protocol
begin

text \<open>
  The record of a hosted agent run that survives a reload (\<open>client/src/agent/run-store.ts\<close>), in the
  session storage of the tab. A stored text is represented by the value \<open>JSON.parse\<close> gives for it,
  \<open>None\<close> where it throws; the empty text, which the code takes for an absent one, is absent here.
\<close>

section \<open>The record\<close>

datatype call_state = Executing_Call | Terminal_Call
datatype call_status = Call_Succeeded | Call_Failed | Call_Cancelled

record stored_call =
  call_id :: js_text
  call_request :: js_text
  call_command :: js_text
  call_state :: call_state
  call_status :: "call_status option"
  call_message :: "js_text option"
  call_error :: "js_text option"

record run_record =
  rec_document :: js_text
  rec_run :: js_text
  rec_request :: js_text
  events_url :: js_text
  expires_at :: int
  last_event_id :: js_text
  stored_calls :: "stored_call list"

definition MAX_CALLS :: nat where "MAX_CALLS = 8"
definition MAX_DETAIL_CHARS :: nat where "MAX_DETAIL_CHARS = 1024"

section \<open>Writing\<close>

definition state_text :: "call_state \<Rightarrow> js_text" where
  "state_text s = (case s of Executing_Call \<Rightarrow> js ''executing'' | Terminal_Call \<Rightarrow> js ''terminal'')"

definition status_text :: "call_status \<Rightarrow> js_text" where
  "status_text s = (case s of Call_Succeeded \<Rightarrow> js ''succeeded'' | Call_Failed \<Rightarrow> js ''failed'' | Call_Cancelled \<Rightarrow> js ''cancelled'')"

text \<open>\<open>JSON.stringify\<close> leaves out a property whose value is \<open>undefined\<close>.\<close>

definition optional_property :: "string \<Rightarrow> js_text option \<Rightarrow> (js_text \<times> json) list" where
  "optional_property name v = (case v of None \<Rightarrow> [] | Some s \<Rightarrow> [(js name, JString s)])"

definition call_json :: "stored_call \<Rightarrow> json" where
  "call_json c = JObject
     ([(js ''callId'', JString (call_id c)), (js ''requestId'', JString (call_request c)), (js ''commandId'', JString (call_command c)),
       (js ''state'', JString (state_text (call_state c)))]
      @ optional_property ''status'' (map_option status_text (call_status c))
      @ optional_property ''message'' (call_message c)
      @ optional_property ''error'' (call_error c))"

definition record_json :: "run_record \<Rightarrow> json" where
  "record_json r = JObject
     [(js ''version'', JInt 1), (js ''documentId'', JString (rec_document r)), (js ''runId'', JString (rec_run r)),
      (js ''requestId'', JString (rec_request r)), (js ''eventsUrl'', JString (events_url r)), (js ''expiresAtMs'', JInt (expires_at r)),
      (js ''lastEventId'', JString (last_event_id r)), (js ''calls'', JArray (map call_json (stored_calls r)))]"

definition bounded_call :: "stored_call \<Rightarrow> stored_call" where
  "bounded_call c = c\<lparr>call_message := map_option (take MAX_DETAIL_CHARS) (call_message c), call_error := map_option (take MAX_DETAIL_CHARS) (call_error c)\<rparr>"

definition bounded_record :: "run_record \<Rightarrow> run_record" where
  "bounded_record r = r\<lparr>stored_calls := map bounded_call (drop (length (stored_calls r) - MAX_CALLS) (stored_calls r))\<rparr>"

type_synonym session_storage = "js_text \<rightharpoonup> json option"

definition writeActiveHostedRun :: "run_record \<Rightarrow> session_storage \<Rightarrow> session_storage" where
  "writeActiveHostedRun r storage = storage(rec_document r \<mapsto> Some (record_json (bounded_record r)))"

definition clearActiveHostedRun :: "js_text \<Rightarrow> session_storage \<Rightarrow> session_storage" where
  "clearActiveHostedRun documentId storage = storage(documentId := None)"

section \<open>Reading\<close>

definition boundedId :: "json option \<Rightarrow> js_text option" where
  "boundedId v = (case v of Some (JString s) \<Rightarrow> if 0 < length s \<and> length s \<le> 160 then Some s else None | _ \<Rightarrow> None)"

definition optionalBoundedString :: "json option \<Rightarrow> js_text option option" where
  "optionalBoundedString v =
     (case v of
        None \<Rightarrow> Some None
      | Some (JString s) \<Rightarrow> if length s \<le> MAX_DETAIL_CHARS then Some (Some s) else None
      | _ \<Rightarrow> None)"

definition isStatus :: "json option \<Rightarrow> call_status option" where
  "isStatus v =
     (case v of
        Some (JString s) \<Rightarrow>
          if s = js ''succeeded'' then Some Call_Succeeded
          else if s = js ''failed'' then Some Call_Failed
          else if s = js ''cancelled'' then Some Call_Cancelled
          else None
      | _ \<Rightarrow> None)"

definition call_state_of :: "json option \<Rightarrow> call_state option" where
  "call_state_of v =
     (case v of
        Some (JString s) \<Rightarrow> if s = js ''executing'' then Some Executing_Call else if s = js ''terminal'' then Some Terminal_Call else None
      | _ \<Rightarrow> None)"

definition validate_call :: "json \<Rightarrow> stored_call option" where
  "validate_call v =
     (case v of
        JObject candidate \<Rightarrow>
          (case (boundedId (field candidate ''callId''), boundedId (field candidate ''requestId''), boundedId (field candidate ''commandId''),
             call_state_of (field candidate ''state''), optionalBoundedString (field candidate ''message''),
             optionalBoundedString (field candidate ''error'')) of
             (Some i, Some r, Some c, Some st, Some msg, Some err) \<Rightarrow>
               if (field candidate ''status'' \<noteq> None \<or> st = Terminal_Call) \<and> isStatus (field candidate ''status'') = None then None
               else Some \<lparr>call_id = i, call_request = r, call_command = c, call_state = st, call_status = isStatus (field candidate ''status''),
                          call_message = msg, call_error = err\<rparr>
           | _ \<Rightarrow> None)
      | _ \<Rightarrow> None)"

fun validate_calls :: "json list \<Rightarrow> stored_call list option" where
  "validate_calls [] = Some []"
| "validate_calls (v # vs) =
     (case validate_call v of
        None \<Rightarrow> None
      | Some c \<Rightarrow> map_option ((#) c) (validate_calls vs))"

definition digits :: "js_text \<Rightarrow> bool" where
  "digits s \<longleftrightarrow> list_all (\<lambda>c. 48 \<le> c \<and> c \<le> 57) s"

definition validateRecord :: "json \<Rightarrow> js_text \<Rightarrow> run_record option" where
  "validateRecord v expectedDocumentId =
     (case v of
        JObject o' \<Rightarrow>
          if field o' ''version'' \<noteq> Some (JInt 1) \<or> field o' ''documentId'' \<noteq> Some (JString expectedDocumentId) then None
          else
            (case (boundedId (field o' ''runId''), boundedId (field o' ''requestId''), field o' ''eventsUrl'', field o' ''expiresAtMs'',
               field o' ''lastEventId'', field o' ''calls'') of
               (Some run, Some request, Some (JString url), Some (JInt t), Some (JString last_id), Some (JArray candidates)) \<Rightarrow>
                 if length url > 512 \<or> \<not> is_safe_integer t \<or> \<not> digits last_id \<or> length candidates > MAX_CALLS then None
                 else map_option
                        (\<lambda>cs. \<lparr>rec_document = expectedDocumentId, rec_run = run, rec_request = request, events_url = url, expires_at = t,
                                last_event_id = last_id, stored_calls = cs\<rparr>)
                        (validate_calls candidates)
             | _ \<Rightarrow> None)
      | _ \<Rightarrow> None)"

definition readActiveHostedRun :: "js_text \<Rightarrow> int \<Rightarrow> session_storage \<Rightarrow> run_record option \<times> session_storage" where
  "readActiveHostedRun documentId now storage =
     (case storage documentId of
        None \<Rightarrow> (None, storage)
      | Some raw \<Rightarrow>
          (case Option.bind raw (\<lambda>v. validateRecord v documentId) of
             None \<Rightarrow> (None, clearActiveHostedRun documentId storage)
           | Some r \<Rightarrow> if expires_at r \<le> now then (None, clearActiveHostedRun documentId storage) else (Some r, storage)))"

section \<open>What is read back\<close>

definition id_bounded :: "js_text \<Rightarrow> bool" where
  "id_bounded s \<longleftrightarrow> 0 < length s \<and> length s \<le> 160"

definition call_storable :: "stored_call \<Rightarrow> bool" where
  "call_storable c \<longleftrightarrow>
     id_bounded (call_id c) \<and> id_bounded (call_request c) \<and> id_bounded (call_command c)
     \<and> (call_state c = Terminal_Call \<longrightarrow> call_status c \<noteq> None)"

definition record_storable :: "run_record \<Rightarrow> bool" where
  "record_storable r \<longleftrightarrow>
     id_bounded (rec_run r) \<and> id_bounded (rec_request r) \<and> length (events_url r) \<le> 512 \<and> is_safe_integer (expires_at r)
     \<and> digits (last_event_id r) \<and> list_all call_storable (stored_calls (bounded_record r))"

lemma boundedId_JString: "boundedId (Some (JString s)) = (if id_bounded s then Some s else None)"
  by (simp add: boundedId_def id_bounded_def)

lemma isStatus_text: "isStatus (Some (JString (status_text s))) = Some s"
  by (cases s) (simp_all add: isStatus_def status_text_def)

lemma state_of_text: "call_state_of (Some (JString (state_text s))) = Some s"
  by (cases s) (simp_all add: call_state_of_def state_text_def)

lemma optional_bounded: "optionalBoundedString (map_option JString (map_option (take MAX_DETAIL_CHARS) v)) = Some (map_option (take MAX_DETAIL_CHARS) v)"
  by (cases v) (simp_all add: optionalBoundedString_def)

lemma field_optional: "map_of (optional_property n v) (js m) = (if m = n then map_option JString v else None)"
  by (cases v) (simp_all add: optional_property_def del: js_simps)

lemma bounded_call_fields:
  "bounded_call c = \<lparr>call_id = call_id c, call_request = call_request c, call_command = call_command c, call_state = call_state c,
     call_status = call_status c, call_message = call_message (bounded_call c), call_error = call_error (bounded_call c)\<rparr>"
  by (simp add: bounded_call_def)

lemma validate_bounded_call: "validate_call (call_json (bounded_call c)) = (if call_storable c then Some (bounded_call c) else None)"
proof -
  let ?c = "bounded_call c"
  have f: "\<exists>kvs. call_json ?c = JObject kvs
      \<and> field kvs ''callId'' = Some (JString (call_id c)) \<and> field kvs ''requestId'' = Some (JString (call_request c))
      \<and> field kvs ''commandId'' = Some (JString (call_command c)) \<and> field kvs ''state'' = Some (JString (state_text (call_state c)))
      \<and> field kvs ''status'' = map_option (\<lambda>s. JString (status_text s)) (call_status c)
      \<and> field kvs ''message'' = map_option JString (call_message ?c) \<and> field kvs ''error'' = map_option JString (call_error ?c)"
    by (simp add: call_json_def field_def map_add_def field_optional bounded_call_def option.map_comp comp_def del: js_simps split: option.split)
  have st: "isStatus (map_option (\<lambda>s. JString (status_text s)) (call_status c)) = call_status c"
    by (cases "call_status c") (simp_all add: isStatus_text, simp add: isStatus_def)
  have m: "optionalBoundedString (map_option JString (call_message ?c)) = Some (call_message ?c)"
    "optionalBoundedString (map_option JString (call_error ?c)) = Some (call_error ?c)"
    by (simp_all add: bounded_call_def optional_bounded)
  obtain kvs where v: "call_json ?c = JObject kvs" and fs: "field kvs ''callId'' = Some (JString (call_id c))"
    "field kvs ''requestId'' = Some (JString (call_request c))" "field kvs ''commandId'' = Some (JString (call_command c))"
    "field kvs ''state'' = Some (JString (state_text (call_state c)))"
    "field kvs ''status'' = map_option (\<lambda>s. JString (status_text s)) (call_status c)"
    "field kvs ''message'' = map_option JString (call_message ?c)" "field kvs ''error'' = map_option JString (call_error ?c)"
    using f by blast
  have "validate_call (call_json ?c) = (if call_storable c
      then Some \<lparr>call_id = call_id c, call_request = call_request c, call_command = call_command c, call_state = call_state c,
             call_status = call_status c, call_message = call_message ?c, call_error = call_error ?c\<rparr> else None)"
    using st by (cases "call_status c") (simp_all add: v validate_call_def fs boundedId_JString state_of_text m call_storable_def)
  then show ?thesis by (simp add: bounded_call_fields [symmetric])
qed

lemma validate_bounded_calls:
  "validate_calls (map (\<lambda>c. call_json (bounded_call c)) cs) = (if list_all call_storable cs then Some (map bounded_call cs) else None)"
  by (induction cs) (simp_all add: validate_bounded_call)

lemma call_storable_bounded [simp]: "call_storable (bounded_call c) = call_storable c"
  by (simp add: call_storable_def bounded_call_def)

lemma validate_written:
  "validateRecord (record_json (bounded_record r)) d = (if rec_document r = d \<and> record_storable r then Some (bounded_record r) else None)"
proof -
  let ?cs = "drop (length (stored_calls r) - MAX_CALLS) (stored_calls r)"
  have "length ?cs \<le> MAX_CALLS" by simp
  moreover have "list_all call_storable (stored_calls (bounded_record r)) = list_all call_storable ?cs"
    by (simp add: bounded_record_def list_all_iff)
  ultimately show ?thesis
    using validate_bounded_calls [of ?cs]
    by (auto simp: validateRecord_def record_json_def field_def boundedId_JString record_storable_def bounded_record_def comp_def)
qed

text \<open>
  What a page left behind is what the next page finds. Writing a run and reading it gives the
  run with its last eight calls and its details cut to 1,024 units, unless it has expired or one of
  its identifiers, its address, its times or its event number is not one the store accepts; then
  nothing is read and the entry is removed, and other documents are not touched.
\<close>

theorem run_store_roundtrip:
  "readActiveHostedRun (rec_document r) now (writeActiveHostedRun r storage)
   = (if record_storable r \<and> now < expires_at r then (Some (bounded_record r), writeActiveHostedRun r storage)
      else (None, clearActiveHostedRun (rec_document r) storage))"
proof -
  have "expires_at (bounded_record r) = expires_at r" by (simp add: bounded_record_def)
  then show ?thesis by (simp add: readActiveHostedRun_def writeActiveHostedRun_def validate_written clearActiveHostedRun_def)
qed

end
