(* ===== verification/Agent_Stream.thy ===== *)
theory Agent_Stream
  imports Presence_Codec
begin

text \<open>
  The event stream of a hosted agent run (\<open>client/src/agent/gateway.ts\<close>): cutting the text of a
  response into frames, parsing a frame into an event, and the loop that reconnects after the last
  event it accepted. The text decoder hands on pieces of text; \<open>JSON.parse\<close> is the parameter
  \<open>parse_json\<close>.
\<close>

section \<open>Events\<close>

datatype gateway_error = Invalid_Response | Http_Error nat | Consumer_Error

datatype hosted_event =
    Run_Started js_text js_text int
  | Assistant_Delta js_text
  | Tool_Call js_text js_text js_text "(js_text \<times> json) list" js_text js_text
  | Tool_Result_Accepted js_text js_text
  | Run_Completed js_text int int int
  | Run_Failed js_text
  | Run_Cancelled

record envelope =
  env_id :: js_text
  env_event :: hosted_event

definition terminal_event :: "hosted_event \<Rightarrow> bool" where
  "terminal_event e \<longleftrightarrow> (case e of Run_Completed _ _ _ _ \<Rightarrow> True | Run_Failed _ \<Rightarrow> True | Run_Cancelled \<Rightarrow> True | _ \<Rightarrow> False)"

definition text_field :: "(js_text \<times> json) list \<Rightarrow> string \<Rightarrow> js_text option" where
  "text_field v name = (case field v name of Some (JString s) \<Rightarrow> Some s | _ \<Rightarrow> None)"

definition one_of :: "(js_text \<times> json) list \<Rightarrow> string \<Rightarrow> string list \<Rightarrow> js_text option" where
  "one_of v name xs = (case text_field v name of Some s \<Rightarrow> if s \<in> set (map js xs) then Some s else None | None \<Rightarrow> None)"

definition isNonNegativeInteger :: "json option \<Rightarrow> int option" where
  "isNonNegativeInteger v = (case v of Some (JInt n) \<Rightarrow> if is_safe_integer n \<and> 0 \<le> n then Some n else None | _ \<Rightarrow> None)"

definition object_field :: "(js_text \<times> json) list \<Rightarrow> string \<Rightarrow> (js_text \<times> json) list option" where
  "object_field v name = (case field v name of Some (JObject o') \<Rightarrow> Some o' | _ \<Rightarrow> None)"

definition parseRunEvent :: "js_text \<Rightarrow> json \<Rightarrow> gateway_error + hosted_event" where
  "parseRunEvent eventName v =
     (let valid = (\<lambda>e. case e of Some x \<Rightarrow> Inr x | None \<Rightarrow> Inl Invalid_Response)
      in case v of
           JObject o' \<Rightarrow>
             if field o' ''type'' \<noteq> None then Inl Invalid_Response
             else if eventName = js ''run.started'' then
               valid (case (text_field o' ''runId'', text_field o' ''documentId'', one_of o' ''status'' [''running''], isNonNegativeInteger (field o' ''createdAtMs'')) of
                        (Some r, Some d, Some _, Some t) \<Rightarrow> Some (Run_Started r d t) | _ \<Rightarrow> None)
             else if eventName = js ''assistant.delta'' then valid (map_option Assistant_Delta (text_field o' ''text''))
             else if eventName = js ''tool.call'' then
               valid (case (text_field o' ''callId'', text_field o' ''commandId'', text_field o' ''name'', object_field o' ''arguments'',
                        one_of o' ''effect'' [''read'', ''write'', ''destructive''], one_of o' ''durability'' [''ephemeral'', ''document'', ''external'']) of
                        (Some i, Some c, Some n, Some a, Some e, Some d) \<Rightarrow> Some (Tool_Call i c n a e d) | _ \<Rightarrow> None)
             else if eventName = js ''tool.result.accepted'' then
               valid (case (text_field o' ''callId'', one_of o' ''status'' [''succeeded'', ''failed'', ''cancelled'']) of
                        (Some i, Some st) \<Rightarrow> Some (Tool_Result_Accepted i st) | _ \<Rightarrow> None)
             else if eventName = js ''run.completed'' then
               valid (case (one_of o' ''status'' [''completed''], text_field o' ''outputText'', object_field o' ''usage'') of
                        (Some _, Some t, Some u) \<Rightarrow>
                          (case (isNonNegativeInteger (field u ''inputTokens''), isNonNegativeInteger (field u ''outputTokens''),
                             isNonNegativeInteger (field u ''totalTokens'')) of
                             (Some a, Some b, Some c) \<Rightarrow> Some (Run_Completed t a b c) | _ \<Rightarrow> None)
                      | _ \<Rightarrow> None)
             else if eventName = js ''run.failed'' then
               valid (case (one_of o' ''status'' [''failed''], text_field o' ''code'') of (Some _, Some c) \<Rightarrow> Some (Run_Failed c) | _ \<Rightarrow> None)
             else if eventName = js ''run.cancelled'' then valid (map_option (\<lambda>_. Run_Cancelled) (one_of o' ''status'' [''cancelled'']))
             else Inl Invalid_Response
         | _ \<Rightarrow> Inl Invalid_Response)"

section \<open>Frames\<close>

definition MAX_EVENT_BYTES :: nat where
  "MAX_EVENT_BYTES = 128 * 1024"

text \<open>Where the first empty line is, and its length.\<close>

definition eventBoundary :: "js_text \<Rightarrow> (nat \<times> nat) option" where
  "eventBoundary s =
     (case (index_of [10, 10] s 0, index_of [13, 10, 13, 10] s 0) of
        (None, None) \<Rightarrow> None
      | (Some lf, None) \<Rightarrow> Some (lf, 2)
      | (None, Some crlf) \<Rightarrow> Some (crlf, 4)
      | (Some lf, Some crlf) \<Rightarrow> if crlf < lf then Some (crlf, 4) else Some (lf, 2))"

text \<open>\<open>split(/\\r?\\n/)\<close>: a carriage return before a line feed belongs to the separator.\<close>

definition drop_cr :: "js_text \<Rightarrow> js_text" where
  "drop_cr l = (if l \<noteq> [] \<and> last l = 13 then butlast l else l)"

definition split_lines :: "js_text \<Rightarrow> js_text list" where
  "split_lines s = (let ls = js_split 10 s in map drop_cr (butlast ls) @ [last ls])"

record frame_fields =
  ff_id :: js_text
  ff_event :: js_text
  ff_data :: "js_text list"

definition read_line :: "frame_fields \<Rightarrow> js_text \<Rightarrow> frame_fields" where
  "read_line f rawLine =
     (if rawLine = [] \<or> hd rawLine = 58 then f
      else
        let name = takeWhile (\<lambda>c. c \<noteq> 58) rawLine;
            value' = drop 1 (dropWhile (\<lambda>c. c \<noteq> 58) rawLine);
            value' = (if value' \<noteq> [] \<and> hd value' = 32 then tl value' else value')
        in if name = js ''id'' then f\<lparr>ff_id := value'\<rparr>
           else if name = js ''event'' then f\<lparr>ff_event := value'\<rparr>
           else if name = js ''data'' then f\<lparr>ff_data := ff_data f @ [value']\<rparr>
           else f)"

definition numeric_id :: "js_text \<Rightarrow> bool" where
  "numeric_id s \<longleftrightarrow> s \<noteq> [] \<and> list_all (\<lambda>c. 48 \<le> c \<and> c \<le> 57) s"

definition parseFrame :: "(js_text \<Rightarrow> json option) \<Rightarrow> js_text \<Rightarrow> gateway_error + envelope option" where
  "parseFrame parse_json fr =
     (let fr = (if fr \<noteq> [] \<and> hd fr = 0xFEFF then tl fr else fr);
          f = foldl read_line \<lparr>ff_id = [], ff_event = [], ff_data = []\<rparr> (split_lines fr);
          serialized = js_join 10 (ff_data f)
      in if ff_data f = [] then Inr None
         else if \<not> numeric_id (ff_id f) then Inl Invalid_Response
         else if ff_event f = [] then Inl Invalid_Response
         else if length (encode_text serialized) > MAX_EVENT_BYTES then Inl Invalid_Response
         else case parse_json serialized of
                None \<Rightarrow> Inl Invalid_Response
              | Some v \<Rightarrow>
                  (case parseRunEvent (ff_event f) v of
                     Inl e \<Rightarrow> Inl e
                   | Inr e \<Rightarrow> Inr (Some \<lparr>env_id = ff_id f, env_event = e\<rparr>)))"

definition compareEventIds :: "js_text \<Rightarrow> js_text \<Rightarrow> int" where
  "compareEventIds left right =
     (let a = radix_value 10 left; b = radix_value 10 right in if a < b then - 1 else if a > b then 1 else 0)"

text \<open>The complete frames at the front of the buffer, and what is left.\<close>

lemma eventBoundary_bounds: "eventBoundary s = Some (i, l) \<Longrightarrow> 2 \<le> l \<and> i + l \<le> length s"
  by (auto simp: eventBoundary_def dest: index_of_lt_length split: option.splits if_splits)

function take_frames :: "js_text \<Rightarrow> js_text list \<times> js_text" where
  "take_frames buffer =
     (case eventBoundary buffer of
        None \<Rightarrow> ([], buffer)
      | Some (i, l) \<Rightarrow> (let (fs, r) = take_frames (drop (i + l) buffer) in (take i buffer # fs, r)))"
  by pat_completeness auto
termination by (relation "measure length") (auto dest: eventBoundary_bounds)

declare take_frames.simps [simp del]

section \<open>The generator\<close>

text \<open>The events of some frames, up to the first that is refused.\<close>

fun parse_frames :: "(js_text \<Rightarrow> json option) \<Rightarrow> js_text list \<Rightarrow> envelope list \<times> gateway_error option" where
  "parse_frames parse_json [] = ([], None)"
| "parse_frames parse_json (f # fs) =
     (case parseFrame parse_json f of
        Inl e \<Rightarrow> ([], Some e)
      | Inr None \<Rightarrow> parse_frames parse_json fs
      | Inr (Some env) \<Rightarrow> (let (es, err) = parse_frames parse_json fs in (env # es, err)))"

text \<open>
  \<open>parseEventStream\<close> over the pieces of a response that ends: what it yields, and the error it
  throws. The size limit applies to a buffer that has no boundary.
\<close>

fun parseEventStream :: "(js_text \<Rightarrow> json option) \<Rightarrow> js_text \<Rightarrow> js_text list \<Rightarrow> envelope list \<times> gateway_error option" where
  "parseEventStream parse_json buffer [] =
     (if js_trim buffer = [] then ([], None) else parse_frames parse_json [buffer])"
| "parseEventStream parse_json buffer (piece # pieces) =
     (if length (encode_text (buffer @ piece)) > MAX_EVENT_BYTES \<and> eventBoundary (buffer @ piece) = None then ([], Some Invalid_Response)
      else
        let (fs, rest) = take_frames (buffer @ piece)
        in case parse_frames parse_json fs of
             (es, Some e) \<Rightarrow> (es, Some e)
           | (es, None) \<Rightarrow> (let (es', err) = parseEventStream parse_json rest pieces in (es @ es', err)))"

section \<open>How a response is cut does not matter\<close>

lemma occurs_at_append: "i + length needle \<le> length a \<Longrightarrow> occurs_at needle (a @ b) i \<longleftrightarrow> occurs_at needle a i"
  by (simp add: occurs_at_def js_slice_def)

lemma index_of_append:
  assumes "index_of needle a 0 = Some i"
  shows "index_of needle (a @ b) 0 = Some i"
proof (cases "index_of needle (a @ b) 0")
  case None
  then have "\<not> occurs_at needle (a @ b) i" by (rule index_of_None) simp
  then show ?thesis using index_of_Some [OF assms] index_of_lt_length [OF assms] by (simp add: occurs_at_append)
next
  case (Some j)
  note a = index_of_Some [OF assms] index_of_lt_length [OF assms] and ab = index_of_Some [OF Some]
  have "\<not> i < j" using a ab by (auto simp: occurs_at_append)
  moreover have "\<not> j < i" using a ab by (auto simp: occurs_at_append)
  ultimately show ?thesis using Some by simp
qed

lemma index_of_append_new:
  assumes "index_of needle a 0 = None" "index_of needle (a @ b) 0 = Some i"
  shows "length a < i + length needle"
proof (rule ccontr)
  assume "\<not> length a < i + length needle"
  then have "occurs_at needle a i" using index_of_Some [OF assms(2)] by (simp add: occurs_at_append)
  then show False using index_of_None [OF assms(1)] by simp
qed

lemma occurs_at_nth:
  assumes "occurs_at needle s i" "k < length needle"
  shows "s ! (i + k) = needle ! k"
proof -
  have n: "js_slice i (i + length needle) s = needle" and l: "i + length needle \<le> length s"
    using assms(1) by (simp_all add: occurs_at_def)
  have "js_slice i (i + length needle) s ! k = s ! (i + k)" by (rule js_slice_nth) (use assms(2) l in simp_all)
  then show ?thesis unfolding n by simp
qed

lemma boundaries_apart:
  fixes s :: js_text
  assumes "occurs_at [10, 10] s i" "occurs_at [13, 10, 13, 10] s j" "j < i" "i < j + 3"
  shows False
proof -
  have v: "s ! i = 10" "s ! (i + 1) = 10" "s ! j = 13" "s ! (j + 2) = 13"
    using occurs_at_nth [OF assms(1), of 0] occurs_at_nth [OF assms(1), of 1]
      occurs_at_nth [OF assms(2), of 0] occurs_at_nth [OF assms(2), of 2] by simp_all
  from assms(3,4) consider "i = j + 1" | "i = j + 2" by linarith
  then show False using v by cases simp_all
qed

lemma eventBoundary_append:
  assumes "eventBoundary a = Some p"
  shows "eventBoundary (a @ b) = Some p"
proof -
  consider (lf) i where "index_of [10, 10] a 0 = Some i" "index_of [13, 10, 13, 10] a 0 = None" "p = (i, 2)"
    | (crlf) j where "index_of [10, 10] a 0 = None" "index_of [13, 10, 13, 10] a 0 = Some j" "p = (j, 4)"
    | (both) i j where "index_of [10, 10] a 0 = Some i" "index_of [13, 10, 13, 10] a 0 = Some j" "p = (if j < i then (j, 4) else (i, 2))"
    using assms by (auto simp: eventBoundary_def split: option.splits if_splits)
  then show ?thesis
  proof cases
    case lf
    have i: "i + 2 \<le> length a" using index_of_lt_length [OF lf(1)] by simp
    have "\<not> j < i" if j: "index_of [13, 10, 13, 10] (a @ b) 0 = Some j" for j
    proof
      assume "j < i"
      moreover have "length a < j + 4" using index_of_append_new [OF lf(2) j] by simp
      ultimately show False
        using boundaries_apart [of "a @ b" i j] index_of_Some [OF j] index_of_Some [OF index_of_append [OF lf(1), of b]] i by auto
    qed
    then show ?thesis using index_of_append [OF lf(1), of b] lf(3) by (auto simp: eventBoundary_def split: option.splits)
  next
    case crlf
    have j: "j + 4 \<le> length a" using index_of_lt_length [OF crlf(2)] by simp
    have "j < i" if i: "index_of [10, 10] (a @ b) 0 = Some i" for i
      using index_of_append_new [OF crlf(1) i] j by simp
    then show ?thesis using index_of_append [OF crlf(2), of b] crlf(3) by (auto simp: eventBoundary_def split: option.splits)
  next
    case both
    then show ?thesis using index_of_append [OF both(1), of b] index_of_append [OF both(2), of b] by (simp add: eventBoundary_def)
  qed
qed

lemma take_frames_append:
  "take_frames (a @ b) = (let (fs, r) = take_frames a; (gs, q) = take_frames (r @ b) in (fs @ gs, q))"
proof (induction a rule: take_frames.induct)
  case (1 a)
  show ?case
  proof (cases "eventBoundary a")
    case None
    then show ?thesis by (subst (2) take_frames.simps) simp
  next
    case (Some p)
    obtain i l where p: "p = (i, l)" by fastforce
    have b: "i + l \<le> length a" using eventBoundary_bounds Some p by blast
    have "take_frames (a @ b) = (let (fs, r) = take_frames (drop (i + l) a @ b) in (take i a # fs, r))"
      by (subst take_frames.simps) (use eventBoundary_append [OF Some, of b] p b in simp)
    moreover have "take_frames a = (let (fs, r) = take_frames (drop (i + l) a) in (take i a # fs, r))"
      by (subst take_frames.simps) (simp add: Some p)
    ultimately show ?thesis using 1 [OF Some, of i l] p by (simp add: Let_def split: prod.splits)
  qed
qed

lemma parse_frames_append:
  "parse_frames pj (fs @ gs) =
     (case parse_frames pj fs of (es, Some e) \<Rightarrow> (es, Some e) | (es, None) \<Rightarrow> (let (es', err) = parse_frames pj gs in (es @ es', err)))"
  by (induction fs) (auto simp: Let_def split: sum.splits option.splits prod.splits)

text \<open>No buffer that has no boundary is over the limit.\<close>

fun within_limit :: "js_text \<Rightarrow> js_text list \<Rightarrow> bool" where
  "within_limit buffer [] \<longleftrightarrow> True"
| "within_limit buffer (piece # pieces) \<longleftrightarrow>
     (length (encode_text (buffer @ piece)) \<le> MAX_EVENT_BYTES \<or> eventBoundary (buffer @ piece) \<noteq> None)
     \<and> within_limit (snd (take_frames (buffer @ piece))) pieces"

text \<open>The events of a whole text: its frames, and what follows the last one unless it is blank.\<close>

definition events_of :: "(js_text \<Rightarrow> json option) \<Rightarrow> js_text \<Rightarrow> envelope list \<times> gateway_error option" where
  "events_of parse_json s =
     (let (fs, r) = take_frames s in parse_frames parse_json (fs @ (if js_trim r = [] then [] else [r])))"

lemma take_frames_rest: "take_frames x = (fs, r) \<Longrightarrow> eventBoundary r = None"
proof (induction x arbitrary: fs r rule: take_frames.induct)
  case (1 x)
  show ?case
  proof (cases "eventBoundary x")
    case None
    then show ?thesis using 1(2) by (simp add: take_frames.simps [of x])
  next
    case (Some p)
    obtain i l where p: "p = (i, l)" by fastforce
    then show ?thesis using 1(1) [OF Some, of i l] 1(2) Some by (auto simp: take_frames.simps [of x] split: prod.splits)
  qed
qed

lemma take_frames_shorter: "take_frames x = (fs, r) \<Longrightarrow> length r \<le> length x"
proof (induction x arbitrary: fs r rule: take_frames.induct)
  case (1 x)
  show ?case
  proof (cases "eventBoundary x")
    case None
    then show ?thesis using 1(2) by (simp add: take_frames.simps [of x])
  next
    case (Some p)
    obtain i l where p: "p = (i, l)" by fastforce
    obtain gs where g: "take_frames (drop (i + l) x) = (gs, r)"
      using 1(2) Some p by (auto simp: take_frames.simps [of x] split: prod.splits)
    have "length r \<le> length (drop (i + l) x)" using Some p g by (intro 1(1)) auto
    then show ?thesis by simp
  qed
qed

text \<open>A response of at most a quarter of the limit in code units is within it.\<close>

lemma within_limit_short: "4 * (length buffer + length (concat pieces)) \<le> MAX_EVENT_BYTES \<Longrightarrow> within_limit buffer pieces"
proof (induction pieces arbitrary: buffer)
  case (Cons piece pieces)
  have "length (encode_text (buffer @ piece)) \<le> MAX_EVENT_BYTES"
    using length_utf8_le [of "buffer @ piece"] Cons.prems by simp
  moreover have "within_limit (snd (take_frames (buffer @ piece))) pieces"
    using take_frames_shorter [of "buffer @ piece"] Cons.prems
    by (cases "take_frames (buffer @ piece)", intro Cons.IH) simp
  ultimately show ?case by simp
qed simp

lemma parseEventStream_events:
  "within_limit buffer pieces \<Longrightarrow> take_frames buffer = ([], buffer)
   \<Longrightarrow> parseEventStream pj buffer pieces = events_of pj (buffer @ concat pieces)"
proof (induction pieces arbitrary: buffer)
  case Nil
  then show ?case by (simp add: events_of_def split: prod.splits)
next
  case (Cons piece pieces)
  obtain fs r where t: "take_frames (buffer @ piece) = (fs, r)" by fastforce
  have idem: "take_frames r = ([], r)"
  proof -
    have "eventBoundary r = None" using t by (rule take_frames_rest)
    then show ?thesis by (subst take_frames.simps) simp
  qed
  have whole: "take_frames (buffer @ concat (piece # pieces)) = (let (gs, q) = take_frames (r @ concat pieces) in (fs @ gs, q))"
    using take_frames_append [of "buffer @ piece" "concat pieces"] t by simp
  have "parseEventStream pj r pieces = events_of pj (r @ concat pieces)"
    using Cons.IH [of r] Cons.prems(1) t idem by simp
  moreover obtain gs q where g: "take_frames (r @ concat pieces) = (gs, q)" by fastforce
  ultimately show ?case
    using Cons.prems(1) t whole
    by (auto simp: events_of_def Let_def parse_frames_append split: prod.splits option.splits)
qed

section \<open>The reconnecting loop\<close>

text \<open>
  Where \<open>streamHostedAgentRun\<close> is suspended: in the request, reading with some buffered text, in the
  consumer of an event (with the rest of the buffer and whether the response has ended), in the
  delay before the next request; or it has returned or thrown.
\<close>

datatype stream_phase =
    Requesting
  | Reading js_text
  | Consuming envelope js_text bool
  | Waiting
  | Returned
  | Threw_Error gateway_error

record agent_stream =
  after :: js_text
  reconnectDelay :: nat
  stream_phase :: stream_phase
  delivered :: "envelope list"
  stream_aborted :: bool

definition MAX_RECONNECT_DELAY_MS :: nat where
  "MAX_RECONNECT_DELAY_MS = 5000"

definition new_stream :: "js_text \<Rightarrow> agent_stream" where
  "new_stream a = \<lparr>after = a, reconnectDelay = 400, stream_phase = Requesting, delivered = [], stream_aborted = False\<rparr>"

definition stale :: "agent_stream \<Rightarrow> envelope \<Rightarrow> bool" where
  "stale st env \<longleftrightarrow> after st \<noteq> [] \<and> compareEventIds (env_id env) (after st) \<le> 0"

definition stream_over :: "agent_stream \<Rightarrow> agent_stream" where
  "stream_over st = st\<lparr>stream_phase := (if stream_aborted st then Returned else Waiting)\<rparr>"

definition stream_fails :: "gateway_error \<Rightarrow> agent_stream \<Rightarrow> agent_stream" where
  "stream_fails e st = st\<lparr>stream_phase := (if stream_aborted st then Returned else Threw_Error e)\<rparr>"

definition deliver_event :: "envelope \<Rightarrow> js_text \<Rightarrow> bool \<Rightarrow> agent_stream \<Rightarrow> agent_stream" where
  "deliver_event env rest ended st =
     st\<lparr>after := env_id env, delivered := delivered st @ [env], stream_phase := Consuming env rest ended\<rparr>"

text \<open>What the generator does with a remainder when it has left its loop.\<close>

definition trailing :: "(js_text \<Rightarrow> json option) \<Rightarrow> js_text \<Rightarrow> agent_stream \<Rightarrow> agent_stream" where
  "trailing parse_json buffer st =
     (if js_trim buffer = [] then stream_over st
      else case parseFrame parse_json buffer of
             Inl e \<Rightarrow> stream_fails e st
           | Inr None \<Rightarrow> stream_over st
           | Inr (Some env) \<Rightarrow> if stale st env then stream_over st else deliver_event env [] True st)"

text \<open>The frames of the buffer up to the next event that is handed to the consumer.\<close>

function drain :: "(js_text \<Rightarrow> json option) \<Rightarrow> js_text \<Rightarrow> bool \<Rightarrow> agent_stream \<Rightarrow> agent_stream" where
  "drain parse_json buffer ended st =
     (case eventBoundary buffer of
        None \<Rightarrow> if ended \<or> stream_aborted st then trailing parse_json buffer st else st\<lparr>stream_phase := Reading buffer\<rparr>
      | Some (i, l) \<Rightarrow>
          (case parseFrame parse_json (take i buffer) of
             Inl e \<Rightarrow> stream_fails e st
           | Inr None \<Rightarrow> drain parse_json (drop (i + l) buffer) ended st
           | Inr (Some env) \<Rightarrow>
               if stale st env then drain parse_json (drop (i + l) buffer) ended st
               else deliver_event env (drop (i + l) buffer) ended st))"
  by pat_completeness auto
termination by (relation "measure (\<lambda>(_, buffer, _). length buffer)") (auto dest: eventBoundary_bounds)

declare drain.simps [simp del]

definition read_piece :: "(js_text \<Rightarrow> json option) \<Rightarrow> js_text \<Rightarrow> bool \<Rightarrow> agent_stream \<Rightarrow> agent_stream" where
  "read_piece parse_json piece ended st =
     (case stream_phase st of
        Reading buffer \<Rightarrow>
          if length (encode_text (buffer @ piece)) > MAX_EVENT_BYTES \<and> eventBoundary (buffer @ piece) = None
          then stream_fails Invalid_Response st
          else drain parse_json (buffer @ piece) ended st
      | _ \<Rightarrow> st)"

definition stream_response :: "bool \<Rightarrow> agent_stream \<Rightarrow> agent_stream" where
  "stream_response event_stream st =
     (if stream_phase st = Requesting
      then st\<lparr>stream_phase := (if event_stream then Reading [] else Threw_Error Invalid_Response)\<rparr> else st)"

definition request_fails :: "nat \<Rightarrow> agent_stream \<Rightarrow> agent_stream" where
  "request_fails st_code st =
     (if stream_phase st \<noteq> Requesting then st
      else st\<lparr>stream_phase := (if 0 < st_code \<and> st_code < 500 then Threw_Error (Http_Error st_code) else Waiting)\<rparr>)"

definition consumer_settles :: "(js_text \<Rightarrow> json option) \<Rightarrow> bool \<Rightarrow> agent_stream \<Rightarrow> agent_stream" where
  "consumer_settles parse_json ok st =
     (case stream_phase st of
        Consuming env rest ended \<Rightarrow>
          if \<not> ok then stream_fails Consumer_Error st
          else if terminal_event (env_event env) then st\<lparr>stream_phase := Returned\<rparr>
          else drain parse_json rest ended st
      | _ \<Rightarrow> st)"

definition delay_over :: "agent_stream \<Rightarrow> agent_stream" where
  "delay_over st =
     (if stream_phase st = Waiting
      then st\<lparr>stream_phase := Requesting, reconnectDelay := min MAX_RECONNECT_DELAY_MS (reconnectDelay st * 2)\<rparr> else st)"

definition stream_abort :: "agent_stream \<Rightarrow> agent_stream" where
  "stream_abort st =
     (case stream_phase st of
        Consuming _ _ _ \<Rightarrow> st\<lparr>stream_aborted := True\<rparr>
      | Threw_Error _ \<Rightarrow> st\<lparr>stream_aborted := True\<rparr>
      | _ \<Rightarrow> st\<lparr>stream_aborted := True, stream_phase := Returned\<rparr>)"

datatype stream_event =
    Response_Arrives bool
  | Request_Fails nat
  | Piece js_text
  | Response_Ends js_text
  | Read_Fails
  | Consumer_Settles bool
  | Delay_Over
  | Stream_Abort

definition stream_step :: "(js_text \<Rightarrow> json option) \<Rightarrow> agent_stream \<Rightarrow> stream_event \<Rightarrow> agent_stream" where
  "stream_step parse_json st e =
     (case e of
        Response_Arrives ok \<Rightarrow> stream_response ok st
      | Request_Fails n \<Rightarrow> request_fails n st
      | Piece p \<Rightarrow> read_piece parse_json p False st
      | Response_Ends p \<Rightarrow> read_piece parse_json p True st
      | Read_Fails \<Rightarrow> (case stream_phase st of Reading _ \<Rightarrow> stream_over st | _ \<Rightarrow> st)
      | Consumer_Settles ok \<Rightarrow> consumer_settles parse_json ok st
      | Delay_Over \<Rightarrow> delay_over st
      | Stream_Abort \<Rightarrow> stream_abort st)"

subsection \<open>Every event once and in order\<close>

definition id_value :: "envelope \<Rightarrow> nat" where
  "id_value env = radix_value 10 (env_id env)"

definition delivery_ok :: "js_text \<Rightarrow> agent_stream \<Rightarrow> bool" where
  "delivery_ok a st \<longleftrightarrow>
     sorted_wrt (<) (map id_value (delivered st))
     \<and> (\<forall>e\<in>set (delivered st). numeric_id (env_id e) \<and> (a \<noteq> [] \<longrightarrow> radix_value 10 a < id_value e))
     \<and> after st = (if delivered st = [] then a else env_id (last (delivered st)))
     \<and> (\<forall>e\<in>set (butlast (delivered st)). \<not> terminal_event (env_event e))"

definition finished :: "agent_stream \<Rightarrow> bool" where
  "finished st \<longleftrightarrow> delivered st \<noteq> [] \<and> terminal_event (env_event (last (delivered st)))"

definition stream_ok :: "js_text \<Rightarrow> agent_stream \<Rightarrow> bool" where
  "stream_ok a st \<longleftrightarrow>
     delivery_ok a st
     \<and> (case stream_phase st of
          Consuming env _ _ \<Rightarrow> delivered st \<noteq> [] \<and> env = last (delivered st)
        | Returned \<Rightarrow> True
        | Threw_Error _ \<Rightarrow> True
        | _ \<Rightarrow> \<not> finished st)"

lemma parseFrame_numeric: "parseFrame pj f = Inr (Some env) \<Longrightarrow> numeric_id (env_id env)"
  by (auto simp: parseFrame_def Let_def split: if_splits option.splits sum.splits)

lemma sorted_last: "sorted_wrt (<) (map f xs) \<Longrightarrow> x \<in> set xs \<Longrightarrow> f x \<le> (f (last xs) :: nat)"
  by (induction xs) (auto intro: less_imp_le bspec [OF _ last_in_set])

lemma deliver_ok:
  assumes ok: "delivery_ok a st" "\<not> finished st" and env: "numeric_id (env_id env)" "\<not> stale st env"
  shows "stream_ok a (deliver_event env rest ended st)"
proof -
  have gt: "radix_value 10 (after st) < id_value env" if "after st \<noteq> []"
    using env(2) that by (auto simp: stale_def compareEventIds_def id_value_def Let_def split: if_splits)
  have new: "id_value e < id_value env" if e: "e \<in> set (delivered st)" for e
  proof -
    have "after st = env_id (last (delivered st))" "numeric_id (env_id (last (delivered st)))"
      using ok(1) e by (auto simp: delivery_ok_def dest: bspec [OF _ last_in_set])
    then have "id_value (last (delivered st)) < id_value env" using gt by (auto simp: numeric_id_def id_value_def)
    moreover have "id_value e \<le> id_value (last (delivered st))" using ok(1) e by (auto simp: delivery_ok_def intro: sorted_last)
    ultimately show ?thesis by simp
  qed
  have "radix_value 10 a < id_value env" if "a \<noteq> []"
    using ok(1) gt new that by (cases "delivered st") (force simp: delivery_ok_def)+
  moreover have "\<not> terminal_event (env_event e)" if "e \<in> set (delivered st)" for e
  proof (cases "delivered st" rule: rev_cases)
    case (snoc xs x)
    then show ?thesis using ok that by (auto simp: delivery_ok_def finished_def)
  qed (use that in simp)
  ultimately show ?thesis
    using ok(1) env(1) new by (auto simp: stream_ok_def deliver_event_def delivery_ok_def sorted_wrt_append)
qed

lemma delivery_ok_phase [simp]: "delivery_ok a (st\<lparr>stream_phase := p\<rparr>) = delivery_ok a st" "finished (st\<lparr>stream_phase := p\<rparr>) = finished st"
  by (simp_all add: delivery_ok_def finished_def)

lemma stream_over_ok: "delivery_ok a st \<Longrightarrow> \<not> finished st \<Longrightarrow> stream_ok a (stream_over st)"
  by (simp add: stream_over_def stream_ok_def)

lemma stream_fails_ok: "delivery_ok a st \<Longrightarrow> stream_ok a (stream_fails e st)"
  by (simp add: stream_fails_def stream_ok_def)

lemma trailing_ok: "delivery_ok a st \<Longrightarrow> \<not> finished st \<Longrightarrow> stream_ok a (trailing pj buffer st)"
  by (auto simp: trailing_def intro: stream_over_ok stream_fails_ok deliver_ok dest: parseFrame_numeric split: sum.splits option.splits)

lemma reading_ok: "delivery_ok a st \<Longrightarrow> \<not> finished st \<Longrightarrow> stream_ok a (st\<lparr>stream_phase := Reading b\<rparr>)"
  by (simp add: stream_ok_def)

lemma drain_ok: "delivery_ok a st \<Longrightarrow> \<not> finished st \<Longrightarrow> stream_ok a (drain pj buffer ended st)"
proof (induction pj buffer ended st rule: drain.induct)
  case (1 pj buffer ended st)
  show ?case
  proof (cases "eventBoundary buffer")
    case None
    then show ?thesis using 1 by (simp add: drain.simps [of pj buffer] trailing_ok reading_ok)
  next
    case (Some p)
    obtain i l where p: "p = (i, l)" by fastforce
    show ?thesis
    proof (cases "parseFrame pj (take i buffer)")
      case (Inl e)
      then show ?thesis using 1 Some p by (simp add: drain.simps [of pj buffer] stream_fails_ok)
    next
      case (Inr r)
      then show ?thesis
        using 1 Some p
        by (cases r) (auto simp: drain.simps [of pj buffer] intro: deliver_ok dest: parseFrame_numeric)
    qed
  qed
qed

lemma stream_okD:
  "stream_ok a st \<Longrightarrow> delivery_ok a st"
  "stream_ok a st \<Longrightarrow> stream_phase st \<in> {Requesting, Waiting} \<union> range Reading \<Longrightarrow> \<not> finished st"
  by (auto simp: stream_ok_def)

lemma stream_okI: "delivery_ok a st \<Longrightarrow> \<not> finished st \<Longrightarrow> (\<And>e r b. stream_phase st \<noteq> Consuming e r b) \<Longrightarrow> stream_ok a st"
  by (simp add: stream_ok_def split: stream_phase.split)

lemma read_piece_ok: "stream_ok a st \<Longrightarrow> stream_ok a (read_piece pj p ended st)"
  using stream_okD [of a st] by (auto simp: read_piece_def intro!: stream_fails_ok drain_ok split: stream_phase.splits)

lemma consumer_settles_ok:
  assumes inv: "stream_ok a st"
  shows "stream_ok a (consumer_settles pj ok st)"
proof (cases "stream_phase st")
  case (Consuming env rest ended)
  have d: "delivery_ok a st" using inv by (simp add: stream_ok_def)
  have "\<not> finished st" if "\<not> terminal_event (env_event env)" using inv that Consuming by (simp add: stream_ok_def finished_def)
  moreover have "stream_ok a (st\<lparr>stream_phase := Returned\<rparr>)" using d by (simp add: stream_ok_def)
  ultimately show ?thesis using Consuming d by (simp add: consumer_settles_def stream_fails_ok drain_ok)
qed (use inv in \<open>simp_all add: consumer_settles_def\<close>)

lemma stream_abort_ok: "stream_ok a st \<Longrightarrow> stream_ok a (stream_abort st)"
  by (cases "stream_phase st") (simp_all add: stream_abort_def stream_ok_def delivery_ok_def finished_def)

lemma request_ok:
  assumes "stream_ok a st"
  shows "stream_ok a (stream_response ok st)" "stream_ok a (request_fails n st)" "stream_ok a (delay_over st)"
proof -
  show "stream_ok a (stream_response ok st)" "stream_ok a (request_fails n st)"
    using assms by (auto simp: stream_response_def request_fails_def stream_ok_def)
  have "delivery_ok a (delay_over st)" "finished (delay_over st) = finished st"
    using stream_okD(1) [OF assms] by (simp_all add: delay_over_def delivery_ok_def finished_def)
  then show "stream_ok a (delay_over st)"
    using assms stream_okD(2) [OF assms] by (cases "stream_phase st = Waiting") (auto simp: delay_over_def intro!: stream_okI)
qed

lemma stream_step_ok:
  assumes "stream_ok a st"
  shows "stream_ok a (stream_step pj st e)"
proof (cases e)
  case Read_Fails
  show ?thesis
    using assms stream_okD [OF assms] Read_Fails
    by (cases "stream_phase st") (simp_all add: stream_step_def stream_over_ok)
qed (use assms in \<open>simp_all add: stream_step_def request_ok read_piece_ok consumer_settles_ok stream_abort_ok\<close>)

lemma new_stream_ok: "stream_ok a (new_stream a)"
  by (simp add: new_stream_def stream_ok_def delivery_ok_def finished_def)

interpretation stream: event_machine "\<lambda>st. st = new_stream a" "stream_step pj" "stream_ok a"
  by unfold_locales (simp_all add: new_stream_ok stream_step_ok)

section \<open>Properties\<close>

text \<open>
  C30. How the network cuts a response does not matter. Whatever pieces the text of a response
  arrives in, boundaries of CR LF pairs and of frames included, the events that are yielded and the
  error that is thrown are those of the whole text, as long as no unfinished frame is over the
  limit.
\<close>

theorem event_stream_chunking:
  assumes "within_limit [] pieces"
  shows "parseEventStream parse_json [] pieces = events_of parse_json (concat pieces)"
  using parseEventStream_events [OF assms] by (simp add: take_frames.simps eventBoundary_def index_of.simps)

text \<open>
  C21. A hosted run's events are handed on once and in order. Through any requests, failures,
  reconnections, repeated events and aborts, the events given to the consumer have strictly
  increasing numbers, all above the one the stream was resumed after; the next request asks for what
  follows the last of them; and after a terminal event nothing more is handed on.
\<close>

theorem agent_events_once_in_order:
  "let st = foldl (stream_step parse_json) (new_stream a) es
   in sorted_wrt (<) (map id_value (delivered st))
     \<and> set (delivered st) \<subseteq> {e. numeric_id (env_id e) \<and> (a = [] \<or> radix_value 10 a < id_value e)}
     \<and> after st = (if delivered st = [] then a else env_id (last (delivered st)))
     \<and> set (butlast (delivered st)) \<subseteq> {e. \<not> terminal_event (env_event e)}"
proof -
  have "stream_ok a (foldl (stream_step parse_json) (new_stream a) es)" by (rule stream.reachable_inv) simp
  then show ?thesis by (auto simp: Let_def stream_ok_def delivery_ok_def)
qed

text \<open>An abort while the consumer is busy leaves the frames that are buffered to be handed on.\<close>

lemma abort_delivers_buffer:
  assumes "stream_phase st = Consuming env rest ended" "\<not> terminal_event (env_event env)" "eventBoundary rest = Some (i, l)"
    and "parseFrame parse_json (take i rest) = Inr (Some e)" "\<not> stale st e"
  shows "stream_phase (consumer_settles parse_json True (stream_abort st)) = Consuming e (drop (i + l) rest) ended"
  using assms by (auto simp: stream_abort_def consumer_settles_def drain.simps [of parse_json rest] stale_def deliver_event_def)

text \<open>
  The response ended cleanly inside a frame: what is there is parsed as a frame and refused, and the
  stream throws instead of asking again.
\<close>

lemma truncated_frame_is_fatal:
  assumes "parse_json (js ''{'') = None"
  shows "stream_phase (foldl (stream_step parse_json) (new_stream [])
     [Response_Arrives True, Piece (js ''id: 4'' @ [10] @ js ''event: run.cancelled'' @ [10] @ js ''data: {''), Response_Ends []])
     = Threw_Error Invalid_Response"
proof -
  let ?f = "js ''id: 4'' @ [10] @ js ''event: run.cancelled'' @ [10] @ js ''data: {''"
  have b: "eventBoundary ?f = None" by code_simp
  have t: "js_trim ?f \<noteq> []" by code_simp
  have l: "length (encode_text ?f) \<le> 100" by (simp add: encode_text_def utf8_bytes_def u16_def)
  have fields: "foldl read_line \<lparr>ff_id = [], ff_event = [], ff_data = []\<rparr> (split_lines ?f)
      = \<lparr>ff_id = js ''4'', ff_event = js ''run.cancelled'', ff_data = [js ''{'']\<rparr>" by code_simp
  have "hd ?f \<noteq> 0xFEFF" by code_simp
  moreover have "numeric_id (js ''4'')" by code_simp
  moreover have "length (encode_text (js ''{'')) = 1" by (simp add: encode_text_def utf8_bytes_def u16_def)
  ultimately have p: "parseFrame parse_json ?f = Inl Invalid_Response"
    using assms fields by (simp add: parseFrame_def Let_def MAX_EVENT_BYTES_def del: js_simps)
  have "stream_phase (foldl (stream_step parse_json) (new_stream []) [Response_Arrives True, Piece fr, Response_Ends []])
      = Threw_Error Invalid_Response" if "eventBoundary fr = None" "js_trim fr \<noteq> []" "length (encode_text fr) \<le> 100"
      "parseFrame parse_json fr = Inl Invalid_Response" for fr
    using that by (simp add: stream_step_def new_stream_def stream_response_def read_piece_def drain.simps [of parse_json fr] trailing_def
        stream_fails_def MAX_EVENT_BYTES_def)
  from this [OF b t l p] show ?thesis .
qed

text \<open>Pieces cut inside the CR LF pairs of a frame.\<close>

theorem event_stream_chunking_witness:
  "let pieces = [js ''id: 4'' @ [13, 10] @ js ''event: run.cancelled'' @ [13], [10] @ js ''data: {}'' @ [13, 10, 13], [10]]
   in parseEventStream (\<lambda>_. Some (JObject [(js ''status'', JString (js ''cancelled''))])) [] pieces
     = events_of (\<lambda>_. Some (JObject [(js ''status'', JString (js ''cancelled''))])) (concat pieces)"
  unfolding Let_def
  by (rule event_stream_chunking, rule within_limit_short) (simp add: MAX_EVENT_BYTES_def)

end
