(* ===== verification/Hosted_Tools.thy ===== *)
theory Hosted_Tools
  imports Run_Store Agent_Stream Command_Runtime
begin

text \<open>
  The browser's side of a hosted agent run (\<open>client/src/components/agent/AgentPill.tsx\<close>): the
  events of a run that propose commands, the record that says which of them were launched, and what
  a page that was reloaded does with it. One document; the instances of the panel that were mounted
  are numbered, and a consumer is one call of \<open>consumeHostedRun\<close> by one of them.
\<close>

section \<open>The contract of a proposed command\<close>

record agent_command = command +
  agent_exposed :: bool

text \<open>\<open>hostedConsequence\<close> (\<open>client/src/agent/catalog.ts\<close>).\<close>

definition hostedConsequence :: "command_risk \<Rightarrow> js_text \<times> js_text" where
  "hostedConsequence risk =
     (if risk = Read_Risk then js ''read'' else if risk = Destructive_Risk then js ''destructive'' else js ''write'',
      if risk = Read_Risk then js ''ephemeral'' else if risk = External_Risk then js ''external'' else js ''document'')"

definition alphanumeric :: "16 word \<Rightarrow> bool" where
  "alphanumeric c \<longleftrightarrow> 48 \<le> c \<and> c \<le> 57 \<or> 65 \<le> c \<and> c \<le> 90 \<or> 97 \<le> c \<and> c \<le> 122"

text \<open>\<open>replace(/[^a-z0-9]+/gi, '_')\<close>: the flag says whether the unit before was replaced.\<close>

fun underscored :: "bool \<Rightarrow> js_text \<Rightarrow> js_text" where
  "underscored replaced [] = []"
| "underscored replaced (c # cs) =
     (if alphanumeric c then c # underscored False cs
      else if replaced then underscored True cs
      else 95 # underscored True cs)"

definition expectedName :: "js_text \<Rightarrow> js_text" where
  "expectedName commandId = js ''marks_'' @ underscored False commandId"

definition getCommand :: "agent_command list \<Rightarrow> js_text \<Rightarrow> agent_command option" where
  "getCommand registry i = List.find (\<lambda>c. js (command_id c) = i) registry"

definition contract_broken :: "agent_command list \<Rightarrow> js_text \<Rightarrow> js_text \<Rightarrow> js_text \<Rightarrow> js_text \<Rightarrow> bool" where
  "contract_broken registry commandId name effect durability \<longleftrightarrow>
     (case getCommand registry commandId of
        None \<Rightarrow> True
      | Some c \<Rightarrow> \<not> agent_exposed c \<or> name \<noteq> expectedName commandId \<or> (effect, durability) \<noteq> hostedConsequence (command_risk c))"

section \<open>The page\<close>

text \<open>
  Where a consumer is: waiting for the stream, in \<open>await started.finished\<close>, in
  \<open>await submitToolReceipt\<close>, or finished.
\<close>

datatype consumer_phase =
    Listening
  | Awaiting_Receipt envelope stored_call
  | Submitting envelope
  | Consumed

record run_consumer =
  cons_owner :: nat
  cons_run :: js_text
  cons_document :: js_text
  cons_after :: js_text
  cons_phase :: consumer_phase
  cons_aborted :: bool
  cons_stopping :: bool

text \<open>
  \<open>stored_refs\<close> are the \<open>storedRunRef\<close>s of the instances, \<open>active_consumer\<close> the \<open>activeRef\<close> of the
  mounted one; \<open>storage_full\<close> is whether \<open>setItem\<close> throws now. \<open>launch_log\<close> lists the commands that
  were started, with the run that proposed them.
\<close>

record tool_page =
  run_consumers :: "run_consumer list"
  stored_refs :: "nat \<Rightarrow> run_record option"
  mounted_pill :: "nat option"
  next_pill :: nat
  active_consumer :: "nat option"
  page_storage :: session_storage
  storage_full :: bool
  launch_log :: "(js_text \<times> js_text) list"

definition new_page :: tool_page where
  "new_page = \<lparr>run_consumers = [], stored_refs = (\<lambda>_. None), mounted_pill = None, next_pill = 0, active_consumer = None,
     page_storage = Map.empty, storage_full = False, launch_log = []\<rparr>"

definition set_consumer :: "nat \<Rightarrow> run_consumer \<Rightarrow> tool_page \<Rightarrow> tool_page" where
  "set_consumer i c p = p\<lparr>run_consumers := (run_consumers p)[i := c]\<rparr>"

definition set_phase :: "nat \<Rightarrow> consumer_phase \<Rightarrow> tool_page \<Rightarrow> tool_page" where
  "set_phase i ph p = set_consumer i ((run_consumers p ! i)\<lparr>cons_phase := ph\<rparr>) p"

text \<open>An assignment to the ref and \<open>writeActiveHostedRun\<close>; whether it threw.\<close>

definition keep_record :: "nat \<Rightarrow> run_record \<Rightarrow> tool_page \<Rightarrow> bool \<times> tool_page" where
  "keep_record k r p =
     (let p = p\<lparr>stored_refs := (stored_refs p)(k := Some r)\<rparr>
      in if storage_full p then (True, p) else (False, p\<lparr>page_storage := writeActiveHostedRun r (page_storage p)\<rparr>))"

definition with_call :: "stored_call \<Rightarrow> run_record \<Rightarrow> run_record" where
  "with_call c r = r\<lparr>stored_calls := filter (\<lambda>x. call_id x \<noteq> call_id c) (stored_calls r) @ [c]\<rparr>"

definition updateStoredCall :: "nat \<Rightarrow> stored_call \<Rightarrow> tool_page \<Rightarrow> bool \<times> tool_page" where
  "updateStoredCall k c p = (case stored_refs p k of None \<Rightarrow> (False, p) | Some r \<Rightarrow> keep_record k (with_call c r) p)"

text \<open>The \<open>finally\<close> of \<open>consumeHostedRun\<close>, and its \<open>catch\<close> before that.\<close>

definition consumer_ends :: "nat \<Rightarrow> tool_page \<Rightarrow> tool_page" where
  "consumer_ends i p =
     (let p = set_phase i Consumed p in if active_consumer p = Some i then p\<lparr>active_consumer := None\<rparr> else p)"

definition forget_run :: "nat \<Rightarrow> tool_page \<Rightarrow> tool_page" where
  "forget_run i p =
     (let c = run_consumers p ! i
      in p\<lparr>page_storage := clearActiveHostedRun (cons_document c) (page_storage p), stored_refs := (stored_refs p)(cons_owner c := None)\<rparr>)"

definition consumer_throws :: "nat \<Rightarrow> tool_page \<Rightarrow> tool_page" where
  "consumer_throws i p = consumer_ends i (if cons_aborted (run_consumers p ! i) then p else forget_run i p)"

text \<open>The end of \<open>onEvent\<close>.\<close>

definition event_handled :: "nat \<Rightarrow> envelope \<Rightarrow> tool_page \<Rightarrow> tool_page" where
  "event_handled i env p =
     (let c = run_consumers p ! i
      in if terminal_event (env_event env) then consumer_ends i (forget_run i p)
         else case stored_refs p (cons_owner c) of
                None \<Rightarrow> set_phase i Listening p
              | Some r \<Rightarrow>
                  if rec_run r \<noteq> cons_run c then set_phase i Listening p
                  else let (threw, p) = keep_record (cons_owner c) (r\<lparr>last_event_id := env_id env\<rparr>) p
                       in if threw then consumer_throws i p else set_phase i Listening p)"

text \<open>The end of \<open>handleHostedTool\<close>: the receipt crosses the network, unless the run was stopped.\<close>

definition submit_receipt :: "nat \<Rightarrow> envelope \<Rightarrow> tool_page \<Rightarrow> tool_page" where
  "submit_receipt i env p =
     (if cons_aborted (run_consumers p ! i) then event_handled i env p else set_phase i (Submitting env) p)"

definition keep_and_submit :: "nat \<Rightarrow> envelope \<Rightarrow> stored_call \<Rightarrow> tool_page \<Rightarrow> tool_page" where
  "keep_and_submit i env c p =
     (let (threw, p) = updateStoredCall (cons_owner (run_consumers p ! i)) c p
      in if threw then consumer_throws i p else submit_receipt i env p)"

text \<open>
  \<open>handleHostedTool\<close> up to its first \<open>await\<close>: a call that was launched before is not launched again,
  and a new one is recorded before it is.
\<close>

definition handleHostedTool :: "agent_command list \<Rightarrow> nat \<Rightarrow> js_text \<Rightarrow> envelope \<Rightarrow> js_text \<Rightarrow> js_text \<Rightarrow> bool \<Rightarrow> tool_page \<Rightarrow> tool_page" where
  "handleHostedTool registry i uuid env callId commandId broken p =
     (let k = cons_owner (run_consumers p ! i);
          known = Option.bind (stored_refs p k) (\<lambda>r. List.find (\<lambda>c. call_id c = callId) (stored_calls r));
          fresh = \<lparr>call_id = callId, call_request = uuid, call_command = commandId, call_state = Terminal_Call, call_status = Some Call_Failed,
                   call_message = None, call_error = Some (js ''The proposed tool did not match the registered Marks command contract.'')\<rparr>
      in case known of
           Some c \<Rightarrow>
             if call_state c = Executing_Call then
               keep_and_submit i env
                 (c\<lparr>call_state := Terminal_Call, call_status := Some Call_Failed,
                    call_error := Some (js ''The browser reloaded before the command receipt was recorded; outcome unknown and not replayed.'')\<rparr>) p
             else if call_status c = None then event_handled i env p
             else submit_receipt i env p
         | None \<Rightarrow>
             if broken then keep_and_submit i env fresh p
             else
               let c = fresh\<lparr>call_state := Executing_Call, call_status := None, call_error := None\<rparr>;
                   (threw, p) = updateStoredCall k c p
               in if threw then consumer_throws i p
                  else set_phase i (Awaiting_Receipt env c) (p\<lparr>launch_log := launch_log p @ [(cons_run (run_consumers p ! i), callId)]\<rparr>))"

definition onEvent :: "agent_command list \<Rightarrow> nat \<Rightarrow> js_text \<Rightarrow> envelope \<Rightarrow> tool_page \<Rightarrow> tool_page" where
  "onEvent registry i uuid env p =
     (case env_event env of
        Run_Started runId documentId _ \<Rightarrow>
          if runId \<noteq> cons_run (run_consumers p ! i) \<or> documentId \<noteq> cons_document (run_consumers p ! i) then consumer_throws i p
          else event_handled i env p
      | Tool_Call callId commandId name _ effect durability \<Rightarrow>
          handleHostedTool registry i uuid env callId commandId (contract_broken registry commandId name effect durability) p
      | _ \<Rightarrow> event_handled i env p)"

section \<open>Events of the page\<close>

text \<open>
  The log of a run as the service keeps it; the stream hands on the first entry after the last one
  it delivered (\<open>agent_events_once_in_order\<close> of \<open>Agent_Stream\<close>).
\<close>

type_synonym run_logs = "js_text \<Rightarrow> envelope list"

definition comes_after :: "js_text \<Rightarrow> envelope \<Rightarrow> bool" where
  "comes_after a env \<longleftrightarrow> a = [] \<or> radix_value 10 a < id_value env"

definition next_event :: "envelope list \<Rightarrow> js_text \<Rightarrow> envelope option" where
  "next_event lg a = List.find (comes_after a) lg"

definition event_arrives :: "agent_command list \<Rightarrow> run_logs \<Rightarrow> nat \<Rightarrow> js_text \<Rightarrow> tool_page \<Rightarrow> tool_page" where
  "event_arrives registry logs i uuid p =
     (if i < length (run_consumers p) \<and> cons_phase (run_consumers p ! i) = Listening then
        let c = run_consumers p ! i
        in case next_event (logs (cons_run c)) (cons_after c) of
             None \<Rightarrow> p
           | Some env \<Rightarrow> onEvent registry i uuid env (set_consumer i (c\<lparr>cons_after := env_id env\<rparr>) p)
      else p)"

definition receipt_arrives :: "nat \<Rightarrow> call_status \<Rightarrow> js_text option \<Rightarrow> js_text option \<Rightarrow> tool_page \<Rightarrow> tool_page" where
  "receipt_arrives i st msg err p =
     (if i < length (run_consumers p) then
        (case cons_phase (run_consumers p ! i) of
           Awaiting_Receipt env c \<Rightarrow>
             keep_and_submit i env (c\<lparr>call_state := Terminal_Call, call_status := Some st, call_message := msg, call_error := err\<rparr>) p
         | _ \<Rightarrow> p)
      else p)"

definition submission_settles :: "nat \<Rightarrow> bool \<Rightarrow> tool_page \<Rightarrow> tool_page" where
  "submission_settles i ok p =
     (if i < length (run_consumers p) then
        (case cons_phase (run_consumers p ! i) of
           Submitting env \<Rightarrow> if ok then event_handled i env p else consumer_throws i p
         | _ \<Rightarrow> p)
      else p)"

text \<open>The stream throws, or returns because the run was aborted.\<close>

definition stream_throws :: "nat \<Rightarrow> tool_page \<Rightarrow> tool_page" where
  "stream_throws i p =
     (if i < length (run_consumers p) \<and> cons_phase (run_consumers p ! i) = Listening then consumer_throws i p else p)"

definition consumeHostedRun :: "nat \<Rightarrow> run_record \<Rightarrow> tool_page \<Rightarrow> tool_page" where
  "consumeHostedRun k r p =
     p\<lparr>run_consumers := run_consumers p @ [\<lparr>cons_owner = k, cons_run = rec_run r, cons_document = rec_document r, cons_after = last_event_id r,
                                              cons_phase = Listening, cons_aborted = False, cons_stopping = False\<rparr>],
        active_consumer := Some (length (run_consumers p))\<rparr>"

text \<open>\<open>runHosted\<close> from the answer of \<open>createHostedAgentRun\<close> on.\<close>

definition run_accepted :: "js_text \<Rightarrow> js_text \<Rightarrow> js_text \<Rightarrow> js_text \<Rightarrow> int \<Rightarrow> tool_page \<Rightarrow> tool_page" where
  "run_accepted documentId runId requestId eventsUrl expiresAtMs p =
     (case (mounted_pill p, active_consumer p) of
        (Some k, None) \<Rightarrow>
          let r = \<lparr>rec_document = documentId, rec_run = runId, rec_request = requestId, events_url = eventsUrl, expires_at = expiresAtMs,
                   last_event_id = [], stored_calls = []\<rparr>;
              (threw, p) = keep_record k r p
          in if threw then p else consumeHostedRun k r p
      | _ \<Rightarrow> p)"

text \<open>The effect that resumes a run the storage holds.\<close>

definition restore_run :: "js_text \<Rightarrow> int \<Rightarrow> tool_page \<Rightarrow> tool_page" where
  "restore_run documentId now p =
     (case (mounted_pill p, active_consumer p) of
        (Some k, None) \<Rightarrow>
          let (restored, storage) = readActiveHostedRun documentId now (page_storage p);
              p = p\<lparr>page_storage := storage\<rparr>
          in (case restored of
                None \<Rightarrow> p
              | Some r \<Rightarrow> consumeHostedRun k r (p\<lparr>stored_refs := (stored_refs p)(k := Some r)\<rparr>))
      | _ \<Rightarrow> p)"

definition mount_pill :: "tool_page \<Rightarrow> tool_page" where
  "mount_pill p = (if mounted_pill p = None then p\<lparr>mounted_pill := Some (next_pill p), next_pill := next_pill p + 1\<rparr> else p)"

text \<open>The cleanup of the panel aborts the stream; the consumer lives on. A reload ends everything.\<close>

definition abort_consumer :: "nat \<Rightarrow> tool_page \<Rightarrow> tool_page" where
  "abort_consumer i p = set_consumer i ((run_consumers p ! i)\<lparr>cons_aborted := True\<rparr>) p"

definition unmount_pill :: "tool_page \<Rightarrow> tool_page" where
  "unmount_pill p =
     (let p = (case active_consumer p of None \<Rightarrow> p | Some i \<Rightarrow> abort_consumer i p)
      in p\<lparr>mounted_pill := None, active_consumer := None\<rparr>)"

definition reload_page :: "tool_page \<Rightarrow> tool_page" where
  "reload_page p = p\<lparr>run_consumers := [], stored_refs := (\<lambda>_. None), mounted_pill := None, active_consumer := None\<rparr>"

text \<open>\<open>cancelCurrent\<close>, before and after it awaits the service; the command's receipt is an event.\<close>

definition stop_run :: "tool_page \<Rightarrow> tool_page" where
  "stop_run p =
     (case active_consumer p of
        None \<Rightarrow> p
      | Some i \<Rightarrow> let p = abort_consumer i p in set_consumer i ((run_consumers p ! i)\<lparr>cons_stopping := True\<rparr>) p)"

definition stop_settles :: "nat \<Rightarrow> tool_page \<Rightarrow> tool_page" where
  "stop_settles i p =
     (if i < length (run_consumers p) \<and> cons_stopping (run_consumers p ! i) then
        let p = forget_run i (set_consumer i ((run_consumers p ! i)\<lparr>cons_stopping := False\<rparr>) p)
        in if active_consumer p = Some i then p\<lparr>active_consumer := None\<rparr> else p
      else p)"

datatype page_event =
    Mount_Pill
  | Unmount_Pill
  | Reload_Page
  | Restore_Run int
  | Run_Accepted js_text js_text js_text int
  | Event_Arrives nat js_text
  | Receipt_Arrives nat call_status "js_text option" "js_text option"
  | Submission_Settles nat bool
  | Stream_Throws nat
  | Stop_Run
  | Stop_Settles nat
  | Storage_Full bool

definition page_step :: "agent_command list \<Rightarrow> run_logs \<Rightarrow> js_text \<Rightarrow> tool_page \<Rightarrow> page_event \<Rightarrow> tool_page" where
  "page_step registry logs documentId p e =
     (case e of
        Mount_Pill \<Rightarrow> mount_pill p
      | Unmount_Pill \<Rightarrow> unmount_pill p
      | Reload_Page \<Rightarrow> reload_page p
      | Restore_Run now \<Rightarrow> restore_run documentId now p
      | Run_Accepted runId requestId eventsUrl expiresAtMs \<Rightarrow> run_accepted documentId runId requestId eventsUrl expiresAtMs p
      | Event_Arrives i uuid \<Rightarrow> event_arrives registry logs i uuid p
      | Receipt_Arrives i st msg err \<Rightarrow> receipt_arrives i st msg err p
      | Submission_Settles i ok \<Rightarrow> submission_settles i ok p
      | Stream_Throws i \<Rightarrow> stream_throws i p
      | Stop_Run \<Rightarrow> stop_run p
      | Stop_Settles i \<Rightarrow> stop_settles i p
      | Storage_Full b \<Rightarrow> p\<lparr>storage_full := b\<rparr>)"

section \<open>A launch is never repeated\<close>

definition tool_call_id :: "envelope \<Rightarrow> js_text option" where
  "tool_call_id env = (case env_event env of Tool_Call i _ _ _ _ _ \<Rightarrow> Some i | _ \<Rightarrow> None)"

text \<open>What the service promises of a log: numeric identifiers, and a call identifier of its own for each call.\<close>

definition log_ok :: "envelope list \<Rightarrow> bool" where
  "log_ok lg \<longleftrightarrow> list_all (\<lambda>e. numeric_id (env_id e)) lg \<and> distinct (List.map_filter tool_call_id lg)"

definition stored_record :: "js_text \<Rightarrow> session_storage \<Rightarrow> run_record option" where
  "stored_record d storage = (case storage d of Some (Some v) \<Rightarrow> validateRecord v d | _ \<Rightarrow> None)"

text \<open>
  Every command the run launched was proposed by an event that is not asked for again, or by the very
  next one, and then its call is the last that is recorded.
\<close>

definition covered :: "run_logs \<Rightarrow> run_record \<Rightarrow> (js_text \<times> js_text) list \<Rightarrow> bool" where
  "covered logs r ls \<longleftrightarrow>
     (\<forall>c. (rec_run r, c) \<in> set ls \<longrightarrow>
        (\<exists>env\<in>set (logs (rec_run r)). tool_call_id env = Some c \<and> \<not> comes_after (last_event_id r) env)
        \<or> (\<exists>env. next_event (logs (rec_run r)) (last_event_id r) = Some env \<and> tool_call_id env = Some c
             \<and> stored_calls r \<noteq> [] \<and> call_id (last (stored_calls r)) = c))"

lemma map_filter_distinct:
  "distinct (List.map_filter f xs) \<Longrightarrow> x \<in> set xs \<Longrightarrow> y \<in> set xs \<Longrightarrow> f x = Some c \<Longrightarrow> f y = Some c \<Longrightarrow> x = y"
  by (auto simp: List.map_filter_def distinct_map dest: inj_onD [of _ _ x y])

lemma next_eventD: "next_event lg a = Some env \<Longrightarrow> env \<in> set lg \<and> comes_after a env"
  unfolding next_event_def by (rule find_SomeD)

lemma covered_bounded: "covered logs r ls \<Longrightarrow> covered logs (bounded_record r) ls"
proof -
  have "call_id (last (stored_calls (bounded_record r))) = call_id (last (stored_calls r))" "stored_calls (bounded_record r) \<noteq> []"
    if "stored_calls r \<noteq> []"
  proof -
    have "0 < length (stored_calls r)" using that by simp
    then have lt: "length (stored_calls r) - MAX_CALLS < length (stored_calls r)" by (simp add: MAX_CALLS_def)
    show "call_id (last (stored_calls (bounded_record r))) = call_id (last (stored_calls r))" "stored_calls (bounded_record r) \<noteq> []"
      using lt by (simp_all add: bounded_record_def last_map bounded_call_def)
  qed
  moreover have "rec_run (bounded_record r) = rec_run r" "last_event_id (bounded_record r) = last_event_id r"
    by (simp_all add: bounded_record_def)
  moreover assume "covered logs r ls"
  ultimately show ?thesis unfolding covered_def by metis
qed

lemma covered_call:
  assumes "covered logs r ls" "next_event (logs (rec_run r)) (last_event_id r) = Some env" "tool_call_id env = Some (call_id x)"
  shows "covered logs (with_call x r) ls" "covered logs (with_call x r) (ls @ [(rec_run r, call_id x)])"
  using assms by (auto simp: covered_def with_call_def)

lemma covered_advance:
  assumes "covered logs r ls" "next_event (logs (rec_run r)) (last_event_id r) = Some env" "log_ok (logs (rec_run r))"
  shows "covered logs (r\<lparr>last_event_id := env_id env\<rparr>) ls"
proof -
  have env: "env \<in> set (logs (rec_run r))" "comes_after (last_event_id r) env" using next_eventD [OF assms(2)] by auto
  have ne: "env_id env \<noteq> []" using env(1) assms(3) by (auto simp: log_ok_def list_all_iff numeric_id_def)
  have self: "\<not> comes_after (env_id env) env" using ne by (simp add: comes_after_def id_value_def)
  have later: "\<not> comes_after (env_id env) e" if "\<not> comes_after (last_event_id r) e" for e
    using that env(2) ne by (auto simp: comes_after_def id_value_def)
  show ?thesis unfolding covered_def
  proof (intro allI impI disjI1)
    fix c assume "(rec_run (r\<lparr>last_event_id := env_id env\<rparr>), c) \<in> set ls"
    then have "(rec_run r, c) \<in> set ls" by simp
    then have "(\<exists>e\<in>set (logs (rec_run r)). tool_call_id e = Some c \<and> \<not> comes_after (last_event_id r) e) \<or> tool_call_id env = Some c"
      using assms(1,2) by (auto simp: covered_def)
    then show "\<exists>e\<in>set (logs (rec_run (r\<lparr>last_event_id := env_id env\<rparr>))). tool_call_id e = Some c
        \<and> \<not> comes_after (last_event_id (r\<lparr>last_event_id := env_id env\<rparr>)) e"
      using env(1) self later by auto
  qed
qed

lemma covered_fresh:
  assumes "covered logs r ls" "next_event (logs (rec_run r)) (last_event_id r) = Some env" "log_ok (logs (rec_run r))"
    and "tool_call_id env = Some c" "List.find (\<lambda>x. call_id x = c) (stored_calls r) = None"
  shows "(rec_run r, c) \<notin> set ls"
proof
  assume l: "(rec_run r, c) \<in> set ls"
  have "call_id (last (stored_calls r)) \<noteq> c" if "stored_calls r \<noteq> []"
    using assms(5) last_in_set [OF that] by (auto simp: find_None_iff)
  then obtain e where e: "e \<in> set (logs (rec_run r))" "tool_call_id e = Some c" "\<not> comes_after (last_event_id r) e"
    using assms(1) l unfolding covered_def by metis
  have "e = env" using assms(3,4) e next_eventD [OF assms(2)] by (auto simp: log_ok_def dest: map_filter_distinct)
  then show False using e(3) next_eventD [OF assms(2)] by simp
qed

subsection \<open>The invariant\<close>

definition launches_ok :: "run_logs \<Rightarrow> js_text \<Rightarrow> js_text set \<Rightarrow> tool_page \<Rightarrow> bool" where
  "launches_ok logs d seen p \<longleftrightarrow>
     distinct (launch_log p) \<and> fst ` set (launch_log p) \<subseteq> seen \<and> (\<forall>c\<in>set (run_consumers p). \<not> cons_stopping c)"

definition storage_ok :: "run_logs \<Rightarrow> js_text \<Rightarrow> js_text set \<Rightarrow> tool_page \<Rightarrow> bool" where
  "storage_ok logs d seen p \<longleftrightarrow>
     (\<forall>r. stored_record d (page_storage p) = Some r \<longrightarrow> rec_run r \<in> seen \<and> rec_document r = d \<and> covered logs r (launch_log p))"

text \<open>The one consumer that is alive, and the record it keeps.\<close>

definition only_alive :: "nat \<Rightarrow> tool_page \<Rightarrow> bool" where
  "only_alive i p \<longleftrightarrow> (\<forall>j<length (run_consumers p). j \<noteq> i \<longrightarrow> cons_phase (run_consumers p ! j) = Consumed)"

definition keeps :: "run_logs \<Rightarrow> js_text \<Rightarrow> js_text set \<Rightarrow> nat \<Rightarrow> run_record \<Rightarrow> tool_page \<Rightarrow> bool" where
  "keeps logs d seen i r p \<longleftrightarrow>
     i < length (run_consumers p) \<and> active_consumer p = Some i
     \<and> (let c = run_consumers p ! i
         in \<not> cons_aborted c \<and> cons_document c = d \<and> stored_refs p (cons_owner c) = Some r
            \<and> rec_run r = cons_run c \<and> rec_run r \<in> seen \<and> rec_document r = d \<and> covered logs r (launch_log p))"

definition in_step :: "run_logs \<Rightarrow> run_record \<Rightarrow> run_consumer \<Rightarrow> bool" where
  "in_step logs r c \<longleftrightarrow>
     (case cons_phase c of
        Listening \<Rightarrow> cons_after c = last_event_id r
      | Awaiting_Receipt env x \<Rightarrow> next_event (logs (rec_run r)) (last_event_id r) = Some env \<and> cons_after c = env_id env \<and> tool_call_id env = Some (call_id x)
      | Submitting env \<Rightarrow> next_event (logs (rec_run r)) (last_event_id r) = Some env \<and> cons_after c = env_id env
      | Consumed \<Rightarrow> True)"

definition page_ok :: "run_logs \<Rightarrow> js_text \<Rightarrow> js_text set \<Rightarrow> tool_page \<Rightarrow> bool" where
  "page_ok logs d seen p \<longleftrightarrow>
     launches_ok logs d seen p \<and> storage_ok logs d seen p
     \<and> (\<forall>i<length (run_consumers p). cons_phase (run_consumers p ! i) \<noteq> Consumed \<longrightarrow>
          (\<exists>r. keeps logs d seen i r p \<and> in_step logs r (run_consumers p ! i)))"

definition handling :: "run_logs \<Rightarrow> js_text \<Rightarrow> js_text set \<Rightarrow> nat \<Rightarrow> run_record \<Rightarrow> envelope \<Rightarrow> tool_page \<Rightarrow> bool" where
  "handling logs d seen i r env p \<longleftrightarrow>
     launches_ok logs d seen p \<and> storage_ok logs d seen p \<and> only_alive i p \<and> keeps logs d seen i r p
     \<and> next_event (logs (rec_run r)) (last_event_id r) = Some env \<and> cons_after (run_consumers p ! i) = env_id env"

lemma stored_written: "stored_record d (writeActiveHostedRun r s) = (if rec_document r = d then if record_storable r then Some (bounded_record r) else None
     else stored_record d s)"
  by (simp add: stored_record_def writeActiveHostedRun_def validate_written)

lemma stored_cleared [simp]: "stored_record d (clearActiveHostedRun d s) = None"
  by (simp add: stored_record_def clearActiveHostedRun_def)

text \<open>The record that was just written is the one in the storage.\<close>

lemma storage_ok_written:
  "rec_document r = d \<Longrightarrow> rec_run r \<in> seen \<Longrightarrow> covered logs r (launch_log p) \<Longrightarrow> page_storage p = writeActiveHostedRun r s \<Longrightarrow> storage_ok logs d seen p"
  by (auto simp: storage_ok_def stored_written covered_bounded, simp_all add: bounded_record_def)

lemma throws_ok:
  assumes "launches_ok logs d seen p" "only_alive i p" "i < length (run_consumers p)"
    and "\<not> cons_aborted (run_consumers p ! i)" "cons_document (run_consumers p ! i) = d"
  shows "page_ok logs d seen (consumer_throws i p)"
  using assms
  by (auto simp: page_ok_def launches_ok_def storage_ok_def only_alive_def consumer_throws_def consumer_ends_def forget_run_def
      set_phase_def set_consumer_def Let_def nth_list_update set_conv_nth)

lemma ended_ok:
  assumes "launches_ok logs d seen p" "only_alive i p" "i < length (run_consumers p)" "cons_document (run_consumers p ! i) = d"
  shows "page_ok logs d seen (consumer_ends i (forget_run i p))"
  using assms
  by (auto simp: page_ok_def launches_ok_def storage_ok_def only_alive_def consumer_ends_def forget_run_def
      set_phase_def set_consumer_def Let_def nth_list_update set_conv_nth)

lemma set_phase_ok:
  assumes "launches_ok logs d seen p" "storage_ok logs d seen p" "only_alive i p" "keeps logs d seen i r p"
    and "in_step logs r ((run_consumers p ! i)\<lparr>cons_phase := ph\<rparr>)"
  shows "page_ok logs d seen (set_phase i ph p)"
proof -
  have "i < length (run_consumers p)" using assms(4) by (simp add: keeps_def)
  then show ?thesis
    using assms
    by (auto simp: page_ok_def launches_ok_def storage_ok_def only_alive_def keeps_def set_phase_def set_consumer_def Let_def nth_list_update
        set_conv_nth)
qed

lemma handlingD:
  assumes "handling logs d seen i r env p"
  shows "launches_ok logs d seen p" "only_alive i p" "storage_ok logs d seen p" "keeps logs d seen i r p" "i < length (run_consumers p)"
    "\<not> cons_aborted (run_consumers p ! i)" "cons_document (run_consumers p ! i) = d"
    "stored_refs p (cons_owner (run_consumers p ! i)) = Some r" "rec_run r = cons_run (run_consumers p ! i)" "rec_document r = d" "rec_run r \<in> seen"
    "covered logs r (launch_log p)" "next_event (logs (rec_run r)) (last_event_id r) = Some env" "cons_after (run_consumers p ! i) = env_id env"
  using assms unfolding handling_def keeps_def Let_def by blast+

lemma keep_record_ok:
  assumes h: "handling logs d seen i r env p" and r': "rec_run r' = rec_run r" "rec_document r' = d" "covered logs r' (launch_log p)"
    and k: "keep_record (cons_owner (run_consumers p ! i)) r' p = (threw, p')"
  shows "\<not> threw \<Longrightarrow> storage_ok logs d seen p'" "\<not> threw \<Longrightarrow> keeps logs d seen i r' p'"
    and "launches_ok logs d seen p'" "only_alive i p'" "run_consumers p' = run_consumers p" "launch_log p' = launch_log p"
proof -
  show same: "run_consumers p' = run_consumers p" "launch_log p' = launch_log p"
    using k by (auto simp: keep_record_def Let_def split: if_splits)
  show "launches_ok logs d seen p'" "only_alive i p'"
    using h by (simp_all add: handling_def launches_ok_def only_alive_def same)
  have seen: "rec_run r' \<in> seen" using handlingD(11) [OF h] r'(1) by simp
  show "\<not> threw \<Longrightarrow> storage_ok logs d seen p'"
    using k r' seen by (auto simp: keep_record_def Let_def split: if_splits intro!: storage_ok_written [of r'])
  show "\<not> threw \<Longrightarrow> keeps logs d seen i r' p'"
    using k handlingD [OF h] h r' seen by (auto simp: keep_record_def handling_def keeps_def Let_def split: if_splits)
qed

lemma handled_ok:
  assumes h: "handling logs d seen i r env p" and lg: "log_ok (logs (rec_run r))"
  shows "page_ok logs d seen (event_handled i env p)"
proof (cases "terminal_event (env_event env)")
  case True
  then show ?thesis using handlingD [OF h] by (simp add: event_handled_def Let_def ended_ok)
next
  case False
  let ?r = "r\<lparr>last_event_id := env_id env\<rparr>"
  obtain threw p' where k: "keep_record (cons_owner (run_consumers p ! i)) ?r p = (threw, p')" by fastforce
  have "covered logs ?r (launch_log p)" using handlingD [OF h] lg by (intro covered_advance)
  then have p': "\<not> threw \<Longrightarrow> storage_ok logs d seen p'" "\<not> threw \<Longrightarrow> keeps logs d seen i ?r p'"
    "launches_ok logs d seen p'" "only_alive i p'" "run_consumers p' = run_consumers p"
    using keep_record_ok [OF h _ _ _ k] handlingD [OF h] by simp_all
  have "page_ok logs d seen (if threw then consumer_throws i p' else set_phase i Listening p')"
    using p' handlingD [OF h] by (auto intro!: throws_ok set_phase_ok [where r = ?r] simp: in_step_def)
  then show ?thesis using False handlingD [OF h] k by (simp add: event_handled_def Let_def)
qed

lemma submit_ok:
  assumes h: "handling logs d seen i r env p" and lg: "log_ok (logs (rec_run r))"
  shows "page_ok logs d seen (submit_receipt i env p)"
  using handlingD [OF h] handled_ok [OF h lg]
  by (auto simp: submit_receipt_def in_step_def intro!: set_phase_ok [where r = r])

lemma with_call_fields [simp]:
  "rec_run (with_call x r) = rec_run r" "rec_document (with_call x r) = rec_document r" "last_event_id (with_call x r) = last_event_id r"
  by (simp_all add: with_call_def)

lemma keep_and_submit_ok:
  assumes h: "handling logs d seen i r env p" and lg: "log_ok (logs (rec_run r))" and x: "tool_call_id env = Some (call_id x)"
  shows "page_ok logs d seen (keep_and_submit i env x p)"
proof -
  obtain threw p' where k: "keep_record (cons_owner (run_consumers p ! i)) (with_call x r) p = (threw, p')" by fastforce
  have c: "covered logs (with_call x r) (launch_log p)" using handlingD [OF h] x by (intro covered_call)
  note kr = keep_record_ok [OF h _ _ c k]
  have "page_ok logs d seen (if threw then consumer_throws i p' else submit_receipt i env p')"
  proof (cases threw)
    case True
    then show ?thesis using kr handlingD [OF h] by (auto intro!: throws_ok)
  next
    case False
    then have "handling logs d seen i (with_call x r) env p'" using kr handlingD [OF h] by (simp add: handling_def)
    then show ?thesis using False submit_ok lg by fastforce
  qed
  then show ?thesis using k handlingD [OF h] by (simp add: keep_and_submit_def updateStoredCall_def)
qed

lemma launch_ok:
  assumes h: "handling logs d seen i r env p" and lg: "log_ok (logs (rec_run r))" and x: "tool_call_id env = Some (call_id x)"
    and new: "List.find (\<lambda>y. call_id y = call_id x) (stored_calls r) = None"
    and k: "keep_record (cons_owner (run_consumers p ! i)) (with_call x r) p = (threw, p')"
  shows "page_ok logs d seen (if threw then consumer_throws i p'
     else set_phase i (Awaiting_Receipt env x) (p'\<lparr>launch_log := launch_log p' @ [(rec_run r, call_id x)]\<rparr>))"
proof -
  note hd = handlingD [OF h]
  have c: "covered logs (with_call x r) (launch_log p)" using hd x by (intro covered_call)
  have c': "covered logs (with_call x r) (launch_log p @ [(rec_run r, call_id x)])" using hd x by (intro covered_call)
  note kr = keep_record_ok [OF h _ _ c k]
  have fresh: "(rec_run r, call_id x) \<notin> set (launch_log p)" using hd lg x new by (intro covered_fresh)
  show ?thesis
  proof (cases threw)
    case True
    then show ?thesis using kr hd by (auto intro!: throws_ok)
  next
    case False
    let ?p = "p'\<lparr>launch_log := launch_log p' @ [(rec_run r, call_id x)]\<rparr>"
    have st: "page_storage p' = writeActiveHostedRun (with_call x r) (page_storage p)"
      using False k by (auto simp: keep_record_def Let_def split: if_splits)
    have "storage_ok logs d seen ?p"
      using hd(10,11) c' kr(6) st by (intro storage_ok_written [of "with_call x r"]) simp_all
    moreover have "launches_ok logs d seen ?p" using kr(3,6) hd(10,11) fresh by (simp add: launches_ok_def)
    moreover have "only_alive i ?p" using kr(4) hd by (simp add: only_alive_def)
    moreover have "keeps logs d seen i (with_call x r) ?p" using kr(2) False c' kr(6) hd by (simp add: keeps_def Let_def)
    ultimately show ?thesis
      using False kr(5) hd x by (auto simp: in_step_def intro!: set_phase_ok [where r = "with_call x r"])
  qed
qed

lemma handle_tool_ok:
  assumes h: "handling logs d seen i r env p" and lg: "log_ok (logs (rec_run r))" and x: "tool_call_id env = Some callId"
  shows "page_ok logs d seen (handleHostedTool registry i uuid env callId commandId broken p)"
proof (cases "List.find (\<lambda>c. call_id c = callId) (stored_calls r)")
  case None
  note hd = handlingD [OF h]
  let ?x = "\<lparr>call_id = callId, call_request = uuid, call_command = commandId, call_state = Executing_Call, call_status = None,
              call_message = None, call_error = None\<rparr>"
  obtain threw p' where k: "keep_record (cons_owner (run_consumers p ! i)) (with_call ?x r) p = (threw, p')" by fastforce
  have "run_consumers p' = run_consumers p" using k by (auto simp: keep_record_def Let_def split: if_splits)
  moreover have "page_ok logs d seen (if threw then consumer_throws i p'
      else set_phase i (Awaiting_Receipt env ?x) (p'\<lparr>launch_log := launch_log p' @ [(rec_run r, callId)]\<rparr>))"
    using launch_ok [OF h lg _ _ k] x None by (cases threw) simp_all
  ultimately show ?thesis
    using None x k hd(8,9) keep_and_submit_ok [OF h lg]
    by (cases broken; cases threw) (simp_all add: handleHostedTool_def updateStoredCall_def Let_def)
next
  case (Some c)
  then have "call_id c = callId" using find_SomeD [OF Some] by simp
  then show ?thesis
    using Some x handlingD(8) [OF h]
    by (simp add: handleHostedTool_def Let_def keep_and_submit_ok [OF h lg] handled_ok [OF h lg] submit_ok [OF h lg])
qed

lemma on_event_ok:
  assumes h: "handling logs d seen i r env p" and lg: "log_ok (logs (rec_run r))"
  shows "page_ok logs d seen (onEvent registry i uuid env p)"
proof -
  have t: "page_ok logs d seen (consumer_throws i p)" using handlingD [OF h] by (intro throws_ok)
  show ?thesis
  proof (cases "env_event env")
    case (Tool_Call c m n a e d')
    then have "tool_call_id env = Some c" by (simp add: tool_call_id_def)
    then show ?thesis using Tool_Call by (simp add: onEvent_def handle_tool_ok [OF h lg])
  qed (use t handled_ok [OF h lg] in \<open>simp_all add: onEvent_def\<close>)
qed

text \<open>A consumer that is alive is the only one.\<close>

lemma alive_handling:
  assumes ok: "page_ok logs d seen p" and i: "i < length (run_consumers p)" "cons_phase (run_consumers p ! i) \<noteq> Consumed"
  obtains r where "launches_ok logs d seen p" "storage_ok logs d seen p" "only_alive i p" "keeps logs d seen i r p" "in_step logs r (run_consumers p ! i)"
proof -
  obtain r where r: "keeps logs d seen i r p" "in_step logs r (run_consumers p ! i)" using ok i by (auto simp: page_ok_def)
  have "only_alive i p"
    unfolding only_alive_def
  proof (intro allI impI)
    fix j assume j: "j < length (run_consumers p)" "j \<noteq> i"
    show "cons_phase (run_consumers p ! j) = Consumed"
    proof (rule ccontr)
      assume "cons_phase (run_consumers p ! j) \<noteq> Consumed"
      then have "active_consumer p = Some j" using ok j by (auto simp: page_ok_def keeps_def)
      then show False using r(1) j(2) by (simp add: keeps_def)
    qed
  qed
  then show ?thesis using that ok r by (auto simp: page_ok_def)
qed

lemma event_arrives_ok:
  assumes ok: "page_ok logs d seen p" and lg: "\<forall>run. log_ok (logs run)"
  shows "page_ok logs d seen (event_arrives registry logs i uuid p)"
proof (cases "i < length (run_consumers p) \<and> cons_phase (run_consumers p ! i) = Listening")
  case True
  then obtain r where r: "launches_ok logs d seen p" "storage_ok logs d seen p" "only_alive i p" "keeps logs d seen i r p"
      "in_step logs r (run_consumers p ! i)"
    using alive_handling [OF ok] by (metis consumer_phase.distinct(5))
  let ?c = "run_consumers p ! i"
  show ?thesis
  proof (cases "next_event (logs (cons_run ?c)) (cons_after ?c)")
    case (Some env)
    let ?p = "set_consumer i (?c\<lparr>cons_after := env_id env\<rparr>) p"
    have "next_event (logs (rec_run r)) (last_event_id r) = Some env"
      using Some r(4,5) True by (simp add: in_step_def keeps_def Let_def)
    then have "handling logs d seen i r env ?p"
      using r True by (auto simp: handling_def launches_ok_def storage_ok_def only_alive_def keeps_def Let_def set_consumer_def set_conv_nth nth_list_update)
    then show ?thesis using Some True lg by (simp add: event_arrives_def Let_def on_event_ok)
  qed (use ok True in \<open>simp add: event_arrives_def Let_def\<close>)
next
  case False
  then show ?thesis using ok by (auto simp: event_arrives_def)
qed

lemma receipt_arrives_ok:
  assumes ok: "page_ok logs d seen p" and lg: "\<forall>run. log_ok (logs run)"
  shows "page_ok logs d seen (receipt_arrives i st msg err p)"
proof (cases "i < length (run_consumers p)")
  case i: True
  show ?thesis
  proof (cases "cons_phase (run_consumers p ! i)")
    case (Awaiting_Receipt env x)
    then obtain r where r: "launches_ok logs d seen p" "storage_ok logs d seen p" "only_alive i p" "keeps logs d seen i r p"
        "in_step logs r (run_consumers p ! i)"
      using alive_handling [OF ok i] by auto
    then have "handling logs d seen i r env p" "tool_call_id env = Some (call_id x)"
      using Awaiting_Receipt by (simp_all add: handling_def in_step_def)
    then show ?thesis using i Awaiting_Receipt lg by (auto simp: receipt_arrives_def intro!: keep_and_submit_ok)
  qed (use ok i in \<open>simp_all add: receipt_arrives_def\<close>)
qed (use ok in \<open>simp add: receipt_arrives_def\<close>)

lemma submission_settles_ok:
  assumes ok: "page_ok logs d seen p" and lg: "\<forall>run. log_ok (logs run)"
  shows "page_ok logs d seen (submission_settles i b p)"
proof (cases "i < length (run_consumers p)")
  case i: True
  show ?thesis
  proof (cases "cons_phase (run_consumers p ! i)")
    case (Submitting env)
    then obtain r where r: "launches_ok logs d seen p" "storage_ok logs d seen p" "only_alive i p" "keeps logs d seen i r p"
        "in_step logs r (run_consumers p ! i)"
      using alive_handling [OF ok i] by auto
    then have h: "handling logs d seen i r env p" using Submitting by (simp add: handling_def in_step_def)
    then show ?thesis using i Submitting lg handlingD [OF h] by (auto simp: submission_settles_def intro!: handled_ok throws_ok)
  qed (use ok i in \<open>simp_all add: submission_settles_def\<close>)
qed (use ok in \<open>simp add: submission_settles_def\<close>)

lemma stream_throws_ok:
  assumes ok: "page_ok logs d seen p"
  shows "page_ok logs d seen (stream_throws i p)"
proof (cases "i < length (run_consumers p) \<and> cons_phase (run_consumers p ! i) = Listening")
  case True
  then obtain r where "launches_ok logs d seen p" "only_alive i p" "keeps logs d seen i r p"
    using alive_handling [OF ok] by (metis consumer_phase.distinct(5))
  then show ?thesis using True by (simp add: stream_throws_def throws_ok keeps_def Let_def)
qed (use ok in \<open>auto simp: stream_throws_def\<close>)

text \<open>A new consumer, when none is alive.\<close>

lemma idle_consumed:
  "page_ok logs d seen p \<Longrightarrow> active_consumer p = None \<Longrightarrow> j < length (run_consumers p) \<Longrightarrow> cons_phase (run_consumers p ! j) = Consumed"
  by (auto simp: page_ok_def keeps_def)

lemma new_consumer_ok:
  assumes "launches_ok logs d seen p" "storage_ok logs d seen p" "\<And>j. j < length (run_consumers p) \<Longrightarrow> cons_phase (run_consumers p ! j) = Consumed"
    and "stored_refs p k = Some r" "rec_run r \<in> seen" "rec_document r = d" "covered logs r (launch_log p)"
  shows "page_ok logs d seen (consumeHostedRun k r p)"
  using assms
  by (auto simp: page_ok_def launches_ok_def storage_ok_def consumeHostedRun_def keeps_def in_step_def Let_def nth_append less_Suc_eq)

lemma restore_ok:
  assumes ok: "page_ok logs d seen p"
  shows "page_ok logs d seen (restore_run d now p)"
proof (cases "active_consumer p")
  case None
  obtain restored storage where rd: "readActiveHostedRun d now (page_storage p) = (restored, storage)" by fastforce
  have r: "stored_record d (page_storage p) = Some r" "storage = page_storage p" if "restored = Some r" for r
    using rd that by (auto simp: readActiveHostedRun_def stored_record_def split: option.splits if_splits bind_splits)
  have n: "storage = page_storage p \<or> storage = clearActiveHostedRun d (page_storage p)"
    using rd by (auto simp: readActiveHostedRun_def split: option.splits if_splits)
  show ?thesis
  proof (cases restored)
    case None': None
    have "page_ok logs d seen (p\<lparr>page_storage := storage\<rparr>)"
      using n ok by (auto simp: page_ok_def launches_ok_def storage_ok_def keeps_def)
    then show ?thesis using None None' rd ok by (simp add: restore_run_def split: option.split)
  next
    case (Some r)
    then have "rec_run r \<in> seen" "rec_document r = d" "covered logs r (launch_log p)"
      using ok r(1) by (auto simp: page_ok_def storage_ok_def)
    then have "page_ok logs d seen (consumeHostedRun k r (p\<lparr>page_storage := storage, stored_refs := (stored_refs p)(k := Some r)\<rparr>))" for k
      using ok Some r(2) idle_consumed [OF ok None] by (intro new_consumer_ok) (auto simp: page_ok_def launches_ok_def storage_ok_def)
    then show ?thesis using None Some rd ok by (simp add: restore_run_def split: option.split)
  qed
qed (use ok in \<open>simp add: restore_run_def split: option.split\<close>)

lemma seen_mono: "page_ok logs d seen p \<Longrightarrow> seen \<subseteq> seen' \<Longrightarrow> page_ok logs d seen' p"
  unfolding page_ok_def launches_ok_def storage_ok_def keeps_def Let_def by blast

lemma accepted_ok:
  assumes ok: "page_ok logs d seen p" and new: "run \<notin> seen"
  shows "page_ok logs d (insert run seen) (run_accepted d run request url t p)"
proof (cases "active_consumer p")
  case None
  let ?r = "\<lparr>rec_document = d, rec_run = run, rec_request = request, events_url = url, expires_at = t, last_event_id = [], stored_calls = []\<rparr>"
  have ok': "page_ok logs d (insert run seen) p" using ok by (rule seen_mono) auto
  have cov: "covered logs ?r (launch_log p)"
    using ok new by (force simp: covered_def page_ok_def launches_ok_def)
  have "page_ok logs d (insert run seen) (p\<lparr>stored_refs := (stored_refs p)(k := Some ?r)\<rparr>)" for k
    using ok' idle_consumed [OF ok None] by (auto simp: page_ok_def launches_ok_def storage_ok_def)
  moreover have "page_ok logs d (insert run seen)
      (consumeHostedRun k ?r (p\<lparr>stored_refs := (stored_refs p)(k := Some ?r), page_storage := writeActiveHostedRun ?r (page_storage p)\<rparr>))" for k
    using ok' cov idle_consumed [OF ok None]
    by (intro new_consumer_ok storage_ok_written [of ?r]) (auto simp: page_ok_def launches_ok_def)
  ultimately show ?thesis
    using None ok' by (simp add: run_accepted_def keep_record_def Let_def split: option.split)
next
  case (Some i)
  then show ?thesis using seen_mono [OF ok] by (auto simp: run_accepted_def split: option.split)
qed

definition accepted_run :: "page_event \<Rightarrow> js_text option" where
  "accepted_run e = (case e of Run_Accepted run _ _ _ \<Rightarrow> Some run | _ \<Rightarrow> None)"

text \<open>The panel is left only by a reload of the page.\<close>

definition by_reload :: "page_event \<Rightarrow> bool" where
  "by_reload e \<longleftrightarrow> e \<noteq> Unmount_Pill \<and> e \<noteq> Stop_Run"

lemma page_step_ok:
  assumes ok: "page_ok logs d seen p" and lg: "\<forall>run. log_ok (logs run)" and e: "by_reload e" "\<And>run. accepted_run e = Some run \<Longrightarrow> run \<notin> seen"
  shows "page_ok logs d (seen \<union> set_option (accepted_run e)) (page_step registry logs d p e)"
proof -
  note defs = page_ok_def launches_ok_def storage_ok_def keeps_def
  show ?thesis
  proof (cases e)
    case (Stop_Settles i)
    have "stop_settles i p = p" using ok by (auto simp: stop_settles_def page_ok_def launches_ok_def)
    then show ?thesis using ok Stop_Settles by (simp add: page_step_def accepted_run_def)
  next
    case Mount_Pill
    then show ?thesis using ok by (simp add: page_step_def accepted_run_def mount_pill_def defs Let_def)
  next
    case Reload_Page
    then show ?thesis using ok by (simp add: page_step_def accepted_run_def reload_page_def defs)
  next
    case (Storage_Full b)
    then show ?thesis using ok by (simp add: page_step_def accepted_run_def defs Let_def)
  next
    case (Run_Accepted run request url t)
    then show ?thesis using accepted_ok [OF ok] e(2) by (simp add: page_step_def accepted_run_def)
  qed (use ok lg e(1) in \<open>simp_all add: page_step_def accepted_run_def by_reload_def restore_ok event_arrives_ok receipt_arrives_ok
        submission_settles_ok stream_throws_ok\<close>)
qed

lemma page_run_ok:
  assumes "\<forall>run. log_ok (logs run)"
  shows "page_ok logs d seen p \<Longrightarrow> list_all by_reload es \<Longrightarrow> distinct (List.map_filter accepted_run es)
    \<Longrightarrow> set (List.map_filter accepted_run es) \<inter> seen = {} \<Longrightarrow> \<exists>seen'. page_ok logs d seen' (foldl (page_step registry logs d) p es)"
proof (induction es arbitrary: seen p)
  case (Cons e es)
  have "run \<notin> seen" if "accepted_run e = Some run" for run using Cons.prems(4) that by (simp add: map_filter_simps)
  then have "page_ok logs d (seen \<union> set_option (accepted_run e)) (page_step registry logs d p e)"
    using Cons.prems assms by (intro page_step_ok) auto
  moreover have "distinct (List.map_filter accepted_run es)" "set (List.map_filter accepted_run es) \<inter> (seen \<union> set_option (accepted_run e)) = {}"
    using Cons.prems(3,4) by (auto simp: map_filter_simps split: option.splits)
  ultimately show ?case using Cons.prems(2) by (simp add: Cons.IH)
qed auto

lemma new_page_ok: "page_ok logs d {} new_page"
  by (simp add: page_ok_def launches_ok_def storage_ok_def new_page_def stored_record_def)

section \<open>Properties\<close>

text \<open>
  C7. A reload never launches a command twice. However often the page is reloaded while a hosted run
  proposes commands, at whatever moment and whether or not the storage accepts what is written,
  every call of every run is launched at most once, as long as the service numbers its events, gives each call an
  identifier of its own and each accepted run a fresh one, the panel stays mounted between the
  reloads and the run is not stopped. Taking the panel away while a command runs is excluded because
  it does launch a command twice (\<open>remount_relaunches\<close>).
\<close>

theorem reload_never_relaunches:
  assumes "\<forall>run. log_ok (logs run)" "list_all by_reload es" "distinct (List.map_filter accepted_run es)"
  shows "distinct (launch_log (foldl (page_step registry logs documentId) new_page es))"
proof -
  obtain seen where "page_ok logs documentId seen (foldl (page_step registry logs documentId) new_page es)"
    using page_run_ok [OF assms(1) new_page_ok assms(2,3)] by auto
  then show ?thesis by (simp add: page_ok_def launches_ok_def)
qed

definition demo_command :: agent_command where
  "demo_command = \<lparr>command_id = ''a'', surfaces = [], invocationSources = [Agent], command_modes = None, command_contexts = None,
     command_roles = None, workspaceKinds = None, command_capability = None, requiresDocument = True, requiresSelection = False,
     hiddenWhenUnavailable = False, command_risk = Write_Risk, parameters = None, agent_exposed = True\<rparr>"

definition demo_call :: "string \<Rightarrow> string \<Rightarrow> envelope" where
  "demo_call n c = \<lparr>env_id = js n, env_event = Tool_Call (js c) (js ''a'') (js ''marks_a'') [] (js ''write'') (js ''document'')\<rparr>"

definition demo_log :: "envelope list" where
  "demo_log = [demo_call ''1'' ''c'', demo_call ''2'' ''d'']"

text \<open>The page is reloaded while the first command runs; the second is launched after that.\<close>

theorem reload_never_relaunches_witness:
  "let p = foldl (page_step [demo_command] (\<lambda>_. demo_log) (js ''doc'')) new_page
       [Mount_Pill, Run_Accepted (js ''r'') (js ''q'') (js ''/u'') 9, Event_Arrives 0 (js ''x''), Reload_Page, Mount_Pill, Restore_Run 5,
        Event_Arrives 0 (js ''y''), Submission_Settles 0 True, Event_Arrives 0 (js ''z'')]
   in launch_log p = [(js ''r'', js ''c''), (js ''r'', js ''d'')] \<and> distinct (launch_log p)"
proof -
  let ?es = "[Mount_Pill, Run_Accepted (js ''r'') (js ''q'') (js ''/u'') 9, Event_Arrives 0 (js ''x''), Reload_Page, Mount_Pill, Restore_Run 5,
        Event_Arrives 0 (js ''y''), Submission_Settles 0 True, Event_Arrives 0 (js ''z'')]"
  have "launch_log (foldl (page_step [demo_command] (\<lambda>_. demo_log) (js ''doc'')) new_page ?es) = [(js ''r'', js ''c''), (js ''r'', js ''d'')]"
    by code_simp
  moreover have "log_ok demo_log" by code_simp
  moreover have "list_all by_reload ?es" "distinct (List.map_filter accepted_run ?es)"
    by (simp_all add: by_reload_def accepted_run_def map_filter_simps)
  ultimately show ?thesis
    using reload_never_relaunches [of "\<lambda>_. demo_log" ?es "[demo_command]" "js ''doc''"] by (simp add: Let_def)
qed

text \<open>
  Focus mode takes the panel away while a command runs, and brings it back. The consumer of the first
  panel is still waiting: when its command finishes it writes its own record over the newer one, and
  the next page launches the second command again.
\<close>

lemma remount_relaunches:
  "launch_log (foldl (page_step [demo_command] (\<lambda>_. demo_log) (js ''doc'')) new_page
     [Mount_Pill, Run_Accepted (js ''r'') (js ''q'') (js ''/u'') 9, Event_Arrives 0 (js ''x''), Unmount_Pill, Mount_Pill, Restore_Run 5,
      Event_Arrives 1 (js ''y''), Submission_Settles 1 True, Event_Arrives 1 (js ''z''), Receipt_Arrives 0 Call_Succeeded None None,
      Reload_Page, Mount_Pill, Restore_Run 6, Event_Arrives 0 (js ''w'')])
   = [(js ''r'', js ''c''), (js ''r'', js ''d''), (js ''r'', js ''d'')]"
  by code_simp

text \<open>
  A stopped run's consumer still takes what the stream has buffered: the events are handed on, and a
  command they propose is launched after the run was stopped.
\<close>

lemma stopped_run_launches:
  "launch_log (foldl (page_step [demo_command] (\<lambda>_. demo_log) (js ''doc'')) new_page
     [Mount_Pill, Run_Accepted (js ''r'') (js ''q'') (js ''/u'') 9, Event_Arrives 0 (js ''x''), Stop_Run,
      Receipt_Arrives 0 Call_Cancelled None None, Event_Arrives 0 (js ''y'')])
   = [(js ''r'', js ''c''), (js ''r'', js ''d'')]"
  by code_simp

end
