(* ===== verification/Qr_Field.thy ===== *)
theory Qr_Field
  imports Marks_Prelude
begin

text \<open>
  The arithmetic behind the QR codes of pairing links (\<open>client/src/lib/qr.ts\<close>, lines 6 to 36): the
  tables of powers and logarithms, multiplication by them, and the Reed-Solomon check bytes. The
  lemmas show that the tables multiply in the field GF(256) and that a message with its check bytes
  has the roots a decoder tests.
\<close>

unbundle bit_operations_syntax

section \<open>The tables\<close>

text \<open>One turn of the loop that fills the tables; \<open>value\<close> is a JavaScript number below 256.\<close>

definition next_value :: "32 word \<Rightarrow> 32 word" where
  "next_value v = push_bit 1 v XOR (if v AND 0x80 \<noteq> 0 then 0x11d else 0)"

definition table_value :: "nat \<Rightarrow> 32 word" where
  "table_value i = (next_value ^^ i) 1"

definition EXP :: "byte list" where
  "EXP = map (\<lambda>i. ucast (table_value i)) [0..<255] @ [0]"

definition LOG :: "byte list" where
  "LOG = foldl (\<lambda>t i. t[unat (table_value i) := of_nat i]) (replicate 256 0) [0..<255]"

definition gfMul :: "byte \<Rightarrow> byte \<Rightarrow> byte" where
  "gfMul a b = (if a \<noteq> 0 \<and> b \<noteq> 0 then EXP ! ((unat (LOG ! unat a) + unat (LOG ! unat b)) mod 255) else 0)"

section \<open>Check bytes\<close>

text \<open>The inner loop of \<open>rsGenerator\<close> counts down, so it reads coefficients it has not changed yet.\<close>

definition generator_turn :: "byte list \<Rightarrow> nat \<Rightarrow> byte list" where
  "generator_turn poly i = foldl (\<lambda>p j. p[j := p ! j XOR gfMul (p ! (j - 1)) (EXP ! i)]) poly (rev [1..<i + 2])"

definition rsGenerator :: "nat \<Rightarrow> byte list" where
  "rsGenerator degree = foldl generator_turn (1 # replicate degree 0) [0..<degree]"

definition rs_turn :: "byte list \<Rightarrow> byte list \<Rightarrow> byte \<Rightarrow> byte list" where
  "rs_turn generator ecc b =
     (let factor = b XOR hd ecc;
          ecc = tl ecc @ [0]
      in if factor = 0 then ecc else map2 (\<lambda>e g. e XOR gfMul g factor) ecc (tl generator))"

definition rsEncode :: "byte list \<Rightarrow> nat \<Rightarrow> byte list" where
  "rsEncode data degree = foldl (rs_turn (rsGenerator degree)) (replicate degree 0) data"

section \<open>The field\<close>

text \<open>Multiplication by the generator of the field on bytes.\<close>

definition xtime :: "byte \<Rightarrow> byte" where
  "xtime b = push_bit 1 b XOR (if bit b 7 then 0x1d else 0)"

lemma xtime_xor: "xtime (a XOR b) = xtime a XOR xtime b"
  by (cases "bit a 7"; cases "bit b 7") (simp_all add: xtime_def push_bit_xor bit_xor_iff ac_simps)

lemma xtime_0 [simp]: "xtime 0 = 0"
  by (simp add: xtime_def)

lemma xor_eq_0: "a XOR b = 0 \<longleftrightarrow> a = (b :: 'a :: len word)"
  by (auto simp: bit_eq_iff bit_xor_iff)

lemma xtime_eq_0: "xtime a = 0 \<longleftrightarrow> a = 0"
proof
  assume z: "xtime a = 0"
  have "bit (xtime a) 0 = bit a 7" unfolding xtime_def bit_xor_iff bit_push_bit_iff by simp
  then have seven: "\<not> bit a 7" using z by simp
  then have p: "push_bit 1 a = 0" using z by (simp add: xtime_def)
  show "a = 0"
  proof (rule bit_word_eqI)
    fix n assume n: "n < LENGTH(8)"
    show "bit a n = bit (0 :: byte) n"
    proof (cases "n = 7")
      case False
      have "bit (push_bit 1 a) (Suc n) = bit a n" using n False unfolding bit_push_bit_iff by auto
      then show ?thesis unfolding p by simp
    qed (use seven in simp)
  qed
qed simp

lemma xtime_inject: "xtime a = xtime b \<longleftrightarrow> a = b"
  using xtime_eq_0 [of "a XOR b"] by (simp add: xtime_xor xor_eq_0)

abbreviation xpow :: "nat \<Rightarrow> byte \<Rightarrow> byte" where
  "xpow n \<equiv> xtime ^^ n"

lemma xpow_xor: "xpow n (a XOR b) = xpow n a XOR xpow n b"
  by (induction n) (simp_all add: xtime_xor)

lemma xpow_0 [simp]: "xpow n 0 = 0"
  by (induction n) simp_all

lemma xpow_inject: "xpow n a = xpow n b \<longleftrightarrow> a = b"
  by (induction n) (simp_all add: xtime_inject)

lemma xpow_1_ne_0: "xpow n 1 \<noteq> 0"
  using xpow_inject [of n 1 0] by simp

lemma xpow_15_steps:
  "xpow 15 x = xtime (xtime (xtime (xtime (xtime (xtime (xtime (xtime (xtime (xtime (xtime (xtime (xtime (xtime (xtime x))))))))))))))"
  by (simp add: eval_nat_numeral)

text \<open>Every fifteenth power.\<close>

lemma xpow_15:
  "xpow 15 1 = 38" "xpow 15 38 = 96" "xpow 15 96 = 193" "xpow 15 193 = 185" "xpow 15 185 = 15" "xpow 15 15 = 223" "xpow 15 223 = 26" "xpow 15 26 = 59" "xpow 15 59 = 169" "xpow 15 169 = 85" "xpow 15 85 = 145" "xpow 15 145 = 150" "xpow 15 150 = 100" "xpow 15 100 = 89" "xpow 15 89 = 36" "xpow 15 36 = 44" "xpow 15 44 = 1"
  unfolding xpow_15_steps by (simp_all add: xtime_def)

lemma xpow_add: "xpow (m + n) a = xpow m (xpow n a)"
  by (simp add: funpow_add)

lemma xpow_period: "xpow 255 1 = 1" "xpow 85 1 \<noteq> 1" "xpow 51 1 \<noteq> 1" "xpow 15 1 \<noteq> 1"
proof -
  have s: "xpow 30 x = xpow 15 (xpow 15 x)" "xpow 45 x = xpow 15 (xpow 30 x)" "xpow 75 x = xpow 30 (xpow 45 x)" "xpow 255 x = xpow 30 (xpow 75 (xpow 75 (xpow 75 x)))" for x
    using xpow_add [of 15 15 x] xpow_add [of 15 30 x] xpow_add [of 30 45 x] xpow_add [of 30 225 x] xpow_add [of 75 150 x] xpow_add [of 75 75 x] by simp_all
  have t: "xpow 85 x = xpow 10 (xpow 75 x)" "xpow 51 x = xpow 6 (xpow 45 x)" for x
    using xpow_add [of 10 75 x] xpow_add [of 6 45 x] by simp_all
  have u: "xpow 10 x = xtime (xtime (xtime (xtime (xtime (xtime (xtime (xtime (xtime (xtime x)))))))))"
    "xpow 6 x = xtime (xtime (xtime (xtime (xtime (xtime x)))))" for x
    by (simp_all add: eval_nat_numeral)
  show "xpow 255 1 = 1" "xpow 15 1 \<noteq> 1" by (simp_all add: s xpow_15)
  show "xpow 85 1 \<noteq> 1" "xpow 51 1 \<noteq> 1" unfolding t s u by (simp_all add: xpow_15 xtime_def)
qed

lemma xpow_multiple: "xpow n 1 = 1 \<Longrightarrow> xpow (k * n) 1 = 1"
  by (induction k) (simp_all add: xpow_add)

lemma xpow_mod: "xpow n 1 = 1 \<Longrightarrow> xpow (m mod n) 1 = xpow m 1"
  using xpow_add [of "m mod n" "m div n * n" 1] xpow_multiple [of n "m div n"] by simp

lemma xpow_gcd: "xpow m 1 = 1 \<Longrightarrow> xpow n 1 = 1 \<Longrightarrow> xpow (gcd m n) 1 = 1"
  by (induction m n rule: gcd_nat_induct) (simp_all add: xpow_mod gcd_red_nat [symmetric] gcd.commute)

lemma proper_divisor_255:
  assumes "d dvd 255" "d < 255"
  shows "d dvd 85 \<or> d dvd 51 \<or> d dvd (15 :: nat)"
proof -
  obtain e where e: "255 = d * e" using assms(1) by (auto simp: dvd_def)
  then have "e \<noteq> 0" "e \<noteq> 1" "d \<noteq> 0" using assms(2) by (auto intro: Nat.gr0I)
  have "d \<le> 15 \<or> e \<le> 15"
  proof (rule ccontr)
    assume "\<not> ?thesis"
    then have "16 * 16 \<le> d * e" by (intro mult_le_mono) auto
    then show False using e by simp
  qed
  then show ?thesis
  proof
    assume "d \<le> 15"
    then have "d \<in> {1, 2, 3, 4, 5, 6, 7, 8, 9, 10, 11, 12, 13, 14, 15}" using \<open>d \<noteq> 0\<close> by simp presburger
    then show ?thesis using assms(1) by auto
  next
    assume "e \<le> 15"
    then have "e \<in> {2, 3, 4, 5, 6, 7, 8, 9, 10, 11, 12, 13, 14, 15}" using \<open>e \<noteq> 0\<close> \<open>e \<noteq> 1\<close> by simp presburger
    moreover have "e dvd 255" unfolding e by simp
    ultimately have "e \<in> {3, 5, 15}" by auto
    then have "d = 85 \<or> d = 51 \<or> d = 17" using e by auto
    then show ?thesis by auto
  qed
qed

lemma xpow_ne_1:
  assumes "0 < k" "k < 255" shows "xpow k 1 \<noteq> 1"
proof
  assume one: "xpow k 1 = 1"
  let ?d = "gcd k 255"
  have "xpow ?d 1 = 1" using one xpow_period(1) by (rule xpow_gcd)
  moreover have "?d < 255" using assms gcd_le1_nat [of k 255] by linarith
  then have "?d dvd 85 \<or> ?d dvd 51 \<or> ?d dvd 15" by (intro proper_divisor_255) simp_all
  ultimately show False using xpow_period(2-4) by (auto simp: dvd_def) (metis xpow_multiple mult.commute)+
qed

lemma xpow_distinct: "i < 255 \<Longrightarrow> j < 255 \<Longrightarrow> xpow i 1 = xpow j 1 \<Longrightarrow> i = j"
proof (induction i j rule: linorder_wlog)
  case (le i j)
  have "xpow i (xpow (j - i) 1) = xpow i 1" using le xpow_add [of i "j - i" 1] by simp
  then have "xpow (j - i) 1 = 1" by (simp add: xpow_inject)
  then show ?case using xpow_ne_1 [of "j - i"] le by fastforce
qed (metis)

subsection \<open>The tables hold the powers\<close>

lemma bit_0x11d: "bit (0x11d :: 32 word) n \<longleftrightarrow> n \<in> {0, 2, 3, 4, 8}"
  and bit_0x1d: "bit (0x1d :: byte) n \<longleftrightarrow> n \<in> {0, 2, 3, 4}"
  by (auto simp: bit_numeral_rec bit_1_iff split: nat.splits) 

lemma next_value_byte: "next_value (ucast b) = ucast (xtime b)"
proof -
  have c: "ucast b AND (0x80 :: 32 word) \<noteq> 0 \<longleftrightarrow> bit b 7"
    using and_exp_eq_0_iff_not_bit [of "ucast b :: 32 word" 7] by (simp add: bit_ucast_iff)
  show ?thesis
  proof (rule bit_word_eqI)
    fix n assume n: "n < LENGTH(32)"
    have b8: "8 \<le> m \<Longrightarrow> \<not> bit b m" for m using bit_imp_le_length [of b m] by auto
    have "n = 0 \<or> n = 1 \<or> n = 2 \<or> n = 3 \<or> n = 4 \<or> n = 5 \<or> n = 6 \<or> n = 7 \<or> n = 8 \<or> 8 < n" by linarith
    then show "bit (next_value (ucast b)) n = bit (ucast (xtime b) :: 32 word) n"
      unfolding next_value_def xtime_def c bit_xor_iff bit_push_bit_iff bit_ucast_iff if_distrib [of "\<lambda>w. bit w n"] bit_0x11d bit_0x1d
      by (elim disjE) (use n b8 [of "n - 1"] b8 [of n] in \<open>simp_all del: bit_0 bit_Suc\<close>)
  qed
qed

lemma table_value_xpow: "table_value i = ucast (xpow i 1)"
  unfolding table_value_def by (induction i) (simp_all add: next_value_byte)

lemma unat_table_value: "unat (table_value i) = unat (xpow i 1)"
  by (simp add: table_value_xpow unsigned_ucast_eq take_bit_nat_eq_self less_trans [OF unat_byte_lt])

lemma byte_of_table [simp]: "ucast (ucast b :: 32 word) = (b :: byte)"
  by (rule bit_word_eqI) (simp add: bit_ucast_iff)

lemma EXP_xpow: "i < 255 \<Longrightarrow> EXP ! i = xpow i 1"
  by (simp add: EXP_def nth_append table_value_xpow)

abbreviation log_prefix :: "nat \<Rightarrow> byte list" where
  "log_prefix n \<equiv> foldl (\<lambda>t i. t[unat (table_value i) := of_nat i]) (replicate 256 0) [0..<n]"

lemma log_table: "n \<le> 255 \<Longrightarrow> length (log_prefix n) = 256 \<and> (\<forall>i<n. log_prefix n ! unat (xpow i 1) = of_nat i)"
proof (induction n)
  case (Suc n)
  have "\<forall>i<n. unat (xpow n 1) \<noteq> unat (xpow i 1)"
  proof (intro allI impI)
    fix i assume "i < n"
    then show "unat (xpow n 1) \<noteq> unat (xpow i 1)"
      using xpow_distinct [of n i] Suc.prems by (auto simp: word_unat_eq_iff [symmetric])
  qed
  then show ?case using Suc unat_byte_lt [of "xpow n 1"] by (auto simp: unat_table_value nth_list_update less_Suc_eq)
qed simp

lemma LOG_xpow: "i < 255 \<Longrightarrow> unat (LOG ! unat (xpow i 1)) = i"
  using log_table [of 255] unfolding LOG_def by (auto simp: unat_byte_of_nat)

lemma byte_is_power:
  assumes "a \<noteq> (0 :: byte)" obtains i where "i < 255" "a = xpow i 1"
proof -
  have "inj_on (\<lambda>i. xpow i 1) {..<255}" by (rule inj_onI) (simp add: xpow_distinct)
  then have "card ((\<lambda>i. xpow i 1) ` {..<255}) = 255" by (simp add: card_image)
  moreover have "card (UNIV - {0 :: byte}) = 255" by (simp add: card_Diff_singleton card_word)
  moreover have "(\<lambda>i. xpow i 1) ` {..<255} \<subseteq> UNIV - {0}" using xpow_1_ne_0 by auto
  ultimately have "(\<lambda>i. xpow i 1) ` {..<255} = UNIV - {0}" by (intro card_subset_eq) simp_all
  then show ?thesis using assms that by (metis (no_types, lifting) DiffI UNIV_I imageE lessThan_iff singletonD)
qed

lemma gfMul_powers:
  assumes "i < 255" "j < 255" shows "gfMul (xpow i 1) (xpow j 1) = xpow (i + j) 1"
proof -
  have "(i + j) mod 255 < 255" by simp
  then show ?thesis
    using assms xpow_1_ne_0 by (simp add: gfMul_def LOG_xpow EXP_xpow xpow_mod [OF xpow_period(1)])
qed

lemma gfMul_xpow: "i < 255 \<Longrightarrow> gfMul (xpow i 1) b = xpow i b"
proof (cases "b = 0")
  case False
  then obtain j where "j < 255" "b = xpow j 1" by (rule byte_is_power)
  moreover assume "i < 255"
  ultimately show ?thesis by (simp add: gfMul_powers xpow_add)
qed (simp add: gfMul_def)

lemma gfMul_0 [simp]: "gfMul 0 b = 0" "gfMul b 0 = 0"
  by (simp_all add: gfMul_def)

lemma gfMul_commute: "gfMul a b = gfMul b a"
  by (simp add: gfMul_def add.commute)

lemma gfMul_xor: "gfMul a (b XOR c) = gfMul a b XOR gfMul a c"
proof (cases "a = 0")
  case False
  then obtain i where "i < 255" "a = xpow i 1" by (rule byte_is_power)
  then show ?thesis by (simp add: gfMul_xpow xpow_xor)
qed simp

lemma gfMul_xor_left: "gfMul (b XOR c) a = gfMul b a XOR gfMul c a"
  using gfMul_xor [of a b c] by (simp add: gfMul_commute)

lemma gfMul_assoc: "gfMul (gfMul a b) c = gfMul a (gfMul b c)"
proof (cases "a = 0 \<or> c = 0")
  case False
  obtain i where i: "i < 255" "a = xpow i 1" by (rule byte_is_power [of a]) (use False in auto)
  obtain k where k: "k < 255" "c = xpow k 1" by (rule byte_is_power [of c]) (use False in auto)
  have "gfMul (gfMul a b) c = xpow k (xpow i b)"
    unfolding gfMul_commute [of _ c] unfolding i(2) k(2) by (simp only: gfMul_xpow i k)
  also have "\<dots> = xpow i (xpow k b)" by (metis xpow_add add.commute)
  also have "\<dots> = gfMul a (gfMul b c)"
    unfolding gfMul_commute [of b c] unfolding i(2) k(2) by (simp only: gfMul_xpow i k)
  finally show ?thesis .
qed auto

text \<open>The laws of the library's locale give powers and reordering.\<close>

interpretation gf: comm_monoid gfMul 1
proof
  show "gfMul (gfMul a b) c = gfMul a (gfMul b c)" for a b c by (rule gfMul_assoc)
  show "gfMul a b = gfMul b a" for a b by (rule gfMul_commute)
  show "gfMul a 1 = a" for a using gfMul_xpow [of 0 a] by (simp add: gfMul_commute)
qed

lemmas gf_ac = gf.assoc gf.commute gf.left_commute

text \<open>
  The tables multiply as polynomials over two elements modulo \<open>0x11d\<close>: for every bit of one factor,
  the other times that power of the generator, added up without carries.
\<close>

definition carryless :: "byte \<Rightarrow> byte \<Rightarrow> byte" where
  "carryless a b = foldr (\<lambda>k s. (if bit a k then xpow k b else 0) XOR s) [0..<8] 0"

lemma power_of_two: "k < 8 \<Longrightarrow> (2 ^ k :: byte) = xpow k 1"
proof (induction k)
  case (Suc k)
  have "\<not> bit (2 ^ k :: byte) 7" using Suc.prems by (simp add: bit_exp_iff)
  then have "xtime (2 ^ k) = 2 ^ Suc k" by (simp add: xtime_def)
  then show ?case using Suc by simp
qed simp

lemma gfMul_bits: "n \<le> 8 \<Longrightarrow> gfMul (take_bit n a) b = foldr (\<lambda>k s. (if bit a k then xpow k b else 0) XOR s) [0..<n] 0"
proof (induction n)
  case (Suc n)
  have f: "foldr (\<lambda>k s. f k XOR s) ks z = foldr (\<lambda>k s. f k XOR s) ks 0 XOR (z :: byte)" for f ks z
    by (induction ks) (simp_all add: ac_simps)
  have "take_bit (Suc n) a = take_bit n a XOR (if bit a n then 2 ^ n else 0)"
    by (rule bit_word_eqI) (auto simp: bit_take_bit_iff bit_xor_iff bit_exp_iff less_Suc_eq)
  moreover have "gfMul (2 ^ n) b = xpow n b" using Suc.prems by (simp add: power_of_two gfMul_xpow)
  ultimately show ?case using Suc by (simp add: gfMul_xor_left f [of _ _ "_ XOR _"] f [of _ _ "xpow n b"])
qed (simp add: take_bit_0)

text \<open>
  The logarithm tables multiply. For all two bytes the product the code reads from its tables is
  the product of the two polynomials modulo the polynomial of the field.
\<close>

theorem table_product_is_field_product: "gfMul a b = carryless a b"
  using gfMul_bits [of 8 a b] by (simp add: carryless_def take_bit_word_eq_self)

section \<open>Check bytes\<close>

text \<open>A block as a polynomial, the first byte the highest coefficient, evaluated at a point.\<close>

definition poly_at :: "byte \<Rightarrow> byte list \<Rightarrow> byte" where
  "poly_at r ps = foldl (\<lambda>s c. gfMul s r XOR c) 0 ps"

fun gf_power :: "byte \<Rightarrow> nat \<Rightarrow> byte" where
  "gf_power r 0 = 1"
| "gf_power r (Suc n) = gfMul r (gf_power r n)"

lemma poly_fold: "foldl (\<lambda>s c. gfMul s r XOR c) a ps = gfMul a (gf_power r (length ps)) XOR poly_at r ps"
proof (induction ps arbitrary: a)
  case Nil
  then show ?case by (simp add: poly_at_def)
next
  case (Cons c ps)
  have "poly_at r (c # ps) = gfMul c (gf_power r (length ps)) XOR poly_at r ps"
    using Cons [of c] by (simp add: poly_at_def)
  then show ?case using Cons [of "gfMul a r XOR c"] by (simp add: gfMul_xor gfMul_xor_left gf_ac ac_simps)
qed

lemma poly_at_append: "poly_at r (ps @ qs) = gfMul (poly_at r ps) (gf_power r (length qs)) XOR poly_at r qs"
proof -
  have "poly_at r (ps @ qs) = foldl (\<lambda>s c. gfMul s r XOR c) (poly_at r ps) qs" by (simp add: poly_at_def)
  then show ?thesis by (simp only: poly_fold)
qed

lemma poly_at_Nil [simp]: "poly_at r [] = 0"
  by (simp add: poly_at_def)

lemma poly_at_Cons: "poly_at r (c # ps) = gfMul c (gf_power r (length ps)) XOR poly_at r ps"
  using poly_at_append [of r "[c]" ps] by (simp add: poly_at_def)

lemma poly_at_scale: "poly_at r (map (gfMul c) ps) = gfMul c (poly_at r ps)"
  by (induction ps) (simp_all add: poly_at_Cons gfMul_xor gf_ac)

lemma poly_at_xor: "length ps = length qs \<Longrightarrow> poly_at r (map2 (XOR) ps qs) = poly_at r ps XOR poly_at r qs"
  by (induction ps qs rule: list_induct2) (simp_all add: poly_at_Cons gfMul_xor_left ac_simps)

subsection \<open>The generator\<close>

lemma generator_inner:
  "n < length poly \<Longrightarrow>
     length (foldl (\<lambda>p j. p[j := p ! j XOR gfMul (p ! (j - 1)) c]) poly (rev [1..<Suc n])) = length poly
     \<and> (\<forall>k<length poly. foldl (\<lambda>p j. p[j := p ! j XOR gfMul (p ! (j - 1)) c]) poly (rev [1..<Suc n]) ! k
          = (if 1 \<le> k \<and> k \<le> n then poly ! k XOR gfMul (poly ! (k - 1)) c else poly ! k))"
proof (induction n arbitrary: poly)
  case (Suc n)
  let ?q = "poly[Suc n := poly ! Suc n XOR gfMul (poly ! n) c]"
  let ?r = "foldl (\<lambda>p j. p[j := p ! j XOR gfMul (p ! (j - 1)) c]) ?q (rev [1..<Suc n])"
  have e: "rev [1..<Suc (Suc n)] = Suc n # rev [1..<Suc n]" by simp
  have f: "foldl (\<lambda>p j. p[j := p ! j XOR gfMul (p ! (j - 1)) c]) poly (rev [1..<Suc (Suc n)]) = ?r" unfolding e by simp
  have IH: "length ?r = length poly" "\<And>k. k < length poly \<Longrightarrow> ?r ! k = (if 1 \<le> k \<and> k \<le> n then ?q ! k XOR gfMul (?q ! (k - 1)) c else ?q ! k)"
    using Suc.IH [of ?q] Suc.prems by simp_all
  have "?r ! k = (if 1 \<le> k \<and> k \<le> Suc n then poly ! k XOR gfMul (poly ! (k - 1)) c else poly ! k)" if "k < length poly" for k
    unfolding IH(2) [OF that] using that by (cases "k = Suc n") (auto simp: nth_list_update)
  then show ?case unfolding f using IH(1) by simp
qed simp

text \<open>One turn multiplies the polynomial so far by \<open>x - \<alpha>\<^sup>i\<close>.\<close>

lemma generator_turn_prefix:
  assumes "length p = Suc i" "i < 255"
  shows "generator_turn (p @ replicate (Suc m) 0) i
    = map2 (XOR) (p @ [0]) (0 # map (gfMul (EXP ! i)) p) @ replicate m 0"
proof (rule nth_equalityI)
  have e: "rev [1..<i + 2] = rev [1..<Suc (Suc i)]" by simp
  note g = generator_inner [of "Suc i" "p @ replicate (Suc m) 0" "EXP ! i"]
  show "length (generator_turn (p @ replicate (Suc m) 0) i) = length (map2 (XOR) (p @ [0]) (0 # map (gfMul (EXP ! i)) p) @ replicate m 0)"
    using g assms unfolding generator_turn_def e by simp
  fix k assume "k < length (generator_turn (p @ replicate (Suc m) 0) i)"
  then have k: "k < Suc (Suc i) + m" using g assms unfolding generator_turn_def e by simp
  have "generator_turn (p @ replicate (Suc m) 0) i ! k
      = (if 1 \<le> k \<and> k \<le> Suc i then (p @ replicate (Suc m) 0) ! k XOR gfMul ((p @ replicate (Suc m) 0) ! (k - 1)) (EXP ! i)
         else (p @ replicate (Suc m) 0) ! k)"
    using g assms k unfolding generator_turn_def e by simp
  also have "\<dots> = (map2 (XOR) (p @ [0]) (0 # map (gfMul (EXP ! i)) p) @ replicate m 0) ! k"
    using assms k by (cases k) (auto simp: nth_append nth_Cons' gf.commute)
  finally show "generator_turn (p @ replicate (Suc m) 0) i ! k = (map2 (XOR) (p @ [0]) (0 # map (gfMul (EXP ! i)) p) @ replicate m 0) ! k" .
qed

lemma poly_at_turn:
  assumes "length p = Suc i"
  shows "poly_at r (map2 (XOR) (p @ [0]) (0 # map (gfMul c) p)) = gfMul (r XOR c) (poly_at r p)"
  using assms by (simp add: poly_at_xor poly_at_append poly_at_Cons poly_at_scale gfMul_xor_left gf.commute)

text \<open>After \<open>n\<close> turns: monic of degree \<open>n\<close>, with the first \<open>n\<close> powers as roots.\<close>

lemma generator_prefix:
  "n \<le> degree \<Longrightarrow> degree \<le> 255 \<Longrightarrow> \<exists>t. foldl generator_turn (1 # replicate degree 0) [0..<n] = (1 # t) @ replicate (degree - n) 0
     \<and> length t = n \<and> (\<forall>i<n. poly_at (EXP ! i) (1 # t) = 0)"
proof (induction n)
  case (Suc n)
  then obtain t where t: "foldl generator_turn (1 # replicate degree 0) [0..<n] = (1 # t) @ replicate (degree - n) 0" "length t = n"
    "\<forall>i<n. poly_at (EXP ! i) (1 # t) = 0" by auto
  let ?p = "map2 (XOR) ((1 # t) @ [0]) (0 # map (gfMul (EXP ! n)) (1 # t))"
  let ?t = "map2 (XOR) (t @ [0]) (map (gfMul (EXP ! n)) (1 # t))"
  have t': "?p = 1 # ?t" "length ?t = Suc n" using t(2) by simp_all
  have "degree - n = Suc (degree - Suc n)" using Suc.prems by simp
  then have "foldl generator_turn (1 # replicate degree 0) [0..<Suc n] = ?p @ replicate (degree - Suc n) 0"
    using generator_turn_prefix [of "1 # t" n "degree - Suc n"] t Suc.prems by simp
  moreover have "poly_at (EXP ! i) ?p = 0" if "i < Suc n" for i
    using poly_at_turn [of "1 # t" n "EXP ! i" "EXP ! n"] t that by (cases "i = n") auto
  ultimately show ?case using t' by (intro exI [of _ ?t]) simp
qed simp

lemma rsGenerator_roots:
  assumes "degree \<le> 255"
  obtains t where "rsGenerator degree = 1 # t" "length t = degree" "\<And>i. i < degree \<Longrightarrow> poly_at (EXP ! i) (1 # t) = 0"
  using generator_prefix [of degree degree] assms by (auto simp: rsGenerator_def)

subsection \<open>The division\<close>

lemma rs_turn_at:
  assumes "length t = length ecc" "ecc \<noteq> []" "poly_at r (1 # t) = 0"
  shows "poly_at r (rs_turn (1 # t) ecc b) = gfMul r (poly_at r ecc) XOR gfMul b (gf_power r (length ecc))"
    and "length (rs_turn (1 # t) ecc b) = length ecc"
proof -
  obtain h e where ecc: "ecc = h # e" using assms(2) by (cases ecc) auto
  let ?f = "b XOR h"
  have root: "poly_at r t = gf_power r (length ecc)" using assms(1,3) by (simp add: poly_at_Cons xor_eq_0)
  have "rs_turn (1 # t) ecc b = map2 (XOR) (e @ [0]) (map (gfMul ?f) t)"
  proof (cases "?f = 0")
    case True
    have "map2 (XOR) (e @ [0]) (map (gfMul 0) t) = e @ [0]"
      using assms(1) ecc by (intro nth_equalityI) auto
    then show ?thesis using True ecc by (simp add: rs_turn_def Let_def)
  next
    case False
    then show ?thesis
      using assms(1) ecc by (auto simp: rs_turn_def Let_def gf.commute intro!: nth_equalityI)
  qed
  moreover have "length (e @ [0]) = length (map (gfMul ?f) t)" using assms(1) ecc by simp
  ultimately have "poly_at r (rs_turn (1 # t) ecc b) = poly_at r (e @ [0]) XOR gfMul ?f (poly_at r t)"
    by (simp only: poly_at_xor poly_at_scale)
  also have "\<dots> = gfMul r (poly_at r ecc) XOR gfMul b (gf_power r (length ecc))"
    by (simp add: root ecc poly_at_append poly_at_Cons gfMul_xor gfMul_xor_left gf_ac ac_simps)
  finally show "poly_at r (rs_turn (1 # t) ecc b) = gfMul r (poly_at r ecc) XOR gfMul b (gf_power r (length ecc))" .
  show "length (rs_turn (1 # t) ecc b) = length ecc" using assms(1) ecc by (auto simp: rs_turn_def Let_def)
qed

lemma rs_fold_at:
  assumes "length t = d" "0 < d" "poly_at r (1 # t) = 0"
  shows "length ecc = d \<Longrightarrow> length (foldl (rs_turn (1 # t)) ecc data) = d
    \<and> poly_at r (foldl (rs_turn (1 # t)) ecc data) = gfMul (gf_power r (length data)) (poly_at r ecc) XOR gfMul (poly_at r data) (gf_power r d)"
proof (induction data arbitrary: ecc)
  case (Cons b data)
  have "ecc \<noteq> []" using Cons.prems assms(2) by auto
  then show ?case
    using Cons.prems Cons.IH [of "rs_turn (1 # t) ecc b"] rs_turn_at [of t ecc r b] assms
    by (simp add: poly_at_Cons gfMul_xor gfMul_xor_left gf_ac ac_simps)
qed simp

lemma poly_at_zeros [simp]: "poly_at r (replicate n 0) = 0"
  by (induction n) (simp_all add: poly_at_Cons)

lemma rsEncode_length: "0 < degree \<Longrightarrow> degree \<le> 255 \<Longrightarrow> length (rsEncode data degree) = degree"
  by (rule rsGenerator_roots [of degree]) (auto simp: rsEncode_def rs_fold_at [of _ degree "EXP ! 0" "replicate degree 0" data])

text \<open>
  The check bytes make a codeword. The message followed by its check bytes is, as a polynomial,
  zero at the first \<open>degree\<close> powers of the generator, which are the syndromes a decoder computes.
\<close>

theorem check_bytes_have_roots:
  assumes "i < degree" "degree \<le> 255"
  shows "length (rsEncode data degree) = degree \<and> poly_at (EXP ! i) (data @ rsEncode data degree) = 0"
proof -
  obtain t where t: "rsGenerator degree = 1 # t" "length t = degree" "poly_at (EXP ! i) (1 # t) = 0"
    using rsGenerator_roots [OF assms(2)] assms(1) by metis
  have "length (rsEncode data degree) = degree \<and> poly_at (EXP ! i) (rsEncode data degree) = gfMul (poly_at (EXP ! i) data) (gf_power (EXP ! i) degree)"
    using rs_fold_at [OF t(2) _ t(3), of "replicate degree 0" data] assms(1) by (simp add: rsEncode_def t(1))
  then show ?thesis by (simp add: poly_at_append)
qed

end
