(* ===== verification/Qr_Symbol.thy ===== *)
theory Qr_Symbol
  imports Qr_Field Presence_Codec
begin

text \<open>
  The QR code of a pairing link (\<open>client/src/lib/qr.ts\<close>): the bits of the text, the modules of the
  symbol, and where the bits go. Coordinates are integers as in the code; a bit is a boolean. The
  second half reads the modules back, in the order of the standard's bytes and with the mask undone,
  and looks at the modules where a reader expects the format information.
\<close>

section \<open>The data\<close>

text \<open>Version, modules, data bytes, check bytes.\<close>

definition VERSIONS :: "(nat \<times> int \<times> nat \<times> nat) list" where
  "VERSIONS = [(1, 21, 16, 10), (2, 25, 28, 16), (3, 29, 44, 26), (4, 33, 64, 36), (5, 37, 86, 48), (6, 41, 108, 64)]"

datatype qr_error = Text_Too_Long

definition chooseVersion :: "nat \<Rightarrow> qr_error + (nat \<times> int \<times> nat \<times> nat)" where
  "chooseVersion payload =
     (case List.find (\<lambda>(_, _, data, _). payload + 2 \<le> data) VERSIONS of Some v \<Rightarrow> Inr v | None \<Rightarrow> Inl Text_Too_Long)"

definition pushBits :: "nat \<Rightarrow> nat \<Rightarrow> bool list" where
  "pushBits value width = map (\<lambda>i. bit value i) (rev [0..<width])"

definition byte_of_bits :: "bool list \<Rightarrow> byte" where
  "byte_of_bits bs = of_nat (foldl (\<lambda>v b. 2 * v + (if b then 1 else 0)) 0 bs)"

text \<open>A bit beyond the end counts as zero; the bytes after the bits alternate between two values.\<close>

definition bit_at :: "bool list \<Rightarrow> nat \<Rightarrow> bool" where
  "bit_at bits i = (if i < length bits then bits ! i else False)"

definition encodeData :: "js_text \<Rightarrow> nat \<Rightarrow> bytes" where
  "encodeData text dataBytes =
     (let bytes = encode_text text;
          bits = pushBits 4 4 @ pushBits (length bytes) 8 @ concat (map (\<lambda>b. pushBits (unat b) 8) bytes);
          bits = bits @ replicate (min 4 (dataBytes * 8 - length bits)) False;
          bits = bits @ replicate ((8 - length bits mod 8) mod 8) False;
          used = (length bits + 7) div 8
      in map (\<lambda>i. if i < used then byte_of_bits (map (\<lambda>b. bit_at bits (i * 8 + b)) [0..<8])
                   else if (i - used) mod 2 = 0 then 0xec else 0x11) [0..<dataBytes])"

section \<open>The grid\<close>

type_synonym grid = "bool list list"

definition module :: "grid \<Rightarrow> int \<Rightarrow> int \<Rightarrow> bool" where
  "module g x y = g ! nat y ! nat x"

definition set_module :: "int \<Rightarrow> int \<Rightarrow> bool \<Rightarrow> grid \<Rightarrow> grid" where
  "set_module x y on g = g[nat y := (g ! nat y)[nat x := on]]"

definition grid_size :: "grid \<Rightarrow> int" where
  "grid_size g = int (length g)"

definition setFinder :: "int \<Rightarrow> int \<Rightarrow> grid \<Rightarrow> grid" where
  "setFinder x y g =
     foldl (\<lambda>g (dx, dy).
         let xx = x + dx; yy = y + dy
         in if yy < 0 \<or> xx < 0 \<or> yy \<ge> grid_size g \<or> xx \<ge> grid_size g then g
            else
              let on = (if dx = - 1 \<or> dx = 7 \<or> dy = - 1 \<or> dy = 7 then False
                        else dx = 0 \<or> dx = 6 \<or> dy = 0 \<or> dy = 6 \<or> (2 \<le> dx \<and> dx \<le> 4 \<and> 2 \<le> dy \<and> dy \<le> 4))
              in if 0 \<le> dx \<and> dx \<le> 6 \<and> 0 \<le> dy \<and> dy \<le> 6 then set_module xx yy on g else g)
       g (concat (map (\<lambda>dy. map (\<lambda>dx. (dx, dy)) [- 1..7]) [- 1..7]))"

definition ALIGNMENT :: "int list" where
  "ALIGNMENT = [0, 0, 18, 22, 26, 30, 34]"

definition alignmentCenter :: "int \<Rightarrow> int" where
  "alignmentCenter sz =
     (let version = nat ((sz - 17) div 4) in if version < length ALIGNMENT then ALIGNMENT ! version else 0)"

definition inAlignment :: "int \<Rightarrow> int \<Rightarrow> int \<Rightarrow> bool" where
  "inAlignment sz x y =
     (let center = alignmentCenter sz in \<not> center < 8 \<and> \<bar>x - center\<bar> \<le> 2 \<and> \<bar>y - center\<bar> \<le> 2)"

definition reserved :: "int \<Rightarrow> int \<Rightarrow> int \<Rightarrow> bool" where
  "reserved sz x y \<longleftrightarrow>
     x < 9 \<and> y < 9 \<or> x \<ge> sz - 8 \<and> y < 9 \<or> x < 9 \<and> y \<ge> sz - 8 \<or> y = 6 \<or> x = 6 \<or> inAlignment sz x y"

definition setAlignment :: "grid \<Rightarrow> grid" where
  "setAlignment g =
     (let center = alignmentCenter (grid_size g)
      in if center < 8 then g
         else foldl (\<lambda>g (dx, dy). set_module (center + dx) (center + dy) (max \<bar>dx\<bar> \<bar>dy\<bar> \<noteq> 1 \<or> dx = 0 \<and> dy = 0) g)
                g (concat (map (\<lambda>dy. map (\<lambda>dx. (dx, dy)) [- 2..2]) [- 2..2])))"

definition setTiming :: "grid \<Rightarrow> grid" where
  "setTiming g =
     foldl (\<lambda>g i. set_module 6 i (even i) (set_module i 6 (even i) g)) g [8..grid_size g - 9]"

definition formatBits :: "nat \<Rightarrow> nat" where
  "formatBits mk =
     (let bits = foldl (\<lambda>bits i. if bit bits i then bits XOR push_bit (i - 10) 0b10100110111 else bits) (push_bit 10 mk) (rev [10..<15])
      in push_bit 10 mk OR (bits XOR 0b101010000010010))"

definition format_turn :: "nat \<Rightarrow> grid \<Rightarrow> int \<Rightarrow> grid" where
  "format_turn bits g i =
     (let sz = grid_size g;
          on = bit bits (nat (14 - i));
          g = (if i < 6 then set_module 8 i on g
               else if i = 6 then set_module 8 7 on g
               else if i = 7 then set_module 8 8 on g
               else set_module (14 - i) 8 on g)
      in if i < 8 then set_module (sz - 1 - i) 8 on g else set_module 8 (sz - 15 + i) on g)"

definition applyFormat :: "nat \<Rightarrow> grid \<Rightarrow> grid" where
  "applyFormat mk g =
     set_module 8 (grid_size g - 8) True (foldl (format_turn (formatBits mk)) g [0..14])"

definition maskBit :: "nat \<Rightarrow> int \<Rightarrow> int \<Rightarrow> bool" where
  "maskBit mk x y =
     (if mk = 1 then even y
      else if mk = 2 then x mod 3 = 0
      else if mk = 3 then (x + y) mod 3 = 0
      else if mk = 4 then even (y div 2 + x div 3)
      else if mk = 5 then (x * y) mod 2 + (x * y) mod 3 = 0
      else even (x + y))"

text \<open>The columns of \<open>placeData\<close>, in pairs from the right, without the column of the timing pattern.\<close>

function place_columns :: "int \<Rightarrow> int list" where
  "place_columns x = (if x \<le> 0 then [] else let x = (if x = 6 then 5 else x) in x # place_columns (x - 2))"
  by pat_completeness auto
termination by (relation "measure nat") auto

declare place_columns.simps [simp del]

definition column_cells :: "int \<Rightarrow> bool \<Rightarrow> int \<Rightarrow> (int \<times> int) list" where
  "column_cells sz upward x =
     concat (map (\<lambda>i. let y = (if upward then sz - 1 - i else i) in [(x, y), (x - 1, y)]) [0..sz - 1])"

fun zigzag :: "int \<Rightarrow> bool \<Rightarrow> int list \<Rightarrow> (int \<times> int) list" where
  "zigzag sz upward [] = []"
| "zigzag sz upward (x # xs) = column_cells sz upward x @ zigzag sz (\<not> upward) xs"

definition place_turn :: "bool list \<Rightarrow> grid \<times> nat \<Rightarrow> int \<times> int \<Rightarrow> grid \<times> nat" where
  "place_turn bits = (\<lambda>(g, index) (x, y).
     if reserved (grid_size g) x y \<or> module g x y then (g, index)
     else (set_module x y (bit_at bits index) g, index + 1))"

definition placeData :: "bool list \<Rightarrow> grid \<Rightarrow> grid" where
  "placeData bits g =
     fst (foldl (place_turn bits) (g, 0) (zigzag (grid_size g) True (place_columns (grid_size g - 1))))"

definition mask_turn :: "nat \<Rightarrow> grid \<Rightarrow> int \<times> int \<Rightarrow> grid" where
  "mask_turn mk g = (\<lambda>(x, y).
     if reserved (grid_size g) x y then g
     else if maskBit mk x y then set_module x y (\<not> module g x y) g else g)"

definition all_cells :: "int \<Rightarrow> (int \<times> int) list" where
  "all_cells sz = concat (map (\<lambda>y. map (\<lambda>x. (x, y)) [0..sz - 1]) [0..sz - 1])"

definition applyMask :: "nat \<Rightarrow> grid \<Rightarrow> grid" where
  "applyMask mk g = foldl (mask_turn mk) g (all_cells (grid_size g))"

definition blank_grid :: "int \<Rightarrow> grid" where
  "blank_grid sz = replicate (nat sz) (replicate (nat sz) False)"

text \<open>The patterns, before any data.\<close>

definition function_patterns :: "int \<Rightarrow> grid" where
  "function_patterns sz =
     setTiming (setAlignment (setFinder 0 (sz - 7) (setFinder (sz - 7) 0 (setFinder 0 0 (blank_grid sz)))))"

definition encodeQr :: "js_text \<Rightarrow> qr_error + grid" where
  "encodeQr text =
     (case chooseVersion (length (encode_text text)) of
        Inl e \<Rightarrow> Inl e
      | Inr (_, sz, dataBytes, eccBytes) \<Rightarrow>
          let data = encodeData text dataBytes;
              stream = data @ rsEncode data eccBytes;
              bits = concat (map (\<lambda>b. pushBits (unat b) 8) stream)
          in Inr (applyFormat 0 (applyMask 0 (placeData bits (function_patterns sz)))))"

section \<open>Reading a symbol\<close>

text \<open>
  The modules that carry data, in the order in which a reader visits them, with the mask undone.
\<close>

definition data_cells :: "int \<Rightarrow> (int \<times> int) list" where
  "data_cells sz = filter (\<lambda>(x, y). \<not> reserved sz x y) (zigzag sz True (place_columns (sz - 1)))"

definition read_bits :: "grid \<Rightarrow> bool list" where
  "read_bits g = map (\<lambda>(x, y). module g x y \<noteq> maskBit 0 x y) (data_cells (grid_size g))"

definition read_codewords :: "nat \<Rightarrow> bool list \<Rightarrow> bytes" where
  "read_codewords n bits = map (\<lambda>i. byte_of_bits (take 8 (drop (8 * i) bits))) [0..<n]"

text \<open>A byte segment: the mode, the count, and that many bytes.\<close>

definition read_payload :: "bytes \<Rightarrow> bytes option" where
  "read_payload data =
     (let bits = concat (map (\<lambda>b. pushBits (unat b) 8) data);
          count = unat (byte_of_bits (take 8 (drop 4 bits)))
      in if take 4 bits \<noteq> [False, True, False, False] \<or> length bits < 12 + 8 * count then None
         else Some (read_codewords count (drop 12 bits)))"

section \<open>The bits of the text\<close>

lemma horner_from: "foldl (\<lambda>v b. 2 * v + (if b then 1 else 0)) a bs = a * 2 ^ length bs + foldl (\<lambda>v b. 2 * v + (if b then 1 else 0 :: nat)) 0 bs"
proof (induction bs arbitrary: a)
  case (Cons b bs)
  show ?case using Cons [of "2 * a + (if b then 1 else 0)"] Cons [of "if b then 1 else 0"] by (simp add: algebra_simps)
qed simp

lemma horner_bits: "foldl (\<lambda>v b. 2 * v + (if b then 1 else 0)) 0 (pushBits v w) = take_bit w (v :: nat)"
proof (induction w)
  case (Suc w)
  have "pushBits v (Suc w) = bit v w # pushBits v w" by (simp add: pushBits_def)
  then show ?case
    using Suc horner_from [of "if bit v w then 1 else 0" "pushBits v w"] by (simp add: pushBits_def take_bit_Suc_from_most)
qed (simp add: pushBits_def)

lemma length_pushBits [simp]: "length (pushBits v w) = w"
  by (simp add: pushBits_def)

lemma byte_of_pushBits [simp]: "byte_of_bits (pushBits (unat b) 8) = b"
  by (simp add: byte_of_bits_def horner_bits take_bit_nat_eq_self unat_byte_lt [unfolded numeral_eq_Suc] less_le_trans [OF unat_byte_lt])

lemma horner_inject:
  "length bs = length cs \<Longrightarrow> foldl (\<lambda>v b. 2 * v + (if b then 1 else 0)) 0 bs = foldl (\<lambda>v b. 2 * v + (if b then 1 else 0 :: nat)) 0 cs \<Longrightarrow> bs = cs"
proof (induction bs cs rule: rev_induct2)
  case (4 x xs y ys)
  then show ?case by (auto split: if_splits)
qed simp_all

lemma horner_less: "foldl (\<lambda>v b. 2 * v + (if b then 1 else 0)) 0 bs < (2 :: nat) ^ length bs"
  by (induction bs rule: rev_induct) auto

lemma pushBits_byte:
  assumes "length bs = 8" shows "pushBits (unat (byte_of_bits bs)) 8 = bs"
proof (rule horner_inject)
  have "foldl (\<lambda>v b. 2 * v + (if b then 1 else 0)) 0 bs < (256 :: nat)" using horner_less [of bs] assms by simp
  then show "foldl (\<lambda>v b. 2 * v + (if b then 1 else 0)) 0 (pushBits (unat (byte_of_bits bs)) 8) = foldl (\<lambda>v b. 2 * v + (if b then 1 else 0 :: nat)) 0 bs"
    unfolding horner_bits by (simp add: byte_of_bits_def unat_byte_of_nat take_bit_nat_eq_self)
qed (simp add: assms)

text \<open>Blocks of eight.\<close>

lemma take_block:
  "i < length xs \<Longrightarrow> (\<And>x. length (f x) = 8) \<Longrightarrow> take 8 (drop (8 * i) (concat (map f xs) @ r)) = f (xs ! i)"
proof (induction xs arbitrary: i)
  case (Cons x xs)
  then show ?case by (cases i) simp_all
qed simp

lemma blocks_of: "length B = 8 * m \<Longrightarrow> concat (map (\<lambda>i. take 8 (drop (8 * i) B)) [0..<m]) = B"
proof (induction m arbitrary: B)
  case (Suc m)
  have "concat (map (\<lambda>i. take 8 (drop (8 * i) (drop 8 B))) [0..<m]) = drop 8 B" using Suc.IH [of "drop 8 B"] Suc.prems by simp
  moreover have "[0..<Suc m] = 0 # map Suc [0..<m]" by (simp add: upt_conv_Cons map_Suc_upt del: upt_Suc)
  ultimately show ?case by (simp add: comp_def add.commute)
qed simp

lemma bits_block: "i * 8 + 8 \<le> length B \<Longrightarrow> map (\<lambda>b. bit_at B (i * 8 + b)) [0..<8] = take 8 (drop (8 * i) B)"
  by (rule nth_equalityI) (simp_all add: bit_at_def mult.commute)

text \<open>What \<open>encodeData\<close> makes: the segment, and then the two values in turn.\<close>

definition segment_bits :: "bytes \<Rightarrow> bool list" where
  "segment_bits bs = pushBits 4 4 @ pushBits (length bs) 8 @ concat (map (\<lambda>b. pushBits (unat b) 8) bs) @ replicate 4 False"

lemma length_byte_bits [simp]: "length (concat (map (\<lambda>b. pushBits (unat b) 8) bs)) = 8 * length bs"
  by (induction bs) simp_all

lemma encodeData_segment:
  assumes "length (encode_text text) + 2 \<le> d"
  shows "length (encodeData text d) = d"
    and "\<exists>r. concat (map (\<lambda>b. pushBits (unat b) 8) (encodeData text d)) = segment_bits (encode_text text) @ r"
proof -
  let ?n = "length (encode_text text)" and ?B = "segment_bits (encode_text text)"
  define m where "m = ?n + 2"
  let ?p = "\<lambda>i. if (i - m) mod 2 = 0 then 0xec else 0x11 :: byte"
  let ?block = "\<lambda>i. take 8 (drop (8 * i) ?B)"
  have len: "length ?B = 8 * m" by (simp add: segment_bits_def m_def)
  have "min 4 (d * 8 - (12 + 8 * ?n)) = 4" using assms by simp
  moreover have "(8 - (16 + 8 * ?n) mod 8) mod 8 = 0"
  proof -
    have "16 + 8 * ?n = 8 * m" by (simp add: m_def)
    then show ?thesis by simp
  qed
  ultimately have e: "encodeData text d = map (\<lambda>i. if i < m then byte_of_bits (map (\<lambda>b. bit_at ?B (i * 8 + b)) [0..<8]) else ?p i) [0..<d]"
    by (simp add: encodeData_def Let_def segment_bits_def m_def)
  show "length (encodeData text d) = d" by (simp add: e)
  obtain k where k: "d = m + k" using assms by (auto simp: m_def le_iff_add)
  have "[0..<d] = [0..<m] @ [m..<d]" unfolding k using upt_add_eq_append [of 0 m k] by simp
  then have "encodeData text d = map (\<lambda>i. byte_of_bits (?block i)) [0..<m] @ map ?p [m..<d]"
    unfolding e using len by (simp add: bits_block del: upt_Suc upt.simps(2))
  moreover have "concat (map (\<lambda>i. pushBits (unat (byte_of_bits (?block i))) 8) [0..<m]) = ?B"
  proof -
    have "map (\<lambda>i. pushBits (unat (byte_of_bits (?block i))) 8) [0..<m] = map ?block [0..<m]"
      using len by (intro map_cong pushBits_byte) auto
    then show ?thesis by (simp only: blocks_of [OF len])
  qed
  ultimately show "\<exists>r. concat (map (\<lambda>b. pushBits (unat b) 8) (encodeData text d)) = ?B @ r"
    by (simp add: comp_def)
qed

lemma read_payload_segment:
  assumes "concat (map (\<lambda>b. pushBits (unat b) 8) data) = segment_bits bs @ r" "length bs < 256"
  shows "read_payload data = Some bs"
proof -
  have m: "pushBits 4 4 = [False, True, False, False]" by code_simp
  have c: "unat (byte_of_bits (pushBits (length bs) 8)) = length bs"
    using assms(2) by (simp add: byte_of_bits_def horner_bits take_bit_nat_eq_self unat_byte_of_nat)
  have "read_codewords (length bs) (concat (map (\<lambda>b. pushBits (unat b) 8) bs) @ r') = bs" for r'
    by (rule nth_equalityI) (simp_all add: read_codewords_def take_block del: take_append drop_append)
  then show ?thesis
    using c m by (simp add: read_payload_def assms(1) Let_def segment_bits_def)
qed

section \<open>The modules\<close>

definition inside :: "int \<Rightarrow> int \<Rightarrow> int \<Rightarrow> bool" where
  "inside sz x y \<longleftrightarrow> 0 \<le> x \<and> x < sz \<and> 0 \<le> y \<and> y < sz"

definition square :: "int \<Rightarrow> grid \<Rightarrow> bool" where
  "square sz g \<longleftrightarrow> 0 \<le> sz \<and> length g = nat sz \<and> (\<forall>row\<in>set g. length row = nat sz)"

lemma square_size [simp]: "square sz g \<Longrightarrow> grid_size g = sz"
  by (simp add: square_def grid_size_def)

lemma square_set_module: "square sz g \<Longrightarrow> inside sz x y \<Longrightarrow> square sz (set_module x y b g)"
  by (auto simp: square_def set_module_def inside_def dest!: set_update_subset_insert [THEN subsetD] intro!: nth_mem)

lemma module_set:
  "square sz g \<Longrightarrow> inside sz x y \<Longrightarrow> inside sz x' y' \<Longrightarrow> module (set_module x y b g) x' y' = (if x' = x \<and> y' = y then b else module g x' y')"
proof -
  assume a: "square sz g" "inside sz x y" "inside sz x' y'"
  then have "nat y < length g" "nat x < length (g ! nat y)" "nat x = nat x' \<longleftrightarrow> x = x'" "nat y = nat y' \<longleftrightarrow> y = y'"
    by (auto simp: square_def inside_def)
  then show ?thesis by (auto simp: set_module_def module_def nth_list_update)
qed

text \<open>A step that draws only where the standard draws.\<close>

definition draws_reserved :: "int \<Rightarrow> grid \<Rightarrow> grid \<Rightarrow> bool" where
  "draws_reserved sz g g' \<longleftrightarrow>
     square sz g' \<and> (\<forall>x y. inside sz x y \<longrightarrow> \<not> reserved sz x y \<longrightarrow> module g' x y = module g x y)"

lemma draws_refl: "square sz g \<Longrightarrow> draws_reserved sz g g"
  by (simp add: draws_reserved_def)

lemma draws_trans: "draws_reserved sz g g' \<Longrightarrow> draws_reserved sz g' g'' \<Longrightarrow> draws_reserved sz g g''"
  by (simp add: draws_reserved_def)

lemma draws_set: "draws_reserved sz g g' \<Longrightarrow> inside sz x y \<Longrightarrow> reserved sz x y \<Longrightarrow> draws_reserved sz g (set_module x y b g')"
  unfolding draws_reserved_def by (auto simp: square_set_module module_set split: if_split_asm)

lemma draws_fold:
  "(\<And>g' c. draws_reserved sz g g' \<Longrightarrow> c \<in> set cs \<Longrightarrow> draws_reserved sz g (f g' c)) \<Longrightarrow> draws_reserved sz g g' \<Longrightarrow> draws_reserved sz g (foldl f g' cs)"
  by (induction cs arbitrary: g') auto

lemma drawsD: "draws_reserved sz g g' \<Longrightarrow> square sz g'" "draws_reserved sz g g' \<Longrightarrow> grid_size g' = sz"
  by (simp_all add: draws_reserved_def)

lemma setFinder_draws:
  assumes "draws_reserved sz g g'" "21 \<le> sz" "(x, y) \<in> {(0, 0), (sz - 7, 0), (0, sz - 7)}"
  shows "draws_reserved sz g (setFinder x y g')"
  unfolding setFinder_def
proof (rule draws_fold)
  fix g'' c assume g: "draws_reserved sz g g''" "c \<in> set (concat (map (\<lambda>dy. map (\<lambda>dx. (dx, dy)) [- 1..7]) [- 1..7]))"
  obtain dx dy where c: "c = (dx, dy)" by fastforce
  have "0 \<le> dx \<and> dx \<le> 6 \<and> 0 \<le> dy \<and> dy \<le> 6 \<Longrightarrow> reserved sz (x + dx) (y + dy)"
    using assms(2,3) by (auto simp: reserved_def)
  then show "draws_reserved sz g ((\<lambda>g (dx, dy). let xx = x + dx; yy = y + dy
         in if yy < 0 \<or> xx < 0 \<or> yy \<ge> grid_size g \<or> xx \<ge> grid_size g then g
            else let on = (if dx = - 1 \<or> dx = 7 \<or> dy = - 1 \<or> dy = 7 then False
                        else dx = 0 \<or> dx = 6 \<or> dy = 0 \<or> dy = 6 \<or> (2 \<le> dx \<and> dx \<le> 4 \<and> 2 \<le> dy \<and> dy \<le> 4))
              in if 0 \<le> dx \<and> dx \<le> 6 \<and> 0 \<le> dy \<and> dy \<le> 6 then set_module xx yy on g else g) g'' c)"
    using g drawsD(2) [OF g(1)] by (auto simp: c Let_def inside_def intro!: draws_set)
qed (use assms in simp)

lemma setAlignment_draws:
  assumes "draws_reserved sz g g'" "alignmentCenter sz + 2 < sz"
  shows "draws_reserved sz g (setAlignment g')"
proof (cases "alignmentCenter sz < 8")
  case False
  have "draws_reserved sz g (foldl (\<lambda>g (dx, dy). set_module (alignmentCenter sz + dx) (alignmentCenter sz + dy) (max \<bar>dx\<bar> \<bar>dy\<bar> \<noteq> 1 \<or> dx = 0 \<and> dy = 0) g)
      g' (concat (map (\<lambda>dy. map (\<lambda>dx. (dx, dy)) [- 2..2]) [- 2..2])))"
  proof (rule draws_fold)
    fix g'' c assume g: "draws_reserved sz g g''" "c \<in> set (concat (map (\<lambda>dy. map (\<lambda>dx. (dx, dy)) [- 2..2]) [- 2..2]))"
    then obtain dx dy where c: "c = (dx, dy)" "- 2 \<le> dx" "dx \<le> 2" "- 2 \<le> dy" "dy \<le> 2" by auto
    then have "reserved sz (alignmentCenter sz + dx) (alignmentCenter sz + dy)"
      using False by (auto simp: reserved_def inAlignment_def Let_def)
    moreover have "inside sz (alignmentCenter sz + dx) (alignmentCenter sz + dy)" using c False assms(2) by (simp add: inside_def)
    ultimately show "draws_reserved sz g ((\<lambda>g (dx, dy). set_module (alignmentCenter sz + dx) (alignmentCenter sz + dy) (max \<bar>dx\<bar> \<bar>dy\<bar> \<noteq> 1 \<or> dx = 0 \<and> dy = 0) g) g'' c)"
      using g(1) c(1) by (simp add: draws_set)
  qed (rule assms(1))
  then show ?thesis using False drawsD(2) [OF assms(1)] by (simp add: setAlignment_def Let_def)
qed (use assms drawsD(2) [OF assms(1)] in \<open>simp add: setAlignment_def Let_def\<close>)

lemma setTiming_draws:
  assumes "draws_reserved sz g g'" "21 \<le> sz"
  shows "draws_reserved sz g (setTiming g')"
  unfolding setTiming_def drawsD(2) [OF assms(1)]
  by (rule draws_fold) (use assms in \<open>auto intro!: draws_set simp: inside_def reserved_def\<close>)

lemma format_turn_draws:
  assumes "draws_reserved sz g g'" "21 \<le> sz" "0 \<le> i" "i \<le> 14"
  shows "draws_reserved sz g (format_turn bits g' i)"
proof -
  have first: "draws_reserved sz g (if i < 6 then set_module 8 i b g' else if i = 6 then set_module 8 7 b g'
      else if i = 7 then set_module 8 8 b g' else set_module (14 - i) 8 b g')" for b
    using assms by (auto intro!: draws_set simp: inside_def reserved_def)
  then show ?thesis
    using assms drawsD(2) [OF assms(1)] by (auto simp: format_turn_def Let_def inside_def reserved_def intro!: draws_set)
qed

lemma applyFormat_draws:
  assumes "draws_reserved sz g g'" "21 \<le> sz"
  shows "draws_reserved sz g (applyFormat mk g')"
proof -
  have "draws_reserved sz g (foldl (format_turn (formatBits mk)) g' [0..14])"
    by (rule draws_fold) (use assms in \<open>auto intro: format_turn_draws\<close>)
  then show ?thesis
    using assms drawsD(2) [OF assms(1)] by (auto simp: applyFormat_def inside_def reserved_def intro!: draws_set)
qed

section \<open>Where the bits go\<close>

abbreviation free_cells :: "int \<Rightarrow> (int \<times> int) list \<Rightarrow> (int \<times> int) list" where
  "free_cells sz cs \<equiv> filter (\<lambda>(x, y). \<not> reserved sz x y) cs"

lemma place_fold:
  "square sz g \<Longrightarrow> distinct cs \<Longrightarrow> (\<forall>(x, y)\<in>set cs. inside sz x y \<and> (\<not> reserved sz x y \<longrightarrow> \<not> module g x y)) \<Longrightarrow>
     (let (g', n') = foldl (place_turn bits) (g, n) cs
      in square sz g' \<and> (\<forall>x y. inside sz x y \<longrightarrow> (x, y) \<notin> set (free_cells sz cs) \<longrightarrow> module g' x y = module g x y)
         \<and> map (\<lambda>(x, y). module g' x y) (free_cells sz cs) = map (bit_at bits) [n..<n + length (free_cells sz cs)])"
proof (induction cs arbitrary: g n)
  case (Cons c cs)
  obtain x y where c: "c = (x, y)" by fastforce
  show ?case
  proof (cases "reserved sz x y")
    case True
    then have "place_turn bits (g, n) c = (g, n)" using Cons.prems(1) c by (simp add: place_turn_def)
    then show ?thesis using Cons.IH [of g n] Cons.prems True c by simp
  next
    case False
    let ?g = "set_module x y (bit_at bits n) g"
    have xy: "inside sz x y" "\<not> module g x y" "(x, y) \<notin> set cs" using Cons.prems False c by auto
    have turn: "place_turn bits (g, n) c = (?g, n + 1)" using Cons.prems(1) False xy c by (simp add: place_turn_def)
    have sq: "square sz ?g" using Cons.prems(1) xy(1) by (rule square_set_module)
    have m: "module ?g x' y' = (if x' = x \<and> y' = y then bit_at bits n else module g x' y')" if "inside sz x' y'" for x' y'
      using module_set [OF Cons.prems(1) xy(1) that] .
    have "\<forall>(x, y)\<in>set cs. inside sz x y \<and> (\<not> reserved sz x y \<longrightarrow> \<not> module ?g x y)"
      using Cons.prems(3) xy(3) m by (fastforce split: if_splits)
    then have IH: "let (g', n') = foldl (place_turn bits) (?g, n + 1) cs
      in square sz g' \<and> (\<forall>x y. inside sz x y \<longrightarrow> (x, y) \<notin> set (free_cells sz cs) \<longrightarrow> module g' x y = module ?g x y)
         \<and> map (\<lambda>(x, y). module g' x y) (free_cells sz cs) = map (bit_at bits) [n + 1..<n + 1 + length (free_cells sz cs)]"
      using Cons.IH [of ?g "n + 1"] Cons.prems(2) sq by simp
    obtain g' n' where f: "foldl (place_turn bits) (?g, n + 1) cs = (g', n')" by fastforce
    have g': "square sz g'" "\<And>x y. inside sz x y \<Longrightarrow> (x, y) \<notin> set (free_cells sz cs) \<Longrightarrow> module g' x y = module ?g x y"
      "map (\<lambda>(x, y). module g' x y) (free_cells sz cs) = map (bit_at bits) [n + 1..<n + 1 + length (free_cells sz cs)]"
      using IH f by auto
    have "module g' x y = bit_at bits n" using g'(2) [OF xy(1)] xy(3) m [OF xy(1)] by auto
    moreover have "module g' x' y' = module g x' y'" if "inside sz x' y'" "(x', y') \<notin> set (free_cells sz (c # cs))" for x' y'
      using g'(2) [OF that(1)] m [OF that(1)] that(2) False c by auto
    moreover have "[n..<n + length (free_cells sz (c # cs))] = n # [n + 1..<n + 1 + length (free_cells sz cs)]"
      using False c by (simp add: upt_conv_Cons del: upt_Suc)
    ultimately show ?thesis using g' f turn False c by simp
  qed
qed simp

lemma mask_fold:
  "square sz g \<Longrightarrow> distinct cs \<Longrightarrow> (\<forall>(x, y)\<in>set cs. inside sz x y) \<Longrightarrow>
     square sz (foldl (mask_turn mk) g cs)
     \<and> (\<forall>x y. inside sz x y \<longrightarrow> module (foldl (mask_turn mk) g cs) x y
          = (module g x y \<noteq> ((x, y) \<in> set cs \<and> \<not> reserved sz x y \<and> maskBit mk x y)))"
proof (induction cs arbitrary: g)
  case (Cons c cs)
  obtain x y where c: "c = (x, y)" by fastforce
  let ?g = "mask_turn mk g c"
  have xy: "inside sz x y" "(x, y) \<notin> set cs" using Cons.prems c by auto
  have g: "?g = (if \<not> reserved sz x y \<and> maskBit mk x y then set_module x y (\<not> module g x y) g else g)"
    using Cons.prems(1) c by (simp add: mask_turn_def)
  have sq: "square sz ?g" using Cons.prems(1) xy(1) by (simp add: g square_set_module)
  have m: "module ?g x' y' = (module g x' y' \<noteq> (x' = x \<and> y' = y \<and> \<not> reserved sz x y \<and> maskBit mk x y))" if "inside sz x' y'" for x' y'
    using module_set [OF Cons.prems(1) xy(1) that] by (auto simp: g)
  have "distinct cs" "\<forall>(x, y)\<in>set cs. inside sz x y" using Cons.prems by auto
  from Cons.IH [OF sq this] show ?case using m xy(2) c by auto
qed simp

lemma all_cells_inside: "(x, y) \<in> set (all_cells sz) \<longleftrightarrow> inside sz x y"
  by (auto simp: all_cells_def inside_def image_iff)

lemma distinct_by_card: "length xs = n \<Longrightarrow> card (set xs) = n \<Longrightarrow> distinct xs"
  by (simp add: card_distinct)

lemma distinct_all_cells: "distinct (all_cells sz)"
proof (rule distinct_by_card)
  have "set (all_cells sz) = {0..sz - 1} \<times> {0..sz - 1}" by (auto simp: all_cells_def)
  then show "card (set (all_cells sz)) = nat sz * nat sz" by (simp add: card_cartesian_product)
  show "length (all_cells sz) = nat sz * nat sz" by (simp add: all_cells_def length_concat comp_def sum_list_triv)
qed

lemma column_cells_set: "set (column_cells sz up x) = {x, x - 1} \<times> {0..sz - 1}"
proof -
  have pairs: "set (concat (map (\<lambda>i. [(x, f i), (x - 1, f i)]) is)) = {x, x - 1} \<times> f ` set is" for f :: "int \<Rightarrow> int" and "is"
    by (induction "is") auto
  have "(\<lambda>i. if up then sz - 1 - i else i) ` set [0..sz - 1] = {0..sz - 1}"
    by (cases up) (simp_all add: image_diff_atLeastAtMost)
  then show ?thesis unfolding column_cells_def Let_def pairs by simp
qed

lemma distinct_column: "distinct (column_cells sz up x)"
proof (rule distinct_by_card)
  show "card (set (column_cells sz up x)) = 2 * nat sz"
    unfolding column_cells_set by (subst card_cartesian_product) simp
  show "length (column_cells sz up x) = 2 * nat sz" by (simp add: column_cells_def Let_def length_concat comp_def sum_list_triv)
qed

lemma zigzag_set: "set (zigzag sz up xs) = (\<Union>x\<in>set xs. {x, x - 1}) \<times> {0..sz - 1}"
  by (induction xs arbitrary: up) (auto simp: column_cells_set)

lemma distinct_zigzag: "sorted_wrt (\<lambda>a b. b < a - 1) xs \<Longrightarrow> distinct (zigzag sz up xs)"
  by (induction xs arbitrary: up) (auto simp: distinct_column column_cells_set zigzag_set)

section \<open>The symbol as a whole\<close>

definition version_fits :: "nat \<times> int \<times> nat \<times> nat \<Rightarrow> bool" where
  "version_fits = (\<lambda>(v, sz, d, e).
     21 \<le> sz \<and> alignmentCenter sz + 2 < sz \<and> sorted_wrt (\<lambda>a b. b < a - 1) (place_columns (sz - 1))
     \<and> list_all (\<lambda>x. 0 < x \<and> x < sz) (place_columns (sz - 1)) \<and> 8 * (d + e) \<le> length (data_cells sz) \<and> d \<le> 108 \<and> 0 < e \<and> e \<le> 64)"

fun column_counts :: "int \<Rightarrow> bool \<Rightarrow> int list \<Rightarrow> nat list" where
  "column_counts sz up [] = []"
| "column_counts sz up (x # xs) = length (free_cells sz (column_cells sz up x)) # column_counts sz (\<not> up) xs"

lemma count_zigzag: "length (free_cells sz (zigzag sz up xs)) = sum_list (column_counts sz up xs)"
  by (induction xs arbitrary: up) simp_all

lemma columns:
  "place_columns 20 = [20, 18, 16, 14, 12, 10, 8, 5, 3, 1]" "place_columns 24 = [24, 22, 20, 18, 16, 14, 12, 10, 8, 5, 3, 1]" "place_columns 28 = [28, 26, 24, 22, 20, 18, 16, 14, 12, 10, 8, 5, 3, 1]" "place_columns 32 = [32, 30, 28, 26, 24, 22, 20, 18, 16, 14, 12, 10, 8, 5, 3, 1]" "place_columns 36 = [36, 34, 32, 30, 28, 26, 24, 22, 20, 18, 16, 14, 12, 10, 8, 5, 3, 1]" "place_columns 40 = [40, 38, 36, 34, 32, 30, 28, 26, 24, 22, 20, 18, 16, 14, 12, 10, 8, 5, 3, 1]"
  by (simp_all add: place_columns.simps)

lemma counts_21: "column_counts 21 True [20, 18, 16, 14, 12, 10, 8, 5, 3, 1] = [24, 24, 24, 24, 40, 40, 8, 8, 8, 8]"
  by code_simp

lemma counts_25: "column_counts 25 True [24, 22, 20, 18, 16, 14, 12, 10, 8, 5, 3, 1] = [32, 32, 22, 22, 43, 48, 48, 48, 16, 16, 16, 16]"
  by code_simp

lemma counts_29: "column_counts 29 True [28, 26, 24, 22, 20, 18, 16, 14, 12, 10, 8, 5, 3, 1] = [40, 40, 30, 30, 51, 56, 56, 56, 56, 56, 24, 24, 24, 24]"
  by code_simp

lemma counts_33: "column_counts 33 True [32, 30, 28, 26, 24, 22, 20, 18, 16, 14, 12, 10, 8, 5, 3, 1] = [48, 48, 38, 38, 59, 64, 64, 64, 64, 64, 64, 64, 32, 32, 32, 32]"
  by code_simp

lemma counts_37: "column_counts 37 True [36, 34, 32, 30, 28, 26, 24, 22, 20, 18, 16, 14, 12, 10, 8, 5, 3, 1] = [56, 56, 46, 46, 67, 72, 72, 72, 72, 72, 72, 72, 72, 72, 40, 40, 40, 40]"
  by code_simp

lemma counts_41: "column_counts 41 True [40, 38, 36, 34, 32, 30, 28, 26, 24, 22, 20, 18, 16, 14, 12, 10, 8, 5, 3, 1] = [64, 64, 54, 54, 75, 80, 80, 80, 80, 80, 80, 80, 80, 80, 80, 80, 48, 48, 48, 48]"
  by code_simp

lemma capacity: "length (data_cells 21) = 208" "length (data_cells 25) = 359" "length (data_cells 29) = 567" "length (data_cells 33) = 807" "length (data_cells 37) = 1079" "length (data_cells 41) = 1383"
  by (simp_all add: data_cells_def count_zigzag columns counts_21 counts_25 counts_29 counts_33 counts_37 counts_41 del: column_counts.simps zigzag.simps)

lemma versions_fit: "list_all version_fits VERSIONS"
proof -
  have "alignmentCenter 21 = 0" "alignmentCenter 25 = 18" "alignmentCenter 29 = 22" "alignmentCenter 33 = 26" "alignmentCenter 37 = 30"
      "alignmentCenter 41 = 34"
    by code_simp+
  then show ?thesis by (simp add: VERSIONS_def version_fits_def capacity columns)
qed

lemma blank_square: "0 \<le> sz \<Longrightarrow> square sz (blank_grid sz)"
  by (auto simp: square_def blank_grid_def)

lemma blank_module: "inside sz x y \<Longrightarrow> \<not> module (blank_grid sz) x y"
  by (auto simp: module_def blank_grid_def inside_def)

lemma function_patterns_draws:
  assumes "21 \<le> sz" "alignmentCenter sz + 2 < sz"
  shows "draws_reserved sz (blank_grid sz) (function_patterns sz)"
  unfolding function_patterns_def
  using assms by (intro setTiming_draws setAlignment_draws setFinder_draws draws_refl blank_square) auto

lemma symbol_bits:
  fixes bits
  assumes "version_fits (v, sz, d, e)"
  defines "g \<equiv> applyFormat 0 (applyMask 0 (placeData bits (function_patterns sz)))"
  shows symbol_square: "square sz (applyMask 0 (placeData bits (function_patterns sz)))"
    and "grid_size g = sz" "read_bits g = map (bit_at bits) [0..<length (data_cells sz)]"
proof -
  let ?P = "function_patterns sz" and ?Z = "zigzag sz True (place_columns (sz - 1))"
  let ?Q = "placeData bits ?P"
  have sz: "21 \<le> sz" "alignmentCenter sz + 2 < sz" using assms by (simp_all add: version_fits_def)
  have P: "draws_reserved sz (blank_grid sz) ?P" using sz by (rule function_patterns_draws)
  have sqP: "square sz ?P" by (rule drawsD [OF P])
  have dz: "distinct ?Z" using assms by (intro distinct_zigzag) (simp add: version_fits_def)
  have inz: "inside sz x y" if "(x, y) \<in> set ?Z" for x y
    using that assms by (force simp: zigzag_set version_fits_def list_all_iff inside_def)
  have free: "\<forall>(x, y)\<in>set ?Z. inside sz x y \<and> (\<not> reserved sz x y \<longrightarrow> \<not> module ?P x y)"
    using inz P blank_module by (auto simp: draws_reserved_def)
  have Q: "square sz ?Q" "map (\<lambda>(x, y). module ?Q x y) (data_cells sz) = map (bit_at bits) [0..<length (data_cells sz)]"
    using place_fold [OF sqP dz free, of bits 0] square_size [OF sqP]
    by (auto simp: placeData_def data_cells_def Let_def split: prod.splits)
  let ?R = "applyMask 0 ?Q"
  have cells: "\<forall>(x, y)\<in>set (all_cells sz). inside sz x y" using all_cells_inside by auto
  have R: "square sz ?R" "\<And>x y. inside sz x y \<Longrightarrow> module ?R x y = (module ?Q x y \<noteq> (\<not> reserved sz x y \<and> maskBit 0 x y))"
    using mask_fold [OF Q(1) distinct_all_cells [of sz] cells, of 0] square_size [OF Q(1)]
    by (auto simp: applyMask_def all_cells_inside)
  show "square sz ?R" by (rule R(1))
  have F: "draws_reserved sz ?R g" unfolding g_def using sz(1) R(1) by (intro applyFormat_draws draws_refl)
  show size: "grid_size g = sz" by (rule drawsD [OF F])
  have "(module g x y \<noteq> maskBit 0 x y) = module ?Q x y" if "(x, y) \<in> set (data_cells sz)" for x y
    using that F R(2) [of x y] inz [of x y] by (auto simp: data_cells_def draws_reserved_def)
  then have "read_bits g = map (\<lambda>(x, y). module ?Q x y) (data_cells sz)"
    unfolding read_bits_def size by (intro map_cong) auto
  then show "read_bits g = map (bit_at bits) [0..<length (data_cells sz)]" using Q(2) by simp
qed

lemma read_codewords_bits:
  assumes "bits = concat (map (\<lambda>b. pushBits (unat b) 8) bs)" "8 * length bs \<le> n"
  shows "read_codewords (length bs) (map (bit_at bits) [0..<n]) = bs"
proof -
  have len: "length bits = 8 * length bs" using assms(1) by simp
  have n: "[0..<n] = [0..<length bits] @ [length bits..<n]" using assms(2) len by (metis le_add_diff_inverse upt_add_eq_append zero_le)
  have "map (bit_at bits) [0..<length bits] = bits" by (rule nth_equalityI) (simp_all add: bit_at_def)
  then obtain r where b: "map (bit_at bits) [0..<n] = concat (map (\<lambda>b. pushBits (unat b) 8) bs) @ r"
    unfolding n map_append assms(1) by blast
  show ?thesis unfolding b
    by (rule nth_equalityI) (simp_all add: read_codewords_def take_block del: take_append drop_append)
qed

lemma choose_cases:
  "(\<exists>v. chooseVersion n = Inr v \<and> v \<in> set VERSIONS \<and> n + 2 \<le> fst (snd (snd v)) \<and> n \<le> 106) \<or> chooseVersion n = Inl Text_Too_Long \<and> 106 < n"
  by (auto simp: chooseVersion_def VERSIONS_def)


section \<open>The format information\<close>

text \<open>
  Where the standard has the second copy of the fifteen format bits, the least significant first: the
  last eight modules of row 8 from the right, then the last seven of column 8 downwards.
\<close>

definition format_cell :: "int \<Rightarrow> int \<Rightarrow> int \<times> int" where
  "format_cell sz i = (if i < 8 then (sz - 1 - i, 8) else (8, sz - 15 + i))"

definition read_format :: "grid \<Rightarrow> bool list" where
  "read_format g = map (\<lambda>i. case format_cell (grid_size g) i of (x, y) \<Rightarrow> module g x y) [0..14]"

lemma format_turn_cell:
  assumes g: "square sz g" and sz: "21 \<le> sz" and i: "0 \<le> i" "i \<le> 14" and j: "0 \<le> j" "j \<le> 14"
  shows "(case format_cell sz j of (x, y) \<Rightarrow> module (format_turn bits g i) x y)
    = (if j = i then bit bits (nat (14 - i)) else (case format_cell sz j of (x, y) \<Rightarrow> module g x y))"
    and "square sz (format_turn bits g i)"
proof -
  obtain x y where c: "format_cell sz j = (x, y)" by fastforce
  have xy: "inside sz x y" "x \<ge> 13 \<or> y \<ge> 13" using c j sz by (auto simp: format_cell_def inside_def split: if_splits)
  have jx: "format_cell sz i = (x, y) \<longleftrightarrow> j = i" using c i j sz by (auto simp: format_cell_def split: if_splits)
  define a b where ab': "a = (if i < 8 then 8 else 14 - i)" "b = (if i < 6 then i else if i = 6 then 7 else 8)"
  have first: "format_turn bits g i = set_module (fst (format_cell sz i)) (snd (format_cell sz i)) (bit bits (nat (14 - i)))
      (set_module a b (bit bits (nat (14 - i))) g)" "0 \<le> a" "a \<le> 8" "0 \<le> b" "b \<le> 8"
    using g i by (auto simp: format_turn_def Let_def format_cell_def ab')
  have ab: "inside sz a b" using first sz by (simp add: inside_def)
  have ic: "inside sz (fst (format_cell sz i)) (snd (format_cell sz i))" using i sz by (simp add: format_cell_def inside_def)
  have g': "square sz (set_module a b v g)" for v using g ab by (rule square_set_module)
  show "square sz (format_turn bits g i)" using g' ic by (simp add: first(1) square_set_module)
  show "(case format_cell sz j of (x, y) \<Rightarrow> module (format_turn bits g i) x y)
    = (if j = i then bit bits (nat (14 - i)) else (case format_cell sz j of (x, y) \<Rightarrow> module g x y))"
    using module_set [OF g' ic xy(1)] module_set [OF g ab xy(1)] jx xy(2) first(2-5) c by (auto simp: first(1))
qed

lemma format_fold_cell:
  "square sz g \<Longrightarrow> 21 \<le> sz \<Longrightarrow> (\<forall>i\<in>set is. 0 \<le> i \<and> i \<le> 14) \<Longrightarrow> 0 \<le> j \<Longrightarrow> j \<le> 14 \<Longrightarrow>
     square sz (foldl (format_turn bits) g is)
     \<and> (case format_cell sz j of (x, y) \<Rightarrow> module (foldl (format_turn bits) g is) x y)
       = (if j \<in> set is then bit bits (nat (14 - j)) else (case format_cell sz j of (x, y) \<Rightarrow> module g x y))"
proof (induction "is" arbitrary: g)
  case (Cons i "is")
  have "square sz (format_turn bits g i)" using Cons.prems by (intro format_turn_cell) auto
  moreover have "(case format_cell sz j of (x, y) \<Rightarrow> module (format_turn bits g i) x y)
    = (if j = i then bit bits (nat (14 - i)) else (case format_cell sz j of (x, y) \<Rightarrow> module g x y))"
    using Cons.prems by (intro format_turn_cell) auto
  ultimately show ?case using Cons.IH [of "format_turn bits g i"] Cons.prems by auto
qed simp

lemma applyFormat_cell:
  assumes "square sz g" "21 \<le> sz" "0 \<le> j" "j \<le> 14"
  shows "(case format_cell sz j of (x, y) \<Rightarrow> module (applyFormat mk g) x y) = bit (formatBits mk) (nat (14 - j))"
    and "grid_size (applyFormat mk g) = sz"
proof -
  note f = format_fold_cell [OF assms(1,2) _ assms(3,4), of "[0..14]" "formatBits mk"]
  obtain x y where c: "format_cell sz j = (x, y)" by fastforce
  have xy: "inside sz x y" "\<not> (x = 8 \<and> y = sz - 8)" using c assms by (auto simp: format_cell_def inside_def split: if_splits)
  have i8: "inside sz 8 (sz - 8)" using assms(2) by (simp add: inside_def)
  have sq: "square sz (foldl (format_turn (formatBits mk)) g [0..14])" using f by simp
  show "grid_size (applyFormat mk g) = sz" using sq i8 assms(1) by (simp add: applyFormat_def square_set_module)
  show "(case format_cell sz j of (x, y) \<Rightarrow> module (applyFormat mk g) x y) = bit (formatBits mk) (nat (14 - j))"
    using f assms module_set [OF sq i8 xy(1)] xy(2) c by (simp add: applyFormat_def)
qed

lemma format_bits_0: "formatBits 0 = 0b101010000010010"
  by (simp add: formatBits_def upt_rec)

text \<open>
  The bits are drawn the wrong way round: a reader finds the reverse of the fifteen bits that stand
  for medium correction and the first mask, six of them wrong, where three can be corrected.
\<close>

lemma format_reversed:
  assumes "encodeQr text = Inr g"
  shows "read_format g = rev (map (bit (formatBits 0)) [0..<15])"
    and "length (filter id (map2 (\<noteq>) (read_format g) (map (bit (formatBits 0)) [0..<15]))) = 6"
proof -
  obtain v sz d e bits where v: "(v, sz, d, e) \<in> set VERSIONS" "g = applyFormat 0 (applyMask 0 (placeData bits (function_patterns sz)))"
    using assms choose_cases [of "length (encode_text text)"] by (fastforce simp: encodeQr_def Let_def split: sum.splits prod.splits)
  then have fits: "version_fits (v, sz, d, e)" using versions_fit by (auto simp: list_all_iff)
  then have sz: "21 \<le> sz" by (simp add: version_fits_def)
  have sq: "square sz (applyMask 0 (placeData bits (function_patterns sz)))" by (rule symbol_square [OF fits])
  have size: "grid_size g = sz" unfolding v(2) using applyFormat_cell(2) [OF sq sz, of 0] by simp
  have "read_format g = map (\<lambda>j. bit (formatBits 0) (nat (14 - j))) [0..14]"
    unfolding read_format_def size by (rule map_cong [OF refl]) (use applyFormat_cell(1) [OF sq sz] in \<open>simp add: v(2)\<close>)
  moreover have "map (\<lambda>j. bit (formatBits 0) (nat (14 - j))) [0..14] = rev (map (bit (formatBits 0)) [0..<15])"
    unfolding format_bits_0 by (simp add: upt_rec upto_rec1 [of 0 14] upto_rec1 [of 1 14] bit_Suc_0_iff)
  ultimately show r: "read_format g = rev (map (bit (formatBits 0)) [0..<15])" by simp
  show "length (filter id (map2 (\<noteq>) (read_format g) (map (bit (formatBits 0)) [0..<15]))) = 6"
    unfolding r format_bits_0 by (simp add: upt_rec bit_Suc_0_iff)
qed

end
