(* ===== verification/Source_Operations.thy ===== *)
theory Source_Operations
  imports Js_Text "HOL-Library.Sublist"
begin

text \<open>
  Operations on the Markdown source (\<open>client/src/intelligence/operations.ts\<close>): the line diff of two
  versions, and moving or extracting the section of a heading. The sections are those
  \<open>client/src/intelligence/analyze.ts\<close> assigns.
\<close>

section \<open>The line diff\<close>

datatype chunk_kind = Equal_Lines | Added_Lines | Removed_Lines

type_synonym chunk = "chunk_kind \<times> js_text list"

definition pushChunk :: "chunk list \<Rightarrow> chunk_kind \<times> js_text \<Rightarrow> chunk list" where
  "pushChunk chunks = (\<lambda>(kind, line).
     if chunks \<noteq> [] \<and> fst (last chunks) = kind then butlast chunks @ [(kind, snd (last chunks) @ [line])]
     else chunks @ [(kind, [line])])"

text \<open>The table of the longest common subsequences, from the last row and column on.\<close>

fun lcs_row :: "'a \<Rightarrow> 'a list \<Rightarrow> nat list \<Rightarrow> nat list" where
  "lcs_row x [] below = [0]"
| "lcs_row x (y # ys) below =
     (let row = lcs_row x ys (tl below)
      in (if x = y then hd (tl below) + 1 else max (hd below) (hd row)) # row)"

fun lcs_rows :: "'a list \<Rightarrow> 'a list \<Rightarrow> nat list list" where
  "lcs_rows [] right = [replicate (length right + 1) 0]"
| "lcs_rows (x # left) right = (let rows = lcs_rows left right in lcs_row x right (hd rows) # rows)"

function diff_walk :: "js_text list \<Rightarrow> js_text list \<Rightarrow> nat list list \<Rightarrow> nat \<Rightarrow> nat \<Rightarrow> (chunk_kind \<times> js_text) list" where
  "diff_walk left right rows i j =
     (if \<not> (i < length left \<or> j < length right) then []
      else if i < length left \<and> j < length right \<and> left ! i = right ! j then (Equal_Lines, left ! i) # diff_walk left right rows (i + 1) (j + 1)
      else if j < length right \<and> (length left \<le> i \<or> rows ! i ! (j + 1) > rows ! (i + 1) ! j) then (Added_Lines, right ! j) # diff_walk left right rows i (j + 1)
      else (Removed_Lines, left ! i) # diff_walk left right rows (i + 1) j)"
  by pat_completeness auto
termination by (relation "measure (\<lambda>(left, right, _, i, j). (length left - i) + (length right - j))") auto

declare diff_walk.simps [simp del]

definition common_suffix :: "nat \<Rightarrow> 'a list \<Rightarrow> 'a list \<Rightarrow> nat" where
  "common_suffix pre left right = common_prefix (rev (drop pre left)) (rev (drop pre right))"

definition lineDiff :: "js_text \<Rightarrow> js_text \<Rightarrow> chunk list" where
  "lineDiff before after =
     (let left = js_split js_newline before; right = js_split js_newline after
      in if length left * length right > 1500000 then
           let pre = common_prefix left right;
               suf = common_suffix pre left right
           in foldl pushChunk []
                (map (Pair Equal_Lines) (take pre left)
                 @ map (Pair Removed_Lines) (js_slice pre (length left - suf) left)
                 @ map (Pair Added_Lines) (js_slice pre (length right - suf) right)
                 @ map (Pair Equal_Lines) (drop (length left - suf) left))
         else foldl pushChunk [] (diff_walk left right (lcs_rows left right) 0 0))"

section \<open>Correctness of the diff\<close>

text \<open>The reference: the length of a longest common subsequence.\<close>

fun lcs :: "'a list \<Rightarrow> 'a list \<Rightarrow> nat" where
  "lcs [] ys = 0"
| "lcs xs [] = 0"
| "lcs (x # xs) (y # ys) = (if x = y then lcs xs ys + 1 else max (lcs xs (y # ys)) (lcs (x # xs) ys))"

lemma lcs_Nil2 [simp]: "lcs xs [] = 0"
  by (cases xs) simp_all

lemma lcs_upper: "subseq zs xs \<Longrightarrow> subseq zs ys \<Longrightarrow> length zs \<le> lcs xs ys"
proof (induction xs ys arbitrary: zs rule: lcs.induct)
  case (3 x xs y ys)
  show ?case
  proof (cases "x = y")
    case True
    show ?thesis
    proof (cases zs)
      case (Cons z zs')
      have "subseq zs' xs" "subseq zs' ys" using 3(4,5) Cons by (auto dest: subseq_Cons2' split: if_splits intro: subseq_Cons')
      then show ?thesis using 3(1) [of zs'] True Cons by simp
    qed simp
  next
    case False
    show ?thesis
    proof (cases "subseq zs xs")
      case True
      then show ?thesis using 3(2) [of zs] False 3(5) by simp
    next
      case False': False
      then obtain zs' where "zs = x # zs'" using 3(4) by (cases zs) (auto split: if_splits)
      then have "subseq zs ys" using 3(5) False by auto
      then show ?thesis using 3(3) [of zs] False 3(4) by simp
    qed
  qed
qed auto

lemma lcs_row_nth: "length below = length ys + 1 \<Longrightarrow> (\<forall>j\<le>length ys. below ! j = lcs xs (drop j ys)) \<Longrightarrow>
    length (lcs_row x ys below) = length ys + 1 \<and> (\<forall>j\<le>length ys. lcs_row x ys below ! j = lcs (x # xs) (drop j ys))"
proof (induction ys arbitrary: below)
  case (Cons y ys)
  obtain b bs where b: "below = b # bs" "length bs = length ys + 1" using Cons.prems(1) by (cases below) auto
  have bs: "\<forall>j\<le>length ys. bs ! j = lcs xs (drop j ys)"
  proof (intro allI impI)
    fix j assume "j \<le> length ys"
    then show "bs ! j = lcs xs (drop j ys)" using Cons.prems(2) [rule_format, of "Suc j"] b by simp
  qed
  note IH = Cons.IH [OF b(2) bs]
  have h: "b = lcs xs (y # ys)" "hd bs = lcs xs ys" "hd (lcs_row x ys bs) = lcs (x # xs) ys"
    using Cons.prems(2) [rule_format, of 0] b bs [rule_format, of 0] IH
    by (auto simp: hd_conv_nth length_greater_0_conv [symmetric] simp del: length_greater_0_conv)
  have "lcs_row x (y # ys) below ! j = lcs (x # xs) (drop j (y # ys))" if "j \<le> length (y # ys)" for j
    using IH h b that by (cases j) (simp_all add: Let_def)
  then show ?case using IH b by (simp add: Let_def)
qed (auto simp: nth_Cons')

lemma lcs_rows_nth:
  "length (lcs_rows xs ys) = length xs + 1
   \<and> (\<forall>i\<le>length xs. length (lcs_rows xs ys ! i) = length ys + 1 \<and> (\<forall>j\<le>length ys. lcs_rows xs ys ! i ! j = lcs (drop i xs) (drop j ys)))"
proof (induction xs)
  case (Cons x xs)
  have "hd (lcs_rows xs ys) = lcs_rows xs ys ! 0" using Cons by (intro hd_conv_nth) auto
  then have row: "length (lcs_row x ys (hd (lcs_rows xs ys))) = length ys + 1"
      "\<forall>j\<le>length ys. lcs_row x ys (hd (lcs_rows xs ys)) ! j = lcs (x # xs) (drop j ys)"
    using lcs_row_nth [of "hd (lcs_rows xs ys)" ys xs x] Cons by auto
  have "length (lcs_rows (x # xs) ys ! i) = length ys + 1 \<and> (\<forall>j\<le>length ys. lcs_rows (x # xs) ys ! i ! j = lcs (drop i (x # xs)) (drop j ys))"
    if "i \<le> length (x # xs)" for i
    using row Cons that by (cases i) (simp_all add: Let_def)
  then show ?case using Cons by (simp add: Let_def)
qed (simp del: replicate_Suc add: replicate_add nth_append nth_Cons')

text \<open>The lines of a kind, in order.\<close>

definition lines_of :: "chunk_kind set \<Rightarrow> (chunk_kind \<times> js_text) list \<Rightarrow> js_text list" where
  "lines_of ks steps = map snd (filter (\<lambda>(k, _). k \<in> ks) steps)"

lemma lines_of_simps [simp]:
  "lines_of ks [] = []" "lines_of ks ((k, l) # steps) = (if k \<in> ks then l # lines_of ks steps else lines_of ks steps)"
  "lines_of ks (a @ b) = lines_of ks a @ lines_of ks b" "lines_of ks (map (Pair k) ls) = (if k \<in> ks then ls else [])"
  by (simp_all add: lines_of_def comp_def)

abbreviation before_kinds :: "chunk_kind set" where "before_kinds \<equiv> {Equal_Lines, Removed_Lines}"
abbreviation after_kinds :: "chunk_kind set" where "after_kinds \<equiv> {Equal_Lines, Added_Lines}"

lemma lcs_drop:
  "i < length xs \<Longrightarrow> j < length ys \<Longrightarrow> lcs (drop i xs) (drop j ys)
     = (if xs ! i = ys ! j then lcs (drop (Suc i) xs) (drop (Suc j) ys) + 1
        else max (lcs (drop (Suc i) xs) (drop j ys)) (lcs (drop i xs) (drop (Suc j) ys)))"
  by (simp add: Cons_nth_drop_Suc [symmetric])

lemma diff_walk_lines:
  "rows = lcs_rows left right \<Longrightarrow> i \<le> length left \<Longrightarrow> j \<le> length right \<Longrightarrow>
     lines_of before_kinds (diff_walk left right rows i j) = drop i left
     \<and> lines_of after_kinds (diff_walk left right rows i j) = drop j right
     \<and> length (lines_of {Equal_Lines} (diff_walk left right rows i j)) = lcs (drop i left) (drop j right)"
proof (induction left right rows i j rule: diff_walk.induct)
  case (1 left right rows i j)
  note w = diff_walk.simps [of left right rows i j]
  have table: "i' \<le> length left \<Longrightarrow> j' \<le> length right \<Longrightarrow> rows ! i' ! j' = lcs (drop i' left) (drop j' right)" for i' j'
    using lcs_rows_nth [of left right] 1(4) by simp
  consider (stop) "\<not> (i < length left \<or> j < length right)"
    | (equal) "i < length left" "j < length right" "left ! i = right ! j"
    | (added) "j < length right" "\<not> (i < length left \<and> left ! i = right ! j)" "length left \<le> i \<or> rows ! i ! (j + 1) > rows ! (i + 1) ! j"
    | (removed) "i < length left" "\<not> (j < length right \<and> left ! i = right ! j)"
        "\<not> (j < length right \<and> (length left \<le> i \<or> rows ! i ! (j + 1) > rows ! (i + 1) ! j))"
    by (meson leI)
  then show ?case
  proof cases
    case stop
    then have "diff_walk left right rows i j = []" by (simp add: w)
    then show ?thesis using stop by simp
  next
    case equal
    note IH = 1(1) [OF _ _ 1(4)]
    have "drop i left = left ! i # drop (Suc i) left" "drop j right = left ! i # drop (Suc j) right"
      using Cons_nth_drop_Suc [OF equal(1)] Cons_nth_drop_Suc [OF equal(2)] equal(3) by simp_all
    then show ?thesis using equal IH by (simp add: w)
  next
    case added
    note IH = 1(2) [OF _ _ _ 1(4)]
    have "lcs (drop i left) (drop (Suc j) right) = lcs (drop i left) (drop j right)"
      using added table [of i "Suc j"] table [of "Suc i" j] 1(5) by (cases "i < length left") (simp_all add: lcs_drop)
    then show ?thesis using added IH 1(5) by (auto simp: w Cons_nth_drop_Suc)
  next
    case removed
    note IH = 1(3) [OF _ _ _ 1(4)]
    have "lcs (drop (Suc i) left) (drop j right) = lcs (drop i left) (drop j right)"
      using removed table [of i "Suc j"] table [of "Suc i" j] 1(6) by (cases "j < length right") (simp_all add: lcs_drop)
    then show ?thesis using removed IH 1(6) by (auto simp: w Cons_nth_drop_Suc)
  qed
qed

text \<open>Pushing a line appends it, to the last chunk of its kind or as a chunk of its own.\<close>

definition chunk_steps :: "chunk list \<Rightarrow> (chunk_kind \<times> js_text) list" where
  "chunk_steps chunks = concat (map (\<lambda>(k, ls). map (Pair k) ls) chunks)"

definition chunks_ok :: "chunk list \<Rightarrow> bool" where
  "chunks_ok chunks \<longleftrightarrow> [] \<notin> snd ` set chunks \<and> successively (\<noteq>) (map fst chunks)"

lemma pushChunk_steps: "chunk_steps (pushChunk chunks s) = chunk_steps chunks @ [s]"
  by (cases chunks rule: rev_cases) (auto simp: pushChunk_def chunk_steps_def split: prod.splits)

lemma push_all_steps: "chunk_steps (foldl pushChunk chunks steps) = chunk_steps chunks @ steps"
  by (induction steps arbitrary: chunks) (simp_all add: pushChunk_steps)

lemma pushChunk_ok: "chunks_ok chunks \<Longrightarrow> chunks_ok (pushChunk chunks s)"
  by (cases chunks rule: rev_cases) (auto simp: pushChunk_def chunks_ok_def successively_append_iff split: prod.splits)

lemma push_all_ok: "chunks_ok chunks \<Longrightarrow> chunks_ok (foldl pushChunk chunks steps)"
  by (induction steps arbitrary: chunks) (simp_all add: pushChunk_ok)

lemma large_diff_lines:
  assumes "pre = common_prefix left right" "suf = common_suffix pre left right"
  defines "steps \<equiv> map (Pair Equal_Lines) (take pre left) @ map (Pair Removed_Lines) (js_slice pre (length left - suf) left)
     @ map (Pair Added_Lines) (js_slice pre (length right - suf) right) @ map (Pair Equal_Lines) (drop (length left - suf) left)"
  shows "lines_of before_kinds steps = left" "lines_of after_kinds steps = right"
proof -
  let ?l = "rev (drop pre left)" and ?r = "rev (drop pre right)"
  have pre: "take pre left = take pre right" "pre \<le> length left" "pre \<le> length right"
    using take_common_prefix [of left right] common_prefix_le [of left right] by (simp_all add: assms(1))
  have suf: "take suf ?l = take suf ?r" "suf \<le> length ?l" "suf \<le> length ?r"
    using take_common_prefix [of ?l ?r] common_prefix_le [of ?l ?r] by (simp_all add: assms(2) common_suffix_def)
  have tail: "drop (length left - suf) left = drop (length right - suf) right"
  proof -
    have "rev (take suf ?l) = drop (length left - suf) left" "rev (take suf ?r) = drop (length right - suf) right"
      using suf(2,3) pre(2,3) by (simp_all add: rev_take)
    then show ?thesis using suf(1) by simp
  qed
  have parts: "take pre xs @ js_slice pre (length xs - suf) xs @ drop (length xs - suf) xs = xs" if "pre \<le> length xs - suf" for xs :: "js_text list"
    using that by (rule take_js_slice_drop)
  show "lines_of before_kinds steps = left" "lines_of after_kinds steps = right"
    using parts [of left] parts [of right] suf(2,3) pre by (simp_all add: steps_def tail)
qed

text \<open>
  C33. A diff tells the truth and, where it is computed in full, is the shortest. Without the added
  lines it is the old text and without the removed ones the new text, line by line; its chunks are
  not empty and alternate in kind; and up to the size where the table is given up, it keeps as many
  lines as any common subsequence of the two texts has.
\<close>

theorem line_diff_exact:
  "let left = js_split js_newline before; right = js_split js_newline after; chunks = lineDiff before after
   in js_join js_newline (lines_of before_kinds (chunk_steps chunks)) = before
     \<and> js_join js_newline (lines_of after_kinds (chunk_steps chunks)) = after
     \<and> chunks_ok chunks
     \<and> (1500000 < length left * length right
        \<or> {length zs |zs. subseq zs left \<and> subseq zs right} \<subseteq> {..length (lines_of {Equal_Lines} (chunk_steps chunks))})"
proof -
  let ?l = "js_split js_newline before" and ?r = "js_split js_newline after"
  have empty: "chunk_steps [] = []" "chunks_ok []" by (simp_all add: chunk_steps_def chunks_ok_def)
  show ?thesis
  proof (cases "length ?l * length ?r > 1500000")
    case True
    let ?pre = "common_prefix ?l ?r" and ?suf = "common_suffix (common_prefix ?l ?r) ?l ?r"
    show ?thesis
      using True large_diff_lines [OF refl refl, of ?l ?r]
      by (simp add: Let_def lineDiff_def push_all_steps push_all_ok empty del: lines_of_simps)
  next
    case False
    have w: "lines_of before_kinds (diff_walk ?l ?r (lcs_rows ?l ?r) 0 0) = ?l" "lines_of after_kinds (diff_walk ?l ?r (lcs_rows ?l ?r) 0 0) = ?r"
      "length (lines_of {Equal_Lines} (diff_walk ?l ?r (lcs_rows ?l ?r) 0 0)) = lcs ?l ?r"
      using diff_walk_lines [OF refl, of 0 ?l 0 ?r] by simp_all
    then show ?thesis
      using False by (auto simp: Let_def lineDiff_def push_all_steps push_all_ok empty lcs_upper simp del: lines_of_simps)
  qed
qed

end
