(* ===== verification/Source_Sections.thy ===== *)
theory Source_Sections
  imports Js_Text
begin

text \<open>
  Refactoring the sections of a document (\<open>client/src/intelligence/operations.ts\<close>): renaming a heading,
  shifting the depth of a section, moving it past a sibling and extracting it. The headings and their
  sections are those of \<open>client/src/intelligence/analyze.ts\<close>. A raised error is \<open>None\<close>.
\<close>

section \<open>Headings and sections\<close>

record heading =
  heading_level :: nat
  heading_text :: js_text
  section_from :: nat
  section_to :: nat

text \<open>A section ends where the next heading of the same or a smaller level begins.\<close>

fun assign_sections :: "nat \<Rightarrow> heading list \<Rightarrow> heading list" where
  "assign_sections len [] = []"
| "assign_sections len (h # rest) =
     h\<lparr>section_to := (case List.find (\<lambda>c. heading_level c \<le> heading_level h) rest of None \<Rightarrow> len | Some c \<Rightarrow> section_from c)\<rparr>
     # assign_sections len rest"

definition replace_range :: "js_text \<Rightarrow> nat \<Rightarrow> nat \<Rightarrow> js_text \<Rightarrow> js_text option" where
  "replace_range text a b replacement = (if b < a \<or> length text < b then None else Some (take a text @ replacement @ drop b text))"

lemma replace_range_Some:
  "replace_range text a b r = Some t \<longleftrightarrow> a \<le> b \<and> b \<le> length text \<and> t = take a text @ r @ drop b text"
  by (auto simp: replace_range_def)

definition section_text :: "js_text \<Rightarrow> heading \<Rightarrow> js_text" where
  "section_text text h = js_slice (section_from h) (section_to h) text"

section \<open>Moving a section\<close>

datatype direction = Move_Up | Move_Down

fun findIndex :: "('a \<Rightarrow> bool) \<Rightarrow> 'a list \<Rightarrow> int" where
  "findIndex P [] = - 1"
| "findIndex P (x # xs) = (if P x then 0 else let i = findIndex P xs in if i < 0 then - 1 else i + 1)"

definition nth_or_undefined :: "'a list \<Rightarrow> int \<Rightarrow> 'a option" where
  "nth_or_undefined xs i = (if 0 \<le> i \<and> i < int (length xs) then Some (xs ! nat i) else None)"

definition parent_heading :: "heading list \<Rightarrow> heading \<Rightarrow> heading option" where
  "parent_heading headings selected =
     List.find (\<lambda>c. section_from c < section_from selected \<and> section_to c \<ge> section_to selected \<and> heading_level c < heading_level selected)
       (rev headings)"

definition sibling_headings :: "js_text \<Rightarrow> heading list \<Rightarrow> heading \<Rightarrow> heading list" where
  "sibling_headings text headings selected =
     (let parent = parent_heading headings selected;
          scopeFrom = (case parent of None \<Rightarrow> 0 | Some p \<Rightarrow> section_from p);
          scopeTo = (case parent of None \<Rightarrow> length text | Some p \<Rightarrow> section_to p)
      in filter (\<lambda>c. heading_level c = heading_level selected \<and> section_from c \<ge> scopeFrom \<and> section_to c \<le> scopeTo) headings)"

definition moveHeadingSection :: "js_text \<Rightarrow> heading list \<Rightarrow> heading \<Rightarrow> direction \<Rightarrow> js_text option" where
  "moveHeadingSection text headings selected direction =
     (let siblings = sibling_headings text headings selected;
          position = findIndex (\<lambda>c. section_from c = section_from selected) siblings;
          neighbor = nth_or_undefined siblings (case direction of Move_Up \<Rightarrow> position - 1 | Move_Down \<Rightarrow> position + 1)
      in case neighbor of
           None \<Rightarrow> None
         | Some n \<Rightarrow>
             (case direction of
                Move_Up \<Rightarrow>
                  let before = js_slice (section_from n) (section_from selected) text;
                      current = js_slice (section_from selected) (section_to selected) text
                  in replace_range text (section_from n) (section_to selected) (current @ before)
              | Move_Down \<Rightarrow>
                  let current = js_slice (section_from selected) (section_to selected) text;
                      after = js_slice (section_from n) (section_to n) text
                  in replace_range text (section_from selected) (section_to n) (after @ current)))"

text \<open>What the analysis guarantees of the sections.\<close>

definition section_ok :: "nat \<Rightarrow> heading list \<Rightarrow> heading \<Rightarrow> bool" where
  "section_ok len hs h \<longleftrightarrow>
     section_from h \<le> section_to h \<and> section_to h \<le> len
     \<and> (section_to h = len \<or> (\<exists>b \<in> set hs. heading_level b \<le> heading_level h \<and> section_from h < section_from b \<and> section_to h = section_from b))
     \<and> (\<forall>b \<in> set hs. section_from h < section_from b \<longrightarrow> heading_level b \<le> heading_level h \<longrightarrow> section_to h \<le> section_from b)"

definition sections_ok :: "nat \<Rightarrow> heading list \<Rightarrow> bool" where
  "sections_ok len hs \<longleftrightarrow> sorted_wrt (<) (map section_from hs) \<and> (\<forall>h \<in> set hs. section_ok len hs h)"

lemma assign_sections_maps [simp]:
  "map section_from (assign_sections len raw) = map section_from raw"
  "map heading_level (assign_sections len raw) = map heading_level raw"
  by (induction raw) simp_all

lemma assign_sections_mem:
  "c \<in> set raw \<Longrightarrow> \<exists>b \<in> set (assign_sections len raw). section_from b = section_from c \<and> heading_level b = heading_level c"
  "b \<in> set (assign_sections len raw) \<Longrightarrow> \<exists>c \<in> set raw. section_from b = section_from c \<and> heading_level b = heading_level c"
  by (induction raw) auto

lemma find_first_sorted:
  "sorted_wrt (<) (map section_from raw) \<Longrightarrow> List.find P raw = Some c \<Longrightarrow> b \<in> set raw \<Longrightarrow> P b \<Longrightarrow> section_from c \<le> section_from b"
  by (induction raw) (auto split: if_splits intro: less_imp_le)

lemma assign_sections_ok:
  "sorted_wrt (<) (map section_from raw) \<Longrightarrow> \<forall>h \<in> set raw. section_from h \<le> len \<Longrightarrow> sections_ok len (assign_sections len raw)"
proof (induction raw)
  case (Cons h raw)
  let ?hs = "assign_sections len raw" and ?P = "\<lambda>c. heading_level c \<le> heading_level h"
  have IH: "sections_ok len ?hs" using Cons by simp
  have later: "\<forall>b \<in> set ?hs. section_from h < section_from b"
    using Cons.prems(1) assign_sections_mem(2) by fastforce
  show ?case
  proof (cases "List.find ?P raw")
    case None
    then have "\<forall>b \<in> set ?hs. \<not> heading_level b \<le> heading_level h"
      by (metis assign_sections_mem(2) find_None_iff)
    then show ?thesis using IH later Cons.prems None unfolding sections_ok_def section_ok_def by (force dest: less_imp_le)
  next
    case (Some c)
    have c: "c \<in> set raw" "?P c" using Some by (auto dest: find_SomeD)
    obtain c' where c': "c' \<in> set ?hs" "section_from c' = section_from c" "heading_level c' = heading_level c"
      using assign_sections_mem(1) [OF c(1)] by blast
    have first: "\<forall>b \<in> set ?hs. heading_level b \<le> heading_level h \<longrightarrow> section_from c \<le> section_from b"
    proof (intro ballI impI)
      fix b assume b: "b \<in> set ?hs" "heading_level b \<le> heading_level h"
      then obtain b' where "b' \<in> set raw" "section_from b = section_from b'" "?P b'" using assign_sections_mem(2) by fastforce
      then show "section_from c \<le> section_from b" using find_first_sorted [OF _ Some] Cons.prems(1) by simp
    qed
    have bound: "section_from h < section_from c" "section_from c \<le> len" using c(1) Cons.prems by auto
    let ?h = "h\<lparr>section_to := section_from c\<rparr>"
    have eq: "assign_sections len (h # raw) = ?h # ?hs" by (simp add: Some)
    have "section_ok len (?h # ?hs) b" if b: "b \<in> set ?hs" for b
    proof -
      have "\<not> section_from b < section_from h" using later b by (simp add: not_less less_imp_le)
      then show ?thesis using IH b unfolding sections_ok_def section_ok_def by fastforce
    qed
    moreover have "\<exists>x \<in> set (?h # ?hs). heading_level x \<le> heading_level ?h \<and> section_from ?h < section_from x \<and> section_to ?h = section_from x"
      using c' c(2) bound by (intro bexI [of _ c']) simp_all
    then have "section_ok len (?h # ?hs) ?h" using bound first by (simp add: section_ok_def)
    moreover have "sorted_wrt (<) (map section_from (?h # ?hs))" using Cons.prems(1) by simp
    ultimately show ?thesis unfolding eq sections_ok_def by simp
  qed
qed (simp add: sections_ok_def)

lemma findIndex_hit:
  "x \<in> set xs \<Longrightarrow> P x \<Longrightarrow> 0 \<le> findIndex P xs \<and> findIndex P xs < int (length xs) \<and> P (xs ! nat (findIndex P xs))"
  by (induction xs) (auto simp: Let_def nat_add_distrib nth_Cons' split: if_splits)

lemma no_element_between:
  fixes f :: "'a \<Rightarrow> nat"
  assumes "sorted_wrt (<) (map f xs)" "Suc k < length xs" "b \<in> set xs" "f (xs ! k) < f b" "f b < f (xs ! Suc k)"
  shows False
proof -
  obtain i where i: "i < length xs" "b = xs ! i" using assms(3) by (auto simp: in_set_conv_nth)
  have "sorted_wrt (<) (map f xs)" by fact
  then have mono: "i < j \<Longrightarrow> j < length xs \<Longrightarrow> f (xs ! i) < f (xs ! j)" for i j
    by (auto simp: sorted_wrt_iff_nth_less)
  have "i \<le> k \<or> Suc k \<le> i" by auto
  then show False using mono [of i k] mono [of "Suc k" i] i assms by (cases "i = k"; cases "i = Suc k") auto
qed

lemma parent_heading_Some:
  "parent_heading hs sel = Some p \<Longrightarrow> section_from p < section_from sel \<and> section_to p \<ge> section_to sel \<and> p \<in> set hs"
  unfolding parent_heading_def by (auto dest: find_SomeD)

text \<open>The sibling next to the selected heading.\<close>

lemma sibling_neighbor:
  assumes ok: "sections_ok (length text) hs" and sel: "selected \<in> set hs"
    and n: "nth_or_undefined (sibling_headings text hs selected)
       (findIndex (\<lambda>c. section_from c = section_from selected) (sibling_headings text hs selected) + (if d = Move_Up then - 1 else 1)) = Some n"
  shows "n \<in> set hs" "heading_level n = heading_level selected"
    "d = Move_Up \<Longrightarrow> section_from n < section_from selected"
    "d = Move_Down \<Longrightarrow> section_from selected < section_from n"
    "d = Move_Down \<Longrightarrow> section_to selected \<le> section_from n"
    "d = Move_Down \<Longrightarrow> section_to selected = section_from n \<or>
       (\<exists>h \<in> set hs. heading_level h < heading_level selected \<and> section_from h = section_to selected)"
proof -
  let ?s = "sibling_headings text hs selected"
  let ?i = "findIndex (\<lambda>c. section_from c = section_from selected) ?s"
  define scopeFrom scopeTo where "scopeFrom = (case parent_heading hs selected of None \<Rightarrow> 0 | Some p \<Rightarrow> section_from p)"
    and "scopeTo = (case parent_heading hs selected of None \<Rightarrow> length text | Some p \<Rightarrow> section_to p)"
  have sibs: "?s = filter (\<lambda>c. heading_level c = heading_level selected \<and> section_from c \<ge> scopeFrom \<and> section_to c \<le> scopeTo) hs"
    by (simp add: sibling_headings_def scopeFrom_def scopeTo_def Let_def)
  have scope: "scopeFrom \<le> section_from selected" "section_to selected \<le> scopeTo"
    using ok sel by (auto simp: scopeFrom_def scopeTo_def sections_ok_def section_ok_def split: option.splits dest: parent_heading_Some)
  have sorted: "sorted_wrt (<) (map section_from ?s)"
    using ok by (simp add: sibs sections_ok_def sorted_wrt_map sorted_wrt_filter)
  have "selected \<in> set ?s" using sel scope by (simp add: sibs)
  from findIndex_hit [OF this, of "\<lambda>c. section_from c = section_from selected"]
  obtain k where k: "?i = int k" "k < length ?s" "section_from (?s ! k) = section_from selected"
    by (metis nat_int nonneg_int_cases of_nat_less_iff)
  have mono: "i < j \<Longrightarrow> j < length ?s \<Longrightarrow> section_from (?s ! i) < section_from (?s ! j)" for i j
    using sorted by (auto simp: sorted_wrt_iff_nth_less)
  from n k(1) have n_mem: "n \<in> set ?s"
    by (auto simp: nth_or_undefined_def split: if_splits intro!: nth_mem)
  then show mem: "n \<in> set hs" and level: "heading_level n = heading_level selected" by (auto simp: sibs)
  show "section_from n < section_from selected" if "d = Move_Up"
  proof -
    have "0 < k" "n = ?s ! (k - 1)" using n k that by (auto simp: nth_or_undefined_def nat_diff_distrib split: if_splits)
    then show ?thesis using mono [of "k - 1" k] k by simp
  qed
  show less: "section_from selected < section_from n" and le: "section_to selected \<le> section_from n"
    and gap: "section_to selected = section_from n \<or> (\<exists>h \<in> set hs. heading_level h < heading_level selected \<and> section_from h = section_to selected)"
    if d: "d = Move_Down"
  proof -
    have nk: "Suc k < length ?s" "n = ?s ! Suc k"
      using n k d by (auto simp: nth_or_undefined_def nat_add_distrib split: if_splits)
    show less: "section_from selected < section_from n" using mono [of k "Suc k"] nk k by simp
    show le: "section_to selected \<le> section_from n" using ok sel mem level less by (auto simp: sections_ok_def section_ok_def)
    show "section_to selected = section_from n \<or> (\<exists>h \<in> set hs. heading_level h < heading_level selected \<and> section_from h = section_to selected)"
    proof (rule ccontr)
      assume no: "\<not> ?thesis"
      have "section_from n \<le> length text" using ok mem unfolding sections_ok_def section_ok_def by fastforce
      then have "section_to selected \<noteq> length text" using no le by auto
      then obtain b where b: "b \<in> set hs" "heading_level b \<le> heading_level selected" "section_from selected < section_from b" "section_to selected = section_from b"
        using ok sel unfolding sections_ok_def section_ok_def by blast
      have lb: "heading_level b = heading_level selected" using no b by (metis le_neq_implies_less)
      have bn: "section_from b < section_from n" using no b(4) le by auto
      then have "section_to b \<le> section_from n" using ok b(1) mem level lb unfolding sections_ok_def section_ok_def by auto
      also have "\<dots> \<le> section_to n" using ok mem by (auto simp: sections_ok_def section_ok_def)
      also have "\<dots> \<le> scopeTo" using n_mem by (simp add: sibs)
      finally have "b \<in> set ?s" using b lb scope by (simp add: sibs)
      then show False using no_element_between [OF sorted nk(1)] b(3) bn k(3) nk(2) by simp
    qed
  qed
qed

lemma text_parts:
  "a \<le> b \<Longrightarrow> b \<le> c \<Longrightarrow> c \<le> d \<Longrightarrow> text = take a text @ js_slice a b text @ js_slice b c text @ js_slice c d text @ drop d text"
proof -
  assume le: "a \<le> b" "b \<le> c" "c \<le> d"
  have "js_slice x y text @ drop y text = drop x text" if "x \<le> y" for x y
    using that by (metis append_take_drop_id drop_drop js_slice_def le_add_diff_inverse2)
  then show ?thesis using le by (metis append_take_drop_id)
qed


text \<open>The third section of a document moves before the second.\<close>

definition sample_headings :: "(nat \<times> string \<times> nat) list \<Rightarrow> heading list" where
  "sample_headings = map (\<lambda>(l, t, f). \<lparr>heading_level = l, heading_text = js t, section_from = f, section_to = 0\<rparr>)"


text \<open>
  Two documents the operation damages: a heading of a smaller level between two siblings is lost when
  the first moves down, and where the last section has no line break at its end, the heading it
  moves before continues its last line.
\<close>

lemma move_down_loses_text:
  "let t = js ''## A'' @ [10] @ js ''# B'' @ [10] @ js ''## C'' @ [10];
       hs = assign_sections (length t) (sample_headings [(2, ''A'', 0), (1, ''B'', 5), (2, ''C'', 9)])
   in moveHeadingSection t hs (hs ! 0) Move_Down = Some (js ''## C'' @ [10] @ js ''## A'' @ [10])"
  by code_simp

lemma move_last_joins_headings:
  "let t = js ''# A'' @ [10] @ js ''# B'';
       hs = assign_sections (length t) (sample_headings [(1, ''A'', 0), (1, ''B'', 4)])
   in moveHeadingSection t hs (hs ! 1) Move_Up = Some (js ''# B# A'' @ [10])"
  by code_simp

section \<open>Extracting a section\<close>

definition js_trimEnd :: "js_text \<Rightarrow> js_text" where
  "js_trimEnd s = rev (dropWhile js_whitespace (rev s))"

definition link_label :: "js_text \<Rightarrow> js_text" where
  "link_label s = js_trim (map (\<lambda>c. if c \<in> set (js '']|'') \<union> {13, 10} then 32 else c) s)"

definition extractHeadingSection :: "js_text \<Rightarrow> heading \<Rightarrow> js_text \<Rightarrow> js_text \<Rightarrow> (js_text \<times> js_text) option" where
  "extractHeadingSection text h targetDocumentId targetTitle =
     (let source = js_trimEnd (js_slice (section_from h) (section_to h) text) @ [10];
          label = (if link_label targetTitle \<noteq> [] then link_label targetTitle else heading_text h);
          replacement = js ''![['' @ targetDocumentId @ js ''|'' @ label @ js '']]'' @ [10]
      in map_option (Pair source) (replace_range text (section_from h) (section_to h) replacement))"

text \<open>The text outside the section stays, and the section is in the new document up to white space at its end.\<close>

lemma extract_keeps_text:
  assumes "extractHeadingSection text h i t = Some (source, remaining)"
  shows "\<exists>p body blank s. text = p @ body @ blank @ s \<and> (\<forall>c \<in> set blank. js_whitespace c) \<and> source = body @ [10]
    \<and> (\<exists>link. remaining = p @ js ''![['' @ i @ link @ js '']]'' @ [10] @ s)"
proof -
  let ?sec = "js_slice (section_from h) (section_to h) text"
  have r: "section_from h \<le> section_to h" "source = js_trimEnd ?sec @ [10]"
      "remaining = take (section_from h) text @ (js ''![['' @ i @ js ''|'' @ (if link_label t \<noteq> [] then link_label t else heading_text h) @ js '']]'' @ [10]) @ drop (section_to h) text"
    using assms unfolding extractHeadingSection_def Let_def by (auto simp: replace_range_Some simp del: js_simps)
  have "?sec = js_trimEnd ?sec @ rev (takeWhile js_whitespace (rev ?sec))"
    unfolding js_trimEnd_def by (metis rev_append rev_rev_ident takeWhile_dropWhile_id)
  then have "text = take (section_from h) text @ js_trimEnd ?sec @ rev (takeWhile js_whitespace (rev ?sec)) @ drop (section_to h) text"
    using take_js_slice_drop [OF r(1), of "text"] by (metis append.assoc)
  moreover have "\<forall>c \<in> set (rev (takeWhile js_whitespace (rev ?sec))). js_whitespace c" by (auto dest: set_takeWhileD)
  ultimately show ?thesis using r(2,3) by (metis append.assoc)
qed

end
