(* ===== verification/Source_Headings.thy ===== *)
theory Source_Headings
  imports Source_Sections
begin

text \<open>
  The heading lines of a section: how the analysis reads one (\<open>client/src/intelligence/analyze.ts\<close>), and how
  \<open>client/src/intelligence/operations.ts\<close> renames one and shifts the depth of all of them. A regular
  expression of the code is written out as the unique way it can match: each run it reads ends at the
  first character outside its class, and no shorter run lets the rest match.
\<close>

definition blank_unit :: "16 word \<Rightarrow> bool" where
  "blank_unit c \<longleftrightarrow> c = 32 \<or> c = 9"

text \<open>\<open> {0,3}#{1,6}\<close> before a blank: the number of spaces and of hashes.\<close>

definition heading_mark :: "js_text \<Rightarrow> (nat \<times> nat) option" where
  "heading_mark s =
     (let indent = length (takeWhile (\<lambda>c. c = 32) s);
          hashes = length (takeWhile (\<lambda>c. c = 35) (drop indent s));
          rest = drop (indent + hashes) s
      in if indent \<le> 3 \<and> 1 \<le> hashes \<and> hashes \<le> 6 \<and> rest \<noteq> [] \<and> blank_unit (hd rest) then Some (indent, hashes) else None)"

section \<open>Reading a heading line\<close>

text \<open>\<open>(.+?)tail$\<close>: the shortest non-empty body the tail completes to the end of the line.\<close>

fun lazy_body :: "(js_text \<Rightarrow> bool) \<Rightarrow> js_text \<Rightarrow> (js_text \<times> js_text) option" where
  "lazy_body tail [] = None"
| "lazy_body tail (c # s) =
     (if js_line_terminator c then None
      else if tail s then Some ([c], s)
      else map_option (\<lambda>(body, t). (c # body, t)) (lazy_body tail s))"

definition heading_tail :: "js_text \<Rightarrow> bool" where
  "heading_tail s \<longleftrightarrow> dropWhile blank_unit (dropWhile (\<lambda>c. c = 35) (dropWhile blank_unit s)) = []"

text \<open>What follows the mark: where only blanks do, the last of them is the body.\<close>

definition heading_body :: "(js_text \<Rightarrow> bool) \<Rightarrow> js_text \<Rightarrow> (js_text \<times> js_text) option" where
  "heading_body tail s =
     (case dropWhile blank_unit s of
        [] \<Rightarrow> if length s \<ge> 2 then Some ([last s], []) else None
      | c # t \<Rightarrow> lazy_body tail (c # t))"

definition heading_of_line :: "js_text \<Rightarrow> (nat \<times> js_text) option" where
  "heading_of_line s =
     (case heading_mark s of
        None \<Rightarrow> None
      | Some (indent, hashes) \<Rightarrow>
          map_option (\<lambda>(body, _). (hashes, js_trim body)) (heading_body heading_tail (drop (indent + hashes) s)))"

section \<open>Renaming\<close>

text \<open>\<open>replace(/[\r\n]+/g, ' ')\<close>\<close>

definition break_unit :: "16 word \<Rightarrow> bool" where
  "break_unit c \<longleftrightarrow> c = 13 \<or> c = 10"

function collapse_breaks :: "js_text \<Rightarrow> js_text" where
  "collapse_breaks [] = []"
| "collapse_breaks (c # s) = (if break_unit c then 32 # collapse_breaks (dropWhile break_unit s) else c # collapse_breaks s)"
  by pat_completeness auto
termination
  by (relation "measure length") (auto simp: le_imp_less_Suc length_dropWhile_le)

definition clean_title :: "js_text \<Rightarrow> js_text" where
  "clean_title title = js_trim (collapse_breaks title)"

definition heading_line :: "js_text \<Rightarrow> heading \<Rightarrow> nat \<times> nat \<times> js_text" where
  "heading_line text h =
     (let a = section_from h; b = (case index_of [10] text a of None \<Rightarrow> length text | Some n \<Rightarrow> n)
      in (a, b, js_slice a b text))"

text \<open>\<open>([ \t]+#*[ \t]*)?$\<close>\<close>

definition rename_tail :: "js_text \<Rightarrow> bool" where
  "rename_tail s \<longleftrightarrow> s = [] \<or> blank_unit (hd s) \<and> heading_tail s"

definition rename_match :: "js_text \<Rightarrow> (js_text \<times> js_text) option" where
  "rename_match s =
     (case heading_mark s of
        None \<Rightarrow> None
      | Some (indent, hashes) \<Rightarrow>
          map_option (\<lambda>(_, t). (take (indent + hashes) s, t)) (heading_body rename_tail (drop (indent + hashes) s)))"

definition renameHeading :: "js_text \<Rightarrow> heading \<Rightarrow> js_text \<Rightarrow> js_text option" where
  "renameHeading text h title =
     (let nextTitle = clean_title title
      in if nextTitle = [] \<or> length nextTitle > 240 then None
         else
           case heading_line text h of
             (a, b, source) \<Rightarrow>
               (case rename_match source of
                  None \<Rightarrow> None
                | Some (m, t) \<Rightarrow> replace_range text a b (m @ [32] @ nextTitle @ t)))"

section \<open>Shifting the depth\<close>

datatype shift = Promote | Demote

definition shift_delta :: "shift \<Rightarrow> int" where
  "shift_delta d = (case d of Promote \<Rightarrow> - 1 | Demote \<Rightarrow> 1)"

text \<open>The depths of the heading lines, from a place that is a line start or not.\<close>

function depths :: "bool \<Rightarrow> js_text \<Rightarrow> nat list" where
  "depths start s =
     (case s of
        [] \<Rightarrow> []
      | c # t \<Rightarrow>
          (case (if start then heading_mark s else None) of
             Some (indent, hashes) \<Rightarrow> hashes # depths False (drop (indent + hashes) s)
           | None \<Rightarrow> depths (js_line_terminator c) t))"
  by pat_completeness auto
termination
  by (relation "measure (\<lambda>(_, s). length s)") (auto simp: heading_mark_def Let_def split: if_splits)

function shift_marks :: "int \<Rightarrow> bool \<Rightarrow> js_text \<Rightarrow> js_text" where
  "shift_marks delta start s =
     (case s of
        [] \<Rightarrow> []
      | c # t \<Rightarrow>
          (case (if start then heading_mark s else None) of
             Some (indent, hashes) \<Rightarrow>
               (let n = int hashes + delta
                in (if n < 1 \<or> n > 6 then take (indent + hashes) s else take indent s @ replicate (nat n) 35)
                   @ shift_marks delta False (drop (indent + hashes) s))
           | None \<Rightarrow> c # shift_marks delta (js_line_terminator c) t))"
  by pat_completeness auto
termination
  by (relation "measure (\<lambda>(_, _, s). length s)") (auto simp: heading_mark_def Let_def split: if_splits)

declare depths.simps [simp del] shift_marks.simps [simp del]

definition shiftHeadingDepth :: "js_text \<Rightarrow> heading \<Rightarrow> shift \<Rightarrow> js_text option" where
  "shiftHeadingDepth text h d =
     (if d = Promote \<and> heading_level h = 1 then None
      else
        let sec = js_slice (section_from h) (section_to h) text;
            ds = depths True sec
        in if ds = [] \<or> (\<exists>n \<in> set ds. int n + shift_delta d < 1 \<or> int n + shift_delta d > 6) then None
           else replace_range text (section_from h) (section_to h) (shift_marks (shift_delta d) True sec))"

section \<open>Demoting and promoting\<close>

lemma takeWhile_drop_id: "takeWhile P xs @ drop (length (takeWhile P xs)) xs = xs"
  by (metis dropWhile_eq_drop takeWhile_dropWhile_id)

lemma takeWhile_run: "y \<noteq> x \<Longrightarrow> takeWhile (\<lambda>c. c = x) (replicate n x @ y # s) = replicate n x"
  by (induction n) auto

lemma heading_mark_Some:
  "heading_mark s = Some (i, n) \<longleftrightarrow>
     i \<le> 3 \<and> 1 \<le> n \<and> n \<le> 6 \<and> (\<exists>c t. s = replicate i 32 @ replicate n 35 @ c # t \<and> blank_unit c)"
proof
  assume l: "heading_mark s = Some (i, n)"
  let ?a = "takeWhile (\<lambda>c. c = 32) s"
  let ?b = "takeWhile (\<lambda>c. c = 35) (drop (length ?a) s)"
  have "i = length ?a" "n = length ?b" "i \<le> 3" "1 \<le> n" "n \<le> 6" and r: "drop (i + n) s \<noteq> []" "blank_unit (hd (drop (i + n) s))"
    using l by (auto simp: heading_mark_def Let_def split: if_splits)
  moreover have "?a = replicate (length ?a) 32" "?b = replicate (length ?b) 35"
    by (metis (mono_tags, lifting) replicate_eqI set_takeWhileD)+
  moreover have "s = ?a @ ?b @ drop (length ?a + length ?b) s"
    using takeWhile_drop_id [of "\<lambda>c. c = 32" s] takeWhile_drop_id [of "\<lambda>c. c = 35" "drop (length ?a) s"]
    by (simp add: add.commute)
  ultimately show "i \<le> 3 \<and> 1 \<le> n \<and> n \<le> 6 \<and> (\<exists>c t. s = replicate i 32 @ replicate n 35 @ c # t \<and> blank_unit c)"
    by (metis list.exhaust_sel)
next
  assume r: "i \<le> 3 \<and> 1 \<le> n \<and> n \<le> 6 \<and> (\<exists>c t. s = replicate i 32 @ replicate n 35 @ c # t \<and> blank_unit c)"
  then obtain c t where s: "s = replicate i 32 @ replicate n 35 @ c # t" "blank_unit c" by blast
  obtain m where m: "n = Suc m" using r by (cases n) auto
  have "takeWhile (\<lambda>c. c = 32) s = replicate i 32" using s m by (simp add: takeWhile_run)
  moreover have "takeWhile (\<lambda>c. c = 35) (drop i s) = replicate n 35"
    using s by (auto simp: takeWhile_run blank_unit_def)
  ultimately show "heading_mark s = Some (i, n)" using r s by (simp add: heading_mark_def Let_def)
qed

lemma shift_marks_hit:
  "heading_mark s = Some (i, n) \<Longrightarrow> 1 \<le> int n + delta \<Longrightarrow> int n + delta \<le> 6 \<Longrightarrow>
     shift_marks delta True s = take i s @ replicate (nat (int n + delta)) 35 @ shift_marks delta False (drop (i + n) s)"
  by (cases s) (auto simp: shift_marks.simps [of delta True] Let_def heading_mark_def)

lemma depths_hit: "heading_mark s = Some (i, n) \<Longrightarrow> depths True s = n # depths False (drop (i + n) s)"
  by (cases s) (auto simp: depths.simps [of True] heading_mark_def)

lemma inside_line [simp]:
  "depths False (c # t) = depths (js_line_terminator c) t" "shift_marks delta False (c # t) = c # shift_marks delta (js_line_terminator c) t"
  "depths start [] = []" "shift_marks delta start [] = []"
  by (simp_all add: depths.simps shift_marks.simps)

lemma depths_positive: "n \<in> set (depths start s) \<Longrightarrow> 1 \<le> n"
proof (induction start s rule: depths.induct)
  case (1 start s)
  show ?case
  proof (cases s)
    case (Cons c t)
    show ?thesis
    proof (cases "if start then heading_mark s else None")
      case None
      then have "n \<in> set (depths (js_line_terminator c) t)" using "1.prems" unfolding depths.simps [of start s] None by (simp add: Cons)
      then show ?thesis using "1.IH"(1) [OF Cons None] by simp
    next
      case (Some p)
      obtain i m where p: "p = (i, m)" by (cases p)
      then have "1 \<le> m" using Some by (auto simp: heading_mark_def Let_def split: if_splits)
      moreover have "n = m \<or> n \<in> set (depths False (drop (i + m) s))"
        using "1.prems" unfolding depths.simps [of start s] Some p by (simp add: Cons)
      ultimately show ?thesis using "1.IH"(2) [OF Cons Some p [symmetric]] by auto
    qed
  qed (use "1.prems" in simp)
qed

lemma shift_marks_miss:
  "heading_mark (c # t) = None \<Longrightarrow> depths True (c # t) = depths (js_line_terminator c) t"
  "heading_mark (c # t) = None \<Longrightarrow> shift_marks delta True (c # t) = c # shift_marks delta (js_line_terminator c) t"
  by (simp_all add: depths.simps shift_marks.simps)

lemma shift_line_prefix:
  "\<forall>x \<in> set u. \<not> js_line_terminator x \<Longrightarrow> shift_marks delta False s = u @ v \<Longrightarrow> \<exists>w. s = u @ w"
proof (induction u arbitrary: s)
  case (Cons x u)
  then obtain t where "s = x # t" "shift_marks delta (js_line_terminator x) t = u @ v"
    by (cases s) auto
  then show ?case using Cons by auto
qed simp

lemma shift_marks_keeps_miss:
  assumes "heading_mark (c # t) = None"
  shows "heading_mark (c # shift_marks delta (js_line_terminator c) t) = None"
proof (rule ccontr)
  assume "heading_mark (c # shift_marks delta (js_line_terminator c) t) \<noteq> None"
  then obtain i n where "heading_mark (c # shift_marks delta (js_line_terminator c) t) = Some (i, n)" by auto
  then obtain b r where l: "i \<le> 3" "1 \<le> n" "n \<le> 6" "c # shift_marks delta (js_line_terminator c) t = (replicate i 32 @ replicate n 35 @ [b]) @ r" "blank_unit b"
    by (auto simp: heading_mark_Some)
  let ?u = "replicate i 32 @ replicate n 35 @ [b]"
  have u: "\<forall>x \<in> set ?u. \<not> js_line_terminator x" using l(5) by (auto simp: js_line_terminator_def blank_unit_def)
  then have "shift_marks delta False (c # t) = ?u @ r" using l(4) by (auto simp: append_eq_Cons_conv simp flip: append_assoc)
  from shift_line_prefix [OF u this] obtain w where "c # t = ?u @ w" ..
  then have "heading_mark (c # t) = Some (i, n)" using l by (auto simp: heading_mark_Some)
  then show False using assms by simp
qed

lemma demote_marks:
  "\<forall>n \<in> set (depths start s). n \<le> 5 \<Longrightarrow>
     depths start (shift_marks 1 start s) = map Suc (depths start s)
     \<and> shift_marks (- 1) start (shift_marks 1 start s) = s
     \<and> length (shift_marks 1 start s) = length s + length (depths start s)"
proof (induction start s rule: depths.induct)
  case (1 start s)
  show ?case
  proof (cases "if start then heading_mark s else None")
    case (Some p)
    obtain i n where h: "start" "heading_mark s = Some (i, n)" using Some by (cases p) (auto split: if_splits)
    obtain b t where s: "i \<le> 3" "1 \<le> n" "n \<le> 6" "s = replicate i 32 @ replicate n 35 @ b # t" "blank_unit b" using h(2) by (auto simp: heading_mark_Some)
    have d: "depths True s = n # depths False (b # t)" using depths_hit [OF h(2)] s by simp
    have n: "n \<le> 5" using "1.prems" d h(1) by simp
    have not_term: "js_line_terminator b = False" using s(5) by (auto simp: js_line_terminator_def blank_unit_def)
    have up: "shift_marks 1 True s = replicate i 32 @ replicate (Suc n) 35 @ shift_marks 1 False (b # t)"
      using shift_marks_hit [OF h(2), of 1] s n by (simp add: nat_add_distrib replicate_append_same)
    have h': "heading_mark (shift_marks 1 True s) = Some (i, Suc n)"
      unfolding up using s n not_term by (auto simp: heading_mark_Some)
    have rest: "drop (i + Suc n) (shift_marks 1 True s) = shift_marks 1 False (b # t)" unfolding up by simp
    have IH: "depths False (shift_marks 1 False (b # t)) = map Suc (depths False (b # t)) \<and> shift_marks (- 1) False (shift_marks 1 False (b # t)) = b # t
        \<and> length (shift_marks 1 False (b # t)) = length (b # t) + length (depths False (b # t))"
    proof -
      have "s \<noteq> []" using s(4) by simp
      then obtain c cs where cs: "s = c # cs" by (cases s) simp_all
      have "drop (i + n) s = b # t" using s by simp
      moreover have "\<forall>m \<in> set (depths False (b # t)). m \<le> 5" using "1.prems" d h(1) by simp
      ultimately show ?thesis using "1.IH"(2) [OF cs Some, of "i" "n"] h Some by auto
    qed
    have "shift_marks (- 1) True (shift_marks 1 True s) = s"
      using shift_marks_hit [OF h', of "- 1"] rest IH s n up by simp
    moreover have "depths True (shift_marks 1 True s) = map Suc (depths True s)"
      using depths_hit [OF h'] rest IH d by simp
    moreover have "length (shift_marks 1 True s) = length s + length (depths True s)"
      using IH up d s by simp
    ultimately show ?thesis using h(1) by simp
  next
    case None
    show ?thesis
    proof (cases s)
      case (Cons c t)
      have "depths start s = depths (js_line_terminator c) t" using None Cons by (cases start) (simp_all add: shift_marks_miss)
      then have IH: "depths (js_line_terminator c) (shift_marks 1 (js_line_terminator c) t) = map Suc (depths (js_line_terminator c) t)
          \<and> shift_marks (- 1) (js_line_terminator c) (shift_marks 1 (js_line_terminator c) t) = t
          \<and> length (shift_marks 1 (js_line_terminator c) t) = length t + length (depths (js_line_terminator c) t)"
        using "1.IH"(1) [OF Cons None] "1.prems" by simp
      show ?thesis
      proof (cases start)
        case True
        then have miss: "heading_mark (c # t) = None" using None Cons by simp
        note shift_marks_miss [OF miss] shift_marks_miss [OF shift_marks_keeps_miss [OF miss]]
        then show ?thesis using IH True Cons by simp
      qed (use IH Cons in simp)
    qed simp
  qed
qed

text \<open>
  Demoting a section can be undone. Where it is allowed, every heading of the section is one
  level deeper, the rest of the text stays, and promoting the section that results, whose heading
  has the next level, gives the old text back.
\<close>

theorem demote_then_promote:
  assumes "shiftHeadingDepth text h Demote = Some deeper" "1 \<le> heading_level h"
    and "h' = h\<lparr>heading_level := heading_level h + 1, section_to := section_to h + (length deeper - length text)\<rparr>"
  shows "shiftHeadingDepth deeper h' Promote = Some text
    \<and> depths True (section_text deeper h') = map Suc (depths True (section_text text h))
    \<and> take (section_from h) deeper = take (section_from h) text \<and> drop (section_to h') deeper = drop (section_to h) text"
proof -
  let ?sec = "js_slice (section_from h) (section_to h) text"
  have d: "depths True ?sec \<noteq> []" "\<forall>n \<in> set (depths True ?sec). n \<le> 5"
      and r: "section_from h \<le> section_to h" "section_to h \<le> length text"
      and deeper: "deeper = take (section_from h) text @ shift_marks 1 True ?sec @ drop (section_to h) text"
    using assms(1) by (auto simp: shiftHeadingDepth_def shift_delta_def Let_def replace_range_Some split: if_splits)
  note m = demote_marks [OF d(2)]
  have len: "length ?sec = section_to h - section_from h" using r by (simp add: length_js_slice)
  have to': "section_to h' = section_from h + length (shift_marks 1 True ?sec)"
    using m len r by (simp add: assms(3) deeper)
  have sec': "js_slice (section_from h') (section_to h') deeper = shift_marks 1 True ?sec"
    unfolding to' unfolding deeper using r by (simp add: js_slice_def assms(3))
  have outside: "take (section_from h) deeper = take (section_from h) text" "drop (section_to h') deeper = drop (section_to h) text"
    unfolding to' unfolding deeper using r by simp_all
  have deep: "depths True (section_text deeper h') = map Suc (depths True (section_text text h))"
    using m sec' by (simp add: section_text_def)
  have range: "\<not> (\<exists>n \<in> set (map Suc (depths True ?sec)). int n + - 1 < 1 \<or> int n + - 1 > 6)"
  proof -
    have "0 \<notin> set (depths True ?sec)" using depths_positive by fastforce
    then show ?thesis using d(2) by fastforce
  qed
  have "heading_level h' \<noteq> 1" using assms(2,3) by simp
  moreover have "replace_range deeper (section_from h') (section_to h') ?sec = Some text"
    using outside to' deeper r take_js_slice_drop [OF r(1), of "text"] by (simp add: replace_range_Some assms(3))
  ultimately have "shiftHeadingDepth deeper h' Promote = Some text"
    using range m d(1) sec' depths_positive [of 0 True ?sec] by (auto simp add: shiftHeadingDepth_def shift_delta_def Let_def)
  then show ?thesis using deep outside by simp
qed

lemma demote_then_promote_witness:
  "shiftHeadingDepth (js ''# A'' @ [10] @ js ''## B'' @ [10] @ js ''x'' @ [10] @ js ''# C'') \<lparr>heading_level = 1, heading_text = js ''A'', section_from = 0, section_to = 11\<rparr> Demote
     = Some (js ''## A'' @ [10] @ js ''### B'' @ [10] @ js ''x'' @ [10] @ js ''# C'')
   \<and> shiftHeadingDepth (js ''## A'' @ [10] @ js ''### B'' @ [10] @ js ''x'' @ [10] @ js ''# C'') \<lparr>heading_level = 2, heading_text = js ''A'', section_from = 0, section_to = 13\<rparr> Promote
     = Some (js ''# A'' @ [10] @ js ''## B'' @ [10] @ js ''x'' @ [10] @ js ''# C'')"
  (is "?down \<and> ?up")
proof
  show d: ?down by code_simp
  show ?up by (rule demote_then_promote [OF d, THEN conjunct1]) code_simp+
qed

text \<open>The lines of a code block that look like headings are shifted with the section.\<close>

lemma demote_rewrites_code:
  "shiftHeadingDepth (js ''# A'' @ [10] @ js ''```'' @ [10] @ js ''# run'' @ [10] @ js ''```'') \<lparr>heading_level = 1, heading_text = js ''A'', section_from = 0, section_to = 17\<rparr> Demote
     = Some (js ''## A'' @ [10] @ js ''```'' @ [10] @ js ''## run'' @ [10] @ js ''```'')"
  by code_simp

section \<open>Reading a renamed heading\<close>

lemma dropWhile_keeps: "x \<in> set s \<Longrightarrow> \<not> P x \<Longrightarrow> x \<in> set (dropWhile P s)"
  by (induction s) auto

lemma heading_tail_fails: "x \<in> set s \<Longrightarrow> \<not> blank_unit x \<Longrightarrow> x \<noteq> 35 \<Longrightarrow> \<not> heading_tail s"
  using dropWhile_keeps [OF dropWhile_keeps [OF dropWhile_keeps [of x s blank_unit], of "\<lambda>c. c = 35"], of blank_unit]
  unfolding heading_tail_def by (metis list.distinct(1) list.set_cases)

lemma lazy_body_title:
  "n \<noteq> [] \<Longrightarrow> \<forall>c \<in> set n. \<not> js_line_terminator c \<Longrightarrow> \<not> blank_unit (last n) \<Longrightarrow> last n \<noteq> 35 \<Longrightarrow> heading_tail t \<Longrightarrow>
     lazy_body heading_tail (n @ t) = Some (n, t)"
proof (induction n)
  case (Cons c n)
  show ?case
  proof (cases n)
    case (Cons d m)
    have "\<not> heading_tail (n @ t)" using Cons Cons.prems by (intro heading_tail_fails [of "last n"]) auto
    then show ?thesis using Cons.IH Cons Cons.prems by simp
  qed (use Cons.prems in simp)
qed simp

lemma lazy_body_tail: "lazy_body tail s = Some (body, t) \<Longrightarrow> tail t \<and> s = body @ t"
  by (induction s arbitrary: body) (auto split: if_splits)



text \<open>
  Two headings the operation and the analysis do not agree on: a line with a carriage return is a heading
  that cannot be renamed, and a title that ends in a hash loses it.
\<close>

lemma crlf_heading_not_renamed:
  "renameHeading (js ''# One'' @ [13, 10]) \<lparr>heading_level = 1, heading_text = js ''One'', section_from = 0, section_to = 7\<rparr> (js ''First'') = None"
  by code_simp

lemma hash_title_lost:
  "renameHeading (js ''# One'') \<lparr>heading_level = 1, heading_text = js ''One'', section_from = 0, section_to = 5\<rparr> (js ''C#'') = Some (js ''# C#'')
   \<and> heading_of_line (js ''# C#'') = Some (1, js ''C'')"
  by code_simp

end
