(* ===== verification/Source_Paste.thy ===== *)
theory Source_Paste
  imports Source_Headings "HOL-Library.Sublist"
begin

text \<open>
  Pasting with an intent, and the block that includes another document
  (\<open>client/src/intelligence/operations.ts\<close>).
\<close>

section \<open>The replacements\<close>

text \<open>\<open>replace(/\r\n?/g, '\n')\<close>\<close>

fun unix_breaks :: "js_text \<Rightarrow> js_text" where
  "unix_breaks [] = []"
| "unix_breaks (c # s) =
     (if c = 13 then 10 # (case s of [] \<Rightarrow> [] | d # t \<Rightarrow> if d = 10 then unix_breaks t else unix_breaks s) else c # unix_breaks s)"

text \<open>\<open>[label](destination)\<close>: the label and what follows.\<close>

definition link_match :: "js_text \<Rightarrow> (js_text \<times> js_text) option" where
  "link_match s =
     (case s of
        [] \<Rightarrow> None
      | c # t \<Rightarrow>
          if c \<noteq> 91 then None
          else
            let label = takeWhile (\<lambda>c. c \<noteq> 93) t; after = dropWhile (\<lambda>c. c \<noteq> 93) t
            in if take 2 after = [93, 40] \<and> 41 \<in> set (drop 2 after) then Some (label, tl (dropWhile (\<lambda>c. c \<noteq> 41) (drop 2 after)))
               else None)"

definition image_match :: "js_text \<Rightarrow> (js_text \<times> js_text) option" where
  "image_match s = (case s of [] \<Rightarrow> None | c # t \<Rightarrow> if c = 33 then link_match t else None)"

definition named_link_match :: "js_text \<Rightarrow> (js_text \<times> js_text) option" where
  "named_link_match s = (case link_match s of Some (label, t) \<Rightarrow> if label \<noteq> [] then Some (label, t) else None | None \<Rightarrow> None)"

text \<open>
  Every match is replaced by its label, from the left on. A match is shorter than the text it is found
  in (\<open>link_match_shorter\<close>), so the test on the length is never false; it is what the termination rests on.
\<close>

function replace_matches :: "(js_text \<Rightarrow> (js_text \<times> js_text) option) \<Rightarrow> js_text \<Rightarrow> js_text" where
  "replace_matches f s =
     (case s of
        [] \<Rightarrow> []
      | c # t \<Rightarrow>
          (case f s of
             Some (label, rest) \<Rightarrow> if length rest < length s then label @ replace_matches f rest else c # replace_matches f t
           | None \<Rightarrow> c # replace_matches f t))"
  by pat_completeness auto
termination by (relation "measure (\<lambda>(_, s). length s)") auto

declare replace_matches.simps [simp del]

lemma link_match_shorter: "link_match s = Some (label, rest) \<Longrightarrow> length rest < length s"
proof -
  assume "link_match s = Some (label, rest)"
  then obtain t where t: "s = 91 # t" "rest = tl (dropWhile (\<lambda>c. c \<noteq> 41) (drop 2 (dropWhile (\<lambda>c. c \<noteq> 93) t)))"
    by (auto simp: link_match_def Let_def split: list.splits if_splits)
  have "length (dropWhile (\<lambda>c. c \<noteq> 41) (drop 2 (dropWhile (\<lambda>c. c \<noteq> 93) t))) \<le> length (dropWhile (\<lambda>c. c \<noteq> 93) t)"
    by (rule le_trans [OF length_dropWhile_le]) simp
  also have "\<dots> \<le> length t" by (rule length_dropWhile_le)
  finally show ?thesis using t by simp
qed

text \<open>\<open>replace(/\n{3,}/g, '\n\n')\<close>\<close>

function limit_breaks :: "js_text \<Rightarrow> js_text" where
  "limit_breaks [] = []"
| "limit_breaks (c # s) =
     (if c = 10 then
        let run = takeWhile (\<lambda>c. c = 10) (c # s)
        in (if 3 \<le> length run then [10, 10] else run) @ limit_breaks (dropWhile (\<lambda>c. c = 10) s)
      else c # limit_breaks s)"
  by pat_completeness auto
termination by (relation "measure length") (auto simp: le_imp_less_Suc length_dropWhile_le)

text \<open>\<open>matchAll(/`+/g)\<close>\<close>

function runs :: "('a \<Rightarrow> bool) \<Rightarrow> 'a list \<Rightarrow> 'a list list" where
  "runs P [] = []"
| "runs P (c # s) = (if P c then takeWhile P (c # s) # runs P (dropWhile P s) else runs P s)"
  by pat_completeness auto
termination by (relation "measure (\<lambda>(_, s). length s)") (auto simp: le_imp_less_Suc length_dropWhile_le)

text \<open>\<open>replace(/-->/g, arrow)\<close>\<close>

abbreviation comment_end :: js_text where "comment_end \<equiv> [45, 45, 62]"

fun hide_comment_end :: "js_text \<Rightarrow> js_text" where
  "hide_comment_end (a # b # c # s) =
     (if a = 45 \<and> b = 45 \<and> c = 62 then 0x2192 # hide_comment_end s else a # hide_comment_end (b # c # s))"
| "hide_comment_end s = s"

section \<open>Pasting\<close>

datatype intent = Preserve | Plain | Quote | Code

definition plain_text :: "js_text \<Rightarrow> js_text" where
  "plain_text s =
     limit_breaks (filter (\<lambda>c. c \<notin> set (js ''*_~`#>|''))
       (replace_matches named_link_match (replace_matches image_match s)))"

definition quoted_text :: "js_text \<Rightarrow> js_text" where
  "quoted_text s = js_join 10 (map (\<lambda>line. js ''> '' @ line) (js_split 10 s))"

definition code_fence :: "js_text \<Rightarrow> js_text" where
  "code_fence s = replicate (foldl max 3 (map (\<lambda>r. length r + 1) (runs (\<lambda>c. c = 96) s))) 96"

definition fenced_text :: "js_text \<Rightarrow> js_text" where
  "fenced_text s = code_fence s @ [10] @ s @ [10] @ code_fence s"

definition paste_source :: "js_text \<Rightarrow> js_text" where
  "paste_source p = take 500 (js_trim (collapse_breaks (hide_comment_end p)))"

definition pasteWithIntent :: "js_text \<Rightarrow> intent \<Rightarrow> js_text option \<Rightarrow> js_text" where
  "pasteWithIntent clipboard intent provenance =
     (let inserted = unix_breaks clipboard;
          inserted = (case intent of Preserve \<Rightarrow> inserted | Plain \<Rightarrow> plain_text inserted | Quote \<Rightarrow> quoted_text inserted | Code \<Rightarrow> fenced_text inserted);
          source = map_option paste_source provenance
      in case source of
           None \<Rightarrow> inserted
         | Some s \<Rightarrow> if s = [] then inserted else inserted @ [10] @ js ''<!-- marks:source '' @ s @ js '' -->'')"

section \<open>Including a document\<close>

definition id_unit :: "16 word \<Rightarrow> bool" where
  "id_unit c \<longleftrightarrow> 48 \<le> c \<and> c \<le> 57 \<or> 65 \<le> c \<and> c \<le> 90 \<or> 97 \<le> c \<and> c \<le> 122 \<or> c = 95 \<or> c = 45"

definition crossDocumentBlock :: "js_text \<Rightarrow> js_text option \<Rightarrow> js_text option \<Rightarrow> js_text option" where
  "crossDocumentBlock documentId heading label =
     (if \<not> (1 \<le> length documentId \<and> length documentId \<le> 160 \<and> list_all id_unit documentId) then None
      else
        let clean = (\<lambda>s. case s of None \<Rightarrow> [] | Some s \<Rightarrow> take 200 (link_label s));
            h = clean heading; l = clean label
        in Some (js ''![['' @ documentId @ (if h \<noteq> [] then js ''#'' @ h else []) @ (if l \<noteq> [] then js ''|'' @ l else []) @ js '']]''))"

section \<open>What a paste contains\<close>

lemma unix_breaks_no_cr: "13 \<notin> set (unix_breaks s)"
  by (induction s rule: unix_breaks.induct) (auto split: list.splits)

lemma nth_run: "length u < m \<Longrightarrow> m < k \<Longrightarrow> (u @ replicate k x @ v) ! m = x"
proof -
  assume m: "length u < m" "m < k"
  then have "m - length u < k" by simp
  then show ?thesis using m(1) by (simp add: nth_append)
qed

lemma runs_bound:
  "\<forall>r \<in> set (runs (\<lambda>c. c = x) s). length r < k \<Longrightarrow> \<not> sublist (replicate k x) s \<or> k = 0"
proof (induction "\<lambda>c. c = x" s rule: runs.induct)
  case (2 c s)
  show ?case
  proof (cases "c = x")
    case True
    let ?m = "length (takeWhile (\<lambda>c. c = x) (c # s))" and ?d = "dropWhile (\<lambda>c. c = x) s"
    have m: "?m < k" and IH: "\<not> sublist (replicate k x) ?d \<or> k = 0" using 2 True by auto
    have "y = x" if "y \<in> set (takeWhile (\<lambda>c. c = x) (c # s))" for y using set_takeWhileD [OF that] by simp
    then have t: "replicate ?m x = takeWhile (\<lambda>c. c = x) (c # s)" by (intro replicate_length_same) blast
    have s: "c # s = replicate ?m x @ ?d" unfolding t using True by simp
    have "\<not> sublist (replicate k x) (c # s)"
    proof
      assume "sublist (replicate k x) (c # s)"
      then obtain u v where uv: "c # s = u @ replicate k x @ v" by (auto simp: sublist_def)
      show False
      proof (cases "?m \<le> length u")
        case True
        have "?d = drop ?m (u @ replicate k x @ v)" unfolding uv [symmetric] using s by (metis append_eq_conv_conj length_replicate)
        then have "?d = drop ?m u @ replicate k x @ v" using True by simp
        then show False using IH m by (metis less_nat_zero_code sublist_appendI)
      next
        case False
        have "(u @ replicate k x @ v) ! ?m = x" using False m by (intro nth_run) simp_all
        moreover have "(replicate ?m x @ ?d) ! ?m = hd ?d" "?d \<noteq> []"
        proof -
          have "length (c # s) > ?m" using m unfolding uv by simp
          then show "?d \<noteq> []" using s by (metis append_Nil2 length_replicate less_irrefl)
          then show "(replicate ?m x @ ?d) ! ?m = hd ?d" by (simp add: nth_append hd_conv_nth)
        qed
        ultimately show False using hd_dropWhile [of "\<lambda>c. c = x" s] uv s by metis
      qed
    qed
    then show ?thesis ..
  next
    case False
    have "\<not> sublist (replicate k x) s \<or> k = 0" using 2 False by simp
    then show ?thesis using False by (cases k) (auto simp: sublist_Cons_right)
  qed
qed (auto simp: sublist_Nil_right)

lemma foldl_max_le: "(\<forall>m \<in> set ms. m \<le> foldl max (a :: nat) ms) \<and> a \<le> foldl max a ms"
proof (induction ms arbitrary: a)
  case (Cons m ms)
  then show ?case by (auto intro: le_trans [of _ "max a m"])
qed simp

lemma fence_not_inside: "\<not> sublist (code_fence s) s"
proof -
  let ?k = "foldl max 3 (map (\<lambda>r. length r + 1) (runs (\<lambda>c. c = 96) s))"
  have "\<forall>r \<in> set (runs (\<lambda>c. c = 96) s). length r < ?k" "3 \<le> ?k"
    using foldl_max_le [of "map (\<lambda>r. length r + 1) (runs (\<lambda>c. c = 96) s)" 3] by (auto simp: Suc_le_eq)
  then show ?thesis unfolding code_fence_def using runs_bound [of 96 s ?k] by auto
qed

lemma limit_breaks_prefix: "limit_breaks s = 10 # t \<Longrightarrow> \<exists>u. s = 10 # u"
  by (cases s) (auto split: if_splits)

lemma short_run_bound:
  assumes "\<not> sublist [x, x, x] r" "\<not> prefix [x] r" "n \<le> 2"
  shows "\<not> sublist [x, x, x] (replicate n x @ r)"
proof -
  have no: "prefix (x # p) r = False" for p using assms(2) by (cases r) auto
  have r: "sublist [x, x, x] r = False" using assms(1) by simp
  consider "n = 0" | "n = 1" | "n = 2" using assms(3) by linarith
  then show ?thesis by cases (simp_all add: sublist_Cons_right numeral_2_eq_2 no r)
qed

lemma limit_breaks_bound: "\<not> sublist [10, 10, 10] (limit_breaks s)"
proof (induction s rule: limit_breaks.induct)
  case (2 c s)
  show ?case
  proof (cases "c = 10")
    case True
    let ?d = "dropWhile (\<lambda>c. c = 10) s" and ?run = "takeWhile (\<lambda>c. c = (10 :: 16 word)) (c # s)"
    have IH: "\<not> sublist [10, 10, 10] (limit_breaks ?d)" using 2 True by (simp add: Let_def)
    have no: "\<not> prefix [10] (limit_breaks ?d)"
    proof
      assume "prefix [10] (limit_breaks ?d)"
      then obtain t u where "?d = 10 # u" using limit_breaks_prefix by (metis append_Cons prefix_def)
      then show False using hd_dropWhile [of "\<lambda>c. c = 10" s] by simp
    qed
    define run where "run = (if 3 \<le> length ?run then [10, 10] else ?run)"
    have run: "length run \<le> 2" "run = replicate (length run) 10"
      unfolding run_def by (auto intro!: replicate_eqI dest: set_takeWhileD)
    have "\<not> sublist [10, 10, 10] (replicate (length run) 10 @ limit_breaks ?d)"
      by (rule short_run_bound [OF IH no run(1)])
    moreover have "limit_breaks (c # s) = run @ limit_breaks ?d" using True by (simp add: run_def Let_def)
    ultimately show ?thesis using run(2) by metis
  next
    case False
    then show ?thesis using 2 by (simp add: sublist_Cons_right)
  qed
qed simp

lemma hide_prefix: "0x2192 \<notin> set p \<Longrightarrow> prefix p (hide_comment_end s) \<Longrightarrow> prefix p s"
proof (induction s arbitrary: p rule: hide_comment_end.induct)
  case (1 a b c s)
  then show ?case by (cases p) (auto split: if_splits)
qed auto

lemma hide_comment_end_bound: "\<not> sublist comment_end (hide_comment_end s)"
proof (induction s rule: hide_comment_end.induct)
  case (1 a b c s)
  show ?case
  proof (cases "a = 45 \<and> b = 45 \<and> c = 62")
    case True
    then show ?thesis using 1(1) by (simp add: sublist_Cons_right)
  next
    case False
    have "\<not> prefix comment_end (a # hide_comment_end (b # c # s))"
    proof
      assume "prefix comment_end (a # hide_comment_end (b # c # s))"
      then have "a = 45" "prefix [45, 62] (hide_comment_end (b # c # s))" by auto
      from hide_prefix [OF _ this(2)] have "prefix [45, 62] (b # c # s)" by simp
      then show False using False \<open>a = 45\<close> by auto
    qed
    then show ?thesis using 1(2) False by (auto simp: sublist_Cons_right)
  qed
qed (auto simp: sublist_Cons_right)

lemma collapse_prefix: "32 \<notin> set p \<Longrightarrow> prefix p (collapse_breaks s) \<Longrightarrow> prefix p s"
proof (induction s arbitrary: p rule: collapse_breaks.induct)
  case (2 c s)
  then show ?case by (cases p) (auto split: if_splits)
qed simp

lemma collapse_keeps_out: "32 \<notin> set p \<Longrightarrow> p \<noteq> [] \<Longrightarrow> \<not> sublist p s \<Longrightarrow> \<not> sublist p (collapse_breaks s)"
proof (induction s rule: collapse_breaks.induct)
  case (2 c s)
  show ?case
  proof (cases "break_unit c")
    case True
    have "\<not> sublist p (dropWhile break_unit s)"
      using 2(5) by (metis sublist_Cons_right sublist_order.order_trans suffix_dropWhile suffix_imp_sublist)
    then have "\<not> sublist p (collapse_breaks (dropWhile break_unit s))" using 2 True by blast
    moreover have "\<not> prefix p (32 # t)" for t using 2(3,4) by (cases p) auto
    ultimately show ?thesis using True by (simp add: sublist_Cons_right)
  next
    case False
    have "\<not> sublist p (collapse_breaks s)" using 2 False by (auto simp: sublist_Cons_right)
    moreover have "\<not> prefix p (c # collapse_breaks s)"
    proof
      assume "prefix p (c # collapse_breaks s)"
      then have "prefix p (collapse_breaks (c # s))" using False by simp
      from collapse_prefix [OF 2(3) this] have "sublist p (c # s)" by (rule prefix_imp_sublist)
      then show False using 2(5) by blast
    qed
    ultimately show ?thesis using False by (simp add: sublist_Cons_right)
  qed
qed (simp add: sublist_Nil_right)

lemma collapse_no_breaks: "\<forall>c \<in> set (collapse_breaks s). \<not> break_unit c"
proof (induction s rule: collapse_breaks.induct)
  case (2 c s)
  have "\<not> break_unit 32" by (simp add: break_unit_def)
  then show ?case using 2 by (cases "break_unit c") simp_all
qed simp

lemma js_trim_sublist: "sublist (js_trim s) s"
proof -
  let ?l = "dropWhile js_whitespace s"
  have "?l = js_trim s @ rev (takeWhile js_whitespace (rev ?l))"
    unfolding js_trim_def by (metis rev_append rev_rev_ident takeWhile_dropWhile_id)
  then have "prefix (js_trim s) ?l" by (metis prefixI)
  then show ?thesis by (metis prefix_imp_sublist sublist_order.order_trans suffix_dropWhile suffix_imp_sublist)
qed

lemma paste_source_sublist: "sublist (paste_source p) (collapse_breaks (hide_comment_end p))"
  unfolding paste_source_def by (meson js_trim_sublist sublist_order.order_trans prefix_imp_sublist take_is_prefix)

lemma limit_breaks_subset: "set (limit_breaks s) \<subseteq> set s"
proof (induction s rule: limit_breaks.induct)
  case (2 c s)
  then show ?case by (auto simp: Let_def dest: set_takeWhileD set_dropWhileD split: if_splits)
qed simp

lemma plain_text_marks: "set (plain_text s) \<inter> set (js ''*_~`#>|'') = {}"
  unfolding plain_text_def using limit_breaks_subset by fastforce

lemma js_split_quote: "js_split 10 (js_join 10 (map (\<lambda>line. js ''> '' @ line) (js_split 10 s))) = map (\<lambda>line. js ''> '' @ line) (js_split 10 s)"
proof -
  have split_line: "sep \<notin> set l \<Longrightarrow> js_split sep l = [l]" for sep and l :: js_text by (induction l) auto
  have split_more: "sep \<notin> set l \<Longrightarrow> js_split sep (l @ sep # r) = l # js_split sep r" for sep and l r :: js_text by (induction l) auto
  have "ls \<noteq> [] \<Longrightarrow> \<forall>l \<in> set ls. sep \<notin> set l \<Longrightarrow> js_split sep (js_join sep ls) = ls" for sep and ls :: "js_text list"
    by (induction sep ls rule: js_join.induct) (simp_all add: split_line split_more)
  moreover have "\<forall>l \<in> set (map (\<lambda>line. js ''> '' @ line) (js_split 10 s)). 10 \<notin> set l"
    using js_split_no_sep by (fastforce simp: u16_def)
  ultimately show ?thesis by simp
qed


end
