(* ===== verification/Object_Store.thy ===== *)
theory Object_Store
  imports Js_Text "HOL-Library.List_Lexorder"
begin

text \<open>
  Object stores of an indexed database, as the client uses them: the list of their records, which the
  key tells apart. \<open>getAll\<close> on the index of the documents is a filter.
\<close>

section \<open>Operations\<close>

text \<open>\<open>add\<close> refuses a key that is there, \<open>put\<close> replaces its record.\<close>

definition store_get :: "('r \<Rightarrow> js_text) \<Rightarrow> js_text \<Rightarrow> 'r list \<Rightarrow> 'r option" where
  "store_get key k rs = List.find (\<lambda>r. key r = k) rs"

definition store_put :: "('r \<Rightarrow> js_text) \<Rightarrow> 'r \<Rightarrow> 'r list \<Rightarrow> 'r list" where
  "store_put key r rs = (if key r \<in> key ` set rs then map (\<lambda>x. if key x = key r then r else x) rs else rs @ [r])"

definition store_delete :: "('r \<Rightarrow> js_text) \<Rightarrow> js_text \<Rightarrow> 'r list \<Rightarrow> 'r list" where
  "store_delete key k rs = filter (\<lambda>r. key r \<noteq> k) rs"

abbreviation of_document :: "('r \<Rightarrow> js_text) \<Rightarrow> js_text \<Rightarrow> 'r list \<Rightarrow> 'r list" where
  "of_document doc d rs \<equiv> filter (\<lambda>r. doc r = d) rs"

text \<open>\<open>getAll\<close> gives the records of a document in the order of their keys.\<close>

definition get_all :: "('r \<Rightarrow> js_text) \<Rightarrow> ('r \<Rightarrow> js_text) \<Rightarrow> js_text \<Rightarrow> 'r list \<Rightarrow> 'r list" where
  "get_all key doc d rs = sort_key key (of_document doc d rs)"

lemma get_all_simps [simp]:
  "set (get_all key doc d rs) = set (of_document doc d rs)" "length (get_all key doc d rs) = length (of_document doc d rs)"
  "filter P (get_all key doc d rs) = sort_key key (filter P (of_document doc d rs))"
  by (simp_all add: get_all_def filter_sort)

section \<open>Laws\<close>

lemma store_put_map:
  "distinct (map key rs) \<Longrightarrow> x \<in> set rs \<Longrightarrow> key r = key x \<Longrightarrow> g r = g x \<Longrightarrow> map g (store_put key r rs) = map g rs"
proof -
  assume a: "distinct (map key rs)" "x \<in> set rs" "key r = key x" "g r = g x"
  have "g (if key y = key r then r else y) = g y" if "y \<in> set rs" for y
    using a that by (auto simp: distinct_map inj_on_def)
  then have "map (\<lambda>y. g (if key y = key r then r else y)) rs = map g rs" by (intro map_cong) auto
  then show ?thesis using a by (auto simp: store_put_def comp_def)
qed

lemma store_put_mem: "y \<in> set (store_put key r rs) \<Longrightarrow> y = r \<or> y \<in> set rs"
  by (auto simp: store_put_def split: if_splits)

lemma store_get_Some: "store_get key k rs = Some r \<Longrightarrow> r \<in> set rs \<and> key r = k"
  unfolding store_get_def by (auto dest: find_SomeD)

lemma delete_sum:
  "distinct (map key rs) \<Longrightarrow> r \<in> set rs \<Longrightarrow> P r \<Longrightarrow>
     sum_list (map f (filter P rs)) = (f r :: nat) + sum_list (map f (filter P (store_delete key (key r) rs)))"
proof (induction rs)
  case (Cons x rs)
  show ?case
  proof (cases "x = r")
    case True
    then have "\<forall>y \<in> set rs. key y \<noteq> key r" using Cons.prems(1) by (auto simp: image_iff)
    then have "store_delete key (key r) rs = rs" unfolding store_delete_def by (rule filter_True)
    then show ?thesis using True Cons.prems(3) by (simp add: store_delete_def)
  next
    case False
    then have "r \<in> set rs" "key x \<noteq> key r" using Cons.prems by auto
    then show ?thesis using Cons by (simp add: store_delete_def)
  qed
qed simp

lemma delete_other: "\<not> P r \<Longrightarrow> distinct (map key rs) \<Longrightarrow> r \<in> set rs \<Longrightarrow> filter P (store_delete key (key r) rs) = filter P rs"
  unfolding store_delete_def filter_filter by (rule filter_cong [OF refl]) (metis (mono_tags, lifting) distinct_map inj_on_eq_iff)

lemma store_put_keys: "distinct (map key rs) \<Longrightarrow> distinct (map key (store_put key r rs))"
proof -
  assume d: "distinct (map key rs)"
  have "map (\<lambda>y. key (if key y = key r then r else y)) rs = map key rs" by (intro map_cong) auto
  then have "map key (map (\<lambda>y. if key y = key r then r else y) rs) = map key rs" by simp
  then show ?thesis using d by (cases "key r \<in> key ` set rs") (simp_all add: store_put_def del: map_map)
qed

lemma store_delete_keys: "distinct (map key rs) \<Longrightarrow> distinct (map key (store_delete key k rs))"
  unfolding store_delete_def by (rule distinct_map_filter)

text \<open>A put replaces the weight of the record that had the key by that of the new one.\<close>

lemma store_put_sum:
  assumes "distinct (map key rs)"
  shows "sum_list (map f (filter P (store_put key r rs)))
     + (case store_get key (key r) rs of None \<Rightarrow> 0 | Some x \<Rightarrow> if P x then f x else 0) = sum_list (map f (filter P rs)) + (if P r then (f r :: nat) else 0)"
proof (cases "store_get key (key r) rs")
  case None
  then have "key r \<notin> key ` set rs" unfolding store_get_def by (auto simp: find_None_iff)
  then show ?thesis using None by (simp add: store_put_def)
next
  case (Some x)
  have x: "x \<in> set rs" "key x = key r" using store_get_Some [OF Some] by auto
  have "sum_list (map f (filter P (map (\<lambda>y. if key y = key r then r else y) rs))) + (if P x then f x else 0) = sum_list (map f (filter P rs)) + (if P r then f r else 0)"
    using assms x
  proof (induction rs)
    case (Cons y rs)
    show ?case
    proof (cases "y = x")
      case True
      have "\<forall>z \<in> set rs. key z \<noteq> key r" using Cons.prems(1,3) True by (auto simp: image_iff)
      then have "map (\<lambda>y. if key y = key r then r else y) rs = rs" by (intro map_idI) auto
      then show ?thesis using True x(2) by simp
    next
      case False
      then have mem: "x \<in> set rs" using Cons.prems(2) by auto
      then have "key x \<in> key ` set rs" by simp
      then have "key y \<noteq> key r" using Cons.prems(1,3) by auto
      moreover have "sum_list (map f (filter P (map (\<lambda>y. if key y = key r then r else y) rs))) + (if P x then f x else 0) = sum_list (map f (filter P rs)) + (if P r then f r else 0)"
        using Cons.IH Cons.prems mem by simp
      ultimately show ?thesis by (cases "P y") (simp_all add: add.assoc)
    qed
  qed simp
  moreover have "key r \<in> key ` set rs" using x by (metis imageI)
  ultimately show ?thesis using Some by (simp add: store_put_def)
qed

lemma store_delete_sum_le: "sum_list (map f (filter P (store_delete key k rs))) \<le> (sum_list (map f (filter P rs)) :: nat)"
  unfolding store_delete_def by (induction rs) auto

text \<open>
  A bound on the weight of every document: it holds after a put where the document of the new record
  has room for it, not counting the record it replaces there.
\<close>

definition within :: "('r \<Rightarrow> js_text) \<Rightarrow> ('r \<Rightarrow> nat) \<Rightarrow> nat \<Rightarrow> 'r list \<Rightarrow> bool" where
  "within doc f bound rs \<longleftrightarrow> (\<forall>d. sum_list (map f (of_document doc d rs)) \<le> bound)"

lemma within_put:
  assumes "distinct (map key rs)" "within doc f bound rs"
    and "sum_list (map f (of_document doc (doc r) rs)) + f r \<le> bound + (case store_get key (key r) rs of None \<Rightarrow> 0 | Some x \<Rightarrow> if doc x = doc r then f x else 0)"
  shows "within doc f bound (store_put key r rs)"
  unfolding within_def
proof
  fix d
  have s: "sum_list (map f (of_document doc d (store_put key r rs))) + (case store_get key (key r) rs of None \<Rightarrow> 0 | Some x \<Rightarrow> if doc x = d then f x else 0)
      = sum_list (map f (of_document doc d rs)) + (if doc r = d then f r else 0)"
    using store_put_sum [OF assms(1), of f "\<lambda>x. doc x = d" r] .
  show "sum_list (map f (of_document doc d (store_put key r rs))) \<le> bound"
  proof (cases "doc r = d")
    case True
    then show ?thesis using s assms(3) by (auto split: option.splits if_splits)
  next
    case False
    then have "sum_list (map f (of_document doc d (store_put key r rs))) \<le> sum_list (map f (of_document doc d rs))" using s by simp
    also have "\<dots> \<le> bound" using assms(2) by (simp add: within_def)
    finally show ?thesis .
  qed
qed

lemma within_delete: "within doc f bound rs \<Longrightarrow> within doc f bound (store_delete key k rs)"
  unfolding within_def using store_delete_sum_le le_trans by blast

lemma within_Nil [simp]: "within doc f bound []"
  by (simp add: within_def)

text \<open>The number of the records is their weight where each weighs one.\<close>

abbreviation one_each :: "'r \<Rightarrow> nat" where "one_each \<equiv> \<lambda>_. 1"

lemma count_of: "sum_list (map (\<lambda>_. Suc 0) rs) = length rs"
  by (simp add: sum_list_triv)

text \<open>The record under a key after an operation.\<close>

lemma store_get_put [simp]: "store_get key k (store_put key r rs) = (if k = key r then Some r else store_get key k rs)"
proof (cases "key r \<in> key ` set rs")
  case True
  have "key r \<in> key ` set rs \<Longrightarrow> List.find (\<lambda>x. key x = k) (map (\<lambda>y. if key y = key r then r else y) rs) = (if k = key r then Some r else List.find (\<lambda>x. key x = k) rs)"
  proof (induction rs)
    case (Cons y rs)
    show ?case
    proof (cases "key y = key r")
      case True
      have "key r \<notin> key ` set rs \<Longrightarrow> List.find (\<lambda>x. key x = k) (map (\<lambda>y. if key y = key r then r else y) rs) = List.find (\<lambda>x. key x = k) rs"
        by (induction rs) auto
      then show ?thesis using Cons.IH True by (cases "key r \<in> key ` set rs") auto
    next
      case False
      then show ?thesis using Cons by auto
    qed
  qed simp
  then show ?thesis using True by (simp add: store_get_def store_put_def)
next
  case False
  then have "List.find (\<lambda>x. key x = key r) rs = None" by (auto simp: find_None_iff image_iff)
  then show ?thesis using False by (auto simp: store_get_def store_put_def find_append' split: option.splits)
qed

lemma store_get_delete [simp]: "store_get key k (store_delete key i rs) = (if k = i then None else store_get key k rs)"
  unfolding store_get_def store_delete_def by (induction rs) auto

end
