(* ===== verification/Review_Data.thy ===== *)
theory Review_Data
  imports Auth_Protocol Object_Store "HOL-Library.Multiset" "HOL-Library.Product_Lexorder"
begin

text \<open>
  The review data a browser keeps for itself (\<open>client/src/data/review.ts\<close>, \<open>localRepository\<close>): comments with
  their replies, saved versions, and the count and size of the versions of each document. An object
  store is the list of its records; an operation is one transaction, and returns the database it
  commits with its result or the error it throws.
\<close>

section \<open>The records\<close>

record review_reply =
  reply_id :: js_text
  reply_author :: js_text
  reply_own :: bool
  reply_body :: js_text
  reply_created :: nat
  reply_edited :: "nat option"
  reply_deleted :: bool

record review_comment =
  comment_id :: js_text
  comment_document :: js_text
  comment_author :: js_text
  comment_own :: bool
  comment_body :: js_text
  comment_created :: nat
  comment_edited :: "nat option"
  comment_deleted :: bool
  resolved :: bool
  start_anchor :: "js_text option"
  end_anchor :: "js_text option"
  comment_quote :: js_text
  start_offset :: nat
  end_offset :: nat
  replies :: "review_reply list"

record document_version =
  version_id :: js_text
  version_document :: js_text
  version_label :: js_text
  version_author :: js_text
  version_created :: nat
  version_chars :: nat
  version_markdown :: js_text

record stored_version =
  version :: document_version
  stored_bytes :: nat

record review_meta =
  version_count :: nat
  version_bytes :: nat

record review_db =
  comments :: "review_comment list"
  versions :: "stored_version list"
  metas :: "js_text \<rightharpoonup> review_meta"

datatype review_error =
  Bad_Message | No_Change | Thread_Not_Found | Reply_Not_Found | Comment_Limit | Reply_Limit | Bad_Label | Version_Limit
  | Bad_Cursor | Key_Exists

definition LOCAL_COMMENT_PAGE_SIZE :: nat where "LOCAL_COMMENT_PAGE_SIZE = 25"
definition MAX_LOCAL_COMMENTS :: nat where "MAX_LOCAL_COMMENTS = 10000"
definition MAX_LOCAL_REPLIES :: nat where "MAX_LOCAL_REPLIES = 200"
definition MAX_LOCAL_VERSIONS :: nat where "MAX_LOCAL_VERSIONS = 100"
definition MAX_LOCAL_VERSION_BYTES :: nat where "MAX_LOCAL_VERSION_BYTES = 64 * 1024 * 1024"

abbreviation version_doc :: "stored_version \<Rightarrow> js_text" where "version_doc r \<equiv> version_document (version r)"
abbreviation version_key :: "stored_version \<Rightarrow> js_text" where "version_key r \<equiv> version_id (version r)"

section \<open>Comments\<close>

definition checkedMessage :: "js_text \<Rightarrow> js_text option" where
  "checkedMessage s = (let t = js_trim s in if t = [] \<or> length (encode_text t) > 16 * 1024 then None else Some t)"

text \<open>A range of the document: two opaque anchors, what was quoted and where it stood.\<close>

record anchor_range =
  anchor_start :: bytes
  anchor_end :: bytes
  anchor_quote :: js_text
  anchor_from :: nat
  anchor_to :: nat

definition new_comment :: "js_text \<Rightarrow> nat \<Rightarrow> js_text \<Rightarrow> js_text \<Rightarrow> js_text \<Rightarrow> anchor_range \<Rightarrow> review_comment" where
  "new_comment uuid now d author body r =
     \<lparr>comment_id = js ''comment-'' @ uuid, comment_document = d, comment_author = author, comment_own = True, comment_body = body,
      comment_created = now, comment_edited = None, comment_deleted = False, resolved = False,
      start_anchor = Some (encodeBase64Url (anchor_start r)), end_anchor = Some (encodeBase64Url (anchor_end r)),
      comment_quote = anchor_quote r, start_offset = anchor_from r, end_offset = anchor_to r, replies = []\<rparr>"

definition reviewRange :: "review_comment \<Rightarrow> anchor_range option" where
  "reviewRange c =
     (case (start_anchor c, end_anchor c) of
        (Some a, Some b) \<Rightarrow>
          if a = [] \<or> b = [] then None
          else
            (case (decodeBase64Url a, decodeBase64Url b) of
               (Inr x, Inr y) \<Rightarrow> Some \<lparr>anchor_start = x, anchor_end = y, anchor_quote = comment_quote c, anchor_from = start_offset c, anchor_to = end_offset c\<rparr>
             | _ \<Rightarrow> None)
      | _ \<Rightarrow> None)"

definition addComment :: "js_text \<Rightarrow> nat \<Rightarrow> js_text \<Rightarrow> js_text \<Rightarrow> js_text \<Rightarrow> anchor_range \<Rightarrow> review_db \<Rightarrow> review_db \<times> (review_error + review_comment)" where
  "addComment uuid now d author body r db =
     (case checkedMessage body of
        None \<Rightarrow> (db, Inl Bad_Message)
      | Some t \<Rightarrow>
          let item = new_comment uuid now d author t r
          in if length (of_document comment_document d (comments db)) \<ge> MAX_LOCAL_COMMENTS then (db, Inl Comment_Limit)
             else if comment_id item \<in> comment_id ` set (comments db) then (db, Inl Key_Exists)
             else (db\<lparr>comments := comments db @ [item]\<rparr>, Inr item))"

definition mutateLocalComment ::
    "js_text \<Rightarrow> js_text \<Rightarrow> (review_comment \<Rightarrow> review_error + review_comment) \<Rightarrow> review_db \<Rightarrow> review_db \<times> (review_error + unit)" where
  "mutateLocalComment d i mutate db =
     (case store_get comment_id i (comments db) of
        None \<Rightarrow> (db, Inl Thread_Not_Found)
      | Some c \<Rightarrow>
          if comment_document c \<noteq> d then (db, Inl Thread_Not_Found)
          else
            (case mutate c of
               Inl e \<Rightarrow> (db, Inl e)
             | Inr updated \<Rightarrow> (db\<lparr>comments := store_put comment_id updated (comments db)\<rparr>, Inr ())))"

definition updated_comment :: "nat \<Rightarrow> bool option \<Rightarrow> js_text option \<Rightarrow> review_comment \<Rightarrow> review_comment" where
  "updated_comment now res t item =
     (let item = (case res of None \<Rightarrow> item | Some r \<Rightarrow> item\<lparr>resolved := r\<rparr>)
      in case t of None \<Rightarrow> item | Some b \<Rightarrow> item\<lparr>comment_body := b, comment_deleted := False, comment_edited := Some now\<rparr>)"

definition updateComment :: "nat \<Rightarrow> js_text \<Rightarrow> js_text \<Rightarrow> bool option \<Rightarrow> js_text option \<Rightarrow> review_db \<Rightarrow> review_db \<times> (review_error + unit)" where
  "updateComment now d i res body db =
     (if body = None \<and> res = None then (db, Inl No_Change)
      else
        (case (case body of None \<Rightarrow> Some None | Some b \<Rightarrow> map_option Some (checkedMessage b)) of
           None \<Rightarrow> (db, Inl Bad_Message)
         | Some t \<Rightarrow>
mutateLocalComment d i (\<lambda>item. Inr (updated_comment now res t item)) db))"

definition deleteComment :: "js_text \<Rightarrow> js_text \<Rightarrow> review_db \<Rightarrow> review_db \<times> (review_error + unit)" where
  "deleteComment d i db = mutateLocalComment d i (\<lambda>item. Inr (item\<lparr>comment_body := [], comment_deleted := True\<rparr>)) db"

definition addReply :: "js_text \<Rightarrow> nat \<Rightarrow> js_text \<Rightarrow> js_text \<Rightarrow> js_text \<Rightarrow> js_text \<Rightarrow> review_db \<Rightarrow> review_db \<times> (review_error + unit)" where
  "addReply uuid now d i author body db =
     (case checkedMessage body of
        None \<Rightarrow> (db, Inl Bad_Message)
      | Some t \<Rightarrow>
          mutateLocalComment d i (\<lambda>item.
            if length (replies item) \<ge> MAX_LOCAL_REPLIES then Inl Reply_Limit
            else Inr (item\<lparr>replies := replies item @ [\<lparr>reply_id = js ''reply-'' @ uuid, reply_author = author, reply_own = True, reply_body = t,
                        reply_created = now, reply_edited = None, reply_deleted = False\<rparr>]\<rparr>)) db)"

definition map_reply :: "js_text \<Rightarrow> (review_reply \<Rightarrow> review_reply) \<Rightarrow> review_comment \<Rightarrow> review_error + review_comment" where
  "map_reply i f item =
     (if i \<notin> reply_id ` set (replies item) then Inl Reply_Not_Found
      else Inr (item\<lparr>replies := map (\<lambda>r. if reply_id r \<noteq> i then r else f r) (replies item)\<rparr>))"

definition updateReply :: "nat \<Rightarrow> js_text \<Rightarrow> js_text \<Rightarrow> js_text \<Rightarrow> js_text \<Rightarrow> review_db \<Rightarrow> review_db \<times> (review_error + unit)" where
  "updateReply now d i r body db =
     (case checkedMessage body of
        None \<Rightarrow> (db, Inl Bad_Message)
      | Some t \<Rightarrow> mutateLocalComment d i (map_reply r (\<lambda>x. x\<lparr>reply_body := t, reply_edited := Some now, reply_deleted := False\<rparr>)) db)"

definition deleteReply :: "js_text \<Rightarrow> js_text \<Rightarrow> js_text \<Rightarrow> review_db \<Rightarrow> review_db \<times> (review_error + unit)" where
  "deleteReply d i r db = mutateLocalComment d i (map_reply r (\<lambda>x. x\<lparr>reply_body := [], reply_deleted := True\<rparr>)) db"

section \<open>Versions\<close>

definition createVersion :: "js_text \<Rightarrow> nat \<Rightarrow> js_text \<Rightarrow> js_text \<Rightarrow> js_text \<Rightarrow> js_text \<Rightarrow> review_db \<Rightarrow> review_db \<times> (review_error + document_version)" where
  "createVersion uuid now d author label markdown db =
     (let versionLabel = js_trim label;
          storedBytes = length (encode_text markdown);
          v = \<lparr>version_id = js ''version-'' @ uuid, version_document = d, version_label = versionLabel, version_author = author,
               version_created = now, version_chars = length markdown, version_markdown = markdown\<rparr>;
          meta = (case metas db d of None \<Rightarrow> \<lparr>version_count = 0, version_bytes = 0\<rparr> | Some m \<Rightarrow> m)
      in if versionLabel = [] \<or> length (encode_text versionLabel) > 160 then (db, Inl Bad_Label)
         else if version_count meta \<ge> MAX_LOCAL_VERSIONS \<or> version_bytes meta + storedBytes > MAX_LOCAL_VERSION_BYTES then (db, Inl Version_Limit)
         else if version_id v \<in> version_key ` set (versions db) then (db, Inl Key_Exists)
         else (db\<lparr>versions := versions db @ [\<lparr>version = v, stored_bytes = storedBytes\<rparr>],
                  metas := (metas db)(d \<mapsto> \<lparr>version_count = version_count meta + 1, version_bytes = version_bytes meta + storedBytes\<rparr>)\<rparr>, Inr v))"

definition getVersion :: "js_text \<Rightarrow> js_text \<Rightarrow> review_db \<Rightarrow> document_version option" where
  "getVersion d i db =
     (case store_get version_key i (versions db) of
        None \<Rightarrow> None
      | Some r \<Rightarrow> if version_doc r = d then Some (version r) else None)"

definition deleteVersion :: "js_text \<Rightarrow> js_text \<Rightarrow> review_db \<Rightarrow> review_db \<times> (review_error + unit)" where
  "deleteVersion d i db =
     (case store_get version_key i (versions db) of
        None \<Rightarrow> (db, Inr ())
      | Some r \<Rightarrow>
          if version_doc r \<noteq> d then (db, Inr ())
          else
            let meta = metas db d;
                n = (case meta of None \<Rightarrow> 1 | Some m \<Rightarrow> version_count m);
                b = (case meta of None \<Rightarrow> stored_bytes r | Some m \<Rightarrow> version_bytes m)
            in (db\<lparr>versions := store_delete version_key i (versions db),
                   metas := (metas db)(d \<mapsto> \<lparr>version_count = n - 1, version_bytes = b - stored_bytes r\<rparr>)\<rparr>, Inr ()))"

text \<open>
  The records come in the order of their keys, and the sort that puts the newest first keeps the order of
  equal ones. \<open>localeCompare\<close> compares the collation keys of the host.
\<close>

definition listVersions :: "(js_text \<Rightarrow> 'k :: linorder) \<Rightarrow> nat \<Rightarrow> js_text \<Rightarrow> js_text \<Rightarrow> review_db \<Rightarrow> document_version list" where
  "listVersions collation now d currentText db =
     \<lparr>version_id = js ''current-'' @ d, version_document = d, version_label = js ''Current document'', version_author = js ''This browser'',
      version_created = now, version_chars = length currentText, version_markdown = currentText\<rparr>
     # map version (rev (sort_key (\<lambda>r. (version_created (version r), collation (version_key r))) (rev (get_all version_key version_doc d (versions db)))))"

definition purgeLocalReviewMetadata :: "js_text \<Rightarrow> review_db \<Rightarrow> review_db" where
  "purgeLocalReviewMetadata d db =
     db\<lparr>comments := filter (\<lambda>c. comment_document c \<noteq> d) (comments db),
        versions := filter (\<lambda>r. version_doc r \<noteq> d) (versions db),
        metas := (metas db)(d := None)\<rparr>"

section \<open>Pages of comments\<close>

abbreviation comment_order :: "review_comment \<Rightarrow> nat \<times> js_text" where
  "comment_order c \<equiv> (comment_created c, comment_id c)"

definition decimal :: "16 word \<Rightarrow> bool" where
  "decimal c \<longleftrightarrow> 48 \<le> c \<and> c \<le> 57"

definition parseLocalCommentCursor :: "js_text option \<Rightarrow> review_error + (nat \<times> js_text) option" where
  "parseLocalCommentCursor cursor =
     (case cursor of
        None \<Rightarrow> Inr None
      | Some s \<Rightarrow>
          if s = [] then Inr None
          else
            let rest = drop 6 s; ds = takeWhile decimal rest; i = drop (length ds + 1) rest; t = radix_value 10 ds
            in if take 6 s = js ''local:'' \<and> ds \<noteq> [] \<and> take 1 (drop (length ds) rest) = [58] \<and> opaque_id i \<and> t \<le> max_safe_nat
               then Inr (Some (t, i)) else Inl Bad_Cursor)"

definition comment_cursor :: "review_comment \<Rightarrow> js_text" where
  "comment_cursor c = js ''local:'' @ to_radix 10 (comment_created c) @ [58] @ comment_id c"

text \<open>The index from its end: the comments of the document below the cursor, the newest first.\<close>

definition comments_below :: "js_text \<Rightarrow> (nat \<times> js_text) option \<Rightarrow> review_db \<Rightarrow> review_comment list" where
  "comments_below d upper db =
     rev (sort_key comment_order
       (filter (\<lambda>c. comment_document c = d \<and> (case upper of None \<Rightarrow> comment_order c \<le> (max_safe_nat, [0xFFFF]) | Some k \<Rightarrow> comment_order c < k))
         (comments db)))"

definition listLocalComments :: "js_text \<Rightarrow> js_text option \<Rightarrow> review_db \<Rightarrow> review_error + (review_comment list \<times> js_text option)" where
  "listLocalComments d cursor db =
     (case parseLocalCommentCursor cursor of
        Inl e \<Rightarrow> Inl e
      | Inr parsed \<Rightarrow>
          let collected = take (LOCAL_COMMENT_PAGE_SIZE + 1) (comments_below d parsed db);
              hasMore = length collected > LOCAL_COMMENT_PAGE_SIZE;
              cs = (if hasMore then take LOCAL_COMMENT_PAGE_SIZE collected else collected)
          in Inr (cs, if hasMore \<and> cs \<noteq> [] then Some (comment_cursor (last cs)) else None))"

section \<open>The database stays in order\<close>

text \<open>A message is what \<open>checkedMessage\<close> lets through, and empty once it is deleted.\<close>

definition message_ok :: "js_text \<Rightarrow> bool \<Rightarrow> bool" where
  "message_ok body deleted \<longleftrightarrow> (if deleted then body = [] else checkedMessage body = Some body)"

definition comment_ok :: "review_comment \<Rightarrow> bool" where
  "comment_ok c \<longleftrightarrow> message_ok (comment_body c) (comment_deleted c) \<and> length (replies c) \<le> MAX_LOCAL_REPLIES
     \<and> (\<forall>r \<in> set (replies c). message_ok (reply_body r) (reply_deleted r))"

definition meta_ok :: "stored_version list \<Rightarrow> review_meta option \<Rightarrow> bool" where
  "meta_ok rs meta \<longleftrightarrow>
     (case meta of None \<Rightarrow> rs = [] | Some m \<Rightarrow> version_count m = length rs \<and> version_bytes m = sum_list (map stored_bytes rs))
     \<and> length rs \<le> MAX_LOCAL_VERSIONS \<and> sum_list (map stored_bytes rs) \<le> MAX_LOCAL_VERSION_BYTES"

definition review_ok :: "review_db \<Rightarrow> bool" where
  "review_ok db \<longleftrightarrow>
     distinct (map comment_id (comments db)) \<and> distinct (map version_key (versions db))
     \<and> (\<forall>c \<in> set (comments db). comment_ok c)
     \<and> (\<forall>d. length (of_document comment_document d (comments db)) \<le> MAX_LOCAL_COMMENTS)
     \<and> (\<forall>r \<in> set (versions db). stored_bytes r = length (encode_text (version_markdown (version r))))
     \<and> (\<forall>d. meta_ok (of_document version_doc d (versions db)) (metas db d))"

lemma message_ok_deleted [simp]: "message_ok [] True"
  by (simp add: message_ok_def)

lemma checkedMessage_idem: "checkedMessage s = Some t \<Longrightarrow> checkedMessage t = Some t"
  by (auto simp: checkedMessage_def Let_def split: if_splits)

lemma mutate_ok:
  assumes "review_ok db"
    and "\<And>c c'. comment_ok c \<Longrightarrow> mutate c = Inr c' \<Longrightarrow> comment_ok c' \<and> comment_id c' = comment_id c \<and> comment_document c' = comment_document c"
  shows "review_ok (fst (mutateLocalComment d i mutate db))"
proof (cases "fst (mutateLocalComment d i mutate db) = db")
  case False
  obtain c where c: "store_get comment_id i (comments db) = Some c" "comment_document c = d"
    using False by (cases "store_get comment_id i (comments db)") (auto simp: mutateLocalComment_def split: if_splits)
  obtain c' where m: "mutate c = Inr c'" using False c by (cases "mutate c") (simp_all add: mutateLocalComment_def)
  have db': "fst (mutateLocalComment d i mutate db) = db\<lparr>comments := store_put comment_id c' (comments db)\<rparr>"
    using c m by (simp add: mutateLocalComment_def)
  have mem: "c \<in> set (comments db)" using store_get_Some [OF c(1)] by simp
  have dist: "distinct (map comment_id (comments db))" using assms(1) by (simp add: review_ok_def)
  have c': "comment_ok c'" "comment_id c' = comment_id c" "comment_document c' = comment_document c"
    using assms(2) [OF _ m] assms(1) mem by (auto simp: review_ok_def)
  have ids: "map comment_id (store_put comment_id c' (comments db)) = map comment_id (comments db)"
    by (rule store_put_map [OF dist mem c'(2) c'(2)])
  have docs: "map comment_document (store_put comment_id c' (comments db)) = map comment_document (comments db)"
    by (rule store_put_map [OF dist mem c'(2) c'(3)])
  have "length (of_document comment_document e (store_put comment_id c' (comments db))) = length (of_document comment_document e (comments db))" for e
    using arg_cong [OF docs, of "\<lambda>ds. length (filter (\<lambda>x. x = e) ds)"] by (simp add: filter_map comp_def)
  then show ?thesis unfolding db' using assms(1) ids c'(1) by (auto simp: review_ok_def dest: store_put_mem)
qed (use assms(1) in simp)

datatype review_op =
  Add_Comment js_text nat js_text js_text js_text anchor_range
| Update_Comment nat js_text js_text "bool option" "js_text option"
| Delete_Comment js_text js_text
| Add_Reply js_text nat js_text js_text js_text js_text
| Update_Reply nat js_text js_text js_text js_text
| Delete_Reply js_text js_text js_text
| Create_Version js_text nat js_text js_text js_text js_text
| Delete_Version js_text js_text
| Purge js_text

fun review_step :: "review_db \<Rightarrow> review_op \<Rightarrow> review_db" where
  "review_step db (Add_Comment uuid now d author body r) = fst (addComment uuid now d author body r db)"
| "review_step db (Update_Comment now d i res body) = fst (updateComment now d i res body db)"
| "review_step db (Delete_Comment d i) = fst (deleteComment d i db)"
| "review_step db (Add_Reply uuid now d i author body) = fst (addReply uuid now d i author body db)"
| "review_step db (Update_Reply now d i r body) = fst (updateReply now d i r body db)"
| "review_step db (Delete_Reply d i r) = fst (deleteReply d i r db)"
| "review_step db (Create_Version uuid now d author label markdown) = fst (createVersion uuid now d author label markdown db)"
| "review_step db (Delete_Version d i) = fst (deleteVersion d i db)"
| "review_step db (Purge d) = purgeLocalReviewMetadata d db"

definition empty_review :: review_db where
  "empty_review = \<lparr>comments = [], versions = [], metas = Map.empty\<rparr>"

lemma addComment_ok: "review_ok db \<Longrightarrow> review_ok (fst (addComment uuid now d author body r db))"
proof -
  assume ok: "review_ok db"
  show ?thesis
  proof (cases "fst (addComment uuid now d author body r db) = db")
    case False
    then obtain t where t: "checkedMessage body = Some t" "length (of_document comment_document d (comments db)) < MAX_LOCAL_COMMENTS"
        "comment_id (new_comment uuid now d author t r) \<notin> comment_id ` set (comments db)"
        "fst (addComment uuid now d author body r db) = db\<lparr>comments := comments db @ [new_comment uuid now d author t r]\<rparr>"
      by (auto simp: addComment_def Let_def split: option.splits if_splits)
    have "comment_ok (new_comment uuid now d author t r)" "comment_document (new_comment uuid now d author t r) = d"
      using checkedMessage_idem [OF t(1)] by (simp_all add: comment_ok_def message_ok_def new_comment_def)
    then show ?thesis using ok t(2,3) unfolding t(4) by (auto simp: review_ok_def)
  qed (use ok in simp)
qed

lemma createVersion_ok: "review_ok db \<Longrightarrow> review_ok (fst (createVersion uuid now d author label markdown db))"
proof -
  assume ok: "review_ok db"
  let ?meta = "case metas db d of None \<Rightarrow> \<lparr>version_count = 0, version_bytes = 0\<rparr> | Some m \<Rightarrow> m"
  let ?v = "\<lparr>version_id = js ''version-'' @ uuid, version_document = d, version_label = js_trim label, version_author = author,
               version_created = now, version_chars = length markdown, version_markdown = markdown\<rparr>"
  let ?b = "length (encode_text markdown)"
  show ?thesis
  proof (cases "fst (createVersion uuid now d author label markdown db) = db")
    case False
    then have c: "version_count ?meta < MAX_LOCAL_VERSIONS" "version_bytes ?meta + ?b \<le> MAX_LOCAL_VERSION_BYTES"
        "version_id ?v \<notin> version_key ` set (versions db)"
      and db': "fst (createVersion uuid now d author label markdown db) = db\<lparr>versions := versions db @ [\<lparr>version = ?v, stored_bytes = ?b\<rparr>],
           metas := (metas db)(d \<mapsto> \<lparr>version_count = version_count ?meta + 1, version_bytes = version_bytes ?meta + ?b\<rparr>)\<rparr>"
      by (auto simp: createVersion_def Let_def simp del: js_simps split: if_splits)
    have m: "meta_ok (of_document version_doc d (versions db)) (metas db d)" using ok by (simp add: review_ok_def)
    then have "version_count ?meta = length (of_document version_doc d (versions db))"
        "version_bytes ?meta = sum_list (map stored_bytes (of_document version_doc d (versions db)))"
      by (cases "metas db d"; simp add: meta_ok_def)+
    then have "meta_ok (of_document version_doc d (versions db) @ [\<lparr>version = ?v, stored_bytes = ?b\<rparr>])
        (Some \<lparr>version_count = version_count ?meta + 1, version_bytes = version_bytes ?meta + ?b\<rparr>)"
      using c(1,2) by (simp add: meta_ok_def)
    then show ?thesis unfolding db' using ok c(3) by (auto simp: review_ok_def)
  qed (use ok in simp)
qed

lemma deleteVersion_ok: "review_ok db \<Longrightarrow> review_ok (fst (deleteVersion d i db))"
proof -
  assume ok: "review_ok db"
  show ?thesis
  proof (cases "fst (deleteVersion d i db) = db")
    case False
    let ?meta = "metas db d"
    obtain r where r: "store_get version_key i (versions db) = Some r" "version_doc r = d"
      using False by (auto simp: deleteVersion_def split: option.splits if_splits)
    let ?n = "case ?meta of None \<Rightarrow> 1 | Some m \<Rightarrow> version_count m" and ?b = "case ?meta of None \<Rightarrow> stored_bytes r | Some m \<Rightarrow> version_bytes m"
    have db': "fst (deleteVersion d i db) = db\<lparr>versions := store_delete version_key i (versions db),
           metas := (metas db)(d \<mapsto> \<lparr>version_count = ?n - 1, version_bytes = ?b - stored_bytes r\<rparr>)\<rparr>"
      using r by (simp add: deleteVersion_def Let_def)
    have mem: "r \<in> set (versions db)" and key: "i = version_key r" using store_get_Some [OF r(1)] by auto
    have dist: "distinct (map version_key (versions db))" using ok by (simp add: review_ok_def)
    have m: "meta_ok (of_document version_doc d (versions db)) ?meta" using ok by (simp add: review_ok_def)
    have "of_document version_doc d (versions db) \<noteq> []" using mem r(2) by (auto simp: filter_empty_conv)
    then have sums: "?n = length (of_document version_doc d (versions db))" "?b = sum_list (map stored_bytes (of_document version_doc d (versions db)))"
      using m by (auto simp: meta_ok_def split: option.splits)
    let ?P = "\<lambda>x. version_doc x = d"
    have "sum_list (map (\<lambda>_. 1) (filter ?P (versions db))) = 1 + sum_list (map (\<lambda>_. 1 :: nat) (filter ?P (store_delete version_key i (versions db))))"
      unfolding key by (rule delete_sum [OF dist mem]) (rule r(2))
    then have n: "length (filter ?P (versions db)) = 1 + length (filter ?P (store_delete version_key i (versions db)))"
      by (simp add: sum_list_triv)
    have b: "sum_list (map stored_bytes (filter ?P (versions db))) = stored_bytes r + sum_list (map stored_bytes (filter ?P (store_delete version_key i (versions db))))"
      unfolding key by (rule delete_sum [OF dist mem]) (rule r(2))
    have "meta_ok (filter ?P (store_delete version_key i (versions db))) (Some \<lparr>version_count = ?n - 1, version_bytes = ?b - stored_bytes r\<rparr>)"
      using m n b unfolding sums by (simp add: meta_ok_def)
    moreover have "filter (\<lambda>x. version_doc x = e) (store_delete version_key i (versions db)) = filter (\<lambda>x. version_doc x = e) (versions db)" if "e \<noteq> d" for e
      unfolding key using that r(2) by (intro delete_other [OF _ dist mem]) simp
    moreover have "distinct (map version_key (store_delete version_key i (versions db)))"
      using dist by (simp add: store_delete_def distinct_map_filter)
    ultimately show ?thesis unfolding db' using ok by (auto simp: review_ok_def store_delete_def)
  qed (use ok in simp)
qed

lemma purge_ok: "review_ok db \<Longrightarrow> review_ok (purgeLocalReviewMetadata d db)"
proof -
  assume ok: "review_ok db"
  have f: "filter (\<lambda>x. g x = e) (filter (\<lambda>x. g x \<noteq> d) xs) = (if e = d then [] else filter (\<lambda>x. g x = e) xs)" for g :: "'a \<Rightarrow> js_text" and e xs
    by (auto simp: filter_empty_conv intro: filter_cong)
  have "meta_ok [] None" by (simp add: meta_ok_def)
  then show ?thesis using ok by (simp add: review_ok_def purgeLocalReviewMetadata_def f distinct_map_filter del: filter_filter)
qed

lemma message_ok_checked: "checkedMessage s = Some t \<Longrightarrow> message_ok t False"
  by (simp add: message_ok_def checkedMessage_idem)

lemma map_reply_ok:
  "comment_ok c \<Longrightarrow> (\<And>r. message_ok (reply_body (f r)) (reply_deleted (f r))) \<Longrightarrow> map_reply i f c = Inr c' \<Longrightarrow>
     comment_ok c' \<and> comment_id c' = comment_id c \<and> comment_document c' = comment_document c"
  by (auto simp: map_reply_def comment_ok_def split: if_splits)

lemma review_step_ok: "review_ok db \<Longrightarrow> review_ok (review_step db e)"
proof (induction db e rule: review_step.induct)
  case (2 db now d i res body)
  show ?case
  proof (cases "fst (updateComment now d i res body db) = db")
    case False
    then obtain t where t: "t = None \<or> (\<exists>b. t = Some b \<and> message_ok b False)"
        "fst (updateComment now d i res body db) = fst (mutateLocalComment d i (\<lambda>item. Inr (updated_comment now res t item)) db)"
      by (cases body) (auto simp: updateComment_def dest: message_ok_checked split: option.splits if_splits)
    show ?thesis
      unfolding review_step.simps t(2)
      by (rule mutate_ok [OF 2]) (use t(1) in \<open>auto simp: comment_ok_def updated_comment_def split: option.splits\<close>)
  qed (use 2 in simp)
next
  case (3 db d i)
  show ?case unfolding review_step.simps deleteComment_def by (rule mutate_ok [OF 3]) (auto simp: comment_ok_def)
next
  case (4 db uuid now d i author body)
  show ?case
  proof (cases "checkedMessage body")
    case (Some t)
    show ?thesis unfolding review_step.simps addReply_def Some option.case
      by (rule mutate_ok [OF 4]) (use message_ok_checked [OF Some] in \<open>auto simp: comment_ok_def split: if_splits\<close>)
  qed (use 4 in \<open>simp add: addReply_def\<close>)
next
  case (5 db now d i r body)
  show ?case
  proof (cases "checkedMessage body")
    case (Some t)
    show ?thesis unfolding review_step.simps updateReply_def Some option.case
      by (rule mutate_ok [OF 5], rule map_reply_ok) (use message_ok_checked [OF Some] in auto)
  qed (use 5 in \<open>simp add: updateReply_def\<close>)
next
  case (6 db d i r)
  show ?case unfolding review_step.simps deleteReply_def by (rule mutate_ok [OF 6], rule map_reply_ok) auto
qed (simp_all add: addComment_ok createVersion_ok deleteVersion_ok purge_ok)

interpretation review: event_machine "\<lambda>db. db = empty_review" review_step review_ok
  by unfold_locales (auto simp: review_step_ok, simp add: review_ok_def empty_review_def meta_ok_def)


section \<open>Review data of an older version\<close>

text \<open>
  Older versions of the client kept the review data in the local storage of the browser. A comment
  read from there may lack any field the first version did not have; \<open>null\<close> and a missing field are
  both \<open>None\<close>.
\<close>

record partial_reply =
  p_reply_id :: js_text
  p_reply_author :: js_text
  p_reply_own :: "bool option"
  p_reply_body :: js_text
  p_reply_created :: nat
  p_reply_edited :: "nat option"
  p_reply_deleted :: "bool option"

record partial_comment =
  p_id :: js_text
  p_document :: js_text
  p_author :: js_text
  p_own :: "bool option"
  p_body :: js_text
  p_created :: nat
  p_edited :: "nat option"
  p_deleted :: "bool option"
  p_resolved :: "bool option"
  p_start :: "js_text option"
  p_end :: "js_text option"
  p_quote :: "js_text option"
  p_from :: "nat option"
  p_to :: "nat option"
  p_replies :: "partial_reply list option"

definition or_else :: "'a option \<Rightarrow> 'a \<Rightarrow> 'a" where
  "or_else v d = (case v of None \<Rightarrow> d | Some x \<Rightarrow> x)"

definition normalize_reply :: "partial_reply \<Rightarrow> review_reply" where
  "normalize_reply r =
     \<lparr>reply_id = p_reply_id r, reply_author = p_reply_author r, reply_own = or_else (p_reply_own r) True, reply_body = p_reply_body r,
      reply_created = p_reply_created r, reply_edited = p_reply_edited r, reply_deleted = or_else (p_reply_deleted r) False\<rparr>"

definition normalizeComment :: "partial_comment \<Rightarrow> review_comment" where
  "normalizeComment c =
     \<lparr>comment_id = p_id c, comment_document = p_document c, comment_author = p_author c, comment_own = or_else (p_own c) True,
      comment_body = p_body c, comment_created = p_created c, comment_edited = p_edited c, comment_deleted = or_else (p_deleted c) False,
      resolved = or_else (p_resolved c) False, start_anchor = p_start c, end_anchor = p_end c, comment_quote = or_else (p_quote c) [],
      start_offset = or_else (p_from c) 0, end_offset = or_else (p_to c) 0,
      replies = map normalize_reply (or_else (p_replies c) [])\<rparr>"

text \<open>The three keys of the local storage; a version of which no text was kept has \<open>None\<close> beside it.\<close>

record legacy_storage =
  comments_v2 :: "partial_comment list"
  comments_v1 :: "partial_comment list"
  versions_v1 :: "(document_version \<times> js_text option) list"

fun migrate_version :: "document_version \<times> js_text option \<Rightarrow> stored_version list \<times> (js_text \<rightharpoonup> review_meta) \<Rightarrow> stored_version list \<times> (js_text \<rightharpoonup> review_meta)" where
  "migrate_version (v, None) (rs, metadata) = (rs, metadata)"
| "migrate_version (v, Some markdown) (rs, metadata) =
     (let b = length (encode_text markdown);
          meta = or_else (metadata (version_document v)) \<lparr>version_count = 0, version_bytes = 0\<rparr>
      in (store_put version_key \<lparr>version = v\<lparr>version_markdown := markdown\<rparr>, stored_bytes = b\<rparr> rs,
          metadata(version_document v \<mapsto> \<lparr>version_count = version_count meta + 1, version_bytes = version_bytes meta + b\<rparr>)))"

text \<open>The local storage may refuse to remove the keys, as some browsers do in private windows.\<close>

definition migrateLegacyReview :: "bool \<Rightarrow> legacy_storage \<times> review_db \<Rightarrow> legacy_storage \<times> review_db" where
  "migrateLegacyReview refused = (\<lambda>(old, db).
     let cs = map normalizeComment (if comments_v2 old \<noteq> [] then comments_v2 old else comments_v1 old)
     in if cs = [] \<and> versions_v1 old = [] then (old, db)
        else
          let (rs, metadata) = foldl (\<lambda>s v. migrate_version v s) (versions db, Map.empty) (versions_v1 old)
          in (if refused then old else \<lparr>comments_v2 = [], comments_v1 = [], versions_v1 = []\<rparr>,
              db\<lparr>comments := foldl (\<lambda>store c. store_put comment_id c store) (comments db) cs, versions := rs, metas := metas db ++ metadata\<rparr>))"

text \<open>Where the keys stay, the next page that opens the data migrates them again and brings back what was deleted in between.\<close>

definition sample_legacy :: legacy_storage where
  "sample_legacy = \<lparr>comments_v2 = [\<lparr>p_id = js ''c'', p_document = js ''d'', p_author = js ''me'', p_own = None, p_body = js ''x'', p_created = 1, p_edited = None,
      p_deleted = None, p_resolved = None, p_start = None, p_end = None, p_quote = None, p_from = None, p_to = None, p_replies = None\<rparr>],
     comments_v1 = [], versions_v1 = []\<rparr>"

lemma migration_repeats:
  "let (old, db) = migrateLegacyReview True (sample_legacy, empty_review);
       deleted = fst (deleteComment (js ''d'') (js ''c'') db);
       (old', again) = migrateLegacyReview True (old, deleted)
   in map comment_body (comments deleted) = [[]] \<and> map comment_deleted (comments deleted) = [True]
      \<and> map comment_body (comments again) = [js ''x''] \<and> map comment_deleted (comments again) = [False]"
  by (simp add: sample_legacy_def empty_review_def migrateLegacyReview_def deleteComment_def mutateLocalComment_def normalizeComment_def
      store_get_def store_put_def or_else_def)

text \<open>Otherwise a migration happens once.\<close>

lemma migration_once: "migrateLegacyReview refused (fst (migrateLegacyReview False s), db) = (fst (migrateLegacyReview False s), db)"
  by (cases s) (auto simp: migrateLegacyReview_def Let_def split: prod.splits)

section \<open>Every comment is on one page\<close>

text \<open>The pages a reader goes through, one cursor after the other.\<close>

fun read_pages :: "nat \<Rightarrow> js_text \<Rightarrow> js_text option \<Rightarrow> review_db \<Rightarrow> review_comment list list option" where
  "read_pages 0 d cursor db = None"
| "read_pages (Suc n) d cursor db =
     (case listLocalComments d cursor db of
        Inl e \<Rightarrow> None
      | Inr (cs, None) \<Rightarrow> Some [cs]
      | Inr (cs, Some next) \<Rightarrow> map_option ((#) cs) (read_pages n d (Some next) db))"

definition newest_first :: "js_text \<Rightarrow> review_db \<Rightarrow> review_comment list" where
  "newest_first d db = rev (sort_key comment_order (of_document comment_document d (comments db)))"

lemma decimal_to_radix: "c \<in> set (to_radix 10 n) \<Longrightarrow> decimal c"
proof (induction "10 :: nat" n rule: to_radix.induct)
  case (1 n)
  have "decimal (digit_unit k)" if "k < 10" for k
  proof -
    have "k \<in> {0, 1, 2, 3, 4, 5, 6, 7, 8, 9}" using that by auto
    then show ?thesis by (auto simp: decimal_def digit_unit_def)
  qed
  then show ?case using 1 by (subst (asm) (2) to_radix.simps) (auto split: if_splits)
qed

lemma to_radix_not_Nil [simp]: "to_radix r n \<noteq> []"
  by (subst to_radix.simps) simp

lemma parse_comment_cursor:
  assumes "opaque_id (comment_id c)" "comment_created c \<le> max_safe_nat"
  shows "parseLocalCommentCursor (Some (comment_cursor c)) = Inr (Some (comment_order c))"
proof -
  let ?ds = "to_radix 10 (comment_created c)"
  let ?rest = "?ds @ [58] @ comment_id c"
  have drop: "drop 6 (comment_cursor c) = ?rest" "take 6 (comment_cursor c) = js ''local:''" "comment_cursor c \<noteq> []"
    by (simp_all add: comment_cursor_def)
  have "takeWhile decimal ?rest = ?ds @ takeWhile decimal ([58] @ comment_id c)"
    by (rule takeWhile_append2) (rule decimal_to_radix)
  then have "takeWhile decimal ?rest = ?ds" by (simp add: decimal_def)
  moreover have "radix_value 10 ?ds = comment_created c" by (rule radix_value_to_radix) simp_all
  ultimately show ?thesis
    using assms drop unfolding parseLocalCommentCursor_def Let_def by (simp del: js_simps)
qed

lemma sorted_rev_filter:
  "rev (sort_key f (filter P xs)) = filter P (rev (sort_key f xs))"
  by (simp add: filter_sort flip: rev_filter)

lemma comments_below_newest:
  "comments_below d (Some k) db = filter (\<lambda>c. comment_order c < k) (newest_first d db)"
  unfolding comments_below_def newest_first_def sorted_rev_filter [symmetric] by (simp add: conj_commute)

lemma newest_first_sorted:
  assumes "distinct (map comment_id (comments db))"
  shows "sorted_wrt (\<lambda>a b. comment_order b < comment_order a) (newest_first d db)"
proof -
  let ?xs = "sort_key comment_order (of_document comment_document d (comments db))"
  have "distinct (map comment_id (of_document comment_document d (comments db)))" using assms by (rule distinct_map_filter)
  then have "inj_on comment_id (set ?xs)" "distinct ?xs" by (simp_all add: distinct_map)
  then have "distinct (map comment_order ?xs)" by (auto simp: distinct_map inj_on_def)
  moreover have "sorted (map comment_order ?xs)" by (rule sorted_sort_key)
  ultimately have "sorted_wrt (<) (map comment_order ?xs)" by (simp add: strict_sorted_iff)
  then show ?thesis by (simp add: newest_first_def sorted_wrt_rev sorted_wrt_map)
qed

lemma below_split:
  assumes "sorted_wrt (\<lambda>a b. comment_order b < comment_order a) (xs @ c # ys)"
  shows "filter (\<lambda>x. comment_order x < comment_order c) (xs @ c # ys) = ys"
proof -
  have "\<not> comment_order x < comment_order c" if "x \<in> set xs" for x
    using assms that by (fastforce simp: sorted_wrt_append dest: less_not_sym)
  moreover have "comment_order y < comment_order c" if "y \<in> set ys" for y
    using assms that by (simp add: sorted_wrt_append)
  ultimately show ?thesis by simp
qed

lemma comments_below_top:
  assumes "\<forall>c \<in> set (newest_first d db). opaque_id (comment_id c) \<and> comment_created c \<le> max_safe_nat"
  shows "comments_below d None db = newest_first d db"
proof -
  have top: "comment_order c \<le> (max_safe_nat, [0xFFFF])" if "c \<in> set (newest_first d db)" for c
  proof -
    have o': "opaque_id (comment_id c)" "comment_created c \<le> max_safe_nat" using assms that by auto
    then obtain x xs where x: "comment_id c = x # xs" "opaque_unit x" by (cases "comment_id c") (auto simp: opaque_id_def)
    have "x < 0xFFFF" using opaque_ascii [OF x(2)] by (simp add: word_less_nat_alt)
    then have "comment_id c < [0xFFFF]" unfolding x(1) by simp
    then show ?thesis using o'(2) by (auto simp: less_eq_prod_def less_imp_le)
  qed
  have "filter (\<lambda>c. comment_order c \<le> (max_safe_nat, [0xFFFF])) (newest_first d db) = newest_first d db"
    using top by (intro filter_True) blast
  moreover have "comments_below d None db = filter (\<lambda>c. comment_order c \<le> (max_safe_nat, [0xFFFF])) (newest_first d db)"
    unfolding comments_below_def newest_first_def sorted_rev_filter [symmetric] by (simp add: conj_commute)
  ultimately show ?thesis by simp
qed

lemma read_pages_from:
  assumes sorted: "sorted_wrt (\<lambda>a b. comment_order b < comment_order a) (newest_first d db)"
    and keys: "\<forall>c \<in> set (newest_first d db). opaque_id (comment_id c) \<and> comment_created c \<le> max_safe_nat"
  shows "parseLocalCommentCursor cursor = Inr upper \<Longrightarrow> newest_first d db = before @ comments_below d upper db \<Longrightarrow> length (comments_below d upper db) < n \<Longrightarrow>
    \<exists>pages. read_pages n d cursor db = Some pages \<and> pages \<noteq> [] \<and> concat pages = comments_below d upper db
      \<and> (\<forall>p \<in> set (butlast pages). length p = LOCAL_COMMENT_PAGE_SIZE) \<and> length (last pages) \<le> LOCAL_COMMENT_PAGE_SIZE"
proof (induction n arbitrary: cursor upper before)
  case (Suc n)
  let ?B = "comments_below d upper db" and ?page = "LOCAL_COMMENT_PAGE_SIZE"
  show ?case
  proof (cases "length ?B \<le> ?page")
    case True
    then have "listLocalComments d cursor db = Inr (?B, None)"
      using Suc.prems(1) by (simp add: listLocalComments_def Let_def)
    then show ?thesis using True by simp
  next
    case False
    let ?c = "last (take ?page ?B)" and ?rest = "drop ?page ?B"
    have pos: "0 < ?page" by (simp add: LOCAL_COMMENT_PAGE_SIZE_def)
    have ne: "take ?page ?B \<noteq> []" using False pos by auto
    have list: "listLocalComments d cursor db = Inr (take ?page ?B, Some (comment_cursor ?c))"
      using Suc.prems(1) False ne by (simp add: listLocalComments_def Let_def min_def take_take)
    have split: "newest_first d db = (before @ butlast (take ?page ?B)) @ ?c # ?rest"
      using Suc.prems(2) ne by (metis append.assoc append_Cons append_Nil append_butlast_last_id append_take_drop_id)
    then have mem: "?c \<in> set (newest_first d db)" by (metis in_set_conv_decomp)
    have parse: "parseLocalCommentCursor (Some (comment_cursor ?c)) = Inr (Some (comment_order ?c))"
      using keys mem by (intro parse_comment_cursor) auto
    have below: "comments_below d (Some (comment_order ?c)) db = ?rest"
    proof -
      have "comments_below d (Some (comment_order ?c)) db = filter (\<lambda>x. comment_order x < comment_order ?c) (newest_first d db)"
        by (rule comments_below_newest)
      also have "\<dots> = filter (\<lambda>x. comment_order x < comment_order ?c) ((before @ butlast (take ?page ?B)) @ ?c # ?rest)"
        using split by (rule arg_cong)
      also have "\<dots> = ?rest" by (rule below_split [OF sorted [unfolded split]])
      finally show ?thesis .
    qed
    have "\<exists>pages. read_pages n d (Some (comment_cursor ?c)) db = Some pages \<and> pages \<noteq> [] \<and> concat pages = ?rest
        \<and> (\<forall>p \<in> set (butlast pages). length p = ?page) \<and> length (last pages) \<le> ?page"
      using Suc.IH [OF parse, of "before @ take ?page ?B"] Suc.prems(2,3) False pos unfolding below by simp
    then obtain pages where p: "read_pages n d (Some (comment_cursor ?c)) db = Some pages" "pages \<noteq> []" "concat pages = ?rest"
        "\<forall>p \<in> set (butlast pages). length p = ?page" "length (last pages) \<le> ?page" by blast
    have "read_pages (Suc n) d cursor db = Some (take ?page ?B # pages)" using list p(1) by simp
    moreover have "concat (take ?page ?B # pages) = ?B" using p(3) by simp
    moreover have "\<forall>q \<in> set (butlast (take ?page ?B # pages)). length q = ?page" using p(2,4) False by auto
    moreover have "length (last (take ?page ?B # pages)) \<le> ?page" using p(2,5) by simp
    ultimately show ?thesis by blast
  qed
qed simp

text \<open>
  C23. A reader that follows the cursors sees every comment of the document once, the newest first, and
  comes to an end: whatever the number of comments, each page but the last is full, and the pages
  together are the comments in the order of their time and identifier.
\<close>

theorem comment_pages_exact:
  assumes "review_ok db"
    and "\<forall>c \<in> set (comments db). comment_document c = d \<longrightarrow> opaque_id (comment_id c) \<and> comment_created c \<le> max_safe_nat"
  shows "\<exists>pages. read_pages (length (comments db) + 1) d None db = Some pages
    \<and> mset (concat pages) = mset (of_document comment_document d (comments db))
    \<and> sorted_wrt (\<lambda>a b. comment_order b < comment_order a) (concat pages)
    \<and> (\<forall>p \<in> set (butlast pages). length p = LOCAL_COMMENT_PAGE_SIZE) \<and> length (last pages) \<le> LOCAL_COMMENT_PAGE_SIZE"
proof -
  have sorted: "sorted_wrt (\<lambda>a b. comment_order b < comment_order a) (newest_first d db)"
    using assms(1) by (intro newest_first_sorted) (simp add: review_ok_def)
  have keys: "\<forall>c \<in> set (newest_first d db). opaque_id (comment_id c) \<and> comment_created c \<le> max_safe_nat"
    using assms(2) by (auto simp: newest_first_def)
  have top: "comments_below d None db = newest_first d db" by (rule comments_below_top [OF keys])
  have len: "length (newest_first d db) < length (comments db) + 1" by (simp add: newest_first_def le_imp_less_Suc)
  have parse: "parseLocalCommentCursor None = Inr None" by (simp add: parseLocalCommentCursor_def)
  have "mset (newest_first d db) = mset (of_document comment_document d (comments db))"
    by (simp add: newest_first_def)
  then show ?thesis
    using read_pages_from [OF sorted keys parse, of "[]" "length (comments db) + 1"] len sorted unfolding top by fastforce
qed

lemma comment_pages_exact_witness:
  "\<exists>pages. read_pages 2 (js ''d'') None (fst (addComment (js ''0'') 7 (js ''d'') (js ''me'') (js ''hello'') \<lparr>anchor_start = [1], anchor_end = [2], anchor_quote = [], anchor_from = 0, anchor_to = 1\<rparr> empty_review)) = Some pages
     \<and> length (concat pages) = 1"
proof -
  let ?r = "\<lparr>anchor_start = [1], anchor_end = [2], anchor_quote = [], anchor_from = 0, anchor_to = 1\<rparr>"
  let ?db = "fst (addComment (js ''0'') 7 (js ''d'') (js ''me'') (js ''hello'') ?r empty_review)"
  have ok: "review_ok ?db" 
    using review.reachable_inv [OF refl, of "[Add_Comment (js ''0'') 7 (js ''d'') (js ''me'') (js ''hello'') ?r]"] by simp
  have "js_trim (js ''hello'') = js ''hello''" by code_simp
  then have "checkedMessage (js ''hello'') = Some (js ''hello'')"
    using length_utf8_le [of "js ''hello''"] by (simp add: checkedMessage_def Let_def)
  then have cs: "comments ?db = [new_comment (js ''0'') 7 (js ''d'') (js ''me'') (js ''hello'') ?r]"
    by (simp add: addComment_def empty_review_def MAX_LOCAL_COMMENTS_def Let_def del: js_simps)
  have "opaque_id (js ''comment-0'')" by code_simp
  then have "\<forall>c \<in> set (comments ?db). comment_document c = js ''d'' \<longrightarrow> opaque_id (comment_id c) \<and> comment_created c \<le> max_safe_nat"
    unfolding cs by (simp add: new_comment_def)
  from comment_pages_exact [OF ok this] obtain pages where
    p: "read_pages (length (comments ?db) + 1) (js ''d'') None ?db = Some pages"
    "mset (concat pages) = mset (of_document comment_document (js ''d'') (comments ?db))" by blast
  have "length (of_document comment_document (js ''d'') (comments ?db)) = 1" unfolding cs by (simp add: new_comment_def)
  with mset_eq_length [OF p(2)] have one: "length (concat pages) = 1" by (rule trans)
  have "length (comments ?db) + 1 = 2" unfolding cs by simp
  then have "read_pages 2 (js ''d'') None ?db = Some pages" using p(1) by (simp only:)
  with one show ?thesis by blast
qed

lemma encode_empty: "encodeBase64Url [] = []"
  by code_simp

text \<open>The anchors of a comment are the ones it was made with.\<close>

lemma review_range_roundtrip:
  "anchor_start r \<noteq> [] \<Longrightarrow> anchor_end r \<noteq> [] \<Longrightarrow> reviewRange (new_comment uuid now d author body r) = Some r"
proof -
  assume ne: "anchor_start r \<noteq> []" "anchor_end r \<noteq> []"
  have "encodeBase64Url v \<noteq> []" if "v \<noteq> []" for v
    using that decode_encodeBase64Url [of v] decode_encodeBase64Url [of "[]"] by (metis sum.inject(2) encode_empty)
  then show ?thesis using ne by (simp add: reviewRange_def new_comment_def decode_encodeBase64Url)
qed

end
