(* ===== verification/Counterfactuals.thy ===== *)
theory Counterfactuals
  imports Js_Text
begin

text \<open>
  Alternatives to the text of a document (\<open>client/src/wild/model.ts\<close>): the patch that takes a change back,
  a patch made by hand, applying a patch to a text that may have changed since, and the line and column
  of a place in the text.
\<close>

section \<open>Lines and columns\<close>

lemma index_of_bounds: "index_of needle s i = Some j \<Longrightarrow> i \<le> j \<and> j + length needle \<le> length s"
  using index_of_Some index_of_lt_length by blast

text \<open>The index of the first character of each line.\<close>

function starts_after :: "js_text \<Rightarrow> nat \<Rightarrow> nat list" where
  "starts_after text i = (case index_of [10] text i of None \<Rightarrow> [] | Some n \<Rightarrow> (n + 1) # starts_after text (n + 1))"
  by pat_completeness auto
termination
  by (relation "measure (\<lambda>(text, i). Suc (length text) - i)") (auto dest: index_of_bounds)

declare starts_after.simps [simp del]

definition sourceLineStarts :: "js_text \<Rightarrow> nat list" where
  "sourceLineStarts text = 0 # starts_after text 0"

text \<open>The last start that is not after the place, by bisection.\<close>

function bisect :: "nat list \<Rightarrow> nat \<Rightarrow> nat \<Rightarrow> nat \<Rightarrow> nat" where
  "bisect starts place low high =
     (if low < high then
        let middle = (low + high + 1) div 2
        in if starts ! middle \<le> place then bisect starts place middle high else bisect starts place low (middle - 1)
      else low)"
  by pat_completeness auto
termination by (relation "measure (\<lambda>(_, _, low, high). high - low)") (auto simp: Let_def)

declare bisect.simps [simp del]

record source_range =
  range_from :: nat
  range_to :: nat
  range_line :: nat
  range_column :: nat

definition rangeAt :: "nat list \<Rightarrow> nat \<Rightarrow> nat \<Rightarrow> source_range" where
  "rangeAt starts a b =
     (let low = bisect starts a 0 (length starts - 1)
      in \<lparr>range_from = a, range_to = b, range_line = low + 1, range_column = a - starts ! low + 1\<rparr>)"

section \<open>Patches\<close>

datatype patch_source = By_Human | By_Agent | By_Command

record counterfactual =
  patch_id :: js_text
  patch_document :: js_text
  patch_label :: js_text
  patch_note :: js_text
  patch_created :: int
  patch_updated :: int
  patch_source :: patch_source
  patch_command :: "js_text option"
  base_digest :: js_text
  patch_from :: nat
  expected :: js_text
  replacement :: js_text
  patch_prefix :: js_text
  patch_suffix :: js_text
  archived :: bool
  applied_at :: "int option"

definition CONTEXT_WINDOW :: nat where "CONTEXT_WINDOW = 80"
definition MAX_PATCH :: nat where "MAX_PATCH = 512 * 1024"

record source_delta =
  delta_from :: nat
  before_chars :: nat
  after_chars :: nat
  before_lines :: nat
  after_lines :: nat

definition lineCount :: "js_text \<Rightarrow> nat" where
  "lineCount s = (if s = [] then 0 else length (js_split 10 s))"

definition minimalSourceDelta :: "js_text \<Rightarrow> js_text \<Rightarrow> source_delta option" where
  "minimalSourceDelta before after =
     (if before = after then None
      else
        let a = common_prefix before after;
            suf = common_prefix (rev (drop a before)) (rev (drop a after));
            beforeSegment = js_slice a (length before - suf) before;
            afterSegment = js_slice a (length after - suf) after
        in Some \<lparr>delta_from = a, before_chars = length beforeSegment, after_chars = length afterSegment,
                 before_lines = lineCount beforeSegment, after_lines = lineCount afterSegment\<rparr>)"

text \<open>The digest of a text and the random part of an identifier are parameters.\<close>

definition reverseCounterfactual ::
    "(js_text \<Rightarrow> js_text) \<Rightarrow> js_text \<Rightarrow> js_text \<Rightarrow> js_text \<Rightarrow> js_text \<Rightarrow> patch_source \<Rightarrow> js_text \<Rightarrow> js_text \<Rightarrow> int \<Rightarrow> counterfactual option" where
  "reverseCounterfactual digest uuid d label command source before after now =
     (case minimalSourceDelta before after of
        None \<Rightarrow> None
      | Some delta \<Rightarrow>
          let suffixLength = length after - delta_from delta - after_chars delta;
              e = js_slice (delta_from delta) (delta_from delta + after_chars delta) after;
              r = js_slice (delta_from delta) (length before - suffixLength) before
          in if length e + length r > MAX_PATCH then None
             else Some \<lparr>patch_id = js ''counterfactual:'' @ uuid, patch_document = d, patch_label = take 160 label,
                        patch_note = js ''Automatically captured before a completed source-changing command.'',
                        patch_created = now, patch_updated = now, patch_source = source, patch_command = Some command,
                        base_digest = digest after, patch_from = delta_from delta, expected = e, replacement = r,
                        patch_prefix = js_slice (delta_from delta - CONTEXT_WINDOW) (delta_from delta) after,
                        patch_suffix = js_slice (delta_from delta + length e) (delta_from delta + length e + CONTEXT_WINDOW) after,
                        archived = False, applied_at = None\<rparr>)"

datatype patch_error = Bad_Range | Bad_Patch_Label | Same_Text | Patch_Too_Large | Stale_Patch | Stale_Insertion

definition createCounterfactual ::
    "(js_text \<Rightarrow> js_text) \<Rightarrow> js_text \<Rightarrow> js_text \<Rightarrow> js_text \<Rightarrow> js_text \<Rightarrow> js_text \<Rightarrow> nat \<Rightarrow> nat \<Rightarrow> js_text \<Rightarrow> int \<Rightarrow> patch_error + counterfactual" where
  "createCounterfactual digest uuid d label note current a b r now =
     (let e = js_slice a b current
      in if b < a \<or> b > length current then Inl Bad_Range
         else if js_trim label = [] \<or> length (js_trim label) > 160 then Inl Bad_Patch_Label
         else if e = r then Inl Same_Text
         else if length e + length r > MAX_PATCH then Inl Patch_Too_Large
         else Inr \<lparr>patch_id = js ''counterfactual:'' @ uuid, patch_document = d, patch_label = js_trim label, patch_note = take 1000 (js_trim note),
                   patch_created = now, patch_updated = now, patch_source = By_Human, patch_command = None, base_digest = digest current,
                   patch_from = a, expected = e, replacement = r, patch_prefix = js_slice (a - CONTEXT_WINDOW) a current,
                   patch_suffix = js_slice b (b + CONTEXT_WINDOW) current, archived = False, applied_at = None\<rparr>)"

section \<open>Applying a patch\<close>

definition uniqueIndex :: "js_text \<Rightarrow> js_text \<Rightarrow> nat option" where
  "uniqueIndex haystack needle =
     (case index_of needle haystack 0 of
        None \<Rightarrow> None
      | Some first \<Rightarrow> if index_of needle haystack (first + 1) \<noteq> None then None else Some first)"

definition anchored :: "js_text \<Rightarrow> counterfactual \<Rightarrow> nat \<Rightarrow> bool" where
  "anchored current p offset \<longleftrightarrow>
     (patch_prefix p = [] \<or> js_slice (offset - length (patch_prefix p)) offset current = patch_prefix p)
     \<and> (patch_suffix p = [] \<or> js_slice (offset + length (expected p)) (offset + length (expected p) + length (patch_suffix p)) current = patch_suffix p)"

text \<open>The occurrences of the expected text in its context, three at most.\<close>

function anchors_from :: "js_text \<Rightarrow> counterfactual \<Rightarrow> nat \<Rightarrow> nat \<Rightarrow> nat list" where
  "anchors_from current p start found =
     (if found \<ge> 3 then []
      else
        case index_of (expected p) current start of
          None \<Rightarrow> []
        | Some offset \<Rightarrow>
            let next = offset + max 1 (length (expected p))
            in if anchored current p offset then offset # anchors_from current p next (found + 1) else anchors_from current p next found)"
  by pat_completeness auto
termination
  by (relation "measure (\<lambda>(current, _, start, _). Suc (length current) - start)") (auto dest: index_of_bounds)

declare anchors_from.simps [simp del]

definition applyCounterfactual :: "js_text \<Rightarrow> counterfactual \<Rightarrow> patch_error + (js_text \<times> nat \<times> bool)" where
  "applyCounterfactual current p =
     (let exact = js_slice (patch_from p) (patch_from p + length (expected p)) current = expected p;
          place = (if exact then Inr (patch_from p)
                   else if expected p \<noteq> [] then
                     (case anchors_from current p 0 0 of [a] \<Rightarrow> Inr a | _ \<Rightarrow> Inl Stale_Patch)
                   else
                     (case (if patch_prefix p @ patch_suffix p \<noteq> [] then uniqueIndex current (patch_prefix p @ patch_suffix p) else None) of
                        None \<Rightarrow> Inl Stale_Insertion
                      | Some a \<Rightarrow> Inr (a + length (patch_prefix p))))
      in case place of
           Inl e \<Rightarrow> Inl e
         | Inr a \<Rightarrow> Inr (take a current @ replacement p @ drop (a + length (expected p)) current, a, a \<noteq> patch_from p))"

section \<open>A patch takes its change back\<close>

lemma delta_parts:
  assumes "minimalSourceDelta before after = Some delta"
  shows "\<exists>p m n s. before = p @ m @ s \<and> after = p @ n @ s \<and> delta_from delta = length p \<and> before_chars delta = length m \<and> after_chars delta = length n"
proof -
  let ?a = "common_prefix before after"
  let ?suf = "common_prefix (rev (drop ?a before)) (rev (drop ?a after))"
  have d: "delta_from delta = ?a" "before_chars delta = length (js_slice ?a (length before - ?suf) before)"
      "after_chars delta = length (js_slice ?a (length after - ?suf) after)"
    using assms by (auto simp: minimalSourceDelta_def Let_def split: if_splits)
  have le: "?a \<le> length before" "?a \<le> length after" "?suf \<le> length before - ?a" "?suf \<le> length after - ?a"
    using common_prefix_le [of before after] common_prefix_le [of "rev (drop ?a before)" "rev (drop ?a after)"] by simp_all
  have "rev (take ?suf (rev (drop ?a before))) = drop (length before - ?suf) before" "rev (take ?suf (rev (drop ?a after))) = drop (length after - ?suf) after"
    using le by (simp_all add: rev_take)
  then have tail: "drop (length before - ?suf) before = drop (length after - ?suf) after"
    using take_common_prefix [of "rev (drop ?a before)" "rev (drop ?a after)"] by simp
  have b: "before = take ?a before @ js_slice ?a (length before - ?suf) before @ drop (length before - ?suf) before"
    using le by (intro take_js_slice_drop [symmetric]) simp
  have a: "after = take ?a before @ js_slice ?a (length after - ?suf) after @ drop (length before - ?suf) before"
    unfolding tail take_common_prefix using le by (intro take_js_slice_drop [symmetric]) simp
  have "delta_from delta = length (take ?a before)" using d(1) le(1) by simp
  then show ?thesis using b a d(2,3) by blast
qed

text \<open>
  C37. The patch that is kept before a command takes the change back: applied to the text the command
  left, it is found at its place and gives the text before, unless the change is larger than what
  is kept; and no patch is made only where nothing changed or too much did.
\<close>

theorem counterfactual_takes_back:
  "case reverseCounterfactual digest uuid d label command source before after now of
     Some p \<Rightarrow> applyCounterfactual after p = Inr (before, patch_from p, False) \<and> length (expected p) + length (replacement p) \<le> MAX_PATCH
   | None \<Rightarrow> before = after \<or> (\<exists>p m n s. before = p @ m @ s \<and> after = p @ n @ s \<and> MAX_PATCH < length m + length n)"
proof (cases "minimalSourceDelta before after")
  case None
  then have "before = after" by (simp add: minimalSourceDelta_def Let_def split: if_splits)
  then show ?thesis using None by (simp add: reverseCounterfactual_def)
next
  case (Some delta)
  then obtain p m n s where parts: "before = p @ m @ s" "after = p @ n @ s" "delta_from delta = length p" "after_chars delta = length n"
    using delta_parts by blast
  have slices: "js_slice (length p) (length p + length n) after = n" "js_slice (length p) (length before - length s) before = m"
    using parts js_slice_append_middle [of p m s] js_slice_append_middle [of p n s] by simp_all
  have suffix: "length after - delta_from delta - after_chars delta = length s" using parts by simp
  show ?thesis
  proof (cases "length n + length m > MAX_PATCH")
    case True
    then have "reverseCounterfactual digest uuid d label command source before after now = None"
      using Some parts(3,4) suffix slices by (simp add: reverseCounterfactual_def Let_def)
    then show ?thesis using True parts(1,2) by (auto simp: add.commute)
  next
    case False
    then obtain q where q: "reverseCounterfactual digest uuid d label command source before after now = Some q"
        "patch_from q = length p" "expected q = n" "replacement q = m"
      using Some parts(3,4) suffix slices by (simp add: reverseCounterfactual_def Let_def)
    have "applyCounterfactual after q = Inr (before, patch_from q, False)"
      using q(2-4) slices(1) parts(1,2) by (simp add: applyCounterfactual_def)
    then show ?thesis using q False by simp
  qed
qed

lemma created_counterfactual_applies:
  "createCounterfactual digest uuid d label note current a b r now = Inr p \<Longrightarrow>
     applyCounterfactual current p = Inr (take a current @ r @ drop b current, a, False)"
proof -
  assume c: "createCounterfactual digest uuid d label note current a b r now = Inr p"
  then have p: "a \<le> b" "b \<le> length current" "patch_from p = a" "expected p = js_slice a b current" "replacement p = r"
    by (auto simp: createCounterfactual_def Let_def simp del: js_simps split: if_splits)
  then have "a + length (expected p) = b" by (simp add: length_js_slice)
  then show ?thesis using p(3-5) by (simp add: applyCounterfactual_def)
qed

section \<open>A patch changes only what it expects\<close>

lemma anchors_from_mem:
  "a \<in> set (anchors_from current p start found) \<Longrightarrow> start \<le> a \<and> occurs_at (expected p) current a \<and> anchored current p a"
proof (induction current p start found rule: anchors_from.induct)
  case (1 current p start found)
  have "index_of (expected p) current start \<noteq> None \<and> \<not> 3 \<le> found"
  proof (rule ccontr)
    assume "\<not> ?thesis"
    then have "anchors_from current p start found = []" by (subst anchors_from.simps) auto
    then show False using "1.prems" by simp
  qed
  then obtain offset where o': "index_of (expected p) current start = Some offset" "\<not> 3 \<le> found" by blast
  note o'' = index_of_Some [OF o'(1)]
  have "a = offset \<and> anchored current p offset
      \<or> (\<exists>k. a \<in> set (anchors_from current p (offset + max 1 (length (expected p))) k) \<and> (k = found + 1 \<and> anchored current p offset \<or> k = found \<and> \<not> anchored current p offset))"
    using "1.prems" o' by (subst (asm) anchors_from.simps) (auto simp: Let_def split: if_splits)
  then show ?case
  proof (elim disjE exE conjE)
    assume "a = offset" "anchored current p offset"
    then show ?thesis using o'' by simp
  next
    fix k assume k: "a \<in> set (anchors_from current p (offset + max 1 (length (expected p))) k)" "k = found + 1" "anchored current p offset"
    then show ?thesis using "1.IH"(1) [OF o'(2,1) refl] o'' by auto
  next
    fix k assume k: "a \<in> set (anchors_from current p (offset + max 1 (length (expected p))) k)" "k = found" "\<not> anchored current p offset"
    then show ?thesis using "1.IH"(2) [OF o'(2,1) refl] o'' by auto
  qed
qed

text \<open>The search passes no occurrence that begins outside the ones before it, unless it has found three.\<close>

definition overlapped :: "js_text \<Rightarrow> js_text \<Rightarrow> nat \<Rightarrow> bool" where
  "overlapped needle s b \<longleftrightarrow> (\<exists>c < b. occurs_at needle s c \<and> b < c + length needle)"

lemma anchors_from_finds:
  "occurs_at (expected p) current b \<Longrightarrow> anchored current p b \<Longrightarrow> \<not> overlapped (expected p) current b \<Longrightarrow> start \<le> b \<Longrightarrow>
     b \<in> set (anchors_from current p start found) \<or> 3 \<le> found + length (anchors_from current p start found)"
proof (induction current p start found rule: anchors_from.induct)
  case (1 current p start found)
  show ?case
  proof (cases "3 \<le> found")
    case False
    have "index_of (expected p) current start \<noteq> None" using index_of_None "1.prems"(1,4) by blast
    then obtain offset where o': "index_of (expected p) current start = Some offset" by blast
    note o'' = index_of_Some [OF o']
    let ?next = "offset + max 1 (length (expected p))"
    have ob: "offset \<le> b" using o'' "1.prems"(1,4) by (meson not_le_imp_less)
    have eq: "anchors_from current p start found = (if anchored current p offset then offset # anchors_from current p ?next (found + 1) else anchors_from current p ?next found)"
      using o' False by (subst anchors_from.simps) (simp add: Let_def)
    show ?thesis
    proof (cases "offset = b")
      case True
      then show ?thesis using eq "1.prems"(2) by simp
    next
      case ne: False
      have "\<not> b < offset + length (expected p)" using "1.prems"(3) o'' ob ne by (auto simp: overlapped_def)
      then have nb: "?next \<le> b" using ob ne by simp
      show ?thesis
      proof (cases "anchored current p offset")
        case True
        then show ?thesis using "1.IH"(1) [OF False o' refl True "1.prems"(1-3) nb] eq by auto
      next
        case nf: False
        then show ?thesis using "1.IH"(2) [OF False o' refl nf "1.prems"(1-3) nb] eq by auto
      qed
    qed
  qed simp
qed

text \<open>
  C38. A patch changes only what it expects. Where a patch that replaces text is applied, the
  replacement takes the place of an occurrence of the expected text and nothing else changes; where the
  occurrence is not at the place recorded, its context is, and there is no other such occurrence
  that begins outside the occurrences before it.
\<close>

theorem counterfactual_replaces_expected:
  assumes "applyCounterfactual current p = Inr (changed, a, rebased)" "expected p \<noteq> []"
  shows "\<exists>u v. current = u @ expected p @ v \<and> changed = u @ replacement p @ v \<and> length u = a \<and> (rebased \<longleftrightarrow> a \<noteq> patch_from p)
    \<and> (rebased \<longrightarrow> anchored current p a
         \<and> {b. occurs_at (expected p) current b \<and> anchored current p b \<and> \<not> overlapped (expected p) current b} \<subseteq> {a})"
proof -
  let ?exact = "js_slice (patch_from p) (patch_from p + length (expected p)) current = expected p"
  have r: "changed = take a current @ replacement p @ drop (a + length (expected p)) current" "rebased \<longleftrightarrow> a \<noteq> patch_from p"
      and place: "?exact \<and> a = patch_from p \<or> \<not> ?exact \<and> anchors_from current p 0 0 = [a]"
    using assms by (auto simp: applyCounterfactual_def Let_def split: sum.splits if_splits list.splits)
  have occ: "occurs_at (expected p) current a"
  proof (cases ?exact)
    case True
    have "patch_from p + length (expected p) \<le> length current"
      using arg_cong [OF True, of length] assms(2) by (cases "expected p") (auto simp: length_js_slice min_def split: if_splits)
    then show ?thesis using True place by (simp add: occurs_at_def)
  next
    case False
    then show ?thesis using place anchors_from_mem [of a current p 0 0] by simp
  qed
  have "rebased \<longrightarrow> anchored current p a \<and> {b. occurs_at (expected p) current b \<and> anchored current p b \<and> \<not> overlapped (expected p) current b} \<subseteq> {a}"
  proof
    assume rebased
    then have l: "anchors_from current p 0 0 = [a]" using place r(2) by auto
    have "b = a" if "occurs_at (expected p) current b" "anchored current p b" "\<not> overlapped (expected p) current b" for b
      using anchors_from_finds [OF that, of 0 0] l by simp
    then show "anchored current p a \<and> {b. occurs_at (expected p) current b \<and> anchored current p b \<and> \<not> overlapped (expected p) current b} \<subseteq> {a}"
      using anchors_from_mem [of a current p 0 0] l by auto
  qed
  moreover have "current = take a current @ expected p @ drop (a + length (expected p)) current" "length (take a current) = a"
    using occ take_js_slice_drop [of a "a + length (expected p)" current] by (auto simp: occurs_at_def)
  ultimately show ?thesis using r by blast
qed

definition sample_patch :: "string \<Rightarrow> string \<Rightarrow> string \<Rightarrow> string \<Rightarrow> nat \<Rightarrow> counterfactual" where
  "sample_patch e r pre suf a =
     \<lparr>patch_id = js ''p'', patch_document = js ''d'', patch_label = js ''l'', patch_note = [], patch_created = 0, patch_updated = 0, patch_source = By_Human,
      patch_command = None, base_digest = [], patch_from = a, expected = js e, replacement = js r, patch_prefix = js pre, patch_suffix = js suf,
      archived = False, applied_at = None\<rparr>"

lemma counterfactual_replaces_expected_witness:
  "applyCounterfactual (js ''so the old one'') (sample_patch ''old'' ''new'' ''the '' '' one'' 4) = Inr (js ''so the new one'', 7, True)
   \<and> anchored (js ''so the old one'') (sample_patch ''old'' ''new'' ''the '' '' one'' 4) 7"
  (is "?applied \<and> ?anchored")
proof
  show a: ?applied by code_simp
  have "expected (sample_patch ''old'' ''new'' ''the '' '' one'' 4) \<noteq> []" by (simp add: sample_patch_def)
  from counterfactual_replaces_expected [OF a this] show ?anchored by blast
qed

text \<open>
  Two patches that are applied where the code means to refuse them: an insertion is never found stale,
  whatever its context, because the empty text is expected everywhere; and an occurrence that overlaps
  the one found is not counted.
\<close>

lemma insertion_never_stale:
  "expected p = [] \<Longrightarrow> applyCounterfactual current p = Inr (take (patch_from p) current @ replacement p @ drop (patch_from p) current, patch_from p, False)"
  by (simp add: applyCounterfactual_def Let_def)

lemma overlapping_anchor_taken:
  "applyCounterfactual (js ''xaaa'') (sample_patch ''aa'' ''b'' [] [] 9) = Inr (js ''xba'', 1, True)
   \<and> occurs_at (js ''aa'') (js ''xaaa'') 2 \<and> anchored (js ''xaaa'') (sample_patch ''aa'' ''b'' [] [] 9) 2"
  by code_simp

section \<open>The line of a place\<close>

lemma starts_after_props:
  "sorted_wrt (<) (starts_after text i) \<and> (\<forall>x \<in> set (starts_after text i). i < x)
   \<and> set (starts_after text i) = {n + 1 |n. i \<le> n \<and> n < length text \<and> text ! n = 10}"
proof (induction "text" i rule: starts_after.induct)
  case (1 "text" i)
  have occ: "occurs_at [10] text n \<longleftrightarrow> n < length text \<and> text ! n = 10" for n
  proof (cases "n < length text")
    case True
    then have "js_slice n (n + length [10 :: 16 word]) text = [text ! n]" by (simp add: js_slice_def Cons_nth_drop_Suc [symmetric])
    then show ?thesis using True by (auto simp: occurs_at_def)
  qed (simp add: occurs_at_def)
  show ?case
  proof (cases "index_of [10] text i")
    case None
    then have "\<not> (n < length text \<and> text ! n = 10)" if "i \<le> n" for n using index_of_None [OF None that] occ by blast
    then show ?thesis using None by (subst (1 2 3) starts_after.simps) auto
  next
    case (Some n)
    note n = index_of_Some [OF Some]
    have eq: "i \<le> m \<and> m < length text \<and> text ! m = 10 \<longleftrightarrow> m = n \<or> n + 1 \<le> m \<and> m < length text \<and> text ! m = 10" for m
    proof (cases "m < n")
      case True
      then show ?thesis using n occ [of m] by auto
    next
      case False
      then show ?thesis using n occ [of n] by (cases "m = n") auto
    qed
    have "{m + 1 |m. i \<le> m \<and> m < length text \<and> text ! m = 10} = insert (n + 1) {m + 1 |m. n + 1 \<le> m \<and> m < length text \<and> text ! m = 10}"
      unfolding eq by auto
    moreover have "starts_after text i = (n + 1) # starts_after text (n + 1)" using Some by (subst starts_after.simps) simp
    ultimately show ?thesis using "1.IH" [OF Some] n by (auto dest: Suc_lessD)
  qed
qed

lemma bisect_last:
  "sorted_wrt (<) starts \<Longrightarrow> low \<le> high \<Longrightarrow> high < length starts \<Longrightarrow> starts ! low \<le> place \<Longrightarrow> (\<forall>k. high < k \<longrightarrow> k < length starts \<longrightarrow> place < starts ! k) \<Longrightarrow>
     bisect starts place low high < length starts \<and> starts ! bisect starts place low high \<le> place
     \<and> (\<forall>k. bisect starts place low high < k \<longrightarrow> k < length starts \<longrightarrow> place < starts ! k)"
proof (induction starts place low high rule: bisect.induct)
  case (1 starts place low high)
  let ?m = "(low + high + 1) div 2"
  show ?case
  proof (cases "low < high")
    case True
    then have m: "low < ?m" "?m \<le> high" by auto
    show ?thesis
    proof (cases "starts ! ?m \<le> place")
      case le: True
      have "bisect starts place low high = bisect starts place ?m high" using True le by (subst bisect.simps) (simp add: Let_def)
      then show ?thesis using "1.IH"(1) [OF True refl le] "1.prems" le m by simp
    next
      case gt: False
      have "\<forall>k. ?m - 1 < k \<longrightarrow> k < length starts \<longrightarrow> place < starts ! k"
      proof (intro allI impI)
        fix k assume k: "?m - 1 < k" "k < length starts"
        then have "?m \<le> k" by simp
        then have "starts ! ?m \<le> starts ! k" using "1.prems"(1) k(2) by (metis le_eq_less_or_eq sorted_wrt_nth_less)
        then show "place < starts ! k" using gt by simp
      qed
      moreover have "bisect starts place low high = bisect starts place low (?m - 1)" using True gt by (subst bisect.simps) (simp add: Let_def)
      ultimately show ?thesis using "1.IH"(2) [OF True refl gt] "1.prems" m by simp
    qed
  next
    case False
    then show ?thesis using "1.prems" by (subst (1 2 3) bisect.simps) auto
  qed
qed

text \<open>
  The bisection finds the line and column of a place: the line is one more than the number of line
  breaks before the place, and the column counts from the last of them.
\<close>

theorem range_at_counts_lines:
  "\<exists>low. rangeAt (sourceLineStarts text) a b
     = \<lparr>range_from = a, range_to = b, range_line = card {n. n < a \<and> n < length text \<and> text ! n = 10} + 1, range_column = a - low + 1\<rparr>
   \<and> low = Max (insert 0 {n + 1 |n. n < a \<and> n < length text \<and> text ! n = 10})"
proof -
  let ?s = "sourceLineStarts text" and ?N = "{n. n < a \<and> n < length text \<and> text ! n = 10}"
  have s: "sorted_wrt (<) ?s" "set ?s = insert 0 {n + 1 |n. n < length text \<and> text ! n = 10}"
    using starts_after_props [of "text" 0] by (auto simp: sourceLineStarts_def)
  let ?k = "bisect ?s a 0 (length ?s - 1)"
  have "?s \<noteq> []" "?s ! 0 = 0" by (simp_all add: sourceLineStarts_def)
  then have k: "?k < length ?s" "?s ! ?k \<le> a" "\<forall>j. ?k < j \<longrightarrow> j < length ?s \<longrightarrow> a < ?s ! j"
    using bisect_last [OF s(1), of 0 "length ?s - 1" a] by auto
  have mono: "i < j \<Longrightarrow> j < length ?s \<Longrightarrow> ?s ! i < ?s ! j" for i j using s(1) by (simp add: sorted_wrt_iff_nth_less)
  have below: "{x \<in> set ?s. x \<le> a} = (!) ?s ` {..?k}"
  proof
    show "{x \<in> set ?s. x \<le> a} \<subseteq> (!) ?s ` {..?k}"
    proof
      fix x assume "x \<in> {x \<in> set ?s. x \<le> a}"
      then obtain j where j: "j < length ?s" "x = ?s ! j" "x \<le> a" by (auto simp: in_set_conv_nth)
      then have "\<not> ?k < j" using k(3) by auto
      then show "x \<in> (!) ?s ` {..?k}" using j(2) by simp
    qed
    have "?s ! j \<le> a" if "j \<le> ?k" for j using that mono [of j ?k] k by (cases "j = ?k") auto
    then show "(!) ?s ` {..?k} \<subseteq> {x \<in> set ?s. x \<le> a}" using k(1) by auto
  qed
  have starts: "{x \<in> set ?s. x \<le> a} = insert 0 (Suc ` ?N)" unfolding s(2) by auto
  have "inj_on ((!) ?s) {..?k}" using k(1) s(1) by (intro inj_on_nth) (auto simp: strict_sorted_iff)
  then have "card {x \<in> set ?s. x \<le> a} = ?k + 1" unfolding below by (simp add: card_image)
  moreover have "card (insert 0 (Suc ` ?N)) = card ?N + 1" by (subst card_insert_disjoint) (auto simp: card_image)
  ultimately have line: "?k = card ?N" unfolding starts by simp
  have "?s ! j \<le> ?s ! ?k" if "j \<le> ?k" for j using that mono [of j ?k] k(1) by (cases "j = ?k") auto
  then have "Max ((!) ?s ` {..?k}) = ?s ! ?k" by (intro Max_eqI) auto
  then have "?s ! ?k = Max (insert 0 (Suc ` ?N))" using below starts by metis
  moreover have "Suc ` ?N = {n + 1 |n. n < a \<and> n < length text \<and> text ! n = 10}" by auto
  ultimately show ?thesis using line by (simp add: rangeAt_def Let_def)
qed

end
