(* ===== verification/Wild_Store.thy ===== *)
theory Wild_Store
  imports Object_Store Counterfactuals Presence_Codec
begin

text \<open>
  What the browser keeps of possible work on a document (\<open>client/src/wild/store.ts\<close>): intentions, receipts
  of commands, claims that age and alternatives to the text, each bounded per document; and the
  observations of commands held back until somebody listens (\<open>client/src/wild/observations.ts\<close>). An
  operation is one transaction; one that is aborted leaves its store as it was.
\<close>

section \<open>Intentions and receipts\<close>

datatype intent_state = Pinned | Done | Dismissed

record stored_intent =
  intent_id :: js_text
  intent_document :: js_text
  intent_updated :: int
  intent_state :: intent_state

record causal_receipt =
  receipt_id :: js_text
  receipt_document :: js_text
  finished_at :: int
  counterfactual_id :: "js_text option"

definition MAX_INTENTS_PER_DOCUMENT :: nat where "MAX_INTENTS_PER_DOCUMENT = 40"
definition MAX_CAUSAL_PER_DOCUMENT :: nat where "MAX_CAUSAL_PER_DOCUMENT = 250"
definition MAX_CONTEXT_PER_DOCUMENT :: nat where "MAX_CONTEXT_PER_DOCUMENT = 500"
definition MAX_COUNTERFACTUALS_PER_DOCUMENT :: nat where "MAX_COUNTERFACTUALS_PER_DOCUMENT = 80"
definition MAX_COUNTERFACTUAL_BYTES :: nat where "MAX_COUNTERFACTUAL_BYTES = 8 * 1024 * 1024"

definition listIntents :: "js_text \<Rightarrow> stored_intent list \<Rightarrow> stored_intent list" where
  "listIntents d rs = sort_key (\<lambda>r. - intent_updated r) (get_all intent_id intent_document d rs)"

definition putIntent :: "stored_intent \<Rightarrow> stored_intent list \<Rightarrow> stored_intent list option" where
  "putIntent i rs =
     (let current = of_document intent_document (intent_document i) rs
      in if intent_id i \<notin> intent_id ` set current \<and> length current \<ge> MAX_INTENTS_PER_DOCUMENT then None
         else Some (store_put intent_id i rs))"

definition listCausalReceipts :: "js_text \<Rightarrow> causal_receipt list \<Rightarrow> causal_receipt list" where
  "listCausalReceipts d rs = sort_key (\<lambda>r. - finished_at r) (get_all receipt_id receipt_document d rs)"

definition putCausalReceipt :: "causal_receipt \<Rightarrow> causal_receipt list \<Rightarrow> causal_receipt list" where
  "putCausalReceipt r rs =
     (let store = store_put receipt_id r rs;
          current = listCausalReceipts (receipt_document r) store
      in foldl (\<lambda>s stale. store_delete receipt_id (receipt_id stale) s) store (drop MAX_CAUSAL_PER_DOCUMENT current))"

section \<open>Claims that age\<close>

datatype signal_kind = Relative_Time | As_Of_Date | Version_Claim | Deadline | External_Dependency | Explicit

record context_signal =
  signal_id :: js_text
  signal_document :: js_text
  signal_kind :: signal_kind
  signal_expected :: js_text
  first_seen :: int
  last_seen :: int
  reviewed_at :: "int option"
  ttl_ms :: int
  active :: bool
  dismissed :: bool

definition signal_expiry :: "context_signal \<Rightarrow> int" where
  "signal_expiry s = (case reviewed_at s of None \<Rightarrow> first_seen s | Some t \<Rightarrow> t) + ttl_ms s"

definition listContextSignals :: "js_text \<Rightarrow> context_signal list \<Rightarrow> context_signal list" where
  "listContextSignals d rs = sort_key signal_expiry (get_all signal_id signal_document d rs)"

definition merge_signal :: "context_signal list \<Rightarrow> context_signal list \<times> nat \<Rightarrow> context_signal \<Rightarrow> context_signal list \<times> nat" where
  "merge_signal current = (\<lambda>(store, remaining) s.
     (case store_get signal_id (signal_id s) current of
        Some prior \<Rightarrow>
          (store_put signal_id (s\<lparr>first_seen := first_seen prior, reviewed_at := reviewed_at prior, ttl_ms := ttl_ms prior,
             dismissed := dismissed prior, active := True\<rparr>) store, remaining)
      | None \<Rightarrow> if remaining > 0 then (store_put signal_id s store, remaining - 1) else (store, remaining)))"

definition retire_signal :: "js_text set \<Rightarrow> int \<Rightarrow> context_signal list \<Rightarrow> context_signal \<Rightarrow> context_signal list" where
  "retire_signal seen now store s =
     (if signal_kind s \<noteq> Explicit \<and> active s \<and> signal_id s \<notin> seen then store_put signal_id (s\<lparr>active := False, last_seen := now\<rparr>) store
      else store)"

definition reconcileContextSignals :: "js_text \<Rightarrow> context_signal list \<Rightarrow> int \<Rightarrow> context_signal list \<Rightarrow> context_signal list" where
  "reconcileContextSignals d discovered now rs =
     (let current = of_document signal_document d rs;
          seen = signal_id ` set discovered;
          remaining = MAX_CONTEXT_PER_DOCUMENT - length current;
          store = fst (foldl (merge_signal current) (rs, remaining) (take MAX_CONTEXT_PER_DOCUMENT discovered))
      in foldl (retire_signal seen now) store current)"

definition putContextSignal :: "context_signal \<Rightarrow> context_signal list \<Rightarrow> context_signal list option" where
  "putContextSignal s rs =
     (let current = of_document signal_document (signal_document s) rs
      in if signal_id s \<notin> signal_id ` set current \<and> length current \<ge> MAX_CONTEXT_PER_DOCUMENT then None
         else Some (store_put signal_id s rs))"

section \<open>The shelf of alternatives\<close>

definition patch_bytes :: "counterfactual \<Rightarrow> nat" where
  "patch_bytes p = length (encode_text (expected p)) + length (encode_text (replacement p))"

definition listCounterfactuals :: "js_text \<Rightarrow> counterfactual list \<Rightarrow> counterfactual list" where
  "listCounterfactuals d rs = sort_key (\<lambda>r. - patch_updated r) (get_all patch_id patch_document d rs)"

definition putCounterfactual :: "counterfactual \<Rightarrow> counterfactual list \<Rightarrow> counterfactual list option" where
  "putCounterfactual p rs =
     (let withoutCurrent = filter (\<lambda>x. patch_id x \<noteq> patch_id p) (of_document patch_document (patch_document p) rs);
          totalBytes = foldl (\<lambda>sum x. sum + patch_bytes x) (patch_bytes p) withoutCurrent
      in if length withoutCurrent \<ge> MAX_COUNTERFACTUALS_PER_DOCUMENT \<or> totalBytes > MAX_COUNTERFACTUAL_BYTES then None
         else Some (store_put patch_id p rs))"

definition deleteCounterfactual :: "js_text \<Rightarrow> js_text \<Rightarrow> counterfactual list \<Rightarrow> counterfactual list option" where
  "deleteCounterfactual d i rs =
     (case store_get patch_id i rs of
        None \<Rightarrow> None
      | Some p \<Rightarrow> if patch_document p \<noteq> d then None else Some (store_delete patch_id i rs))"

section \<open>Observations held back\<close>

record observation =
  observed_run :: js_text
  before_text :: js_text
  after_text :: "js_text option"

record observations =
  listeners :: "nat list"
  backlog :: "observation list"
  delivered :: "(nat \<times> observation) list"

definition MAX_BACKLOG :: nat where "MAX_BACKLOG = 40"
definition MAX_BACKLOG_SOURCE_CHARS :: nat where "MAX_BACKLOG_SOURCE_CHARS = 2 * 1024 * 1024"

definition sourceChars :: "observation \<Rightarrow> nat" where
  "sourceChars x = length (before_text x) + (case after_text x of None \<Rightarrow> 0 | Some s \<Rightarrow> length s)"

fun shift_backlog :: "observation list \<Rightarrow> nat \<Rightarrow> observation list" where
  "shift_backlog [] retained = []"
| "shift_backlog (x # xs) retained =
     (if length (x # xs) > MAX_BACKLOG \<or> retained > MAX_BACKLOG_SOURCE_CHARS then shift_backlog xs (retained - sourceChars x) else x # xs)"

definition emitCommandEffect :: "observation \<Rightarrow> observations \<Rightarrow> observations" where
  "emitCommandEffect x s =
     (if listeners s = [] then
        if sourceChars x > MAX_BACKLOG_SOURCE_CHARS then s
        else let pushed = backlog s @ [x] in s\<lparr>backlog := shift_backlog pushed (sum_list (map sourceChars pushed))\<rparr>
      else s\<lparr>delivered := delivered s @ map (\<lambda>l. (l, x)) (listeners s)\<rparr>)"

definition subscribeCommandEffects :: "nat \<Rightarrow> observations \<Rightarrow> observations" where
  "subscribeCommandEffects l s =
     s\<lparr>listeners := (if l \<in> set (listeners s) then listeners s else listeners s @ [l]), backlog := [],
       delivered := delivered s @ map (Pair l) (backlog s)\<rparr>"

definition unsubscribe :: "nat \<Rightarrow> observations \<Rightarrow> observations" where
  "unsubscribe l s = s\<lparr>listeners := filter (\<lambda>x. x \<noteq> l) (listeners s)\<rparr>"

section \<open>Every store stays within its bounds\<close>

record wild_db =
  intents :: "stored_intent list"
  receipts :: "causal_receipt list"
  signals :: "context_signal list"
  patches :: "counterfactual list"

datatype wild_op =
  Put_Intent stored_intent
| Put_Receipt causal_receipt
| Reconcile js_text "context_signal list" int
| Put_Signal context_signal
| Put_Patch counterfactual
| Delete_Patch js_text js_text

definition or_unchanged :: "'a option \<Rightarrow> 'a \<Rightarrow> 'a" where
  "or_unchanged v x = (case v of None \<Rightarrow> x | Some y \<Rightarrow> y)"

fun wild_step :: "wild_db \<Rightarrow> wild_op \<Rightarrow> wild_db" where
  "wild_step db (Put_Intent i) = db\<lparr>intents := or_unchanged (putIntent i (intents db)) (intents db)\<rparr>"
| "wild_step db (Put_Receipt r) = db\<lparr>receipts := putCausalReceipt r (receipts db)\<rparr>"
| "wild_step db (Reconcile d discovered now) =
     db\<lparr>signals := reconcileContextSignals d (map (\<lambda>s. s\<lparr>signal_document := d\<rparr>) discovered) now (signals db)\<rparr>"
| "wild_step db (Put_Signal s) = db\<lparr>signals := or_unchanged (putContextSignal s (signals db)) (signals db)\<rparr>"
| "wild_step db (Put_Patch p) = db\<lparr>patches := or_unchanged (putCounterfactual p (patches db)) (patches db)\<rparr>"
| "wild_step db (Delete_Patch d i) = db\<lparr>patches := or_unchanged (deleteCounterfactual d i (patches db)) (patches db)\<rparr>"

definition bounded :: "('r \<Rightarrow> js_text) \<Rightarrow> ('r \<Rightarrow> js_text) \<Rightarrow> nat \<Rightarrow> 'r list \<Rightarrow> bool" where
  "bounded key doc bound rs \<longleftrightarrow> distinct (map key rs) \<and> within doc one_each bound rs"

definition wild_ok :: "wild_db \<Rightarrow> bool" where
  "wild_ok db \<longleftrightarrow>
     bounded intent_id intent_document MAX_INTENTS_PER_DOCUMENT (intents db)
     \<and> bounded receipt_id receipt_document MAX_CAUSAL_PER_DOCUMENT (receipts db)
     \<and> bounded signal_id signal_document MAX_CONTEXT_PER_DOCUMENT (signals db)
     \<and> bounded patch_id patch_document MAX_COUNTERFACTUALS_PER_DOCUMENT (patches db)
     \<and> within patch_document patch_bytes MAX_COUNTERFACTUAL_BYTES (patches db)"

text \<open>A put keeps a bound where the key is among the records of the document or these are fewer than it.\<close>

lemma bounded_put:
  assumes "bounded key doc bound rs" "key r \<in> key ` set (of_document doc (doc r) rs) \<or> length (of_document doc (doc r) rs) < bound"
  shows "bounded key doc bound (store_put key r rs)"
proof -
  have d: "distinct (map key rs)" "within doc one_each bound rs" using assms(1) by (simp_all add: bounded_def)
  have le: "length (of_document doc (doc r) rs) \<le> bound" using d(2) by (auto simp: within_def count_of)
  have "sum_list (map one_each (of_document doc (doc r) rs)) + 1 \<le> bound + (case store_get key (key r) rs of None \<Rightarrow> 0 | Some x \<Rightarrow> if doc x = doc r then 1 else 0)"
  proof (cases "key r \<in> key ` set (of_document doc (doc r) rs)")
    case True
    then obtain x where "x \<in> set rs" "doc x = doc r" "key x = key r" by auto
    moreover have "store_get key (key x) rs = Some x" if "x \<in> set rs" for x
      using d(1) that unfolding store_get_def by (induction rs) (auto simp: image_iff)
    ultimately have "store_get key (key r) rs = Some x" by metis
    then show ?thesis using le \<open>doc x = doc r\<close> by (simp add: count_of)
  qed (use assms(2) in \<open>simp add: count_of\<close>)
  then show ?thesis unfolding bounded_def using within_put [OF d] store_put_keys [OF d(1)] by blast
qed

lemma bounded_delete: "bounded key doc bound rs \<Longrightarrow> bounded key doc bound (store_delete key k rs)"
  unfolding bounded_def using within_delete store_delete_keys by blast

text \<open>The number of records of a document after a put.\<close>

lemma put_count:
  assumes "distinct (map key rs)"
  shows "length (of_document doc e (store_put key r rs)) + (case store_get key (key r) rs of None \<Rightarrow> 0 | Some x \<Rightarrow> if doc x = e then 1 else 0)
     = length (of_document doc e rs) + (if doc r = e then 1 else 0)"
  using store_put_sum [OF assms, of one_each "\<lambda>x. doc x = e" r] by (simp add: count_of)

lemma store_get_mem: "distinct (map key rs) \<Longrightarrow> x \<in> set rs \<Longrightarrow> store_get key (key x) rs = Some x"
  unfolding store_get_def by (induction rs) (auto simp: image_iff)

lemma bounded_count: "bounded key doc bound rs \<longleftrightarrow> distinct (map key rs) \<and> (\<forall>e. length (of_document doc e rs) \<le> bound)"
  by (simp add: bounded_def within_def count_of)

lemma foldl_delete:
  "foldl (\<lambda>s x. store_delete key (key x) s) rs xs = filter (\<lambda>r. key r \<notin> key ` set xs) rs"
  by (induction xs arbitrary: rs) (auto simp: store_delete_def intro: filter_cong)

lemma filter_take_keys: "distinct (map key xs) \<Longrightarrow> filter (\<lambda>r. key r \<notin> key ` set (drop n xs)) xs = take n xs"
proof -
  assume d: "distinct (map key xs)"
  have "filter (\<lambda>r. key r \<notin> key ` set ys) (zs @ ys) = zs" if "distinct (map key (zs @ ys))" for zs ys :: "'b list"
  proof -
    have "key z \<notin> key ` set ys" if "z \<in> set zs" for z
      using \<open>distinct (map key (zs @ ys))\<close> imageI [OF that, of key] by auto
    then have "filter (\<lambda>r. key r \<notin> key ` set ys) zs = zs" by (intro filter_True) blast
    moreover have "filter (\<lambda>r. key r \<notin> key ` set ys) ys = []" by (simp add: filter_empty_conv)
    ultimately show ?thesis by simp
  qed
  from this [of "take n xs" "drop n xs"] show ?thesis using d by simp
qed

lemma length_filter_filter_le: "length (filter Q (filter P xs)) \<le> length (filter Q xs)"
  by (induction xs) auto

text \<open>Of the receipts of a document the latest are kept.\<close>

lemma putCausalReceipt_newest:
  assumes "distinct (map receipt_id rs)"
  shows "listCausalReceipts (receipt_document r) (putCausalReceipt r rs)
    = take MAX_CAUSAL_PER_DOCUMENT (listCausalReceipts (receipt_document r) (store_put receipt_id r rs))"
proof -
  let ?s = "store_put receipt_id r rs" and ?d = "receipt_document r"
  let ?current = "listCausalReceipts ?d ?s"
  let ?P = "\<lambda>x. receipt_id x \<notin> receipt_id ` set (drop MAX_CAUSAL_PER_DOCUMENT ?current)"
  have "distinct (map receipt_id (of_document receipt_document ?d ?s))" using store_put_keys [OF assms] by (rule distinct_map_filter)
  then have "distinct (map receipt_id ?current)" by (simp add: listCausalReceipts_def get_all_def distinct_map)
  then have "take MAX_CAUSAL_PER_DOCUMENT ?current = filter ?P ?current" by (rule filter_take_keys [symmetric])
  also have "\<dots> = sort_key (\<lambda>r. - finished_at r) (sort_key receipt_id (filter ?P (of_document receipt_document ?d ?s)))"
    by (subst (2) listCausalReceipts_def) (simp only: filter_sort get_all_def)
  finally show ?thesis
    by (simp add: putCausalReceipt_def Let_def foldl_delete listCausalReceipts_def [of _ "filter _ _"] get_all_def conj_commute)
qed

lemma putCausalReceipt_ok:
  assumes "bounded receipt_id receipt_document MAX_CAUSAL_PER_DOCUMENT rs"
  shows "bounded receipt_id receipt_document MAX_CAUSAL_PER_DOCUMENT (putCausalReceipt r rs)"
proof -
  have d: "distinct (map receipt_id rs)" and le: "length (of_document receipt_document e rs) \<le> MAX_CAUSAL_PER_DOCUMENT" for e
    using assms by (simp_all add: bounded_count)
  have "length (of_document receipt_document e (putCausalReceipt r rs)) \<le> MAX_CAUSAL_PER_DOCUMENT" for e
  proof (cases "e = receipt_document r")
    case True
    have "length (listCausalReceipts e (putCausalReceipt r rs)) \<le> MAX_CAUSAL_PER_DOCUMENT" unfolding True putCausalReceipt_newest [OF d] by simp
    then show ?thesis by (simp add: listCausalReceipts_def)
  next
    case False
    have "length (of_document receipt_document e (putCausalReceipt r rs)) \<le> length (of_document receipt_document e (store_put receipt_id r rs))"
      unfolding putCausalReceipt_def Let_def foldl_delete by (rule length_filter_filter_le)
    then show ?thesis using put_count [OF d, of receipt_document e r] False le [of e] by simp
  qed
  moreover have "distinct (map receipt_id (putCausalReceipt r rs))"
    unfolding putCausalReceipt_def Let_def foldl_delete by (rule distinct_map_filter) (rule store_put_keys [OF d])
  ultimately show ?thesis by (simp add: bounded_count)
qed

text \<open>While a scan is merged, the document keeps the room that is counted as remaining.\<close>

definition merging :: "js_text \<Rightarrow> context_signal list \<Rightarrow> context_signal list \<Rightarrow> nat \<Rightarrow> bool" where
  "merging d current store remaining \<longleftrightarrow>
     bounded signal_id signal_document MAX_CONTEXT_PER_DOCUMENT store
     \<and> length (of_document signal_document d store) + remaining \<le> MAX_CONTEXT_PER_DOCUMENT
     \<and> signal_id ` set current \<subseteq> signal_id ` set (of_document signal_document d store)"

lemma mergingI:
  "bounded signal_id signal_document MAX_CONTEXT_PER_DOCUMENT store \<Longrightarrow>
     signal_id ` set current \<subseteq> A \<Longrightarrow> A \<subseteq> signal_id ` set (of_document signal_document d store) \<Longrightarrow>
     length (of_document signal_document d store) + remaining \<le> MAX_CONTEXT_PER_DOCUMENT \<Longrightarrow> merging d current store remaining"
  unfolding merging_def by blast

lemma merging_put_known:
  assumes "merging d current store remaining" "signal_document s = d" "signal_id s \<in> signal_id ` set current"
  shows "merging d current (store_put signal_id s store) remaining"
proof -
  have b: "bounded signal_id signal_document MAX_CONTEXT_PER_DOCUMENT store" and dist: "distinct (map signal_id store)"
    using assms(1) by (simp_all add: merging_def bounded_count)
  have known: "signal_id s \<in> signal_id ` set (of_document signal_document d store)" using assms(1,3) by (auto simp: merging_def)
  then obtain x where x: "x \<in> set store" "signal_document x = d" "signal_id x = signal_id s" by auto
  then have get: "store_get signal_id (signal_id s) store = Some x" using store_get_mem [OF dist x(1)] by simp
  have 1: "bounded signal_id signal_document MAX_CONTEXT_PER_DOCUMENT (store_put signal_id s store)"
    using bounded_put [OF b] known assms(2) by blast
  have 2: "length (of_document signal_document d (store_put signal_id s store)) = length (of_document signal_document d store)"
    using put_count [OF dist, of signal_document d s] get x(2) assms(2) by simp
  have 3: "signal_id ` set (of_document signal_document d store) \<subseteq> signal_id ` set (of_document signal_document d (store_put signal_id s store))"
    using known assms(2) by (auto simp: store_put_def image_iff)
  have 4: "signal_id ` set current \<subseteq> signal_id ` set (of_document signal_document d store)"
      and 5: "length (of_document signal_document d store) + remaining \<le> MAX_CONTEXT_PER_DOCUMENT"
    using assms(1) unfolding merging_def by blast+
  show ?thesis by (rule mergingI [OF 1 4 3]) (use 2 5 in linarith)
qed

lemma merging_put_new:
  assumes "merging d current store (Suc remaining)" "signal_document s = d"
  shows "merging d current (store_put signal_id s store) remaining"
proof -
  have b: "bounded signal_id signal_document MAX_CONTEXT_PER_DOCUMENT store" and dist: "distinct (map signal_id store)"
    using assms(1) by (simp_all add: merging_def bounded_count)
  have room: "length (of_document signal_document d store) < MAX_CONTEXT_PER_DOCUMENT" using assms(1) by (simp add: merging_def)
  have 1: "bounded signal_id signal_document MAX_CONTEXT_PER_DOCUMENT (store_put signal_id s store)"
    using bounded_put [OF b] room assms(2) by blast
  have 2: "length (of_document signal_document d (store_put signal_id s store)) \<le> length (of_document signal_document d store) + 1"
    using put_count [OF dist, of signal_document d s] assms(2) by simp
  have 3: "signal_id ` set (of_document signal_document d store) \<subseteq> signal_id ` set (of_document signal_document d (store_put signal_id s store))"
    using assms(2) by (auto simp: store_put_def image_iff)
  have 4: "signal_id ` set current \<subseteq> signal_id ` set (of_document signal_document d store)"
      and 5: "length (of_document signal_document d store) + Suc remaining \<le> MAX_CONTEXT_PER_DOCUMENT"
    using assms(1) unfolding merging_def by blast+
  show ?thesis by (rule mergingI [OF 1 4 3]) (use 2 5 in linarith)
qed

lemma merge_signals_ok:
  "merging d current store remaining \<Longrightarrow> \<forall>s \<in> set discovered. signal_document s = d \<Longrightarrow>
     case foldl (merge_signal current) (store, remaining) discovered of (store', remaining') \<Rightarrow> merging d current store' remaining'"
proof (induction discovered arbitrary: store remaining)
  case (Cons s discovered)
  have doc: "signal_document s = d" using Cons.prems(2) by simp
  obtain store' remaining' where step: "merge_signal current (store, remaining) s = (store', remaining')" by fastforce
  have "merging d current store' remaining'"
  proof (cases "store_get signal_id (signal_id s) current")
    case None
    then show ?thesis using step Cons.prems(1) merging_put_new [OF _ doc, of current store "remaining - 1"]
      by (auto simp: merge_signal_def split: if_splits)
  next
    case (Some prior)
    then have "signal_id s \<in> signal_id ` set current" using store_get_Some [OF Some] by (metis imageI)
    then show ?thesis using step Some doc
        merging_put_known [OF Cons.prems(1), of "s\<lparr>first_seen := first_seen prior, reviewed_at := reviewed_at prior, ttl_ms := ttl_ms prior, dismissed := dismissed prior, active := True\<rparr>"]
      by (simp add: merge_signal_def)
  qed
  then show ?case using Cons.IH Cons.prems(2) step by simp
qed simp

lemma retire_signals_ok:
  "merging d current store remaining \<Longrightarrow> set old \<subseteq> set current \<Longrightarrow> \<forall>s \<in> set old. signal_document s = d \<Longrightarrow>
     merging d current (foldl (retire_signal seen now) store old) remaining"
proof (induction old arbitrary: store)
  case (Cons s old)
  have "merging d current (retire_signal seen now store s) remaining"
    using Cons.prems merging_put_known [OF Cons.prems(1), of "s\<lparr>active := False, last_seen := now\<rparr>"] by (simp add: retire_signal_def)
  then show ?case using Cons by simp
qed simp

lemma reconcile_ok:
  assumes "bounded signal_id signal_document MAX_CONTEXT_PER_DOCUMENT rs" "\<forall>s \<in> set discovered. signal_document s = d"
  shows "bounded signal_id signal_document MAX_CONTEXT_PER_DOCUMENT (reconcileContextSignals d discovered now rs)"
proof -
  let ?current = "of_document signal_document d rs"
  have start: "merging d ?current rs (MAX_CONTEXT_PER_DOCUMENT - length ?current)" using assms(1) by (simp add: merging_def bounded_count)
  have disc: "\<forall>s \<in> set (take MAX_CONTEXT_PER_DOCUMENT discovered). signal_document s = d" using assms(2) by (auto dest: in_set_takeD)
  obtain store remaining where m: "foldl (merge_signal ?current) (rs, MAX_CONTEXT_PER_DOCUMENT - length ?current) (take MAX_CONTEXT_PER_DOCUMENT discovered) = (store, remaining)"
    by fastforce
  have "merging d ?current store remaining" using merge_signals_ok [OF start disc] m by simp
  then have "merging d ?current (foldl (retire_signal (signal_id ` set discovered) now) store ?current) remaining"
    by (rule retire_signals_ok) auto
  then show ?thesis using m by (simp add: reconcileContextSignals_def merging_def)
qed

lemma foldl_sum_from: "foldl (\<lambda>sum x. sum + f x) a xs = a + sum_list (map f xs)" for a :: nat
  by (induction xs arbitrary: a) simp_all

lemma putCounterfactual_ok:
  assumes "bounded patch_id patch_document MAX_COUNTERFACTUALS_PER_DOCUMENT rs" "within patch_document patch_bytes MAX_COUNTERFACTUAL_BYTES rs"
    and "putCounterfactual p rs = Some rs'"
  shows "bounded patch_id patch_document MAX_COUNTERFACTUALS_PER_DOCUMENT rs' \<and> within patch_document patch_bytes MAX_COUNTERFACTUAL_BYTES rs'"
proof -
  let ?of = "of_document patch_document (patch_document p) rs"
  let ?without = "filter (\<lambda>x. patch_id x \<noteq> patch_id p) ?of"
  have d: "distinct (map patch_id rs)" using assms(1) by (simp add: bounded_def)
  have room: "length ?without < MAX_COUNTERFACTUALS_PER_DOCUMENT" "patch_bytes p + sum_list (map patch_bytes ?without) \<le> MAX_COUNTERFACTUAL_BYTES"
    and rs': "rs' = store_put patch_id p rs"
    using assms(3) by (auto simp: putCounterfactual_def Let_def foldl_sum_from split: if_splits)
  have "patch_id p \<in> patch_id ` set ?of \<or> length ?of < MAX_COUNTERFACTUALS_PER_DOCUMENT"
  proof (cases "patch_id p \<in> patch_id ` set ?of")
    case False
    then have "?without = ?of" by (intro filter_True) (auto simp: image_iff)
    then show ?thesis using room(1) by metis
  qed simp
  then have count: "bounded patch_id patch_document MAX_COUNTERFACTUALS_PER_DOCUMENT rs'" unfolding rs' by (rule bounded_put [OF assms(1)])
  have without: "?without = of_document patch_document (patch_document p) (store_delete patch_id (patch_id p) rs)"
    unfolding store_delete_def filter_filter by (rule filter_cong) auto
  have "sum_list (map patch_bytes ?of) = sum_list (map patch_bytes ?without)
      + (case store_get patch_id (patch_id p) rs of None \<Rightarrow> 0 | Some x \<Rightarrow> if patch_document x = patch_document p then patch_bytes x else 0)"
  proof (cases "store_get patch_id (patch_id p) rs")
    case None
    then have "\<forall>x \<in> set rs. patch_id x \<noteq> patch_id p" by (auto simp: store_get_def find_None_iff)
    then have "?without = ?of" by (intro filter_True) auto
    then show ?thesis using None by simp
  next
    case (Some x)
    have x: "x \<in> set rs" "patch_id x = patch_id p" using store_get_Some [OF Some] by auto
    show ?thesis
    proof (cases "patch_document x = patch_document p")
      case True
      then show ?thesis using delete_sum [OF d x(1), of "\<lambda>y. patch_document y = patch_document p" patch_bytes] x(2) Some
        unfolding without by simp
    next
      case False
      then show ?thesis using delete_other [OF _ d x(1), of "\<lambda>y. patch_document y = patch_document p"] x(2) Some unfolding without by simp
    qed
  qed
  then have "within patch_document patch_bytes MAX_COUNTERFACTUAL_BYTES rs'"
    unfolding rs' using room(2) by (intro within_put [OF d assms(2)]) simp
  with count show ?thesis by blast
qed

definition empty_wild :: wild_db where
  "empty_wild = \<lparr>intents = [], receipts = [], signals = [], patches = []\<rparr>"

lemma wild_step_ok: "wild_ok db \<Longrightarrow> wild_ok (wild_step db e)"
proof (induction db e rule: wild_step.induct)
  case (1 db i)
  have "bounded intent_id intent_document MAX_INTENTS_PER_DOCUMENT rs'" if "putIntent i (intents db) = Some rs'" for rs'
    using 1 that bounded_put [of intent_id intent_document MAX_INTENTS_PER_DOCUMENT "intents db" i]
    by (auto simp: putIntent_def Let_def wild_ok_def split: if_splits)
  then show ?case using 1 by (simp add: wild_ok_def or_unchanged_def split: option.splits)
next
  case (2 db r)
  then show ?case by (simp add: wild_ok_def putCausalReceipt_ok)
next
  case (3 db d discovered now)
  then show ?case by (simp add: wild_ok_def reconcile_ok)
next
  case (4 db s)
  have "bounded signal_id signal_document MAX_CONTEXT_PER_DOCUMENT rs'" if "putContextSignal s (signals db) = Some rs'" for rs'
    using 4 that bounded_put [of signal_id signal_document MAX_CONTEXT_PER_DOCUMENT "signals db" s]
    by (auto simp: putContextSignal_def Let_def wild_ok_def split: if_splits)
  then show ?case using 4 by (simp add: wild_ok_def or_unchanged_def split: option.splits)
next
  case (5 db p)
  then show ?case using putCounterfactual_ok by (auto simp: wild_ok_def or_unchanged_def split: option.splits)
next
  case (6 db d i)
  then show ?case
    by (auto simp: wild_ok_def or_unchanged_def deleteCounterfactual_def bounded_delete within_delete split: option.splits if_splits)
qed

interpretation wild: event_machine "\<lambda>db. db = empty_wild" wild_step wild_ok
  by unfold_locales (auto simp: wild_step_ok, simp add: wild_ok_def empty_wild_def bounded_def)

text \<open>
  C24. The stores of a document stay within their bounds, whatever is put, scanned or removed: one record
  per key, at most 40 intentions, 250 receipts, 500 claims and 80 alternatives for a document, and
  at most 8 MiB of text in its alternatives.
\<close>

theorem wild_stores_bounded:
  "let db = foldl wild_step empty_wild es
   in distinct (map intent_id (intents db)) \<and> distinct (map receipt_id (receipts db)) \<and> distinct (map signal_id (signals db))
      \<and> distinct (map patch_id (patches db))
      \<and> (\<forall>d. length (of_document intent_document d (intents db)) \<le> 40 \<and> length (of_document receipt_document d (receipts db)) \<le> 250
           \<and> length (of_document signal_document d (signals db)) \<le> 500 \<and> length (of_document patch_document d (patches db)) \<le> 80
           \<and> sum_list (map patch_bytes (of_document patch_document d (patches db))) \<le> 8 * 1024 * 1024)"
  using wild.reachable_inv [OF refl, of es]
  by (simp add: Let_def wild_ok_def bounded_count within_def MAX_INTENTS_PER_DOCUMENT_def MAX_CAUSAL_PER_DOCUMENT_def MAX_CONTEXT_PER_DOCUMENT_def
      MAX_COUNTERFACTUALS_PER_DOCUMENT_def MAX_COUNTERFACTUAL_BYTES_def)

section \<open>A scan keeps what people decided\<close>

definition same_decisions :: "context_signal \<Rightarrow> context_signal \<Rightarrow> bool" where
  "same_decisions s t \<longleftrightarrow> signal_id t = signal_id s \<and> first_seen t = first_seen s \<and> reviewed_at t = reviewed_at s \<and> ttl_ms t = ttl_ms s
     \<and> dismissed t = dismissed s"

lemma merge_signals_keep:
  "store_get signal_id k current = Some s \<Longrightarrow> signal_id s = k \<Longrightarrow> store_get signal_id k store = Some t \<Longrightarrow> same_decisions s t \<Longrightarrow>
     \<exists>u. store_get signal_id k (fst (foldl (merge_signal current) (store, remaining) discovered)) = Some u \<and> same_decisions s u
       \<and> (if k \<in> signal_id ` set discovered then active u else u = t)"
proof (induction discovered arbitrary: store remaining t)
  case (Cons x discovered)
  obtain store' remaining' where step: "merge_signal current (store, remaining) x = (store', remaining')" by fastforce
  show ?case
  proof (cases "signal_id x = k")
    case True
    define t' where "t' = x\<lparr>first_seen := first_seen s, reviewed_at := reviewed_at s, ttl_ms := ttl_ms s, dismissed := dismissed s, active := True\<rparr>"
    have "store' = store_put signal_id t' store" using step Cons.prems(1) True by (simp add: merge_signal_def t'_def)
    then have t': "store_get signal_id k store' = Some t'" "same_decisions s t'" "active t'"
      using True Cons.prems(2) by (simp_all add: t'_def same_decisions_def)
    from Cons.IH [OF Cons.prems(1,2) t'(1,2), of remaining'] obtain u where
      u: "store_get signal_id k (fst (foldl (merge_signal current) (store', remaining') discovered)) = Some u" "same_decisions s u"
        "if k \<in> signal_id ` set discovered then active u else u = t'" by blast
    then show ?thesis using step True t'(3) by (auto split: if_splits)
  next
    case False
    then have "store_get signal_id k store' = store_get signal_id k store"
      using step by (auto simp: merge_signal_def split: option.splits if_splits)
    then show ?thesis using Cons.IH [OF Cons.prems(1,2), of store' t remaining'] Cons.prems(3,4) step False by auto
  qed
qed simp

lemma retire_signals_keep:
  assumes "store_get signal_id k store = Some t" "same_decisions s t" "signal_id s = k"
    and "\<And>x. x \<in> set old \<Longrightarrow> signal_id x = k \<Longrightarrow> x = s"
  shows "\<exists>u. store_get signal_id k (foldl (retire_signal seen now) store old) = Some u \<and> same_decisions s u
    \<and> (if s \<in> set old \<and> signal_kind s \<noteq> Explicit \<and> active s \<and> k \<notin> seen then \<not> active u else u = t)"
  using assms
proof (induction old arbitrary: store t rule: rev_induct)
  case (snoc x old)
  obtain u where u: "store_get signal_id k (foldl (retire_signal seen now) store old) = Some u" "same_decisions s u"
      "if s \<in> set old \<and> signal_kind s \<noteq> Explicit \<and> active s \<and> k \<notin> seen then \<not> active u else u = t"
    using snoc.IH [OF snoc.prems(1-3)] snoc.prems(4) by auto
  show ?case
  proof (cases "x = s \<and> signal_kind s \<noteq> Explicit \<and> active s \<and> k \<notin> seen")
    case True
    define v where "v = s\<lparr>active := False, last_seen := now\<rparr>"
    have "store_get signal_id k (foldl (retire_signal seen now) store (old @ [x])) = Some v"
      using True snoc.prems(3) by (simp add: retire_signal_def v_def)
    moreover have "same_decisions s v" "\<not> active v" by (simp_all add: same_decisions_def v_def)
    ultimately show ?thesis using True by auto
  next
    case False
    have stays: "retire_signal seen now st x = st \<or> signal_id x \<noteq> k" for st
    proof (cases "x = s")
      case True
      then have "\<not> (signal_kind s \<noteq> Explicit \<and> active s \<and> signal_id s \<notin> seen)" using False snoc.prems(3) by blast
      then show ?thesis unfolding retire_signal_def True by argo
    next
      case False
      then show ?thesis using snoc.prems(4) [of x] by fastforce
    qed
    then have "store_get signal_id k (foldl (retire_signal seen now) store (old @ [x])) = Some u"
    proof -
      have "store_get signal_id k (retire_signal seen now st x) = store_get signal_id k st" for st
      proof (cases "signal_id x = k")
        case True
        then have "retire_signal seen now st x = st" using stays [of st] by blast
        then show ?thesis by simp
      qed (simp add: retire_signal_def)
      then show ?thesis using u(1) by simp
    qed
    then show ?thesis using u(2,3) False by auto
  qed
qed auto

text \<open>
  C39. Scanning a document again keeps what people decided about its claims. No claim is removed; when
  it was first seen and reviewed, how long it holds and whether it is dismissed stay; a claim the
  scan finds is active, one it does not find is not, and a claim a person marked stays as it was.
\<close>

theorem rescan_keeps_decisions:
  assumes "distinct (map signal_id rs)" "s \<in> set rs" "signal_document s = d"
  shows "\<exists>t. store_get signal_id (signal_id s) (reconcileContextSignals d discovered now rs) = Some t \<and> same_decisions s t
    \<and> active t = (signal_id s \<in> signal_id ` set (take MAX_CONTEXT_PER_DOCUMENT discovered)
         \<or> active s \<and> (signal_kind s = Explicit \<or> signal_id s \<in> signal_id ` set discovered))"
proof -
  let ?k = "signal_id s" and ?current = "of_document signal_document d rs" and ?first = "take MAX_CONTEXT_PER_DOCUMENT discovered"
  have cur: "store_get signal_id ?k ?current = Some s" "store_get signal_id ?k rs = Some s"
    using assms by (auto intro!: store_get_mem distinct_map_filter)
  let ?store = "fst (foldl (merge_signal ?current) (rs, MAX_CONTEXT_PER_DOCUMENT - length ?current) ?first)"
  obtain u where u: "store_get signal_id ?k ?store = Some u" "same_decisions s u" "if ?k \<in> signal_id ` set ?first then active u else u = s"
    using merge_signals_keep [OF cur(1) refl cur(2), of "MAX_CONTEXT_PER_DOCUMENT - length ?current" ?first] by (auto simp: same_decisions_def)
  have only: "x = s" if "x \<in> set ?current" "signal_id x = ?k" for x
    using that assms by (auto simp: distinct_map inj_on_def)
  obtain t where t: "store_get signal_id ?k (foldl (retire_signal (signal_id ` set discovered) now) ?store ?current) = Some t" "same_decisions s t"
      "if s \<in> set ?current \<and> signal_kind s \<noteq> Explicit \<and> active s \<and> ?k \<notin> signal_id ` set discovered then \<not> active t else t = u"
    using retire_signals_keep [OF u(1,2) refl only] by blast
  have sub: "?k \<in> signal_id ` set ?first \<Longrightarrow> ?k \<in> signal_id ` set discovered" by (auto dest: in_set_takeD)
  have mem: "s \<in> set ?current" using assms by simp
  have "active t = (?k \<in> signal_id ` set ?first \<or> active s \<and> (signal_kind s = Explicit \<or> ?k \<in> signal_id ` set discovered))"
    using t(3) u(3) sub mem by (auto split: if_splits)
  then show ?thesis using t(1,2) by (auto simp: reconcileContextSignals_def Let_def)
qed

definition sample_signal :: "string \<Rightarrow> int \<Rightarrow> bool \<Rightarrow> context_signal" where
  "sample_signal i t gone =
     \<lparr>signal_id = js i, signal_document = js ''d'', signal_kind = Relative_Time, signal_expected = js ''today'', first_seen = t, last_seen = t,
      reviewed_at = None, ttl_ms = 1, active = True, dismissed = gone\<rparr>"

lemma rescan_keeps_decisions_witness:
  "\<exists>t. store_get signal_id (js ''a'') (reconcileContextSignals (js ''d'') [sample_signal ''a'' 9 False] 9 [sample_signal ''a'' 1 True]) = Some t
     \<and> first_seen t = 1 \<and> dismissed t \<and> active t"
  using rescan_keeps_decisions [of "[sample_signal ''a'' 1 True]" "sample_signal ''a'' 1 True" "js ''d''" "[sample_signal ''a'' 9 False]" 9]
  by (simp add: sample_signal_def same_decisions_def MAX_CONTEXT_PER_DOCUMENT_def) metis

text \<open>
  No operation takes a claim out of the store, those no scan finds any more included: once a document
  has as many as it may, no claim that is new is ever stored.
\<close>

lemma merge_signals_full:
  "store_get signal_id k current = None \<Longrightarrow>
     snd (foldl (merge_signal current) (store, 0) discovered) = 0
     \<and> store_get signal_id k (fst (foldl (merge_signal current) (store, 0) discovered)) = store_get signal_id k store"
proof (induction discovered arbitrary: store)
  case (Cons x discovered)
  obtain store' where "merge_signal current (store, 0) x = (store', 0)" "store_get signal_id k store' = store_get signal_id k store"
    using Cons.prems by (cases "store_get signal_id (signal_id x) current"; cases "k = signal_id x") (auto simp: merge_signal_def)
  then show ?case using Cons by simp
qed simp

lemma full_context_frozen:
  assumes "MAX_CONTEXT_PER_DOCUMENT \<le> length (of_document signal_document d rs)" "k \<notin> signal_id ` set (of_document signal_document d rs)"
  shows "store_get signal_id k (reconcileContextSignals d discovered now rs) = store_get signal_id k rs"
proof -
  let ?current = "of_document signal_document d rs" and ?seen = "signal_id ` set discovered"
  have none: "store_get signal_id k ?current = None" using assms(2) by (auto simp: store_get_def find_None_iff)
  have "store_get signal_id k (foldl (retire_signal ?seen now) store old) = store_get signal_id k store" if "k \<notin> signal_id ` set old" for store old
    using that by (induction old arbitrary: store) (auto simp: retire_signal_def)
  then show ?thesis
    using merge_signals_full [OF none, of rs "take MAX_CONTEXT_PER_DOCUMENT discovered"] assms by (simp add: reconcileContextSignals_def Let_def)
qed

section \<open>Observations held back\<close>

text \<open>Shifting leaves the longest end of the backlog that is within the bounds.\<close>

lemma shift_backlog_longest:
  "retained = sum_list (map sourceChars xs) \<Longrightarrow>
     \<exists>old. xs = old @ shift_backlog xs retained
       \<and> length (shift_backlog xs retained) \<le> MAX_BACKLOG \<and> sum_list (map sourceChars (shift_backlog xs retained)) \<le> MAX_BACKLOG_SOURCE_CHARS
       \<and> (\<forall>u v. xs = u @ v \<longrightarrow> length v \<le> MAX_BACKLOG \<longrightarrow> sum_list (map sourceChars v) \<le> MAX_BACKLOG_SOURCE_CHARS \<longrightarrow>
            length v \<le> length (shift_backlog xs retained))"
proof (induction xs retained rule: shift_backlog.induct)
  case (2 x xs retained)
  show ?case
  proof (cases "length (x # xs) > MAX_BACKLOG \<or> retained > MAX_BACKLOG_SOURCE_CHARS")
    case True
    then have eq: "shift_backlog (x # xs) retained = shift_backlog xs (retained - sourceChars x)" by simp
    have "retained - sourceChars x = sum_list (map sourceChars xs)" using 2(2) by simp
    from 2(1) [OF True this] obtain old where old: "xs = old @ shift_backlog (x # xs) retained"
        "length (shift_backlog (x # xs) retained) \<le> MAX_BACKLOG" "sum_list (map sourceChars (shift_backlog (x # xs) retained)) \<le> MAX_BACKLOG_SOURCE_CHARS"
      and longest: "\<And>u v. xs = u @ v \<Longrightarrow> length v \<le> MAX_BACKLOG \<Longrightarrow> sum_list (map sourceChars v) \<le> MAX_BACKLOG_SOURCE_CHARS \<Longrightarrow>
            length v \<le> length (shift_backlog (x # xs) retained)"
      unfolding eq by blast
    have "length v \<le> length (shift_backlog (x # xs) retained)"
      if v: "x # xs = u @ v" "length v \<le> MAX_BACKLOG" "sum_list (map sourceChars v) \<le> MAX_BACKLOG_SOURCE_CHARS" for u v
    proof (cases u)
      case Nil
      then have "v = x # xs" using v(1) by simp
      then show ?thesis using v(2,3) True 2(2) by auto
    next
      case (Cons y u')
      then show ?thesis using v longest [of u' v] by simp
    qed
    moreover have "x # xs = (x # old) @ shift_backlog (x # xs) retained" using old(1) by simp
    ultimately show ?thesis using old(2,3) by blast
  next
    case False
    then have e: "shift_backlog (x # xs) retained = x # xs" by simp
    have m: "length v \<le> length (x # xs)" if "x # xs = u @ v" for u v using that by (metis length_append le_add2)
    show ?thesis unfolding e using False 2(2) m by (intro exI [of _ "[]"] conjI) (simp, linarith, linarith, blast)
  qed
qed simp

datatype observation_event = Emit observation | Subscribe nat | Unsubscribe nat

fun observation_step :: "observations \<Rightarrow> observation_event \<Rightarrow> observations" where
  "observation_step s (Emit x) = emitCommandEffect x s"
| "observation_step s (Subscribe l) = subscribeCommandEffects l s"
| "observation_step s (Unsubscribe l) = unsubscribe l s"

definition backlog_ok :: "observations \<Rightarrow> bool" where
  "backlog_ok s \<longleftrightarrow> (listeners s \<noteq> [] \<longrightarrow> backlog s = []) \<and> length (backlog s) \<le> MAX_BACKLOG
     \<and> sum_list (map sourceChars (backlog s)) \<le> MAX_BACKLOG_SOURCE_CHARS"

lemma observation_step_ok: "backlog_ok s \<Longrightarrow> backlog_ok (observation_step s e)"
proof (cases e)
  case (Emit x)
  assume ok: "backlog_ok s"
  then show ?thesis
    using Emit shift_backlog_longest [OF refl, of "backlog s @ [x]"]
    by (auto simp: backlog_ok_def emitCommandEffect_def Let_def)
qed (auto simp: backlog_ok_def subscribeCommandEffects_def unsubscribe_def)

interpretation observed: event_machine "\<lambda>s. s = \<lparr>listeners = [], backlog = [], delivered = []\<rparr>" observation_step backlog_ok
  by unfold_locales (auto simp: observation_step_ok, simp add: backlog_ok_def)

text \<open>
  Observations of commands that nobody listens to yet are held back within 40 entries and 2 Mi
  characters of source, the latest ones, and never while somebody listens.
\<close>

theorem observations_bounded:
  "let s = foldl observation_step \<lparr>listeners = [], backlog = [], delivered = []\<rparr> es
   in length (backlog s) \<le> 40 \<and> sum_list (map sourceChars (backlog s)) \<le> 2 * 1024 * 1024 \<and> (listeners s = [] \<or> backlog s = [])"
  using observed.reachable_inv [OF refl, of es]
  by (auto simp: Let_def backlog_ok_def MAX_BACKLOG_def MAX_BACKLOG_SOURCE_CHARS_def)

end
