(* ===== verification/Create_Request.thy ===== *)
theory Create_Request
  imports Wire_Protocol Presence_Codec
begin

text \<open>
  The identity of a request that creates a document (\<open>client/src/browser/create-request.ts\<close>): one
  identifier per action, kept with its payload in the session storage of the tab and in the memory of the
  page until the service confirms it, so that a retry after a lost response creates nothing twice. A
  stored text is represented by the value \<open>JSON.parse\<close> gives for it, \<open>None\<close> where it throws.
\<close>

section \<open>Scopes\<close>

definition MARKS_MAX_DOCUMENT_UNITS :: nat where "MARKS_MAX_DOCUMENT_UNITS = 1000000"
definition MAX_REQUEST_SCOPE_UNITS :: nat where "MAX_REQUEST_SCOPE_UNITS = MARKS_MAX_DOCUMENT_UNITS + 8192"

record create_draft =
  draft_title :: "js_text option"
  draft_content :: js_text

record document_draft =
  request_scope :: "js_text option"
  template_id :: "js_text option"
  plain_draft :: create_draft

definition truthy :: "js_text option \<Rightarrow> bool" where
  "truthy v \<longleftrightarrow> v \<noteq> None \<and> v \<noteq> Some []"

abbreviation content_mark :: js_text where "content_mark \<equiv> js ''content'' @ [0]"

definition content_scope :: "create_draft \<Rightarrow> js_text" where
  "content_scope d =
     content_mark @ (case draft_title d of None \<Rightarrow> js ''none'' | Some t \<Rightarrow> js ''some:'' @ to_radix 10 (length t) @ [58] @ t)
     @ [0] @ to_radix 10 (length (draft_content d)) @ [58] @ draft_content d"

text \<open>The materialized draft, with the text of a template, is a parameter.\<close>

definition documentCreateRequestScope :: "(document_draft \<Rightarrow> create_draft) \<Rightarrow> document_draft \<Rightarrow> js_text" where
  "documentCreateRequestScope materialize d =
     (if truthy (request_scope d) then js ''named'' @ [0] @ the (request_scope d)
      else if truthy (template_id d) then js ''template'' @ [0] @ the (template_id d)
      else
        let m = materialize d
        in if \<not> truthy (draft_title m) \<and> draft_content m = [] then js ''blank'' else content_scope m)"

definition documentDuplicateRequestScope :: "js_text \<Rightarrow> js_text" where
  "documentDuplicateRequestScope i = js ''duplicate'' @ [0] @ i"

text \<open>Two accumulators of 32 bits make the key short; the stored record says what it is for.\<close>

definition pad8 :: "js_text \<Rightarrow> js_text" where
  "pad8 s = replicate (8 - length s) 48 @ s"

fun key_digest :: "32 word \<times> 32 word \<Rightarrow> nat \<Rightarrow> js_text \<Rightarrow> 32 word \<times> 32 word" where
  "key_digest acc i [] = acc"
| "key_digest (a, b) i (u # us) =
     key_digest (xor a (ucast u) * 0x01000193, xor b (ucast u + of_nat i) * 0x85ebca6b) (i + 1) us"

definition requestStorageKey :: "js_text \<Rightarrow> js_text" where
  "requestStorageKey scope =
     (case key_digest (0x811c9dc5, 0x9e3779b9) 0 scope of
        (a, b) \<Rightarrow>
          js ''marks:document-create-request:v1:'' @ to_radix 10 (length scope) @ [58] @ pad8 (to_radix 16 (unat a)) @ pad8 (to_radix 16 (unat b)))"

definition is_content :: "js_text \<Rightarrow> bool" where
  "is_content scope \<longleftrightarrow> take 8 scope = content_mark"

definition storedScope :: "js_text \<Rightarrow> js_text" where
  "storedScope scope = (if is_content scope then js ''content'' else scope)"

section \<open>Requests\<close>

record create_request =
  request_id :: js_text
  request_draft :: create_draft

fun uuid_unit :: "char \<Rightarrow> 16 word \<Rightarrow> bool" where
  "uuid_unit p c =
     (if p = CHR ''x'' then 48 \<le> c \<and> c \<le> 57 \<or> 97 \<le> c \<and> c \<le> 102 \<or> 65 \<le> c \<and> c \<le> 70
      else if p = CHR ''y'' then c \<in> set (js ''89abAB'')
      else c = u16 p)"

definition is_uuid :: "js_text \<Rightarrow> bool" where
  "is_uuid s \<longleftrightarrow> list_all2 uuid_unit ''xxxxxxxx-xxxx-4xxx-yxxx-xxxxxxxxxxxx'' s"

definition validateScopeAndDraft :: "js_text \<Rightarrow> create_draft \<Rightarrow> bool" where
  "validateScopeAndDraft scope d \<longleftrightarrow>
     scope \<noteq> [] \<and> length scope \<le> MAX_REQUEST_SCOPE_UNITS \<and> length (draft_content d) \<le> MARKS_MAX_DOCUMENT_UNITS
     \<and> (case draft_title d of None \<Rightarrow> True | Some t \<Rightarrow> length (encode_text t) \<le> 512)"

definition request_json :: "js_text \<Rightarrow> create_request \<Rightarrow> json" where
  "request_json scope r = JObject
     [(js ''scope'', JString (storedScope scope)), (js ''requestId'', JString (request_id r)),
      (js ''draft'', JObject ((case draft_title (request_draft r) of None \<Rightarrow> [] | Some t \<Rightarrow> [(js ''title'', JString t)])
         @ [(js ''content'', JString (draft_content (request_draft r)))]))]"

definition draft_of_json :: "json option \<Rightarrow> create_draft option" where
  "draft_of_json v =
     (case v of
        Some (JObject d) \<Rightarrow>
          (case (field d ''content'', field d ''title'') of
             (Some (JString c), None) \<Rightarrow> Some \<lparr>draft_title = None, draft_content = c\<rparr>
           | (Some (JString c), Some (JString t)) \<Rightarrow> Some \<lparr>draft_title = Some t, draft_content = c\<rparr>
           | _ \<Rightarrow> None)
      | _ \<Rightarrow> None)"

definition parseStoredRequest :: "json option option \<Rightarrow> js_text \<Rightarrow> create_request option" where
  "parseStoredRequest raw scope =
     (case raw of
        Some (Some (JObject v)) \<Rightarrow>
          if field v ''scope'' \<noteq> Some (JString (storedScope scope)) then None
          else
            (case (field v ''requestId'', draft_of_json (field v ''draft'')) of
               (Some (JString i), Some d) \<Rightarrow>
                 if is_uuid i \<and> validateScopeAndDraft scope d then Some \<lparr>request_id = i, request_draft = d\<rparr> else None
             | _ \<Rightarrow> None)
      | _ \<Rightarrow> None)"

text \<open>The session storage of the tab outlives the page; a browser may refuse to read or to write it.\<close>

record create_state =
  session :: "js_text \<rightharpoonup> json option"
  readable :: bool
  writable :: bool
  volatile :: "js_text \<rightharpoonup> create_request"

definition persisted_request :: "js_text \<Rightarrow> create_state \<Rightarrow> create_request option" where
  "persisted_request scope st = (if readable st then parseStoredRequest (session st (requestStorageKey scope)) scope else None)"

definition reusable_request :: "js_text \<Rightarrow> create_draft \<Rightarrow> create_state \<Rightarrow> create_request option" where
  "reusable_request scope d st =
     (case persisted_request scope st of
        Some p \<Rightarrow> if \<not> is_content scope \<or> request_draft p = d then Some p else None
      | None \<Rightarrow> None)"

definition pendingDocumentCreateRequest :: "js_text \<Rightarrow> create_draft \<Rightarrow> js_text \<Rightarrow> create_state \<Rightarrow> create_state \<times> create_request option" where
  "pendingDocumentCreateRequest scope d fresh st =
     (if \<not> validateScopeAndDraft scope d then (st, None)
      else
        case reusable_request scope d st of
          Some p \<Rightarrow> (st, Some p)
        | None \<Rightarrow>
            (case volatile st scope of
               Some v \<Rightarrow> (st, Some v)
             | None \<Rightarrow>
                 if \<not> is_uuid fresh then (st, None)
                 else
                   let created = \<lparr>request_id = fresh, request_draft = d\<rparr>;
                       st = st\<lparr>volatile := (volatile st)(scope \<mapsto> created)\<rparr>
                   in (if writable st then st\<lparr>session := (session st)(requestStorageKey scope \<mapsto> Some (request_json scope created))\<rparr> else st,
                       Some created)))"

definition pendingDocumentCreateRequestId :: "js_text \<Rightarrow> js_text \<Rightarrow> create_state \<Rightarrow> create_state \<times> js_text option" where
  "pendingDocumentCreateRequestId scope fresh st =
     map_prod id (map_option request_id) (pendingDocumentCreateRequest scope \<lparr>draft_title = None, draft_content = []\<rparr> fresh st)"

definition confirmDocumentCreateRequest :: "js_text \<Rightarrow> js_text \<Rightarrow> create_state \<Rightarrow> create_state" where
  "confirmDocumentCreateRequest scope i st =
     (let st = (if map_option request_id (volatile st scope) = Some i then st\<lparr>volatile := (volatile st)(scope := None)\<rparr> else st)
      in if map_option request_id (persisted_request scope st) = Some i
         then st\<lparr>session := (session st)(requestStorageKey scope := None)\<rparr> else st)"

section \<open>One identity until it is confirmed\<close>

lemma parse_request_json:
  "is_uuid (request_id r) \<Longrightarrow> validateScopeAndDraft scope (request_draft r) \<Longrightarrow> parseStoredRequest (Some (Some (request_json scope r))) scope = Some r"
proof -
  assume v: "is_uuid (request_id r)" "validateScopeAndDraft scope (request_draft r)"
  have names: "js ''scope'' \<noteq> js ''requestId''" "js ''scope'' \<noteq> js ''draft''" "js ''requestId'' \<noteq> js ''draft''" "js ''title'' \<noteq> js ''content''"
    by simp_all
  have "draft_of_json (Some (JObject ((case draft_title (request_draft r) of None \<Rightarrow> [] | Some t \<Rightarrow> [(js ''title'', JString t)])
         @ [(js ''content'', JString (draft_content (request_draft r)))]))) = Some (request_draft r)"
    using names by (auto simp: draft_of_json_def field_def simp del: js_simps split: option.split)
  then show ?thesis using v names by (simp add: request_json_def parseStoredRequest_def field_def del: js_simps)
qed

text \<open>A page opens with the storage of the tab and an empty memory.\<close>

datatype create_event = Pending js_text create_draft js_text | Confirm js_text js_text | Reload

fun create_step :: "create_state \<Rightarrow> create_event \<Rightarrow> create_state" where
  "create_step st (Pending scope d fresh) = fst (pendingDocumentCreateRequest scope d fresh st)"
| "create_step st (Confirm scope i) = confirmDocumentCreateRequest scope i st"
| "create_step st Reload = st\<lparr>volatile := Map.empty\<rparr>"

text \<open>The scopes in use, whose keys differ; a content scope is that of its draft.\<close>

fun event_in :: "js_text set \<Rightarrow> create_event \<Rightarrow> bool" where
  "event_in S (Pending scope d fresh) \<longleftrightarrow> scope \<in> S \<and> (is_content scope \<longrightarrow> scope = content_scope d)"
| "event_in S (Confirm scope i) \<longleftrightarrow> scope \<in> S"
| "event_in S Reload \<longleftrightarrow> True"

text \<open>A content scope says its draft.\<close>

lemma to_radix_below: "2 \<le> r \<Longrightarrow> c \<in> set (to_radix r n) \<Longrightarrow> \<exists>d < r. c = digit_unit d"
proof (induction r n rule: to_radix.induct)
  case (1 r n)
  show ?case
  proof (cases "n < r")
    case True
    then show ?thesis using "1.prems" by (subst (asm) to_radix.simps) auto
  next
    case False
    then have "c \<in> set (to_radix r (n div r)) \<or> c = digit_unit (n mod r)"
      using "1.prems" by (subst (asm) to_radix.simps) auto
    then show ?thesis
    proof
      assume "c \<in> set (to_radix r (n div r))"
      then show ?thesis using "1.IH" [OF _ "1.prems"(1)] False "1.prems"(1) by simp
    next
      assume "c = digit_unit (n mod r)"
      moreover have "n mod r < r" using "1.prems"(1) by simp
      ultimately show ?thesis by blast
    qed
  qed
qed

lemma length_prefixed_inject:
  assumes "to_radix 10 (length a) @ [58] @ a @ r = to_radix 10 (length b) @ [58] @ b @ s"
  shows "a = b \<and> r = s"
proof -
  have no: "58 \<notin> set (to_radix 10 n)" for n
  proof
    assume "58 \<in> set (to_radix 10 n)"
    then have "\<exists>d < 10. 58 = digit_unit d" by (rule to_radix_below [rotated]) simp
    then obtain d where d: "d < 10" "58 = digit_unit d" by blast
    then have "d \<in> {0, 1, 2, 3, 4, 5, 6, 7, 8, 9}" by auto
    then show False using d(2) by (auto simp: digit_unit_def)
  qed
  have "takeWhile (\<lambda>c. c \<noteq> 58) (to_radix 10 n @ [58] @ x) = to_radix 10 n" for n x
  proof -
    have "takeWhile (\<lambda>c. c \<noteq> 58) (to_radix 10 n @ [58] @ x) = to_radix 10 n @ takeWhile (\<lambda>c. c \<noteq> 58) ([58] @ x)"
      by (rule takeWhile_append2) (use no in auto)
    then show ?thesis by simp
  qed
  then have "to_radix 10 (length a) = to_radix 10 (length b)" using assms by metis
  then have "length a = length b" by (simp add: to_radix_inject)
  then show ?thesis using assms by simp
qed

lemma content_scope_inject: "content_scope d = content_scope e \<longleftrightarrow> d = e"
proof
  assume eq: "content_scope d = content_scope e"
  have first: "hd (js ''none'') \<noteq> hd (js ''some:'')" by simp
  have tail: "draft_content d = draft_content e"
    if "to_radix 10 (length (draft_content d)) @ [58] @ draft_content d = to_radix 10 (length (draft_content e)) @ [58] @ draft_content e"
    using length_prefixed_inject [of "draft_content d" "[]" "draft_content e" "[]"] that by simp
  show "d = e"
  proof (cases "draft_title d"; cases "draft_title e")
    assume "draft_title d = None" "draft_title e = None"
    then show ?thesis using eq tail by (simp add: content_scope_def create_draft.equality)
  next
    fix t assume "draft_title d = None" "draft_title e = Some t"
    then show ?thesis using eq by (simp add: content_scope_def)
  next
    fix t assume "draft_title d = Some t" "draft_title e = None"
    then show ?thesis using eq by (simp add: content_scope_def)
  next
    fix t u assume tu: "draft_title d = Some t" "draft_title e = Some u"
    then have "to_radix 10 (length t) @ [58] @ t @ [0] @ to_radix 10 (length (draft_content d)) @ [58] @ draft_content d
        = to_radix 10 (length u) @ [58] @ u @ [0] @ to_radix 10 (length (draft_content e)) @ [58] @ draft_content e"
      using eq by (simp add: content_scope_def)
    from length_prefixed_inject [OF this] have "t = u" "to_radix 10 (length (draft_content d)) @ [58] @ draft_content d = to_radix 10 (length (draft_content e)) @ [58] @ draft_content e"
      by simp_all
    then show ?thesis using tu tail by (simp add: create_draft.equality)
  qed
qed simp

text \<open>What is in memory is in the storage too.\<close>

definition stored_too :: "js_text set \<Rightarrow> create_state \<Rightarrow> bool" where
  "stored_too S st \<longleftrightarrow> readable st \<and> writable st
     \<and> (\<forall>scope r. volatile st scope = Some r \<longrightarrow> scope \<in> S \<and> persisted_request scope st = Some r \<and> (is_content scope \<longrightarrow> scope = content_scope (request_draft r)))"

lemma pending_cases:
  assumes "pendingDocumentCreateRequest scope d fresh st = (st', res)"
  obtains (unchanged) "st' = st" "res = None \<or> res = reusable_request scope d st \<and> validateScopeAndDraft scope d
      \<or> res = volatile st scope \<and> reusable_request scope d st = None \<and> validateScopeAndDraft scope d"
  | (created) "validateScopeAndDraft scope d" "is_uuid fresh" "reusable_request scope d st = None" "volatile st scope = None"
      "res = Some \<lparr>request_id = fresh, request_draft = d\<rparr>"
      "volatile st' = (volatile st)(scope \<mapsto> \<lparr>request_id = fresh, request_draft = d\<rparr>)" "readable st' = readable st" "writable st' = writable st"
      "session st' = (if writable st then (session st)(requestStorageKey scope \<mapsto> Some (request_json scope \<lparr>request_id = fresh, request_draft = d\<rparr>)) else session st)"
  using assms unfolding pendingDocumentCreateRequest_def by (auto simp: Let_def split: if_splits option.splits)

lemma persisted_other: "requestStorageKey scope \<noteq> requestStorageKey scope' \<Longrightarrow> session st' = (session st)(requestStorageKey scope' := v) \<Longrightarrow> readable st' = readable st \<Longrightarrow>
    persisted_request scope st' = persisted_request scope st"
  by (simp add: persisted_request_def)

lemma persisted_volatile: "persisted_request scope (st\<lparr>volatile := v\<rparr>) = persisted_request scope st"
  by (simp add: persisted_request_def)

lemma confirm_fields:
  "volatile (confirmDocumentCreateRequest scope i st) = (if map_option request_id (volatile st scope) = Some i then (volatile st)(scope := None) else volatile st)"
  "readable (confirmDocumentCreateRequest scope i st) = readable st" "writable (confirmDocumentCreateRequest scope i st) = writable st"
  "session (confirmDocumentCreateRequest scope i st) =
     (if map_option request_id (persisted_request scope st) = Some i then (session st)(requestStorageKey scope := None) else session st)"
  unfolding confirmDocumentCreateRequest_def Let_def
  by (simp_all only: persisted_volatile if_distrib [of "persisted_request scope"] if_cancel split: if_split)
    (simp_all del: map_option_eq_Some)

lemma confirm_other:
  "requestStorageKey scope' \<noteq> requestStorageKey scope \<or> map_option request_id (persisted_request scope st) \<noteq> Some i \<Longrightarrow>
     persisted_request scope' (confirmDocumentCreateRequest scope i st) = persisted_request scope' st"
proof (cases "map_option request_id (persisted_request scope st) = Some i")
  case True
  then show "requestStorageKey scope' \<noteq> requestStorageKey scope \<or> map_option request_id (persisted_request scope st) \<noteq> Some i \<Longrightarrow> ?thesis"
    by (simp add: persisted_request_def [of scope'] confirm_fields del: map_option_eq_Some)
next
  case False
  then show ?thesis by (simp add: persisted_request_def [of scope'] confirm_fields del: map_option_eq_Some)
qed

lemma create_step_stored:
  assumes keys: "inj_on requestStorageKey S" and st: "stored_too S st" and e: "event_in S e"
  shows "stored_too S (create_step st e)"
proof (cases e)
  case (Pending scope d fresh)
  obtain st' res where p: "pendingDocumentCreateRequest scope d fresh st = (st', res)" by fastforce
  have in_S: "scope \<in> S" "is_content scope \<longrightarrow> scope = content_scope d" using e Pending by simp_all
  from p show ?thesis
  proof (cases rule: pending_cases)
    case unchanged
    then show ?thesis using st Pending p by simp
  next
    case created
    let ?r = "\<lparr>request_id = fresh, request_draft = d\<rparr>"
    have w: "readable st" "writable st" using st by (simp_all add: stored_too_def)
    have mine: "persisted_request scope st' = Some ?r"
      using parse_request_json [of ?r scope] created w by (simp add: persisted_request_def)
    have "scope' \<in> S \<and> persisted_request scope' st' = Some r \<and> (is_content scope' \<longrightarrow> scope' = content_scope (request_draft r))"
      if v: "volatile st' scope' = Some r" for scope' r
    proof (cases "scope' = scope")
      case True
      then have "r = ?r" using v created(6) by simp
      then show ?thesis using True mine in_S by simp
    next
      case False
      then have old: "scope' \<in> S" "persisted_request scope' st = Some r" "is_content scope' \<longrightarrow> scope' = content_scope (request_draft r)"
        using v created(6) st by (simp_all add: stored_too_def)
      have "requestStorageKey scope' \<noteq> requestStorageKey scope" using keys old(1) in_S(1) False by (auto simp: inj_on_def)
      then show ?thesis using old persisted_other [of scope' scope st' st] created(7,9) w by simp
    qed
    then show ?thesis using Pending p created(7,8) w by (simp add: stored_too_def)
  qed
next
  case (Confirm scope i)
  have in_S: "scope \<in> S" using e Confirm by simp
  let ?c = "confirmDocumentCreateRequest scope i st"
  have "scope' \<in> S \<and> persisted_request scope' ?c = Some r \<and> (is_content scope' \<longrightarrow> scope' = content_scope (request_draft r))"
    if vol: "volatile ?c scope' = Some r" for scope' r
  proof -
    have old: "volatile st scope' = Some r" "scope' = scope \<Longrightarrow> request_id r \<noteq> i"
      using vol by (auto simp: confirm_fields split: if_splits)
    then have s: "scope' \<in> S" "persisted_request scope' st = Some r" "is_content scope' \<longrightarrow> scope' = content_scope (request_draft r)"
      using st unfolding stored_too_def by blast+
    have "requestStorageKey scope' \<noteq> requestStorageKey scope \<or> map_option request_id (persisted_request scope st) \<noteq> Some i"
      using keys s(1,2) in_S old(2) by (cases "scope' = scope") (auto simp: inj_on_def)
    then have "persisted_request scope' ?c = Some r" using s(2) confirm_other by simp
    then show ?thesis using s by simp
  qed
  then show ?thesis using st Confirm by (simp add: stored_too_def confirm_fields)
next
  case Reload
  then show ?thesis using st by (simp add: stored_too_def)
qed

text \<open>An identity in the storage stays there until it is confirmed.\<close>

lemma create_step_keeps:
  assumes keys: "inj_on requestStorageKey S" and st: "stored_too S st" and e: "event_in S e" "e \<noteq> Confirm scope (request_id r)" and s: "scope \<in> S"
    and p: "persisted_request scope st = Some r" "is_content scope \<longrightarrow> scope = content_scope (request_draft r)"
  shows "persisted_request scope (create_step st e) = Some r"
proof (cases e)
  case (Pending scope' d fresh)
  obtain st' res where q: "pendingDocumentCreateRequest scope' d fresh st = (st', res)" by fastforce
  from q show ?thesis
  proof (cases rule: pending_cases)
    case unchanged
    then show ?thesis using p Pending q by simp
  next
    case created
    have "scope' \<noteq> scope"
    proof
      assume same: "scope' = scope"
      have "is_content scope \<Longrightarrow> content_scope d = content_scope (request_draft r)" using p(2) same e(1) Pending by simp
      then have "is_content scope \<Longrightarrow> request_draft r = d" by (simp add: content_scope_inject)
      then have "reusable_request scope d st = Some r" using p(1) by (simp add: reusable_request_def)
      then show False using created(3) same by simp
    qed
    then have "requestStorageKey scope \<noteq> requestStorageKey scope'" using keys s e(1) Pending by (auto simp: inj_on_def)
    moreover have "writable st" using st by (simp add: stored_too_def)
    ultimately have "persisted_request scope st' = persisted_request scope st"
      using persisted_other [of scope scope' st' st] created(7,9) by simp
    then show ?thesis using p(1) Pending q by simp
  qed
next
  case (Confirm scope' i)
  have "requestStorageKey scope \<noteq> requestStorageKey scope' \<or> map_option request_id (persisted_request scope' st) \<noteq> Some i"
    using keys s e p(1) Confirm by (cases "scope' = scope") (auto simp: inj_on_def)
  then show ?thesis using p(1) Confirm confirm_other by simp
qed (use p persisted_volatile in simp)

definition opened :: "(js_text \<rightharpoonup> json option) \<Rightarrow> create_state" where
  "opened saved = \<lparr>session = saved, readable = True, writable = True, volatile = Map.empty\<rparr>"



text \<open>
  An identity found in the storage is not taken into the memory of the page: where the storage fails
  afterwards, the page gives the same creation another identity.
\<close>

lemma recovered_request_not_kept:
  assumes "reusable_request scope d st = Some p" "volatile st scope = None" "validateScopeAndDraft scope d" "is_uuid fresh"
  shows "snd (pendingDocumentCreateRequest scope d fresh' st) = Some p"
    and "snd (pendingDocumentCreateRequest scope d fresh (fst (pendingDocumentCreateRequest scope d fresh' st)\<lparr>readable := False\<rparr>))
      = Some \<lparr>request_id = fresh, request_draft = d\<rparr>"
proof -
  show "snd (pendingDocumentCreateRequest scope d fresh' st) = Some p" using assms by (simp add: pendingDocumentCreateRequest_def)
  have "reusable_request scope d (st\<lparr>readable := False\<rparr>) = None" by (simp add: reusable_request_def persisted_request_def)
  then show "snd (pendingDocumentCreateRequest scope d fresh (fst (pendingDocumentCreateRequest scope d fresh' st)\<lparr>readable := False\<rparr>))
      = Some \<lparr>request_id = fresh, request_draft = d\<rparr>"
    using assms by (simp add: pendingDocumentCreateRequest_def Let_def)
qed

end
