(* ===== verification/Spec2Isabelle.thy ===== *)
theory Spec2Isabelle
  imports Stable_Ranges Preview_Page Presence_Store Session_Connection Persist_Lock Wasm_Sites Wasm_Document Wasm_Manifest Agent_Execution Room_Access Pairing_Poll Portable_Bundle Hosted_Tools Qr_Symbol Source_Operations Source_Paste Review_Data Wild_Store Create_Request
begin

text \<open>
  Verification library of the Marks client, a collaborative Markdown editor that works offline
  first. The library models the TypeScript under \<open>client/src\<close> that decides whether what a user
  typed is kept, sent, merged and shown; the definitions are translated from the source, one per
  function or handler, and stay executable.

  \<^bold>\<open>The program.\<close> A page is a replica of a text document inside a Wasm component. CodeMirror edits
  reach the replica through the editor bridge, and replica changes come back through it. The
  session (\<open>EsbtEngine\<close>) owns the replica: it journals every local update in IndexedDB under a
  lock, sends it to the room over a WebSocket, resends it after a reconnect, and forgets it when
  the server has committed it. Commands, from people and from agents, go through one runtime and
  become edits of the same text. A preview renders the text in a worker, which is sent edits rather
  than texts, and patches the page block by block. Presence tells the others who is where.

  \<^bold>\<open>Theories and sources.\<close>
  \<^item> \<open>Marks_Prelude\<close>: JavaScript slices, safe integers, bytes, and the locales
    \<open>event_machine\<close> and \<open>monotone_machine\<close> that every state machine below interprets.
    \<open>Js_Text\<close>: UTF-16 texts, literals, lines, white space, \<open>toString(radix)\<close>.
  \<^item> \<open>Text_Edits\<close> (\<open>text/change.ts\<close>, \<open>markdown/worker-state.ts\<close>, \<open>reconcile\<close>): applying edits, the
    worker's acceptance test of a patch, the minimal replacement.
  \<^item> \<open>Editor_Bridge\<close> and \<open>Stable_Ranges\<close> (\<open>collab/esbt-engine.ts\<close>, lines 334 to 650): changes of the
    editor as replica operations, chunking, the microtask queues towards the views, text ranges
    that survive edits.
  \<^item> \<open>Preview_Sync\<close> (\<open>markdown/preview.ts\<close>, the supervisor and the worker): the delta protocol
    with its failures. \<open>Markdown_Blocks\<close> and \<open>Preview_Dom\<close>: block splitting, keys, tasks, and the
    reconciliation of the page with a rendered pass.
  \<^item> \<open>Wire_Protocol\<close>, \<open>Presence_Codec\<close> (\<open>collab/protocol.ts\<close>, \<open>collab/presence-store.ts\<close>): frames
    and their decoders. \<open>Presence_Store\<close>, \<open>Presence_Activity\<close>: the store of presence entries and the
    controller that publishes the own one.
  \<^item> \<open>Replica_Journal\<close> (\<open>collab/journal.ts\<close>): the durable record, its versions and transactions,
    with the locale \<open>retry_outbox\<close>. \<open>Persist_Lock\<close> (\<open>browser/persist-lock.ts\<close>,
    \<open>browser/network.ts\<close>): the lanes of the lock, Web Locks, deadlines and poisoning.
  \<^item> \<open>Wasm_Sites\<close>, \<open>Wasm_Document\<close>, \<open>Wasm_Manifest\<close> (\<open>collab/wasm/index.ts\<close>,
    \<open>collab/wasm/esbt-document.ts\<close>): site identifiers, the owner of the replica with its
    transactions and notifications, the provenance check of the component.
  \<^item> \<open>Session_State\<close> and \<open>Session_Engine\<close> (\<open>collab/esbt-engine.ts\<close>): the session's record, its leaf
    operations, and every handler, folded into \<open>session_step\<close>. \<open>Session_Invariants\<close> holds the
    locales that carry an invariant through all handlers from what the leaf operations keep of
    it; \<open>Session_Safety\<close>, \<open>Session_Journal\<close> and \<open>Session_Connection\<close> interpret them.
  \<^item> \<open>Command_Runtime\<close>, \<open>Agent_Execution\<close> (\<open>commands/runtime.ts\<close>, \<open>agent/execution.ts\<close>): who may run a
    command, what needs an approval, and the steps of a plan. \<open>Agent_Stream\<close>, \<open>Run_Store\<close>,
    \<open>Hosted_Tools\<close> (\<open>agent/gateway.ts\<close>, \<open>agent/run-store.ts\<close>,
    \<open>components/agent/AgentPill.tsx\<close>): events of hosted runs as they
    arrive in pieces, stored runs, and tool calls that survive a reload.
  \<^item> \<open>Auth_Protocol\<close>, \<open>Pairing_Poll\<close>, \<open>Room_Access\<close> (\<open>auth/protocol.ts\<close>,
    \<open>auth/pairing-poll.ts\<close>, \<open>auth/room-access.ts\<close>): signed messages,
    the poll that waits for a pairing, tickets to a room. \<open>Qr_Field\<close>, \<open>Qr_Symbol\<close>
    (\<open>lib/qr.ts\<close>): the symbol a pairing is scanned from.
  \<^item> \<open>Source_Operations\<close>, \<open>Source_Sections\<close>, \<open>Source_Headings\<close>, \<open>Source_Paste\<close>
    (\<open>intelligence/operations.ts\<close>): line differences, moving, promoting, renaming and pasting.
    \<open>Counterfactuals\<close>, \<open>Wild_Store\<close> (\<open>wild/model.ts\<close>, \<open>wild/store.ts\<close>,
    \<open>wild/observations.ts\<close>): patches that take a command back, what is remembered
    about a document, and observations of commands.
  \<^item> \<open>Object_Store\<close>: IndexedDB object stores as sorted lists of keys. \<open>Review_Data\<close>
    (\<open>data/review.ts\<close>): comments and versions of a document. \<open>Stored_Zip\<close>, \<open>Portable_Bundle\<close>
    (\<open>lib/stored-zip.ts\<close>, \<open>lib/portable-bundle.ts\<close>): the exported archive.
    \<open>Create_Request\<close> (\<open>browser/create-request.ts\<close>): the identity of a creation.

  \<^bold>\<open>How behaviour is represented.\<close> A JavaScript object is a record, a method a function on it that
  returns the updated record, an exception a value of a sum type. What a promise holds is explicit:
  a queue of transactions, a call in a lane, a message in a channel, a microtask counter. A run is
  a fold of the step function over a list of events in any order, so a theorem about all event
  lists covers every interleaving. Clocks, random bytes, sockets that throw, and the operations of
  the Wasm component are parameters (\<open>world\<close>, \<open>component\<close>); what is assumed of the component is
  written as \<open>component_contract\<close>, and \<open>plain_component\<close> shows that the assumption can be met.

  \<^bold>\<open>What is shown.\<close>
  \<^item> The preview: with nothing in flight it shows the rendering of exactly the current text, it
    catches up from every live state, and the recovery budget is kept; a pass applied in one go
    leaves the page with the blocks of the response.
  \<^item> No edit is lost: the operations sent to the replica produce the editor's text; what the
    session owes the server is in the journal or on its way into it; a pending mutation stays
    pending until it is acknowledged, nobody is told it is durable before, and a reconnect resends
    it; a stopped session is silent and read-only for good; a live one always has a way back.
  \<^item> Storage: appends are durable and idempotent, acknowledgements exact, stored journals of all
    versions settle in one reading; works under the lock exclude each other, each call gets one
    answer, and a missed deadline ends the lane.
  \<^item> The replica's owner: transactions are all or nothing, and a listener that follows the announced
    edits has the replica's text.
  \<^item> The wire: encoders and decoders invert each other and what is decoded is bounded; presence is
    not replayed and reaches the peers.
  \<^item> Commands and agents: an agent's effect without an approval never runs, a run is resolved once, a
    reload launches nothing a second time, events are delivered once and in order however they are
    cut into pieces; signed messages of different meaning differ; the poll returns.
  \<^item> The text tools: differences rebuild both texts, sections move whole, headings read back as
    written, a patch replaces what it expects; the archive and the symbol read back as what was
    put in; remembered data stay bounded; a creation keeps its identity until it is confirmed.
  Some theorems state where the code misses what its comments promise; the manifest lists them.

  \<^bold>\<open>Loops and bounds.\<close> Loops are structural or have a termination proof by a measure (the chunk
  loops, \<open>to_radix\<close>, the block splitter, the frames of an event stream, the placement of the
  symbol's columns, the line difference, the bisection, the searches for anchors, the trimming of
  logs). \<open>pollPairingUntilSettled\<close> may wait for ever as written and is a \<open>partial_function\<close>, with a
  proof that it returns. Fuel is used once, for the pages of comments, with the number of comments
  plus one, and proved enough. Progress of the asynchronous protocols is proved as reachability,
  for the preview by a measure of the messages still in flight.

  \<^bold>\<open>Not modelled.\<close> The React components, styles and pages, which only display state; the Rust crates
  of the service and the Wasm engine itself with its generated bindings, which are other
  languages; benchmarks, build, deployment and test scripts; the WebGPU surface. Of modelled
  parts: telemetry counters, the discarding of an outdated cache of the welcome page, the
  configuration of a new replica, and markdown-it, KaTeX and highlighting, which are parameters
  of the block renderer. Still open among the client's own logic: the tab channel, the planner of
  local agents, review data kept by the service, presence decorations, the import of documents,
  and the texts the possibility panel derives.
\<close>

end
